(* ===== verification/Prelude.thy ===== *)
theory Prelude
  imports Main "HOL-Library.Word"
begin

section \<open>Prelude: shared types, error plumbing, big-endian integers\<close>

text \<open>
  What every component of the development shares: bytes and byte strings, results that
  carry a thrown exception as a value, \<open>vector_ref::cropped\<close> on byte strings, and the
  big-endian conversions of \<open>libdevcore/CommonData.h\<close>.
\<close>

named_theorems result_simps \<open>unfolding of the error-carrying results\<close>

subsection \<open>Byte strings\<close>

type_synonym byte = "8 word"
type_synonym bytes = "byte list"
type_synonym u64 = "64 word"
type_synonym u256 = "256 word"

subsection \<open>Results: a thrown exception is the value on the left\<close>

definition ebind :: "'e + 'a \<Rightarrow> ('a \<Rightarrow> 'e + 'b) \<Rightarrow> 'e + 'b" where
  "ebind r f = (case r of Inl e \<Rightarrow> Inl e | Inr x \<Rightarrow> f x)"

lemma ebind_simps [simp, result_simps]:
  "ebind (Inl e) f = Inl e"
  "ebind (Inr x) f = f x"
  by (simp_all add: ebind_def)

lemma ebind_Inr_right [simp, result_simps]: "ebind r Inr = r"
  by (cases r) simp_all

lemma ebind_assoc [result_simps]: "ebind (ebind r f) g = ebind r (\<lambda>x. ebind (f x) g)"
  by (cases r) simp_all

lemma ebind_Inr_iff: "ebind r f = Inr y \<longleftrightarrow> (\<exists>x. r = Inr x \<and> f x = Inr y)"
  by (cases r) simp_all

lemma ebind_Inl_iff: "ebind r f = Inl e \<longleftrightarrow> r = Inl e \<or> (\<exists>x. r = Inr x \<and> f x = Inl e)"
  by (cases r) auto

lemma ebind_cong [fundef_cong]:
  "r = r' \<Longrightarrow> (\<And>x. r' = Inr x \<Longrightarrow> f x = g x) \<Longrightarrow> ebind r f = ebind r' g"
  by (cases r') simp_all

subsection \<open>Views on a byte string (\<open>vector_ref\<close>)\<close>

text \<open>
  \<open>vector_ref::cropped (begin, count)\<close> answers the empty view when the window leaves the
  data in any way; \<open>cropped (begin)\<close> runs to the end.
\<close>

definition cropped :: "'a list \<Rightarrow> nat \<Rightarrow> nat \<Rightarrow> 'a list" where
  "cropped d b c =
     (if b \<le> length d \<and> c \<le> length d \<and> b + c \<le> length d then take c (drop b d) else [])"

definition cropped_from :: "'a list \<Rightarrow> nat \<Rightarrow> 'a list" where
  "cropped_from d b = (if b \<le> length d then drop b d else [])"

lemma length_cropped_le: "length (cropped d b c) \<le> c"
  by (simp add: cropped_def)

lemma cropped_0 [simp]: "n \<le> length d \<Longrightarrow> cropped d 0 n = take n d"
  by (simp add: cropped_def)

lemma cropped_append [simp]: "cropped (xs @ ys @ zs) (length xs) (length ys) = ys"
  by (simp add: cropped_def)

subsection \<open>Big-endian integers\<close>

text \<open>\<open>toBigEndian\<close> into a buffer of \<open>k\<close> bytes: the low bytes of the value, most significant first.\<close>

fun toBigEndian :: "nat \<Rightarrow> nat \<Rightarrow> bytes" where
  "toBigEndian 0 n = []"
| "toBigEndian (Suc k) n = toBigEndian k (n div 256) @ [of_nat n]"

text \<open>\<open>fromBigEndian<bigint>\<close>, and its instance at a \<open>w\<close>-bit unsigned type.\<close>

definition fromBigEndian :: "bytes \<Rightarrow> nat" where
  "fromBigEndian bs = foldl (\<lambda>r b. r * 256 + unat b) 0 bs"

definition fromBigEndian_w :: "nat \<Rightarrow> bytes \<Rightarrow> nat" where
  "fromBigEndian_w w bs = foldl (\<lambda>r b. (r * 256 + unat b) mod 2 ^ w) 0 bs"

fun bytesRequired :: "nat \<Rightarrow> nat" where
  "bytesRequired n = (if n = 0 then 0 else Suc (bytesRequired (n div 256)))"

declare bytesRequired.simps [simp del]

lemma bytesRequired_0 [simp]: "bytesRequired 0 = 0"
  by (simp add: bytesRequired.simps)

lemma bytesRequired_pos: "0 < n \<Longrightarrow> bytesRequired n = Suc (bytesRequired (n div 256))"
  by (simp add: bytesRequired.simps)

lemma length_toBigEndian [simp]: "length (toBigEndian k n) = k"
  by (induction k arbitrary: n) auto

lemma unat_of_nat_byte: "unat (of_nat n :: byte) = n mod 256"
  by (simp add: unat_of_nat)

lemma unat_of_nat_small: "n < 256 \<Longrightarrow> unat (of_nat n :: byte) = n"
  by (simp only: unat_of_nat_byte mod_less)

lemma unat_byte_lt [simp]: "unat (b :: byte) < 256"
  using unsigned_less [of b] by simp

lemma unat_byte_le [simp]: "unat (b :: byte) \<le> 255"
  using unat_byte_lt [of b] by linarith

lemma fromBigEndian_Nil [simp]: "fromBigEndian [] = 0"
  by (simp add: fromBigEndian_def)

lemma fromBigEndian_snoc [simp]: "fromBigEndian (bs @ [b]) = fromBigEndian bs * 256 + unat b"
  by (simp add: fromBigEndian_def)

lemma fromBigEndian_lt: "fromBigEndian bs < 256 ^ length bs"
proof (induction bs rule: rev_induct)
  case Nil
  then show ?case by simp
next
  case (snoc b bs)
  have "fromBigEndian bs * 256 + unat b < (fromBigEndian bs + 1) * 256"
    by simp
  also have "\<dots> \<le> 256 ^ length bs * 256"
    using snoc by (intro mult_le_mono) auto
  finally show ?case by simp
qed

lemma fromBigEndian_toBigEndian: "fromBigEndian (toBigEndian k n) = n mod 256 ^ k"
proof (induction k arbitrary: n)
  case 0
  then show ?case by simp
next
  case (Suc k)
  have "fromBigEndian (toBigEndian (Suc k) n) = (n div 256 mod 256 ^ k) * 256 + n mod 256"
    by (simp add: Suc unat_of_nat_byte)
  also have "\<dots> = n mod (256 * 256 ^ k)"
    by (simp add: mod_mult2_eq)
  finally show ?case by simp
qed

lemma toBigEndian_fromBigEndian: "toBigEndian (length bs) (fromBigEndian bs) = bs"
proof (induction bs rule: rev_induct)
  case Nil
  then show ?case by simp
next
  case (snoc b bs)
  have "(fromBigEndian bs * 256 + unat b) div 256 = fromBigEndian bs"
    by (simp add: div_add1_eq)
  moreover have "(of_nat (fromBigEndian bs * 256 + unat b) :: byte) = b"
    by (rule word_unat_eq_iff [THEN iffD2]) (simp only: unat_of_nat_byte, simp)
  ultimately show ?case using snoc by (simp del: of_nat_add)
qed

lemma bytesRequired_le_iff: "bytesRequired n \<le> k \<longleftrightarrow> n < 256 ^ k"
proof (induction k arbitrary: n)
  case 0
  then show ?case by (cases "n = 0") (auto simp: bytesRequired_pos)
next
  case (Suc k)
  have "n div 256 < 256 ^ k \<longleftrightarrow> n < 256 ^ k * 256"
    by (simp add: less_mult_imp_div_less div_less_iff_less_mult)
  then show ?case
    using Suc by (cases "n = 0") (auto simp: bytesRequired_pos mult.commute)
qed

lemma lt_pow_bytesRequired: "n < 256 ^ bytesRequired n"
  using bytesRequired_le_iff by blast

lemma bytesRequired_pos_iff [simp]: "0 < bytesRequired n \<longleftrightarrow> 0 < n"
  by (cases "n = 0") (auto simp: bytesRequired_pos)

lemma bytesRequired_eq_0 [simp]: "bytesRequired n = 0 \<longleftrightarrow> n = 0"
  by (cases "n = 0") (auto simp: bytesRequired_pos)

lemma fromBigEndian_compact [simp]:
  "fromBigEndian (toBigEndian (bytesRequired n) n) = n"
  by (simp add: fromBigEndian_toBigEndian lt_pow_bytesRequired)

text \<open>The compact form has no leading zero byte.\<close>

lemma fromBigEndian_Cons: "fromBigEndian (b # bs) = unat b * 256 ^ length bs + fromBigEndian bs"
  by (induction bs rule: rev_induct) (auto simp: fromBigEndian_def algebra_simps)

lemma hd_toBigEndian_nonzero:
  assumes "0 < n"
  shows "hd (toBigEndian (bytesRequired n) n) \<noteq> 0"
proof
  assume hd0: "hd (toBigEndian (bytesRequired n) n) = 0"
  obtain k where k: "bytesRequired n = Suc k"
    using assms bytesRequired_pos by auto
  then obtain b bs where b: "toBigEndian (bytesRequired n) n = b # bs" and "length bs = k"
    by (metis length_Suc_conv length_toBigEndian)
  with hd0 have "n = fromBigEndian bs"
    using fromBigEndian_compact [of n] by (simp add: fromBigEndian_Cons)
  then have "n < 256 ^ k"
    using fromBigEndian_lt [of bs] \<open>length bs = k\<close> by simp
  then show False
    using k bytesRequired_le_iff [of n k] by simp
qed

lemma bytesRequired_fromBigEndian:
  assumes "bs \<noteq> []" and "hd bs \<noteq> 0"
  shows "bytesRequired (fromBigEndian bs) = length bs"
proof (rule antisym)
  show "bytesRequired (fromBigEndian bs) \<le> length bs"
    by (simp add: bytesRequired_le_iff fromBigEndian_lt)
  from assms obtain b cs where bs: "bs = b # cs" and "b \<noteq> 0" by (cases bs) auto
  then have "0 < unat b" by (simp add: unat_gt_0)
  then have "256 ^ length cs \<le> fromBigEndian bs"
    by (simp add: bs fromBigEndian_Cons trans_le_add1)
  then have "\<not> bytesRequired (fromBigEndian bs) \<le> length cs"
    by (simp add: bytesRequired_le_iff not_less)
  then show "length bs \<le> bytesRequired (fromBigEndian bs)"
    by (simp add: bs)
qed

lemma fromBigEndian_w_eq: "fromBigEndian_w w bs = fromBigEndian bs mod 2 ^ w"
proof (induction bs rule: rev_induct)
  case Nil
  then show ?case by (simp add: fromBigEndian_w_def)
next
  case (snoc b bs)
  then show ?case
    by (simp add: fromBigEndian_w_def mod_add_left_eq mod_mult_left_eq)
      (metis mod_add_left_eq mod_mult_left_eq)
qed

end
