(* ===== verification/RLP_Reader.thy ===== *)
theory RLP_Reader
  imports Prelude
begin

section \<open>The RLP reader (\<open>libdevcore/RLP.h\<close>, class \<open>RLP\<close>)\<close>

text \<open>
  An \<open>RLP\<close> object is a view \<open>m_data\<close> on a byte string together with a list-indexing cache.
  The pure queries below take the view; the cached subscript \<open>operator[]\<close> and the iterators
  carry the mutable fields explicitly. Every \<open>BOOST_THROW_EXCEPTION\<close> is an \<open>Inl\<close>.
  \<open>size_t\<close> is 64 bits wide; no sum below can leave that range because \<open>length\<close> refuses
  payloads within 0x100 of the maximum.
\<close>

datatype rlp_error = BadCast | BadRLP | OversizeRLP | UndersizeRLP | RLPException
  | OutOfView \<comment> \<open>a read past the view: no exception in C++ but undefined behaviour\<close>

type_synonym 'a rlp_result = "rlp_error + 'a"

subsection \<open>Constants and strictness flags\<close>

definition c_rlpMaxLengthBytes :: nat where "c_rlpMaxLengthBytes = 8"
definition c_rlpDataImmLenStart :: nat where "c_rlpDataImmLenStart = 0x80"
definition c_rlpListStart :: nat where "c_rlpListStart = 0xc0"
definition c_rlpDataImmLenCount :: nat where
  "c_rlpDataImmLenCount = c_rlpListStart - c_rlpDataImmLenStart - c_rlpMaxLengthBytes"
definition c_rlpDataIndLenZero :: nat where
  "c_rlpDataIndLenZero = c_rlpDataImmLenStart + c_rlpDataImmLenCount - 1"
definition c_rlpListImmLenCount :: nat where
  "c_rlpListImmLenCount = 256 - c_rlpListStart - c_rlpMaxLengthBytes"
definition c_rlpListIndLenZero :: nat where
  "c_rlpListIndLenZero = c_rlpListStart + c_rlpListImmLenCount - 1"

lemma c_rlp_consts [simp]:
  "c_rlpMaxLengthBytes = 8" "c_rlpDataImmLenStart = 128" "c_rlpListStart = 192"
  "c_rlpDataImmLenCount = 56" "c_rlpDataIndLenZero = 183"
  "c_rlpListImmLenCount = 56" "c_rlpListIndLenZero = 247"
  by (simp_all add: c_rlpMaxLengthBytes_def c_rlpDataImmLenStart_def c_rlpListStart_def
      c_rlpDataImmLenCount_def c_rlpDataIndLenZero_def c_rlpListImmLenCount_def
      c_rlpListIndLenZero_def)

record rlp_flags =
  AllowNonCanon :: bool
  ThrowOnFail :: bool
  FailIfTooBig :: bool
  FailIfTooSmall :: bool

definition Strict :: rlp_flags where
  "Strict = \<lparr>AllowNonCanon = False, ThrowOnFail = True, FailIfTooBig = True, FailIfTooSmall = False\<rparr>"
definition VeryStrict :: rlp_flags where
  "VeryStrict = \<lparr>AllowNonCanon = False, ThrowOnFail = True, FailIfTooBig = True, FailIfTooSmall = True\<rparr>"
definition LaissezFaire :: rlp_flags where
  "LaissezFaire = \<lparr>AllowNonCanon = True, ThrowOnFail = False, FailIfTooBig = False, FailIfTooSmall = False\<rparr>"
definition ThrowTooSmall :: rlp_flags where
  "ThrowTooSmall = \<lparr>AllowNonCanon = False, ThrowOnFail = True, FailIfTooBig = False, FailIfTooSmall = True\<rparr>"

lemma rlp_flag_sel [simp]:
  "\<not> AllowNonCanon Strict" "ThrowOnFail Strict" "FailIfTooBig Strict" "\<not> FailIfTooSmall Strict"
  "\<not> AllowNonCanon VeryStrict" "ThrowOnFail VeryStrict" "FailIfTooBig VeryStrict" "FailIfTooSmall VeryStrict"
  "AllowNonCanon LaissezFaire" "\<not> ThrowOnFail LaissezFaire" "\<not> FailIfTooBig LaissezFaire"
  "\<not> FailIfTooSmall LaissezFaire"
  "\<not> AllowNonCanon ThrowTooSmall" "ThrowOnFail ThrowTooSmall" "\<not> FailIfTooBig ThrowTooSmall"
  "FailIfTooSmall ThrowTooSmall"
  by (simp_all add: Strict_def VeryStrict_def LaissezFaire_def ThrowTooSmall_def)

subsection \<open>Shape queries\<close>

abbreviation byte0 :: "bytes \<Rightarrow> nat" where "byte0 d \<equiv> unat (d ! 0)"
abbreviation byte1 :: "bytes \<Rightarrow> nat" where "byte1 d \<equiv> unat (d ! 1)"

definition isNull :: "bytes \<Rightarrow> bool" where
  "isNull d \<longleftrightarrow> length d = 0"

definition isEmpty :: "bytes \<Rightarrow> bool" where
  "isEmpty d \<longleftrightarrow> \<not> isNull d \<and> (byte0 d = c_rlpDataImmLenStart \<or> byte0 d = c_rlpListStart)"

definition isData :: "bytes \<Rightarrow> bool" where
  "isData d \<longleftrightarrow> \<not> isNull d \<and> byte0 d < c_rlpListStart"

definition isList :: "bytes \<Rightarrow> bool" where
  "isList d \<longleftrightarrow> \<not> isNull d \<and> byte0 d \<ge> c_rlpListStart"

definition isSingleByte :: "bytes \<Rightarrow> bool" where
  "isSingleByte d \<longleftrightarrow> \<not> isNull d \<and> byte0 d < c_rlpDataImmLenStart"

definition requireGood :: "bytes \<Rightarrow> unit rlp_result" where
  "requireGood d =
     (if isNull d then Inl BadRLP
      else if byte0 d \<noteq> c_rlpDataImmLenStart + 1 then Inr ()
      else if length d < 2 then Inl BadRLP
      else if byte1 d < c_rlpDataImmLenStart then Inl BadRLP
      else Inr ())"

definition isInt :: "bytes \<Rightarrow> bool rlp_result" where
  "isInt d =
     (if isNull d then Inr False
      else ebind (requireGood d) (\<lambda>_.
        let n = byte0 d in
        if n < c_rlpDataImmLenStart then Inr (n \<noteq> 0)
        else if n = c_rlpDataImmLenStart then Inr True
        else if n \<le> c_rlpDataIndLenZero then
          (if length d \<le> 1 then Inl BadRLP else Inr (byte1 d \<noteq> 0))
        else if n < c_rlpListStart then
          (if length d \<le> 1 + n - c_rlpDataIndLenZero then Inl BadRLP
           else Inr (unat (d ! (1 + n - c_rlpDataIndLenZero)) \<noteq> 0))
        else Inr False))"

definition lengthSize :: "bytes \<Rightarrow> nat" where
  "lengthSize d =
     (if isData d \<and> byte0 d > c_rlpDataIndLenZero then byte0 d - c_rlpDataIndLenZero
      else if isList d \<and> byte0 d > c_rlpListIndLenZero then byte0 d - c_rlpListIndLenZero
      else 0)"

subsection \<open>Sizes\<close>

text \<open>The big-endian length field that follows a long-form prefix byte.\<close>

definition length_field :: "bytes \<Rightarrow> nat \<Rightarrow> nat rlp_result" where
  "length_field d ls =
     (if length d \<le> ls then Inl BadRLP
      else if length d > 1 \<and> byte1 d = 0 then Inl BadRLP
      else if ls > 8 then Inl UndersizeRLP
      else if byte1 d = 0 then Inl BadRLP
      else Inr (fromBigEndian (take ls (drop 1 d))))"

definition rlp_length :: "bytes \<Rightarrow> nat rlp_result" where
  "rlp_length d =
     (if isNull d then Inr 0
      else ebind (requireGood d) (\<lambda>_.
        let n = byte0 d;
            checked = (\<lambda>ret. if ret \<ge> 2 ^ 64 - 1 - 0x100 then Inl UndersizeRLP else Inr ret)
        in
        if n < c_rlpDataImmLenStart then Inr 1
        else if n \<le> c_rlpDataIndLenZero then Inr (n - c_rlpDataImmLenStart)
        else if n < c_rlpListStart then
          ebind (length_field d (n - c_rlpDataIndLenZero)) (\<lambda>ret.
            if ret < c_rlpListStart - c_rlpDataImmLenStart - c_rlpMaxLengthBytes
            then Inl BadRLP else checked ret)
        else if n \<le> c_rlpListIndLenZero then Inr (n - c_rlpListStart)
        else
          ebind (length_field d (n - c_rlpListIndLenZero)) (\<lambda>ret.
            if ret < 0x100 - c_rlpListStart - c_rlpMaxLengthBytes
            then Inl BadRLP else checked ret)))"

definition payloadOffset :: "bytes \<Rightarrow> nat" where
  "payloadOffset d = (if isSingleByte d then 0 else 1 + lengthSize d)"

definition payload :: "bytes \<Rightarrow> bytes rlp_result" where
  "payload d =
     ebind (rlp_length d) (\<lambda>l.
       if l > length d then Inl BadRLP else Inr (cropped d (payloadOffset d) l))"

definition actualSize :: "bytes \<Rightarrow> nat rlp_result" where
  "actualSize d =
     (if isNull d then Inr 0
      else if isSingleByte d then Inr 1
      else if isData d \<or> isList d then ebind (rlp_length d) (\<lambda>l. Inr (payloadOffset d + l))
      else Inr 0)"

text \<open>
  The constructor \<open>RLP (_d, _s)\<close>: the view it keeps, or the exception it throws. The two
  size checks run in sequence, the second on the view the first may have reset.
\<close>

definition RLP :: "bytes \<Rightarrow> rlp_flags \<Rightarrow> bytes rlp_result" where
  "RLP d s =
     ebind
       (if FailIfTooBig s
        then ebind (actualSize d) (\<lambda>n.
          if n < length d then (if ThrowOnFail s then Inl OversizeRLP else Inr []) else Inr d)
        else Inr d)
       (\<lambda>m.
         if FailIfTooSmall s
         then ebind (actualSize m) (\<lambda>n.
           if n > length d then (if ThrowOnFail s then Inl UndersizeRLP else Inr []) else Inr m)
         else Inr m)"

definition sizeAsEncoded :: "bytes \<Rightarrow> nat rlp_result" where
  "sizeAsEncoded d = ebind (RLP d ThrowTooSmall) actualSize"

lemma isData_or_isList: "\<not> isNull d \<Longrightarrow> isData d \<or> isList d"
  by (auto simp: isData_def isList_def)

lemma actualSize_pos: "actualSize d = Inr n \<Longrightarrow> d \<noteq> [] \<Longrightarrow> 0 < n"
  using isData_or_isList [of d]
  by (auto simp: actualSize_def isNull_def payloadOffset_def ebind_Inr_iff split: if_splits)

lemma sizeAsEncoded_eq:
  "sizeAsEncoded d =
     ebind (actualSize d) (\<lambda>n. if n > length d then Inl UndersizeRLP else Inr n)"
  by (cases "actualSize d") (auto simp: sizeAsEncoded_def RLP_def)

lemma sizeAsEncoded_bounds:
  "sizeAsEncoded d = Inr n \<Longrightarrow> n \<le> length d \<and> (d \<noteq> [] \<longrightarrow> 0 < n)"
  by (auto simp: sizeAsEncoded_eq ebind_Inr_iff actualSize_pos split: if_splits)

subsection \<open>Counting and indexing the items of a list\<close>

text \<open>The loop of \<open>RLP::items\<close>.\<close>

function items_loop :: "bytes \<Rightarrow> nat rlp_result" where
  "items_loop d =
     (if d = [] then Inr 0
      else case sizeAsEncoded d of
        Inl e \<Rightarrow> Inl e
      | Inr n \<Rightarrow> ebind (items_loop (cropped_from d n)) (\<lambda>i. Inr (Suc i)))"
  by pat_completeness auto
termination
  by (relation "measure length") (auto simp: cropped_from_def dest: sizeAsEncoded_bounds)

declare items_loop.simps [simp del]

definition items :: "bytes \<Rightarrow> nat rlp_result" where
  "items d = (if isList d then ebind (payload d) items_loop else Inr 0)"

definition itemCount :: "bytes \<Rightarrow> nat rlp_result" where
  "itemCount d = (if isList d then items d else Inr 0)"

definition itemCountStrict :: "bytes \<Rightarrow> nat rlp_result" where
  "itemCountStrict d = (if \<not> isList d then Inl BadCast else items d)"

definition rlp_size :: "bytes \<Rightarrow> nat rlp_result" where
  "rlp_size d = (if isData d then rlp_length d else Inr 0)"

text \<open>
  \<open>operator[]\<close> with its cache \<open>m_lastIndex\<close>, \<open>m_lastEnd\<close>, \<open>m_lastItem\<close>. The cache is mutable
  state and keeps what was written before an exception leaves the function; \<open>m_lastIndex\<close>
  starts at the largest \<open>size_t\<close>.
\<close>

record rlp_obj =
  m_data :: bytes
  m_lastIndex :: nat
  m_lastEnd :: nat
  m_lastItem :: bytes

definition rlp_obj_of :: "bytes \<Rightarrow> rlp_obj" where
  "rlp_obj_of d = \<lparr>m_data = d, m_lastIndex = 2 ^ 64 - 1, m_lastEnd = 0, m_lastItem = []\<rparr>"

function at_loop :: "rlp_obj \<Rightarrow> nat \<Rightarrow> rlp_obj \<times> unit rlp_result" where
  "at_loop r i =
     (if m_lastIndex r < i \<and> length (m_lastItem r) \<noteq> 0 then
        (case payload (m_data r) of
           Inl e \<Rightarrow> (r, Inl e)
         | Inr pl \<Rightarrow>
           (let rest = cropped_from pl (m_lastEnd r); r1 = r\<lparr>m_lastItem := rest\<rparr> in
            case sizeAsEncoded rest of
              Inl e \<Rightarrow> (r1, Inl e)
            | Inr n \<Rightarrow>
              (let it = cropped rest 0 n in
               at_loop (r1\<lparr>m_lastItem := it, m_lastEnd := m_lastEnd r + length it,
                           m_lastIndex := Suc (m_lastIndex r)\<rparr>) i)))
      else (r, Inr ()))"
  by pat_completeness auto
termination
  by (relation "measure (\<lambda>(r, i). i - m_lastIndex r)") auto

declare at_loop.simps [simp del]

definition rlp_at_obj :: "rlp_obj \<Rightarrow> nat \<Rightarrow> rlp_obj \<times> bytes rlp_result" where
  "rlp_at_obj r i =
     (let start =
        (if i < m_lastIndex r then
           (case payload (m_data r) of
              Inl e \<Rightarrow> (r, Inl e)
            | Inr pl \<Rightarrow>
              (case sizeAsEncoded pl of
                 Inl e \<Rightarrow> (r, Inl e)
               | Inr n \<Rightarrow> (r\<lparr>m_lastEnd := n, m_lastItem := cropped pl 0 n, m_lastIndex := 0\<rparr>, Inr ())))
         else (r, Inr ()))
      in case start of
           (r1, Inl e) \<Rightarrow> (r1, Inl e)
         | (r1, Inr _) \<Rightarrow>
           (case at_loop r1 i of
              (r2, Inl e) \<Rightarrow> (r2, Inl e)
            | (r2, Inr _) \<Rightarrow> (r2, RLP (m_lastItem r2) ThrowTooSmall)))"

text \<open>A subscript on a fresh view, as in \<open>_r[0][1]\<close>, where every intermediate is a temporary.\<close>

definition rlp_at :: "bytes \<Rightarrow> nat \<Rightarrow> bytes rlp_result" where
  "rlp_at d i = snd (rlp_at_obj (rlp_obj_of d) i)"

subsection \<open>Conversions\<close>

definition toBytes :: "rlp_flags \<Rightarrow> bytes \<Rightarrow> bytes rlp_result" where
  "toBytes fl d =
     (if \<not> isData d then (if ThrowOnFail fl then Inl BadCast else Inr [])
      else ebind (payload d) (\<lambda>p. ebind (rlp_length d) (\<lambda>l.
        if l = length p then Inr p else Inl OutOfView)))"

text \<open>\<open>toInt<_T>\<close> for an unsigned \<open>_T\<close> of \<open>maxSize\<close> bytes.\<close>

definition toInt :: "nat \<Rightarrow> rlp_flags \<Rightarrow> bytes \<Rightarrow> nat rlp_result" where
  "toInt maxSize fl d =
     ebind (requireGood d) (\<lambda>_.
     ebind (isInt d) (\<lambda>int.
       if (\<not> int \<and> \<not> AllowNonCanon fl) \<or> isList d \<or> isNull d
       then (if ThrowOnFail fl then Inl BadCast else Inr 0)
       else ebind (payload d) (\<lambda>p.
         if length p > maxSize \<and> FailIfTooBig fl
         then (if ThrowOnFail fl then Inl BadCast else Inr 0)
         else Inr (fromBigEndian_w (8 * maxSize) p))))"

text \<open>\<open>toHash<FixedHash<N> >\<close>: right-aligned in a zeroed hash, truncated to its first \<open>N\<close> bytes.\<close>

definition toHash :: "nat \<Rightarrow> rlp_flags \<Rightarrow> bytes \<Rightarrow> bytes rlp_result" where
  "toHash N fl d =
     ebind (requireGood d) (\<lambda>_.
     ebind (payload d) (\<lambda>p.
       let l = length p in
       if \<not> isData d \<or> (l > N \<and> FailIfTooBig fl) \<or> (l < N \<and> FailIfTooSmall fl)
       then (if ThrowOnFail fl then Inl BadCast else Inr (replicate N 0))
       else (let s = min N l in Inr (replicate (N - s) 0 @ take s p))))"

subsection \<open>Iterators\<close>

text \<open>
  An iterator is a window \<open>m_currentItem\<close> on the parent's data, here its offset (\<open>None\<close> for the
  null pointer an out-of-range \<open>cropped\<close> yields) and size, and the number of payload bytes left
  after it. Two iterators are equal when their windows are: \<open>end ()\<close> is the empty window at the
  end of the data.
\<close>

record rlp_iter =
  it_pos :: "nat option"
  it_size :: nat
  m_remaining :: nat

definition it_begin :: "bytes \<Rightarrow> rlp_iter rlp_result" where
  "it_begin d =
     (if isList d then
        ebind (rlp_length d) (\<lambda>l. ebind (payload d) (\<lambda>pl. ebind (sizeAsEncoded pl) (\<lambda>n.
          Inr \<lparr>it_pos = (if payloadOffset d + l \<le> length d then Some (payloadOffset d) else None),
               it_size = n, m_remaining = length pl - n\<rparr>)))
      else Inr \<lparr>it_pos = Some (length d), it_size = 0, m_remaining = 0\<rparr>)"

definition it_window :: "bytes \<Rightarrow> nat option \<Rightarrow> nat \<Rightarrow> bytes" where
  "it_window d p n = (case p of None \<Rightarrow> [] | Some k \<Rightarrow> take n (drop k d))"

definition it_incr :: "bytes \<Rightarrow> rlp_iter \<Rightarrow> rlp_iter rlp_result" where
  "it_incr d it =
     (let p = map_option (\<lambda>k. k + it_size it) (it_pos it) in
      if m_remaining it \<noteq> 0 then
        ebind (sizeAsEncoded (it_window d p (m_remaining it))) (\<lambda>n.
          Inr \<lparr>it_pos = p, it_size = n, m_remaining = m_remaining it - min (m_remaining it) n\<rparr>)
      else Inr \<lparr>it_pos = p, it_size = 0, m_remaining = 0\<rparr>)"

text \<open>
  The range-for loop \<open>for (auto const& i: *this)\<close> with a body that converts the item and pushes
  it back; the item is the view \<open>operator*\<close> of the iterator constructs (with \<open>VeryStrict\<close>).
  \<open>None\<close> means the loop never ends, which happens when no window of the walk is \<open>end ()\<close>.
\<close>

partial_function (option) iterate ::
    "(bytes \<Rightarrow> 'a rlp_result) \<Rightarrow> bytes \<Rightarrow> rlp_iter \<Rightarrow> 'a list \<Rightarrow> 'a list rlp_result option" where
  "iterate f d it acc =
     (if it_pos it = Some (length d) \<and> it_size it = 0 then Some (Inr acc)
      else case ebind (RLP (it_window d (it_pos it) (it_size it)) VeryStrict) f of
        Inl e \<Rightarrow> Some (Inl e)
      | Inr x \<Rightarrow>
        (case it_incr d it of
           Inl e \<Rightarrow> Some (Inl e)
         | Inr it' \<Rightarrow> iterate f d it' (acc @ [x])))"

definition range_for :: "(bytes \<Rightarrow> 'a rlp_result) \<Rightarrow> bytes \<Rightarrow> 'a list rlp_result option" where
  "range_for f d = (case it_begin d of Inl e \<Rightarrow> Some (Inl e) | Inr it \<Rightarrow> iterate f d it [])"

definition toList :: "rlp_flags \<Rightarrow> bytes \<Rightarrow> bytes list rlp_result option" where
  "toList fl d =
     (if \<not> isList d then Some (if ThrowOnFail fl then Inl BadCast else Inr [])
      else range_for Inr d)"

text \<open>\<open>toVector<T>\<close>, over the element conversion; the items are counted first, for \<open>reserve\<close>.\<close>

definition toVector :: "(bytes \<Rightarrow> 'a rlp_result) \<Rightarrow> rlp_flags \<Rightarrow> bytes \<Rightarrow> 'a list rlp_result option" where
  "toVector f fl d =
     (if isList d then (case itemCount d of Inl e \<Rightarrow> Some (Inl e) | Inr n \<Rightarrow> range_for f d)
      else Some (if ThrowOnFail fl then Inl BadCast else Inr []))"

text \<open>\<open>toPair<T, U>\<close>, over the two element conversions.\<close>

definition toPair :: "(bytes \<Rightarrow> 'a rlp_result) \<Rightarrow> (bytes \<Rightarrow> 'b rlp_result) \<Rightarrow> 'a \<Rightarrow> 'b \<Rightarrow>
    rlp_flags \<Rightarrow> bytes \<Rightarrow> ('a \<times> 'b) rlp_result" where
  "toPair f g a0 b0 fl d =
     ebind (itemCountStrict d) (\<lambda>n.
       if n \<noteq> 2 then (if ThrowOnFail fl then Inl BadCast else Inr (a0, b0))
       else ebind (ebind (rlp_at d 0) f) (\<lambda>a.
            ebind (ebind (rlp_at d 1) g) (\<lambda>b. Inr (a, b))))"

text \<open>Evaluation of the reader on concrete bytes.\<close>

lemmas rlp_eval =
  RLP_def actualSize_def isNull_def isSingleByte_def isData_def isList_def payloadOffset_def
  lengthSize_def rlp_length_def requireGood_def length_field_def payload_def sizeAsEncoded_def
  rlp_obj_of_def rlp_at_obj_def rlp_at_def at_loop.simps cropped_def cropped_from_def Let_def

end
