(* ===== verification/RLP_Stream.thy ===== *)
theory RLP_Stream
  imports RLP_Reader
begin

section \<open>The RLP writer (\<open>libdevcore/RLP.h\<close>, class \<open>RLPStream\<close>) and the codec's round trips\<close>

text \<open>
  \<open>RLPStream\<close> keeps the output so far and a stack of open lists, each with the number of items
  still missing and the position where its payload starts; a list's prefix is inserted in front
  of its payload when its last item arrives. The abstract specification is the recursive
  encoding \<open>rlp_enc\<close> of an item tree: the writer refines it and the reader inverts it.
\<close>

subsection \<open>The writer\<close>

record rlp_stream =
  m_out :: bytes
  m_listStack :: "(nat \<times> nat) list" \<comment> \<open>the back of the vector is the head\<close>

definition RLPStream :: rlp_stream where
  "RLPStream = \<lparr>m_out = [], m_listStack = []\<rparr>"

text \<open>The \<open>while\<close> loop of \<open>noteAppended\<close>: every list that is complete gets its prefix.\<close>

fun note_loop :: "bytes \<Rightarrow> (nat \<times> nat) list \<Rightarrow> nat \<Rightarrow> rlp_stream rlp_result" where
  "note_loop out [] k = Inr \<lparr>m_out = out, m_listStack = []\<rparr>"
| "note_loop out ((n, p) # st) k =
     (if n < k then Inl RLPException
      else if n - k \<noteq> 0 then Inr \<lparr>m_out = out, m_listStack = (n - k, p) # st\<rparr>
      else
        let s = length out - p; brs = bytesRequired s in
        if s < c_rlpListImmLenCount then
          note_loop (take p out @ [of_nat (c_rlpListStart + s)] @ drop p out) st 1
        else if c_rlpListIndLenZero + brs \<le> 0xff then
          note_loop (take p out @ [of_nat (c_rlpListIndLenZero + brs)] @ toBigEndian brs s @ drop p out) st 1
        else Inl RLPException)"

declare note_loop.simps(2) [simp del]

definition noteAppended :: "nat \<Rightarrow> rlp_stream \<Rightarrow> rlp_stream rlp_result" where
  "noteAppended k s = (if k = 0 then Inr s else note_loop (m_out s) (m_listStack s) k)"

definition appendRaw :: "bytes \<Rightarrow> nat \<Rightarrow> rlp_stream \<Rightarrow> rlp_stream rlp_result" where
  "appendRaw raw k s = noteAppended k (s\<lparr>m_out := m_out s @ raw\<rparr>)"

definition pushCount :: "nat \<Rightarrow> nat \<Rightarrow> rlp_stream \<Rightarrow> rlp_stream rlp_result" where
  "pushCount count base s =
     (let br = bytesRequired count in
      if br + base > 0xff then Inl RLPException
      else Inr (s\<lparr>m_out := m_out s @ [of_nat (br + base)] @ toBigEndian br count\<rparr>))"

definition appendList_bytes :: "bytes \<Rightarrow> rlp_stream \<Rightarrow> rlp_stream rlp_result" where
  "appendList_bytes raw s =
     ebind (if length raw < c_rlpListImmLenCount
            then Inr (s\<lparr>m_out := m_out s @ [of_nat (length raw + c_rlpListStart)]\<rparr>)
            else pushCount (length raw) c_rlpListIndLenZero s)
       (appendRaw raw 1)"

definition appendList :: "nat \<Rightarrow> rlp_stream \<Rightarrow> rlp_stream rlp_result" where
  "appendList n s =
     (if n \<noteq> 0 then Inr (s\<lparr>m_listStack := (n, length (m_out s)) # m_listStack s\<rparr>)
      else appendList_bytes [] s)"

definition append_bytes :: "bool \<Rightarrow> bytes \<Rightarrow> rlp_stream \<Rightarrow> rlp_stream rlp_result" where
  "append_bytes compact b s =
     (let d = (if compact then dropWhile (\<lambda>x. x = 0) b else b); n = length d in
      ebind
        (if n = 1 \<and> unat (hd d) < c_rlpDataImmLenStart
         then Inr (s\<lparr>m_out := m_out s @ [hd d]\<rparr>)
         else ebind
           (if n < c_rlpDataImmLenCount
            then Inr (s\<lparr>m_out := m_out s @ [of_nat (n + c_rlpDataImmLenStart)]\<rparr>)
            else pushCount n c_rlpDataIndLenZero s)
           (appendRaw d 0))
        (noteAppended 1))"

text \<open>\<open>append (bigint)\<close> on the non-negative integers its callers pass.\<close>

definition append_bigint :: "nat \<Rightarrow> rlp_stream \<Rightarrow> rlp_stream rlp_result" where
  "append_bigint i s =
     ebind
       (if i = 0 then Inr (s\<lparr>m_out := m_out s @ [of_nat c_rlpDataImmLenStart]\<rparr>)
        else if i < c_rlpDataImmLenStart then Inr (s\<lparr>m_out := m_out s @ [of_nat i]\<rparr>)
        else
          let br = bytesRequired i in
          ebind
            (if br < c_rlpDataImmLenCount
             then Inr (s\<lparr>m_out := m_out s @ [of_nat (br + c_rlpDataImmLenStart)]\<rparr>)
             else let brbr = bytesRequired br in
               if c_rlpDataIndLenZero + brbr > 0xff then Inl RLPException
               else Inr (s\<lparr>m_out := m_out s @ [of_nat (c_rlpDataIndLenZero + brbr)] @ toBigEndian brbr br\<rparr>))
            (\<lambda>s. Inr (s\<lparr>m_out := m_out s @ toBigEndian br i\<rparr>)))
       (noteAppended 1)"

text \<open>\<open>append (unsigned)\<close>: the argument is converted to 32 bits first.\<close>

definition append_unsigned :: "int \<Rightarrow> rlp_stream \<Rightarrow> rlp_stream rlp_result" where
  "append_unsigned i s = append_bigint (nat (i mod 2 ^ 32)) s"

definition stream_out :: "rlp_stream \<Rightarrow> bytes rlp_result" where
  "stream_out s = (if m_listStack s \<noteq> [] then Inl RLPException else Inr (m_out s))"

subsection \<open>Abstract specification: item trees and their encoding\<close>

datatype rlp_item = RStr bytes | RList "rlp_item list"

definition enc_hdr :: "nat \<Rightarrow> nat \<Rightarrow> bytes" where
  "enc_hdr base n =
     (if n < 56 then [of_nat (base + n)]
      else of_nat (base + 55 + bytesRequired n) # toBigEndian (bytesRequired n) n)"

definition enc_bytes :: "bytes \<Rightarrow> bytes" where
  "enc_bytes b = (if length b = 1 \<and> unat (hd b) < 128 then b else enc_hdr 128 (length b) @ b)"

fun rlp_enc :: "rlp_item \<Rightarrow> bytes" where
  "rlp_enc (RStr b) = enc_bytes b"
| "rlp_enc (RList xs) =
     (let p = concat (map rlp_enc xs) in enc_hdr 192 (length p) @ p)"

definition enc_list :: "bytes \<Rightarrow> bytes" where
  "enc_list p = enc_hdr 192 (length p) @ p"

text \<open>Writing an item tree with the calls the program uses.\<close>

fun emit :: "rlp_item \<Rightarrow> rlp_stream \<Rightarrow> rlp_stream rlp_result"
and emits :: "rlp_item list \<Rightarrow> rlp_stream \<Rightarrow> rlp_stream rlp_result" where
  "emit (RStr b) s = append_bytes False b s"
| "emit (RList xs) s = ebind (appendList (length xs) s) (emits xs)"
| "emits [] s = Inr s"
| "emits (x # xs) s = ebind (emit x s) (emits xs)"

subsection \<open>The writer refines the encoding\<close>

lemma bytesRequired_le8: "n < 2 ^ 64 \<Longrightarrow> bytesRequired n \<le> 8"
  by (simp add: bytesRequired_le_iff)

lemma rlp_enc_RList: "rlp_enc (RList xs) = enc_list (concat (map rlp_enc xs))"
  by (simp add: enc_list_def Let_def)

lemma enc_hdr_list_small: "n < 56 \<Longrightarrow> enc_hdr 192 n = [of_nat (192 + n)]"
  by (simp add: enc_hdr_def)

lemma append_bytes_enc:
  assumes "length b < 2 ^ 64"
  shows "append_bytes False b s = appendRaw (enc_bytes b) 1 s"
proof (cases "length b = 1 \<and> unat (hd b) < 128")
  case True
  then have "[hd b] = b" by (cases b) auto
  with True show ?thesis
    by (simp add: append_bytes_def appendRaw_def enc_bytes_def)
next
  case False
  with bytesRequired_le8 [OF assms] show ?thesis
    by (auto simp: append_bytes_def appendRaw_def enc_bytes_def enc_hdr_def pushCount_def
        noteAppended_def Let_def add.commute)
qed

lemma appendList_bytes_enc:
  assumes "length p < 2 ^ 64"
  shows "appendList_bytes p s = appendRaw (enc_list p) 1 s"
  using bytesRequired_le8 [OF assms]
  by (auto simp: appendList_bytes_def appendRaw_def enc_list_def enc_hdr_def pushCount_def
      noteAppended_def Let_def add.commute)

lemma note_loop_close:
  assumes "length p < 2 ^ 64"
  shows "note_loop (pre @ p) ((Suc 0, length pre) # st) (Suc 0)
           = note_loop (pre @ enc_list p) st (Suc 0)"
  using bytesRequired_le8 [OF assms]
  by (simp add: note_loop.simps(2) enc_list_def enc_hdr_def Let_def)

lemma appendRaw_open:
  "appendRaw raw (Suc 0) \<lparr>m_out = out, m_listStack = (Suc (Suc k), p) # st\<rparr>
     = Inr \<lparr>m_out = out @ raw, m_listStack = (Suc k, p) # st\<rparr>"
  by (simp add: appendRaw_def noteAppended_def note_loop.simps(2))

lemma appendRaw_note:
  "appendRaw raw (Suc 0) s = note_loop (m_out s @ raw) (m_listStack s) (Suc 0)"
  by (simp add: appendRaw_def noteAppended_def)

lemma length_enc_list: "length p \<le> length (enc_list p)"
  by (simp add: enc_list_def)

lemma length_enc_bytes: "length b \<le> length (enc_bytes b)"
  by (simp add: enc_bytes_def)

lemma length_concat_le: "x \<in> set xs \<Longrightarrow> length (f x) \<le> length (concat (map f xs))"
  by (induction xs) auto

lemma emits_Nil [simp]: "emits [] = Inr"
  by (rule ext) simp

lemma emits_enc:
  assumes "\<And>x s. x \<in> set xs \<Longrightarrow> emit x s = appendRaw (rlp_enc x) 1 s" and "xs \<noteq> []"
  shows "emits xs \<lparr>m_out = out, m_listStack = (length xs, p) # st\<rparr>
           = note_loop (out @ concat (map rlp_enc xs)) ((1, p) # st) 1"
  using assms
proof (induction xs arbitrary: out)
  case Nil
  then show ?case by simp
next
  case (Cons x xs)
  show ?case
  proof (cases xs)
    case Nil
    with Cons.prems show ?thesis
      by (simp add: appendRaw_note)
  next
    case (Cons y ys)
    with Cons.prems Cons.IH [of "out @ rlp_enc x"] show ?thesis
      by (simp add: appendRaw_open)
  qed
qed

lemma emit_enc: "length (rlp_enc it) < 2 ^ 64 \<Longrightarrow> emit it s = appendRaw (rlp_enc it) 1 s"
proof (induction it arbitrary: s)
  case (RStr b)
  then show ?case
    using length_enc_bytes [of b] by (simp add: append_bytes_enc)
next
  case (RList xs)
  let ?p = "concat (map rlp_enc xs)"
  from RList.prems have len: "length ?p < 2 ^ 64"
    using length_enc_list [of ?p] by (simp only: rlp_enc_RList)
  have each: "emit x s = appendRaw (rlp_enc x) 1 s" if "x \<in> set xs" for x s
    using RList.IH [OF that] length_concat_le [OF that, of rlp_enc] len by simp
  show ?case
  proof (cases "xs = []")
    case True
    then show ?thesis
      by (simp add: appendList_def appendList_bytes_enc enc_list_def)
  next
    case False
    obtain out st where s: "s = \<lparr>m_out = out, m_listStack = st\<rparr>" by (cases s)
    from False len each show ?thesis
      unfolding s rlp_enc_RList emit.simps appendList_def
      by (simp add: emits_enc note_loop_close appendRaw_note)
  qed
qed

subsection \<open>The reader on an encoding\<close>

lemma enc_hdr_Cons: "n < 56 \<Longrightarrow> enc_hdr base n = [of_nat (base + n)]"
  "\<not> n < 56 \<Longrightarrow> enc_hdr base n = of_nat (base + 55 + bytesRequired n) # toBigEndian (bytesRequired n) n"
  by (simp_all add: enc_hdr_def)

lemma nth_toBigEndian_0:
  assumes "0 < n"
  shows "toBigEndian (bytesRequired n) n ! 0 \<noteq> 0"
  using hd_toBigEndian_nonzero [OF assms] assms by (simp add: hd_conv_nth flip: length_greater_0_conv)

text \<open>The largest payload the reader accepts.\<close>

definition rlp_max :: nat where
  "rlp_max = 2 ^ 64 - 1 - 0x100"

lemma length_field_enc:
  assumes "0 < n" and "n < 2 ^ 64"
  shows "length_field (x # toBigEndian (bytesRequired n) n @ rest) (bytesRequired n) = Inr n"
proof -
  let ?d = "x # toBigEndian (bytesRequired n) n @ rest"
  have pos: "0 < bytesRequired n" using assms by simp
  then have "?d ! 1 = toBigEndian (bytesRequired n) n ! 0" by (simp add: nth_append)
  with nth_toBigEndian_0 [OF assms(1)] have "unat (?d ! 1) \<noteq> 0" by (simp add: unat_eq_zero)
  then show ?thesis
    using bytesRequired_le8 [OF assms(2)] by (simp add: length_field_def)
qed

lemma reader_enc_list:
  fixes p rest :: bytes
  assumes "length p < rlp_max"
  defines "d \<equiv> enc_list p @ rest"
  shows "isList d" "rlp_length d = Inr (length p)"
    "payloadOffset d = length (enc_hdr 192 (length p))"
proof -
  have br: "bytesRequired (length p) \<le> 8"
    using assms by (intro bytesRequired_le8) (simp add: rlp_max_def)
  have un: "unat (of_nat (192 + n) :: byte) = 192 + n" if "n < 64" for n
    using that by (intro unat_of_nat_small) simp
  consider (small) "length p < 56" | (large) "\<not> length p < 56" by blast
  then have "isList d \<and> rlp_length d = Inr (length p)
      \<and> payloadOffset d = length (enc_hdr 192 (length p))"
  proof cases
    case small
    then have "unat (d ! 0) = 192 + length p"
      using un by (simp add: d_def enc_list_def enc_hdr_Cons)
    moreover have "length d \<noteq> 0" by (simp add: d_def enc_list_def enc_hdr_def)
    ultimately show ?thesis
      using small by (simp add: isList_def isNull_def rlp_length_def requireGood_def payloadOffset_def
          isSingleByte_def lengthSize_def isData_def enc_hdr_Cons Let_def)
  next
    case large
    let ?b = "bytesRequired (length p)"
    have d: "d = of_nat (192 + (55 + ?b)) # toBigEndian ?b (length p) @ p @ rest"
      using large by (simp add: d_def enc_list_def enc_hdr_Cons)
    have d0: "unat (d ! 0) = 192 + (55 + ?b)"
      unfolding d nth_Cons_0 using br by (intro un) simp
    moreover have "length d \<noteq> 0" by (simp add: d)
    moreover have "length_field d ?b = Inr (length p)"
      unfolding d using large assms(1) by (intro length_field_enc) (auto simp: rlp_max_def)
    moreover have "0 < ?b" using large by (subst bytesRequired_pos_iff) linarith
    ultimately show ?thesis
      using large assms(1) by (simp add: isList_def isNull_def rlp_length_def requireGood_def
          payloadOffset_def isSingleByte_def lengthSize_def isData_def enc_hdr_Cons Let_def rlp_max_def)
  qed
  then show "isList d" "rlp_length d = Inr (length p)"
    "payloadOffset d = length (enc_hdr 192 (length p))" by auto
qed

lemma reader_enc_bytes:
  fixes b rest :: bytes
  assumes "length b < rlp_max"
  defines "d \<equiv> enc_bytes b @ rest"
  shows "isData d" "rlp_length d = Inr (length b)"
    "payloadOffset d = length (enc_bytes b) - length b"
proof -
  have br: "bytesRequired (length b) \<le> 8"
    using assms by (intro bytesRequired_le8) (simp add: rlp_max_def)
  have un: "unat (of_nat (128 + n) :: byte) = 128 + n" if "n < 64" for n
    using that by (intro unat_of_nat_small) simp
  consider (single) "length b = 1" "unat (hd b) < 128"
    | (small) "\<not> (length b = 1 \<and> unat (hd b) < 128)" "length b < 56"
    | (large) "\<not> (length b = 1 \<and> unat (hd b) < 128)" "\<not> length b < 56" by blast
  then have "isData d \<and> rlp_length d = Inr (length b)
      \<and> payloadOffset d = length (enc_bytes b) - length b"
  proof cases
    case single
    then obtain x where "b = [x]" "unat x < 128" by (cases b) auto
    then show ?thesis
      by (simp add: d_def enc_bytes_def isData_def isNull_def rlp_length_def requireGood_def
          payloadOffset_def isSingleByte_def)
  next
    case small
    then have d: "d = of_nat (128 + length b) # b @ rest"
      by (simp add: d_def enc_bytes_def enc_hdr_Cons)
    have d0: "unat (d ! 0) = 128 + length b"
      unfolding d nth_Cons_0 using small by (intro un) simp
    have good: "requireGood d = Inr ()"
    proof (cases "length b = 1")
      case True
      with small obtain x where "b = [x]" "128 \<le> unat x" by (cases b) auto
      then show ?thesis using d0 by (simp add: requireGood_def isNull_def d)
    next
      case False
      then show ?thesis using d0 by (simp add: requireGood_def isNull_def d)
    qed
    have "length d \<noteq> 0" by (simp add: d)
    with d0 good small show ?thesis
      by (simp add: isData_def isNull_def rlp_length_def payloadOffset_def
          isSingleByte_def lengthSize_def isList_def enc_bytes_def enc_hdr_Cons Let_def)
  next
    case large
    let ?b = "bytesRequired (length b)"
    have d: "d = of_nat (128 + (55 + ?b)) # toBigEndian ?b (length b) @ b @ rest"
      using large by (simp add: d_def enc_bytes_def enc_hdr_Cons)
    have d0: "unat (d ! 0) = 128 + (55 + ?b)"
      unfolding d nth_Cons_0 using br by (intro un) simp
    moreover have "length d \<noteq> 0" by (simp add: d)
    moreover have "length_field d ?b = Inr (length b)"
      unfolding d using large assms(1) by (intro length_field_enc) (auto simp: rlp_max_def)
    moreover have "0 < ?b" using large by (subst bytesRequired_pos_iff) linarith
    ultimately show ?thesis
      using large br assms(1) by (simp add: isData_def isNull_def rlp_length_def requireGood_def
          payloadOffset_def isSingleByte_def lengthSize_def isList_def enc_bytes_def enc_hdr_Cons
          Let_def rlp_max_def)
  qed
  then show "isData d" "rlp_length d = Inr (length b)"
    "payloadOffset d = length (enc_bytes b) - length b" by auto
qed

lemma isData_not_isList: "isData d \<Longrightarrow> \<not> isList d"
  by (simp add: isData_def isList_def)

lemma isSingleByte_data: "isData d \<Longrightarrow> isSingleByte d \<Longrightarrow> requireGood d = Inr ()"
  by (auto simp: isSingleByte_def requireGood_def)

lemma payload_enc_list:
  assumes "length p < rlp_max"
  shows "payload (enc_list p @ rest) = Inr p"
  using reader_enc_list [OF assms, of rest]
  by (simp add: payload_def) (simp add: enc_list_def cropped_def)

lemma payload_enc_bytes:
  assumes "length b < rlp_max"
  shows "payload (enc_bytes b @ rest) = Inr b"
  using reader_enc_bytes [OF assms, of rest]
  by (auto simp: payload_def cropped_def enc_bytes_def)

lemma actualSize_enc:
  assumes "length b < rlp_max"
  shows "actualSize (enc_bytes b @ rest) = Inr (length (enc_bytes b))"
    and "actualSize (enc_list b @ rest) = Inr (length (enc_list b))"
proof -
  let ?d = "enc_bytes b @ rest"
  have "isSingleByte ?d \<Longrightarrow> length (enc_bytes b) = 1"
    using reader_enc_bytes(2,3) [OF assms, of rest] length_enc_bytes [of b]
    by (auto simp: payloadOffset_def rlp_length_def isSingleByte_def requireGood_def
        isNull_def split: if_splits)
  with reader_enc_bytes [OF assms, of rest] length_enc_bytes [of b]
  show "actualSize ?d = Inr (length (enc_bytes b))"
    by (auto simp: actualSize_def isData_def)
  show "actualSize (enc_list b @ rest) = Inr (length (enc_list b))"
    using reader_enc_list [OF assms, of rest]
    by (auto simp: actualSize_def isList_def isSingleByte_def isNull_def)
      (simp_all add: enc_list_def)
qed

lemma sizeAsEncoded_enc:
  assumes "length b < rlp_max"
  shows "sizeAsEncoded (enc_bytes b @ rest) = Inr (length (enc_bytes b))"
    and "sizeAsEncoded (enc_list b @ rest) = Inr (length (enc_list b))"
  using actualSize_enc [OF assms, of rest] by (simp_all add: sizeAsEncoded_eq)

lemma rlp_enc_cases:
  obtains b where "it = RStr b" "rlp_enc it = enc_bytes b"
  | xs where "it = RList xs" "rlp_enc it = enc_list (concat (map rlp_enc xs))"
  by (cases it) (auto simp: rlp_enc_RList simp del: rlp_enc.simps(2))

text \<open>An item is small enough when the payload of every item below it is.\<close>

definition rlp_fits :: "rlp_item \<Rightarrow> bool" where
  "rlp_fits it \<longleftrightarrow> length (rlp_enc it) < rlp_max"

lemma rlp_fits_payload:
  "rlp_fits (RStr b) \<Longrightarrow> length b < rlp_max"
  "rlp_fits (RList xs) \<Longrightarrow> length (concat (map rlp_enc xs)) < rlp_max"
  using length_enc_bytes [of b] length_enc_list [of "concat (map rlp_enc xs)"]
  by (simp_all add: rlp_fits_def rlp_enc_RList del: rlp_enc.simps(2))

lemma rlp_fits_item: "rlp_fits (RList xs) \<Longrightarrow> x \<in> set xs \<Longrightarrow> rlp_fits x"
  using rlp_fits_payload(2) [of xs] length_concat_le [of x xs rlp_enc]
  by (simp add: rlp_fits_def)

lemma sizeAsEncoded_rlp_enc:
  "rlp_fits it \<Longrightarrow> sizeAsEncoded (rlp_enc it @ rest) = Inr (length (rlp_enc it))"
  by (rule rlp_enc_cases [of it])
    (auto simp: sizeAsEncoded_enc dest: rlp_fits_payload simp del: rlp_enc.simps)

lemma rlp_enc_not_Nil [simp]: "rlp_enc it \<noteq> []"
  by (cases it) (auto simp: enc_bytes_def enc_hdr_def Let_def)

lemma RLP_exact:
  assumes "rlp_fits it"
  shows "RLP (rlp_enc it) VeryStrict = Inr (rlp_enc it)"
    and "RLP (rlp_enc it) ThrowTooSmall = Inr (rlp_enc it)"
proof -
  have "actualSize (rlp_enc it) = Inr (length (rlp_enc it))"
    by (rule rlp_enc_cases [of it])
      (use assms actualSize_enc [of _ "[]"] in \<open>auto dest: rlp_fits_payload simp del: rlp_enc.simps\<close>)
  then show "RLP (rlp_enc it) VeryStrict = Inr (rlp_enc it)"
    and "RLP (rlp_enc it) ThrowTooSmall = Inr (rlp_enc it)"
    by (simp_all add: RLP_def)
qed

lemma RLP_Nil [simp]: "RLP [] fl = Inr []"
  by (simp add: RLP_def actualSize_def isNull_def)

lemma sizeAsEncoded_Nil [simp]: "sizeAsEncoded [] = Inr 0"
  by (simp add: sizeAsEncoded_def actualSize_def isNull_def)

lemma items_loop_enc:
  "\<forall>x \<in> set xs. rlp_fits x \<Longrightarrow> items_loop (concat (map rlp_enc xs)) = Inr (length xs)"
proof (induction xs)
  case Nil
  then show ?case by (simp add: items_loop.simps)
next
  case (Cons x xs)
  then show ?case
    by (subst items_loop.simps) (simp add: sizeAsEncoded_rlp_enc cropped_from_def)
qed

subsection \<open>The cached subscript agrees with plain indexing\<close>

text \<open>What the cache holds after successful subscripts: item \<open>m_lastIndex\<close> and its end.\<close>

definition cache_at :: "rlp_item list \<Rightarrow> nat \<Rightarrow> rlp_obj \<Rightarrow> bool" where
  "cache_at xs k r \<longleftrightarrow>
     m_data r = rlp_enc (RList xs) \<and> m_lastIndex r = k \<and> k \<le> length xs \<and>
     m_lastEnd r = length (concat (map rlp_enc (take (Suc k) xs))) \<and>
     m_lastItem r = (if k < length xs then rlp_enc (xs ! k) else [])"

definition cache_ok :: "rlp_item list \<Rightarrow> rlp_obj \<Rightarrow> bool" where
  "cache_ok xs r \<longleftrightarrow> (\<exists>k. cache_at xs k r) \<or> r = rlp_obj_of (rlp_enc (RList xs))"

lemma concat_drop_Suc:
  "i < length xs \<Longrightarrow> concat (map f (drop i xs)) = f (xs ! i) @ concat (map f (drop (Suc i) xs))"
  by (simp flip: Cons_nth_drop_Suc)

lemma cropped_from_items:
  "cropped_from (concat (map f xs)) (length (concat (map f (take i xs)))) = concat (map f (drop i xs))"
proof -
  have "concat (map f xs) = concat (map f (take i xs)) @ concat (map f (drop i xs))"
    by (metis append_take_drop_id concat_append map_append)
  then show ?thesis by (simp only: cropped_from_def) simp
qed

lemma payload_rlp_enc_list:
  "rlp_fits (RList xs) \<Longrightarrow> payload (rlp_enc (RList xs)) = Inr (concat (map rlp_enc xs))"
  using payload_enc_list [OF rlp_fits_payload(2), of xs "[]"]
  by (simp add: rlp_enc_RList del: rlp_enc.simps)

lemma sizeAsEncoded_drop:
  assumes "rlp_fits (RList xs)"
  shows "sizeAsEncoded (concat (map rlp_enc (drop k xs)))
           = Inr (length (if k < length xs then rlp_enc (xs ! k) else []))"
  using rlp_fits_item [OF assms, of "xs ! k"]
  by (simp add: concat_drop_Suc sizeAsEncoded_rlp_enc)

lemma cropped_item_drop:
  "k < length xs \<Longrightarrow>
     cropped (concat (map rlp_enc (drop k xs))) 0 (length (rlp_enc (xs ! k))) = rlp_enc (xs ! k)"
  by (simp add: concat_drop_Suc)

lemma at_loop_step:
  assumes "rlp_fits (RList xs)" and "cache_at xs k r" and "k < i" and "k < length xs"
  shows "\<exists>r'. at_loop r i = at_loop r' i \<and> cache_at xs (Suc k) r'"
proof -
  let ?rest = "concat (map rlp_enc (drop (Suc k) xs))"
  let ?it = "if Suc k < length xs then rlp_enc (xs ! Suc k) else []"
  let ?r' = "r\<lparr>m_lastItem := ?it, m_lastEnd := m_lastEnd r + length ?it, m_lastIndex := Suc k\<rparr>"
  have rest: "cropped_from (concat (map rlp_enc xs)) (m_lastEnd r) = ?rest"
    using assms(2) by (simp add: cache_at_def cropped_from_items)
  have it: "cropped ?rest 0 (length ?it) = ?it"
    using cropped_item_drop [of "Suc k" xs] by (auto simp: cropped_def)
  have "at_loop r i = at_loop ?r' i"
    using assms rest it
    by (subst at_loop.simps)
      (simp add: cache_at_def payload_rlp_enc_list sizeAsEncoded_drop Let_def del: rlp_enc.simps
        split del: if_split)
  moreover have "concat (map rlp_enc (take (Suc (Suc k)) xs))
      = concat (map rlp_enc (take (Suc k) xs)) @ ?it"
    by (cases "Suc k < length xs") (simp_all add: take_Suc_conv_app_nth [of "Suc k"])
  then have "cache_at xs (Suc k) ?r'"
    using assms(2,4) by (simp add: cache_at_def del: rlp_enc.simps)
  ultimately show ?thesis by blast
qed

lemma at_loop_ok:
  assumes "rlp_fits (RList xs)"
  shows "cache_at xs k r \<Longrightarrow> k \<le> i \<Longrightarrow>
    \<exists>r'. at_loop r i = (r', Inr ()) \<and> cache_at xs (min i (length xs)) r'"
proof (induction "i - k" arbitrary: k r)
  case 0
  then show ?case
    by (subst at_loop.simps) (auto simp: cache_at_def min_def)
next
  case (Suc m)
  show ?case
  proof (cases "k < length xs")
    case True
    moreover have "k < i" "m = i - Suc k" using Suc.hyps(2) by auto
    ultimately obtain r' where "at_loop r i = at_loop r' i" "cache_at xs (Suc k) r'"
      using at_loop_step [OF assms Suc.prems(1)] by blast
    with Suc.hyps(1) [OF \<open>m = i - Suc k\<close>] \<open>k < i\<close> show ?thesis by simp
  next
    case False
    with Suc show ?thesis
      by (subst at_loop.simps) (auto simp: cache_at_def min_def)
  qed
qed

lemma cache_at_item:
  assumes "rlp_fits (RList xs)" and "cache_at xs (min i (length xs)) r"
  shows "RLP (m_lastItem r) ThrowTooSmall = Inr (if i < length xs then rlp_enc (xs ! i) else [])"
  using assms rlp_fits_item [OF assms(1), of "xs ! i"]
  by (auto simp: cache_at_def min_def RLP_exact(2))

lemma rlp_at_obj_reset:
  assumes "rlp_fits (RList xs)" and "m_data r = rlp_enc (RList xs)" and "i < m_lastIndex r"
  shows "\<exists>r'. rlp_at_obj r i = (r', Inr (if i < length xs then rlp_enc (xs ! i) else []))
              \<and> cache_at xs (min i (length xs)) r'"
proof -
  let ?pl = "concat (map rlp_enc xs)"
  let ?n = "length (if 0 < length xs then rlp_enc (xs ! 0) else [])"
  let ?r1 = "r\<lparr>m_lastEnd := ?n, m_lastItem := cropped ?pl 0 ?n, m_lastIndex := 0\<rparr>"
  have "sizeAsEncoded ?pl = Inr ?n"
    using sizeAsEncoded_drop [OF assms(1), of 0] by simp
  moreover have c1: "cache_at xs 0 ?r1"
    using assms(2) cropped_item_drop [of 0 xs]
    by (auto simp: cache_at_def take_Suc_conv_app_nth cropped_def simp del: rlp_enc.simps)
  moreover obtain r2 where "at_loop ?r1 i = (r2, Inr ())" "cache_at xs (min i (length xs)) r2"
    using at_loop_ok [OF assms(1) c1, of i] by auto
  ultimately show ?thesis
    using assms cache_at_item [OF assms(1)]
    by (auto simp: rlp_at_obj_def payload_rlp_enc_list Let_def simp del: rlp_enc.simps)
qed

lemma rlp_at_obj_ok:
  assumes "rlp_fits (RList xs)" and "cache_ok xs r" and "i < 2 ^ 64 - 1"
  shows "\<exists>r'. rlp_at_obj r i = (r', Inr (if i < length xs then rlp_enc (xs ! i) else []))
              \<and> cache_ok xs r'"
proof (cases "i < m_lastIndex r")
  case True
  moreover have "m_data r = rlp_enc (RList xs)"
    using assms(2) by (auto simp: cache_ok_def cache_at_def rlp_obj_of_def simp del: rlp_enc.simps)
  ultimately show ?thesis
    using rlp_at_obj_reset [OF assms(1)] by (fastforce simp: cache_ok_def)
next
  case False
  with assms(2,3) obtain k where "cache_at xs k r" "k \<le> i" "m_lastIndex r = k"
    by (auto simp: cache_ok_def rlp_obj_of_def cache_at_def simp del: rlp_enc.simps)
  with at_loop_ok [OF assms(1)] obtain r2 where
    "at_loop r i = (r2, Inr ())" "cache_at xs (min i (length xs)) r2" by blast
  with False cache_at_item [OF assms(1)] show ?thesis
    by (auto simp: rlp_at_obj_def Let_def cache_ok_def)
qed

subsection \<open>The range-for loop over an encoded list ends and visits every item\<close>

fun convert_all :: "('x \<Rightarrow> 'a rlp_result) \<Rightarrow> 'x list \<Rightarrow> 'a list rlp_result" where
  "convert_all f [] = Inr []"
| "convert_all f (x # xs) = ebind (f x) (\<lambda>y. ebind (convert_all f xs) (\<lambda>ys. Inr (y # ys)))"

lemma convert_all_Inr [simp]: "convert_all Inr xs = Inr xs"
  by (induction xs) simp_all

text \<open>The iterator in front of item \<open>k\<close>.\<close>

definition iter_at :: "rlp_item list \<Rightarrow> nat \<Rightarrow> rlp_iter" where
  "iter_at xs k =
     \<lparr>it_pos = Some (length (enc_hdr 192 (length (concat (map rlp_enc xs))))
                + length (concat (map rlp_enc (take k xs)))),
      it_size = length (if k < length xs then rlp_enc (xs ! k) else []),
      m_remaining = length (concat (map rlp_enc (drop (Suc k) xs)))\<rparr>"

lemma window_items:
  assumes "p = length (enc_hdr 192 (length (concat (map rlp_enc xs)))) + length (concat (map rlp_enc (take k xs)))"
  shows "drop p (rlp_enc (RList xs)) = concat (map rlp_enc (drop k xs))"
proof -
  have "concat (map rlp_enc xs) = concat (map rlp_enc (take k xs)) @ concat (map rlp_enc (drop k xs))"
    by (metis append_take_drop_id concat_append map_append)
  then show ?thesis
    by (simp add: assms Let_def)
qed

lemma it_begin_enc:
  assumes "rlp_fits (RList xs)"
  shows "it_begin (rlp_enc (RList xs)) = Inr (iter_at xs 0)"
proof -
  let ?pl = "concat (map rlp_enc xs)"
  note r = reader_enc_list [OF rlp_fits_payload(2) [OF assms], of "[]", simplified]
  have "sizeAsEncoded ?pl = Inr (length (if 0 < length xs then rlp_enc (xs ! 0) else []))"
    using sizeAsEncoded_drop [OF assms, of 0] by simp
  moreover have "length ?pl - length (if 0 < length xs then rlp_enc (xs ! 0) else [])
      = length (concat (map rlp_enc (drop (Suc 0) xs)))"
    by (cases xs) simp_all
  ultimately show ?thesis
    using r payload_rlp_enc_list [OF assms]
    by (simp add: it_begin_def iter_at_def rlp_enc_RList del: rlp_enc.simps) (simp add: enc_list_def)
qed

lemma it_incr_enc:
  assumes "rlp_fits (RList xs)" and "k < length xs"
  shows "it_incr (rlp_enc (RList xs)) (iter_at xs k) = Inr (iter_at xs (Suc k))"
proof -
  let ?d = "rlp_enc (RList xs)" and ?q = "it_pos (iter_at xs (Suc k))"
  have q: "map_option (\<lambda>p. p + it_size (iter_at xs k)) (it_pos (iter_at xs k)) = ?q"
    using assms(2) by (simp add: iter_at_def take_Suc_conv_app_nth)
  show ?thesis
  proof (cases "Suc k < length xs")
    case True
    have w: "it_window ?d ?q (m_remaining (iter_at xs k)) = concat (map rlp_enc (drop (Suc k) xs))"
      using window_items [OF refl, of xs "Suc k"]
      by (simp add: it_window_def iter_at_def del: rlp_enc.simps)
    have rem: "length (concat (map rlp_enc (drop (Suc k) xs)))
        = length (rlp_enc (xs ! Suc k)) + length (concat (map rlp_enc (drop (Suc (Suc k)) xs)))"
      using True by (simp add: concat_drop_Suc)
    then have "m_remaining (iter_at xs k) \<noteq> 0" by (simp add: iter_at_def)
    with q w rem True show ?thesis
      by (simp add: it_incr_def sizeAsEncoded_drop [OF assms(1)] Let_def) (simp add: iter_at_def)
  next
    case False
    then have "m_remaining (iter_at xs k) = 0" by (simp add: iter_at_def)
    with q False show ?thesis
      by (simp add: it_incr_def Let_def) (simp add: iter_at_def)
  qed
qed

lemma iterate_enc:
  assumes "rlp_fits (RList xs)"
  shows "k \<le> length xs \<Longrightarrow>
    iterate f (rlp_enc (RList xs)) (iter_at xs k) acc
      = Some (ebind (convert_all f (map rlp_enc (drop k xs))) (\<lambda>ys. Inr (acc @ ys)))"
proof (induction "length xs - k" arbitrary: k acc)
  case 0
  then have "it_pos (iter_at xs k) = Some (length (rlp_enc (RList xs)))" "it_size (iter_at xs k) = 0"
    by (simp_all add: iter_at_def Let_def)
  with 0 show ?case by (subst iterate.simps) simp
next
  case (Suc m)
  then have k: "k < length xs" by simp
  let ?d = "rlp_enc (RList xs)"
  have w: "it_window ?d (it_pos (iter_at xs k)) (it_size (iter_at xs k)) = rlp_enc (xs ! k)"
    using window_items [OF refl, of xs k] k
    by (simp add: it_window_def iter_at_def concat_drop_Suc del: rlp_enc.simps)
  have "it_size (iter_at xs k) \<noteq> 0" using k by (simp add: iter_at_def)
  moreover have "RLP (rlp_enc (xs ! k)) VeryStrict = Inr (rlp_enc (xs ! k))"
    using k rlp_fits_item [OF assms] by (simp add: RLP_exact)
  moreover have "map rlp_enc (drop k xs) = rlp_enc (xs ! k) # map rlp_enc (drop (Suc k) xs)"
    using k by (simp flip: Cons_nth_drop_Suc)
  ultimately show ?case
    using w it_incr_enc [OF assms k] Suc.hyps(1) [of "Suc k"] Suc.hyps(2) k
    by (subst iterate.simps) (auto simp: ebind_assoc split: sum.splits simp del: rlp_enc.simps)
qed

lemma range_for_enc:
  assumes "rlp_fits (RList xs)"
  shows "range_for f (rlp_enc (RList xs)) = Some (convert_all f (map rlp_enc xs))"
  using iterate_enc [OF assms, of 0 f "[]"] it_begin_enc [OF assms]
  by (simp add: range_for_def del: rlp_enc.simps)

subsection \<open>Strict views are canonical\<close>

lemma length_field_canonical:
  assumes "length_field d ls = Inr n" and "0 < ls" and "56 \<le> n"
  shows "take ls (drop 1 d) = toBigEndian (bytesRequired n) n" "bytesRequired n = ls"
proof -
  let ?f = "take ls (drop 1 d)"
  from assms have n: "n = fromBigEndian ?f" and len: "ls < length d" and nz: "byte1 d \<noteq> 0"
    by (auto simp: length_field_def split: if_splits)
  then have "length ?f = ls" "hd ?f = d ! 1" "?f \<noteq> []"
    using assms(2) by (auto simp: hd_drop_conv_nth)
  then show "bytesRequired n = ls"
    using nz bytesRequired_fromBigEndian [of ?f] by (simp add: n unat_eq_zero)
  with \<open>length ?f = ls\<close> show "?f = toBigEndian (bytesRequired n) n"
    using toBigEndian_fromBigEndian [of ?f] by (simp add: n)
qed

lemma hdr_split:
  assumes "length d = Suc k + n" and "unat (d ! 0) = m"
  shows "d = of_nat m # take k (drop 1 d) @ cropped d (Suc k) n"
proof -
  obtain x xs where d: "d = x # xs" using assms(1) by (cases d) auto
  have "of_nat m = x" using assms(2) d by auto
  then show ?thesis using assms(1) by (simp add: d cropped_def)
qed

lemma canonical_data_small:
  assumes "isData d" and "actualSize d = Inr (length d)" and n: "128 \<le> byte0 d" "byte0 d \<le> 183"
  shows "\<exists>b. toBytes fl d = Inr b \<and> d = enc_bytes b"
proof -
  let ?n = "byte0 d"
  let ?p = "cropped d 1 (?n - 128)"
  from assms(1) have d: "\<not> isNull d" by (simp add: isData_def)
  have off: "payloadOffset d = 1"
    using n d by (simp add: payloadOffset_def isSingleByte_def lengthSize_def isList_def)
  from assms(2) n d off obtain u where good: "requireGood d = Inr u"
    and len: "length d = Suc 0 + (?n - 128)"
    by (auto simp: actualSize_def isSingleByte_def isData_def rlp_length_def ebind_Inr_iff Let_def)
  have rl: "rlp_length d = Inr (?n - 128)" using n d good by (simp add: rlp_length_def)
  have d_eq: "d = of_nat ?n # ?p" using hdr_split [OF len refl] by simp
  have lp: "length ?p = ?n - 128" using len by (simp add: cropped_def)
  have "\<not> (length ?p = 1 \<and> unat (hd ?p) < 128)"
  proof
    assume "length ?p = 1 \<and> unat (hd ?p) < 128"
    then have "?n = 129" "byte1 d < 128" "length d = 2"
      using lp n len d_eq by (auto simp: cropped_def hd_drop_conv_nth)
    with good d show False by (simp add: requireGood_def)
  qed
  then have "enc_bytes ?p = enc_hdr 128 (length ?p) @ ?p" by (simp only: enc_bytes_def if_False)
  moreover have "enc_hdr 128 (length ?p) = [of_nat ?n]"
  proof -
    have "?n - 128 < 56" using n by arith
    then show ?thesis unfolding lp using n by (simp add: enc_hdr_def)
  qed
  ultimately have "enc_bytes ?p = d" using d_eq by simp
  moreover have "toBytes fl d = Inr ?p"
    using rl lp off len assms(1) by (simp add: toBytes_def payload_def)
  ultimately show ?thesis by metis
qed

lemma canonical_data_large:
  assumes "isData d" and "actualSize d = Inr (length d)" and n: "183 < byte0 d"
  shows "\<exists>b. toBytes fl d = Inr b \<and> d = enc_bytes b"
proof -
  let ?n = "byte0 d" and ?ls = "byte0 d - 183"
  from assms(1) have d: "\<not> isNull d" "?n < 192" by (simp_all add: isData_def)
  have off: "payloadOffset d = Suc ?ls"
    using n assms(1) by (simp add: payloadOffset_def isSingleByte_def lengthSize_def)
  from assms(1,2) n off d obtain l where rl: "rlp_length d = Inr l" and len: "length d = Suc ?ls + l"
    by (auto simp: actualSize_def isSingleByte_def ebind_Inr_iff)
  with n d have lf: "length_field d ?ls = Inr l" and l: "56 \<le> l"
    by (auto simp: rlp_length_def ebind_Inr_iff Let_def split: if_splits)
  let ?p = "cropped d (Suc ?ls) l"
  note c = length_field_canonical [OF lf _ l]
  have lp: "length ?p = l" using len by (simp add: cropped_def)
  have "d = of_nat ?n # toBigEndian (bytesRequired l) l @ ?p"
    using hdr_split [OF len refl] c n by simp
  moreover have "?n = 128 + 55 + bytesRequired l" using c n by simp
  ultimately have "enc_bytes ?p = d"
    using lp l by (simp add: enc_bytes_def enc_hdr_def)
  moreover have "toBytes fl d = Inr ?p"
    using rl lp off len assms(1) by (simp add: toBytes_def payload_def)
  ultimately show ?thesis by metis
qed

lemma canonical_data:
  assumes "RLP d VeryStrict = Inr d" and "isData d"
  shows "\<exists>b. toBytes fl d = Inr b \<and> d = enc_bytes b"
proof -
  from assms(1) have sz: "actualSize d = Inr (length d)"
    by (auto simp: RLP_def ebind_Inr_iff split: if_splits)
  consider (single) "byte0 d < 128" | (small) "128 \<le> byte0 d" "byte0 d \<le> 183" | (large) "183 < byte0 d"
    by linarith
  then show ?thesis
  proof cases
    case single
    with sz assms(2) have "length d = 1" by (simp add: actualSize_def isSingleByte_def isData_def)
    then obtain x where "d = [x]" by (cases d) auto
    with single show ?thesis
      by (simp add: toBytes_def payload_def rlp_length_def requireGood_def isNull_def isData_def
          payloadOffset_def isSingleByte_def enc_bytes_def)
  next
    case small
    then show ?thesis using canonical_data_small assms(2) sz by blast
  next
    case large
    then show ?thesis using canonical_data_large assms(2) sz by blast
  qed
qed

lemma canonical_list:
  assumes "RLP d VeryStrict = Inr d" and "isList d"
  shows "\<exists>p. payload d = Inr p \<and> d = enc_list p"
proof -
  let ?n = "byte0 d" and ?ls = "lengthSize d"
  from assms(2) have d: "\<not> isNull d" "192 \<le> ?n" "\<not> isSingleByte d" "\<not> isData d"
    by (simp_all add: isList_def isSingleByte_def isData_def)
  have ls: "?ls = ?n - 247" using d assms(2) by (simp add: lengthSize_def)
  have off: "payloadOffset d = Suc ?ls" using d by (simp add: payloadOffset_def)
  from assms d off obtain l where rl: "rlp_length d = Inr l" and len: "length d = Suc ?ls + l"
    by (auto simp: RLP_def actualSize_def ebind_Inr_iff split: if_splits)
  let ?p = "cropped d (Suc ?ls) l"
  have lp: "length ?p = l" using len by (simp add: cropped_def)
  have split: "d = of_nat ?n # take ?ls (drop 1 d) @ ?p" using hdr_split [OF len refl] by simp
  have "enc_list ?p = d"
  proof (cases "?n \<le> 247")
    case True
    with rl d have "l = ?n - 192" by (auto simp: rlp_length_def ebind_Inr_iff Let_def)
    moreover have "?n - 192 < 56" using True by arith
    ultimately show ?thesis using True d lp split ls by (simp add: enc_list_def enc_hdr_def)
  next
    case False
    with rl d ls have lf: "length_field d ?ls = Inr l" and l: "56 \<le> l"
      by (auto simp: rlp_length_def ebind_Inr_iff Let_def split: if_splits)
    with False ls have "d = of_nat ?n # toBigEndian (bytesRequired l) l @ ?p"
      and "?n = 192 + 55 + bytesRequired l"
      using split length_field_canonical [OF lf _ l] by simp_all
    with lp l show ?thesis by (simp add: enc_list_def enc_hdr_def)
  qed
  moreover have "payload d = Inr ?p" using rl off len by (simp add: payload_def)
  ultimately show ?thesis by metis
qed

end
