(* ===== verification/RLP_Field.thy ===== *)
theory RLP_Field
  imports RLP_Stream
begin

section \<open>Typed fields of an RLP list\<close>

text \<open>
  The program writes a value with \<open>RLPStream::operator<<\<close> and reads it back with one of the
  \<open>RLP::to...\<close> conversions. The locale \<open>rlp_field\<close> is the contract between the two that every
  message and record of the program relies on; its lemmas give the round trip of a field at a
  position of a list and of a whole vector. The interpretations discharge it for the conversions
  of \<open>libdevcore/RLP.h\<close>: byte strings, unsigned integers, fixed hashes and pairs of fields.
\<close>

lemma rlp_at_enc:
  assumes "rlp_fits (RList xs)" and "i < 2 ^ 64 - 1"
  shows "rlp_at (rlp_enc (RList xs)) i = Inr (if i < length xs then rlp_enc (xs ! i) else [])"
  using rlp_at_obj_ok [OF assms(1) _ assms(2), of "rlp_obj_of (rlp_enc (RList xs))"]
  by (auto simp: cache_ok_def rlp_at_def)

lemma length_le_enc: "length xs \<le> length (concat (map rlp_enc xs))"
proof (induction xs)
  case (Cons x xs)
  have "Suc 0 \<le> length (rlp_enc x)" by (simp add: Suc_le_eq)
  from add_le_mono [OF this Cons] show ?case by simp
qed simp

lemma rlp_fits_length: "rlp_fits (RList xs) \<Longrightarrow> length xs < 2 ^ 64 - 1"
  using length_le_enc [of xs] rlp_fits_payload(2) [of xs] by (simp add: rlp_max_def)

lemma rlp_at_nth:
  "rlp_fits (RList xs) \<Longrightarrow> i < length xs \<Longrightarrow> rlp_at (rlp_enc (RList xs)) i = Inr (rlp_enc (xs ! i))"
  using rlp_fits_length [of xs] by (simp add: rlp_at_enc del: rlp_enc.simps)

lemma isList_enc [simp]:
  "rlp_fits (RList xs) \<Longrightarrow> isList (rlp_enc (RList xs))"
  "rlp_fits (RStr b) \<Longrightarrow> \<not> isList (rlp_enc (RStr b))"
  using reader_enc_list(1) [OF rlp_fits_payload(2), of xs "[]"]
    reader_enc_bytes(1) [OF rlp_fits_payload(1), of b "[]"]
  by (simp_all add: rlp_enc_RList isData_not_isList del: rlp_enc.simps(2))

lemma items_enc:
  "rlp_fits (RList xs) \<Longrightarrow> items (rlp_enc (RList xs)) = Inr (length xs)"
  using rlp_fits_item by (simp add: items_def payload_rlp_enc_list items_loop_enc del: rlp_enc.simps)

lemma itemCount_enc:
  "rlp_fits (RList xs) \<Longrightarrow> itemCount (rlp_enc (RList xs)) = Inr (length xs)"
  "rlp_fits (RList xs) \<Longrightarrow> itemCountStrict (rlp_enc (RList xs)) = Inr (length xs)"
  by (simp_all add: itemCount_def itemCountStrict_def items_enc del: rlp_enc.simps)

subsection \<open>The contract of a field\<close>

locale rlp_field =
  fixes item :: "'a \<Rightarrow> rlp_item"
    and read :: "bytes \<Rightarrow> 'a rlp_result"
    and ok :: "'a \<Rightarrow> bool"
  assumes read_item: "ok x \<Longrightarrow> rlp_fits (item x) \<Longrightarrow> read (rlp_enc (item x)) = Inr x"
begin

lemma at_read:
  assumes "rlp_fits (RList xs)" and "i < length xs" and "xs ! i = item x" and "ok x"
  shows "ebind (rlp_at (rlp_enc (RList xs)) i) read = Inr x"
  using assms rlp_fits_item [OF assms(1) nth_mem [OF assms(2)]]
  by (simp add: rlp_at_nth read_item del: rlp_enc.simps)

lemma convert_all_read:
  "\<forall>x \<in> set xs. ok x \<and> rlp_fits (item x) \<Longrightarrow>
     convert_all read (map rlp_enc (map item xs)) = Inr xs"
  by (induction xs) (simp_all add: read_item)

lemma vector_read:
  assumes "rlp_fits (RList (map item xs))" and "\<forall>x \<in> set xs. ok x"
  shows "toVector read fl (rlp_enc (RList (map item xs))) = Some (Inr xs)"
  using assms rlp_fits_item [OF assms(1)] convert_all_read [of xs]
  by (simp add: toVector_def range_for_enc itemCount_enc del: rlp_enc.simps)

end

locale rlp_pair = a: rlp_field itemA readA okA + b: rlp_field itemB readB okB
  for itemA :: "'a \<Rightarrow> rlp_item" and readA okA and itemB :: "'b \<Rightarrow> rlp_item" and readB okB +
  fixes a0 :: 'a and b0 :: 'b and fl :: rlp_flags
begin

lemma pair_read:
  assumes "okA x" "okB y" "rlp_fits (RList [itemA x, itemB y])"
  shows "toPair readA readB a0 b0 fl (rlp_enc (RList [itemA x, itemB y])) = Inr (x, y)"
  using assms a.at_read [OF assms(3), of 0 x] b.at_read [OF assms(3), of 1 y]
  by (simp add: toPair_def itemCount_enc del: rlp_enc.simps)

sublocale pair: rlp_field "\<lambda>(x, y). RList [itemA x, itemB y]" "toPair readA readB a0 b0 fl"
    "\<lambda>(x, y). okA x \<and> okB y"
  by unfold_locales (auto simp: pair_read simp del: rlp_enc.simps)

end

subsection \<open>The conversions of \<open>RLP.h\<close> keep the contract\<close>

lemma requireGood_enc:
  assumes "rlp_fits (RStr b)"
  shows "requireGood (enc_bytes b) = Inr ()"
  using reader_enc_bytes(1,2) [OF rlp_fits_payload(1) [OF assms], of "[]"]
  by (auto simp: rlp_length_def isData_def ebind_Inr_iff isNull_def split: if_splits)

lemma reader_data:
  assumes "rlp_fits (RStr b)"
  shows "isData (enc_bytes b)" "payload (enc_bytes b) = Inr b" "rlp_length (enc_bytes b) = Inr (length b)"
    "\<not> isList (enc_bytes b)" "\<not> isNull (enc_bytes b)"
  using reader_enc_bytes [OF rlp_fits_payload(1) [OF assms], of "[]"]
    payload_enc_bytes [OF rlp_fits_payload(1) [OF assms], of "[]"]
  by (auto simp: isData_not_isList) (simp add: isData_def)

interpretation bytes_field: rlp_field RStr "toBytes fl" "\<lambda>_. True" for fl
  by unfold_locales (simp add: toBytes_def reader_data)

interpretation hash_field: rlp_field RStr "toHash N fl" "\<lambda>b. length b = N" for N fl
  by unfold_locales (auto simp: toHash_def reader_data requireGood_enc Let_def)

text \<open>The item \<open>append (bigint)\<close> writes for a non-negative integer.\<close>

definition int_item :: "nat \<Rightarrow> rlp_item" where
  "int_item n = RStr (toBigEndian (bytesRequired n) n)"

lemma isInt_enc_bytes:
  assumes "rlp_fits (RStr b)" and "b \<noteq> []" and "hd b \<noteq> 0"
  shows "isInt (enc_bytes b) = Inr True"
proof -
  let ?d = "enc_bytes b" and ?L = "length b"
  have fit: "?L < rlp_max" using rlp_fits_payload(1) [OF assms(1)] .
  have br: "bytesRequired ?L \<le> 8" using fit by (intro bytesRequired_le8) (simp add: rlp_max_def)
  have b0: "unat (b ! 0) \<noteq> 0" using assms(2,3) by (simp add: hd_conv_nth unat_eq_zero)
  note good = requireGood_enc [OF assms(1)] reader_data(4,5) [OF assms(1)]
  consider (single) "?L = 1 \<and> unat (hd b) < 128"
    | (small) "\<not> (?L = 1 \<and> unat (hd b) < 128)" "?L < 56"
    | (large) "\<not> (?L = 1 \<and> unat (hd b) < 128)" "\<not> ?L < 56" by blast
  then show ?thesis
  proof cases
    case single
    then show ?thesis using good b0 assms(2) by (simp add: isInt_def enc_bytes_def hd_conv_nth)
  next
    case small
    then have d: "?d = of_nat (128 + ?L) # b" by (simp add: enc_bytes_def enc_hdr_Cons)
    have "unat (?d ! 0) = 128 + ?L"
      unfolding d nth_Cons_0 using small by (intro unat_of_nat_small) simp
    moreover have "unat (?d ! 1) = unat (b ! 0)" "length ?d = Suc ?L" unfolding d by simp_all
    ultimately show ?thesis using good b0 small assms(2) by (simp add: isInt_def)
  next
    case large
    let ?b = "bytesRequired ?L"
    have d: "?d = of_nat (128 + (55 + ?b)) # toBigEndian ?b ?L @ b"
      using large by (simp add: enc_bytes_def enc_hdr_Cons)
    have d0: "unat (?d ! 0) = 128 + (55 + ?b)"
      unfolding d nth_Cons_0 using br by (intro unat_of_nat_small) simp
    have "0 < ?b" using large by (subst bytesRequired_pos_iff) linarith
    moreover have "?d ! Suc ?b = b ! 0" "length ?d = Suc (?b + ?L)" unfolding d by (simp_all add: nth_append)
    ultimately show ?thesis using good b0 d0 br assms(2) by (simp add: isInt_def Let_def)
  qed
qed

lemma isInt_int_item:
  assumes "rlp_fits (int_item n)"
  shows "isInt (rlp_enc (int_item n)) = Inr True"
proof (cases "n = 0")
  case True
  then show ?thesis
    by (simp add: int_item_def enc_bytes_def enc_hdr_def isInt_def isNull_def requireGood_def)
next
  case False
  with assms isInt_enc_bytes hd_toBigEndian_nonzero [of n] show ?thesis
    by (simp add: int_item_def flip: length_greater_0_conv)
qed

lemma toInt_int_item:
  assumes "rlp_fits (int_item n)" and "n < 256 ^ w"
  shows "toInt w Strict (rlp_enc (int_item n)) = Inr n"
proof -
  have "bytesRequired n \<le> w" using assms(2) by (simp add: bytesRequired_le_iff)
  moreover have "(2::nat) ^ (8 * w) = 256 ^ w" by (simp add: power_mult)
  ultimately show ?thesis
    using isInt_int_item [OF assms(1)] assms
    by (simp add: toInt_def int_item_def requireGood_enc reader_data fromBigEndian_w_eq)
qed

interpretation int_field: rlp_field int_item "toInt w Strict" "\<lambda>n. n < 256 ^ w" for w
  by unfold_locales (rule toInt_int_item)

lemma append_bigint_item:
  assumes "bytesRequired i < 2 ^ 64"
  shows "append_bigint i s = appendRaw (rlp_enc (int_item i)) 1 s"
proof -
  let ?b = "toBigEndian (bytesRequired i) i"
  have "i < 128 \<Longrightarrow> 0 < i \<Longrightarrow> bytesRequired i = 1" by (simp add: bytesRequired.simps)
  moreover have "\<not> (length ?b = 1 \<and> unat (hd ?b) < 128)" if "\<not> i < 128"
  proof
    assume "length ?b = 1 \<and> unat (hd ?b) < 128"
    then have "?b = [of_nat i]" and "i < 256"
      using lt_pow_bytesRequired [of i] by simp_all
    with that \<open>length ?b = 1 \<and> unat (hd ?b) < 128\<close> show False
      by (simp add: unat_of_nat_small)
  qed
  ultimately show ?thesis
    using bytesRequired_le8 [OF assms]
    by (auto simp: append_bigint_def appendRaw_def int_item_def enc_bytes_def enc_hdr_def
        noteAppended_def Let_def unat_of_nat_small add.commute)
qed

declare rlp_enc.simps(2) [simp del]

lemma emits_Cons_fun: "emits (x # xs) = (\<lambda>s. ebind (emit x s) (emits xs))"
  by (rule ext) simp

lemma emits_append: "emits (xs @ ys) = (\<lambda>s. ebind (emits xs s) (emits ys))"
  by (induction xs) (simp_all add: emits_Cons_fun ebind_assoc)

lemma append_bigint_emit:
  assumes "i < 256 ^ 32"
  shows "append_bigint i s = emit (int_item i) s"
proof -
  have "bytesRequired i \<le> 32" using assms by (simp add: bytesRequired_le_iff)
  then have "length (rlp_enc (int_item i)) \<le> 33" "bytesRequired i < 2 ^ 64"
    by (auto simp: int_item_def enc_bytes_def enc_hdr_def)
  then show ?thesis by (simp add: append_bigint_item emit_enc)
qed

lemma emit_out: "rlp_fits it \<Longrightarrow> ebind (emit it RLPStream) stream_out = Inr (rlp_enc it)"
  by (simp add: emit_enc rlp_fits_def rlp_max_def appendRaw_note RLPStream_def stream_out_def)

subsection \<open>A bound on encoded sizes\<close>

text \<open>An upper bound that is easy to evaluate: nine bytes of header for every item.\<close>

fun rlp_bound :: "rlp_item \<Rightarrow> nat" where
  "rlp_bound (RStr b) = 9 + length b"
| "rlp_bound (RList xs) = 9 + sum_list (map rlp_bound xs)"

lemma length_enc_hdr: "n < 2 ^ 64 \<Longrightarrow> length (enc_hdr base n) \<le> 9"
  using bytesRequired_le8 [of n] by (auto simp: enc_hdr_def bytesRequired_le_iff)

lemma rlp_bound_enc: "rlp_bound x < 2 ^ 60 \<Longrightarrow> length (rlp_enc x) \<le> rlp_bound x"
proof (induction x rule: rlp_bound.induct)
  case (1 b)
  then show ?case using length_enc_hdr [of "length b" 128] by (auto simp: enc_bytes_def)
next
  case (2 xs)
  have "length (concat (map rlp_enc ys)) \<le> sum_list (map rlp_bound ys)"
    if "set ys \<subseteq> set xs" "sum_list (map rlp_bound ys) < 2 ^ 60" for ys
    using that
  proof (induction ys)
    case (Cons y ys)
    then show ?case using "2.IH" [of y] by (simp add: add_mono)
  qed simp
  from this [of xs] "2.prems" show ?case
    using length_enc_hdr [of "length (concat (map rlp_enc xs))" 192]
    by (simp add: rlp_enc.simps(2) Let_def)
qed

lemma rlp_fits_bound: "rlp_bound x < 2 ^ 60 \<Longrightarrow> rlp_fits x"
  using rlp_bound_enc [of x] by (simp add: rlp_fits_def rlp_max_def)

lemma rlp_bound_int_item: "n < 256 ^ w \<Longrightarrow> rlp_bound (int_item n) \<le> 9 + w"
  by (simp add: int_item_def bytesRequired_le_iff)

end
