(* ===== verification/RLP_Properties.thy ===== *)
theory RLP_Properties
  imports RLP_Field
begin

section \<open>Properties of the RLP codec\<close>

text \<open>
  The statements a user of \<open>libdevcore/RLP\<close> relies on: the writer produces the canonical encoding,
  the reader inverts it, the subscript cache and the iterators are transparent, and a strictly
  accepted view is canonical. The last theorem shows where the cache is not transparent.
\<close>

text \<open>
  C7: writing any item tree with \<open>appendList\<close> and \<open>append\<close> on a fresh \<open>RLPStream\<close> yields exactly the
  RLP encoding of the tree, with no list left open.
\<close>

theorem rlp_writer_refines:
  assumes "length (rlp_enc it) < 2 ^ 64"
  shows "ebind (emit it RLPStream) stream_out = Inr (rlp_enc it)"
  by (simp add: emit_enc [OF assms] appendRaw_note RLPStream_def stream_out_def)

theorem rlp_writer_refines_witness:
  "ebind (emit (RList [RStr [1], RList [], RStr [200, 7]]) RLPStream) stream_out
     = Inr [0xc5, 1, 0xc0, 0x82, 200, 7]"
  using rlp_writer_refines [of "RList [RStr [1], RList [], RStr [200, 7]]"]
  by (simp add: rlp_enc.simps(2) enc_bytes_def enc_hdr_def)

text \<open>
  C8: the reader inverts the encoding of a list: the strict constructor accepts it, \<open>itemCount\<close> is the
  number of items, the range-for loop ends and \<open>toList\<close> returns the views of the items in order.
\<close>

theorem rlp_reader_inverts:
  fixes xs :: "rlp_item list"
  assumes "rlp_fits (RList xs)"
  defines "d \<equiv> rlp_enc (RList xs)"
  shows "RLP d VeryStrict = Inr d \<and> itemCount d = Inr (length xs)
       \<and> toList fl d = Some (Inr (map rlp_enc xs))"
  using assms by (simp add: RLP_exact itemCount_enc toList_def range_for_enc)

theorem rlp_reader_inverts_witness:
  "toList Strict (rlp_enc (RList [RStr [1], RStr [200, 7]])) = Some (Inr [[1], [0x82, 200, 7]])"
  using rlp_reader_inverts [of "[RStr [1], RStr [200, 7]]" Strict]
  by (simp add: rlp_enc.simps(2) rlp_fits_def rlp_max_def enc_bytes_def enc_hdr_def)

text \<open>
  Integers and byte strings survive a round trip through the stream and the strict conversions:
  \<open>toInt\<close> of a \<open>w\<close>-byte type reads back what \<open>append (bigint)\<close> wrote, and \<open>toBytes\<close> what
  \<open>append (bytes)\<close> wrote.
\<close>

lemma rlp_field_roundtrip:
  assumes "w \<le> 32" and "n < 256 ^ w" and "length b < 2 ^ 32"
  shows "ebind (ebind (append_bigint n RLPStream) stream_out) (toInt w Strict) = Inr n
       \<and> ebind (ebind (append_bytes False b RLPStream) stream_out) (toBytes fl) = Inr b"
proof -
  have br: "bytesRequired n \<le> 32" using assms(1,2) by (meson bytesRequired_le_iff le_trans)
  then have small: "length (rlp_enc (int_item n)) \<le> 33"
    by (auto simp: int_item_def enc_bytes_def enc_hdr_def)
  then have "rlp_fits (int_item n)" by (simp add: rlp_fits_def rlp_max_def)
  then have "toInt w Strict (rlp_enc (int_item n)) = Inr n"
    using assms(2) by (rule toInt_int_item)
  moreover have "length (rlp_enc (RStr b)) \<le> 9 + length b"
    using bytesRequired_le8 [of "length b"] assms(3) by (auto simp: enc_bytes_def enc_hdr_def)
  then have "rlp_fits (RStr b)" using assms(3) by (simp add: rlp_fits_def rlp_max_def)
  then have "toBytes fl (rlp_enc (RStr b)) = Inr b" by (rule bytes_field.read_item [OF TrueI])
  moreover have "bytesRequired n < 2 ^ 64" "length b < 2 ^ 64" using br assms(3) by simp_all
  ultimately show ?thesis
    by (simp add: append_bigint_item append_bytes_enc appendRaw_note RLPStream_def stream_out_def)
qed

lemma rlp_field_roundtrip_witness:
  "ebind (ebind (append_bigint 1024 RLPStream) stream_out) (toInt 4 Strict) = Inr 1024"
  using rlp_field_roundtrip [of 4 1024 "[]"] by simp

fun subscripts :: "rlp_obj \<Rightarrow> nat list \<Rightarrow> bytes rlp_result list" where
  "subscripts r [] = []"
| "subscripts r (i # is) = (case rlp_at_obj r i of (r', v) \<Rightarrow> v # subscripts r' is)"

lemma subscripts_ok:
  assumes "rlp_fits (RList xs)"
  shows "cache_ok xs r \<Longrightarrow> \<forall>i \<in> set is. i < 2 ^ 64 - 1 \<Longrightarrow>
    subscripts r is = map (\<lambda>i. Inr (if i < length xs then rlp_enc (xs ! i) else [])) is"
proof (induction "is" arbitrary: r)
  case Nil
  then show ?case by simp
next
  case (Cons i "is")
  then show ?case using rlp_at_obj_ok [OF assms, of r i] by fastforce
qed

text \<open>
  C9: the subscript cache is transparent on well-formed lists: whatever sequence of indices is read
  from one \<open>RLP\<close> object, in any order and past the end, each answer is the one a fresh object gives.
\<close>

theorem rlp_subscript_cache:
  assumes "rlp_fits (RList xs)" and "\<forall>i \<in> set is. i < 2 ^ 64 - 1"
  shows "subscripts (rlp_obj_of (rlp_enc (RList xs))) is = map (rlp_at (rlp_enc (RList xs))) is"
  using assms subscripts_ok [OF assms(1), of "rlp_obj_of (rlp_enc (RList xs))" "is"]
  by (simp add: cache_ok_def rlp_at_enc)

theorem rlp_subscript_cache_witness:
  "subscripts (rlp_obj_of (rlp_enc (RList [RStr [1], RStr [2]]))) [1, 0, 5]
     = map (rlp_at (rlp_enc (RList [RStr [1], RStr [2]]))) [1, 0, 5]"
  by (rule rlp_subscript_cache) (simp_all add: rlp_enc.simps(2) rlp_fits_def rlp_max_def enc_bytes_def enc_hdr_def)

text \<open>
  A view the strict constructor accepts is canonical: data is exactly the encoding of the bytes
  \<open>toBytes\<close> returns, and a list is exactly the canonical prefix of its payload followed by it. So no
  two different byte strings are accepted for the same content.
\<close>

lemma rlp_strict_canonical:
  assumes "RLP d VeryStrict = Inr d" and "d \<noteq> []"
  shows "if isData d then \<exists>b. toBytes fl d = Inr b \<and> d = enc_bytes b
         else \<exists>p. payload d = Inr p \<and> d = enc_list p"
  using assms canonical_data canonical_list isData_or_isList [of d] by (auto simp: isNull_def)

lemma rlp_strict_canonical_witness:
  "\<exists>b. toBytes Strict [0x82, 200, 7] = Inr b \<and> [0x82, 200, 7] = enc_bytes b"
  using rlp_strict_canonical [of "[0x82, 200, 7]" Strict]
  by (simp add: rlp_eval)

text \<open>
  The cache is not transparent after a failed subscript. On the view \<open>C2 05 81\<close> item 0 reads well,
  item 1 throws \<open>BadRLP\<close>, and reading item 0 again on the same object throws too.
\<close>

lemma rlp_cache_after_failure:
  "subscripts (rlp_obj_of [0xc2, 0x05, 0x81]) [0, 1, 0] = [Inr [0x05], Inl BadRLP, Inl BadRLP]
   \<and> rlp_at [0xc2, 0x05, 0x81] 0 = Inr [0x05]"
  by (simp add: rlp_eval)

end
