(* ===== verification/Common_Data.thy ===== *)
theory Common_Data
  imports Prelude
begin

section \<open>Hexadecimal text, nibbles and fixed hashes (\<open>libdevcore/CommonData\<close>, \<open>FixedHash\<close>)\<close>

text \<open>
  The conversions between byte strings and text that identifiers and messages of the program go
  through. A \<open>std::string\<close> is a list of characters; \<open>WhenError::Throw\<close> is the flag of \<open>fromHex\<close>.
\<close>

datatype hex_error = BadHexCharacter

definition hexdigits :: string where "hexdigits = ''0123456789abcdef''"

definition toHex :: "bytes \<Rightarrow> string \<Rightarrow> string" where
  "toHex b prefix =
     prefix @ concat (map (\<lambda>x. [hexdigits ! ((unat x div 16) mod 16), hexdigits ! (unat x mod 16)]) b)"

definition fromHexChar :: "char \<Rightarrow> int" where
  "fromHexChar c =
     (let i = (of_char c :: int) in
      if i \<ge> of_char CHR ''0'' \<and> i \<le> of_char CHR ''9'' then i - of_char CHR ''0''
      else if i \<ge> of_char CHR ''a'' \<and> i \<le> of_char CHR ''f'' then i - of_char CHR ''a'' + 10
      else if i \<ge> of_char CHR ''A'' \<and> i \<le> of_char CHR ''F'' then i - of_char CHR ''A'' + 10
      else -1)"

definition isHex :: "string \<Rightarrow> bool" where
  "isHex s =
     list_all (\<lambda>c. fromHexChar c \<noteq> -1) (if take 2 s = ''0x'' then drop 2 s else s)"

text \<open>The pair loop of \<open>fromHex\<close>; \<open>None\<close> at the first bad character.\<close>

fun hex_pairs :: "string \<Rightarrow> bytes option" where
  "hex_pairs (h # l # rest) =
     (if fromHexChar h \<noteq> -1 \<and> fromHexChar l \<noteq> -1
      then map_option (\<lambda>bs. of_int (fromHexChar h * 16 + fromHexChar l) # bs) (hex_pairs rest)
      else None)"
| "hex_pairs _ = Some []"

definition fromHex :: "string \<Rightarrow> bool \<Rightarrow> hex_error + bytes" where
  "fromHex s throw =
     (let t = (if length s \<ge> 2 \<and> s ! 0 = CHR ''0'' \<and> s ! 1 = CHR ''x'' then drop 2 s else s);
          bad = (if throw then Inl BadHexCharacter else Inr [])
      in
      if length s mod 2 = 1 then
        (if fromHexChar (hd t) \<noteq> -1
         then (case hex_pairs (tl t) of
                 Some bs \<Rightarrow> Inr (of_int (fromHexChar (hd t)) # bs) | None \<Rightarrow> bad)
         else bad)
      else (case hex_pairs t of Some bs \<Rightarrow> Inr bs | None \<Rightarrow> bad))"

definition asNibbles :: "bytes \<Rightarrow> bytes" where
  "asNibbles s = concat (map (\<lambda>i. [of_nat (unat i div 16), of_nat (unat i mod 16)]) s)"

fun commonPrefix :: "'a list \<Rightarrow> 'a list \<Rightarrow> nat" where
  "commonPrefix (x # xs) (y # ys) = (if x \<noteq> y then 0 else Suc (commonPrefix xs ys))"
| "commonPrefix _ _ = 0"

text \<open>\<open>FixedHash<N> (bytes, FailIfDifferent)\<close>: a wrong size gives the zero hash.\<close>

definition FixedHash :: "nat \<Rightarrow> bytes \<Rightarrow> bytes" where
  "FixedHash N b = (if length b = N then b else replicate N 0)"

text \<open>\<open>FixedHash<N> (string)\<close>: from hexadecimal text, throwing on a bad character.\<close>

definition FixedHash_hex :: "nat \<Rightarrow> string \<Rightarrow> hex_error + bytes" where
  "FixedHash_hex N s = ebind (fromHex s True) (\<lambda>b. Inr (FixedHash N b))"

subsection \<open>Round trips\<close>

lemma of_int_byte: "n < 256 \<Longrightarrow> unat x = n \<Longrightarrow> (of_int (int n) :: byte) = x"
  by auto

lemma fromHexChar_digit:
  assumes "n < 16"
  shows "fromHexChar (hexdigits ! n) = int n"
proof -
  have "list_all (\<lambda>n. fromHexChar (hexdigits ! n) = int n) [0..<16]"
    by (simp add: hexdigits_def fromHexChar_def upt_rec Let_def)
  with assms show ?thesis by (auto simp: list_all_iff)
qed

lemma hexdigit_not_x:
  assumes "n < 16"
  shows "hexdigits ! n \<noteq> CHR ''x''"
  using fromHexChar_digit [OF assms] by (auto simp: fromHexChar_def)

lemma hex_pairs_toHex: "hex_pairs (toHex b '''') = Some b"
proof (induction b)
  case Nil
  then show ?case by (simp add: toHex_def)
next
  case (Cons x b)
  have "unat x div 16 < 16"
    using unat_byte_lt [of x] by (simp add: less_mult_imp_div_less)
  moreover have "(of_int (int (unat x div 16) * 16 + int (unat x mod 16)) :: byte) = x"
  proof -
    have "int (unat x div 16) * 16 + int (unat x mod 16) = int (unat x)"
      by (metis div_mult_mod_eq of_nat_add of_nat_mult of_nat_numeral)
    then show ?thesis by simp
  qed
  ultimately show ?case
    using Cons by (simp add: toHex_def fromHexChar_digit)
qed

lemma length_toHex [simp]: "length (toHex b p) = length p + 2 * length b"
  by (induction b) (auto simp: toHex_def)

lemma toHex_nth1:
  assumes "b \<noteq> []"
  shows "toHex b '''' ! 1 \<noteq> CHR ''x''"
  using assms by (cases b) (simp_all add: toHex_def hexdigit_not_x)

lemma fromHex_toHex [simp]: "fromHex (toHex b '''') throw = Inr b"
proof -
  have "\<not> (length (toHex b '''') \<ge> 2 \<and> toHex b '''' ! 0 = CHR ''0'' \<and> toHex b '''' ! 1 = CHR ''x'')"
    using toHex_nth1 [of b] by (cases b) auto
  then show ?thesis by (auto simp: fromHex_def hex_pairs_toHex Let_def)
qed

text \<open>
  Hexadecimal text round trips: \<open>fromHex\<close> of what \<open>toHex\<close> wrote, with or without the \<open>0x\<close> prefix
  and whatever the error flag, is the original bytes.
\<close>

lemma hex_roundtrip:
  "fromHex (toHex b '''') throw = Inr b \<and> fromHex (toHex b ''0x'') throw = Inr b"
proof -
  have "toHex b ''0x'' = CHR ''0'' # CHR ''x'' # toHex b ''''" by (simp add: toHex_def)
  then have "fromHex (toHex b ''0x'') throw = Inr b" by (simp add: fromHex_def hex_pairs_toHex Let_def)
  then show ?thesis by simp
qed

end
