(* ===== verification/Block_Header.thy ===== *)
theory Block_Header
  imports RLP_Field
begin

section \<open>Block headers (\<open>libethcore/BlockHeader\<close>)\<close>

text \<open>
  The header record with its memoised hashes, its RLP form, parsing from a block or a header, and
  the checks of \<open>BlockHeader::verify\<close>. Keccak (\<open>libdevcore/SHA3\<close>) and the transaction trie root
  are arguments: nothing here depends on which functions they are. \<open>int64_t\<close> fields are \<open>int\<close>
  within their range, \<open>u256\<close> fields natural numbers below \<open>2 ^ 256\<close>.
\<close>

datatype block_error =
    Rlp rlp_error
  | InvalidBlockFormat
  | InvalidNumber
  | TooMuchGasUsed
  | InvalidParentHash
  | InvalidTimestamp
  | InvalidTransactionsRoot
  | InvalidUnclesHash

type_synonym 'a block_result = "block_error + 'a"

datatype IncludeSeal = WithoutSeal | WithSeal | OnlySeal

datatype Strictness = CheckEverything | JustSeal | QuickNonce | IgnoreSeal | CheckNothingNew

datatype BlockDataType = HeaderData | BlockData

record block_header =
  m_parentHash :: bytes
  m_sha3Uncles :: bytes
  m_stateRoot :: bytes
  m_transactionsRoot :: bytes
  m_receiptsRoot :: bytes
  m_logBloom :: bytes
  m_number :: int
  m_gasLimit :: nat
  m_gasUsed :: nat
  m_extraData :: bytes
  m_timestamp :: int
  m_author :: bytes
  m_difficulty :: nat
  m_seal :: "bytes list"
  m_hash :: bytes
  m_hashWithout :: bytes

definition BasicFields :: nat where "BasicFields = 13"

abbreviation zero_hash :: bytes where "zero_hash \<equiv> replicate 32 0"

text \<open>\<open>FixedHash::operator bool\<close>: some byte is not zero.\<close>

definition hash_set :: "bytes \<Rightarrow> bool" where
  "hash_set h \<longleftrightarrow> (\<exists>b \<in> set h. b \<noteq> 0)"

lemma hash_set_zero [simp]: "\<not> hash_set (replicate n 0)"
  by (simp add: hash_set_def)

text \<open>\<open>operator bool\<close> of the header: a default-constructed header has timestamp \<open>-1\<close>.\<close>

definition header_valid :: "block_header \<Rightarrow> bool" where
  "header_valid h \<longleftrightarrow> m_timestamp h \<noteq> -1"

definition noteDirty :: "block_header \<Rightarrow> block_header" where
  "noteDirty h = h\<lparr>m_hash := zero_hash, m_hashWithout := zero_hash\<rparr>"

definition setParentHash :: "bytes \<Rightarrow> block_header \<Rightarrow> block_header" where
  "setParentHash v h = noteDirty (h\<lparr>m_parentHash := v\<rparr>)"
definition setTimestamp :: "int \<Rightarrow> block_header \<Rightarrow> block_header" where
  "setTimestamp v h = noteDirty (h\<lparr>m_timestamp := v\<rparr>)"
definition setAuthor :: "bytes \<Rightarrow> block_header \<Rightarrow> block_header" where
  "setAuthor v h = noteDirty (h\<lparr>m_author := v\<rparr>)"
definition setRoots :: "bytes \<Rightarrow> bytes \<Rightarrow> bytes \<Rightarrow> bytes \<Rightarrow> block_header \<Rightarrow> block_header" where
  "setRoots t r u s h =
     noteDirty (h\<lparr>m_transactionsRoot := t, m_receiptsRoot := r, m_stateRoot := s, m_sha3Uncles := u\<rparr>)"
definition setGasUsed :: "nat \<Rightarrow> block_header \<Rightarrow> block_header" where
  "setGasUsed v h = noteDirty (h\<lparr>m_gasUsed := v\<rparr>)"
definition setNumber :: "int \<Rightarrow> block_header \<Rightarrow> block_header" where
  "setNumber v h = noteDirty (h\<lparr>m_number := v\<rparr>)"
definition setGasLimit :: "nat \<Rightarrow> block_header \<Rightarrow> block_header" where
  "setGasLimit v h = noteDirty (h\<lparr>m_gasLimit := v\<rparr>)"
definition setExtraData :: "bytes \<Rightarrow> block_header \<Rightarrow> block_header" where
  "setExtraData v h = noteDirty (h\<lparr>m_extraData := v\<rparr>)"
definition setLogBloom :: "bytes \<Rightarrow> block_header \<Rightarrow> block_header" where
  "setLogBloom v h = noteDirty (h\<lparr>m_logBloom := v\<rparr>)"
definition setDifficulty :: "nat \<Rightarrow> block_header \<Rightarrow> block_header" where
  "setDifficulty v h = noteDirty (h\<lparr>m_difficulty := v\<rparr>)"

text \<open>\<open>setSeal (_offset, _value)\<close>, on the already encoded value \<open>rlp (_value)\<close>.\<close>

definition setSeal :: "nat \<Rightarrow> bytes \<Rightarrow> block_header \<Rightarrow> block_header" where
  "setSeal off v h =
     (let s = (if length (m_seal h) \<le> off
               then m_seal h @ replicate (off + 1 - length (m_seal h)) [] else m_seal h)
      in noteDirty (h\<lparr>m_seal := s[off := v]\<rparr>))"

subsection \<open>Streaming and hashing\<close>

fun appendRaws :: "bytes list \<Rightarrow> rlp_stream \<Rightarrow> rlp_stream rlp_result" where
  "appendRaws [] s = Inr s"
| "appendRaws (x # xs) s = ebind (appendRaw x 1 s) (appendRaws xs)"

text \<open>
  \<open>_s << bigint (m_number)\<close> on a signed field: \<open>append (bigint)\<close> takes a negative number for one below
  \<open>0x80\<close> and writes its lowest byte.
\<close>

definition append_signed :: "int \<Rightarrow> rlp_stream \<Rightarrow> rlp_stream rlp_result" where
  "append_signed i s =
     (if i < 0 then noteAppended 1 (s\<lparr>m_out := m_out s @ [of_int i]\<rparr>) else append_bigint (nat i) s)"

definition streamRLPFields :: "block_header \<Rightarrow> rlp_stream \<Rightarrow> rlp_stream rlp_result" where
  "streamRLPFields h s0 =
     ebind (append_bytes False (m_parentHash h) s0) (\<lambda>s.
     ebind (append_bytes False (m_sha3Uncles h) s) (\<lambda>s.
     ebind (append_bytes False (m_author h) s) (\<lambda>s.
     ebind (append_bytes False (m_stateRoot h) s) (\<lambda>s.
     ebind (append_bytes False (m_transactionsRoot h) s) (\<lambda>s.
     ebind (append_bytes False (m_receiptsRoot h) s) (\<lambda>s.
     ebind (append_bytes False (m_logBloom h) s) (\<lambda>s.
     ebind (append_bigint (m_difficulty h) s) (\<lambda>s.
     ebind (append_signed (m_number h) s) (\<lambda>s.
     ebind (append_bigint (m_gasLimit h) s) (\<lambda>s.
     ebind (append_bigint (m_gasUsed h) s) (\<lambda>s.
     ebind (append_signed (m_timestamp h) s) (\<lambda>s.
     append_bytes False (m_extraData h) s))))))))))))"

definition streamRLP :: "IncludeSeal \<Rightarrow> block_header \<Rightarrow> rlp_stream \<Rightarrow> rlp_stream rlp_result" where
  "streamRLP i h s =
     ebind (if i \<noteq> OnlySeal then
              ebind (appendList (BasicFields + (if i = WithoutSeal then 0 else length (m_seal h))) s)
                (streamRLPFields h)
            else Inr s)
       (\<lambda>s. if i \<noteq> WithoutSeal then appendRaws (m_seal h) s else Inr s)"

text \<open>\<open>hash (_i)\<close>: the memo is filled on the first call and returned from then on.\<close>

definition header_hash :: "(bytes \<Rightarrow> bytes) \<Rightarrow> IncludeSeal \<Rightarrow> block_header \<Rightarrow>
    (block_header \<times> bytes) rlp_result" where
  "header_hash sha3 i h =
     (let memo = (case i of WithSeal \<Rightarrow> m_hash h | WithoutSeal \<Rightarrow> m_hashWithout h | OnlySeal \<Rightarrow> zero_hash) in
      if hash_set memo then Inr (h, memo)
      else ebind (ebind (streamRLP i h RLPStream) stream_out) (\<lambda>out.
        let v = sha3 out in
        Inr ((case i of WithSeal \<Rightarrow> h\<lparr>m_hash := v\<rparr> | WithoutSeal \<Rightarrow> h\<lparr>m_hashWithout := v\<rparr>
              | OnlySeal \<Rightarrow> h), v)))"

subsection \<open>Parsing\<close>

definition toPositiveInt64 :: "bytes \<Rightarrow> int rlp_result" where
  "toPositiveInt64 d =
     ebind (toInt 8 Strict d) (\<lambda>v. if v \<ge> 2 ^ 63 then Inl BadCast else Inr (int v))"

definition extractHeader :: "bytes \<Rightarrow> bytes block_result" where
  "extractHeader block =
     (case RLP block VeryStrict of
        Inl e \<Rightarrow> Inl (Rlp e)
      | Inr root \<Rightarrow>
        if \<not> isList root then Inl InvalidBlockFormat
        else case rlp_at root 0 of
          Inl e \<Rightarrow> Inl (Rlp e)
        | Inr header \<Rightarrow>
          if \<not> isList header then Inl InvalidBlockFormat
          else case rlp_at root 1 of
            Inl e \<Rightarrow> Inl (Rlp e)
          | Inr txs \<Rightarrow>
            if \<not> isList txs then Inl InvalidBlockFormat
            else case rlp_at root 2 of
              Inl e \<Rightarrow> Inl (Rlp e)
            | Inr uncles \<Rightarrow> if \<not> isList uncles then Inl InvalidBlockFormat else Inr header)"

text \<open>The loop that collects the seal fields from position \<open>i\<close> on.\<close>

fun seal_fields :: "bytes \<Rightarrow> nat list \<Rightarrow> bytes list rlp_result" where
  "seal_fields d [] = Inr []"
| "seal_fields d (i # is) =
     ebind (rlp_at d i) (\<lambda>x. ebind (seal_fields d is) (\<lambda>xs. Inr (x # xs)))"

abbreviation field :: "bytes \<Rightarrow> nat \<Rightarrow> (bytes \<Rightarrow> 'a rlp_result) \<Rightarrow> 'a rlp_result" where
  "field d i conv \<equiv> ebind (rlp_at d i) conv"

definition populate :: "bytes \<Rightarrow> block_header \<Rightarrow> block_header rlp_result" where
  "populate d h =
     ebind (field d 0 (toHash 32 VeryStrict)) (\<lambda>parentHash.
     ebind (field d 1 (toHash 32 VeryStrict)) (\<lambda>sha3Uncles.
     ebind (field d 2 (toHash 20 VeryStrict)) (\<lambda>author.
     ebind (field d 3 (toHash 32 VeryStrict)) (\<lambda>stateRoot.
     ebind (field d 4 (toHash 32 VeryStrict)) (\<lambda>transactionsRoot.
     ebind (field d 5 (toHash 32 VeryStrict)) (\<lambda>receiptsRoot.
     ebind (field d 6 (toHash 256 VeryStrict)) (\<lambda>logBloom.
     ebind (field d 7 (toInt 32 Strict)) (\<lambda>difficulty.
     ebind (field d 8 toPositiveInt64) (\<lambda>number.
     ebind (field d 9 (toInt 32 Strict)) (\<lambda>gasLimit.
     ebind (field d 10 (toInt 32 Strict)) (\<lambda>gasUsed.
     ebind (field d 11 toPositiveInt64) (\<lambda>timestamp.
     ebind (field d 12 (toBytes LaissezFaire)) (\<lambda>extraData.
     ebind (itemCount d) (\<lambda>n.
     ebind (seal_fields d [13..<n]) (\<lambda>seal.
       Inr (h\<lparr>m_parentHash := parentHash, m_sha3Uncles := sha3Uncles, m_author := author,
              m_stateRoot := stateRoot, m_transactionsRoot := transactionsRoot,
              m_receiptsRoot := receiptsRoot, m_logBloom := logBloom, m_difficulty := difficulty,
              m_number := number, m_gasLimit := gasLimit, m_gasUsed := gasUsed,
              m_timestamp := timestamp, m_extraData := extraData, m_seal := seal\<rparr>))))))))))))))))"

definition BlockHeader0 :: block_header where
  "BlockHeader0 = \<lparr>m_parentHash = zero_hash, m_sha3Uncles = zero_hash, m_stateRoot = zero_hash,
     m_transactionsRoot = zero_hash, m_receiptsRoot = zero_hash, m_logBloom = replicate 256 0,
     m_number = 0, m_gasLimit = 0, m_gasUsed = 0, m_extraData = [], m_timestamp = -1,
     m_author = replicate 20 0, m_difficulty = 0, m_seal = [], m_hash = zero_hash, m_hashWithout = zero_hash\<rparr>"

text \<open>The parsing constructor \<open>BlockHeader (_block, _bdt, _hashWith)\<close>.\<close>

definition BlockHeader :: "(bytes \<Rightarrow> bytes) \<Rightarrow> bytes \<Rightarrow> BlockDataType \<Rightarrow> bytes \<Rightarrow> block_header block_result" where
  "BlockHeader sha3 block bdt hashWith =
     ebind (if bdt = BlockData then extractHeader block
            else (case RLP block VeryStrict of Inl e \<Rightarrow> Inl (Rlp e) | Inr d \<Rightarrow> Inr d))
       (\<lambda>header.
         let h = BlockHeader0\<lparr>m_hash := (if hash_set hashWith then hashWith else sha3 header)\<rparr> in
         case populate header h of Inl e \<Rightarrow> Inl (Rlp e) | Inr h' \<Rightarrow> Inr h')"

definition headerHashFromBlock :: "(bytes \<Rightarrow> bytes) \<Rightarrow> bytes \<Rightarrow> bytes rlp_result" where
  "headerHashFromBlock sha3 block =
     ebind (RLP block VeryStrict) (\<lambda>r. ebind (rlp_at r 0) (\<lambda>d. Inr (sha3 d)))"

subsection \<open>Deriving and verifying\<close>

definition populateFromParent :: "block_header \<Rightarrow> block_header \<Rightarrow> block_header" where
  "populateFromParent h parent =
     h\<lparr>m_stateRoot := m_stateRoot parent, m_number := m_number parent + 1,
       m_parentHash := m_hash parent, m_gasLimit := m_gasLimit parent,
       m_difficulty := m_difficulty parent, m_gasUsed := 0\<rparr>"

text \<open>
  \<open>verify\<close>. \<open>_parent\<close> is skipped when it is a default header, \<open>_block\<close> when it is empty; \<open>txRoot\<close> is
  \<open>trieRootOver\<close> on the transaction list of the block.
\<close>

definition header_verify :: "(bytes \<Rightarrow> bytes) \<Rightarrow> (bytes \<Rightarrow> bytes rlp_result) \<Rightarrow> Strictness \<Rightarrow>
    block_header \<Rightarrow> bytes \<Rightarrow> block_header \<Rightarrow> unit block_result" where
  "header_verify sha3 txRoot s parent block h =
     (if m_number h > 2 ^ 32 - 1 then Inl InvalidNumber
      else if s \<noteq> CheckNothingNew \<and> m_gasUsed h > m_gasLimit h then Inl TooMuchGasUsed
      else ebind
        (if header_valid parent then
           ebind (if hash_set (m_parentHash h)
                  then (case header_hash sha3 WithSeal parent of
                          Inl e \<Rightarrow> Inl (Rlp e)
                        | Inr (_, v) \<Rightarrow> if v \<noteq> m_parentHash h then Inl InvalidParentHash else Inr ())
                  else Inr ())
             (\<lambda>_. if m_timestamp h \<le> m_timestamp parent then Inl InvalidTimestamp
                  else if m_number h \<noteq> m_number parent + 1 then Inl InvalidNumber
                  else Inr ())
         else Inr ())
        (\<lambda>_.
          if block = [] then Inr ()
          else (case RLP block VeryStrict of
              Inl e \<Rightarrow> Inl (Rlp e)
            | Inr root \<Rightarrow>
              (case ebind (rlp_at root 1) txRoot of
                 Inl e \<Rightarrow> Inl (Rlp e)
               | Inr expectedRoot \<Rightarrow>
                 if m_transactionsRoot h \<noteq> expectedRoot then Inl InvalidTransactionsRoot
                 else (case rlp_at root 2 of
                     Inl e \<Rightarrow> Inl (Rlp e)
                   | Inr uncles \<Rightarrow>
                     if m_sha3Uncles h \<noteq> sha3 uncles then Inl InvalidUnclesHash else Inr ())))))"

subsection \<open>The header as an item tree\<close>

definition header_items :: "block_header \<Rightarrow> rlp_item list" where
  "header_items h =
     [RStr (m_parentHash h), RStr (m_sha3Uncles h), RStr (m_author h), RStr (m_stateRoot h),
      RStr (m_transactionsRoot h), RStr (m_receiptsRoot h), RStr (m_logBloom h),
      int_item (m_difficulty h), int_item (nat (m_number h)), int_item (m_gasLimit h),
      int_item (m_gasUsed h), int_item (nat (m_timestamp h)), RStr (m_extraData h)]"

text \<open>A header whose fields are within their types and whose seal fields are \<open>seals\<close>.\<close>

definition header_ok :: "block_header \<Rightarrow> rlp_item list \<Rightarrow> bool" where
  "header_ok h seals \<longleftrightarrow>
     length (m_parentHash h) = 32 \<and> length (m_sha3Uncles h) = 32 \<and> length (m_author h) = 20 \<and>
     length (m_stateRoot h) = 32 \<and> length (m_transactionsRoot h) = 32 \<and>
     length (m_receiptsRoot h) = 32 \<and> length (m_logBloom h) = 256 \<and>
     m_difficulty h < 256 ^ 32 \<and> m_gasLimit h < 256 ^ 32 \<and> m_gasUsed h < 256 ^ 32 \<and>
     0 \<le> m_number h \<and> m_number h < 2 ^ 63 \<and> 0 \<le> m_timestamp h \<and> m_timestamp h < 2 ^ 63 \<and>
     m_seal h = map rlp_enc seals \<and> rlp_fits (RList (header_items h @ seals))"

lemma length_header_items [simp]: "length (header_items h) = 13"
  by (simp add: header_items_def)

lemma streamRLPFields_emits:
  assumes "header_ok h seals"
  shows "streamRLPFields h s = emits (header_items h) s"
proof -
  have "nat (m_number h) < 256 ^ 32" "nat (m_timestamp h) < 256 ^ 32"
    using assms by (auto simp: header_ok_def)
  with assms show ?thesis
    by (simp add: header_ok_def streamRLPFields_def header_items_def append_signed_def append_bigint_emit emits_Cons_fun)
qed

lemma bytesRequired_mono: "n \<le> m \<Longrightarrow> bytesRequired n \<le> bytesRequired m"
  using lt_pow_bytesRequired [of m] by (simp add: bytesRequired_le_iff)

lemma rlp_fits_append: "rlp_fits (RList (xs @ ys)) \<Longrightarrow> rlp_fits (RList xs)"
  using bytesRequired_mono [of "length (concat (map rlp_enc xs))"
      "length (concat (map rlp_enc xs)) + length (concat (map rlp_enc ys))"]
  by (auto simp: rlp_enc.simps(2) rlp_fits_def enc_hdr_def Let_def split: if_splits)

lemma appendRaws_emits:
  "\<forall>x \<in> set xs. rlp_fits x \<Longrightarrow> appendRaws (map rlp_enc xs) s = emits xs s"
proof (induction xs arbitrary: s)
  case (Cons x xs)
  then have "length (rlp_enc x) < 2 ^ 64" by (simp add: rlp_fits_def rlp_max_def)
  with Cons have "appendRaws (map rlp_enc xs) = emits xs" by (intro ext) simp
  with \<open>length (rlp_enc x) < 2 ^ 64\<close> show ?case by (simp add: emit_enc)
qed simp

lemma streamRLP_enc:
  assumes "header_ok h seals"
  shows "ebind (streamRLP WithSeal h RLPStream) stream_out = Inr (rlp_enc (RList (header_items h @ seals)))"
    and "ebind (streamRLP WithoutSeal h RLPStream) stream_out = Inr (rlp_enc (RList (header_items h)))"
proof -
  let ?xs = "header_items h @ seals"
  have fits: "rlp_fits (RList ?xs)" and seal: "m_seal h = map rlp_enc seals"
    using assms by (simp_all add: header_ok_def)
  have out: "ebind (emit it RLPStream) stream_out = Inr (rlp_enc it)" if "rlp_fits it" for it
    using that by (simp add: emit_enc rlp_fits_def rlp_max_def appendRaw_note RLPStream_def stream_out_def)
  have fields: "streamRLPFields h = emits (header_items h)"
    using streamRLPFields_emits [OF assms] by (intro ext)
  have "appendRaws (m_seal h) = emits seals"
    using rlp_fits_item [OF fits] by (intro ext) (simp add: seal appendRaws_emits)
  then have "streamRLP WithSeal h RLPStream = emit (RList ?xs) RLPStream"
    using seal by (simp add: streamRLP_def BasicFields_def fields ebind_assoc emits_append)
  with out [OF fits] show "ebind (streamRLP WithSeal h RLPStream) stream_out = Inr (rlp_enc (RList ?xs))"
    by (simp)
  have "streamRLP WithoutSeal h RLPStream = emit (RList (header_items h)) RLPStream"
    by (simp add: streamRLP_def BasicFields_def fields)
  with out [OF rlp_fits_append [OF fits]]
  show "ebind (streamRLP WithoutSeal h RLPStream) stream_out = Inr (rlp_enc (RList (header_items h)))"
    by (simp)
qed

subsection \<open>Parsing what was streamed\<close>

interpretation int64_field: rlp_field "\<lambda>i. int_item (nat i)" toPositiveInt64 "\<lambda>i. 0 \<le> i \<and> i < 2 ^ 63"
proof
  fix i :: int
  assume i: "0 \<le> i \<and> i < 2 ^ 63" and fits: "rlp_fits (int_item (nat i))"
  then have "nat i < 2 ^ 63" by (simp add: nat_less_iff)
  then have "nat i < 256 ^ 8" by simp
  with fits have "toInt 8 Strict (rlp_enc (int_item (nat i))) = Inr (nat i)" by (rule toInt_int_item)
  with i \<open>nat i < 2 ^ 63\<close> show "toPositiveInt64 (rlp_enc (int_item (nat i))) = Inr i"
    by (simp add: toPositiveInt64_def)
qed

lemma seal_fields_enc:
  assumes "rlp_fits (RList xs)"
  shows "\<forall>i \<in> set is. i < length xs \<Longrightarrow>
    seal_fields (rlp_enc (RList xs)) is = Inr (map (\<lambda>i. rlp_enc (xs ! i)) is)"
  by (induction "is") (simp_all add: rlp_at_nth [OF assms])

lemma map_nth_from: "map (\<lambda>i. f ((xs @ ys) ! i)) [length xs..<length (xs @ ys)] = map f ys"
  by (rule nth_equalityI) (simp_all add: nth_append)

lemma populate_enc:
  assumes "header_ok h seals"
  shows "populate (rlp_enc (RList (header_items h @ seals))) g
     = Inr (h\<lparr>m_hash := m_hash g, m_hashWithout := m_hashWithout g\<rparr>)"
proof -
  let ?xs = "header_items h @ seals"
  let ?d = "rlp_enc (RList ?xs)"
  have fits: "rlp_fits (RList ?xs)" and seal: "m_seal h = map rlp_enc seals"
    using assms by (simp_all add: header_ok_def)
  have nths: "13 \<le> length ?xs" "length ?xs = 13 + length seals" by simp_all
  note hash = hash_field.at_read [OF fits] and int = int_field.at_read [OF fits]
    and i64 = int64_field.at_read [OF fits] and byt = bytes_field.at_read [OF fits]
  have seals: "seal_fields ?d [13..<length ?xs] = Inr (m_seal h)"
    using seal_fields_enc [OF fits, of "[13..<length ?xs]"] map_nth_from [of rlp_enc "header_items h" seals]
    by (simp add: seal)
  have cnt: "itemCount ?d = Inr (length ?xs)" using fits by (rule itemCount_enc)
  have fs: "field ?d 0 (toHash 32 VeryStrict) = Inr (m_parentHash h)"
    "field ?d 1 (toHash 32 VeryStrict) = Inr (m_sha3Uncles h)"
    "field ?d 2 (toHash 20 VeryStrict) = Inr (m_author h)"
    "field ?d 3 (toHash 32 VeryStrict) = Inr (m_stateRoot h)"
    "field ?d 4 (toHash 32 VeryStrict) = Inr (m_transactionsRoot h)"
    "field ?d 5 (toHash 32 VeryStrict) = Inr (m_receiptsRoot h)"
    "field ?d 6 (toHash 256 VeryStrict) = Inr (m_logBloom h)"
    "field ?d 7 (toInt 32 Strict) = Inr (m_difficulty h)"
    "field ?d 8 toPositiveInt64 = Inr (m_number h)"
    "field ?d 9 (toInt 32 Strict) = Inr (m_gasLimit h)"
    "field ?d 10 (toInt 32 Strict) = Inr (m_gasUsed h)"
    "field ?d 11 toPositiveInt64 = Inr (m_timestamp h)"
    "field ?d 12 (toBytes LaissezFaire) = Inr (m_extraData h)"
    using assms
    by (intro hash int i64 byt; simp add: header_ok_def header_items_def nth_append)+
  show ?thesis
    unfolding populate_def fs cnt ebind_simps seals by simp
qed

subsection \<open>The memoised hashes\<close>

text \<open>A memo that is set is the hash of the header's current content.\<close>

definition memo_ok :: "(bytes \<Rightarrow> bytes) \<Rightarrow> rlp_item list \<Rightarrow> block_header \<Rightarrow> bool" where
  "memo_ok sha3 seals h \<longleftrightarrow>
     (hash_set (m_hash h) \<longrightarrow> m_hash h = sha3 (rlp_enc (RList (header_items h @ seals)))) \<and>
     (hash_set (m_hashWithout h) \<longrightarrow> m_hashWithout h = sha3 (rlp_enc (RList (header_items h))))"

lemma header_items_memo [simp]:
  "header_items (h\<lparr>m_hash := a\<rparr>) = header_items h"
  "header_items (h\<lparr>m_hashWithout := a\<rparr>) = header_items h"
  by (simp_all add: header_items_def)

lemma memo_ok_noteDirty: "memo_ok sha3 seals (noteDirty h)"
  by (simp add: memo_ok_def noteDirty_def)

lemma header_hash_ok:
  assumes "header_ok h seals" and "memo_ok sha3 seals h"
  shows "\<exists>h'. header_hash sha3 WithSeal h = Inr (h', sha3 (rlp_enc (RList (header_items h @ seals))))
              \<and> memo_ok sha3 seals h'"
    and "\<exists>h'. header_hash sha3 WithoutSeal h = Inr (h', sha3 (rlp_enc (RList (header_items h))))
              \<and> memo_ok sha3 seals h'"
  using assms streamRLP_enc [OF assms(1)]
  by (auto simp: header_hash_def memo_ok_def Let_def)

subsection \<open>Properties\<close>

text \<open>
  C10: a header survives the trip through its RLP form: parsing what \<open>streamRLP (WithSeal)\<close> wrote gives
  the header back, every field and every seal field included, with the memo set to the hash of the
  bytes parsed.
\<close>

theorem header_roundtrip:
  assumes "header_ok h seals"
  shows "\<exists>d. ebind (streamRLP WithSeal h RLPStream) stream_out = Inr d
       \<and> BlockHeader sha3 d HeaderData zero_hash = Inr (h\<lparr>m_hash := sha3 d, m_hashWithout := zero_hash\<rparr>)"
  using streamRLP_enc(1) [OF assms] populate_enc [OF assms] assms
  by (auto simp: BlockHeader_def Let_def BlockHeader0_def RLP_exact header_ok_def)

definition sample_header :: block_header where
  "sample_header = BlockHeader0\<lparr>m_number := 5, m_timestamp := 1000, m_gasLimit := 300,
     m_seal := [[0x07]]\<rparr>"

lemma rlp_fits_small:
  assumes "list_all (\<lambda>x. length (rlp_enc x) \<le> 300) xs" and "length xs \<le> 100"
  shows "rlp_fits (RList xs)"
proof -
  have "length (concat (map rlp_enc ys)) \<le> 300 * length ys" if "list_all (\<lambda>x. length (rlp_enc x) \<le> 300) ys" for ys
    using that by (induction ys) auto
  then have len: "length (concat (map rlp_enc xs)) \<le> 300 * 100"
    using assms by (meson le_trans mult_le_mono2)
  then have "bytesRequired (length (concat (map rlp_enc xs))) \<le> 2"
    by (simp add: bytesRequired_le_iff)
  with len show ?thesis by (auto simp: rlp_enc.simps(2) rlp_fits_def enc_hdr_def Let_def rlp_max_def)
qed

lemma sample_header_ok: "header_ok sample_header [RStr [0x07]]"
proof -
  have "list_all (\<lambda>x. length (rlp_enc x) \<le> 300) (header_items sample_header @ [RStr [0x07]])"
    by (simp add: header_items_def sample_header_def BlockHeader0_def enc_bytes_def enc_hdr_def int_item_def
        bytesRequired.simps)
  then have "rlp_fits (RList (header_items sample_header @ [RStr [0x07]]))"
    by (rule rlp_fits_small) simp
  then show ?thesis
    by (simp add: header_ok_def) (simp add: sample_header_def BlockHeader0_def enc_bytes_def)
qed

theorem header_roundtrip_witness:
  "\<exists>d. ebind (streamRLP WithSeal sample_header RLPStream) stream_out = Inr d
       \<and> BlockHeader (\<lambda>_. zero_hash) d HeaderData zero_hash = Inr sample_header"
  using header_roundtrip [OF sample_header_ok, of "\<lambda>_. zero_hash"]
  by (simp add: sample_header_def BlockHeader0_def)

text \<open>
  C11: \<open>verify\<close> against a parent and a block succeeds exactly when the number fits 32 bits and follows the
  parent's, the gas used is within the limit (unless nothing new is checked), the timestamp is later
  than the parent's, a parent hash that is set is the parent's hash, and the transaction root and the
  uncles hash are those of the block.
\<close>

theorem header_verify_iff:
  assumes "header_valid parent" and "header_ok parent pseals" and "memo_ok sha3 pseals parent"
    and "RLP block VeryStrict = Inr block" and "block \<noteq> []"
    and "rlp_at block 1 = Inr txs" and "txRoot txs = Inr root" and "rlp_at block 2 = Inr uncles"
  shows "header_verify sha3 txRoot s parent block h = Inr () \<longleftrightarrow>
      m_number h \<le> 2 ^ 32 - 1 \<and> m_number h = m_number parent + 1
      \<and> (s = CheckNothingNew \<or> m_gasUsed h \<le> m_gasLimit h)
      \<and> m_timestamp h > m_timestamp parent
      \<and> (hash_set (m_parentHash h) \<longrightarrow>
           m_parentHash h = sha3 (rlp_enc (RList (header_items parent @ pseals))))
      \<and> m_transactionsRoot h = root \<and> m_sha3Uncles h = sha3 uncles"
proof -
  obtain p' where "header_hash sha3 WithSeal parent
      = Inr (p', sha3 (rlp_enc (RList (header_items parent @ pseals))))"
    using header_hash_ok(1) [OF assms(2,3)] by blast
  with assms show ?thesis
    by (auto simp: header_verify_def)
qed

theorem header_verify_iff_witness:
  "header_verify (\<lambda>_. replicate 32 1) (\<lambda>_. Inr (replicate 32 2)) CheckEverything sample_header
     [0xc3, 0x80, 0xc0, 0xc0]
     (sample_header\<lparr>m_number := 6, m_timestamp := 1001, m_parentHash := replicate 32 1,
        m_transactionsRoot := replicate 32 2, m_sha3Uncles := replicate 32 1\<rparr>) = Inr ()"
proof -
  have "memo_ok (\<lambda>_. replicate 32 1) [RStr [0x07]] sample_header"
    by (simp add: memo_ok_def sample_header_def BlockHeader0_def)
  moreover have "header_valid sample_header" by (simp add: header_valid_def sample_header_def)
  ultimately show ?thesis
    by (subst header_verify_iff [OF _ sample_header_ok, where txs = "[0xc0]" and uncles = "[0xc0]"
          and root = "replicate 32 2"])
      (simp_all add: rlp_eval, simp add: sample_header_def BlockHeader0_def)
qed

end
