(* ===== verification/Qpos_Engine.thy ===== *)
theory Qpos_Engine
  imports Common_Data Block_Header "HOL-Library.List_Lexorder"
begin

section \<open>The QPOS seal engine base (\<open>libqpos/QposSealEngine\<close>, \<open>QposHost\<close>, \<open>QposPeer\<close>)\<close>

text \<open>
  Node identities, signatures and the message plumbing shared by the consensus: signing and
  verifying, sending to peers, and the miner list the node contract returns as JSON. The elliptic
  curve primitives (secp256k1) and the JSON reader (json_spirit) are outside the sources and stand
  as arguments; \<open>dev::verify\<close> itself is modelled on top of \<open>recover\<close>.
\<close>

type_synonym node_id = bytes \<comment> \<open>\<open>h512\<close>, ordered as \<open>FixedHash::operator<\<close>\<close>
type_synonym sig = bytes \<comment> \<open>\<open>h520\<close>\<close>

text \<open>What the consensus needs from its surroundings.\<close>

record crypto =
  e_sha3 :: "bytes \<Rightarrow> bytes"
  e_recover :: "sig \<Rightarrow> bytes \<Rightarrow> node_id"
  e_sign :: "node_id \<Rightarrow> bytes \<Rightarrow> sig" \<comment> \<open>\<open>dev::sign\<close> with the secret of the given public key\<close>

definition verify :: "crypto \<Rightarrow> node_id \<Rightarrow> sig \<Rightarrow> bytes \<Rightarrow> bool" where
  "verify c p s h = (if \<not> hash_set p then False else p = e_recover c s h)"

text \<open>The documented behaviour of the curve library: a signature recovers to its signer.\<close>

definition sign_recovers :: "crypto \<Rightarrow> node_id \<Rightarrow> bool" where
  "sign_recovers c p \<longleftrightarrow> hash_set p \<and> (\<forall>h. e_recover c (e_sign c p h) h = p)"

lemma verify_sign: "sign_recovers c p \<Longrightarrow> verify c p (e_sign c p h) h"
  by (simp add: verify_def sign_recovers_def)

subsection \<open>Outgoing messages\<close>

datatype qpos_out =
    SendTo node_id bytes \<comment> \<open>a packet handed to a peer's session\<close>
  | SealGenerated bytes bool \<comment> \<open>the callback \<open>m_onSealGenerated (block, isOurs)\<close>\<close>
  | AddPeer string \<comment> \<open>\<open>Host::addPeer\<close> with a node specification\<close>
  | Signal string \<comment> \<open>\<open>kill (m_hostTid, ...)\<close>\<close>
  | Thrown block_error \<comment> \<open>an exception that leaves the handler\<close>
  | AssertFailed \<comment> \<open>an \<open>assert\<close> whose condition is false\<close>

text \<open>
  \<open>QposPeer::prep (s, QposMsgQpos, 1)\<close> and \<open>s.appendList (_msg)\<close>: what the other side receives as \<open>_r\<close>
  (the packet type byte in front is consumed by the session).
\<close>

definition qpos_packet :: "bytes \<Rightarrow> bytes rlp_result" where
  "qpos_packet msg =
     ebind (appendList 1 RLPStream) (\<lambda>s. ebind (appendList_bytes msg s) stream_out)"

definition packet_to :: "node_id \<Rightarrow> bytes \<Rightarrow> qpos_out list" where
  "packet_to p msg = (case qpos_packet msg of Inl e \<Rightarrow> [Thrown (Rlp e)] | Inr b \<Rightarrow> [SendTo p b])"

text \<open>\<open>peers\<close> are the connected peers in the order \<open>QposHost::foreachPeer\<close> visits them.\<close>

definition multicast :: "node_id list \<Rightarrow> node_id \<Rightarrow> node_id set \<Rightarrow> bytes \<Rightarrow> qpos_out list" where
  "multicast peers self ids msg =
     (if ids = {} then []
      else concat (map (\<lambda>p. if p \<in> ids \<and> p \<noteq> self then packet_to p msg else []) peers))"

definition send :: "node_id list \<Rightarrow> node_id \<Rightarrow> node_id \<Rightarrow> bytes \<Rightarrow> qpos_out list" where
  "send peers self i msg = multicast peers self {i} msg"

definition broadcast :: "node_id list \<Rightarrow> bytes \<Rightarrow> qpos_out list" where
  "broadcast peers msg = concat (map (\<lambda>p. packet_to p msg) peers)"

subsection \<open>The node list\<close>

text \<open>A parsed JSON value; only the shapes the code distinguishes.\<close>

datatype js = JObj "(string \<times> js) list" | JArr "js list" | JStr string | JOther

datatype json_error =
    NotJson \<comment> \<open>\<open>read_string_or_throw\<close> throws\<close>
  | NotArray \<comment> \<open>\<open>get_array\<close> throws\<close>
  | DerefEnd \<comment> \<open>\<open>o.find ("id")->second\<close> on an object without the key: undefined behaviour\<close>

type_synonym properties = "string \<rightharpoonup> string"

text \<open>\<open>getValueMap\<close>: the string members of an object (an object is a map: its keys are distinct).\<close>

fun value_members :: "(string \<times> js) list \<Rightarrow> properties \<Rightarrow> properties" where
  "value_members [] m = m"
| "value_members ((k, JStr v) # xs) m = value_members xs (m(k \<mapsto> v))"
| "value_members ((k, _) # xs) m = value_members xs m"

definition getValueMap :: "js \<Rightarrow> properties" where
  "getValueMap v = (case v of JObj xs \<Rightarrow> value_members xs Map.empty | _ \<Rightarrow> Map.empty)"

text \<open>One element of the array: \<open>Inr None\<close> when it is skipped.\<close>

definition node_of_js :: "js \<Rightarrow> json_error + (node_id \<times> properties) option" where
  "node_of_js v =
     (case v of
        JObj o' \<Rightarrow>
          (case map_of o' ''id'' of
             None \<Rightarrow> Inl DerefEnd
           | Some (JStr i) \<Rightarrow>
               (case FixedHash_hex 64 i of
                  Inl _ \<Rightarrow> Inr None
                | Inr n \<Rightarrow>
                    Inr (Some (n, case map_of o' ''property'' of
                                    None \<Rightarrow> Map.empty | Some p \<Rightarrow> getValueMap p)))
           | Some _ \<Rightarrow> Inr None)
      | _ \<Rightarrow> Inr None)"

text \<open>\<open>std::set<QposNode>::insert\<close> keeps the element already there.\<close>

fun insert_nodes :: "js list \<Rightarrow> (node_id \<rightharpoonup> properties) \<Rightarrow> json_error + (node_id \<rightharpoonup> properties)" where
  "insert_nodes [] m = Inr m"
| "insert_nodes (v # vs) m =
     ebind (node_of_js v) (\<lambda>r. insert_nodes vs
       (case r of None \<Rightarrow> m | Some (n, p) \<Rightarrow> (if m n = None then m(n \<mapsto> p) else m)))"

definition strToQpos :: "(string \<Rightarrow> js option) \<Rightarrow> string \<Rightarrow> json_error + (node_id \<rightharpoonup> properties)" where
  "strToQpos parse str =
     (case parse str of
        None \<Rightarrow> Inl NotJson
      | Some (JArr vs) \<Rightarrow> insert_nodes vs Map.empty
      | Some _ \<Rightarrow> Inl NotArray)"

definition strToNode :: "(string \<Rightarrow> js option) \<Rightarrow> string \<Rightarrow> json_error + node_id set" where
  "strToNode parse str = ebind (strToQpos parse str) (\<lambda>m. Inr (dom m))"

text \<open>The part of the engine's state behind \<open>x_nodes\<close>.\<close>

record node_cache =
  m_nodes :: "node_id \<rightharpoonup> properties"
  m_nodes_str :: string
  m_nodes_changed :: bool

definition node_cache0 :: node_cache where
  "node_cache0 = \<lparr>m_nodes = Map.empty, m_nodes_str = [], m_nodes_changed = True\<rparr>"

text \<open>
  \<open>getMinerList ()\<close> on the text \<open>out\<close> the contract returned. The string and the flag are written
  before \<open>strToQpos\<close> can throw, so they are updated either way.
\<close>

definition getMinerList :: "(string \<Rightarrow> js option) \<Rightarrow> string \<Rightarrow> node_cache \<Rightarrow> node_cache \<times> (json_error + bool)" where
  "getMinerList parse out c =
     (if m_nodes_str c = out then (c, Inr False)
      else
        let c1 = c\<lparr>m_nodes_str := out, m_nodes_changed := True\<rparr> in
        case strToQpos parse out of
          Inl e \<Rightarrow> (c1, Inl e)
        | Inr m \<Rightarrow> (c1\<lparr>m_nodes := m\<rparr>, Inr True))"

text \<open>\<open>getNodes (_miner_list)\<close>: the new list once after each change.\<close>

definition getNodes :: "node_cache \<Rightarrow> node_cache \<times> (node_id \<rightharpoonup> properties) option" where
  "getNodes c =
     (if \<not> m_nodes_changed c then (c, None)
      else (c\<lparr>m_nodes_changed := False\<rparr>, Some (m_nodes c)))"

definition addPeers :: "node_id \<Rightarrow> (node_id \<rightharpoonup> properties) \<Rightarrow> qpos_out list" where
  "addPeers self nodes =
     concat (map (\<lambda>i.
       if i = self then []
       else case nodes i of
         None \<Rightarrow> []
       | Some prop \<Rightarrow>
         (case (prop ''ip'', prop ''port'') of
            (Some ip, Some port) \<Rightarrow>
              if length ip > 0 \<and> length port > 0
              then [AddPeer (''enode://'' @ toHex i '''' @ ''@'' @ ip @ '':'' @ port)]
              else []
          | _ \<Rightarrow> []))
       (sorted_list_of_set (dom nodes)))"

text \<open>The seal engine's header template: the parent's gas limit, difficulty one.\<close>

definition qpos_populateFromParent :: "block_header \<Rightarrow> block_header \<Rightarrow> block_header" where
  "qpos_populateFromParent bi parent =
     setDifficulty 1 (setGasLimit (m_gasLimit parent) (populateFromParent bi parent))"

subsection \<open>Facts\<close>

lemma qpos_packet_enc:
  assumes "length msg < 2 ^ 60"
  shows "qpos_packet msg = Inr (enc_list (enc_list msg))"
proof -
  have br: "bytesRequired (length msg) \<le> 8" using assms by (intro bytesRequired_le8) simp
  then have "length (enc_list msg) \<le> length msg + 9" by (auto simp: enc_list_def enc_hdr_def)
  with assms have "length (enc_list msg) < 2 ^ 64" "length msg < 2 ^ 64" by simp_all
  then show ?thesis
    using note_loop_close [of "enc_list msg" "[]" "[]"]
    by (simp add: qpos_packet_def appendList_def RLPStream_def appendList_bytes_enc appendRaw_note stream_out_def)
qed

lemma insert_nodes_finite: "insert_nodes vs m = Inr m' \<Longrightarrow> finite (dom m) \<Longrightarrow> finite (dom m')"
proof (induction vs arbitrary: m)
  case (Cons v vs)
  then obtain r where "insert_nodes vs (case r of None \<Rightarrow> m
      | Some (n, p) \<Rightarrow> if m n = None then m(n \<mapsto> p) else m) = Inr m'"
    by (auto simp: ebind_Inr_iff)
  moreover have "finite (dom (case r of None \<Rightarrow> m
      | Some (n, p) \<Rightarrow> if m n = None then m(n \<mapsto> p) else m))"
    using Cons.prems(2) by (simp split: option.split prod.split)
  ultimately show ?case by (rule Cons.IH)
qed simp

lemma strToQpos_finite: "strToQpos parse str = Inr m \<Longrightarrow> finite (dom m)"
  by (auto simp: strToQpos_def split: option.splits js.splits dest: insert_nodes_finite)

end
