(* ===== verification/Qpos.thy ===== *)
theory Qpos
  imports Qpos_Engine
begin

section \<open>The QPOS consensus (\<open>libqpos/Qpos\<close>)\<close>

text \<open>
  A node's consensus state and every handler of \<open>class Qpos\<close>: leader election by views (heartbeat,
  vote request, vote answer) and the vote on a block a leader proposes. A handler maps the state to
  the new state and the list of its outward effects in order. \<open>utcTime ()\<close> is a clock argument: \<open>t k\<close>
  is the \<open>k\<close>-th reading a handler takes. Handlers run on one thread (the host's \<open>io_service\<close>), so a
  step is a whole handler.
\<close>

datatype qposState = qposInitial | qposWaitingVote | qposFinished

definition TIME_PER_SECOND :: int where "TIME_PER_SECOND = 1000000"
definition QPOS_VOTE_TIMEOUT :: int where "QPOS_VOTE_TIMEOUT = 10 * TIME_PER_SECOND"
definition QPOS_HEART_TIMEOUT :: int where "QPOS_HEART_TIMEOUT = 2 * TIME_PER_SECOND"

text \<open>\<open>enum QposPacketType\<close>.\<close>

definition qposBlockVote :: int where "qposBlockVote = 1"
definition qposBlockVoteAck :: int where "qposBlockVoteAck = 2"
definition qposVote :: int where "qposVote = 3"
definition qposVoteAck :: int where "qposVoteAck = 4"
definition qposHeart :: int where "qposHeart = 5"
definition qposBroadBlock :: int where "qposBroadBlock = 6"

lemmas qpos_packet_types [simp] =
  qposBlockVote_def qposBlockVoteAck_def qposVote_def qposVoteAck_def qposHeart_def qposBroadBlock_def

record qpos =
  q_id :: node_id \<comment> \<open>\<open>id ()\<close>, the public key of \<open>m_pair\<close>\<close>
  q_nodes :: node_cache
  m_consensusTimeInterval :: int
  m_blockReport :: int
  m_blockNumber :: int
  m_blockNumberRecv :: int
  m_miners :: "node_id set"
  m_blockBytes :: bytes
  m_currentView :: int
  m_consensusTimeOut :: int
  m_idUnVoted :: "node_id set"
  m_idVoted :: "node_id \<rightharpoonup> sig"
  m_consensusState :: qposState
  m_last_consensus_time :: int
  m_blocks :: "bytes list"
  m_voteTimeOut :: int
  m_voted :: "node_id set"
  m_isLeader :: bool
  m_importAnyNode :: bool

definition qpos_init :: "node_id \<Rightarrow> bool \<Rightarrow> qpos" where
  "qpos_init i anyNode =
     \<lparr>q_id = i, q_nodes = node_cache0, m_consensusTimeInterval = 20 * TIME_PER_SECOND,
      m_blockReport = 0, m_blockNumber = 0, m_blockNumberRecv = 0, m_miners = {}, m_blockBytes = [],
      m_currentView = 0, m_consensusTimeOut = -1, m_idUnVoted = {}, m_idVoted = Map.empty,
      m_consensusState = qposFinished, m_last_consensus_time = 0, m_blocks = [], m_voteTimeOut = 0,
      m_voted = {}, m_isLeader = False, m_importAnyNode = anyNode\<rparr>"

type_synonym clock = "nat \<Rightarrow> int"
type_synonym qpos_step = "qpos \<times> qpos_out list"

definition nodeCount :: "qpos \<Rightarrow> int" where
  "nodeCount s = int (card (m_miners s))"

definition resetConfig :: "clock \<Rightarrow> qpos \<Rightarrow> qpos" where
  "resetConfig t s =
     s\<lparr>m_blockBytes := [], m_consensusTimeOut := 0, m_idVoted := Map.empty, m_idUnVoted := {},
       m_last_consensus_time := t 0, m_consensusState := qposInitial\<rparr>"

subsection \<open>Building and reading messages\<close>

fun build :: "(rlp_stream \<Rightarrow> rlp_stream rlp_result) list \<Rightarrow> rlp_stream \<Rightarrow> rlp_stream rlp_result" where
  "build [] s = Inr s"
| "build (f # fs) s = ebind (f s) (build fs)"

definition message :: "(rlp_stream \<Rightarrow> rlp_stream rlp_result) list \<Rightarrow> bytes rlp_result" where
  "message fs = ebind (build fs RLPStream) stream_out"

definition with_message :: "bytes rlp_result \<Rightarrow> (bytes \<Rightarrow> qpos_out list) \<Rightarrow> qpos_out list" where
  "with_message m k = (case m of Inl e \<Rightarrow> [Thrown (Rlp e)] | Inr b \<Rightarrow> k b)"

text \<open>\<open>_r[0][i]\<close>, then a conversion.\<close>

definition msg_field :: "bytes \<Rightarrow> nat \<Rightarrow> (bytes \<Rightarrow> 'a rlp_result) \<Rightarrow> 'a block_result" where
  "msg_field r i conv =
     (case ebind (rlp_at r 0) (\<lambda>m. ebind (rlp_at m i) conv) of Inl e \<Rightarrow> Inl (Rlp e) | Inr x \<Rightarrow> Inr x)"

abbreviation msg_int :: "bytes \<Rightarrow> nat \<Rightarrow> int block_result" where
  "msg_int r i \<equiv> ebind (msg_field r i (toInt 4 Strict)) (\<lambda>n. Inr (int n))"

abbreviation msg_bytes :: "bytes \<Rightarrow> nat \<Rightarrow> bytes block_result" where
  "msg_bytes r i \<equiv> msg_field r i (toBytes LaissezFaire)"

text \<open>\<open>BlockHeader header (_msg)\<close> and \<open>header.hash (WithoutSeal)\<close>.\<close>

definition parse_header :: "crypto \<Rightarrow> bytes \<Rightarrow> (block_header \<times> bytes) block_result" where
  "parse_header c b =
     ebind (BlockHeader (e_sha3 c) b BlockData zero_hash) (\<lambda>h.
       case header_hash (e_sha3 c) WithoutSeal h of
         Inl e \<Rightarrow> Inl (Rlp e) | Inr (_, v) \<Rightarrow> Inr (h, v))"

definition msgVerify :: "crypto \<Rightarrow> node_id \<Rightarrow> bytes \<Rightarrow> sig \<Rightarrow> bool block_result" where
  "msgVerify c nodeID msg msgSign =
     ebind (parse_header c msg) (\<lambda>(h, hash). Inr (verify c nodeID msgSign hash))"

subsection \<open>Finishing a vote\<close>

text \<open>The entries of \<open>m_idVoted\<close> in the order of the map's keys.\<close>

definition voted_list :: "qpos \<Rightarrow> (node_id \<times> sig) list" where
  "voted_list s = map (\<lambda>i. (i, the (m_idVoted s i))) (sorted_list_of_set (dom (m_idVoted s)))"

definition append_pair :: "node_id \<times> sig \<Rightarrow> rlp_stream \<Rightarrow> rlp_stream rlp_result" where
  "append_pair p = build [appendList 2, append_bytes False (fst p), append_bytes False (snd p)]"

definition authBytes :: "qpos \<Rightarrow> bytes rlp_result" where
  "authBytes s =
     message (appendList (card (dom (m_idVoted s)) * 2)
       # concat (map (\<lambda>(i, v). [append_bytes False i, append_bytes False v]) (voted_list s)))"

definition sign_info :: "qpos \<Rightarrow> bytes rlp_result" where
  "sign_info s =
     message ([appendList 2, append_bytes False (q_id s), appendList (length (voted_list s))]
       @ map append_pair (voted_list s))"

text \<open>The block that is broadcast: header, transactions and uncles of the proposal, then the votes.\<close>

definition sealed_block :: "crypto \<Rightarrow> qpos \<Rightarrow> bytes block_result" where
  "sealed_block c s =
     ebind (case sign_info s of Inl e \<Rightarrow> Inl (Rlp e) | Inr i \<Rightarrow> Inr i) (\<lambda>info.
     ebind (BlockHeader (e_sha3 c) (m_blockBytes s) BlockData zero_hash) (\<lambda>_.
     case ebind (RLP (m_blockBytes s) VeryStrict) (\<lambda>r.
          ebind (rlp_at r 0) (\<lambda>r0. ebind (rlp_at r 1) (\<lambda>r1. ebind (rlp_at r 2) (\<lambda>r2.
            message [appendList 4, appendRaw r0 1, appendRaw r1 1, appendRaw r2 1, appendRaw info 1])))) of
       Inl e \<Rightarrow> Inl (Rlp e) | Inr b \<Rightarrow> Inr b))"

text \<open>
  \<open>broadBlock\<close>. A failing \<open>assert (m_isLeader)\<close> aborts a debug build and is skipped in a release
  build: the model records it as an effect and goes on.
\<close>

definition broadBlock :: "node_id list \<Rightarrow> bytes \<Rightarrow> qpos \<Rightarrow> qpos_step" where
  "broadBlock peers block s =
     (s\<lparr>m_consensusState := qposFinished\<rparr>,
      (if m_isLeader s then [] else [AssertFailed])
      @ (if length block \<noteq> 0
       then with_message (message [append_unsigned qposBroadBlock, append_bytes False block]) (broadcast peers)
       else [])
      @ [SealGenerated block True])"

text \<open>The callback \<open>m_onSealGenerated\<close>, which the client installs when it starts the engine, is taken to be set.\<close>

definition voteBlockEnd :: "crypto \<Rightarrow> node_id list \<Rightarrow> clock \<Rightarrow> qpos \<Rightarrow> qpos_step" where
  "voteBlockEnd c peers t s =
     (if nodeCount s \<noteq> 0 \<and> int (card (m_idUnVoted s)) \<ge> (nodeCount s + 1) div 2
      then (resetConfig t s, [])
      else if nodeCount s = 0 \<or> int (card (dom (m_idVoted s))) > nodeCount s div 2
      then (case sealed_block c s of
              Inl _ \<Rightarrow> (s, [])
            | Inr blockBytes \<Rightarrow> broadBlock peers blockBytes s)
      else (s, []))"

subsection \<open>Handlers of the block vote\<close>

definition onBlockVoteAck :: "crypto \<Rightarrow> node_id list \<Rightarrow> clock \<Rightarrow> node_id \<Rightarrow> bytes \<Rightarrow> qpos \<Rightarrow> qpos_step block_result" where
  "onBlockVoteAck c peers t p r s =
     (if m_consensusState s \<noteq> qposWaitingVote then Inr (s, [])
      else
        ebind (msg_int r 1) (\<lambda>vote.
        ebind (msg_int r 2) (\<lambda>currentView.
        ebind (msg_bytes r 3) (\<lambda>sgn.
        ebind (msg_bytes r 4) (\<lambda>idrecv.
        let mySign = FixedHash 65 sgn in
        ebind (msgVerify c p (m_blockBytes s) mySign) (\<lambda>v.
          if \<not> v \<or> currentView \<noteq> m_currentView s \<or> m_consensusState s = qposFinished
          then Inr (s, [])
          else Inr (voteBlockEnd c peers t
            (if vote \<noteq> 0 then s\<lparr>m_idVoted := (m_idVoted s)(p \<mapsto> mySign)\<rparr>
             else s\<lparr>m_idUnVoted := insert p (m_idUnVoted s)\<rparr>))))))))"

definition onBlockVote :: "crypto \<Rightarrow> node_id list \<Rightarrow> clock \<Rightarrow> node_id \<Rightarrow> bytes \<Rightarrow> qpos \<Rightarrow> qpos_step block_result" where
  "onBlockVote c peers t p r s =
     ebind (msg_int r 1) (\<lambda>currentView.
     ebind (msg_bytes r 2) (\<lambda>sgn.
     ebind (msg_bytes r 3) (\<lambda>blockBytes.
     ebind (parse_header c blockBytes) (\<lambda>(header, hash).
     let recvSign = FixedHash 65 sgn; blockNumber = m_number header; now = t 0 in
     ebind (msgVerify c p blockBytes recvSign) (\<lambda>ver.
     let vote = (ver \<and> m_blockNumber s + 1 = blockNumber \<and> currentView = m_currentView s);
         s1 = (if vote
               then s\<lparr>m_idUnVoted := {}, m_consensusTimeOut := t 1 + m_consensusTimeInterval s,
                      m_blockBytes := blockBytes, m_idVoted := [p \<mapsto> recvSign]\<rparr>
               else s);
         mySign = e_sign c (q_id s) hash;
         s2 = (if vote then s1\<lparr>m_idVoted := (m_idVoted s1)(q_id s \<mapsto> mySign)\<rparr> else s1)
     in Inr (s2\<lparr>m_voteTimeOut := now + QPOS_VOTE_TIMEOUT\<rparr>,
        with_message (message [append_unsigned qposBlockVoteAck, append_unsigned (if vote then 1 else 0),
                               append_unsigned (m_currentView s), append_bytes False mySign,
                               append_bytes False p])
          (send peers (q_id s) p)))))))"

definition onBroadBlock :: "crypto \<Rightarrow> bytes \<Rightarrow> qpos \<Rightarrow> qpos_step block_result" where
  "onBroadBlock c r s =
     ebind (msg_bytes r 1) (\<lambda>blockBytes.
     ebind (BlockHeader (e_sha3 c) blockBytes BlockData zero_hash) (\<lambda>header.
       Inr (if m_number header > m_blockNumber s then s\<lparr>m_blockNumber := m_number header\<rparr> else s,
            [SealGenerated blockBytes False])))"

subsection \<open>Handlers of the leader election\<close>

definition voteTick :: "node_id list \<Rightarrow> clock \<Rightarrow> qpos \<Rightarrow> qpos_step" where
  "voteTick peers t s =
     (let now = t 0 in
      if m_voteTimeOut s > now then (s, [])
      else if m_isLeader s then
        (s\<lparr>m_voteTimeOut := now + QPOS_HEART_TIMEOUT\<rparr>,
         with_message (message [append_unsigned qposHeart, append_unsigned (m_currentView s)])
           (multicast peers (q_id s) (m_miners s)))
      else
        (s\<lparr>m_voteTimeOut := now + QPOS_VOTE_TIMEOUT, m_currentView := m_currentView s + 1, m_voted := {}\<rparr>,
         with_message (message [append_unsigned qposVote, append_unsigned (m_currentView s + 1),
                                append_unsigned (m_blockNumber s)])
           (multicast peers (q_id s) (m_miners s))))"

definition onHeart :: "clock \<Rightarrow> node_id \<Rightarrow> bytes \<Rightarrow> qpos \<Rightarrow> qpos_step block_result" where
  "onHeart t p r s =
     ebind (msg_int r 1) (\<lambda>currentView.
       Inr (s\<lparr>m_isLeader := (if m_isLeader s \<and> (currentView > m_currentView s
                                \<or> (currentView = m_currentView s \<and> p > q_id s))
                              then False else m_isLeader s),
              m_currentView := currentView,
              m_voteTimeOut := t 0 + QPOS_VOTE_TIMEOUT\<rparr>, []))"

text \<open>\<open>rnd\<close> is what \<open>rand ()\<close> returned.\<close>

definition onVote :: "node_id list \<Rightarrow> clock \<Rightarrow> int \<Rightarrow> node_id \<Rightarrow> bytes \<Rightarrow> qpos \<Rightarrow> qpos_step block_result" where
  "onVote peers t rnd p r s =
     ebind (msg_int r 1) (\<lambda>currentView.
     ebind (msg_int r 2) (\<lambda>blockNumberRecv.
     let vote = currentView > m_currentView s;
         s1 = (if blockNumberRecv > m_blockNumberRecv s
               then s\<lparr>m_blockNumberRecv := blockNumberRecv\<rparr> else s);
         s2 = (if currentView > m_currentView s1 \<and> m_blockNumberRecv s1 \<ge> m_blockNumber s1
               then s1\<lparr>m_currentView := currentView,
                       m_voteTimeOut := t 0 + QPOS_VOTE_TIMEOUT + rnd mod QPOS_HEART_TIMEOUT\<rparr>
               else s1)
     in Inr (s2, with_message (message [append_unsigned qposVoteAck, append_unsigned (if vote then 1 else 0)])
                   (send peers (q_id s) p))))"

definition onVoteAck :: "node_id \<Rightarrow> bytes \<Rightarrow> qpos \<Rightarrow> qpos_step block_result" where
  "onVoteAck p r s =
     ebind (msg_int r 1) (\<lambda>vote.
       if vote = 0 then Inr (s, [])
       else
         let s1 = s\<lparr>m_voted := insert p (m_voted s)\<rparr> in
         Inr (if 1 + int (card (m_voted s1)) > nodeCount s1 div 2 then s1\<lparr>m_isLeader := True\<rparr> else s1, []))"

subsection \<open>Proposing a block\<close>

definition voteBlockBegin :: "crypto \<Rightarrow> node_id list \<Rightarrow> clock \<Rightarrow> qpos \<Rightarrow> qpos_step block_result" where
  "voteBlockBegin c peers t s =
     ebind (parse_header c (m_blockBytes s)) (\<lambda>(header, hash).
       let mySign = e_sign c (q_id s) hash;
           s1 = s\<lparr>m_idVoted := (m_idVoted s)(q_id s \<mapsto> mySign),
                  m_consensusTimeOut := t 0 + m_consensusTimeInterval s,
                  m_consensusState := qposWaitingVote\<rparr>
       in
       if 1 \<ge> card (m_miners s1) then Inr (voteBlockEnd c peers (\<lambda>k. t (k + 1)) s1)
       else Inr (s1\<lparr>m_voteTimeOut := t 1 + QPOS_HEART_TIMEOUT\<rparr>,
         with_message (message [append_unsigned qposBlockVote, append_unsigned (m_currentView s1),
                                append_bytes False mySign, append_bytes False (m_blockBytes s1)])
           (multicast peers (q_id s) (m_miners s1))))"

definition generateSealBegin :: "crypto \<Rightarrow> node_id list \<Rightarrow> clock \<Rightarrow> bytes \<Rightarrow> qpos \<Rightarrow> qpos_step block_result" where
  "generateSealBegin c peers t block s =
     ebind (BlockHeader (e_sha3 c) block BlockData zero_hash) (\<lambda>header.
       if m_blockNumber s + 1 \<noteq> m_number header then Inr (s, [])
       else voteBlockBegin c peers t (s\<lparr>m_blockBytes := block\<rparr>))"

definition generateSeal :: "bytes \<Rightarrow> qpos \<Rightarrow> qpos_step" where
  "generateSeal block s = (s\<lparr>m_blocks := m_blocks s @ [block]\<rparr>, [Signal ''QPOS_SIGNAL''])"

text \<open>\<open>concurrent_queue::tryPop (0)\<close>.\<close>

definition tryPop :: "'a list \<Rightarrow> 'a option \<times> 'a list" where
  "tryPop q = (case q of [] \<Rightarrow> (None, []) | x # xs \<Rightarrow> (Some x, xs))"

text \<open>
  \<open>tick\<close>. An exception of \<open>generateSealBegin\<close> leaves \<open>tick\<close>; the block is already popped then.
\<close>

definition tick :: "crypto \<Rightarrow> node_id list \<Rightarrow> clock \<Rightarrow> qpos \<Rightarrow> qpos_step" where
  "tick c peers t s =
     (let (s1, out1) = voteTick peers t s in
      if \<not> m_isLeader s1 then (s1, out1)
      else
        let now = t 1 in
        if m_consensusState s1 = qposInitial then
          (let (b, q) = tryPop (m_blocks s1); s2 = s1\<lparr>m_blocks := q\<rparr> in
           case b of
             None \<Rightarrow> (s2, out1)
           | Some blockBytes \<Rightarrow>
             if blockBytes = [] then (s2, out1)
             else (case generateSealBegin c peers (\<lambda>k. t (k + 2)) blockBytes s2 of
                     Inl e \<Rightarrow> (s2, out1 @ [Thrown e])
                   | Inr (s3, out2) \<Rightarrow> (s3, out1 @ out2)))
        else if now > m_consensusTimeOut s1 then (resetConfig (\<lambda>k. t (k + 2)) s1, out1)
        else (s1, out1))"

definition shouldSeal :: "qpos \<Rightarrow> bool" where
  "shouldSeal s \<longleftrightarrow> m_consensusState s = qposInitial \<and> m_isLeader s"

definition getMinerNodeList :: "qpos \<Rightarrow> node_id list" where
  "getMinerNodeList s = sorted_list_of_set (m_miners s)"

subsection \<open>Reports from the chain\<close>

definition reportBlock :: "nat \<Rightarrow> bool \<Rightarrow> qpos \<Rightarrow> qpos_step" where
  "reportBlock n force s =
     (if int n > m_blockReport s \<or> force
      then (s\<lparr>m_blockReport := int n\<rparr>, [Signal ''QPOS_SIGNAL_REPORT'']) else (s, []))"

definition reportBlockSelf :: "clock \<Rightarrow> qpos \<Rightarrow> qpos_step" where
  "reportBlockSelf t s =
     (let blockNumber = m_blockReport s;
          s1 = s\<lparr>m_blockNumber := blockNumber, m_blockNumberRecv := blockNumber\<rparr>;
          (cache, got) = getNodes (q_nodes s1);
          s2 = s1\<lparr>q_nodes := cache\<rparr>;
          (s3, out) =
            (case got of
               None \<Rightarrow> (s2, [])
             | Some miners \<Rightarrow>
                 (s2\<lparr>m_miners := dom miners\<rparr>,
                  if \<not> m_importAnyNode s2 then addPeers (q_id s2) miners else []));
          s4 = (if m_miners s3 = {} \<or> (card (m_miners s3) = 1 \<and> q_id s3 \<in> m_miners s3)
                then s3\<lparr>m_isLeader := True\<rparr>
                else if q_id s3 \<notin> m_miners s3 \<and> m_isLeader s3 then s3\<lparr>m_isLeader := False\<rparr>
                else s3)
      in (resetConfig t s4, out))"

text \<open>\<open>signalHandler\<close>: \<open>SIGUSR1\<close> ticks, \<open>SIGUSR2\<close> takes over the reported block.\<close>

datatype qpos_signal = QPOS_SIGNAL | QPOS_SIGNAL_REPORT | OtherSignal

definition signalHandler :: "crypto \<Rightarrow> node_id list \<Rightarrow> clock \<Rightarrow> qpos_signal \<Rightarrow> qpos \<Rightarrow> qpos_step" where
  "signalHandler c peers t sg s =
     (case sg of QPOS_SIGNAL \<Rightarrow> tick c peers t s | QPOS_SIGNAL_REPORT \<Rightarrow> reportBlockSelf t s
      | OtherSignal \<Rightarrow> (s, []))"

subsection \<open>Dispatch\<close>

text \<open>
  \<open>interpret\<close>: a message that does not decode, a peer that is no miner and an unknown type are
  dropped; an exception inside a handler is caught, and every handler throws before it writes.
\<close>

definition qpos_interpret :: "crypto \<Rightarrow> node_id list \<Rightarrow> clock \<Rightarrow> int \<Rightarrow> node_id \<Rightarrow> bytes \<Rightarrow> qpos \<Rightarrow> qpos_step" where
  "qpos_interpret c peers t rnd p r s =
     (case msg_int r 0 of
        Inl _ \<Rightarrow> (s, [])
      | Inr msgType \<Rightarrow>
        if p \<notin> m_miners s then (s, [])
        else
          let res =
            (if msgType = qposBlockVote then onBlockVote c peers t p r s
             else if msgType = qposBlockVoteAck then onBlockVoteAck c peers t p r s
             else if msgType = qposHeart then onHeart t p r s
             else if msgType = qposVote then onVote peers t rnd p r s
             else if msgType = qposVoteAck then onVoteAck p r s
             else if msgType = qposBroadBlock then onBroadBlock c r s
             else Inr (s, []))
          in case res of Inl _ \<Rightarrow> (s, []) | Inr step \<Rightarrow> step)"

text \<open>The packet filter \<open>initEnv\<close> installs on the Ethereum protocol.\<close>

datatype EthPacket = NewBlockHashesPacket | BlockHeadersPacket | BlockBodiesPacket | NewBlockPacket | OtherPacket

definition packet_filter :: "qpos \<Rightarrow> node_id \<Rightarrow> EthPacket \<Rightarrow> bool" where
  "packet_filter s n pk =
     (if m_importAnyNode s \<or> m_miners s = {} then True
      else if n \<in> m_miners s then True
      else case pk of
          BlockHeadersPacket \<Rightarrow> False | BlockBodiesPacket \<Rightarrow> False
        | NewBlockPacket \<Rightarrow> False | NewBlockHashesPacket \<Rightarrow> False | OtherPacket \<Rightarrow> True)"

subsection \<open>Checking the votes of an imported block\<close>

text \<open>The loop of \<open>checkBlockSign\<close> over the signature list, \<open>signs\<close> being the distinct valid signers so far.\<close>

fun check_signs :: "crypto \<Rightarrow> bytes \<Rightarrow> node_id set \<Rightarrow> node_id set \<Rightarrow> (node_id \<times> sig) list \<Rightarrow> bool" where
  "check_signs c hash miners signs [] = False"
| "check_signs c hash miners signs ((i, sg) # rest) =
     (if i \<notin> miners \<or> \<not> verify c i sg hash then check_signs c hash miners signs rest
      else
        let signs' = insert i signs in
        if card signs' \<ge> (card miners + 1) div 2 then True
        else check_signs c hash miners signs' rest)"

abbreviation read_sign :: "bytes \<Rightarrow> (node_id \<times> sig) rlp_result" where
  "read_sign \<equiv> toPair (toHash 64 LaissezFaire) (toHash 65 LaissezFaire) (replicate 64 0) (replicate 65 0) LaissezFaire"

text \<open>
  \<open>checkBlockSign (_header, _block)\<close> once the miner list of the parent block is there. \<open>None\<close>: the
  iteration over the signature list does not end.
\<close>

definition check_certificate :: "crypto \<Rightarrow> node_id set \<Rightarrow> block_header \<Rightarrow> bytes \<Rightarrow> bool block_result option" where
  "check_certificate c miners header block =
     (if card miners = 0 then Some (Inr True)
      else case RLP block VeryStrict of
        Inl e \<Rightarrow> Some (Inl (Rlp e))
      | Inr b \<Rightarrow>
        if \<not> isList b then Some (Inr False)
        else (case itemCount b of
            Inl e \<Rightarrow> Some (Inl (Rlp e))
          | Inr n \<Rightarrow>
            if n < 4 then Some (Inr False)
            else (case ebind (rlp_at b 3) (\<lambda>x. rlp_at x 1) of
                Inl e \<Rightarrow> Some (Inl (Rlp e))
              | Inr l \<Rightarrow>
                (case toVector read_sign LaissezFaire l of
                   None \<Rightarrow> None
                 | Some (Inl e) \<Rightarrow> Some (Inl (Rlp e))
                 | Some (Inr sign_list) \<Rightarrow>
                   (case header_hash (e_sha3 c) WithoutSeal header of
                      Inl e \<Rightarrow> Some (Inl (Rlp e))
                    | Inr (_, hash) \<Rightarrow> Some (Inr (check_signs c hash miners {} sign_list)))))))"

text \<open>
  The whole of \<open>checkBlockSign\<close>: \<open>nodesAt n\<close> is what the node contract answers at block \<open>n\<close>, and
  \<open>getMinerList (_miner_list, _blk_no)\<close> either throws or answers true.
\<close>

definition checkBlockSign ::
    "crypto \<Rightarrow> (string \<Rightarrow> js option) \<Rightarrow> (int \<Rightarrow> string) \<Rightarrow> block_header \<Rightarrow> bytes
       \<Rightarrow> ((json_error + block_error) + bool) option" where
  "checkBlockSign c parse nodesAt header block =
     (case strToNode parse (nodesAt (m_number header - 1)) of
        Inl e \<Rightarrow> Some (Inl (Inl e))
      | Inr miners \<Rightarrow> map_option (map_sum Inr id) (check_certificate c miners header block))"

end
