(* ===== verification/Qpos_Messages.thy ===== *)
theory Qpos_Messages
  imports Qpos
begin

section \<open>QPOS messages and certificates on the wire\<close>

text \<open>
  What the consensus writes with \<open>RLPStream\<close> is read back unchanged by the receiving handler, and the
  block a leader assembles in \<open>voteBlockEnd\<close> is read back by \<open>checkBlockSign\<close> with the same votes. Also:
  the iteration over a signature list always ends.
\<close>

subsection \<open>Messages\<close>

definition uint_item :: "int \<Rightarrow> rlp_item" where
  "uint_item i = int_item (nat (i mod 2 ^ 32))"

lemma nat_mod_2_32: "nat (i mod 2 ^ 32) < 256 ^ 4"
proof -
  have "i mod 2 ^ 32 < 2 ^ 32" by simp
  then show ?thesis by (simp add: nat_less_iff)
qed

lemma append_unsigned_emit: "append_unsigned i = emit (uint_item i)"
proof
  fix s
  have "nat (i mod 2 ^ 32) < 256 ^ 32" using nat_mod_2_32 [of i] by simp
  then show "append_unsigned i s = emit (uint_item i) s"
    unfolding append_unsigned_def uint_item_def by (rule append_bigint_emit)
qed

lemma append_bytes_emit: "append_bytes False b = emit (RStr b)"
  by (rule ext) simp

lemma build_emits: "build (map emit xs) = emits xs"
proof
  show "build (map emit xs) s = emits xs s" for s
    by (induction xs arbitrary: s) (simp_all add: emits_Cons_fun ebind_def split: sum.split)
qed

lemma build_fun: "build [] = Inr" "build (f # fs) = (\<lambda>s. ebind (f s) (build fs))"
  by (rule ext, simp)+

lemma build_list: "fs = map emit xs \<Longrightarrow> n = length xs \<Longrightarrow> build (appendList n # fs) s = emit (RList xs) s"
  by (simp add: build_emits)

lemma build_append: "build (fs @ gs) = (\<lambda>s. ebind (build fs s) (build gs))"
proof
  show "build (fs @ gs) s = ebind (build fs s) (build gs)" for s
    by (induction fs arbitrary: s) (simp_all add: ebind_assoc ebind_def split: sum.split)
qed

lemma emits_flat:
  assumes "\<forall>x \<in> set xs. length (rlp_enc x) < 2 ^ 64"
  shows "emits xs \<lparr>m_out = out, m_listStack = []\<rparr> = Inr \<lparr>m_out = out @ concat (map rlp_enc xs), m_listStack = []\<rparr>"
  using assms
proof (induction xs arbitrary: out)
  case (Cons x xs)
  then show ?case by (simp add: emit_enc appendRaw_note)
qed simp

lemma message_items:
  assumes "fs = map emit xs" and "rlp_fits (RList xs)"
  shows "message fs = Inr (concat (map rlp_enc xs))"
proof -
  have "\<forall>x \<in> set xs. length (rlp_enc x) < 2 ^ 64"
    using rlp_fits_item [OF assms(2)] by (fastforce simp: rlp_fits_def rlp_max_def)
  then show ?thesis
    using emits_flat [of xs "[]"] by (simp add: message_def assms(1) build_emits RLPStream_def stream_out_def)
qed

text \<open>A packet carrying the items \<open>xs\<close>, and its fields on the receiving side.\<close>

lemma qpos_packet_items:
  assumes "rlp_fits (RList xs)" and "length (concat (map rlp_enc xs)) < 2 ^ 60"
  shows "qpos_packet (concat (map rlp_enc xs)) = Inr (rlp_enc (RList [RList xs]))"
  using qpos_packet_enc [OF assms(2)]
  by (simp add: rlp_enc_RList)

lemma msg_field_items:
  assumes "rlp_fits (RList [RList xs])" and "i < length xs"
  shows "msg_field (rlp_enc (RList [RList xs])) i conv
     = (case conv (rlp_enc (xs ! i)) of Inl e \<Rightarrow> Inl (Rlp e) | Inr x \<Rightarrow> Inr x)"
proof -
  have "rlp_fits (RList xs)" using rlp_fits_item [OF assms(1)] by simp
  then show ?thesis
    using rlp_at_nth [OF assms(1), of 0] rlp_at_nth [of xs i] assms(2)
    by (simp add: msg_field_def)
qed

lemma msg_int_items:
  assumes "rlp_fits (RList [RList xs])" and "i < length xs" and "xs ! i = uint_item v"
  shows "msg_int (rlp_enc (RList [RList xs])) i = Inr (v mod 2 ^ 32)"
proof -
  have "rlp_fits (RList xs)" using rlp_fits_item [OF assms(1)] by simp
  then have "rlp_fits (uint_item v)" using rlp_fits_item nth_mem assms(2,3) by metis
  then have "toInt 4 Strict (rlp_enc (uint_item v)) = Inr (nat (v mod 2 ^ 32))"
    unfolding uint_item_def by (rule toInt_int_item) (rule nat_mod_2_32)
  then show ?thesis by (simp add: msg_field_items [OF assms(1,2)] assms(3))
qed

lemma msg_bytes_items:
  assumes "rlp_fits (RList [RList xs])" and "i < length xs" and "xs ! i = RStr b"
  shows "msg_bytes (rlp_enc (RList [RList xs])) i = Inr b"
proof -
  have "rlp_fits (RList xs)" using rlp_fits_item [OF assms(1)] by simp
  then have "rlp_fits (RStr b)" using rlp_fits_item nth_mem assms(2,3) by metis
  then have "toBytes LaissezFaire (rlp_enc (RStr b)) = Inr b" by (rule bytes_field.read_item [OF TrueI])
  then show ?thesis by (simp add: msg_field_items [OF assms(1,2)] assms(3))
qed

subsection \<open>Blocks\<close>

definition block_items :: "block_header \<Rightarrow> rlp_item list \<Rightarrow> rlp_item list \<Rightarrow> rlp_item list \<Rightarrow> rlp_item list" where
  "block_items h seals txs uncles = [RList (header_items h @ seals), RList txs, RList uncles]"

lemma extractHeader_enc:
  assumes "rlp_fits (RList (block_items h seals txs uncles @ rest))"
  shows "extractHeader (rlp_enc (RList (block_items h seals txs uncles @ rest)))
     = Inr (rlp_enc (RList (header_items h @ seals)))"
proof -
  let ?xs = "block_items h seals txs uncles @ rest"
  have fits: "rlp_fits (RList (header_items h @ seals))" "rlp_fits (RList txs)" "rlp_fits (RList uncles)"
    using rlp_fits_item [OF assms] by (simp_all add: block_items_def)
  have at: "rlp_at (rlp_enc (RList ?xs)) 0 = Inr (rlp_enc (RList (header_items h @ seals)))"
    "rlp_at (rlp_enc (RList ?xs)) 1 = Inr (rlp_enc (RList txs))"
    "rlp_at (rlp_enc (RList ?xs)) 2 = Inr (rlp_enc (RList uncles))"
    using rlp_at_nth [OF assms, of 0] rlp_at_nth [OF assms, of 1] rlp_at_nth [OF assms, of 2]
    by (simp_all add: block_items_def)
  show ?thesis
    using at fits assms by (simp add: extractHeader_def RLP_exact isList_enc(1))
qed

lemma BlockHeader_enc:
  assumes "header_ok h seals" and "rlp_fits (RList (block_items h seals txs uncles @ rest))"
  shows "BlockHeader sha3 (rlp_enc (RList (block_items h seals txs uncles @ rest))) BlockData zero_hash
     = Inr (h\<lparr>m_hash := sha3 (rlp_enc (RList (header_items h @ seals))), m_hashWithout := zero_hash\<rparr>)"
  using extractHeader_enc [OF assms(2)] populate_enc [OF assms(1)]
  by (simp add: BlockHeader_def BlockHeader0_def Let_def)

text \<open>The hash everything is signed on: the header without its seal.\<close>

definition seal_hash :: "crypto \<Rightarrow> block_header \<Rightarrow> bytes" where
  "seal_hash c h = e_sha3 c (rlp_enc (RList (header_items h)))"

lemma header_ok_memo: "header_ok h seals \<Longrightarrow> header_ok (h\<lparr>m_hash := a, m_hashWithout := b\<rparr>) seals"
  by (simp add: header_ok_def header_items_def)

lemma parse_header_enc:
  assumes "header_ok h seals" and "rlp_fits (RList (block_items h seals txs uncles @ rest))"
  shows "\<exists>h'. parse_header c (rlp_enc (RList (block_items h seals txs uncles @ rest))) = Inr (h', seal_hash c h)
     \<and> m_number h' = m_number h"
proof -
  let ?h = "h\<lparr>m_hash := e_sha3 c (rlp_enc (RList (header_items h @ seals))), m_hashWithout := zero_hash\<rparr>"
  have ok: "header_ok ?h seals" using assms(1) by (rule header_ok_memo)
  have "memo_ok (e_sha3 c) seals ?h" by (simp add: memo_ok_def)
  from header_hash_ok(2) [OF ok this] obtain h' where
    "header_hash (e_sha3 c) WithoutSeal ?h = Inr (h', seal_hash c h)"
    by (auto simp: seal_hash_def)
  with BlockHeader_enc [OF assms, of "e_sha3 c"] show ?thesis
    by (simp add: parse_header_def)
qed

subsection \<open>The certificate\<close>

interpretation sign_pair: rlp_pair RStr "toHash 64 LaissezFaire" "\<lambda>b. length b = 64"
    RStr "toHash 65 LaissezFaire" "\<lambda>b. length b = 65" "replicate 64 0" "replicate 65 0" LaissezFaire
  by unfold_locales

definition pair_item :: "node_id \<times> sig \<Rightarrow> rlp_item" where
  "pair_item p = RList [RStr (fst p), RStr (snd p)]"

definition info_item :: "qpos \<Rightarrow> rlp_item" where
  "info_item s = RList [RStr (q_id s), RList (map pair_item (voted_list s))]"

lemma append_pair_emit: "append_pair p = emit (pair_item p)"
  unfolding append_pair_def pair_item_def append_bytes_emit by (rule ext, rule build_list) simp_all

lemma message_emit:
  assumes "\<And>s. build fs s = emit it s" and "rlp_fits it"
  shows "message fs = Inr (rlp_enc it)"
  using assms by (simp add: message_def emit_enc rlp_fits_def rlp_max_def appendRaw_note
      RLPStream_def stream_out_def)

lemma sign_info_enc:
  assumes "rlp_fits (info_item s)"
  shows "sign_info s = Inr (rlp_enc (info_item s))"
  unfolding sign_info_def
proof (rule message_emit [OF _ assms])
  fix s'
  have "map append_pair (voted_list s) = map emit (map pair_item (voted_list s))"
    by (simp add: append_pair_emit)
  then show "build ([appendList 2, append_bytes False (q_id s), appendList (length (voted_list s))]
      @ map append_pair (voted_list s)) s' = emit (info_item s) s'"
    by (simp only: append_Cons append_Nil build_fun build_emits)
      (simp add: info_item_def emits_Cons_fun numeral_2_eq_2)
qed

lemma sealed_block_enc:
  assumes "header_ok h seals" and "m_blockBytes s = rlp_enc (RList (block_items h seals txs uncles))"
    and "rlp_fits (RList (block_items h seals txs uncles @ [info_item s]))"
  shows "sealed_block c s = Inr (rlp_enc (RList (block_items h seals txs uncles @ [info_item s])))"
proof -
  let ?xs = "block_items h seals txs uncles"
  note fx = rlp_fits_append [OF assms(3)]
  have each: "rlp_fits x" if "x \<in> set (?xs @ [info_item s])" for x
    using rlp_fits_item [OF assms(3) that] .
  have raw: "appendRaw (rlp_enc x) (Suc 0) = emit x" if "x \<in> set (?xs @ [info_item s])" for x
    using each [OF that] by (intro ext) (simp add: emit_enc rlp_fits_def rlp_max_def)
  have at: "rlp_at (rlp_enc (RList ?xs)) i = Inr (rlp_enc (?xs ! i))" if "i < 3" for i
    using rlp_at_nth [OF fx, of i] that by (simp add: block_items_def)
  have "message [appendList 4, appendRaw (rlp_enc (?xs ! 0)) 1, appendRaw (rlp_enc (?xs ! 1)) 1,
      appendRaw (rlp_enc (?xs ! 2)) 1, appendRaw (rlp_enc (info_item s)) 1]
    = Inr (rlp_enc (RList (?xs @ [info_item s])))"
    by (rule message_emit [OF _ assms(3)], rule build_list)
      (simp_all add: raw block_items_def)
  moreover have "sign_info s = Inr (rlp_enc (info_item s))" by (rule sign_info_enc) (rule each, simp)
  ultimately show ?thesis
    using at [of 0] at [of 1] at [of 2] BlockHeader_enc [OF assms(1), of txs uncles "[]"] fx
    by (simp add: sealed_block_def assms(2) RLP_exact)
qed

end
