(* ===== verification/RLP_Total.thy ===== *)
theory RLP_Total
  imports RLP_Field
begin

section \<open>Iterating an RLP list always ends\<close>

text \<open>
  The iterators of \<open>RLP\<close> compare pointers, so a range-for loop over a view with bytes beyond its item
  would never meet \<open>end ()\<close>. Views that come out of \<open>operator[]\<close> or the strict constructor are exact, and
  on exact views the loop ends on every input, well-formed or not.
\<close>

definition exact :: "bytes \<Rightarrow> bool" where
  "exact d \<longleftrightarrow> actualSize d = Inr (length d)"

lemma exact_Nil [simp]: "exact []"
  by (simp add: exact_def actualSize_def isNull_def)

lemma iterate_total:
  "it_pos it = Some p \<Longrightarrow> p + it_size it + m_remaining it = length d \<Longrightarrow> iterate f d it acc \<noteq> None"
proof (induction "m_remaining it" arbitrary: it p acc rule: less_induct)
  case less
  show ?case
  proof (cases "ebind (RLP (it_window d (it_pos it) (it_size it)) VeryStrict) f")
    case (Inl e)
    then show ?thesis by (subst iterate.simps) simp
  next
    case (Inr x)
    show ?thesis
    proof (cases "m_remaining it = 0")
      case True
      then have "it_incr d it = Inr \<lparr>it_pos = Some (length d), it_size = 0, m_remaining = 0\<rparr>"
        using less.prems by (simp add: it_incr_def)
      then show ?thesis
        using Inr by (subst iterate.simps) (auto simp: iterate.simps)
    next
      case False
      let ?w = "it_window d (Some (p + it_size it)) (m_remaining it)"
      have lw: "length ?w = m_remaining it" using less.prems by (simp add: it_window_def)
      show ?thesis
      proof (cases "sizeAsEncoded ?w")
        case (Inl e)
        with Inr False less.prems show ?thesis by (subst iterate.simps) (simp add: it_incr_def Let_def)
      next
        case (Inr n)
        let ?it = "\<lparr>it_pos = Some (p + it_size it), it_size = n, m_remaining = m_remaining it - n\<rparr>"
        from Inr have n: "0 < n" "n \<le> m_remaining it"
          using sizeAsEncoded_bounds [OF Inr] lw False by auto
        with Inr False less.prems have "it_incr d it = Inr ?it"
          by (simp add: it_incr_def Let_def min_def)
        moreover have "iterate f d ?it acc' \<noteq> None" for acc'
          using less.hyps [of ?it "p + it_size it"] less.prems n False by simp
        ultimately show ?thesis
          using \<open>ebind _ f = Inr x\<close> by (subst iterate.simps) simp
      qed
    qed
  qed
qed

lemma range_for_total:
  assumes "exact d" and "isList d"
  shows "range_for f d \<noteq> None"
proof (cases "it_begin d")
  case (Inl e)
  then show ?thesis by (simp add: range_for_def)
next
  case (Inr it)
  from assms(2) have "\<not> isSingleByte d" "\<not> isNull d" by (auto simp: isList_def isSingleByte_def)
  with assms obtain l where l: "rlp_length d = Inr l" "payloadOffset d + l = length d"
    by (auto simp: exact_def actualSize_def ebind_Inr_iff)
  then have pl: "payload d = Inr (cropped d (payloadOffset d) l)" "length (cropped d (payloadOffset d) l) = l"
    by (simp_all add: payload_def cropped_def)
  with Inr l assms(2) obtain n where "sizeAsEncoded (cropped d (payloadOffset d) l) = Inr n"
    and it: "it = \<lparr>it_pos = Some (payloadOffset d), it_size = n, m_remaining = l - n\<rparr>"
    by (auto simp: it_begin_def ebind_Inr_iff)
  then have "n \<le> l" using sizeAsEncoded_bounds pl(2) by fastforce
  then show ?thesis
    using iterate_total [of it "payloadOffset d" d f "[]"] Inr l it by (simp add: range_for_def)
qed

lemma toVector_total: "exact d \<Longrightarrow> toVector f fl d \<noteq> None"
  using range_for_total [of d f] by (auto simp: toVector_def split: sum.splits)

subsection \<open>Subscripts give exact views\<close>

lemma length_field_take:
  assumes "ls < n" and "n \<le> length d" and "0 < ls"
  shows "length_field (take n d) ls = length_field d ls"
proof -
  have "take ls (drop 1 (take n d)) = take ls (drop 1 d)"
    using assms by (simp add: drop_take min_def)
  then show ?thesis using assms by (simp add: length_field_def)
qed

lemma actualSize_take:
  assumes "actualSize d = Inr n" and "n \<le> length d"
  shows "actualSize (take n d) = Inr n"
proof (cases "d = []")
  case True
  with assms show ?thesis by simp
next
  case False
  then have n: "0 < n" using actualSize_pos [OF assms(1)] by simp
  define t where "t = take n d"
  have b0: "t ! 0 = d ! 0" "t \<noteq> []" "length t = n" "1 < n \<Longrightarrow> t ! 1 = d ! 1"
    using n False assms(2) by (auto simp: t_def)
  then have shape: "isNull t = isNull d" "isSingleByte t = isSingleByte d" "isData t = isData d"
    "isList t = isList d" "payloadOffset t = payloadOffset d"
    using False by (auto simp: isNull_def isSingleByte_def isData_def isList_def payloadOffset_def lengthSize_def)
  show ?thesis
  proof (cases "isSingleByte d")
    case True
    with assms shape False show ?thesis
      unfolding t_def [symmetric] by (simp add: actualSize_def isNull_def)
  next
    case multi: False
    with assms False isData_or_isList [of d] obtain l where l: "rlp_length d = Inr l" "n = payloadOffset d + l"
      by (auto simp: actualSize_def isNull_def ebind_Inr_iff)
    from l(1) have good: "requireGood d = Inr ()"
      using False by (auto simp: rlp_length_def isNull_def ebind_Inr_iff)
    have "requireGood t = Inr ()"
    proof (cases "byte0 d = 129")
      case True
      then have "l = 1" "payloadOffset d = 1" using l(1) False multi
        by (auto simp: rlp_length_def isNull_def ebind_Inr_iff payloadOffset_def lengthSize_def isData_def isList_def)
      with l(2) good True b0 assms(2) show ?thesis by (auto simp: requireGood_def isNull_def split: if_splits)
    next
      case False
      then show ?thesis using b0 n by (simp add: requireGood_def isNull_def)
    qed
    moreover have "lengthSize d < n" using l(2) multi by (simp add: payloadOffset_def)
    ultimately have "rlp_length t = rlp_length d"
      using good b0 shape multi False length_field_take [of "lengthSize d" n d, folded t_def] assms(2)
      by (auto simp: rlp_length_def lengthSize_def isData_def isList_def isNull_def isSingleByte_def Let_def)
    with l shape multi False assms(1) show ?thesis
      unfolding t_def [symmetric] by (auto simp: actualSize_def isNull_def)
  qed
qed

lemma exact_crop:
  assumes "sizeAsEncoded d = Inr n"
  shows "exact (cropped d 0 n)"
proof -
  from assms have "actualSize d = Inr n" "n \<le> length d"
    by (auto simp: sizeAsEncoded_eq ebind_Inr_iff split: if_splits)
  with actualSize_take show ?thesis by (simp add: exact_def)
qed

lemma at_loop_exact:
  "at_loop r i = (r', Inr u) \<Longrightarrow> exact (m_lastItem r) \<Longrightarrow> exact (m_lastItem r')"
proof (induction r i rule: at_loop.induct)
  case (1 r i)
  from "1.prems" show ?case
    by (subst (asm) at_loop.simps)
      (auto simp: Let_def exact_crop split: if_splits sum.splits intro!: "1.IH")
qed

lemma rlp_at_obj_exact:
  assumes "rlp_at_obj r i = (r', Inr x)" and "exact (m_lastItem r)"
  shows "exact x"
proof -
  have fin: "exact x" if "exact (m_lastItem r1)" "at_loop r1 i = (r2, Inr ())"
    "RLP (m_lastItem r2) ThrowTooSmall = Inr x" for r1 r2
    using at_loop_exact [OF that(2,1)] that(3) by (auto simp: RLP_def ebind_Inr_iff exact_def split: if_splits)
  show ?thesis
  proof (cases "i < m_lastIndex r")
    case True
    with assms(1) obtain pl n r2 where "sizeAsEncoded pl = Inr n"
      "at_loop (r\<lparr>m_lastEnd := n, m_lastItem := cropped pl 0 n, m_lastIndex := 0\<rparr>) i = (r2, Inr ())"
      "RLP (m_lastItem r2) ThrowTooSmall = Inr x"
      by (auto simp: rlp_at_obj_def Let_def split: sum.splits prod.splits)
    then show ?thesis by (intro fin) (auto simp: exact_crop simp del: cropped_0)
  next
    case False
    with assms(1) obtain r2 where "at_loop r i = (r2, Inr ())" "RLP (m_lastItem r2) ThrowTooSmall = Inr x"
      by (auto simp: rlp_at_obj_def Let_def split: sum.splits prod.splits)
    with fin assms(2) show ?thesis by blast
  qed
qed

lemma rlp_at_exact: "rlp_at d i = Inr x \<Longrightarrow> exact x"
  unfolding rlp_at_def using rlp_at_obj_exact [of "rlp_obj_of d" i] by (metis exact_Nil prod.collapse rlp_obj.select_convs(4) rlp_obj_of_def)

end
