(* ===== verification/Qpos_Certificate.thy ===== *)
theory Qpos_Certificate
  imports Qpos_Messages RLP_Total
begin

section \<open>What a block certificate proves\<close>

text \<open>
  \<open>checkBlockSign\<close> decides whether an imported block carries enough votes. The loop of the code is
  characterised by the set of miners with a valid signature in the list, the check is shown to
  return on every input, and what a leader seals in \<open>voteBlockEnd\<close> is shown to pass the check.
\<close>

definition valid_signers :: "crypto \<Rightarrow> bytes \<Rightarrow> node_id set \<Rightarrow> (node_id \<times> sig) list \<Rightarrow> node_id set" where
  "valid_signers c hash miners l = {i \<in> miners. \<exists>sg. (i, sg) \<in> set l \<and> verify c i sg hash}"

definition quorum :: "node_id set \<Rightarrow> nat" where
  "quorum miners = (card miners + 1) div 2"

lemma valid_signers_Nil [simp]: "valid_signers c hash miners [] = {}"
  by (simp add: valid_signers_def)

lemma valid_signers_Cons [simp]:
  "valid_signers c hash miners ((i, sg) # l) =
     (if i \<in> miners \<and> verify c i sg hash then insert i (valid_signers c hash miners l)
      else valid_signers c hash miners l)"
  by (auto simp: valid_signers_def)

lemma valid_signers_subset: "valid_signers c hash miners l \<subseteq> miners"
  by (auto simp: valid_signers_def)

lemma check_signs_iff:
  assumes "finite miners" and "signs \<subseteq> miners" and "card signs < quorum miners"
  shows "check_signs c hash miners signs l \<longleftrightarrow> quorum miners \<le> card (signs \<union> valid_signers c hash miners l)"
  using assms(2,3)
proof (induction l arbitrary: signs)
  case (Cons p l)
  obtain i sg where p: "p = (i, sg)" by force
  have fin: "finite (signs \<union> valid_signers c hash miners l)" "finite (insert i signs)"
    using Cons.prems(1) valid_signers_subset assms(1) by (meson finite_subset le_sup_iff, meson finite.insertI finite_subset)
  have mono: "card (insert i signs) \<le> card (insert i (signs \<union> valid_signers c hash miners l))"
    using fin(1) by (intro card_mono) auto
  show ?case
    using Cons.prems Cons.IH [of signs] Cons.IH [of "insert i signs"] mono
    by (auto simp: p quorum_def Let_def not_le)
qed simp

lemma check_signs_quorum:
  assumes "finite miners" and "miners \<noteq> {}"
  shows "check_signs c hash miners {} l \<longleftrightarrow> quorum miners \<le> card (valid_signers c hash miners l)"
proof -
  from assms have "0 < card miners" by (simp add: card_gt_0_iff)
  then show ?thesis using check_signs_iff [OF assms(1), of "{}"] by (simp add: quorum_def)
qed

subsection \<open>The check returns\<close>

lemma check_certificate_total: "check_certificate c miners h block \<noteq> None"
proof -
  have "toVector read_sign LaissezFaire l \<noteq> None" if "ebind (rlp_at b 3) (\<lambda>x. rlp_at x 1) = Inr l" for b l
    using that by (intro toVector_total) (auto simp: ebind_Inr_iff dest: rlp_at_exact)
  then show ?thesis
    unfolding check_certificate_def by (fastforce split: sum.split option.split prod.split)
qed

subsection \<open>The check on an encoded certificate\<close>

definition cert_item :: "node_id \<Rightarrow> (node_id \<times> sig) list \<Rightarrow> rlp_item" where
  "cert_item owner l = RList [RStr owner, RList (map pair_item l)]"

definition sized :: "(node_id \<times> sig) list \<Rightarrow> bool" where
  "sized l \<longleftrightarrow> (\<forall>(i, sg) \<in> set l. length i = 64 \<and> length sg = 65)"

lemma info_item_cert: "info_item s = cert_item (q_id s) (voted_list s)"
  by (simp add: info_item_def cert_item_def)

lemma pair_item_split: "pair_item = (\<lambda>(x, y). RList [RStr x, RStr y])"
  by (rule ext) (simp add: pair_item_def split_def)

lemma read_certificate:
  assumes "rlp_fits (RList (block_items h seals txs uncles @ [cert_item owner l]))" (is "rlp_fits (RList ?xs)")
    and "sized l"
  shows "ebind (rlp_at (rlp_enc (RList ?xs)) 3) (\<lambda>x. rlp_at x 1) = Inr (rlp_enc (RList (map pair_item l)))"
    and "toVector read_sign LaissezFaire (rlp_enc (RList (map pair_item l))) = Some (Inr l)"
proof -
  have at3: "rlp_at (rlp_enc (RList ?xs)) 3 = Inr (rlp_enc (cert_item owner l))"
    using rlp_at_nth [OF assms(1), of 3] by (simp add: block_items_def)
  have fc: "rlp_fits (cert_item owner l)" using rlp_fits_item [OF assms(1)] by simp
  then have "rlp_at (rlp_enc (cert_item owner l)) 1 = Inr (rlp_enc (RList (map pair_item l)))"
    using rlp_at_nth [of "[RStr owner, RList (map pair_item l)]" 1] by (simp add: cert_item_def)
  with at3 show "ebind (rlp_at (rlp_enc (RList ?xs)) 3) (\<lambda>x. rlp_at x 1) = Inr (rlp_enc (RList (map pair_item l)))"
    by simp
  have fl: "rlp_fits (RList (map pair_item l))"
    using rlp_fits_item fc unfolding cert_item_def by (metis list.set_intros(1,2))
  then show "toVector read_sign LaissezFaire (rlp_enc (RList (map pair_item l))) = Some (Inr l)"
    using sign_pair.pair.vector_read [of l] assms(2)
    by (simp add: pair_item_split sized_def split_def)
qed

text \<open>The check accepts exactly the blocks with a quorum of valid signatures of distinct miners.\<close>

lemma check_certificate_enc:
  assumes "header_ok h seals" "memo_ok (e_sha3 c) seals h"
    and "rlp_fits (RList (block_items h seals txs uncles @ [cert_item owner l]))" (is "rlp_fits (RList ?xs)")
    and "sized l" "finite miners" "miners \<noteq> {}"
  shows "check_certificate c miners h (rlp_enc (RList ?xs))
     = Some (Inr (quorum miners \<le> card (valid_signers c (seal_hash c h) miners l)))"
proof -
  have n: "itemCount (rlp_enc (RList ?xs)) = Inr 4"
    using itemCount_enc [OF assms(3)] by (simp add: block_items_def)
  obtain h' where "header_hash (e_sha3 c) WithoutSeal h = Inr (h', seal_hash c h)"
    using header_hash_ok(2) [OF assms(1,2)] by (auto simp: seal_hash_def)
  with n read_certificate [OF assms(3,4)] assms show ?thesis
    by (simp add: check_certificate_def RLP_exact check_signs_quorum)
qed

text \<open>Everything a block and its votes must satisfy to be read back: the sizes of the types and of the encoding.\<close>

definition cert_ok :: "crypto \<Rightarrow> block_header \<Rightarrow> rlp_item list \<Rightarrow> rlp_item list \<Rightarrow> rlp_item list \<Rightarrow> node_id
    \<Rightarrow> (node_id \<times> sig) list \<Rightarrow> bool" where
  "cert_ok c h seals txs uncles owner l \<longleftrightarrow>
     header_ok h seals \<and> memo_ok (e_sha3 c) seals h
     \<and> rlp_fits (RList (block_items h seals txs uncles @ [cert_item owner l])) \<and> sized l"

lemma strToNode_finite: "strToNode parse str = Inr miners \<Longrightarrow> finite miners"
  by (auto simp: strToNode_def ebind_Inr_iff dest: strToQpos_finite)

lemma checkBlockSign_enc:
  assumes "strToNode parse (nodesAt (m_number h - 1)) = Inr miners" and "cert_ok c h seals txs uncles owner l"
  shows "checkBlockSign c parse nodesAt h (rlp_enc (RList (block_items h seals txs uncles @ [cert_item owner l])))
     = Some (Inr (miners = {} \<or> quorum miners \<le> card (valid_signers c (seal_hash c h) miners l)))"
proof (cases "miners = {}")
  case True
  with assms show ?thesis by (simp add: checkBlockSign_def check_certificate_def)
next
  case False
  with assms show ?thesis
    by (simp add: checkBlockSign_def cert_ok_def check_certificate_enc strToNode_finite)
qed

lemma quorum_intersect:
  assumes "A \<subseteq> M" "B \<subseteq> M" "finite M" "odd (card M)" "quorum M \<le> card A" "quorum M \<le> card B"
  shows "A \<inter> B \<noteq> {}"
proof
  assume "A \<inter> B = {}"
  with assms have "card A + card B \<le> card M"
    using card_Un_disjoint [of A B] card_mono [of M "A \<union> B"] finite_subset [of _ M] by (metis Un_least)
  with assms(4-6) show False by (auto simp: quorum_def elim!: oddE)
qed

lemma valid_signers_signed:
  assumes "\<forall>i \<in> set xs. i \<in> M \<and> sign_recovers c i"
  shows "valid_signers c hash M (map (\<lambda>i. (i, e_sign c i hash)) xs) = set xs"
  using assms by (induction xs) (auto simp: verify_sign)

subsection \<open>What a leader seals\<close>

definition votes_valid :: "crypto \<Rightarrow> qpos \<Rightarrow> bool" where
  "votes_valid c s \<longleftrightarrow>
     (\<forall>i sg. m_idVoted s i = Some sg \<longrightarrow>
        (\<exists>h hash. parse_header c (m_blockBytes s) = Inr (h, hash) \<and> verify c i sg hash))"

lemma voted_list_set:
  assumes "finite (dom (m_idVoted s))"
  shows "set (voted_list s) = {(i, sg). m_idVoted s i = Some sg}"
  using assms by (force simp: voted_list_def)

lemma valid_signers_voted:
  assumes "finite (dom (m_idVoted s))" "dom (m_idVoted s) \<subseteq> M"
    and "\<And>i sg. m_idVoted s i = Some sg \<Longrightarrow> verify c i sg hash"
  shows "valid_signers c hash M (voted_list s) = dom (m_idVoted s)"
  using assms by (fastforce simp: valid_signers_def voted_list_set)

lemma int_half: "int n div 2 = int (n div 2)" "(int n + 1) div 2 = int ((n + 1) div 2)"
  by (simp_all add: zdiv_int)

lemma voteBlockEnd_seals:
  assumes "nodeCount s \<noteq> 0" "card (m_idUnVoted s) < quorum (m_miners s)"
    and "card (m_miners s) div 2 < card (dom (m_idVoted s))" and "sealed_block c s = Inr b"
  shows "voteBlockEnd c peers t s = broadBlock peers b s"
  using assms by (simp add: voteBlockEnd_def nodeCount_def quorum_def int_half)

lemma voted_list_sized:
  assumes "finite (dom (m_idVoted s))" "\<And>i sg. m_idVoted s i = Some sg \<Longrightarrow> length i = 64 \<and> length sg = 65"
  shows "sized (voted_list s)"
  using assms by (auto simp: sized_def voted_list_set)

lemma half_quorum: "n div 2 < k \<Longrightarrow> (n + 1) div 2 \<le> (k::nat)"
  by linarith

text \<open>A sealed block parses, and the checking side counts its valid votes.\<close>

lemma sealed_block_checked:
  assumes hdr: "header_ok h seals"
    and blk: "m_blockBytes s = rlp_enc (RList (block_items h seals txs uncles))"
    and fits: "rlp_fits (RList (block_items h seals txs uncles @ [info_item s]))"
    and votes: "finite (dom (m_idVoted s))" "\<And>i sg. m_idVoted s i = Some sg \<Longrightarrow> length i = 64 \<and> length sg = 65"
    and miners: "strToNode parse (nodesAt (m_number h - 1)) = Inr miners"
  shows "\<exists>b h'. sealed_block c s = Inr b \<and> BlockHeader (e_sha3 c) b BlockData zero_hash = Inr h'
    \<and> checkBlockSign c parse nodesAt h' b = Some (Inr (miners = {} \<or>
      quorum miners \<le> card (valid_signers c (seal_hash c h) miners (voted_list s))))"
proof -
  let ?b = "rlp_enc (RList (block_items h seals txs uncles @ [info_item s]))"
  let ?h = "h\<lparr>m_hash := e_sha3 c (rlp_enc (RList (header_items h @ seals))), m_hashWithout := zero_hash\<rparr>"
  have items: "block_items ?h seals txs uncles = block_items h seals txs uncles" "seal_hash c ?h = seal_hash c h"
    by (simp_all add: block_items_def seal_hash_def)
  have "cert_ok c ?h seals txs uncles (q_id s) (voted_list s)"
    using header_ok_memo [OF hdr] fits voted_list_sized [OF votes]
    by (simp add: cert_ok_def memo_ok_def items info_item_cert)
  from checkBlockSign_enc [OF _ this, of parse nodesAt miners] miners
  have "checkBlockSign c parse nodesAt ?h ?b = Some (Inr (miners = {} \<or>
      quorum miners \<le> card (valid_signers c (seal_hash c h) miners (voted_list s))))"
    by (simp add: items info_item_cert)
  with sealed_block_enc [OF hdr blk fits] BlockHeader_enc [OF hdr fits] show ?thesis by auto
qed

text \<open>It is accepted when every recorded vote is valid for the block being sealed.\<close>

lemma sealed_block_accepted:
  assumes hdr: "header_ok h seals"
    and blk: "m_blockBytes s = rlp_enc (RList (block_items h seals txs uncles))"
    and fits: "rlp_fits (RList (block_items h seals txs uncles @ [info_item s]))"
    and votes: "finite (dom (m_idVoted s))" "dom (m_idVoted s) \<subseteq> m_miners s" "votes_valid c s"
      "\<And>i sg. m_idVoted s i = Some sg \<Longrightarrow> length i = 64 \<and> length sg = 65"
      "card (m_miners s) div 2 < card (dom (m_idVoted s))"
    and miners: "strToNode parse (nodesAt (m_number h - 1)) = Inr (m_miners s)"
  shows "\<exists>b h'. sealed_block c s = Inr b \<and> BlockHeader (e_sha3 c) b BlockData zero_hash = Inr h'
    \<and> checkBlockSign c parse nodesAt h' b = Some (Inr True)"
proof -
  obtain h'' where "parse_header c (m_blockBytes s) = Inr (h'', seal_hash c h)"
    using parse_header_enc [OF hdr, of txs uncles "[]" c] rlp_fits_append [OF fits] blk by auto
  then have "valid_signers c (seal_hash c h) (m_miners s) (voted_list s) = dom (m_idVoted s)"
    using votes by (intro valid_signers_voted) (auto simp: votes_valid_def)
  then show ?thesis
    using sealed_block_checked [where parse = parse and nodesAt = nodesAt and c = c, OF hdr blk fits votes(1,4) miners]
      half_quorum [OF votes(5)] by (simp add: quorum_def)
qed

end
