(* ===== verification/Qpos_Invariant.thy ===== *)
theory Qpos_Invariant
  imports Qpos_Certificate
begin

section \<open>Reachable consensus states\<close>

text \<open>
  The events a node reacts to as one step relation, the invariant every handler keeps, and the
  validity of the recorded votes.
\<close>

datatype qpos_event =
    Tick "node_id list" clock
  | Message "node_id list" clock int node_id bytes
  | Report nat bool
  | ReportSelf clock
  | Generate bytes
  | MinerList "string \<Rightarrow> js option" string

text \<open>What the environment can do to a node: one handler per event.\<close>

fun qpos_handle :: "crypto \<Rightarrow> qpos_event \<Rightarrow> qpos \<Rightarrow> qpos_step" where
  "qpos_handle c (Tick peers t) s = tick c peers t s"
| "qpos_handle c (Message peers t rnd p r) s = qpos_interpret c peers t rnd p r s"
| "qpos_handle c (Report n force) s = reportBlock n force s"
| "qpos_handle c (ReportSelf t) s = reportBlockSelf t s"
| "qpos_handle c (Generate block) s = generateSeal block s"
| "qpos_handle c (MinerList parse str) s = (s\<lparr>q_nodes := fst (getMinerList parse str (q_nodes s))\<rparr>, [])"

inductive qpos_reach :: "crypto \<Rightarrow> node_id \<Rightarrow> bool \<Rightarrow> qpos \<Rightarrow> bool" for c i anyNode where
  start: "qpos_reach c i anyNode (qpos_init i anyNode)"
| step: "qpos_reach c i anyNode s \<Longrightarrow> qpos_handle c e s = (s', out) \<Longrightarrow> qpos_reach c i anyNode s'"

definition qpos_inv :: "node_id \<Rightarrow> qpos \<Rightarrow> bool" where
  "qpos_inv i s \<longleftrightarrow>
     q_id s = i \<and> finite (m_miners s) \<and> finite (dom (m_nodes (q_nodes s))) \<and> finite (m_voted s)
     \<and> finite (m_idUnVoted s) \<and> finite (dom (m_idVoted s))
     \<and> dom (m_idVoted s) \<subseteq> insert i (m_miners s) \<and> m_idUnVoted s \<subseteq> m_miners s"

lemma qpos_inv_update [simp]:
  "qpos_inv i (s\<lparr>m_blockBytes := b\<rparr>) = qpos_inv i s"
  "qpos_inv i (s\<lparr>m_consensusTimeOut := n\<rparr>) = qpos_inv i s"
  "qpos_inv i (s\<lparr>m_consensusState := st\<rparr>) = qpos_inv i s"
  "qpos_inv i (s\<lparr>m_voteTimeOut := n\<rparr>) = qpos_inv i s"
  "qpos_inv i (s\<lparr>m_currentView := n\<rparr>) = qpos_inv i s"
  "qpos_inv i (s\<lparr>m_blocks := q\<rparr>) = qpos_inv i s"
  "qpos_inv i (s\<lparr>m_isLeader := l\<rparr>) = qpos_inv i s"
  "qpos_inv i (s\<lparr>m_blockNumber := n\<rparr>) = qpos_inv i s"
  "qpos_inv i (s\<lparr>m_blockNumberRecv := n\<rparr>) = qpos_inv i s"
  "qpos_inv i (s\<lparr>m_blockReport := n\<rparr>) = qpos_inv i s"
  "qpos_inv i (s\<lparr>m_last_consensus_time := n\<rparr>) = qpos_inv i s"
  by (simp_all add: qpos_inv_def)

lemma qpos_inv_sets [simp]:
  "qpos_inv i s \<Longrightarrow> qpos_inv i (s\<lparr>m_voted := {}\<rparr>)"
  "qpos_inv i s \<Longrightarrow> qpos_inv i (s\<lparr>m_voted := insert p (m_voted s)\<rparr>)"
  "qpos_inv i s \<Longrightarrow> qpos_inv i (s\<lparr>m_idUnVoted := {}\<rparr>)"
  "qpos_inv i s \<Longrightarrow> qpos_inv i (s\<lparr>m_idVoted := Map.empty\<rparr>)"
  "qpos_inv i s \<Longrightarrow> p \<in> m_miners s \<Longrightarrow> qpos_inv i (s\<lparr>m_idUnVoted := insert p (m_idUnVoted s)\<rparr>)"
  "qpos_inv i s \<Longrightarrow> p \<in> insert i (m_miners s) \<Longrightarrow> qpos_inv i (s\<lparr>m_idVoted := (m_idVoted s)(p \<mapsto> sg)\<rparr>)"
  by (auto simp: qpos_inv_def)

lemma qpos_inv_two:
  "qpos_inv i s \<Longrightarrow> p \<in> m_miners s \<Longrightarrow> qpos_inv i (s\<lparr>m_idVoted := [p \<mapsto> sg, i \<mapsto> sg']\<rparr>)"
  by (simp add: qpos_inv_def)

lemma qpos_inv_reset:
  "qpos_inv i (resetConfig t s) \<longleftrightarrow>
     q_id s = i \<and> finite (m_miners s) \<and> finite (dom (m_nodes (q_nodes s))) \<and> finite (m_voted s)"
  by (simp add: qpos_inv_def resetConfig_def)

lemma qpos_inv_id: "qpos_inv i s \<Longrightarrow> q_id s = i"
  by (simp add: qpos_inv_def)

subsection \<open>What each handler can do to the state\<close>

text \<open>Case distinctions shared by the invariants below.\<close>

lemma voteTick_cases:
  "voteTick peers t s = (s, []) \<and> t 0 < m_voteTimeOut s
   \<or> m_isLeader s \<and> (\<exists>out. voteTick peers t s = (s\<lparr>m_voteTimeOut := t 0 + QPOS_HEART_TIMEOUT\<rparr>, out))
   \<or> \<not> m_isLeader s \<and> (\<exists>out. voteTick peers t s = (s\<lparr>m_voteTimeOut := t 0 + QPOS_VOTE_TIMEOUT,
        m_currentView := m_currentView s + 1, m_voted := {}\<rparr>, out))"
  by (simp add: voteTick_def Let_def)

lemma voteBlockEnd_cases:
  "voteBlockEnd c peers t s = (resetConfig t s, [])
   \<or> voteBlockEnd c peers t s = (s, [])
   \<or> (\<exists>b. voteBlockEnd c peers t s = broadBlock peers b s \<and> sealed_block c s = Inr b
        \<and> (nodeCount s = 0 \<or> int (card (dom (m_idVoted s))) > nodeCount s div 2))"
  by (cases "sealed_block c s") (simp_all add: voteBlockEnd_def)

lemma onBlockVoteAck_cases:
  assumes "onBlockVoteAck c peers t p r s = Inr (s', out)"
  shows "s' = s \<and> out = []
    \<or> m_consensusState s = qposWaitingVote
      \<and> ((\<exists>sg. voteBlockEnd c peers t (s\<lparr>m_idVoted := (m_idVoted s)(p \<mapsto> sg)\<rparr>) = (s', out)
             \<and> msgVerify c p (m_blockBytes s) sg = Inr True)
         \<or> voteBlockEnd c peers t (s\<lparr>m_idUnVoted := insert p (m_idUnVoted s)\<rparr>) = (s', out))"
  using assms unfolding onBlockVoteAck_def Let_def
  by (auto simp: ebind_Inr_iff simp del: fun_upd_apply split: if_splits)

lemma onBlockVote_cases:
  assumes "onBlockVote c peers t p r s = Inr (s', out)"
  shows "(\<exists>tm. s' = s\<lparr>m_voteTimeOut := tm\<rparr>)
    \<or> (\<exists>b sg h hash tm tm'. parse_header c b = Inr (h, hash) \<and> msgVerify c p b sg = Inr True
        \<and> s' = s\<lparr>m_idUnVoted := {}, m_consensusTimeOut := tm, m_blockBytes := b,
               m_idVoted := [p \<mapsto> sg, q_id s \<mapsto> e_sign c (q_id s) hash], m_voteTimeOut := tm'\<rparr>)"
proof -
  obtain cv where 1: "msg_field r 1 (toInt 4 Strict) = Inr cv"
    using assms by (cases "msg_field r 1 (toInt 4 Strict)") (simp_all add: onBlockVote_def)
  obtain sgn where 2: "msg_bytes r 2 = Inr sgn"
    using assms 1 by (cases "msg_bytes r 2") (simp_all add: onBlockVote_def)
  obtain b where 3: "msg_bytes r 3 = Inr b"
    using assms 1 2 by (cases "msg_bytes r 3") (simp_all add: onBlockVote_def)
  obtain h hash where 4: "parse_header c b = Inr (h, hash)"
    using assms 1 2 3 by (cases "parse_header c b") (auto simp: onBlockVote_def)
  then have 5: "msgVerify c p b sg = Inr (verify c p sg hash)" for sg by (simp add: msgVerify_def)
  show ?thesis
  proof (cases "verify c p (FixedHash 65 sgn) hash \<and> m_blockNumber s + 1 = m_number h \<and> int cv = m_currentView s")
    case True
    with assms 1 2 3 4 5 have "s' = s\<lparr>m_idUnVoted := {}, m_consensusTimeOut := t 1 + m_consensusTimeInterval s, m_blockBytes := b,
        m_idVoted := [p \<mapsto> FixedHash 65 sgn, q_id s \<mapsto> e_sign c (q_id s) hash], m_voteTimeOut := t 0 + QPOS_VOTE_TIMEOUT\<rparr>"
      by (simp add: onBlockVote_def Let_def del: fun_upd_apply)
    moreover have "msgVerify c p b (FixedHash 65 sgn) = Inr True" using 5 True by simp
    ultimately show ?thesis using 4 by - (intro disjI2 exI conjI; assumption)
  next
    case False
    with assms 1 2 3 4 5 have "s' = s\<lparr>m_voteTimeOut := t 0 + QPOS_VOTE_TIMEOUT\<rparr>"
      by (auto simp add: onBlockVote_def Let_def simp del: fun_upd_apply)
    then show ?thesis by (intro disjI1 exI)
  qed
qed

subsection \<open>The invariant\<close>

lemma resetConfig_inv [simp]: "qpos_inv i s \<Longrightarrow> qpos_inv i (resetConfig t s)"
  by (simp add: resetConfig_def)

lemma voteBlockEnd_inv: "qpos_inv i s \<Longrightarrow> voteBlockEnd c peers t s = (s', out) \<Longrightarrow> qpos_inv i s'"
  using voteBlockEnd_cases [of c peers t s] by (auto simp: broadBlock_def)

lemma voteTick_inv: "qpos_inv i s \<Longrightarrow> voteTick peers t s = (s', out) \<Longrightarrow> qpos_inv i s'"
  using voteTick_cases [of peers t s] by auto

lemma voteBlockBegin_inv:
  assumes "qpos_inv i s" and "voteBlockBegin c peers t s = Inr (s', out)"
  shows "qpos_inv i s'"
proof -
  obtain h hash where p: "parse_header c (m_blockBytes s) = Inr (h, hash)"
    using assms(2) by (cases "parse_header c (m_blockBytes s)") (auto simp: voteBlockBegin_def)
  define s1 where "s1 = s\<lparr>m_idVoted := (m_idVoted s)(q_id s \<mapsto> e_sign c (q_id s) hash),
      m_consensusTimeOut := t 0 + m_consensusTimeInterval s, m_consensusState := qposWaitingVote\<rparr>"
  have inv: "qpos_inv i s1" "m_miners s1 = m_miners s"
    unfolding s1_def using assms(1) by (simp_all add: qpos_inv_id [OF assms(1)] del: fun_upd_apply)
  show ?thesis
  proof (cases "1 \<ge> card (m_miners s)")
    case True
    then have "voteBlockEnd c peers (\<lambda>k. t (k + 1)) s1 = (s', out)"
      using assms(2) p unfolding s1_def by (simp add: voteBlockBegin_def Let_def)
    with inv(1) show ?thesis by (rule voteBlockEnd_inv)
  next
    case False
    then have "s' = s1\<lparr>m_voteTimeOut := t 1 + QPOS_HEART_TIMEOUT\<rparr>"
      using assms(2) p unfolding s1_def by (simp add: voteBlockBegin_def Let_def)
    with inv(1) show ?thesis by simp
  qed
qed

lemma generateSealBegin_inv:
  assumes "qpos_inv i s" and "generateSealBegin c peers t b s = Inr (s', out)"
  shows "qpos_inv i s'"
proof -
  have "s' = s \<or> voteBlockBegin c peers t (s\<lparr>m_blockBytes := b\<rparr>) = Inr (s', out)"
    using assms(2) by (auto simp: generateSealBegin_def ebind_Inr_iff split: if_splits)
  with assms(1) voteBlockBegin_inv [of i "s\<lparr>m_blockBytes := b\<rparr>"] show ?thesis by auto
qed

lemma tick_inv:
  assumes "qpos_inv i s" and "tick c peers t s = (s', out)"
  shows "qpos_inv i s'"
proof -
  obtain s1 out1 where vt: "voteTick peers t s = (s1, out1)" by force
  with voteTick_inv [OF assms(1)] have 1: "qpos_inv i s1" by simp
  then have 2: "qpos_inv i (s1\<lparr>m_blocks := q\<rparr>)" for q by simp
  from assms(2) show ?thesis
    using 1 2 by (auto simp: tick_def vt Let_def split: prod.splits option.splits sum.splits if_splits
        dest: generateSealBegin_inv [OF 2])
qed

lemma onBlockVoteAck_inv:
  assumes "qpos_inv i s" "p \<in> m_miners s" "onBlockVoteAck c peers t p r s = Inr (s', out)"
  shows "qpos_inv i s'"
  using onBlockVoteAck_cases [OF assms(3)] assms(1,2)
  by (auto simp del: fun_upd_apply intro: voteBlockEnd_inv [rotated])

lemma onBlockVote_inv:
  assumes "qpos_inv i s" "p \<in> m_miners s" "onBlockVote c peers t p r s = Inr (s', out)"
  shows "qpos_inv i s'"
proof -
  have "qpos_inv i (s\<lparr>m_idUnVoted := {}, m_consensusTimeOut := tm, m_blockBytes := b,
      m_idVoted := [p \<mapsto> sg, q_id s \<mapsto> sg'], m_voteTimeOut := tm'\<rparr>)" for tm b sg sg' tm'
    using assms(1,2) by (simp add: qpos_inv_two qpos_inv_id [OF assms(1)] del: fun_upd_apply)
  with onBlockVote_cases [OF assms(3)] assms(1) show ?thesis
    by (elim disjE exE conjE) (simp_all del: fun_upd_apply)
qed

lemma onHeart_inv: "qpos_inv i s \<Longrightarrow> onHeart t p r s = Inr (s', out) \<Longrightarrow> qpos_inv i s'"
  by (auto simp: onHeart_def ebind_Inr_iff)

lemma onVote_inv: "qpos_inv i s \<Longrightarrow> onVote peers t rnd p r s = Inr (s', out) \<Longrightarrow> qpos_inv i s'"
  by (auto simp: onVote_def ebind_Inr_iff Let_def)

lemma onVoteAck_inv: "qpos_inv i s \<Longrightarrow> onVoteAck p r s = Inr (s', out) \<Longrightarrow> qpos_inv i s'"
  by (auto simp: onVoteAck_def ebind_Inr_iff Let_def split: if_splits)

lemma onBroadBlock_inv: "qpos_inv i s \<Longrightarrow> onBroadBlock c r s = Inr (s', out) \<Longrightarrow> qpos_inv i s'"
  by (auto simp: onBroadBlock_def ebind_Inr_iff)

text \<open>A delivered message either changes nothing or is one of the six handlers on a miner's message.\<close>

lemma qpos_interpret_cases:
  assumes "qpos_interpret c peers t rnd p r s = (s', out)"
  shows "s' = s \<and> out = []
    \<or> p \<in> m_miners s \<and>
      (onBlockVote c peers t p r s = Inr (s', out) \<or> onBlockVoteAck c peers t p r s = Inr (s', out)
       \<or> onHeart t p r s = Inr (s', out) \<or> onVote peers t rnd p r s = Inr (s', out)
       \<or> onVoteAck p r s = Inr (s', out) \<or> onBroadBlock c r s = Inr (s', out))"
  using assms unfolding qpos_interpret_def Let_def by (simp split: sum.splits if_splits)

lemma qpos_interpret_inv:
  assumes "qpos_inv i s" "qpos_interpret c peers t rnd p r s = (s', out)"
  shows "qpos_inv i s'"
  using qpos_interpret_cases [OF assms(2)] assms(1)
  by (elim disjE conjE)
    (auto dest: onBlockVote_inv onBlockVoteAck_inv onHeart_inv onVote_inv onVoteAck_inv onBroadBlock_inv)

definition reported_miners :: "qpos \<Rightarrow> node_id set" where
  "reported_miners s = (case snd (getNodes (q_nodes s)) of None \<Rightarrow> m_miners s | Some m \<Rightarrow> dom m)"

lemma reportBlockSelf_state:
  "fst (reportBlockSelf t s) =
     resetConfig t (s\<lparr>m_blockNumber := m_blockReport s, m_blockNumberRecv := m_blockReport s,
       q_nodes := fst (getNodes (q_nodes s)), m_miners := reported_miners s,
       m_isLeader := (reported_miners s = {} \<or> reported_miners s = {q_id s} \<or> q_id s \<in> reported_miners s \<and> m_isLeader s)\<rparr>)"
proof -
  define M where "M = reported_miners s"
  have one: "card M = Suc 0 \<and> q_id s \<in> M \<longleftrightarrow> M = {q_id s}" by (auto simp: card_1_singleton_iff)
  have upd: "x = y \<Longrightarrow> resetConfig t x = resetConfig t y" for x y by simp
  have "fst (reportBlockSelf t s) =
     (let s3 = s\<lparr>m_blockNumber := m_blockReport s, m_blockNumberRecv := m_blockReport s,
       q_nodes := fst (getNodes (q_nodes s)), m_miners := M\<rparr> in
      resetConfig t (if M = {} \<or> card M = 1 \<and> q_id s \<in> M then s3\<lparr>m_isLeader := True\<rparr>
        else if q_id s \<notin> M \<and> m_isLeader s then s3\<lparr>m_isLeader := False\<rparr> else s3))"
    by (cases "getNodes (q_nodes s)"; cases "snd (getNodes (q_nodes s))")
      (simp_all add: reportBlockSelf_def M_def reported_miners_def Let_def)
  then show ?thesis
    unfolding M_def [symmetric] Let_def using one
    by (cases "M = {}"; cases "M = {q_id s}"; cases "q_id s \<in> M"; cases "m_isLeader s")
      (simp_all, (intro upd qpos.equality; simp)+)
qed

lemma reportBlockSelf_inv:
  assumes "qpos_inv i s"
  shows "qpos_inv i (fst (reportBlockSelf t s))"
proof -
  have "finite (reported_miners s)" "finite (dom (m_nodes (fst (getNodes (q_nodes s)))))"
    using assms by (simp_all add: reported_miners_def getNodes_def qpos_inv_def)
  with assms show ?thesis unfolding reportBlockSelf_state qpos_inv_reset by (simp add: qpos_inv_def)
qed

lemma getMinerList_inv:
  assumes "qpos_inv i s"
  shows "qpos_inv i (s\<lparr>q_nodes := fst (getMinerList parse str (q_nodes s))\<rparr>)"
proof -
  have "finite (dom (m_nodes (fst (getMinerList parse str nc))))" if "finite (dom (m_nodes nc))" for nc
  proof (cases "strToQpos parse str")
    case (Inr m)
    then have "finite (dom m)" by (rule strToQpos_finite)
    with Inr that show ?thesis by (simp add: getMinerList_def Let_def)
  qed (use that in \<open>simp add: getMinerList_def Let_def\<close>)
  with assms show ?thesis by (simp add: qpos_inv_def)
qed

lemma qpos_handle_inv:
  assumes "qpos_inv i s" and "qpos_handle c e s = (s', out)"
  shows "qpos_inv i s'"
  using assms(2)
proof (cases e)
  case (Tick peers t)
  with assms show ?thesis by (simp add: tick_inv)
next
  case (Message peers t rnd p r)
  with assms show ?thesis by (simp add: qpos_interpret_inv)
next
  case (ReportSelf t)
  with assms reportBlockSelf_inv [OF assms(1), of t] show ?thesis by simp
next
  case (MinerList parse str)
  with assms getMinerList_inv [OF assms(1)] show ?thesis by auto
next
  case (Report n force)
  with assms show ?thesis by (auto simp: reportBlock_def split: if_splits)
next
  case (Generate block)
  with assms show ?thesis by (auto simp: generateSeal_def)
qed

lemma qpos_reach_qpos_inv: "qpos_reach c i anyNode s \<Longrightarrow> qpos_inv i s"
proof (induction rule: qpos_reach.induct)
  case start
  then show ?case by (simp add: qpos_inv_def qpos_init_def node_cache0_def)
qed (blast intro: qpos_handle_inv)

text \<open>The state after a list of events.\<close>

definition qpos_after :: "crypto \<Rightarrow> qpos_event list \<Rightarrow> qpos \<Rightarrow> qpos" where
  "qpos_after c es s = fold (\<lambda>e s. fst (qpos_handle c e s)) es s"

lemma qpos_after_reach: "qpos_reach c i anyNode s \<Longrightarrow> qpos_reach c i anyNode (qpos_after c es s)"
proof (induction es arbitrary: s)
  case (Cons e es)
  have "qpos_reach c i anyNode (fst (qpos_handle c e s))"
    using Cons.prems qpos_reach.step [of c i anyNode s e] by (metis prod.collapse)
  from Cons.IH [OF this] show ?case by (simp add: qpos_after_def)
qed (simp add: qpos_after_def)

end
