(* ===== verification/Qpos_Election.thy ===== *)
theory Qpos_Election
  imports Qpos_Invariant
begin

section \<open>Leader election\<close>

text \<open>
  The messages of the election and of the block vote as packets, each handler on a packet another node sent, and the
  view of a node along a run.
\<close>

definition packet :: "rlp_item list \<Rightarrow> bytes" where
  "packet xs = rlp_enc (RList [RList xs])"

lemma uint_item_length: "length (rlp_enc (uint_item v)) \<le> 5"
proof -
  have "bytesRequired (nat (v mod 2 ^ 32)) \<le> 4"
    using nat_mod_2_32 [of v] by (simp add: bytesRequired_le_iff)
  then show ?thesis by (auto simp: uint_item_def int_item_def enc_bytes_def enc_hdr_def)
qed

lemma uint_list_length: "length (concat (map rlp_enc (map uint_item vs))) \<le> 5 * length vs"
  by (induction vs) (use uint_item_length in \<open>auto intro: add_mono\<close>)

lemma uint_list_fits: "length vs \<le> 50 \<Longrightarrow> rlp_fits (RList (map uint_item vs))"
  by (rule rlp_fits_small) (auto simp: list_all_iff intro: order_trans [OF uint_item_length])

lemma uint_packet_fits:
  assumes "length vs \<le> 50"
  shows "rlp_fits (RList [RList (map uint_item vs)])"
proof (rule rlp_fits_small)
  have "bytesRequired (length (concat (map rlp_enc (map uint_item vs)))) \<le> 2"
    using uint_list_length [of vs] assms by (simp add: bytesRequired_le_iff)
  then show "list_all (\<lambda>x. length (rlp_enc x) \<le> 300) [RList (map uint_item vs)]"
    using uint_list_length [of vs] assms by (auto simp: rlp_enc_RList enc_list_def enc_hdr_def)
qed simp

lemma uint_message:
  assumes "length vs \<le> 50"
  shows "message (map append_unsigned vs) = Inr (concat (map rlp_enc (map uint_item vs)))"
  using message_items [of "map append_unsigned vs" "map uint_item vs"] uint_list_fits [OF assms]
  by (simp add: append_unsigned_emit)

lemma uint_packet:
  assumes "length vs \<le> 50"
  shows "qpos_packet (concat (map rlp_enc (map uint_item vs))) = Inr (packet (map uint_item vs))"
  unfolding packet_def
  using uint_list_length [of vs] assms by (intro qpos_packet_items uint_list_fits) auto

lemma uint_read:
  assumes "length vs \<le> 50" and "i < length vs"
  shows "msg_int (packet (map uint_item vs)) i = Inr (vs ! i mod 2 ^ 32)"
  unfolding packet_def
  using assms by (intro msg_int_items uint_packet_fits) simp_all

definition vote_request :: "int \<Rightarrow> int \<Rightarrow> bytes" where
  "vote_request v n = packet (map uint_item [qposVote, v, n])"

definition vote_answer :: "bool \<Rightarrow> bytes" where
  "vote_answer g = packet (map uint_item [qposVoteAck, if g then 1 else 0])"

definition heart :: "int \<Rightarrow> bytes" where
  "heart v = packet (map uint_item [qposHeart, v])"

definition int32 :: "int \<Rightarrow> bool" where
  "int32 v \<longleftrightarrow> 0 \<le> v \<and> v < 2 ^ 32"

lemma vote_request_read:
  "msg_int (vote_request v n) 0 = Inr 3"
  "int32 v \<Longrightarrow> msg_int (vote_request v n) (Suc 0) = Inr v"
  "int32 n \<Longrightarrow> msg_int (vote_request v n) 2 = Inr n"
  unfolding vote_request_def int32_def
  using uint_read [of "[qposVote, v, n]" 0] uint_read [of "[qposVote, v, n]" 1] uint_read [of "[qposVote, v, n]" 2]
  by simp_all

lemma vote_answer_read:
  "msg_int (vote_answer g) 0 = Inr 4" "msg_int (vote_answer g) (Suc 0) = Inr (if g then 1 else 0)"
  unfolding vote_answer_def
  using uint_read [of "[qposVoteAck, if g then 1 else 0]" 0] uint_read [of "[qposVoteAck, if g then 1 else 0]" 1]
  by simp_all

lemma heart_read: "msg_int (heart v) 0 = Inr 5" "int32 v \<Longrightarrow> msg_int (heart v) (Suc 0) = Inr v"
  unfolding heart_def int32_def using uint_read [of "[qposHeart, v]" 0] uint_read [of "[qposHeart, v]" 1]
  by simp_all

lemma election_messages:
  "with_message (message [append_unsigned 3, append_unsigned v, append_unsigned n]) (multicast peers i ids)
     = multicast peers i ids (concat (map rlp_enc (map uint_item [qposVote, v, n])))"
  "with_message (message [append_unsigned 4, append_unsigned g]) (send peers i p)
     = send peers i p (concat (map rlp_enc (map uint_item [qposVoteAck, g])))"
  "with_message (message [append_unsigned 5, append_unsigned v]) (multicast peers i ids)
     = multicast peers i ids (concat (map rlp_enc (map uint_item [qposHeart, v])))"
  using uint_message [of "[3, v, n]"] uint_message [of "[4, g]"] uint_message [of "[5, v]"]
  by (simp_all add: with_message_def)

lemma multicast_uint:
  assumes "length vs \<le> 50"
  shows "SendTo p b \<in> set (multicast peers i ids (concat (map rlp_enc (map uint_item vs))))
    \<longleftrightarrow> p \<in> set peers \<and> p \<in> ids \<and> p \<noteq> i \<and> b = packet (map uint_item vs)"
  using uint_packet [OF assms] by (auto simp: multicast_def packet_to_def)

subsection \<open>Each election handler on a packet\<close>

definition grants :: "qpos \<Rightarrow> int \<Rightarrow> bool" where
  "grants s v \<longleftrightarrow> m_currentView s < v"

definition after_request :: "clock \<Rightarrow> int \<Rightarrow> int \<Rightarrow> int \<Rightarrow> qpos \<Rightarrow> qpos" where
  "after_request t rnd v n s =
     (let s1 = s\<lparr>m_blockNumberRecv := max (m_blockNumberRecv s) n\<rparr> in
      if m_currentView s < v \<and> m_blockNumber s \<le> max (m_blockNumberRecv s) n
      then s1\<lparr>m_currentView := v, m_voteTimeOut := t 0 + QPOS_VOTE_TIMEOUT + rnd mod QPOS_HEART_TIMEOUT\<rparr>
      else s1)"

lemma interpret_request:
  assumes "p \<in> m_miners s" "int32 v" "int32 n"
  shows "qpos_interpret c peers t rnd p (vote_request v n) s = (after_request t rnd v n s,
     send peers (q_id s) p (concat (map rlp_enc (map uint_item [qposVoteAck, if grants s v then 1 else 0]))))"
proof -
  have "onVote peers t rnd p (vote_request v n) s = Inr (after_request t rnd v n s,
     send peers (q_id s) p (concat (map rlp_enc (map uint_item [qposVoteAck, if grants s v then 1 else 0]))))"
    using assms(2,3)
    by (simp add: onVote_def vote_request_read Let_def grants_def after_request_def election_messages max_def not_less)
  then show ?thesis
    using assms(1) by (simp add: qpos_interpret_def vote_request_read)
qed

lemma interpret_answer:
  assumes "p \<in> m_miners s" "finite (m_voted s)"
  shows "qpos_interpret c peers t rnd p (vote_answer g) s =
    (if g then s\<lparr>m_voted := insert p (m_voted s),
                 m_isLeader := (m_isLeader s \<or> card (m_miners s) div 2 < 1 + card (insert p (m_voted s)))\<rparr>
     else s, [])"
proof -
  have "onVoteAck p (vote_answer g) s = Inr (if g then s\<lparr>m_voted := insert p (m_voted s),
                 m_isLeader := (m_isLeader s \<or> card (m_miners s) div 2 < 1 + card (insert p (m_voted s)))\<rparr>
     else s, [])"
    by (auto simp: onVoteAck_def vote_answer_read Let_def nodeCount_def int_half intro!: qpos.equality)
  then show ?thesis
    using assms by (simp add: qpos_interpret_def vote_answer_read)
qed

lemma interpret_heart:
  assumes "p \<in> m_miners s" "int32 v"
  shows "qpos_interpret c peers t rnd p (heart v) s =
    (s\<lparr>m_isLeader := (m_isLeader s \<and> \<not> (m_currentView s < v \<or> v = m_currentView s \<and> q_id s < p)),
       m_currentView := v, m_voteTimeOut := t 0 + QPOS_VOTE_TIMEOUT\<rparr>, [])"
proof -
  have "onHeart t p (heart v) s = Inr (s\<lparr>m_isLeader := (m_isLeader s \<and> \<not> (m_currentView s < v \<or> v = m_currentView s \<and> q_id s < p)),
       m_currentView := v, m_voteTimeOut := t 0 + QPOS_VOTE_TIMEOUT\<rparr>, [])"
    using assms(2) by (auto simp: onHeart_def heart_read intro!: qpos.equality)
  then show ?thesis
    using assms(1) by (simp add: qpos_interpret_def heart_read)
qed

subsection \<open>Messages of the block vote\<close>

definition block_vote :: "int \<Rightarrow> sig \<Rightarrow> bytes \<Rightarrow> bytes" where
  "block_vote view sg b = packet [uint_item qposBlockVote, uint_item view, RStr sg, RStr b]"

definition block_vote_ack :: "bool \<Rightarrow> int \<Rightarrow> sig \<Rightarrow> node_id \<Rightarrow> bytes" where
  "block_vote_ack vote view sg i = packet [uint_item qposBlockVoteAck, uint_item (if vote then 1 else 0), uint_item view, RStr sg, RStr i]"

lemma packet_fits: "sum_list (map rlp_bound xs) < 2 ^ 59 \<Longrightarrow> rlp_fits (RList [RList xs])"
  by (rule rlp_fits_bound) simp

lemma uint_bound: "rlp_bound (uint_item v) \<le> 13"
proof -
  have "bytesRequired (nat (v mod 2 ^ 32)) \<le> 4"
    using nat_mod_2_32 [of v] by (simp add: bytesRequired_le_iff)
  then show ?thesis by (simp add: uint_item_def int_item_def)
qed

lemma block_vote_read:
  assumes "int32 view" "length sg = 65" "length b < 2 ^ 58"
  shows "msg_int (block_vote view sg b) 0 = Inr 1" "msg_int (block_vote view sg b) (Suc 0) = Inr view"
    "msg_bytes (block_vote view sg b) 2 = Inr sg" "msg_bytes (block_vote view sg b) 3 = Inr b"
proof -
  have f: "rlp_fits (RList [RList [uint_item qposBlockVote, uint_item view, RStr sg, RStr b]])"
    using uint_bound [of qposBlockVote] uint_bound [of view] assms by (intro packet_fits) simp
  show "msg_int (block_vote view sg b) 0 = Inr 1" "msg_int (block_vote view sg b) (Suc 0) = Inr view"
    "msg_bytes (block_vote view sg b) 2 = Inr sg" "msg_bytes (block_vote view sg b) 3 = Inr b"
    using msg_int_items [OF f, of 0 1] msg_int_items [OF f, of 1 view] msg_bytes_items [OF f, of 2 sg] msg_bytes_items [OF f, of 3 b] assms(1)
    by (simp_all add: block_vote_def packet_def int32_def)
qed

lemma block_vote_ack_read:
  assumes "int32 view" "length sg = 65" "length i = 64"
  shows "msg_int (block_vote_ack vote view sg i) 0 = Inr 2" "msg_int (block_vote_ack vote view sg i) (Suc 0) = Inr (if vote then 1 else 0)"
    "msg_int (block_vote_ack vote view sg i) 2 = Inr view"
    "msg_bytes (block_vote_ack vote view sg i) 3 = Inr sg" "msg_bytes (block_vote_ack vote view sg i) 4 = Inr i"
proof -
  have f: "rlp_fits (RList [RList [uint_item qposBlockVoteAck, uint_item (if vote then 1 else 0), uint_item view, RStr sg, RStr i]])"
    using uint_bound [of qposBlockVoteAck] uint_bound [of view] uint_bound [of "if vote then 1 else 0"] assms by (intro packet_fits) simp
  show "msg_int (block_vote_ack vote view sg i) 0 = Inr 2" "msg_int (block_vote_ack vote view sg i) (Suc 0) = Inr (if vote then 1 else 0)"
    "msg_int (block_vote_ack vote view sg i) 2 = Inr view"
    "msg_bytes (block_vote_ack vote view sg i) 3 = Inr sg" "msg_bytes (block_vote_ack vote view sg i) 4 = Inr i"
    using msg_int_items [OF f, of 0 2] msg_int_items [OF f, of 1 "if vote then 1 else 0"] msg_int_items [OF f, of 2 view]
      msg_bytes_items [OF f, of 3 sg] msg_bytes_items [OF f, of 4 i] assms(1)
    by (simp_all add: block_vote_ack_def packet_def int32_def)
qed

text \<open>A vote of a miner in the leader's view, with a signature that is right, is recorded and counted.\<close>

lemma interpret_block_ack:
  assumes "p \<in> m_miners s" "m_consensusState s = qposWaitingVote" "int32 (m_currentView s)" "length sg = 65" "length i = 64"
    and "parse_header c (m_blockBytes s) = Inr (h, hash)" "verify c p sg hash"
  shows "qpos_interpret c peers t rnd p (block_vote_ack vote (m_currentView s) sg i) s = voteBlockEnd c peers t
    (if vote then s\<lparr>m_idVoted := (m_idVoted s)(p \<mapsto> sg)\<rparr> else s\<lparr>m_idUnVoted := insert p (m_idUnVoted s)\<rparr>)"
proof -
  have "FixedHash 65 sg = sg" using assms(4) by (simp add: FixedHash_def)
  then have "onBlockVoteAck c peers t p (block_vote_ack vote (m_currentView s) sg i) s = Inr (voteBlockEnd c peers t
    (if vote then s\<lparr>m_idVoted := (m_idVoted s)(p \<mapsto> sg)\<rparr> else s\<lparr>m_idUnVoted := insert p (m_idUnVoted s)\<rparr>))"
    using assms(2,6,7) block_vote_ack_read [OF assms(3,4,5), of vote]
    by (simp add: onBlockVoteAck_def Let_def msgVerify_def del: fun_upd_apply)
  then show ?thesis
    using assms(1) block_vote_ack_read(1) [OF assms(3,4,5), of vote] by (simp add: qpos_interpret_def split: prod.split del: fun_upd_apply)
qed

text \<open>A proposal in the node's view for its next block is recorded with the node's own vote.\<close>

lemma interpret_block_vote:
  assumes "p \<in> m_miners s" "int32 (m_currentView s)" "length sg = 65" "length b < 2 ^ 58"
    and "parse_header c b = Inr (h, hash)" "verify c p sg hash" "m_number h = m_blockNumber s + 1"
  shows "fst (qpos_interpret c peers t rnd p (block_vote (m_currentView s) sg b) s) =
    s\<lparr>m_idUnVoted := {}, m_consensusTimeOut := t 1 + m_consensusTimeInterval s, m_blockBytes := b,
      m_idVoted := [p \<mapsto> sg, q_id s \<mapsto> e_sign c (q_id s) hash], m_voteTimeOut := t 0 + QPOS_VOTE_TIMEOUT\<rparr>"
proof -
  have "FixedHash 65 sg = sg" using assms(3) by (simp add: FixedHash_def)
  then have "\<exists>out. onBlockVote c peers t p (block_vote (m_currentView s) sg b) s = Inr (s\<lparr>m_idUnVoted := {},
      m_consensusTimeOut := t 1 + m_consensusTimeInterval s, m_blockBytes := b,
      m_idVoted := [p \<mapsto> sg, q_id s \<mapsto> e_sign c (q_id s) hash], m_voteTimeOut := t 0 + QPOS_VOTE_TIMEOUT\<rparr>, out)"
    using assms(5-7) block_vote_read [OF assms(2-4)]
    by (simp add: onBlockVote_def Let_def msgVerify_def del: fun_upd_apply)
  then show ?thesis
    using assms(1) block_vote_read(1) [OF assms(2-4)] by (auto simp: qpos_interpret_def simp del: fun_upd_apply)
qed

subsection \<open>The view along a run\<close>

text \<open>A heartbeat that brings a node to a view below \<open>v\<close>.\<close>

definition heart_below :: "int \<Rightarrow> qpos_event \<Rightarrow> bool" where
  "heart_below v e \<longleftrightarrow> (\<exists>peers t rnd p r w. e = Message peers t rnd p r \<and> msg_int r 0 = Inr qposHeart \<and> msg_int r 1 = Inr w \<and> w < v)"

lemma voteBlockEnd_view: "voteBlockEnd c peers t s = (s', out) \<Longrightarrow> m_currentView s' = m_currentView s"
  using voteBlockEnd_cases [of c peers t s] by (auto simp: broadBlock_def resetConfig_def)

lemma tick_view:
  assumes "tick c peers t s = (s', out)"
  shows "m_currentView s \<le> m_currentView s'"
proof -
  obtain s1 out1 where vt: "voteTick peers t s = (s1, out1)" by force
  then have 1: "m_currentView s \<le> m_currentView s1" using voteTick_cases [of peers t s] by auto
  have begin_view: "m_currentView s3 = m_currentView s2" if bb: "voteBlockBegin c peers u s2 = Inr (s3, out')" for u s2 s3 out'
  proof -
    obtain h hash where p: "parse_header c (m_blockBytes s2) = Inr (h, hash)"
      using bb by (cases "parse_header c (m_blockBytes s2)") (auto simp: voteBlockBegin_def)
    with bb show ?thesis by (auto simp: voteBlockBegin_def Let_def dest: voteBlockEnd_view split: if_splits)
  qed
  then have 2: "m_currentView s3 = m_currentView s2" if "generateSealBegin c peers u b s2 = Inr (s3, out')" for u b s2 s3 out'
    using that by (fastforce simp: generateSealBegin_def ebind_Inr_iff split: if_splits)
  from assms show ?thesis
    using 1 by (auto simp: tick_def vt Let_def resetConfig_def dest: 2 split: prod.splits option.splits sum.splits if_splits)
qed

lemma interpret_view:
  assumes "qpos_interpret c peers t rnd p r s = (s', out)" "v \<le> m_currentView s" "\<not> heart_below v (Message peers t rnd p r)"
  shows "v \<le> m_currentView s'"
proof (cases "msg_int r 0 = Inr qposHeart")
  case True
  have h: "v \<le> m_currentView s1" if "onHeart t p r s = Inr (s1, out1)" for s1 out1
    using that assms(3) True by (auto simp: onHeart_def ebind_Inr_iff heart_below_def not_less)
  show ?thesis
  proof (cases "p \<in> m_miners s")
    case True
    show ?thesis
    proof (cases "onHeart t p r s")
      case (Inr x)
      then show ?thesis using assms(1) h \<open>msg_int r 0 = Inr qposHeart\<close> \<open>p \<in> m_miners s\<close> by (cases x) (simp add: qpos_interpret_def)
    qed (use assms(1,2) \<open>msg_int r 0 = Inr qposHeart\<close> \<open>p \<in> m_miners s\<close> in \<open>simp add: qpos_interpret_def\<close>)
  qed (use assms(1,2) \<open>msg_int r 0 = Inr qposHeart\<close> in \<open>simp add: qpos_interpret_def\<close>)
next
  case False
  have "m_currentView s \<le> m_currentView s'" if "onBlockVote c peers t p r s = Inr (s', out)"
    using onBlockVote_cases [OF that] by auto
  moreover have "m_currentView s \<le> m_currentView s'" if "onBlockVoteAck c peers t p r s = Inr (s', out)"
    using onBlockVoteAck_cases [OF that] by (auto dest: voteBlockEnd_view)
  moreover have "m_currentView s \<le> m_currentView s'" if "onVote peers t rnd p r s = Inr (s', out)"
    using that by (auto simp: onVote_def ebind_Inr_iff Let_def)
  moreover have "m_currentView s \<le> m_currentView s'" if "onVoteAck p r s = Inr (s', out)"
    using that by (auto simp: onVoteAck_def ebind_Inr_iff Let_def split: if_splits)
  moreover have "m_currentView s \<le> m_currentView s'" if "onBroadBlock c r s = Inr (s', out)"
    using that by (auto simp: onBroadBlock_def ebind_Inr_iff)
  moreover have "s' = s \<or> onBlockVote c peers t p r s = Inr (s', out) \<or> onBlockVoteAck c peers t p r s = Inr (s', out)
       \<or> onVote peers t rnd p r s = Inr (s', out) \<or> onVoteAck p r s = Inr (s', out) \<or> onBroadBlock c r s = Inr (s', out)"
    using assms(1) False unfolding qpos_interpret_def Let_def by (simp split: sum.splits if_splits)
  ultimately show ?thesis using assms(2) by fastforce
qed

lemma handle_view:
  assumes "v \<le> m_currentView s" "\<not> heart_below v e"
  shows "v \<le> m_currentView (fst (qpos_handle c e s))"
proof (cases e)
  case (Tick peers t)
  then show ?thesis using tick_view [of c peers t s, OF prod.collapse [symmetric]] assms(1) by simp
next
  case (Message peers t rnd p r)
  then show ?thesis using interpret_view [of c peers t rnd p r s, OF prod.collapse [symmetric], of v] assms by simp
next
  case (ReportSelf t)
  then show ?thesis using assms(1) by (simp add: reportBlockSelf_state resetConfig_def)
qed (use assms in \<open>simp_all add: reportBlock_def generateSeal_def\<close>)

lemma after_view: "v \<le> m_currentView s \<Longrightarrow> \<forall>e \<in> set es. \<not> heart_below v e \<Longrightarrow> v \<le> m_currentView (qpos_after c es s)"
proof (induction es arbitrary: s)
  case (Cons e es)
  then show ?case using handle_view [of v s e c] by (simp add: qpos_after_def)
qed (simp add: qpos_after_def)

end
