(* ===== verification/Qpos_Votes.thy ===== *)
theory Qpos_Votes
  imports Qpos_Election
begin

section \<open>Recorded votes and sealed blocks\<close>

text \<open>
  Which events keep the recorded votes valid for the block in \<open>m_blockBytes\<close>, and what holds whenever
  a node hands out a sealed block.
\<close>

lemma votes_valid_update [simp]:
  "votes_valid c (s\<lparr>m_consensusTimeOut := n\<rparr>) = votes_valid c s"
  "votes_valid c (s\<lparr>m_consensusState := st\<rparr>) = votes_valid c s"
  "votes_valid c (s\<lparr>m_voteTimeOut := n\<rparr>) = votes_valid c s"
  "votes_valid c (s\<lparr>m_currentView := n\<rparr>) = votes_valid c s"
  "votes_valid c (s\<lparr>m_blocks := q\<rparr>) = votes_valid c s"
  "votes_valid c (s\<lparr>m_isLeader := l\<rparr>) = votes_valid c s"
  "votes_valid c (s\<lparr>m_blockNumber := n\<rparr>) = votes_valid c s"
  "votes_valid c (s\<lparr>m_blockNumberRecv := n\<rparr>) = votes_valid c s"
  "votes_valid c (s\<lparr>m_blockReport := n\<rparr>) = votes_valid c s"
  "votes_valid c (s\<lparr>m_voted := A\<rparr>) = votes_valid c s"
  "votes_valid c (s\<lparr>m_idUnVoted := A\<rparr>) = votes_valid c s"
  "votes_valid c (s\<lparr>q_nodes := nc\<rparr>) = votes_valid c s"
  by (simp_all add: votes_valid_def)

lemma votes_valid_reset [simp]: "votes_valid c (resetConfig t s)"
  by (simp add: votes_valid_def resetConfig_def)

lemma votes_valid_add:
  assumes "votes_valid c s" "msgVerify c p (m_blockBytes s) sg = Inr True"
  shows "votes_valid c (s\<lparr>m_idVoted := (m_idVoted s)(p \<mapsto> sg)\<rparr>)"
  using assms by (auto simp: votes_valid_def msgVerify_def ebind_Inr_iff)

lemma votes_valid_two:
  assumes "parse_header c b = Inr (h, hash)" "msgVerify c p b sg = Inr True" "verify c i sg' hash"
  shows "votes_valid c (s\<lparr>m_blockBytes := b, m_idVoted := [p \<mapsto> sg, i \<mapsto> sg']\<rparr>)"
  using assms by (auto simp: votes_valid_def msgVerify_def ebind_Inr_iff)

lemma voteBlockEnd_votes: "votes_valid c s \<Longrightarrow> voteBlockEnd c peers t s = (s', out) \<Longrightarrow> votes_valid c s'"
  using voteBlockEnd_cases [of c peers t s] by (auto simp: broadBlock_def)

text \<open>A leader about to propose with votes of others left over from an earlier block.\<close>

definition leftover_votes :: "qpos \<Rightarrow> bool" where
  "leftover_votes s \<longleftrightarrow> m_isLeader s \<and> m_consensusState s = qposInitial \<and> \<not> dom (m_idVoted s) \<subseteq> {q_id s}"

lemma voteBlockBegin_votes:
  assumes "sign_recovers c (q_id s)" "dom (m_idVoted s) \<subseteq> {q_id s}" "voteBlockBegin c peers t s = Inr (s', out)"
  shows "votes_valid c s'"
proof -
  obtain h hash where p: "parse_header c (m_blockBytes s) = Inr (h, hash)"
    using assms(3) by (cases "parse_header c (m_blockBytes s)") (auto simp: voteBlockBegin_def)
  define s1 where "s1 = s\<lparr>m_idVoted := (m_idVoted s)(q_id s \<mapsto> e_sign c (q_id s) hash),
      m_consensusTimeOut := t 0 + m_consensusTimeInterval s, m_consensusState := qposWaitingVote\<rparr>"
  have "(m_idVoted s)(q_id s \<mapsto> e_sign c (q_id s) hash) = [q_id s \<mapsto> e_sign c (q_id s) hash]"
    using assms(2) by (auto simp: fun_eq_iff)
  then have v: "votes_valid c s1"
    unfolding s1_def using p verify_sign [OF assms(1)] by (simp add: votes_valid_def)
  show ?thesis
  proof (cases "1 \<ge> card (m_miners s)")
    case True
    then have "voteBlockEnd c peers (\<lambda>k. t (k + 1)) s1 = (s', out)"
      using assms(3) p unfolding s1_def by (simp add: voteBlockBegin_def Let_def)
    with v show ?thesis by (rule voteBlockEnd_votes)
  next
    case False
    then have "s' = s1\<lparr>m_voteTimeOut := t 1 + QPOS_HEART_TIMEOUT\<rparr>"
      using assms(3) p unfolding s1_def by (simp add: voteBlockBegin_def Let_def)
    with v show ?thesis by simp
  qed
qed

lemma generateSealBegin_votes:
  assumes "votes_valid c s" "sign_recovers c (q_id s)" "dom (m_idVoted s) \<subseteq> {q_id s}"
    and "generateSealBegin c peers t b s = Inr (s', out)"
  shows "votes_valid c s'"
proof -
  have "s' = s \<or> voteBlockBegin c peers t (s\<lparr>m_blockBytes := b\<rparr>) = Inr (s', out)"
    using assms(4) by (auto simp: generateSealBegin_def ebind_Inr_iff split: if_splits)
  with assms(1-3) voteBlockBegin_votes [of c "s\<lparr>m_blockBytes := b\<rparr>"] show ?thesis by auto
qed

lemma tick_votes:
  assumes "votes_valid c s" "sign_recovers c (q_id s)" "\<not> leftover_votes s" "tick c peers t s = (s', out)"
  shows "votes_valid c s'"
proof -
  obtain s1 out1 where vt: "voteTick peers t s = (s1, out1)" by force
  have 1: "votes_valid c s1" "q_id s1 = q_id s" "m_idVoted s1 = m_idVoted s" "m_isLeader s1 = m_isLeader s"
    "m_consensusState s1 = m_consensusState s"
    using voteTick_cases [of peers t s] vt assms(1) by auto
  have 2: "votes_valid c s'" if "m_isLeader s1" "m_consensusState s1 = qposInitial"
    "generateSealBegin c peers u b (s1\<lparr>m_blocks := q\<rparr>) = Inr (s', out')" for u b q out'
    using that 1 assms(2,3) by (intro generateSealBegin_votes [OF _ _ _ that(3)]) (auto simp: leftover_votes_def)
  from assms(4) show ?thesis
    using 1(1) by (auto simp: tick_def vt Let_def dest: 2 split: prod.splits option.splits sum.splits if_splits)
qed

lemma qpos_interpret_votes:
  assumes "votes_valid c s" "sign_recovers c (q_id s)" "qpos_interpret c peers t rnd p r s = (s', out)"
  shows "votes_valid c s'"
proof -
  have "votes_valid c s'" if "onBlockVote c peers t p r s = Inr (s', out)"
    using onBlockVote_cases [OF that] assms(1) votes_valid_two verify_sign [OF assms(2)]
    by (elim disjE exE conjE) (simp_all del: fun_upd_apply)
  moreover have "votes_valid c s'" if "onBlockVoteAck c peers t p r s = Inr (s', out)"
    using onBlockVoteAck_cases [OF that] assms(1) votes_valid_add
    by (elim disjE exE conjE) (auto simp del: fun_upd_apply intro: voteBlockEnd_votes [rotated])
  moreover have "votes_valid c s'" if "onHeart t p r s = Inr (s', out)"
    using that assms(1) by (auto simp: onHeart_def ebind_Inr_iff)
  moreover have "votes_valid c s'" if "onVote peers t rnd p r s = Inr (s', out)"
    using that assms(1) by (auto simp: onVote_def ebind_Inr_iff Let_def)
  moreover have "votes_valid c s'" if "onVoteAck p r s = Inr (s', out)"
    using that assms(1) by (auto simp: onVoteAck_def ebind_Inr_iff Let_def split: if_splits)
  moreover have "votes_valid c s'" if "onBroadBlock c r s = Inr (s', out)"
    using that assms(1) by (auto simp: onBroadBlock_def ebind_Inr_iff)
  ultimately show ?thesis using qpos_interpret_cases [OF assms(3)] assms(1) by blast
qed

text \<open>The events that can make a recorded vote invalid: a leader's tick that takes a block to propose over leftover votes.\<close>

definition proposes_over :: "qpos_event \<Rightarrow> qpos \<Rightarrow> bool" where
  "proposes_over e s \<longleftrightarrow> (\<exists>peers t. e = Tick peers t) \<and> leftover_votes s \<and> m_blocks s \<noteq> []"

lemma tick_idle_votes:
  assumes "votes_valid c s" "m_blocks s = []" "tick c peers t s = (s', out)"
  shows "votes_valid c s'"
proof -
  obtain s1 out1 where vt: "voteTick peers t s = (s1, out1)" by force
  have 1: "votes_valid c s1" "m_blocks s1 = []" using voteTick_cases [of peers t s] vt assms(1,2) by auto
  from assms(3) show ?thesis
    using 1 by (auto simp: tick_def vt Let_def tryPop_def split: if_splits)
qed

lemma handle_votes:
  assumes "votes_valid c s" "sign_recovers c (q_id s)" "\<not> proposes_over e s" "qpos_handle c e s = (s', out)"
  shows "votes_valid c s'"
proof (cases e)
  case (ReportSelf t)
  then have "s' = fst (reportBlockSelf t s)" using assms(4) by simp
  then show ?thesis by (simp add: reportBlockSelf_state)
next
  case (Tick peers t)
  then have "\<not> leftover_votes s \<or> m_blocks s = []" using assms(3) by (simp add: proposes_over_def)
  with Tick assms show ?thesis by (auto intro: tick_votes tick_idle_votes)
next
  case (Message peers t rnd p r)
  with assms show ?thesis by (simp add: qpos_interpret_votes)
qed (use assms in \<open>auto simp: reportBlock_def generateSeal_def split: if_splits\<close>)

subsection \<open>Handing out a sealed block\<close>

lemma no_seal_message [simp]:
  "SealGenerated b x \<notin> set (with_message m (multicast peers i ids))"
  "SealGenerated b x \<notin> set (with_message m (send peers i p))"
  "SealGenerated b x \<notin> set (with_message m (broadcast peers))"
  by (auto simp: with_message_def multicast_def send_def broadcast_def packet_to_def
      split: sum.splits if_splits)

definition sealed_by_majority :: "crypto \<Rightarrow> bytes \<Rightarrow> qpos \<Rightarrow> bool" where
  "sealed_by_majority c b s \<longleftrightarrow>
     m_consensusState s = qposFinished \<and> sealed_block c s = Inr b
     \<and> (m_miners s = {} \<or> card (m_miners s) div 2 < card (dom (m_idVoted s)))"

lemma sealed_block_state [simp]: "sealed_block c (s\<lparr>m_consensusState := st\<rparr>) = sealed_block c s"
  by (simp add: sealed_block_def sign_info_def voted_list_def)

lemma voteBlockEnd_seal:
  assumes "finite (m_miners s)" "voteBlockEnd c peers t s = (s', out)" "SealGenerated b True \<in> set out"
  shows "sealed_by_majority c b s'"
  using voteBlockEnd_cases [of c peers t s] assms
  by (auto simp: broadBlock_def sealed_by_majority_def nodeCount_def int_half split: if_splits)

lemma voteBlockBegin_seal:
  assumes "finite (m_miners s)" "voteBlockBegin c peers t s = Inr (s', out)" "SealGenerated b True \<in> set out"
  shows "sealed_by_majority c b s'"
proof -
  obtain h hash where p: "parse_header c (m_blockBytes s) = Inr (h, hash)"
    using assms(2) by (cases "parse_header c (m_blockBytes s)") (auto simp: voteBlockBegin_def)
  define s1 where "s1 = s\<lparr>m_idVoted := (m_idVoted s)(q_id s \<mapsto> e_sign c (q_id s) hash),
      m_consensusTimeOut := t 0 + m_consensusTimeInterval s, m_consensusState := qposWaitingVote\<rparr>"
  have "voteBlockEnd c peers (\<lambda>k. t (k + 1)) s1 = (s', out)"
    using assms(2,3) p unfolding s1_def by (auto simp: voteBlockBegin_def Let_def split: if_splits)
  then show ?thesis using assms(1,3) by (intro voteBlockEnd_seal [of s1]) (simp_all add: s1_def)
qed

lemma tick_seal:
  assumes "finite (m_miners s)" "tick c peers t s = (s', out)" "SealGenerated b True \<in> set out"
  shows "sealed_by_majority c b s'"
proof -
  obtain s1 out1 where vt: "voteTick peers t s = (s1, out1)" by force
  then have 1: "finite (m_miners s1)" "SealGenerated b True \<notin> set out1"
    using assms(1) by (auto simp: voteTick_def Let_def split: if_splits)
  have 2: "sealed_by_majority c b s'" if "generateSealBegin c peers u d (s1\<lparr>m_blocks := q\<rparr>) = Inr (s', out2)"
      "SealGenerated b True \<in> set out2" for u d q out2
    using that 1(1) voteBlockBegin_seal [of "s1\<lparr>m_blocks := q, m_blockBytes := d\<rparr>" c peers u s' out2 b]
    by (auto simp: generateSealBegin_def ebind_Inr_iff split: if_splits)
  from assms(2,3) show ?thesis
    using 1(2) by (auto simp: tick_def vt Let_def dest: 2 split: prod.splits option.splits sum.splits if_splits)
qed

lemma qpos_interpret_seal:
  assumes "finite (m_miners s)" "qpos_interpret c peers t rnd p r s = (s', out)" "SealGenerated b True \<in> set out"
  shows "sealed_by_majority c b s'"
proof -
  have "\<not> onBlockVote c peers t p r s = Inr (s', out)" "\<not> onHeart t p r s = Inr (s', out)"
    "\<not> onVote peers t rnd p r s = Inr (s', out)" "\<not> onVoteAck p r s = Inr (s', out)"
    "\<not> onBroadBlock c r s = Inr (s', out)"
    using assms(3)
    by (auto simp: onBlockVote_def onHeart_def onVote_def onVoteAck_def onBroadBlock_def ebind_Inr_iff Let_def
        split: if_splits)
  with qpos_interpret_cases [OF assms(2)] assms(3) have "onBlockVoteAck c peers t p r s = Inr (s', out)" by auto
  from onBlockVoteAck_cases [OF this] assms(3) obtain s1 where
    "voteBlockEnd c peers t s1 = (s', out)" "m_miners s1 = m_miners s" by fastforce
  with assms(1,3) show ?thesis by (metis voteBlockEnd_seal)
qed

lemma qpos_handle_seal:
  assumes "finite (m_miners s)" "qpos_handle c e s = (s', out)" "SealGenerated b True \<in> set out"
  shows "sealed_by_majority c b s'"
proof (cases e)
  case (Tick peers t)
  with assms show ?thesis by (simp add: tick_seal)
next
  case (Message peers t rnd p r)
  with assms show ?thesis by (simp add: qpos_interpret_seal)
next
  case (ReportSelf t)
  then have "out = snd (reportBlockSelf t s)" using assms(2) by simp
  moreover have "SealGenerated b True \<notin> set (addPeers i m)" for i m
    by (auto simp: addPeers_def split: option.splits if_splits)
  ultimately show ?thesis using assms(3)
    by (auto simp: reportBlockSelf_def Let_def split: prod.splits option.splits if_splits)
qed (use assms in \<open>auto simp: reportBlock_def generateSeal_def split: if_splits\<close>)

subsection \<open>A node alone\<close>

text \<open>A leader that is the only miner, or has no miners, seals a queued block within one tick.\<close>

definition ready_alone :: "qpos \<Rightarrow> bool" where
  "ready_alone s \<longleftrightarrow> m_isLeader s \<and> m_consensusState s = qposInitial \<and> m_miners s \<subseteq> {q_id s}
     \<and> m_idUnVoted s = {} \<and> dom (m_idVoted s) \<subseteq> {q_id s}"

definition own_cert :: "crypto \<Rightarrow> node_id \<Rightarrow> block_header \<Rightarrow> rlp_item" where
  "own_cert c i h = cert_item i [(i, e_sign c i (seal_hash c h))]"

lemma sole_vote_seals:
  assumes "header_ok h seals" "rlp_fits (RList (block_items h seals txs uncles @ [own_cert c (q_id s) h]))"
    and "m_blockBytes s = rlp_enc (RList (block_items h seals txs uncles))"
    and "m_idVoted s = [q_id s \<mapsto> e_sign c (q_id s) (seal_hash c h)]" "m_idUnVoted s = {}" "m_miners s \<subseteq> {q_id s}"
  shows "voteBlockEnd c peers t s
    = broadBlock peers (rlp_enc (RList (block_items h seals txs uncles @ [own_cert c (q_id s) h]))) s"
proof -
  have info: "info_item s = own_cert c (q_id s) h"
    by (simp add: info_item_cert own_cert_def voted_list_def assms(4))
  have "m_miners s = {} \<or> m_miners s = {q_id s}" using assms(6) by blast
  then show ?thesis
    using sealed_block_enc [OF assms(1,3), of c] assms(2) assms(4,5)
    by (auto simp: info voteBlockEnd_def nodeCount_def)
qed

lemma tick_alone:
  assumes ready: "ready_alone s" and q: "m_blocks s = rlp_enc (RList (block_items h seals txs uncles)) # q"
    and hdr: "header_ok h seals" "m_number h = m_blockNumber s + 1"
    and fits: "rlp_fits (RList (block_items h seals txs uncles @ [own_cert c (q_id s) h]))"
  shows "\<exists>s' out. tick c peers t s = (s', out)
    \<and> SealGenerated (rlp_enc (RList (block_items h seals txs uncles @ [own_cert c (q_id s) h]))) True \<in> set out
    \<and> m_blocks s' = q \<and> m_miners s' = m_miners s \<and> q_id s' = q_id s
    \<and> m_blockBytes s' = rlp_enc (RList (block_items h seals txs uncles))
    \<and> m_idVoted s' = [q_id s \<mapsto> e_sign c (q_id s) (seal_hash c h)]"
proof -
  let ?b = "rlp_enc (RList (block_items h seals txs uncles))"
  obtain s1 out1 where vt: "voteTick peers t s = (s1, out1)" by force
  then have s1: "m_blocks s1 = m_blocks s" "m_isLeader s1" "m_consensusState s1 = qposInitial" "q_id s1 = q_id s"
    "m_miners s1 = m_miners s" "m_idUnVoted s1 = {}" "m_idVoted s1 = m_idVoted s" "m_blockNumber s1 = m_blockNumber s"
    using ready by (auto simp: voteTick_def ready_alone_def Let_def split: if_splits)
  have fx: "rlp_fits (RList (block_items h seals txs uncles))" using rlp_fits_append [OF fits] .
  obtain h' where p: "parse_header c ?b = Inr (h', seal_hash c h)"
    using parse_header_enc [OF hdr(1), of txs uncles "[]" c] fx by auto
  have bh: "\<exists>h'. BlockHeader (e_sha3 c) ?b BlockData zero_hash = Inr h' \<and> m_number h' = m_number h"
    using BlockHeader_enc [OF hdr(1), of txs uncles "[]"] fx by auto
  have one: "card (m_miners s) \<le> 1"
    using ready by (metis card.empty card.insert card_mono finite.emptyI finite.insertI insert_absorb
        ready_alone_def empty_iff One_nat_def)
  have vd: "(m_idVoted s)(q_id s \<mapsto> x) = [q_id s \<mapsto> x]" for x
    using ready by (auto simp: ready_alone_def fun_eq_iff)
  define s2 where "s2 = s1\<lparr>m_blocks := q, m_blockBytes := ?b,
      m_idVoted := [q_id s \<mapsto> e_sign c (q_id s) (seal_hash c h)],
      m_consensusTimeOut := t 2 + m_consensusTimeInterval s1, m_consensusState := qposWaitingVote\<rparr>"
  have "generateSealBegin c peers (\<lambda>k. t (k + 2)) ?b (s1\<lparr>m_blocks := q\<rparr>) = Inr (voteBlockEnd c peers (\<lambda>k. t (k + 1 + 2)) s2)"
    using bh p one hdr(2) s1 by (auto simp: generateSealBegin_def voteBlockBegin_def Let_def s2_def vd numeral_2_eq_2)
  moreover have "voteBlockEnd c peers u s2
      = broadBlock peers (rlp_enc (RList (block_items h seals txs uncles @ [own_cert c (q_id s) h]))) s2" for u
    using sole_vote_seals [OF hdr(1), of txs uncles c s2 peers u] fits s1 ready by (simp add: s2_def ready_alone_def)
  moreover have "?b \<noteq> []" by simp
  ultimately show ?thesis
    using s1 q by (simp add: tick_def vt tryPop_def Let_def broadBlock_def s2_def)
qed

subsection \<open>Proposing over leftover votes\<close>

lemma tick_proposes:
  assumes hdr: "header_ok h seals" "rlp_fits (RList (block_items h seals txs uncles))" "m_number h = m_blockNumber s + 1"
    and s: "1 < card (m_miners s)" "m_isLeader s" "m_consensusState s = qposInitial"
      "m_blocks s = rlp_enc (RList (block_items h seals txs uncles)) # q"
  shows "\<exists>s' out. tick c peers t s = (s', out)
    \<and> m_idVoted s' = (m_idVoted s)(q_id s \<mapsto> e_sign c (q_id s) (seal_hash c h)) \<and> m_idUnVoted s' = m_idUnVoted s
    \<and> m_blockBytes s' = rlp_enc (RList (block_items h seals txs uncles)) \<and> m_miners s' = m_miners s
    \<and> q_id s' = q_id s \<and> m_consensusState s' = qposWaitingVote \<and> m_currentView s' = m_currentView s \<and> m_isLeader s'"
proof -
  let ?b = "rlp_enc (RList (block_items h seals txs uncles))"
  obtain h' where p: "parse_header c ?b = Inr (h', seal_hash c h)"
    using parse_header_enc [OF hdr(1), of txs uncles "[]" c] hdr(2) by auto
  obtain h2 where h2: "BlockHeader (e_sha3 c) ?b BlockData zero_hash = Inr h2" "m_number h2 = m_number h"
    using BlockHeader_enc [OF hdr(1), of txs uncles "[]"] hdr(2) by auto
  obtain s1 out1 where vt: "voteTick peers t s = (s1, out1)" by force
  then have s1: "\<exists>x. s1 = s\<lparr>m_voteTimeOut := x\<rparr>" using voteTick_cases [of peers t s] s(2) by (auto intro: exI [of _ "m_voteTimeOut s"])
  have "?b \<noteq> []" by simp
  then show ?thesis
    using p h2 hdr(3) s s1 by (auto simp: tick_def vt Let_def tryPop_def generateSealBegin_def voteBlockBegin_def)
qed

text \<open>
  One vote left over from an earlier block and the leader's own make two of three, and a vote against, which
  is a valid answer, completes the count.
\<close>

lemma stale_seal_rejected:
  assumes hdr: "header_ok h seals" "strToNode parse (nodesAt (m_number h - 1)) = Inr (m_miners s)"
    and miners: "m_miners s = {i, v, p}" "i \<noteq> v" "i \<noteq> p" "v \<noteq> p" "q_id s = i"
    and s: "m_blockBytes s = rlp_enc (RList (block_items h seals txs uncles))" "m_idUnVoted s = {p}"
      "m_idVoted s = [v \<mapsto> sg, i \<mapsto> e_sign c i (seal_hash c h)]" "\<not> verify c v sg (seal_hash c h)"
    and len: "length v = 64" "length sg = 65" "length i = 64" "length (e_sign c i (seal_hash c h)) = 65"
    and fits: "rlp_fits (RList (block_items h seals txs uncles
        @ [cert_item i (map (\<lambda>j. (j, if j = v then sg else e_sign c i (seal_hash c h))) (sorted_list_of_set {i, v}))]))"
  shows "\<exists>b h'. voteBlockEnd c peers t s = broadBlock peers b s \<and> BlockHeader (e_sha3 c) b BlockData zero_hash = Inr h'
    \<and> checkBlockSign c parse nodesAt h' b = Some (Inr False)"
proof -
  have c3: "card (m_miners s) = 3" using miners by simp
  have dom: "dom (m_idVoted s) = {i, v}" using s(3) by auto
  have vl: "voted_list s = map (\<lambda>j. (j, if j = v then sg else e_sign c i (seal_hash c h))) (sorted_list_of_set {i, v})"
    unfolding voted_list_def dom using s(3) miners(2) by simp
  have "valid_signers c (seal_hash c h) (m_miners s) (voted_list s) \<subseteq> {i}"
    using s(3,4) voted_list_set [of s] dom by (auto simp: valid_signers_def split: if_splits)
  then have "card (valid_signers c (seal_hash c h) (m_miners s) (voted_list s)) \<le> 1"
    using card_mono [of "{i}"] by fastforce
  then have few: "\<not> quorum (m_miners s) \<le> card (valid_signers c (seal_hash c h) (m_miners s) (voted_list s))"
    by (simp add: quorum_def c3)
  have f1: "rlp_fits (RList (block_items h seals txs uncles @ [info_item s]))"
    unfolding info_item_cert vl using fits miners(5) by simp
  have f2: "length j = 64 \<and> length sg' = 65" if "m_idVoted s j = Some sg'" for j sg'
    using that s(3) len by (auto split: if_splits)
  have fin: "finite (dom (m_idVoted s))" unfolding dom by simp
  from sealed_block_checked [where c = c and nodesAt = nodesAt, OF hdr(1) s(1) f1 fin f2 hdr(2)] few miners(1)
  obtain b h' where b: "sealed_block c s = Inr b" "BlockHeader (e_sha3 c) b BlockData zero_hash = Inr h'"
    "checkBlockSign c parse nodesAt h' b = Some (Inr False)"
    by auto
  have "voteBlockEnd c peers t s = broadBlock peers b s"
    by (rule voteBlockEnd_seals [OF _ _ _ b(1)]) (use c3 s dom miners in \<open>auto simp: nodeCount_def quorum_def\<close>)
  with b show ?thesis by blast
qed

lemma stale_vote_counted:
  assumes hdr: "header_ok h seals" "m_number h = m_blockNumber s + 1"
    and miners: "m_miners s = {q_id s, v, p}" "q_id s \<noteq> v" "q_id s \<noteq> p" "v \<noteq> p"
      "strToNode parse (nodesAt (m_blockNumber s)) = Inr (m_miners s)"
    and leader: "m_isLeader s" "m_consensusState s = qposInitial" "m_blocks s = rlp_enc (RList (block_items h seals txs uncles)) # q"
    and votes: "m_idVoted s = [v \<mapsto> sg, q_id s \<mapsto> sg0]" "m_idUnVoted s = {}" "\<not> verify c v sg (seal_hash c h)"
    and ack: "verify c p sgp (seal_hash c h)" "length sgp = 65" "int32 (m_currentView s)"
    and len: "length v = 64" "length sg = 65" "length (q_id s) = 64" "length (e_sign c (q_id s) (seal_hash c h)) = 65"
    and fits: "rlp_fits (RList (block_items h seals txs uncles
        @ [cert_item (q_id s) (map (\<lambda>i. (i, if i = v then sg else e_sign c (q_id s) (seal_hash c h)))
             (sorted_list_of_set {q_id s, v}))]))"
  shows "\<exists>s1 out1 s2 out2 b h'. tick c peers t s = (s1, out1)
    \<and> qpos_interpret c peers t' rnd p (block_vote_ack False (m_currentView s) sgp (q_id s)) s1 = (s2, out2)
    \<and> SealGenerated b True \<in> set out2 \<and> BlockHeader (e_sha3 c) b BlockData zero_hash = Inr h'
    \<and> checkBlockSign c parse nodesAt h' b = Some (Inr False)"
proof -
  have c3: "card (m_miners s) = 3" using miners by simp
  have fb: "rlp_fits (RList (block_items h seals txs uncles))" using rlp_fits_append [OF fits] .
  obtain s1 out where g: "tick c peers t s = (s1, out)"
    and s1: "m_idVoted s1 = [v \<mapsto> sg, q_id s \<mapsto> e_sign c (q_id s) (seal_hash c h)]" "m_idUnVoted s1 = {}"
      "m_blockBytes s1 = rlp_enc (RList (block_items h seals txs uncles))" "m_miners s1 = m_miners s" "q_id s1 = q_id s"
      "m_consensusState s1 = qposWaitingVote" "m_currentView s1 = m_currentView s"
    using tick_proposes [OF hdr(1) fb hdr(2) _ leader, of c peers t] c3 votes(1,2) by auto
  obtain h2 where ph: "parse_header c (m_blockBytes s1) = Inr (h2, seal_hash c h)"
    using parse_header_enc [OF hdr(1), of txs uncles "[]" c] fb s1(3) by auto
  let ?s = "s1\<lparr>m_idUnVoted := {p}\<rparr>"
  have run: "qpos_interpret c peers t' rnd p (block_vote_ack False (m_currentView s) sgp (q_id s)) s1 = voteBlockEnd c peers t' ?s"
    using interpret_block_ack [of p s1 sgp "q_id s" c h2 "seal_hash c h" peers t' rnd False] ph ack len(3) s1 miners(1) by simp
  have js: "strToNode parse (nodesAt (m_number h - 1)) = Inr (m_miners ?s)" using miners(5) hdr(2) s1(4) by simp
  obtain b h' where b: "voteBlockEnd c peers t' ?s = broadBlock peers b ?s" "BlockHeader (e_sha3 c) b BlockData zero_hash = Inr h'"
    "checkBlockSign c parse nodesAt h' b = Some (Inr False)"
    using stale_seal_rejected [where nodesAt = nodesAt, OF hdr(1) js _ miners(2-4) _ _ _ _ votes(3) len fits, of peers t'] s1 miners(1) by auto
  then have "\<exists>s2 out2. qpos_interpret c peers t' rnd p (block_vote_ack False (m_currentView s) sgp (q_id s)) s1 = (s2, out2) \<and> SealGenerated b True \<in> set out2"
    using run by (simp add: broadBlock_def)
  with g b(2,3) show ?thesis by blast
qed

end
