(* ===== verification/Qpos_Properties.thy ===== *)
theory Qpos_Properties
  imports Qpos_Votes
begin

section \<open>Properties of the consensus\<close>

text \<open>
  The theorems about the consensus, each with a run of the model on concrete nodes: three miners, a
  signature scheme in which a signature is the signer's identity with one byte appended, and the
  small header of the block theory.
\<close>

subsection \<open>Concrete nodes\<close>

definition toy :: crypto where
  "toy = \<lparr>e_sha3 = (\<lambda>b. replicate 32 1), e_recover = (\<lambda>sg h. take 64 sg), e_sign = (\<lambda>p h. p @ [0])\<rparr>"

definition node :: "byte \<Rightarrow> node_id" where
  "node k = replicate 64 k"

lemma length_node [simp]: "length (node k) = 64"
  by (simp add: node_def)

lemma node_eq [simp]: "node j = node k \<longleftrightarrow> j = k"
  by (simp add: node_def)

lemma toy_sign: "length p = 64 \<Longrightarrow> hash_set p \<Longrightarrow> sign_recovers toy p"
  by (simp add: sign_recovers_def toy_def)

lemma node_sign: "k \<noteq> 0 \<Longrightarrow> sign_recovers toy (node k)"
  by (rule toy_sign) (simp_all add: node_def hash_set_def numeral_eq_Suc)

definition node_js :: "node_id \<Rightarrow> js" where
  "node_js i = JObj [(''id'', JStr (toHex i ''''))]"

definition nodes_json :: "node_id list \<Rightarrow> string \<Rightarrow> js option" where
  "nodes_json ids str = Some (JArr (map node_js ids))"

lemma insert_nodes_ids:
  "\<forall>i \<in> set ids. length i = 64 \<Longrightarrow> \<exists>m'. insert_nodes (map node_js ids) m = Inr m' \<and> dom m' = dom m \<union> set ids"
proof (induction ids arbitrary: m)
  case (Cons i ids)
  let ?m = "if m i = None then m(i \<mapsto> Map.empty) else m"
  have "insert_nodes (map node_js (i # ids)) m = insert_nodes (map node_js ids) ?m"
    using Cons.prems by (simp add: node_of_js_def node_js_def FixedHash_hex_def FixedHash_def)
  moreover have "dom ?m = insert i (dom m)" by auto
  ultimately show ?case using Cons.IH [of ?m] Cons.prems by auto
qed simp

lemma strToNode_ids: "\<forall>i \<in> set ids. length i = 64 \<Longrightarrow> strToNode (nodes_json ids) str = Inr (set ids)"
  using insert_nodes_ids [of ids Map.empty]
  by (auto simp: strToNode_def strToQpos_def nodes_json_def)

lemma pair_items_bound: "sized l \<Longrightarrow> sum_list (map rlp_bound (map pair_item l)) = 156 * length l"
  by (induction l) (auto simp: sized_def pair_item_def)

lemma sample_header_bound: "rlp_bound (RList (header_items sample_header @ [RStr [7]])) < 3000"
  by (simp add: header_items_def sample_header_def BlockHeader0_def int_item_def bytesRequired.simps)

lemma sample_block_fits:
  assumes "length owner \<le> 64" "sized l" "length l \<le> 100"
  shows "rlp_fits (RList (block_items sample_header [RStr [7]] [] [] @ [cert_item owner l]))"
proof (rule rlp_fits_bound)
  show "rlp_bound (RList (block_items sample_header [RStr [7]] [] [] @ [cert_item owner l])) < 2 ^ 60"
    using assms sample_header_bound pair_items_bound [OF assms(2)] by (simp add: block_items_def cert_item_def)
qed

lemma sample_cert_ok:
  assumes "length owner \<le> 64" "sized l" "length l \<le> 100"
  shows "cert_ok toy sample_header [RStr [7]] [] [] owner l"
proof -
  have "memo_ok (e_sha3 toy) [RStr [7]] sample_header" by (simp add: memo_ok_def sample_header_def BlockHeader0_def)
  then show ?thesis using sample_block_fits [OF assms] sample_header_ok assms(2) by (simp add: cert_ok_def)
qed

definition sign_list :: "crypto \<Rightarrow> bytes \<Rightarrow> node_id list \<Rightarrow> (node_id \<times> sig) list" where
  "sign_list c hash ids = map (\<lambda>i. (i, e_sign c i hash)) ids"

lemma toy_sized: "\<forall>i \<in> set ids. length i = 64 \<Longrightarrow> sized (sign_list toy hash ids)"
  by (auto simp: sized_def sign_list_def toy_def)

subsection \<open>The certificate of a block\<close>

text \<open>
  C3: \<open>checkBlockSign\<close> accepts a well-formed block exactly when there are no miners at its parent or the
  certificate holds valid signatures, over the header without its seal, of at least
  \<open>(n + 1) / 2\<close> distinct miners. Repeated entries, strangers and bad signatures do not count.
\<close>

theorem certificate_decides:
  assumes "strToNode parse (nodesAt (m_number h - 1)) = Inr miners"
    and "cert_ok c h seals txs uncles owner l"
  shows "checkBlockSign c parse nodesAt h (rlp_enc (RList (block_items h seals txs uncles @ [cert_item owner l])))
     = Some (Inr (miners = {}
         \<or> (card miners + 1) div 2 \<le> card {i \<in> miners. \<exists>sg. (i, sg) \<in> set l \<and> verify c i sg (seal_hash c h)}))"
  using checkBlockSign_enc [of parse nodesAt h, OF assms] by (simp add: quorum_def valid_signers_def)

definition three :: "node_id list" where
  "three = [node 1, node 2, node 3]"

lemma three_simps [simp]: "set three = {node 1, node 2, node 3}" "card {node 1, node 2, node 3} = 3"
  "length three = 3"
  by (simp_all add: three_def)

theorem certificate_decides_witness:
  "checkBlockSign toy (nodes_json three) (\<lambda>_. '''') sample_header
     (rlp_enc (RList (block_items sample_header [RStr [7]] [] []
        @ [cert_item (node 1) (sign_list toy [] [node 1, node 1, node 9])]))) = Some (Inr False)
   \<and> checkBlockSign toy (nodes_json three) (\<lambda>_. '''') sample_header
     (rlp_enc (RList (block_items sample_header [RStr [7]] [] []
        @ [cert_item (node 1) (sign_list toy [] [node 1, node 9, node 3])]))) = Some (Inr True)"
proof -
  have js: "strToNode (nodes_json three) '''' = Inr {node 1, node 2, node 3}"
    using strToNode_ids [of three "''''"] by simp
  have ok: "cert_ok toy sample_header [RStr [7]] [] [] (node 1) (sign_list toy [] ids)"
    if "\<forall>i \<in> set ids. length i = 64" "length ids \<le> 3" for ids
    using that toy_sized by (intro sample_cert_ok) (auto simp: sign_list_def)
  have 1: "{i \<in> {node 1, node 2, node 3}. \<exists>sg. (i, sg) \<in> set (sign_list toy [] [node 1, node 1, node 9])
      \<and> verify toy i sg (seal_hash toy sample_header)} = {node 1}"
    using verify_sign [OF node_sign [of 1]] by (auto simp: sign_list_def toy_def)
  have 2: "{i \<in> {node 1, node 2, node 3}. \<exists>sg. (i, sg) \<in> set (sign_list toy [] [node 1, node 9, node 3])
      \<and> verify toy i sg (seal_hash toy sample_header)} = {node 1, node 3}"
    using verify_sign [OF node_sign [of 1]] verify_sign [OF node_sign [of 3]] by (auto simp: sign_list_def toy_def)
  show ?thesis
    using certificate_decides [OF _ ok, of "nodes_json three" "\<lambda>_. ''''" "{node 1, node 2, node 3}" "[node 1, node 1, node 9]"]
      certificate_decides [OF _ ok, of "nodes_json three" "\<lambda>_. ''''" "{node 1, node 2, node 3}" "[node 1, node 9, node 3]"]
      js 1 2 by simp
qed

text \<open>
  The check returns on every block, however malformed: the loop over the signature list, which
  compares iterator positions, always ends.
\<close>

lemma certificate_check_returns:
  "\<exists>r. checkBlockSign c parse nodesAt h block = Some r"
proof (cases "strToNode parse (nodesAt (m_number h - 1))")
  case (Inr miners)
  then show ?thesis
    using check_certificate_total [of c miners h block] by (auto simp: checkBlockSign_def)
qed (simp add: checkBlockSign_def)

text \<open>
  C4: with an odd number of miners any two accepted blocks have a common signer: some miner has valid
  signatures over both headers, so a fork at one height needs a miner that signed twice.
\<close>

theorem certificates_intersect:
  assumes "strToNode parse (nodesAt (m_number h1 - 1)) = Inr miners"
    and "strToNode parse (nodesAt (m_number h2 - 1)) = Inr miners" and "odd (card miners)"
    and "cert_ok c h1 seals1 txs1 uncles1 owner1 l1" and "cert_ok c h2 seals2 txs2 uncles2 owner2 l2"
    and "checkBlockSign c parse nodesAt h1
           (rlp_enc (RList (block_items h1 seals1 txs1 uncles1 @ [cert_item owner1 l1]))) = Some (Inr True)"
    and "checkBlockSign c parse nodesAt h2
           (rlp_enc (RList (block_items h2 seals2 txs2 uncles2 @ [cert_item owner2 l2]))) = Some (Inr True)"
  shows "\<exists>i \<in> miners. \<exists>sg1 sg2. (i, sg1) \<in> set l1 \<and> verify c i sg1 (seal_hash c h1)
      \<and> (i, sg2) \<in> set l2 \<and> verify c i sg2 (seal_hash c h2)"
proof -
  have "quorum miners \<le> card (valid_signers c (seal_hash c h1) miners l1)"
    "quorum miners \<le> card (valid_signers c (seal_hash c h2) miners l2)"
    using checkBlockSign_enc [of parse nodesAt h1, OF assms(1,4)] checkBlockSign_enc [of parse nodesAt h2, OF assms(2,5)] assms(3,6,7) by auto
  from quorum_intersect [OF valid_signers_subset valid_signers_subset strToNode_finite [OF assms(1)] assms(3) this]
  show ?thesis by (auto simp: valid_signers_def)
qed

theorem certificates_intersect_witness:
  "\<exists>i \<in> {node 1, node 2, node 3}. \<exists>sg1 sg2.
      (i, sg1) \<in> set (sign_list toy [] [node 1, node 2]) \<and> verify toy i sg1 (seal_hash toy sample_header)
      \<and> (i, sg2) \<in> set (sign_list toy [] [node 2, node 3]) \<and> verify toy i sg2 (seal_hash toy sample_header)"
proof -
  have js: "strToNode (nodes_json three) str = Inr {node 1, node 2, node 3}" for str
    using strToNode_ids [of three str] by simp
  have ok: "cert_ok toy sample_header [RStr [7]] [] [] (node 1) (sign_list toy [] [node i, node j])" for i j
    using toy_sized [of "[node i, node j]"] by (intro sample_cert_ok) (auto simp: sign_list_def)
  have acc: "checkBlockSign toy (nodes_json three) (\<lambda>_. []) sample_header (rlp_enc (RList
      (block_items sample_header [RStr [7]] [] [] @ [cert_item (node 1) (sign_list toy [] [node i, node j])])))
    = Some (Inr True)" if "i \<noteq> j" "{i, j} \<subseteq> {1, 2, 3}" for i j
  proof -
    have "valid_signers toy (seal_hash toy sample_header) {node 1, node 2, node 3} (sign_list toy [] [node i, node j])
        = {node i, node j}"
      using that verify_sign [OF node_sign [of i]] verify_sign [OF node_sign [of j]]
      by (auto simp: sign_list_def toy_def)
    then show ?thesis
      using checkBlockSign_enc [OF js ok, of "\<lambda>_. []" i j] that(1) by (simp add: quorum_def)
  qed
  show ?thesis
    by (rule certificates_intersect [where nodesAt = "\<lambda>_. []", OF js js _ ok ok acc acc]) simp_all
qed

text \<open>
  C15: with an even number of miners the threshold of \<open>checkBlockSign\<close> is only one half: for any split
  of the miners into two halves, a block signed by one half and a different block signed by the other
  are both accepted, although no miner signed twice. (\<open>voteBlockEnd\<close> asks for more than one half.)
\<close>

theorem certificates_even_split:
  assumes "strToNode parse (nodesAt (m_number h1 - 1)) = Inr (set xs \<union> set ys)"
    and "strToNode parse (nodesAt (m_number h2 - 1)) = Inr (set xs \<union> set ys)"
    and "set xs \<inter> set ys = {}" and "card (set xs) = card (set ys)"
    and "\<forall>i \<in> set xs \<union> set ys. sign_recovers c i"
    and "cert_ok c h1 seals1 txs1 uncles1 owner1 (sign_list c (seal_hash c h1) xs)"
    and "cert_ok c h2 seals2 txs2 uncles2 owner2 (sign_list c (seal_hash c h2) ys)"
  shows "checkBlockSign c parse nodesAt h1 (rlp_enc (RList
           (block_items h1 seals1 txs1 uncles1 @ [cert_item owner1 (sign_list c (seal_hash c h1) xs)]))) = Some (Inr True)
       \<and> checkBlockSign c parse nodesAt h2 (rlp_enc (RList
           (block_items h2 seals2 txs2 uncles2 @ [cert_item owner2 (sign_list c (seal_hash c h2) ys)]))) = Some (Inr True)"
proof -
  have half: "card (set xs \<union> set ys) = 2 * card (set xs)" "card (set xs \<union> set ys) = 2 * card (set ys)"
    using assms(3,4) by (simp_all add: card_Un_disjoint)
  have signers: "valid_signers c (seal_hash c h1) (set xs \<union> set ys) (sign_list c (seal_hash c h1) xs) = set xs"
    "valid_signers c (seal_hash c h2) (set xs \<union> set ys) (sign_list c (seal_hash c h2) ys) = set ys"
    unfolding sign_list_def using assms(5) by (auto simp: valid_signers_signed)
  have "checkBlockSign c parse nodesAt h1 (rlp_enc (RList
           (block_items h1 seals1 txs1 uncles1 @ [cert_item owner1 (sign_list c (seal_hash c h1) xs)]))) = Some (Inr True)"
    using checkBlockSign_enc [of parse nodesAt h1, OF assms(1,6)] half(1) signers(1) by (simp add: quorum_def)
  moreover have "checkBlockSign c parse nodesAt h2 (rlp_enc (RList
           (block_items h2 seals2 txs2 uncles2 @ [cert_item owner2 (sign_list c (seal_hash c h2) ys)]))) = Some (Inr True)"
    using checkBlockSign_enc [of parse nodesAt h2, OF assms(2,7)] half(2) signers(2) by (simp add: quorum_def)
  ultimately show ?thesis ..
qed

theorem certificates_even_split_witness:
  "checkBlockSign toy (nodes_json [node 1, node 2]) (\<lambda>_. []) sample_header (rlp_enc (RList
      (block_items sample_header [RStr [7]] [] [] @ [cert_item (node 1) (sign_list toy (seal_hash toy sample_header) [node 1])])))
    = Some (Inr True)
   \<and> checkBlockSign toy (nodes_json [node 1, node 2]) (\<lambda>_. []) sample_header (rlp_enc (RList
      (block_items sample_header [RStr [7]] [] [] @ [cert_item (node 2) (sign_list toy (seal_hash toy sample_header) [node 2])])))
    = Some (Inr True)"
proof -
  have js: "strToNode (nodes_json [node 1, node 2]) [] = Inr (set [node 1] \<union> set [node 2])"
    using strToNode_ids [of "[node 1, node 2]" "[]"] by (simp add: insert_commute)
  have ok: "cert_ok toy sample_header [RStr [7]] [] [] (node k) (sign_list toy hash [node k])" for k hash
    using toy_sized [of "[node k]" hash] by (intro sample_cert_ok) (auto simp: sign_list_def)
  have "set [node 1] \<inter> set [node 2] = {}" "card (set [node 1]) = card (set [node 2])"
    "\<forall>i \<in> set [node 1] \<union> set [node 2]. sign_recovers toy i"
    by (simp_all add: node_sign)
  from certificates_even_split [where nodesAt = "\<lambda>_. []", OF js js this ok ok] show ?thesis .
qed

subsection \<open>A run of a node alone\<close>

definition sample_block :: bytes where
  "sample_block = rlp_enc (RList (block_items sample_header [RStr [7]] [] []))"

definition sample_sealed :: bytes where
  "sample_sealed = rlp_enc (RList (block_items sample_header [RStr [7]] [] [] @ [own_cert toy (node 1) sample_header]))"

definition alone :: qpos where
  "alone = qpos_after toy
     [MinerList (nodes_json [node 1]) ''x'', Report 4 False, ReportSelf (\<lambda>_. 0), Generate sample_block]
     (qpos_init (node 1) True)"

lemma alone_reach: "qpos_reach toy (node 1) True alone"
  unfolding alone_def by (rule qpos_after_reach) (rule qpos_reach.start)

lemma strToQpos_one: "\<exists>m. strToQpos (nodes_json [node 1]) str = Inr m \<and> dom m = {node 1}"
  using insert_nodes_ids [of "[node 1]" Map.empty] by (simp add: strToQpos_def nodes_json_def)

lemma alone_state:
  "m_miners alone = {node 1}" "q_id alone = node 1" "m_blocks alone = [sample_block]" "m_blockNumber alone = 4"
  "m_isLeader alone" "m_consensusState alone = qposInitial" "m_idUnVoted alone = {}" "m_idVoted alone = Map.empty"
proof -
  obtain m where m: "strToQpos (nodes_json [node 1]) ''x'' = Inr m" "dom m = {node 1}" using strToQpos_one by blast
  show "m_miners alone = {node 1}" "q_id alone = node 1" "m_blocks alone = [sample_block]" "m_blockNumber alone = 4"
    "m_isLeader alone" "m_consensusState alone = qposInitial" "m_idUnVoted alone = {}" "m_idVoted alone = Map.empty"
    unfolding alone_def
    by (simp_all add: qpos_after_def qpos_init_def node_cache0_def getMinerList_def reportBlock_def reportBlockSelf_def
        getNodes_def generateSeal_def resetConfig_def Let_def m)
qed

lemma alone_tick:
  "\<exists>s' out. qpos_handle toy (Tick [] (\<lambda>_. 1)) alone = (s', out) \<and> SealGenerated sample_sealed True \<in> set out
    \<and> m_miners s' = {node 1} \<and> q_id s' = node 1 \<and> m_blockBytes s' = sample_block
    \<and> m_idVoted s' = [node 1 \<mapsto> e_sign toy (node 1) (seal_hash toy sample_header)]"
proof -
  have "rlp_fits (RList (block_items sample_header [RStr [7]] [] [] @ [own_cert toy (node 1) sample_header]))"
    unfolding own_cert_def by (rule sample_block_fits) (simp_all add: sized_def toy_def)
  moreover have "m_number sample_header = 5" by (simp add: sample_header_def)
  ultimately show ?thesis
    using tick_alone [of alone sample_header "[RStr [7]]" "[]" "[]" "[]" toy "[]" "\<lambda>_. 1"] sample_header_ok
    unfolding sample_block_def [symmetric] sample_sealed_def [symmetric]
    by (simp add: ready_alone_def alone_state sample_sealed_def) blast
qed

subsection \<open>A run of a leader with three miners\<close>

text \<open>A signature scheme that depends on what is signed, and a second block for the same height.\<close>

definition hashing :: crypto where
  "hashing = \<lparr>e_sha3 = (\<lambda>b. replicate 32 (last b)), e_recover = (\<lambda>sg h. if drop 64 sg = take 1 h then take 64 sg else []), e_sign = (\<lambda>p h. p @ take 1 h)\<rparr>"

lemma hashing_sign: "k \<noteq> 0 \<Longrightarrow> sign_recovers hashing (node k)"
  by (simp add: sign_recovers_def hashing_def node_def hash_set_def numeral_eq_Suc)

definition other_header :: block_header where
  "other_header = sample_header\<lparr>m_extraData := [9]\<rparr>"

definition other_block :: bytes where
  "other_block = rlp_enc (RList (block_items other_header [RStr [7]] [] []))"

lemma last_header: "last (rlp_enc (RList (header_items h))) = last (rlp_enc (RStr (m_extraData h)))"
  by (simp add: header_items_def rlp_enc_RList enc_list_def del: rlp_enc.simps)

lemma hashing_seals: "seal_hash hashing sample_header = replicate 32 0x80" "seal_hash hashing other_header = replicate 32 9"
  by (simp_all add: seal_hash_def hashing_def last_header del: rlp_enc.simps)
    (simp_all add: other_header_def sample_header_def BlockHeader0_def enc_bytes_def enc_hdr_def)



text \<open>A node that has heard of three miners and of block 4.\<close>

definition three_start :: qpos where
  "three_start = qpos_after hashing [MinerList (nodes_json three) ''x'', Report 4 False, ReportSelf (\<lambda>_. 0)] (qpos_init (node 1) True)"

lemma three_start_state:
  "m_miners three_start = {node 1, node 2, node 3}" "q_id three_start = node 1" "m_blocks three_start = []" "m_blockNumber three_start = 4"
  "m_voted three_start = {}" "\<not> m_isLeader three_start" "m_consensusState three_start = qposInitial" "m_currentView three_start = 0"
  "m_idVoted three_start = Map.empty" "m_idUnVoted three_start = {}"
proof -
  obtain m where m: "strToQpos (nodes_json three) ''x'' = Inr m" "dom m = {node 1, node 2, node 3}"
    using insert_nodes_ids [of three Map.empty] by (auto simp: strToQpos_def nodes_json_def three_def)
  show "m_miners three_start = {node 1, node 2, node 3}" "q_id three_start = node 1" "m_blocks three_start = []" "m_blockNumber three_start = 4"
    "m_voted three_start = {}" "\<not> m_isLeader three_start" "m_consensusState three_start = qposInitial" "m_currentView three_start = 0"
    "m_idVoted three_start = Map.empty" "m_idUnVoted three_start = {}"
    unfolding three_start_def
    by (simp_all add: qpos_after_def qpos_init_def node_cache0_def getMinerList_def reportBlock_def reportBlockSelf_def
        getNodes_def resetConfig_def Let_def m)
qed

lemma three_start_reach: "qpos_reach hashing (node 1) True (qpos_after hashing es three_start)"
  unfolding three_start_def by (intro qpos_after_reach qpos_reach.start)

text \<open>Elected by node 2, with a block to propose.\<close>

definition leading :: qpos where
  "leading = qpos_after hashing [Message [] (\<lambda>_. 0) 0 (node 2) (vote_answer True), Generate sample_block] three_start"

lemma leading_state:
  "m_miners leading = {node 1, node 2, node 3}" "q_id leading = node 1" "m_blocks leading = [sample_block]" "m_blockNumber leading = 4"
  "m_isLeader leading" "m_consensusState leading = qposInitial" "m_idUnVoted leading = {}" "m_currentView leading = 0" "m_idVoted leading = Map.empty"
  using interpret_answer [of "node 2" three_start hashing "[]" "\<lambda>_. 0" 0 True] three_start_state
  by (simp_all add: leading_def qpos_after_def generateSeal_def)

lemma sample_block_length: "length sample_block < 2 ^ 58"
proof -
  have "rlp_bound (RList (block_items sample_header [RStr [7]] [] [])) < 3100"
    using sample_header_bound by (simp add: block_items_def)
  then have "length sample_block < 3100" unfolding sample_block_def using rlp_bound_enc [of "RList (block_items sample_header [RStr [7]] [] [])"] by simp
  then show ?thesis by simp
qed

lemma sample_block_parses: "\<exists>h. parse_header c sample_block = Inr (h, seal_hash c sample_header) \<and> m_number h = 5"
proof -
  have "rlp_fits (RList (block_items sample_header [RStr [7]] [] []))"
    using rlp_fits_append [OF sample_block_fits [of "[]" "[]"]] by (simp add: sized_def)
  then show ?thesis
    using parse_header_enc [OF sample_header_ok, of "[]" "[]" "[]" c] unfolding sample_block_def by (auto simp: sample_header_def)
qed


text \<open>
  Node 2 proposes a block in view 0, of which nothing more is heard; node 1 times out, is elected by node 3 in
  view 1, and has a block of its own to propose.
\<close>

definition elected :: qpos where
  "elected = qpos_after hashing
     [Message [] (\<lambda>_. 0) 0 (node 2) (block_vote 0 (e_sign hashing (node 2) (seal_hash hashing sample_header)) sample_block),
      Tick [] (\<lambda>_. 100000000), Message [] (\<lambda>_. 0) 0 (node 3) (vote_answer True), Generate other_block] three_start"

lemma elected_state:
  "m_miners elected = {node 1, node 2, node 3}" "q_id elected = node 1" "m_blocks elected = [other_block]" "m_blockNumber elected = 4"
  "m_isLeader elected" "m_consensusState elected = qposInitial" "m_idUnVoted elected = {}" "m_currentView elected = 1"
  "m_idVoted elected = [node 2 \<mapsto> node 2 @ [0x80], node 1 \<mapsto> node 1 @ [0x80]]"
proof -
  note s0 = three_start_state
  let ?sg = "e_sign hashing (node 2) (seal_hash hashing sample_header)"
  obtain h where h: "parse_header hashing sample_block = Inr (h, seal_hash hashing sample_header)" "m_number h = 5"
    using sample_block_parses by blast
  have sg: "?sg = node 2 @ [0x80]" "e_sign hashing (node 1) (seal_hash hashing sample_header) = node 1 @ [0x80]"
    by (simp_all only: hashing_seals) (simp_all add: hashing_def numeral_eq_Suc)
  define s1 where "s1 = three_start\<lparr>m_idUnVoted := {}, m_consensusTimeOut := m_consensusTimeInterval three_start, m_blockBytes := sample_block,
      m_idVoted := [node 2 \<mapsto> node 2 @ [0x80], node 1 \<mapsto> node 1 @ [0x80]], m_voteTimeOut := QPOS_VOTE_TIMEOUT\<rparr>"
  have 1: "fst (qpos_interpret hashing [] (\<lambda>_. 0) 0 (node 2) (block_vote 0 ?sg sample_block) three_start) = s1"
    using interpret_block_vote [of "node 2" three_start ?sg sample_block hashing h "seal_hash hashing sample_header" "[]" "\<lambda>_. 0" 0]
      h verify_sign [OF hashing_sign [of 2], of "seal_hash hashing sample_header"] sample_block_length s0
    unfolding s1_def by (simp add: int32_def sg)
  define s2 where "s2 = s1\<lparr>m_voteTimeOut := 100000000 + QPOS_VOTE_TIMEOUT, m_currentView := 1, m_voted := {}\<rparr>"
  have 2: "fst (tick hashing [] (\<lambda>_. 100000000) s1) = s2"
    using s0 by (simp add: tick_def voteTick_def Let_def s1_def s2_def QPOS_VOTE_TIMEOUT_def TIME_PER_SECOND_def)
  have 3: "fst (qpos_interpret hashing [] (\<lambda>_. 0) 0 (node 3) (vote_answer True) s2) = s2\<lparr>m_voted := {node 3}, m_isLeader := True\<rparr>"
    using interpret_answer [of "node 3" s2 hashing "[]" "\<lambda>_. 0" 0 True] s0 by (simp add: s2_def s1_def)
  have e: "elected = s2\<lparr>m_voted := {node 3}, m_isLeader := True, m_blocks := [other_block]\<rparr>"
    using 1 2 3 s0(3) unfolding elected_def by (simp add: qpos_after_def generateSeal_def s2_def s1_def)
  show "m_miners elected = {node 1, node 2, node 3}" "q_id elected = node 1" "m_blocks elected = [other_block]" "m_blockNumber elected = 4"
    "m_isLeader elected" "m_consensusState elected = qposInitial" "m_idUnVoted elected = {}" "m_currentView elected = 1"
    "m_idVoted elected = [node 2 \<mapsto> node 2 @ [0x80], node 1 \<mapsto> node 1 @ [0x80]]"
    using s0 by (simp_all add: e s2_def s1_def)
qed

subsection \<open>Every reachable state\<close>

text \<open>
  C5: in every state a node can reach from its start, by any sequence of timer ticks, messages (from
  anybody, with any content), chain reports, proposed blocks and miner list updates: the node's
  identity is the one it started with, its sets are finite, only miners and the node itself have a
  recorded vote, and only miners are recorded as voting against.
\<close>

theorem qpos_reach_inv:
  assumes "qpos_reach c i anyNode s"
  shows "q_id s = i \<and> finite (m_miners s) \<and> finite (m_voted s) \<and> finite (dom (m_idVoted s))
    \<and> dom (m_idVoted s) \<subseteq> insert i (m_miners s) \<and> m_idUnVoted s \<subseteq> m_miners s"
  using qpos_reach_qpos_inv [OF assms] by (simp add: qpos_inv_def)

theorem qpos_reach_inv_witness:
  "dom (m_idVoted elected) = {node 1, node 2} \<and> q_id elected = node 1 \<and> finite (m_miners elected)
    \<and> dom (m_idVoted elected) \<subseteq> insert (node 1) (m_miners elected)"
proof -
  have "qpos_reach hashing (node 1) True elected" unfolding elected_def by (rule three_start_reach)
  moreover have "dom (m_idVoted elected) = {node 1, node 2}" by (auto simp: elected_state)
  ultimately show ?thesis using qpos_reach_inv [of hashing "node 1" True elected] by simp
qed

text \<open>
  C2: a reachable node hands out a block it sealed itself only in the state \<open>qposFinished\<close>, with the block assembled from
  the votes it then holds. These are votes of miners and the node's own. When there are miners, the votes are more than
  half as many as the miners. So a node that is a miner has the votes of more than half of them; a node that is none
  counts its own vote too and has those of at least half of them, rounded down.
\<close>

theorem seal_needs_majority:
  assumes "qpos_reach c i anyNode s" and "qpos_handle c e s = (s', out)" and "SealGenerated b True \<in> set out"
  shows "m_consensusState s' = qposFinished \<and> sealed_block c s' = Inr b \<and> dom (m_idVoted s') \<subseteq> insert i (m_miners s')
    \<and> (m_miners s' = {} \<or> card (m_miners s') div 2 < card (dom (m_idVoted s')))
    \<and> (i \<in> m_miners s' \<longrightarrow> card (m_miners s') div 2 < card (dom (m_idVoted s') \<inter> m_miners s'))
    \<and> card (m_miners s') div 2 \<le> card (dom (m_idVoted s') \<inter> m_miners s')"
proof -
  let ?V = "dom (m_idVoted s')" let ?M = "m_miners s'"
  have "qpos_inv i s'" using assms(1,2) by (blast intro: qpos_reach_qpos_inv qpos_reach.step)
  then have sub: "?V \<subseteq> insert i ?M" "finite ?V" "finite ?M" by (simp_all add: qpos_inv_def)
  have seal: "m_consensusState s' = qposFinished" "sealed_block c s' = Inr b" "?M = {} \<or> card ?M div 2 < card ?V"
    using qpos_handle_seal [OF _ assms(2,3)] qpos_reach_qpos_inv [OF assms(1)] by (simp_all add: qpos_inv_def sealed_by_majority_def)
  have "?V \<subseteq> insert i (?V \<inter> ?M)" using sub(1) by blast
  then have "card ?V \<le> card (insert i (?V \<inter> ?M))" using sub(2) by (intro card_mono) auto
  then have "card ?V \<le> Suc (card (?V \<inter> ?M))" using sub(2) by (simp add: card_insert_if split: if_splits)
  then have "card ?M div 2 \<le> card (?V \<inter> ?M)" using seal(3) by auto
  moreover have "card ?M div 2 < card (?V \<inter> ?M)" if "i \<in> ?M"
  proof -
    have "?V \<inter> ?M = ?V" using sub(1) that by blast
    then show ?thesis using seal(3) that by auto
  qed
  ultimately show ?thesis using seal sub(1) by blast
qed

theorem seal_needs_majority_witness:
  "\<exists>s'. sealed_block toy s' = Inr sample_sealed \<and> card (m_miners s') div 2 < card (dom (m_idVoted s'))"
  using alone_tick seal_needs_majority [OF alone_reach] by (metis empty_not_insert)

text \<open>
  C6: every event keeps the recorded votes valid, that is each recorded signature is the voter's signature over the
  header of the block in \<open>m_blockBytes\<close>, but for one: a tick of a leader in the initial state that takes a block from its
  queue to propose it while votes of other nodes are recorded. The node's own signatures are taken to verify.
\<close>

theorem votes_stay_valid:
  assumes "votes_valid c s" and "sign_recovers c (q_id s)" and "\<not> proposes_over e s"
    and "qpos_handle c e s = (s', out)"
  shows "votes_valid c s'"
  using assms by (rule handle_votes)

theorem votes_stay_valid_witness:
  "\<exists>s s' out. qpos_reach hashing (node 1) True s \<and> dom (m_idVoted s) = {node 1} \<and>
    qpos_handle hashing (Message [] (\<lambda>_. 0) 0 (node 3) (block_vote_ack True 0 (e_sign hashing (node 3) (seal_hash hashing sample_header)) (node 1))) s = (s', out) \<and>
    dom (m_idVoted s') = {node 1, node 3} \<and> votes_valid hashing s'"
proof -
  let ?sg = "e_sign hashing (node 3) (seal_hash hashing sample_header)"
  have fb: "rlp_fits (RList (block_items sample_header [RStr [7]] [] []))"
    using rlp_fits_append [OF sample_block_fits [of "[]" "[]"]] by (simp add: sized_def)
  have n: "m_number sample_header = 5" by (simp add: sample_header_def)
  obtain s out1 where t: "tick hashing [] (\<lambda>_. 0) leading = (s, out1)"
    and s: "m_idVoted s = [node 1 \<mapsto> e_sign hashing (node 1) (seal_hash hashing sample_header)]" "m_idUnVoted s = {}" "m_blockBytes s = sample_block"
      "m_miners s = {node 1, node 2, node 3}" "q_id s = node 1" "m_consensusState s = qposWaitingVote" "m_currentView s = 0"
    using tick_proposes [OF sample_header_ok fb, of leading "[]" hashing "[]" "\<lambda>_. 0"] leading_state n
    unfolding sample_block_def by (auto simp: block_items_def)
  obtain h where h: "parse_header hashing sample_block = Inr (h, seal_hash hashing sample_header)" using sample_block_parses by blast
  have r: "qpos_reach hashing (node 1) True s"
    using qpos_reach.step [OF three_start_reach, of "Tick [] (\<lambda>_. 0)"] t unfolding leading_def by simp
  have v: "votes_valid hashing s" using s h verify_sign [OF hashing_sign [of 1]] by (simp add: votes_valid_def)
  have sg: "length ?sg = 65" by (simp only: hashing_seals) (simp add: hashing_def)
  obtain s' out where step: "qpos_handle hashing (Message [] (\<lambda>_. 0) 0 (node 3) (block_vote_ack True 0 ?sg (node 1))) s = (s', out)" by fastforce
  let ?s = "s\<lparr>m_idVoted := (m_idVoted s)(node 3 \<mapsto> ?sg)\<rparr>"
  have "voteBlockEnd hashing [] (\<lambda>_. 0) ?s = (s', out)"
    using interpret_block_ack [of "node 3" s ?sg "node 1" hashing h "seal_hash hashing sample_header" "[]" "\<lambda>_. 0" 0 True]
      step s h verify_sign [OF hashing_sign [of 3]] sg by (simp add: int32_def)
  then have "m_idVoted s' = m_idVoted ?s" using s(2,4) by (auto simp: voteBlockEnd_def nodeCount_def broadBlock_def split: sum.splits if_splits)
  then have "dom (m_idVoted s') = {node 1, node 3}" using s(1) by auto
  moreover have "votes_valid hashing s'"
    by (rule votes_stay_valid [OF v _ _ step]) (simp_all add: s(5) hashing_sign proposes_over_def)
  ultimately show ?thesis using r step s(1) by (intro exI [of _ s] exI [of _ s'] exI [of _ out]) simp
qed

text \<open>
  C1: what a leader seals is accepted by the other nodes. When a node hands out a block it sealed, its
  recorded votes are valid and come from its miner list, and the list at the parent block is that
  list, then the sealed block parses and \<open>checkBlockSign\<close> accepts it.
\<close>

theorem sealed_accepted:
  assumes "qpos_reach c i anyNode s" and "qpos_handle c e s = (s', out)" and "SealGenerated b True \<in> set out"
    and "votes_valid c s'" and "i \<in> m_miners s'"
    and "header_ok h seals" and "m_blockBytes s' = rlp_enc (RList (block_items h seals txs uncles))"
    and "rlp_fits (RList (block_items h seals txs uncles @ [info_item s']))"
    and "\<forall>v sg. m_idVoted s' v = Some sg \<longrightarrow> length v = 64 \<and> length sg = 65"
    and "strToNode parse (nodesAt (m_number h - 1)) = Inr (m_miners s')"
  shows "\<exists>h'. BlockHeader (e_sha3 c) b BlockData zero_hash = Inr h'
    \<and> checkBlockSign c parse nodesAt h' b = Some (Inr True)"
proof -
  from assms(1,2) have "qpos_inv i s'" by (blast intro: qpos_reach_qpos_inv qpos_reach.step)
  then have fin: "finite (dom (m_idVoted s'))" "dom (m_idVoted s') \<subseteq> m_miners s'" "finite (m_miners s')"
    using assms(5) by (auto simp: qpos_inv_def)
  have maj: "card (m_miners s') div 2 < card (dom (m_idVoted s'))" "sealed_block c s' = Inr b"
    using qpos_handle_seal [OF _ assms(2,3)] qpos_reach_qpos_inv [OF assms(1)] assms(5)
    by (auto simp: qpos_inv_def sealed_by_majority_def)
  from sealed_block_accepted [where parse = parse and nodesAt = nodesAt, OF assms(6,7,8) fin(1,2) assms(4) _ maj(1) assms(10)]
    assms(9) maj(2)
  show ?thesis by auto
qed

theorem sealed_accepted_witness:
  "\<exists>h'. BlockHeader (e_sha3 toy) sample_sealed BlockData zero_hash = Inr h'
    \<and> checkBlockSign toy (nodes_json [node 1]) (\<lambda>_. []) h' sample_sealed = Some (Inr True)"
proof -
  obtain s' out where t: "qpos_handle toy (Tick [] (\<lambda>_. 1)) alone = (s', out)" "SealGenerated sample_sealed True \<in> set out"
    and s': "m_miners s' = {node 1}" "q_id s' = node 1" "m_blockBytes s' = sample_block"
      "m_idVoted s' = [node 1 \<mapsto> e_sign toy (node 1) (seal_hash toy sample_header)]"
    using alone_tick by blast
  have v: "votes_valid toy s'"
    by (rule handle_votes [OF _ _ _ t(1)]) (simp_all add: votes_valid_def proposes_over_def leftover_votes_def alone_state node_sign)
  have info: "info_item s' = own_cert toy (node 1) sample_header"
    using s'(2,4) by (simp add: info_item_cert own_cert_def voted_list_def)
  have fits: "rlp_fits (RList (block_items sample_header [RStr [7]] [] [] @ [info_item s']))"
    unfolding info own_cert_def by (rule sample_block_fits) (simp_all add: sized_def toy_def)
  have js: "strToNode (nodes_json [node 1]) [] = Inr (m_miners s')"
    using strToNode_ids [of "[node 1]" "[]"] s'(1) by simp
  show ?thesis
    by (rule sealed_accepted [where nodesAt = "\<lambda>_. []", OF alone_reach t v _ sample_header_ok s'(3) [unfolded sample_block_def] fits _ js])
      (simp_all add: s' toy_def)
qed

text \<open>
  C12: a node with no other miners makes progress: a leader in the initial state that is the only miner
  (or has no miner list) and has the next block in its queue seals it at the next tick, whatever the
  time, the peers and the clock, and the certificate holds exactly its own signature.
\<close>

theorem sole_miner_seals:
  assumes "ready_alone s" and "m_blocks s = rlp_enc (RList (block_items h seals txs uncles)) # q"
    and "header_ok h seals" and "m_number h = m_blockNumber s + 1"
    and "rlp_fits (RList (block_items h seals txs uncles @ [own_cert c (q_id s) h]))"
  shows "SealGenerated (rlp_enc (RList (block_items h seals txs uncles @ [own_cert c (q_id s) h]))) True
      \<in> set (snd (tick c peers t s)) \<and> m_blocks (fst (tick c peers t s)) = q"
  using tick_alone [OF assms, of peers t] by auto

theorem sole_miner_seals_witness:
  "SealGenerated sample_sealed True \<in> set (snd (tick toy [node 2] (\<lambda>k. int k) alone))
   \<and> m_blocks (fst (tick toy [node 2] (\<lambda>k. int k) alone)) = []"
proof -
  have "rlp_fits (RList (block_items sample_header [RStr [7]] [] [] @ [own_cert toy (node 1) sample_header]))"
    unfolding own_cert_def by (rule sample_block_fits) (simp_all add: sized_def toy_def)
  moreover have "m_number sample_header = 5" by (simp add: sample_header_def)
  ultimately show ?thesis
    using sole_miner_seals [of alone sample_header "[RStr [7]]" "[]" "[]" "[]" toy "[node 2]" "\<lambda>k. int k"] sample_header_ok
    unfolding sample_sealed_def
    by (simp add: ready_alone_def alone_state sample_block_def)
qed



subsection \<open>Leader election\<close>

text \<open>
  C13: one round of an election. When a node that is no leader times out, every connected miner gets
  the same request; a miner in a lower view whose chain is not ahead moves to the candidate's view
  and grants the vote, and the candidate that receives the granted vote records it and is leader
  exactly when it was or the recorded votes and its own are more than half of its miners.
\<close>

theorem election_round:
  assumes "\<not> m_isLeader q" "m_voteTimeOut q \<le> t 0" "int32 (m_currentView q + 1)" "int32 (m_blockNumber q)"
    and "q_id s \<in> m_miners q" "q_id s \<in> set peers" "q_id s \<noteq> q_id q"
    and "q_id q \<in> m_miners s" "q_id q \<in> set peers'" "m_currentView s \<le> m_currentView q" "m_blockNumber s \<le> m_blockNumber q"
  shows "\<exists>q1 out1 s1 out2 q2. voteTick peers t q = (q1, out1)
    \<and> SendTo (q_id s) (vote_request (m_currentView q + 1) (m_blockNumber q)) \<in> set out1
    \<and> qpos_interpret c peers' t' rnd (q_id q) (vote_request (m_currentView q + 1) (m_blockNumber q)) s = (s1, out2)
    \<and> m_currentView s1 = m_currentView q + 1 \<and> SendTo (q_id q) (vote_answer True) \<in> set out2
    \<and> qpos_interpret c peers t'' rnd' (q_id s) (vote_answer True) q1 = (q2, [])
    \<and> m_voted q2 = {q_id s} \<and> m_currentView q2 = m_currentView q + 1
    \<and> (m_isLeader q2 \<longleftrightarrow> card (m_miners q) div 2 < 2)"
proof -
  let ?q1 = "q\<lparr>m_voteTimeOut := t 0 + QPOS_VOTE_TIMEOUT, m_currentView := m_currentView q + 1, m_voted := {}\<rparr>"
  let ?req = "map uint_item [qposVote, m_currentView q + 1, m_blockNumber q]"
  have tick: "voteTick peers t q = (?q1, multicast peers (q_id q) (m_miners q) (concat (map rlp_enc ?req)))"
    using assms(1,2) unfolding voteTick_def by (simp add: election_messages)
  have sent: "SendTo (q_id s) (vote_request (m_currentView q + 1) (m_blockNumber q))
      \<in> set (multicast peers (q_id q) (m_miners q) (concat (map rlp_enc ?req)))"
    using assms(5-7) multicast_uint [of "[qposVote, m_currentView q + 1, m_blockNumber q]"] by (simp add: vote_request_def)
  have granted: "grants s (m_currentView q + 1)" using assms(10) by (simp add: grants_def)
  have view: "m_currentView (after_request t' rnd (m_currentView q + 1) (m_blockNumber q) s) = m_currentView q + 1"
    using assms(10,11) by (simp add: after_request_def Let_def max_def)
  have answer: "SendTo (q_id q) (vote_answer True)
      \<in> set (send peers' (q_id s) (q_id q) (concat (map rlp_enc (map uint_item [qposVoteAck, 1]))))"
    using assms(7,9) multicast_uint [of "[qposVoteAck, 1]" "q_id q" _ peers' "q_id s" "{q_id q}"]
    by (simp add: send_def vote_answer_def)
  show ?thesis
    using tick sent interpret_request [OF assms(8,3,4), of c peers' t' rnd] granted view answer
      interpret_answer [of "q_id s" ?q1 c peers t'' rnd' True] assms(1,5)
    by (simp add: numeral_2_eq_2)
qed

definition miner :: "byte \<Rightarrow> qpos" where
  "miner k = (qpos_init (node k) True)\<lparr>m_miners := {node 1, node 2, node 3}\<rparr>"

lemma miner_simps [simp]:
  "\<not> m_isLeader (miner k)" "m_voteTimeOut (miner k) = 0" "m_currentView (miner k) = 0" "m_blockNumber (miner k) = 0"
  "q_id (miner k) = node k" "m_miners (miner k) = {node 1, node 2, node 3}" "m_blockNumberRecv (miner k) = 0"
  by (simp_all add: miner_def qpos_init_def)

theorem election_round_witness:
  "\<exists>q1 out1 q2. voteTick [node 2, node 3] (\<lambda>_. 5) (miner 1) = (q1, out1)
    \<and> SendTo (node 2) (vote_request 1 0) \<in> set out1
    \<and> qpos_interpret toy [node 2, node 3] (\<lambda>_. 6) 0 (node 2) (vote_answer True) q1 = (q2, []) \<and> m_isLeader q2"
  using election_round [of "miner 1" "\<lambda>_. 5" "miner 2" "[node 2, node 3]" "[node 1, node 3]" toy "\<lambda>_. 6" 0 "\<lambda>_. 6" 0]
  by (auto simp: int32_def)

text \<open>
  C14: a miner whose chain is not ahead of the request grants at most one vote per view until a heartbeat sets it back. Once it
  has answered a request for view \<open>v\<close>, then after any events, among them no heartbeat of a view below \<open>v\<close>, a request for
  the same or a lower view, of any node, is not granted and leaves the view as it is.
\<close>

theorem vote_granted_once:
  assumes "p \<in> m_miners s" "int32 v" "int32 n" "int32 v'" "int32 n'" "v' \<le> v"
    and "m_blockNumber s \<le> max (m_blockNumberRecv s) n" "\<forall>e \<in> set es. \<not> heart_below v e"
    and "qpos_interpret c peers t rnd p (vote_request v n) s = (s1, out1)"
    and "qpos_interpret c peers' t' rnd' p' (vote_request v' n') (qpos_after c es s1) = (s2, out2)"
  shows "SendTo p' (vote_answer True) \<notin> set out2 \<and> m_currentView s2 = m_currentView (qpos_after c es s1)"
proof -
  let ?s = "qpos_after c es s1"
  have "s1 = after_request t rnd v n s" using interpret_request [OF assms(1-3)] assms(9) by simp
  then have "v \<le> m_currentView s1" using assms(7) by (simp add: after_request_def Let_def)
  from after_view [OF this assms(8), of c] have view: "\<not> grants ?s v'" using assms(6) by (simp add: grants_def)
  show ?thesis
  proof (cases "p' \<in> m_miners ?s")
    case True
    have out2: "out2 = send peers' (q_id ?s) p' (concat (map rlp_enc (map uint_item [qposVoteAck, 0])))"
      and s2: "s2 = after_request t' rnd' v' n' ?s"
      using interpret_request [OF True assms(4,5), of c peers' t' rnd'] assms(10) view by simp_all
    have "vote_answer True \<noteq> vote_answer False" using vote_answer_read(2) [of True] vote_answer_read(2) [of False] by force
    with out2 have "SendTo p' (vote_answer True) \<notin> set out2"
      using multicast_uint [of "[qposVoteAck, 0]"] by (simp add: send_def vote_answer_def)
    moreover have "m_currentView s2 = m_currentView ?s" using view by (simp add: s2 after_request_def grants_def Let_def)
    ultimately show ?thesis ..
  next
    case False
    then show ?thesis using assms(10) by (simp add: qpos_interpret_def vote_request_read)
  qed
qed

text \<open>With a heartbeat of a lower view in between the same view is granted again.\<close>

lemma heart_grants_again:
  assumes "p \<in> m_miners s" "p' \<in> m_miners s" "q \<in> m_miners s" "p' \<noteq> q_id s" "p' \<in> set peers"
    and "int32 v" "int32 n" "int32 n'" "int32 w" "w < v"
    and "qpos_interpret c peers t rnd p (vote_request v n) s = (s1, out1)"
  shows "SendTo p' (vote_answer True) \<in> set (snd (qpos_interpret c peers t' rnd p' (vote_request v n')
    (fst (qpos_interpret c peers t rnd q (heart w) s1))))"
proof -
  have "s1 = after_request t rnd v n s" using interpret_request [OF assms(1,6,7)] assms(11) by simp
  then have s1: "m_miners s1 = m_miners s" "q_id s1 = q_id s" by (simp_all add: after_request_def Let_def)
  let ?s = "fst (qpos_interpret c peers t rnd q (heart w) s1)"
  have s: "m_miners ?s = m_miners s" "q_id ?s = q_id s" "m_currentView ?s = w"
    using interpret_heart [of q s1 w c peers t rnd] assms(3,9) s1 by simp_all
  then have "grants ?s v" using assms(10) by (simp add: grants_def)
  then show ?thesis
    using interpret_request [of p' ?s v n' c peers t' rnd] assms(2,4,5,6,8) s multicast_uint [of "[qposVoteAck, 1]"]
    by (simp add: send_def vote_answer_def)
qed

theorem vote_granted_once_witness:
  "SendTo (node 3) (vote_answer True) \<notin> set (snd (qpos_interpret toy [node 1, node 3] (\<lambda>_. 0) 0 (node 3) (vote_request 1 0)
     (qpos_after toy [Message [] (\<lambda>_. 0) 0 (node 1) (heart 1), Tick [] (\<lambda>_. 9)]
       (fst (qpos_interpret toy [node 1, node 3] (\<lambda>_. 0) 0 (node 1) (vote_request 1 0) (miner 2))))))"
proof -
  have "\<forall>e \<in> set [Message [] (\<lambda>_. 0) 0 (node 1) (heart 1), Tick [] (\<lambda>_. 9)]. \<not> heart_below 1 e"
    using heart_read(2) [of 1] by (auto simp: heart_below_def int32_def)
  from vote_granted_once [of "node 1" "miner 2" 1 0 1 0, OF _ _ _ _ _ _ _ this prod.collapse [symmetric] prod.collapse [symmetric]]
  show ?thesis by (simp add: int32_def)
qed

text \<open>
  A miner that is ahead of the candidates grants its vote twice in one view: \<open>onVote\<close> answers
  \<open>true\<close> whenever the view is higher, but moves to that view only when the largest block number it has
  heard of is not below its own. Both candidates get the vote.
\<close>

lemma vote_granted_twice:
  assumes "p \<in> m_miners s" "p' \<in> m_miners s" "p \<noteq> q_id s" "p' \<noteq> q_id s" "p \<in> set peers" "p' \<in> set peers"
    and "int32 v" "int32 n" "int32 n'" "m_currentView s < v"
    and "m_blockNumberRecv s < m_blockNumber s" "n < m_blockNumber s" "n' < m_blockNumber s"
    and "qpos_interpret c peers t rnd p (vote_request v n) s = (s1, out1)"
    and "qpos_interpret c peers t' rnd' p' (vote_request v n') s1 = (s2, out2)"
  shows "SendTo p (vote_answer True) \<in> set out1 \<and> SendTo p' (vote_answer True) \<in> set out2"
proof -
  have s1: "s1 = after_request t rnd v n s"
    "out1 = send peers (q_id s) p (concat (map rlp_enc (map uint_item [qposVoteAck, 1])))"
    using interpret_request [OF assms(1,7,8), of c peers t rnd] assms(10,14) by (simp_all add: grants_def)
  then have view: "grants s1 v" "m_miners s1 = m_miners s" "q_id s1 = q_id s"
    using assms(10-13) by (auto simp: after_request_def grants_def Let_def)
  then have "p' \<in> m_miners s1" using assms(2) by simp
  from interpret_request [OF this assms(7,9), of c peers t' rnd'] assms(15) view
  have out2: "out2 = send peers (q_id s) p' (concat (map rlp_enc (map uint_item [qposVoteAck, 1])))" by simp
  show ?thesis
    using s1(2) out2 assms(3-6) multicast_uint [of "[qposVoteAck, 1]"] by (simp add: send_def vote_answer_def)
qed

definition ahead :: qpos where
  "ahead = (miner 2)\<lparr>m_blockNumber := 7\<rparr>"

lemma vote_granted_twice_witness:
  "SendTo (node 1) (vote_answer True) \<in> set (snd (qpos_interpret toy [node 1, node 3] (\<lambda>_. 0) 0 (node 1) (vote_request 1 0) ahead))
   \<and> SendTo (node 3) (vote_answer True) \<in> set (snd (qpos_interpret toy [node 1, node 3] (\<lambda>_. 0) 0 (node 3) (vote_request 1 0)
     (fst (qpos_interpret toy [node 1, node 3] (\<lambda>_. 0) 0 (node 1) (vote_request 1 0) ahead))))"
  using vote_granted_twice [of "node 1" ahead "node 3" "[node 1, node 3]" 1 0 0,
      OF _ _ _ _ _ _ _ _ _ _ _ _ _ prod.collapse [symmetric] prod.collapse [symmetric]]
  by (simp add: int32_def ahead_def)

text \<open>
  A heartbeat of a miner puts off the next election by the vote timeout and brings the node to the
  sender's view; a leader that hears a heartbeat of a higher view, or of its own view from a larger
  identity, stops being leader. Until the timeout the node sends nothing by itself.
\<close>

lemma heart_follows:
  assumes "p \<in> m_miners s" "int32 v" "qpos_interpret c peers t rnd p (heart v) s = (s', out)"
    and "t' 0 < t 0 + QPOS_VOTE_TIMEOUT"
  shows "m_currentView s' = v \<and> out = [] \<and> voteTick peers t' s' = (s', [])
    \<and> (m_isLeader s' \<longleftrightarrow> m_isLeader s \<and> v \<le> m_currentView s \<and> (v = m_currentView s \<longrightarrow> p \<le> q_id s))"
proof -
  have s': "s' = s\<lparr>m_isLeader := (m_isLeader s \<and> \<not> (m_currentView s < v \<or> v = m_currentView s \<and> q_id s < p)),
       m_currentView := v, m_voteTimeOut := t 0 + QPOS_VOTE_TIMEOUT\<rparr>" and out: "out = []"
    using interpret_heart [OF assms(1,2), of c peers t rnd] assms(3) by simp_all
  show ?thesis using assms(4) out unfolding s' by (auto simp: voteTick_def Let_def not_less)
qed

lemma heart_follows_witness:
  "m_currentView (fst (qpos_interpret toy [] (\<lambda>_. 0) 0 (node 1) (heart 3) (miner 2))) = 3"
  using heart_follows [of "node 1" "miner 2" 3 toy "[]" "\<lambda>_. 0" 0, OF _ _ prod.collapse [symmetric], of "\<lambda>_. 0"]
  by (simp add: int32_def QPOS_VOTE_TIMEOUT_def TIME_PER_SECOND_def)

end
