(* ===== verification/EVM_Types.thy ===== *)
theory EVM_Types
  imports Prelude
begin

section \<open>Instructions and gas schedules (\<open>libevm/Instruction\<close>, \<open>libethcore/EVMSchedule.h\<close>)\<close>

text \<open>
  The instruction set of the interpreter with the table of stack effects and price tiers, and the
  gas schedules of the forks. An instruction \<open>Instruction::X\<close> is the constructor \<open>I_X\<close>; the families
  \<open>PUSH1..32\<close>, \<open>DUP1..16\<close>, \<open>SWAP1..16\<close> and \<open>LOG0..4\<close> carry their number. Instructions that the build
  configuration (\<open>EIP_615\<close>, \<open>EIP_616\<close> and \<open>EVM_OPTIMIZE\<close> are false in \<open>VMConfig.h\<close>) turns into bad
  instructions, and bytes that are no instruction, are \<open>I_BAD\<close> with their code.
\<close>

subsection \<open>Instructions\<close>

datatype pure_op =
    I_ADD | I_MUL | I_SUB | I_DIV | I_SDIV | I_MOD | I_SMOD | I_ADDMOD | I_MULMOD | I_SIGNEXTEND
  | I_LT | I_GT | I_SLT | I_SGT | I_EQ | I_ISZERO | I_AND | I_OR | I_XOR | I_NOT | I_BYTE

datatype shift_op = I_SHL | I_SHR | I_SAR

datatype env_op = I_ADDRESS | I_ORIGIN | I_CALLER | I_CALLVALUE | I_CALLDATASIZE | I_CODESIZE | I_GASPRICE

datatype block_op = I_COINBASE | I_TIMESTAMP | I_NUMBER | I_DIFFICULTY | I_GASLIMIT

datatype machine_op = I_PC | I_MSIZE | I_GAS

datatype call_op = I_CALL | I_CALLCODE | I_DELEGATECALL | I_STATICCALL

datatype Instruction =
    I_STOP | I_Pure pure_op | I_Shift shift_op | I_EXP | I_SHA3 | I_Env env_op | I_Block block_op | I_Machine machine_op
  | I_BALANCE | I_CALLDATALOAD | I_CALLDATACOPY | I_CODECOPY | I_EXTCODESIZE | I_EXTCODECOPY
  | I_RETURNDATASIZE | I_RETURNDATACOPY | I_BLOCKHASH
  | I_POP | I_MLOAD | I_MSTORE | I_MSTORE8 | I_SLOAD | I_SSTORE | I_JUMP | I_JUMPI | I_JUMPDEST
  | I_PUSH nat | I_DUP nat | I_SWAP nat | I_LOG nat
  | I_CREATE | I_CREATE2 | I_Call call_op | I_RETURN | I_REVERT | I_SUICIDE | I_BAD nat

text \<open>\<open>Instruction (m_code[m_PC])\<close>: the enumeration's values.\<close>

definition decode_arith :: "nat \<Rightarrow> Instruction" where
  "decode_arith n =
     (if n = 0x00 then I_STOP
      else if n \<le> 0x09 then
        I_Pure ([I_ADD, I_ADD, I_MUL, I_SUB, I_DIV, I_SDIV, I_MOD, I_SMOD, I_ADDMOD, I_MULMOD] ! n)
      else if n = 0x0a then I_EXP
      else if n = 0x0b then I_Pure I_SIGNEXTEND
      else if n < 0x10 then I_BAD n
      else if n \<le> 0x1a then
        I_Pure ([I_LT, I_GT, I_SLT, I_SGT, I_EQ, I_ISZERO, I_AND, I_OR, I_XOR, I_NOT, I_BYTE] ! (n - 0x10))
      else if n \<le> 0x1d then I_Shift ([I_SHL, I_SHR, I_SAR] ! (n - 0x1b))
      else if n = 0x20 then I_SHA3
      else I_BAD n)"

definition decode_env :: "nat \<Rightarrow> Instruction" where
  "decode_env n =
     (if n = 0x30 then I_Env I_ADDRESS else if n = 0x31 then I_BALANCE
      else if n = 0x32 then I_Env I_ORIGIN else if n = 0x33 then I_Env I_CALLER
      else if n = 0x34 then I_Env I_CALLVALUE else if n = 0x35 then I_CALLDATALOAD
      else if n = 0x36 then I_Env I_CALLDATASIZE else if n = 0x37 then I_CALLDATACOPY
      else if n = 0x38 then I_Env I_CODESIZE else if n = 0x39 then I_CODECOPY
      else if n = 0x3a then I_Env I_GASPRICE else if n = 0x3b then I_EXTCODESIZE
      else if n = 0x3c then I_EXTCODECOPY else if n = 0x3d then I_RETURNDATASIZE
      else if n = 0x3e then I_RETURNDATACOPY else if n = 0x40 then I_BLOCKHASH
      else if n = 0x41 then I_Block I_COINBASE else if n = 0x42 then I_Block I_TIMESTAMP
      else if n = 0x43 then I_Block I_NUMBER else if n = 0x44 then I_Block I_DIFFICULTY
      else if n = 0x45 then I_Block I_GASLIMIT
      else I_BAD n)"

definition decode_flow :: "nat \<Rightarrow> Instruction" where
  "decode_flow n =
     (if n = 0x50 then I_POP else if n = 0x51 then I_MLOAD else if n = 0x52 then I_MSTORE
      else if n = 0x53 then I_MSTORE8 else if n = 0x54 then I_SLOAD else if n = 0x55 then I_SSTORE
      else if n = 0x56 then I_JUMP else if n = 0x57 then I_JUMPI else if n = 0x58 then I_Machine I_PC
      else if n = 0x59 then I_Machine I_MSIZE else if n = 0x5a then I_Machine I_GAS
      else if n = 0x5b then I_JUMPDEST
      else I_BAD n)"

definition decode_system :: "nat \<Rightarrow> Instruction" where
  "decode_system n =
     (if n = 0xf0 then I_CREATE else if n = 0xf1 then I_Call I_CALL else if n = 0xf2 then I_Call I_CALLCODE
      else if n = 0xf3 then I_RETURN else if n = 0xf4 then I_Call I_DELEGATECALL
      else if n = 0xfa then I_Call I_STATICCALL else if n = 0xfb then I_CREATE2
      else if n = 0xfd then I_REVERT else if n = 0xff then I_SUICIDE
      else I_BAD n)"

definition decode :: "byte \<Rightarrow> Instruction" where
  "decode b =
     (let n = unat b in
      if n < 0x30 then decode_arith n
      else if n < 0x50 then decode_env n
      else if n < 0x60 then decode_flow n
      else if n < 0x80 then I_PUSH (n - 0x60 + 1)
      else if n < 0x90 then I_DUP (n - 0x80 + 1)
      else if n < 0xa0 then I_SWAP (n - 0x90 + 1)
      else if n \<le> 0xa4 then I_LOG (n - 0xa0)
      else if n < 0xf0 then I_BAD n
      else decode_system n)"

subsection \<open>Stack effects and price tiers\<close>

datatype Tier = Zero | Base | VeryLow | Low | Mid | High | Ext | Special | Invalid

definition tier_index :: "Tier \<Rightarrow> nat" where
  "tier_index t =
     (case t of Zero \<Rightarrow> 0 | Base \<Rightarrow> 1 | VeryLow \<Rightarrow> 2 | Low \<Rightarrow> 3 | Mid \<Rightarrow> 4 | High \<Rightarrow> 5 | Ext \<Rightarrow> 6
      | Special \<Rightarrow> 7 | Invalid \<Rightarrow> 8)"

type_synonym metric = "nat \<times> nat \<times> Tier" \<comment> \<open>args, ret, tier\<close>

definition pure_metric :: "pure_op \<Rightarrow> metric" where
  "pure_metric p =
     (case p of
        I_ADD \<Rightarrow> (2, 1, VeryLow) | I_SUB \<Rightarrow> (2, 1, VeryLow) | I_MUL \<Rightarrow> (2, 1, Low) | I_DIV \<Rightarrow> (2, 1, Low)
      | I_SDIV \<Rightarrow> (2, 1, Low) | I_MOD \<Rightarrow> (2, 1, Low) | I_SMOD \<Rightarrow> (2, 1, Low) | I_NOT \<Rightarrow> (1, 1, VeryLow)
      | I_LT \<Rightarrow> (2, 1, VeryLow) | I_GT \<Rightarrow> (2, 1, VeryLow) | I_SLT \<Rightarrow> (2, 1, VeryLow) | I_SGT \<Rightarrow> (2, 1, VeryLow)
      | I_EQ \<Rightarrow> (2, 1, VeryLow) | I_ISZERO \<Rightarrow> (1, 1, VeryLow) | I_AND \<Rightarrow> (2, 1, VeryLow)
      | I_OR \<Rightarrow> (2, 1, VeryLow) | I_XOR \<Rightarrow> (2, 1, VeryLow) | I_BYTE \<Rightarrow> (2, 1, VeryLow)
      | I_ADDMOD \<Rightarrow> (3, 1, Mid) | I_MULMOD \<Rightarrow> (3, 1, Mid) | I_SIGNEXTEND \<Rightarrow> (2, 1, Low))"

text \<open>The rows of the disabled instructions; a byte without a row has the tier \<open>Invalid\<close>.\<close>

definition bad_metric :: "nat \<Rightarrow> metric" where
  "bad_metric n =
     (if n = 0xfe then (0, 0, Zero)
      else if n = 0xac then (0, 1, VeryLow) else if n = 0xad then (1, 0, Mid) else if n = 0xae then (2, 0, High)
      else if n = 0xb0 then (1, 0, VeryLow) else if n = 0xb1 then (2, 0, Low) else if n = 0xb2 then (1, 0, Low)
      else if n = 0xb3 then (1, 0, Mid) else if n = 0xb4 then (1, 0, Mid) else if n = 0xb5 then (0, 0, Special)
      else if n = 0xb6 then (0, 0, Special) else if n = 0xb7 then (1, 0, Mid) else if n = 0xb8 then (1, 0, VeryLow)
      else if n = 0xb9 then (0, 1, VeryLow)
      else if n = 0xc1 then (0, 0, Special)
      else if 0xc2 \<le> n \<and> n \<le> 0xc7 then (2, 1, Special)
      else if n = 0xd6 then (1, 1, Special)
      else if n = 0xd7 then (0, 0, Invalid)
      else if 0xd0 \<le> n \<and> n \<le> 0xd9 \<or> 0xdb \<le> n \<and> n \<le> 0xdf then (2, 1, Special)
      else if n = 0xe0 then (1, 1, VeryLow) else if n = 0xe1 then (1, 1, VeryLow) else if n = 0xe2 then (2, 0, VeryLow)
      else if n = 0xe4 then (1, 1, Special) else if n = 0xe5 then (2, 0, Special)
      else if n = 0xe6 then (1, 1, VeryLow) else if n = 0xe7 then (1, 1, VeryLow)
      else if n = 0xe8 then (2, 1, Special) else if n = 0xe9 then (3, 1, Special)
      else if n = 0xea then (2, 1, Special) else if n = 0xeb then (3, 1, Special)
      else (0, 0, Invalid))"

definition instruction_metric :: "Instruction \<Rightarrow> metric" where
  "instruction_metric op =
     (case op of
        I_STOP \<Rightarrow> (0, 0, Zero) | I_Pure p \<Rightarrow> pure_metric p | I_Shift _ \<Rightarrow> (2, 1, VeryLow)
      | I_EXP \<Rightarrow> (2, 1, Special) | I_SHA3 \<Rightarrow> (2, 1, Special) | I_Env _ \<Rightarrow> (0, 1, Base)
      | I_Block _ \<Rightarrow> (0, 1, Base) | I_Machine _ \<Rightarrow> (0, 1, Base)
      | I_BALANCE \<Rightarrow> (1, 1, Special) | I_CALLDATALOAD \<Rightarrow> (1, 1, VeryLow) | I_CALLDATACOPY \<Rightarrow> (3, 0, VeryLow)
      | I_CODECOPY \<Rightarrow> (3, 0, VeryLow) | I_EXTCODESIZE \<Rightarrow> (1, 1, Special) | I_EXTCODECOPY \<Rightarrow> (4, 0, Special)
      | I_RETURNDATASIZE \<Rightarrow> (0, 1, Base) | I_RETURNDATACOPY \<Rightarrow> (3, 0, VeryLow) | I_BLOCKHASH \<Rightarrow> (1, 1, Special)
      | I_POP \<Rightarrow> (1, 0, Base) | I_MLOAD \<Rightarrow> (1, 1, VeryLow) | I_MSTORE \<Rightarrow> (2, 0, VeryLow)
      | I_MSTORE8 \<Rightarrow> (2, 0, VeryLow) | I_SLOAD \<Rightarrow> (1, 1, Special) | I_SSTORE \<Rightarrow> (2, 0, Special)
      | I_JUMP \<Rightarrow> (1, 0, Mid) | I_JUMPI \<Rightarrow> (2, 0, High) | I_JUMPDEST \<Rightarrow> (0, 0, Special)
      | I_PUSH _ \<Rightarrow> (0, 1, VeryLow) | I_DUP n \<Rightarrow> (n, n + 1, VeryLow) | I_SWAP n \<Rightarrow> (n + 1, n + 1, VeryLow)
      | I_LOG n \<Rightarrow> (n + 2, 0, Special)
      | I_CREATE \<Rightarrow> (3, 1, Special) | I_CREATE2 \<Rightarrow> (4, 1, Special)
      | I_Call c \<Rightarrow> (if c = I_CALL \<or> c = I_CALLCODE then (7, 1, Special) else (6, 1, Special))
      | I_RETURN \<Rightarrow> (2, 0, Zero) | I_REVERT \<Rightarrow> (2, 0, Special) | I_SUICIDE \<Rightarrow> (1, 0, Special)
      | I_BAD n \<Rightarrow> bad_metric n)"

subsection \<open>Gas schedules\<close>

record EVMSchedule =
  exceptionalFailedCodeDeposit :: bool
  haveDelegateCall :: bool
  eip150Mode :: bool
  eip158Mode :: bool
  haveBitwiseShifting :: bool
  haveRevert :: bool
  haveReturnData :: bool
  haveStaticCall :: bool
  haveCreate2 :: bool
  tierStepGas :: "nat list"
  expGas :: nat
  expByteGas :: nat
  sha3Gas :: nat
  sha3WordGas :: nat
  sloadGas :: nat
  sstoreSetGas :: nat
  sstoreResetGas :: nat
  sstoreRefundGas :: nat
  logGas :: nat
  logDataGas :: nat
  logTopicGas :: nat
  createGas :: nat
  callGas :: nat
  callStipend :: nat
  callValueTransferGas :: nat
  callNewAccountGas :: nat
  memoryGas :: nat
  quadCoeffDiv :: nat
  copyGas :: nat
  extcodesizeGas :: nat
  extcodecopyGas :: nat
  balanceGas :: nat
  suicideGas :: nat
  blockhashGas :: nat
  suicideRefundGas :: nat
  createDataGas :: nat
  txGas :: nat
  txCreateGas :: nat
  txDataZeroGas :: nat
  txDataNonZeroGas :: nat
  maxCodeSize :: nat

definition DefaultSchedule :: EVMSchedule where
  "DefaultSchedule =
     \<lparr>exceptionalFailedCodeDeposit = True, haveDelegateCall = True, eip150Mode = False, eip158Mode = False,
      haveBitwiseShifting = False, haveRevert = False, haveReturnData = False, haveStaticCall = False,
      haveCreate2 = False, tierStepGas = [0, 2, 3, 5, 8, 10, 20, 0],
      expGas = 10, expByteGas = 10, sha3Gas = 30, sha3WordGas = 6, sloadGas = 50, sstoreSetGas = 20000,
      sstoreResetGas = 5000, sstoreRefundGas = 15000, logGas = 375, logDataGas = 8, logTopicGas = 375,
      createGas = 32000, callGas = 40, callStipend = 2300, callValueTransferGas = 9000,
      callNewAccountGas = 25000, memoryGas = 3, quadCoeffDiv = 512, copyGas = 3, extcodesizeGas = 20,
      extcodecopyGas = 20, balanceGas = 20, suicideGas = 0, blockhashGas = 20, suicideRefundGas = 24000,
      createDataGas = 200, txGas = 21000, txCreateGas = 53000, txDataZeroGas = 4, txDataNonZeroGas = 68,
      maxCodeSize = 2 ^ 32 - 1\<rparr>"

definition FrontierSchedule :: EVMSchedule where
  "FrontierSchedule = DefaultSchedule\<lparr>exceptionalFailedCodeDeposit := False, haveDelegateCall := False, txCreateGas := 21000\<rparr>"

definition HomesteadSchedule :: EVMSchedule where
  "HomesteadSchedule = DefaultSchedule"

definition EIP150Schedule :: EVMSchedule where
  "EIP150Schedule = HomesteadSchedule\<lparr>eip150Mode := True, extcodesizeGas := 700, extcodecopyGas := 700,
     balanceGas := 400, sloadGas := 200, callGas := 700, suicideGas := 5000\<rparr>"

definition EIP158Schedule :: EVMSchedule where
  "EIP158Schedule = EIP150Schedule\<lparr>expByteGas := 50, eip158Mode := True, maxCodeSize := 0x6000\<rparr>"

definition ByzantiumSchedule :: EVMSchedule where
  "ByzantiumSchedule = EIP158Schedule\<lparr>haveRevert := True, haveReturnData := True, haveStaticCall := True\<rparr>"

definition EWASMSchedule :: EVMSchedule where
  "EWASMSchedule = ByzantiumSchedule\<lparr>maxCodeSize := 2 ^ 32 - 1, txDataZeroGas := txDataNonZeroGas ByzantiumSchedule\<rparr>"

definition ConstantinopleSchedule :: EVMSchedule where
  "ConstantinopleSchedule = ByzantiumSchedule\<lparr>blockhashGas := 800, haveCreate2 := True, haveBitwiseShifting := True\<rparr>"

definition staticCallDepthLimit :: "EVMSchedule \<Rightarrow> bool" where
  "staticCallDepthLimit s = (\<not> eip150Mode s)"

definition suicideChargesNewAccountGas :: "EVMSchedule \<Rightarrow> bool" where
  "suicideChargesNewAccountGas s = eip150Mode s"

definition emptinessIsNonexistence :: "EVMSchedule \<Rightarrow> bool" where
  "emptinessIsNonexistence s = eip158Mode s"

definition zeroValueTransferChargesNewAccountGas :: "EVMSchedule \<Rightarrow> bool" where
  "zeroValueTransferChargesNewAccountGas s = (\<not> eip158Mode s)"

lemmas schedule_defs = DefaultSchedule_def FrontierSchedule_def HomesteadSchedule_def EIP150Schedule_def
  EIP158Schedule_def ByzantiumSchedule_def EWASMSchedule_def ConstantinopleSchedule_def

end
