(* ===== verification/EVM_Arith.thy ===== *)
theory EVM_Arith
  imports EVM_Types "HOL-Library.Signed_Division"
begin

section \<open>Arithmetic of the interpreter (\<open>libevm/LegacyVM\<close>)\<close>

text \<open>
  The instructions that only compute on the stack, as the cases of \<open>interpretCases\<close> compute them, and
  \<open>exp256\<close>. \<open>m_SP[k]\<close> is \<open>sp ! k\<close>. The 512-bit intermediates of the code are natural numbers or
  integers: they cannot overflow. The lemmas below give each non-trivial one its meaning.
\<close>

unbundle bit_operations_syntax

subsection \<open>Signed readings (\<open>libdevcore/Common.h\<close>)\<close>

definition u2s :: "u256 \<Rightarrow> int" where
  "u2s u = (if bit u 255 then - (2 ^ 256 - uint u) else uint u)"

definition s2u :: "int \<Rightarrow> u256" where
  "s2u i = (if i \<ge> 0 then word_of_int i else word_of_int (2 ^ 256 + i))"

text \<open>\<open>divWorkaround\<close> and \<open>modWorkaround\<close>: division of C++, towards zero.\<close>

definition divWorkaround :: "int \<Rightarrow> int \<Rightarrow> int" where
  "divWorkaround a b = a sdiv b"

definition modWorkaround :: "int \<Rightarrow> int \<Rightarrow> int" where
  "modWorkaround a b = a smod b"

abbreviation bool256 :: "bool \<Rightarrow> u256" where
  "bool256 b \<equiv> (if b then 1 else 0)"

definition eval_ADDMOD :: "u256 list \<Rightarrow> u256" where
  "eval_ADDMOD sp =
     (if sp ! 2 \<noteq> 0 then of_nat ((unat (sp ! 0) + unat (sp ! 1)) mod unat (sp ! 2)) else 0)"

definition eval_MULMOD :: "u256 list \<Rightarrow> u256" where
  "eval_MULMOD sp =
     (if sp ! 2 \<noteq> 0 then of_nat ((unat (sp ! 0) * unat (sp ! 1)) mod unat (sp ! 2)) else 0)"

text \<open>\<open>SIGNEXTEND\<close> changes \<open>m_SP[1]\<close> in place, which is \<open>m_SPP[0]\<close>.\<close>

definition eval_SIGNEXTEND :: "u256 list \<Rightarrow> u256" where
  "eval_SIGNEXTEND sp =
     (if sp ! 0 < 31 then
        let testBit = unat (sp ! 0) * 8 + 7; number = sp ! 1; mask = push_bit testBit 1 - 1 in
        (if bit number testBit then number OR NOT mask else number AND mask)
      else sp ! 1)"

definition pure_eval :: "pure_op \<Rightarrow> u256 list \<Rightarrow> u256" where
  "pure_eval p sp =
     (case p of
        I_ADD \<Rightarrow> sp ! 0 + sp ! 1
      | I_MUL \<Rightarrow> sp ! 0 * sp ! 1
      | I_SUB \<Rightarrow> sp ! 0 - sp ! 1
      | I_DIV \<Rightarrow> if sp ! 1 \<noteq> 0 then word_of_int (divWorkaround (uint (sp ! 0)) (uint (sp ! 1))) else 0
      | I_SDIV \<Rightarrow> if sp ! 1 \<noteq> 0 then s2u (divWorkaround (u2s (sp ! 0)) (u2s (sp ! 1))) else 0
      | I_MOD \<Rightarrow> if sp ! 1 \<noteq> 0 then word_of_int (modWorkaround (uint (sp ! 0)) (uint (sp ! 1))) else 0
      | I_SMOD \<Rightarrow> if sp ! 1 \<noteq> 0 then s2u (modWorkaround (u2s (sp ! 0)) (u2s (sp ! 1))) else 0
      | I_ADDMOD \<Rightarrow> eval_ADDMOD sp
      | I_MULMOD \<Rightarrow> eval_MULMOD sp
      | I_SIGNEXTEND \<Rightarrow> eval_SIGNEXTEND sp
      | I_LT \<Rightarrow> bool256 (sp ! 0 < sp ! 1)
      | I_GT \<Rightarrow> bool256 (sp ! 0 > sp ! 1)
      | I_SLT \<Rightarrow> bool256 (u2s (sp ! 0) < u2s (sp ! 1))
      | I_SGT \<Rightarrow> bool256 (u2s (sp ! 0) > u2s (sp ! 1))
      | I_EQ \<Rightarrow> bool256 (sp ! 0 = sp ! 1)
      | I_ISZERO \<Rightarrow> (if sp ! 0 \<noteq> 0 then 0 else 1)
      | I_AND \<Rightarrow> sp ! 0 AND sp ! 1
      | I_OR \<Rightarrow> sp ! 0 OR sp ! 1
      | I_XOR \<Rightarrow> sp ! 0 XOR sp ! 1
      | I_NOT \<Rightarrow> NOT (sp ! 0)
      | I_BYTE \<Rightarrow>
          if sp ! 0 < 32 then drop_bit (8 * (31 - unat (sp ! 0))) (sp ! 1) AND 0xff else 0)"

definition shift_eval :: "shift_op \<Rightarrow> u256 list \<Rightarrow> u256" where
  "shift_eval p sp =
     (case p of
        I_SHL \<Rightarrow> if sp ! 0 \<ge> 256 then 0 else push_bit (unat (sp ! 0)) (sp ! 1)
      | I_SHR \<Rightarrow> if sp ! 0 \<ge> 256 then 0 else drop_bit (unat (sp ! 0)) (sp ! 1)
      | I_SAR \<Rightarrow>
          let hibit = push_bit 255 1; allbits = - 1; shiftee = sp ! 1 in
          if sp ! 0 \<ge> 256 then (if shiftee AND hibit \<noteq> 0 then allbits else 0)
          else
            let amount = unat (sp ! 0) in
            (if shiftee AND hibit \<noteq> 0
             then drop_bit amount shiftee OR push_bit (256 - amount) allbits
             else drop_bit amount shiftee))"

text \<open>\<open>exp256\<close>: square and multiply.\<close>

function exp256_loop :: "u256 \<Rightarrow> u256 \<Rightarrow> u256 \<Rightarrow> u256" where
  "exp256_loop result base exponent =
     (if exponent = 0 then result
      else exp256_loop (if odd exponent then result * base else result) (base * base) (drop_bit 1 exponent))"
  by auto

lemma unat_half: "unat (drop_bit 1 (x :: u256)) = unat x div 2"
  by (subst unat_drop_bit_eq, subst drop_bit_eq_div, subst power_one_right, rule refl)

lemma drop_bit_less: "x \<noteq> 0 \<Longrightarrow> unat (drop_bit 1 (x :: u256)) < unat x"
  unfolding unat_half by (simp add: unat_gt_0)

termination exp256_loop
  by (relation "measure (\<lambda>(_, _, e). unat e)") (use drop_bit_less in \<open>auto simp del: One_nat_def\<close>)

declare exp256_loop.simps [simp del]

definition exp256 :: "u256 \<Rightarrow> u256 \<Rightarrow> u256" where
  "exp256 base exponent = exp256_loop 1 base exponent"

subsection \<open>What they compute\<close>

lemma u2s_sint: "u2s u = sint u"
proof -
  have "take_bit 256 (uint u) = uint u" by (rule bintr_uint) simp
  then have "sint u = uint u - 2 ^ 256 * of_bool (bit u 255)"
    by (subst sint_uint, subst signed_take_bit_eq_take_bit_minus) (simp add: bit_uint_iff)
  then show ?thesis by (simp add: u2s_def)
qed

lemma s2u_word: "s2u i = word_of_int i"
proof -
  have "word_of_int (2 ^ 256 + i) = (word_of_int i :: u256)"
    by (rule word_of_int_eq_iff [THEN iffD2]) (simp add: take_bit_eq_mod)
  then show ?thesis by (simp add: s2u_def)
qed

lemma exp256_loop: "exp256_loop result base exponent = result * base ^ unat exponent"
proof (induction result base exponent rule: exp256_loop.induct)
  case (1 result base exponent)
  show ?case
  proof (cases "exponent = 0")
    case True
    then show ?thesis by (simp add: exp256_loop.simps)
  next
    case False
    note half = unat_half [of exponent]
    have odd: "odd exponent = odd (unat exponent)" by (simp add: bit_unsigned_iff flip: bit_0)
    have "(base * base) ^ (unat exponent div 2) = base ^ (2 * (unat exponent div 2))"
      by (simp add: power_mult power2_eq_square)
    moreover have "odd (unat exponent) \<Longrightarrow> Suc (2 * (unat exponent div 2)) = unat exponent"
      "even (unat exponent) \<Longrightarrow> 2 * (unat exponent div 2) = unat exponent" by simp_all
    ultimately show ?thesis
      using 1 [OF False] False odd half
      by (subst exp256_loop.simps) (auto simp: mult.assoc power_Suc [symmetric] simp del: power_Suc One_nat_def)
  qed
qed

lemma exp256_power: "exp256 base exponent = base ^ unat exponent"
  by (simp add: exp256_def exp256_loop)

lemma bit_u256: "bit (x :: u256) n \<Longrightarrow> n < 256"
  using bit_imp_le_length [of x n] by simp

lemma u256_eqI: "(\<And>n. n < 256 \<Longrightarrow> bit x n = bit y n) \<Longrightarrow> x = (y :: u256)"
  using bit_u256 by (intro bit_eqI) blast

lemma bit_NOT_u256: "n < 256 \<Longrightarrow> bit (NOT x) n \<longleftrightarrow> \<not> bit (x :: u256) n"
  by (simp add: bit_not_iff possible_bit_def)

lemma mask_u256: "push_bit n 1 - 1 = (mask n :: u256)"
  by (simp add: mask_eq_exp_minus_1 push_bit_eq_mult)

text \<open>\<open>SIGNEXTEND\<close>: the low \<open>8 (k + 1)\<close> bits, sign-extended.\<close>

lemma signextend_spec:
  assumes "k < 31"
  shows "pure_eval I_SIGNEXTEND [k, x] = word_of_int (signed_take_bit (8 * unat k + 7) (uint x))"
proof -
  define m where "m = 8 * unat k + 7"
  have "unat k < 31" using assms by (simp add: word_less_nat_alt)
  then have m: "m < 255" by (simp add: m_def)
  have "pure_eval I_SIGNEXTEND [k, x] = (if bit x m then x OR NOT (mask m) else x AND mask m)"
    using assms by (simp add: pure_eval_def eval_SIGNEXTEND_def Let_def mask_eq_exp_minus_1 m_def mult.commute add.commute)
  also have "\<dots> = word_of_int (signed_take_bit m (uint x))"
    using m by (intro u256_eqI)
      (auto simp: bit_simps bit_or_iff bit_and_iff bit_NOT_u256 bit_mask_iff bit_signed_take_bit_iff bit_uint_iff
        bit_word_of_int_iff possible_bit_def min_def not_less)
  finally show ?thesis by (simp add: m_def)
qed

text \<open>\<open>SAR\<close>: division by a power of two, rounding down.\<close>

definition hibit256 :: u256 where
  "hibit256 = push_bit 255 1"

lemma bit_hibit: "bit hibit256 n \<longleftrightarrow> n = 255"
  unfolding hibit256_def bit_push_bit_iff bit_1_iff by (auto simp: possible_bit_def)

lemma hibit_AND: "(x AND hibit256 \<noteq> 0) = bit x 255"
proof
  assume "bit x 255"
  then have "bit (x AND hibit256) 255" by (simp add: bit_and_iff bit_hibit)
  then show "x AND hibit256 \<noteq> 0" by auto
next
  assume "x AND hibit256 \<noteq> 0"
  then obtain n where "bit (x AND hibit256) n" using bit_eqI [of "x AND hibit256" 0] by auto
  then show "bit x 255" by (auto simp: bit_and_iff bit_hibit)
qed

lemma bit_sint_u256: "bit (sint x) n \<longleftrightarrow> bit (x :: u256) (min 255 n)"
proof -
  have "sint x = signed_take_bit 255 (uint x)" by (simp add: sint_uint)
  then show ?thesis by (simp only: bit_signed_take_bit_iff bit_uint_iff) (auto simp: possible_bit_def min_def)
qed

lemma sar_eval:
  "shift_eval I_SAR [n, x] =
     (if n \<ge> 256 then (if bit x 255 then - 1 else 0)
      else if bit x 255 then drop_bit (unat n) x OR push_bit (256 - unat n) (- 1) else drop_bit (unat n) x)"
  unfolding shift_eval_def Let_def hibit256_def [symmetric] hibit_AND by simp

lemma sar_spec: "shift_eval I_SAR [n, x] = word_of_int (sint x div 2 ^ unat n)"
proof -
  have bits: "bit (word_of_int (sint x div 2 ^ k) :: u256) j \<longleftrightarrow> bit x (min 255 (j + k))"
    if "j < 256" for j k
    using that unfolding drop_bit_eq_div [symmetric] bit_word_of_int_iff bit_drop_bit_eq comp_def bit_sint_u256
    by (auto simp: add.commute)
  show ?thesis
  proof (cases "n \<ge> 256")
    case True
    then have "256 \<le> unat n" by (simp add: word_le_nat_alt)
    then show ?thesis
      using True bits
      by (intro u256_eqI) (simp add: sar_eval min_absorb1)
  next
    case False
    then have n: "unat n < 256" by (simp add: word_le_nat_alt)
    show ?thesis
    proof (rule u256_eqI)
      fix j :: nat assume j: "j < 256"
      have fill: "bit (push_bit (256 - unat n) (- 1 :: u256)) j \<longleftrightarrow> 256 \<le> j + unat n"
        using j n by (auto simp: bit_not_iff bit_mask_iff possible_bit_def)
      consider "j + unat n < 256" "min 255 (j + unat n) = j + unat n"
        | "256 \<le> j + unat n" "min 255 (j + unat n) = 255" "\<not> bit x (j + unat n)"
        using bit_u256 [of x "j + unat n"] by linarith
      then show "bit (shift_eval I_SAR [n, x]) j = bit (word_of_int (sint x div 2 ^ unat n) :: u256) j"
        unfolding bits [OF j] sar_eval using False fill
        by cases (auto simp: bit_or_iff bit_drop_bit_eq add.commute)
    qed
  qed
qed

text \<open>\<open>BYTE\<close>: a byte of the big-endian form.\<close>

lemma byte_spec:
  assumes "k < 32"
  shows "pure_eval I_BYTE [k, x] = of_nat (unat x div 256 ^ (31 - unat k) mod 256)"
proof -
  have "unat (drop_bit (8 * (31 - unat k)) x AND 0xff) = unat x div 256 ^ (31 - unat k) mod 256"
  proof -
    have "(0xff :: u256) = mask 8" by (simp add: mask_eq_exp_minus_1)
    then have "unat (drop_bit (8 * (31 - unat k)) x AND 0xff) = take_bit 8 (unat (drop_bit (8 * (31 - unat k)) x))"
      by (simp only: unsigned_take_bit_eq flip: take_bit_eq_mask)
    also have "\<dots> = unat x div 2 ^ (8 * (31 - unat k)) mod 2 ^ 8"
      by (subst unat_drop_bit_eq) (simp only: drop_bit_eq_div take_bit_eq_mod)
    finally show ?thesis by (simp add: power_mult)
  qed
  then show ?thesis
    using assms unfolding pure_eval_def by simp (metis of_nat_unat ucast_id)
qed

end
