(* ===== verification/EVM.thy ===== *)
theory EVM
  imports EVM_Arith
begin

section \<open>The bytecode interpreter (\<open>libevm/LegacyVM\<close>, \<open>LegacyVMCalls\<close>, \<open>LegacyVMOpt\<close>)\<close>

text \<open>
  One pass of the dispatch loop of \<open>LegacyVM::interpretCases\<close> as a function on the interpreter's
  state. \<open>m_stack\<close> is the part of the array between \<open>m_SP\<close> and \<open>m_stackEnd\<close>, top first, so \<open>m_SP[k]\<close> is
  \<open>m_stack v ! k\<close>; machine integers are natural numbers with every conversion and every addition that
  could wrap written out. A thrown exception carries the state at the throw, because \<open>exec\<close> reports
  \<open>m_io_gas\<close> as it was then. Reading or writing outside \<open>m_code\<close> or \<open>m_mem\<close>, undefined in the code, is
  the result \<open>OutOfBounds\<close>; a sub-call that never comes back is \<open>NoReturn\<close>. The world outside (\<open>ExtVMFace\<close>) is a record of the operations the
  interpreter calls, on a state of any type.
\<close>

type_synonym address = bytes

datatype vm_error =
    OutOfGas | BadInstruction | BadJumpDestination | StackUnderflow | OutOfStack
  | DisallowedStateChange | BufferOverrun | RevertInstruction bytes
  | OutOfBounds \<comment> \<open>undefined behaviour\<close>
  | NoReturn \<comment> \<open>a sub-call runs forever or ends the process\<close>

record 'e vm =
  m_PC :: nat
  m_stack :: "u256 list"
  m_mem :: bytes
  m_io_gas :: nat
  m_returnData :: bytes
  m_ext :: 'e

type_synonym ('e, 'a) vmr = "vm_error \<times> 'e vm + 'a"

datatype 'e vm_result = Next "'e vm" | Halt "'e vm" bytes

text \<open>The members of \<open>ExtVMFace\<close> that do not change during a run.\<close>

record vm_env =
  e_schedule :: EVMSchedule
  e_myAddress :: address
  e_caller :: address
  e_origin :: address
  e_value :: u256
  e_gasPrice :: u256
  e_data :: bytes
  e_code :: bytes
  e_depth :: nat
  e_staticCall :: bool
  e_author :: address
  e_timestamp :: int
  e_number :: int
  e_difficulty :: u256
  e_gasLimit :: u256

record CallParameters =
  senderAddress :: address
  codeAddress :: address
  receiveAddress :: address
  valueTransfer :: u256
  apparentValue :: u256
  call_gas :: nat
  call_data :: bytes
  call_static :: bool

record 'e ext_ops =
  x_store :: "'e \<Rightarrow> u256 \<Rightarrow> u256"
  x_setStore :: "u256 \<Rightarrow> u256 \<Rightarrow> 'e \<Rightarrow> 'e"
  x_balance :: "'e \<Rightarrow> address \<Rightarrow> u256"
  x_exists :: "'e \<Rightarrow> address \<Rightarrow> bool"
  x_codeAt :: "'e \<Rightarrow> address \<Rightarrow> bytes"
  x_codeSizeAt :: "'e \<Rightarrow> address \<Rightarrow> nat"
  x_suicide :: "address \<Rightarrow> 'e \<Rightarrow> 'e option" \<comment> \<open>\<open>None\<close> when it ends the process\<close>
  x_log :: "u256 list \<Rightarrow> bytes \<Rightarrow> 'e \<Rightarrow> 'e"
  x_blockHash :: "'e \<Rightarrow> u256 \<Rightarrow> bytes"
  x_refund :: "nat \<Rightarrow> 'e \<Rightarrow> 'e" \<comment> \<open>\<open>sub.refunds += n\<close>\<close>
  x_create :: "u256 \<Rightarrow> nat \<Rightarrow> bytes \<Rightarrow> Instruction \<Rightarrow> u256 \<Rightarrow> 'e \<Rightarrow> ('e \<times> nat \<times> address \<times> bytes) option"
    \<comment> \<open>\<open>create\<close>: the new state, the gas left, the address and the output; \<open>None\<close> when it does not return\<close>
  x_call :: "CallParameters \<Rightarrow> 'e \<Rightarrow> ('e \<times> nat \<times> bool \<times> bytes) option"
    \<comment> \<open>\<open>call\<close>: the new state, the gas left, success and the output; \<open>None\<close> when it does not return\<close>
  x_sha3 :: "bytes \<Rightarrow> bytes"

subsection \<open>Conversions\<close>

definition fromBytes32 :: "bytes \<Rightarrow> u256" where
  "fromBytes32 b = of_nat (fromBigEndian b)"

definition toBytes32 :: "u256 \<Rightarrow> bytes" where
  "toBytes32 w = toBigEndian 32 (unat w)"

definition asAddress :: "u256 \<Rightarrow> address" where
  "asAddress w = drop 12 (toBytes32 w)"

definition fromAddress :: "address \<Rightarrow> u256" where
  "fromAddress a = of_nat (fromBigEndian a)"

abbreviation uint64 :: "u256 \<Rightarrow> nat" where
  "uint64 w \<equiv> unat w mod 2 ^ 64"

abbreviation uint32 :: "u256 \<Rightarrow> nat" where
  "uint32 w \<equiv> unat w mod 2 ^ 32"

text \<open>\<open>FixedHash::firstBitSet\<close>.\<close>

fun firstBitSet :: "bytes \<Rightarrow> nat" where
  "firstBitSet [] = 0"
| "firstBitSet (d # ds) =
     (if d \<noteq> 0 then length (takeWhile (\<lambda>k. \<not> bit d (7 - k)) [0..<8]) else 8 + firstBitSet ds)"

subsection \<open>Metering\<close>

definition fail :: "vm_error \<Rightarrow> 'e vm \<Rightarrow> ('e, 'a) vmr" where
  "fail e v = Inl (e, v)"

definition toInt63 :: "'e vm \<Rightarrow> nat \<Rightarrow> ('e, nat) vmr" where
  "toInt63 v n = (if n > 0x7FFFFFFFFFFFFFFF then fail OutOfGas v else Inr n)"

definition memNeed :: "'e vm \<Rightarrow> u256 \<Rightarrow> u256 \<Rightarrow> ('e, nat) vmr" where
  "memNeed v off sz = toInt63 v (if sz \<noteq> 0 then unat off + unat sz else 0)"

definition gasForMem :: "EVMSchedule \<Rightarrow> 'e vm \<Rightarrow> nat \<Rightarrow> ('e, nat) vmr" where
  "gasForMem S v sz =
     (let s = sz div 32 in toInt63 v (memoryGas S * s + s * s div quadCoeffDiv S))"

definition updateIOGas :: "nat \<Rightarrow> 'e vm \<Rightarrow> ('e, 'e vm) vmr" where
  "updateIOGas runGas v =
     (if m_io_gas v < runGas then fail OutOfGas v else Inr (v\<lparr>m_io_gas := m_io_gas v - runGas\<rparr>))"

definition updateGas :: "EVMSchedule \<Rightarrow> nat \<Rightarrow> nat \<Rightarrow> nat \<Rightarrow> 'e vm \<Rightarrow> ('e, nat) vmr" where
  "updateGas S newMemSize copyMemSize runGas v =
     ebind (if newMemSize > length (m_mem v)
            then ebind (gasForMem S v newMemSize) (\<lambda>a.
                 ebind (gasForMem S v (length (m_mem v))) (\<lambda>b.
                 ebind (toInt63 v ((a + 2 ^ 64 - b) mod 2 ^ 64)) (\<lambda>d.
                 Inr ((runGas + d) mod 2 ^ 64))))
            else Inr runGas) (\<lambda>g.
     let g' = (g + copyGas S * ((copyMemSize + 31) div 32)) mod 2 ^ 64 in
     if m_io_gas v < g' then fail OutOfGas v else Inr g')"

definition updateMem :: "EVMSchedule \<Rightarrow> nat \<Rightarrow> nat \<Rightarrow> nat \<Rightarrow> 'e vm \<Rightarrow> ('e, nat \<times> 'e vm) vmr" where
  "updateMem S newMem copyMemSize runGas v =
     (let newMemSize = (newMem + 31) div 32 * 32 in
      ebind (updateGas S newMemSize copyMemSize runGas v) (\<lambda>g.
        Inr (g, if newMemSize > length (m_mem v)
                then v\<lparr>m_mem := m_mem v @ replicate (newMemSize - length (m_mem v)) 0\<rparr> else v)))"

text \<open>\<open>updateMem (...); updateIOGas ();\<close>\<close>

definition payMem :: "EVMSchedule \<Rightarrow> nat \<Rightarrow> nat \<Rightarrow> nat \<Rightarrow> 'e vm \<Rightarrow> ('e, 'e vm) vmr" where
  "payMem S newMem copyMemSize runGas v =
     ebind (updateMem S newMem copyMemSize runGas v) (\<lambda>(g, v). updateIOGas g v)"

subsection \<open>Memory\<close>

definition mem_slice :: "'e vm \<Rightarrow> nat \<Rightarrow> nat \<Rightarrow> ('e, bytes) vmr" where
  "mem_slice v off sz =
     (if sz = 0 then Inr []
      else if off + sz \<le> length (m_mem v) then Inr (take sz (drop off (m_mem v)))
      else fail OutOfBounds v)"

definition mem_write :: "'e vm \<Rightarrow> nat \<Rightarrow> bytes \<Rightarrow> ('e, 'e vm) vmr" where
  "mem_write v off bs =
     (if bs = [] then Inr v
      else if off + length bs \<le> length (m_mem v)
      then Inr (v\<lparr>m_mem := take off (m_mem v) @ bs @ drop (off + length bs) (m_mem v)\<rparr>)
      else fail OutOfBounds v)"

text \<open>\<open>copyDataToMemory (_data, _sp)\<close>: what lies past the end of the data is zero.\<close>

definition copyDataToMemory :: "bytes \<Rightarrow> u256 list \<Rightarrow> 'e vm \<Rightarrow> ('e, 'e vm) vmr" where
  "copyDataToMemory d sp v =
     (let offset = uint64 (sp ! 0); bigIndex = unat (sp ! 1); index = bigIndex mod 2 ^ 64;
          sz = uint64 (sp ! 2);
          sizeToBeCopied =
            (if bigIndex + sz > length d
             then (if length d < bigIndex then 0 else length d - index) else sz)
      in ebind (mem_write v offset (take sizeToBeCopied (drop index d))) (\<lambda>v.
         if sz > sizeToBeCopied
         then mem_write v (offset + sizeToBeCopied) (replicate (sz - sizeToBeCopied) 0) else Inr v))"

subsection \<open>Code and jump destinations\<close>

text \<open>
  The first loop of \<open>optimize\<close>: positions of \<open>JUMPDEST\<close> outside push data, and synthetic
  instructions of user code made invalid.
\<close>

function jump_scan :: "nat \<Rightarrow> bytes \<Rightarrow> nat list \<Rightarrow> nat \<Rightarrow> bytes \<times> nat list" where
  "jump_scan nBytes code dests pc =
     (if pc \<ge> nBytes then (code, dests)
      else
        let op = unat (code ! pc);
            code' = (if op = 0xac \<or> op = 0xad \<or> op = 0xae then code[pc := 0xfe] else code) in
        if op = 0x5b then jump_scan nBytes code' (dests @ [pc]) (pc + 1)
        else if 0x60 \<le> op \<and> op \<le> 0x7f then jump_scan nBytes code' dests (pc + (op - 0x60 + 1) + 1)
        else jump_scan nBytes code' dests (pc + 1))"
  by auto

termination jump_scan
  by (relation "measure (\<lambda>(n, _, _, pc). n - pc)") auto

declare jump_scan.simps [simp del]

definition copyCode :: "nat \<Rightarrow> bytes \<Rightarrow> bytes" where
  "copyCode extraBytes code = code @ replicate extraBytes 0"

definition optimize :: "bytes \<Rightarrow> bytes \<times> nat list" where
  "optimize code = jump_scan (length code) (copyCode 33 code) [] 0"

text \<open>\<open>verifyJumpDest\<close>: \<open>std::binary_search\<close> in the sorted table is membership.\<close>

definition verifyJumpDest :: "nat list \<Rightarrow> u256 \<Rightarrow> 'e vm \<Rightarrow> ('e, nat) vmr" where
  "verifyJumpDest dests dest v =
     (if unat dest \<le> 0x7FFFFFFFFFFFFFFF \<and> unat dest mod 2 ^ 64 \<in> set dests
      then Inr (unat dest mod 2 ^ 64) else fail BadJumpDestination v)"

subsection \<open>Instructions\<close>

text \<open>Each case gets the gas of its price tier as \<open>g\<close>. \<open>NEXT\<close> with the stack after the instruction:\<close>

definition NEXT :: "'e vm \<Rightarrow> u256 list \<Rightarrow> ('e, 'e vm_result) vmr" where
  "NEXT v st = Inr (Next (v\<lparr>m_PC := m_PC v + 1, m_stack := st\<rparr>))"

definition case_RETURN :: "EVMSchedule \<Rightarrow> nat \<Rightarrow> 'e vm \<Rightarrow> ('e, 'e vm \<times> bytes) vmr" where
  "case_RETURN S g v =
     (let sp = m_stack v in
      ebind (memNeed v (sp ! 0) (sp ! 1)) (\<lambda>need.
      ebind (payMem S need 0 g v) (\<lambda>v.
      ebind (mem_slice v (uint64 (sp ! 0)) (uint64 (sp ! 1))) (\<lambda>out. Inr (v, out)))))"

definition case_REVERT :: "EVMSchedule \<Rightarrow> nat \<Rightarrow> 'e vm \<Rightarrow> ('e, 'e vm_result) vmr" where
  "case_REVERT S g v =
     (if \<not> haveRevert S then fail BadInstruction v
      else ebind (case_RETURN S g v) (\<lambda>(v, out). fail (RevertInstruction out) v))"

definition case_SUICIDE :: "'e ext_ops \<Rightarrow> vm_env \<Rightarrow> 'e vm \<Rightarrow> ('e, 'e vm_result) vmr" where
  "case_SUICIDE X E v =
     (let S = e_schedule E; dest = asAddress (m_stack v ! 0) in
      if e_staticCall E then fail DisallowedStateChange v
      else ebind (toInt63 v (suicideGas S)) (\<lambda>g.
        let g' = (if (x_balance X (m_ext v) (e_myAddress E) > 0 \<or> zeroValueTransferChargesNewAccountGas S)
                     \<and> suicideChargesNewAccountGas S \<and> \<not> x_exists X (m_ext v) dest
                  then (g + callNewAccountGas S) mod 2 ^ 64 else g) in
        ebind (updateIOGas g' v) (\<lambda>v.
        case x_suicide X dest (m_ext v) of
          None \<Rightarrow> fail NoReturn v
        | Some e \<Rightarrow> Inr (Halt (v\<lparr>m_ext := e\<rparr>) []))))"

definition case_MLOAD :: "EVMSchedule \<Rightarrow> nat \<Rightarrow> 'e vm \<Rightarrow> ('e, 'e vm_result) vmr" where
  "case_MLOAD S g v =
     (let sp = m_stack v in
      ebind (toInt63 v (unat (sp ! 0))) (\<lambda>a.
      ebind (payMem S (a + 32) 0 g v) (\<lambda>v.
      ebind (mem_slice v (uint32 (sp ! 0)) 32) (\<lambda>b.
      NEXT v (fromBytes32 b # drop 1 sp)))))"

definition case_MSTORE :: "EVMSchedule \<Rightarrow> nat \<Rightarrow> 'e vm \<Rightarrow> ('e, 'e vm_result) vmr" where
  "case_MSTORE S g v =
     (let sp = m_stack v in
      ebind (toInt63 v (unat (sp ! 0))) (\<lambda>a.
      ebind (payMem S (a + 32) 0 g v) (\<lambda>v.
      ebind (mem_write v (uint32 (sp ! 0)) (toBytes32 (sp ! 1))) (\<lambda>v.
      NEXT v (drop 2 sp)))))"

definition case_MSTORE8 :: "EVMSchedule \<Rightarrow> nat \<Rightarrow> 'e vm \<Rightarrow> ('e, 'e vm_result) vmr" where
  "case_MSTORE8 S g v =
     (let sp = m_stack v in
      ebind (toInt63 v (unat (sp ! 0))) (\<lambda>a.
      ebind (payMem S (a + 1) 0 g v) (\<lambda>v.
      ebind (mem_write v (uint32 (sp ! 0)) [of_nat (unat (sp ! 1) mod 256)]) (\<lambda>v.
      NEXT v (drop 2 sp)))))"

definition case_SHA3 :: "'e ext_ops \<Rightarrow> EVMSchedule \<Rightarrow> 'e vm \<Rightarrow> ('e, 'e vm_result) vmr" where
  "case_SHA3 X S v =
     (let sp = m_stack v in
      ebind (toInt63 v (sha3Gas S + (unat (sp ! 1) + 31) div 32 * sha3WordGas S)) (\<lambda>g.
      ebind (memNeed v (sp ! 0) (sp ! 1)) (\<lambda>need.
      ebind (payMem S need 0 g v) (\<lambda>v.
      ebind (mem_slice v (uint64 (sp ! 0)) (uint64 (sp ! 1))) (\<lambda>b.
      NEXT v (fromBytes32 (x_sha3 X b) # drop 2 sp))))))"

text \<open>\<open>logGasMem ()\<close>, then the payment.\<close>

definition logGasMem :: "EVMSchedule \<Rightarrow> nat \<Rightarrow> 'e vm \<Rightarrow> ('e, 'e vm) vmr" where
  "logGasMem S n v =
     (let sp = m_stack v in
      ebind (toInt63 v (logGas S + logTopicGas S * n + logDataGas S * unat (sp ! 1))) (\<lambda>g.
      ebind (memNeed v (sp ! 0) (sp ! 1)) (\<lambda>need. payMem S need 0 g v)))"

text \<open>\<open>LOG0\<close> to \<open>LOG4\<close>: the topics are \<open>m_SP[2]\<close> and on.\<close>

definition case_LOG :: "'e ext_ops \<Rightarrow> vm_env \<Rightarrow> nat \<Rightarrow> 'e vm \<Rightarrow> ('e, 'e vm_result) vmr" where
  "case_LOG X E n v =
     (let sp = m_stack v in
      if e_staticCall E then fail DisallowedStateChange v
      else
        ebind (logGasMem (e_schedule E) n v) (\<lambda>v.
        ebind (mem_slice v (uint64 (sp ! 0)) (uint64 (sp ! 1))) (\<lambda>d.
        NEXT (v\<lparr>m_ext := x_log X (take n (drop 2 sp)) d (m_ext v)\<rparr>) (drop (n + 2) sp))))"

definition case_EXP :: "EVMSchedule \<Rightarrow> 'e vm \<Rightarrow> ('e, 'e vm_result) vmr" where
  "case_EXP S v =
     (let sp = m_stack v; expon = sp ! 1 in
      ebind (toInt63 v (expGas S + expByteGas S * (32 - firstBitSet (toBytes32 expon) div 8))) (\<lambda>g.
      ebind (updateIOGas g v) (\<lambda>v.
      NEXT v (exp256 (sp ! 0) expon # drop 2 sp))))"

text \<open>The ordinary instructions: pay and push the result.\<close>

definition case_ordinary :: "nat \<Rightarrow> nat \<Rightarrow> (u256 list \<Rightarrow> u256) \<Rightarrow> 'e vm \<Rightarrow> ('e, 'e vm_result) vmr" where
  "case_ordinary g args f v =
     (let sp = m_stack v in ebind (updateIOGas g v) (\<lambda>v. NEXT v (f sp # drop args sp)))"

definition env_eval :: "vm_env \<Rightarrow> env_op \<Rightarrow> u256" where
  "env_eval E p =
     (case p of
        I_ADDRESS \<Rightarrow> fromAddress (e_myAddress E)
      | I_ORIGIN \<Rightarrow> fromAddress (e_origin E)
      | I_CALLER \<Rightarrow> fromAddress (e_caller E)
      | I_CALLVALUE \<Rightarrow> e_value E
      | I_CALLDATASIZE \<Rightarrow> of_nat (length (e_data E))
      | I_CODESIZE \<Rightarrow> of_nat (length (e_code E))
      | I_GASPRICE \<Rightarrow> e_gasPrice E)"

definition block_eval :: "vm_env \<Rightarrow> block_op \<Rightarrow> u256" where
  "block_eval E p =
     (case p of
        I_COINBASE \<Rightarrow> fromAddress (e_author E)
      | I_TIMESTAMP \<Rightarrow> of_int (e_timestamp E)
      | I_NUMBER \<Rightarrow> of_int (e_number E)
      | I_DIFFICULTY \<Rightarrow> e_difficulty E
      | I_GASLIMIT \<Rightarrow> e_gasLimit E)"

text \<open>\<open>PC\<close>, \<open>MSIZE\<close> and \<open>GAS\<close> read the state after the payment.\<close>

definition machine_eval :: "'e vm \<Rightarrow> machine_op \<Rightarrow> u256" where
  "machine_eval v p =
     (case p of
        I_PC \<Rightarrow> of_nat (m_PC v) | I_MSIZE \<Rightarrow> of_nat (length (m_mem v)) | I_GAS \<Rightarrow> of_nat (m_io_gas v))"

definition case_machine :: "nat \<Rightarrow> machine_op \<Rightarrow> 'e vm \<Rightarrow> ('e, 'e vm_result) vmr" where
  "case_machine g p v = ebind (updateIOGas g v) (\<lambda>v. NEXT v (machine_eval v p # m_stack v))"

definition eval_CALLDATALOAD :: "bytes \<Rightarrow> u256 \<Rightarrow> u256" where
  "eval_CALLDATALOAD d a =
     (if unat a + 31 < length d then fromBytes32 (take 32 (drop (unat a mod 2 ^ 64) d))
      else if unat a \<ge> length d then 0
      else
        let i = unat a mod 2 ^ 64 in
        fromBytes32 (map (\<lambda>k. if k < length d then d ! k else 0) [i..<i + 32]))"

text \<open>An instruction with its own price that reads the outside world.\<close>

definition case_priced :: "nat \<Rightarrow> ('e \<Rightarrow> u256 \<Rightarrow> u256) \<Rightarrow> 'e vm \<Rightarrow> ('e, 'e vm_result) vmr" where
  "case_priced price f v =
     (let sp = m_stack v in
      ebind (toInt63 v price) (\<lambda>g.
      ebind (updateIOGas g v) (\<lambda>v. NEXT v (f (m_ext v) (sp ! 0) # drop 1 sp))))"

definition case_DATACOPY :: "EVMSchedule \<Rightarrow> nat \<Rightarrow> bytes \<Rightarrow> 'e vm \<Rightarrow> ('e, 'e vm_result) vmr" where
  "case_DATACOPY S g d v =
     (let sp = m_stack v in
      ebind (toInt63 v (unat (sp ! 2))) (\<lambda>copy.
      ebind (memNeed v (sp ! 0) (sp ! 2)) (\<lambda>need.
      ebind (payMem S need copy g v) (\<lambda>v.
      ebind (copyDataToMemory d sp v) (\<lambda>v. NEXT v (drop 3 sp))))))"

definition case_RETURNDATASIZE :: "EVMSchedule \<Rightarrow> nat \<Rightarrow> 'e vm \<Rightarrow> ('e, 'e vm_result) vmr" where
  "case_RETURNDATASIZE S g v =
     (if \<not> haveReturnData S then fail BadInstruction v
      else case_ordinary g 0 (\<lambda>_. of_nat (length (m_returnData v))) v)"

definition case_RETURNDATACOPY :: "EVMSchedule \<Rightarrow> nat \<Rightarrow> 'e vm \<Rightarrow> ('e, 'e vm_result) vmr" where
  "case_RETURNDATACOPY S g v =
     (if \<not> haveReturnData S then fail BadInstruction v
      else if length (m_returnData v) < unat (m_stack v ! 1) + unat (m_stack v ! 2) then fail BufferOverrun v
      else case_DATACOPY S g (m_returnData v) v)"

definition case_EXTCODECOPY :: "'e ext_ops \<Rightarrow> EVMSchedule \<Rightarrow> 'e vm \<Rightarrow> ('e, 'e vm_result) vmr" where
  "case_EXTCODECOPY X S v =
     (let sp = m_stack v in
      ebind (toInt63 v (extcodecopyGas S)) (\<lambda>g.
      ebind (toInt63 v (unat (sp ! 3))) (\<lambda>copy.
      ebind (memNeed v (sp ! 1) (sp ! 3)) (\<lambda>need.
      ebind (payMem S need copy g v) (\<lambda>v.
      ebind (copyDataToMemory (x_codeAt X (m_ext v) (asAddress (sp ! 0))) (drop 1 sp) v) (\<lambda>v.
      NEXT v (drop 4 sp)))))))"

text \<open>
  \<open>PUSH1\<close> to \<open>PUSH32\<close>: the bytes after the instruction; the copied code is long enough to read past
  the end of the program.
\<close>

definition case_PUSH :: "bytes \<Rightarrow> nat \<Rightarrow> nat \<Rightarrow> 'e vm \<Rightarrow> ('e, 'e vm_result) vmr" where
  "case_PUSH code numBytes g v =
     ebind (updateIOGas g v) (\<lambda>v.
       if m_PC v + numBytes < length code
       then Inr (Next (v\<lparr>m_PC := m_PC v + numBytes + 1,
                         m_stack := of_nat (fromBigEndian (take numBytes (drop (m_PC v + 1) code))) # m_stack v\<rparr>))
       else fail OutOfBounds v)"

definition case_JUMP :: "nat list \<Rightarrow> nat \<Rightarrow> 'e vm \<Rightarrow> ('e, 'e vm_result) vmr" where
  "case_JUMP dests g v =
     (let sp = m_stack v in
      ebind (updateIOGas g v) (\<lambda>v.
      ebind (verifyJumpDest dests (sp ! 0) v) (\<lambda>pc.
      Inr (Next (v\<lparr>m_PC := pc, m_stack := drop 1 sp\<rparr>)))))"

definition case_JUMPI :: "nat list \<Rightarrow> nat \<Rightarrow> 'e vm \<Rightarrow> ('e, 'e vm_result) vmr" where
  "case_JUMPI dests g v =
     (let sp = m_stack v in
      ebind (updateIOGas g v) (\<lambda>v.
      ebind (if sp ! 1 \<noteq> 0 then verifyJumpDest dests (sp ! 0) v else Inr (m_PC v + 1)) (\<lambda>pc.
      Inr (Next (v\<lparr>m_PC := pc, m_stack := drop 2 sp\<rparr>)))))"

definition case_DUP :: "nat \<Rightarrow> nat \<Rightarrow> 'e vm \<Rightarrow> ('e, 'e vm_result) vmr" where
  "case_DUP n g v =
     (let sp = m_stack v in ebind (updateIOGas g v) (\<lambda>v. NEXT v (sp ! (n - 1) # sp)))"

definition case_SWAP :: "nat \<Rightarrow> nat \<Rightarrow> 'e vm \<Rightarrow> ('e, 'e vm_result) vmr" where
  "case_SWAP n g v =
     (let sp = m_stack v in ebind (updateIOGas g v) (\<lambda>v. NEXT v (sp[0 := sp ! n, n := sp ! 0])))"

definition updateSSGas :: "'e ext_ops \<Rightarrow> EVMSchedule \<Rightarrow> 'e vm \<Rightarrow> ('e, nat \<times> 'e vm) vmr" where
  "updateSSGas X S v =
     (let sp = m_stack v; old = x_store X (m_ext v) (sp ! 0) in
      if old = 0 \<and> sp ! 1 \<noteq> 0 then ebind (toInt63 v (sstoreSetGas S)) (\<lambda>g. Inr (g, v))
      else if old \<noteq> 0 \<and> sp ! 1 = 0
      then ebind (toInt63 v (sstoreResetGas S)) (\<lambda>g.
        Inr (g, v\<lparr>m_ext := x_refund X (sstoreRefundGas S) (m_ext v)\<rparr>))
      else ebind (toInt63 v (sstoreResetGas S)) (\<lambda>g. Inr (g, v)))"

definition case_SSTORE :: "'e ext_ops \<Rightarrow> vm_env \<Rightarrow> 'e vm \<Rightarrow> ('e, 'e vm_result) vmr" where
  "case_SSTORE X E v =
     (let sp = m_stack v in
      if e_staticCall E then fail DisallowedStateChange v
      else
        ebind (updateSSGas X (e_schedule E) v) (\<lambda>(g, v).
        ebind (updateIOGas g v) (\<lambda>v.
        NEXT (v\<lparr>m_ext := x_setStore X (sp ! 0) (sp ! 1) (m_ext v)\<rparr>) (drop 2 sp))))"

definition case_JUMPDEST :: "'e vm \<Rightarrow> ('e, 'e vm_result) vmr" where
  "case_JUMPDEST v = ebind (updateIOGas 1 v) (\<lambda>v. NEXT v (m_stack v))"

subsection \<open>Instructions that call out\<close>

text \<open>\<open>caseCreate\<close>; \<open>op\<close> is \<open>CREATE\<close> or \<open>CREATE2\<close>.\<close>

definition caseCreate :: "'e ext_ops \<Rightarrow> vm_env \<Rightarrow> Instruction \<Rightarrow> 'e vm \<Rightarrow> ('e, 'e vm_result) vmr" where
  "caseCreate X E op v =
     (let S = e_schedule E; sp = m_stack v; endowment = sp ! 0;
          (salt, initOff, initSize, args) =
            (if op = I_CREATE then (0, sp ! 1, sp ! 2, 3) else (sp ! 1, sp ! 2, sp ! 3, 4 :: nat)) in
      ebind (toInt63 v (EVMSchedule.createGas S)) (\<lambda>g.
      ebind (memNeed v initOff initSize) (\<lambda>need.
      ebind (payMem S need 0 g v) (\<lambda>v.
      let v = v\<lparr>m_returnData := []\<rparr> in
      if x_balance X (m_ext v) (e_myAddress E) \<ge> endowment \<and> e_depth E < 1024
      then
        ebind (mem_slice v (uint64 initOff) (uint64 initSize)) (\<lambda>initCode.
        let createGas = (if staticCallDepthLimit S then m_io_gas v else m_io_gas v - m_io_gas v div 64) in
        case x_create X endowment createGas initCode op salt (m_ext v) of
          None \<Rightarrow> fail NoReturn v
        | Some (e, gas, addr, output) \<Rightarrow>
            let io = nat ((int (m_io_gas v) - (int createGas - int gas)) mod 2 ^ 64) in
            NEXT (v\<lparr>m_ext := e, m_returnData := output, m_io_gas := io\<rparr>) (fromAddress addr # drop args sp))
      else NEXT v (0 # drop args sp)))))"

text \<open>
  \<open>caseCallSetup\<close>: charges for the call and fills the parameters. The result says whether the call
  goes ahead, with the parameters (their gas is returned to the caller either way) and the window
  for the output.
\<close>

definition caseCallSetup :: "'e ext_ops \<Rightarrow> vm_env \<Rightarrow> call_op \<Rightarrow> 'e vm
    \<Rightarrow> ('e, bool \<times> CallParameters \<times> nat \<times> nat \<times> 'e vm) vmr" where
  "caseCallSetup X E op v =
     (let S = e_schedule E; sp = m_stack v;
          haveValueArg = (op = I_CALL \<or> op = I_CALLCODE);
          destinationAddr = asAddress (sp ! 1);
          sizesOffset = (if haveValueArg then 3 else 2);
          inputOffset = sp ! sizesOffset; inputSize = sp ! (sizesOffset + 1);
          outputOffset = sp ! (sizesOffset + 2); outputSize = sp ! (sizesOffset + 3);
          withValue = (haveValueArg \<and> sp ! 2 > 0) in
      ebind (toInt63 v (callGas S)) (\<lambda>g0.
      ebind (if op = I_CALL \<and> \<not> x_exists X (m_ext v) destinationAddr
               \<and> (sp ! 2 > 0 \<or> zeroValueTransferChargesNewAccountGas S)
             then ebind (toInt63 v (callNewAccountGas S)) (\<lambda>d. Inr ((g0 + d) mod 2 ^ 64)) else Inr g0) (\<lambda>g1.
      ebind (if withValue
             then ebind (toInt63 v (callValueTransferGas S)) (\<lambda>d. Inr ((g1 + d) mod 2 ^ 64)) else Inr g1) (\<lambda>g2.
      ebind (memNeed v inputOffset inputSize) (\<lambda>inputMemNeed.
      ebind (memNeed v outputOffset outputSize) (\<lambda>outputMemNeed.
      ebind (payMem S (max inputMemNeed outputMemNeed) 0 g2 v) (\<lambda>v.
      let gasArg = (if staticCallDepthLimit S then unat (sp ! 0)
                    else min (unat (sp ! 0)) (m_io_gas v - m_io_gas v div 64)) in
      ebind (toInt63 v gasArg) (\<lambda>runGas.
      ebind (updateIOGas (if m_io_gas v < runGas then m_io_gas v else runGas) v) (\<lambda>v.
      let gas = (if withValue then gasArg + callStipend S else gasArg);
          transfer = (if haveValueArg then sp ! 2 else 0);
          apparent = (if haveValueArg then sp ! 2 else if op = I_DELEGATECALL then e_value E else 0) in
      ebind (mem_slice v (uint64 inputOffset) (uint64 inputSize)) (\<lambda>input.
      Inr (x_balance X (m_ext v) (e_myAddress E) \<ge> transfer \<and> e_depth E < 1024,
           \<lparr>senderAddress = (if op = I_DELEGATECALL then e_caller E else e_myAddress E),
            codeAddress = destinationAddr,
            receiveAddress = (if op = I_CALL \<or> op = I_STATICCALL then destinationAddr else e_myAddress E),
            valueTransfer = transfer, apparentValue = apparent, call_gas = gas, call_data = input,
            call_static = (op = I_STATICCALL \<or> e_staticCall E)\<rparr>,
           uint64 outputOffset, uint64 outputSize, v)))))))))))"

definition caseCall :: "'e ext_ops \<Rightarrow> vm_env \<Rightarrow> call_op \<Rightarrow> 'e vm \<Rightarrow> ('e, 'e vm_result) vmr" where
  "caseCall X E op v =
     (let sp = m_stack v; args = (if op = I_CALL \<or> op = I_CALLCODE then 7 else 6 :: nat);
          v = v\<lparr>m_returnData := []\<rparr> in
      ebind (caseCallSetup X E op v) (\<lambda>(ok, p, outOff, outSize, v).
      if ok then
        case x_call X p (m_ext v) of
          None \<Rightarrow> fail NoReturn v
        | Some (e, gas, success, output) \<Rightarrow>
            ebind (mem_write v outOff (take outSize output)) (\<lambda>v.
            NEXT (v\<lparr>m_ext := e, m_returnData := output, m_io_gas := (m_io_gas v + gas mod 2 ^ 64) mod 2 ^ 64\<rparr>)
              (bool256 success # drop args sp))
      else
        NEXT (v\<lparr>m_io_gas := (m_io_gas v + call_gas p mod 2 ^ 64) mod 2 ^ 64\<rparr>) (0 # drop args sp)))"

text \<open>The guards of the cases of the call instructions, then the routine they bounce to.\<close>

definition case_CALL :: "'e ext_ops \<Rightarrow> vm_env \<Rightarrow> call_op \<Rightarrow> 'e vm \<Rightarrow> ('e, 'e vm_result) vmr" where
  "case_CALL X E op v =
     (let S = e_schedule E in
      if op = I_DELEGATECALL \<and> \<not> haveDelegateCall S then fail BadInstruction v
      else if op = I_STATICCALL \<and> \<not> haveStaticCall S then fail BadInstruction v
      else if op = I_CALL \<and> e_staticCall E \<and> m_stack v ! 2 \<noteq> 0 then fail DisallowedStateChange v
      else caseCall X E op v)"

definition case_CREATE :: "'e ext_ops \<Rightarrow> vm_env \<Rightarrow> 'e vm \<Rightarrow> ('e, 'e vm_result) vmr" where
  "case_CREATE X E v =
     (if e_staticCall E then fail DisallowedStateChange v else caseCreate X E I_CREATE v)"

definition case_CREATE2 :: "'e ext_ops \<Rightarrow> vm_env \<Rightarrow> 'e vm \<Rightarrow> ('e, 'e vm_result) vmr" where
  "case_CREATE2 X E v =
     (if \<not> haveCreate2 (e_schedule E) then fail BadInstruction v else caseCreate X E I_CREATE2 v)"

subsection \<open>Dispatch\<close>

definition case_POP :: "nat \<Rightarrow> 'e vm \<Rightarrow> ('e, 'e vm_result) vmr" where
  "case_POP g v = ebind (updateIOGas g v) (\<lambda>v. NEXT v (drop 1 (m_stack v)))"

definition case_STOP :: "nat \<Rightarrow> 'e vm \<Rightarrow> ('e, 'e vm_result) vmr" where
  "case_STOP g v = ebind (updateIOGas g v) (\<lambda>v. Inr (Halt v []))"

definition case_shift :: "EVMSchedule \<Rightarrow> nat \<Rightarrow> shift_op \<Rightarrow> 'e vm \<Rightarrow> ('e, 'e vm_result) vmr" where
  "case_shift S g p v =
     (if \<not> haveBitwiseShifting S then fail BadInstruction v else case_ordinary g 2 (shift_eval p) v)"

text \<open>The labels of \<open>interpretCases\<close>; the disabled instructions are bad instructions.\<close>

definition interpret_case ::
  "'e ext_ops \<Rightarrow> vm_env \<Rightarrow> bytes \<times> nat list \<Rightarrow> Instruction \<Rightarrow> nat \<Rightarrow> 'e vm \<Rightarrow> ('e, 'e vm_result) vmr" where
  "interpret_case X E prog op g v =
     (let S = e_schedule E in
      case op of
        I_CREATE2 \<Rightarrow> case_CREATE2 X E v
      | I_CREATE \<Rightarrow> case_CREATE X E v
      | I_Call c \<Rightarrow> case_CALL X E c v
      | I_RETURN \<Rightarrow> ebind (case_RETURN S g v) (\<lambda>(v, out). Inr (Halt v out))
      | I_REVERT \<Rightarrow> case_REVERT S g v
      | I_SUICIDE \<Rightarrow> case_SUICIDE X E v
      | I_STOP \<Rightarrow> case_STOP g v
      | I_MLOAD \<Rightarrow> case_MLOAD S g v
      | I_MSTORE \<Rightarrow> case_MSTORE S g v
      | I_MSTORE8 \<Rightarrow> case_MSTORE8 S g v
      | I_SHA3 \<Rightarrow> case_SHA3 X S v
      | I_LOG n \<Rightarrow> case_LOG X E n v
      | I_EXP \<Rightarrow> case_EXP S v
      | I_Pure p \<Rightarrow> case_ordinary g (fst (pure_metric p)) (pure_eval p) v
      | I_Shift p \<Rightarrow> case_shift S g p v
      | I_Env p \<Rightarrow> case_ordinary g 0 (\<lambda>_. env_eval E p) v
      | I_BALANCE \<Rightarrow> case_priced (balanceGas S) (\<lambda>e a. x_balance X e (asAddress a)) v
      | I_CALLDATALOAD \<Rightarrow> case_ordinary g 1 (\<lambda>sp. eval_CALLDATALOAD (e_data E) (sp ! 0)) v
      | I_RETURNDATASIZE \<Rightarrow> case_RETURNDATASIZE S g v
      | I_EXTCODESIZE \<Rightarrow> case_priced (extcodesizeGas S) (\<lambda>e a. of_nat (x_codeSizeAt X e (asAddress a))) v
      | I_CALLDATACOPY \<Rightarrow> case_DATACOPY S g (e_data E) v
      | I_RETURNDATACOPY \<Rightarrow> case_RETURNDATACOPY S g v
      | I_CODECOPY \<Rightarrow> case_DATACOPY S g (e_code E) v
      | I_EXTCODECOPY \<Rightarrow> case_EXTCODECOPY X S v
      | I_BLOCKHASH \<Rightarrow> case_priced (blockhashGas S) (\<lambda>e a. fromBytes32 (x_blockHash X e a)) v
      | I_Block p \<Rightarrow> case_ordinary g 0 (\<lambda>_. block_eval E p) v
      | I_POP \<Rightarrow> case_POP g v
      | I_PUSH n \<Rightarrow> case_PUSH (fst prog) n g v
      | I_JUMP \<Rightarrow> case_JUMP (snd prog) g v
      | I_JUMPI \<Rightarrow> case_JUMPI (snd prog) g v
      | I_DUP n \<Rightarrow> case_DUP n g v
      | I_SWAP n \<Rightarrow> case_SWAP n g v
      | I_SLOAD \<Rightarrow> case_priced (sloadGas S) (\<lambda>e a. x_store X e a) v
      | I_SSTORE \<Rightarrow> case_SSTORE X E v
      | I_Machine p \<Rightarrow> case_machine g p v
      | I_JUMPDEST \<Rightarrow> case_JUMPDEST v
      | I_BAD _ \<Rightarrow> fail BadInstruction v)"

text \<open>\<open>adjustStack\<close> with \<open>throwBadStack\<close>: the array holds 1024 words.\<close>

definition adjustStack :: "nat \<Rightarrow> nat \<Rightarrow> 'e vm \<Rightarrow> ('e, unit) vmr" where
  "adjustStack removed added v =
     (if length (m_stack v) < removed then fail StackUnderflow v
      else if length (m_stack v) - removed + added > 1024 then fail OutOfStack v
      else Inr ())"

text \<open>
  \<open>m_schedule->tierStepGas[...]\<close>. The table has no entry for \<open>Tier::Invalid\<close>; only bytes that are no
  instruction have that tier, and their case does not use the price.
\<close>

definition tier_gas :: "EVMSchedule \<Rightarrow> Tier \<Rightarrow> nat" where
  "tier_gas S t = (let i = tier_index t in if i < length (tierStepGas S) then tierStepGas S ! i else 0)"

definition fetchInstruction :: "EVMSchedule \<Rightarrow> bytes \<Rightarrow> 'e vm \<Rightarrow> ('e, Instruction \<times> nat) vmr" where
  "fetchInstruction S code v =
     (if m_PC v < length code then
        let op = decode (code ! m_PC v); (args, ret, tier) = instruction_metric op in
        ebind (adjustStack args ret v) (\<lambda>_.
        ebind (toInt63 v (tier_gas S tier)) (\<lambda>g. Inr (op, g)))
      else fail OutOfBounds v)"

definition vm_step :: "'e ext_ops \<Rightarrow> vm_env \<Rightarrow> bytes \<times> nat list \<Rightarrow> 'e vm \<Rightarrow> ('e, 'e vm_result) vmr" where
  "vm_step X E prog v =
     ebind (fetchInstruction (e_schedule E) (fst prog) v) (\<lambda>(op, g). interpret_case X E prog op g v)"

text \<open>The loop of \<open>interpretCases\<close> and of the trampoline in \<open>exec\<close>.\<close>

partial_function (option) interpretCases ::
  "'e ext_ops \<Rightarrow> vm_env \<Rightarrow> bytes \<times> nat list \<Rightarrow> 'e vm \<Rightarrow> ('e, 'e vm \<times> bytes) vmr option" where
  "interpretCases X E prog v =
     (case vm_step X E prog v of
        Inl err \<Rightarrow> Some (Inl err)
      | Inr r \<Rightarrow> (case r of Halt v' out \<Rightarrow> Some (Inr (v', out)) | Next v' \<Rightarrow> interpretCases X E prog v'))"

definition vm_init :: "nat \<Rightarrow> 'e \<Rightarrow> 'e vm" where
  "vm_init io_gas e =
     \<lparr>m_PC = 0, m_stack = [], m_mem = [], m_io_gas = io_gas mod 2 ^ 64, m_returnData = [], m_ext = e\<rparr>"

text \<open>\<open>exec\<close>: the final state has the gas written back to \<open>_io_gas\<close>, also when an exception is thrown.\<close>

definition exec :: "'e ext_ops \<Rightarrow> vm_env \<Rightarrow> nat \<Rightarrow> 'e \<Rightarrow> ('e, 'e vm \<times> bytes) vmr option" where
  "exec X E io_gas e = interpretCases X E (optimize (e_code E)) (vm_init io_gas e)"

end
