(* ===== verification/EVM_Safety.thy ===== *)
theory EVM_Safety
  imports EVM
begin

section \<open>Bounds and gas of the interpreter\<close>

text \<open>
  A postcondition calculus for the interpreter's results (\<open>post\<close>), the contract of the metering
  functions in it, and for every instruction a lemma \<open>case_X_ok\<close>: in a well-formed state it does not read
  or write out of bounds, leaves a well-formed state, and, if it goes on, has paid for itself and for the
  memory it takes.
\<close>

subsection \<open>Postconditions\<close>

definition post :: "('x \<Rightarrow> bool) \<Rightarrow> ('a \<Rightarrow> bool) \<Rightarrow> 'x + 'a \<Rightarrow> bool" where
  "post E Q r = (case r of Inl x \<Rightarrow> E x | Inr y \<Rightarrow> Q y)"

lemma post_simps [simp]:
  "post E Q (Inl x) = E x"
  "post E Q (Inr y) = Q y"
  "post E Q (ebind r f) = post E (\<lambda>x. post E Q (f x)) r"
  by (auto simp: post_def split: sum.splits)

lemma post_fail [simp]: "post E Q (fail err v) = E (err, v)"
  by (simp add: fail_def)

lemma post_if: "post E Q (if b then r else s) = (if b then post E Q r else post E Q s)"
  by simp

lemma post_weaken: "post E Q r \<Longrightarrow> (\<And>y. Q y \<Longrightarrow> R y) \<Longrightarrow> post E R r"
  by (auto simp: post_def split: sum.splits)

lemma post_Inr: "post E Q r \<Longrightarrow> r = Inr y \<Longrightarrow> Q y"
  by (simp add: post_def)

lemma post_Inl: "post E Q r \<Longrightarrow> r = Inl x \<Longrightarrow> E x"
  by (simp add: post_def)

subsection \<open>Metering\<close>

definition mem_cost :: "EVMSchedule \<Rightarrow> nat \<Rightarrow> nat" where
  "mem_cost S n = memoryGas S * (n div 32) + n div 32 * (n div 32) div quadCoeffDiv S"

lemma mem_cost_mono: "m \<le> n \<Longrightarrow> mem_cost S m \<le> mem_cost S n"
  by (auto simp: mem_cost_def intro!: add_mono mult_le_mono div_le_mono)

lemma mem_cost_0 [simp]: "mem_cost S 0 = 0"
  by (simp add: mem_cost_def)

lemma gasForMem_cost: "gasForMem S v n = toInt63 v (mem_cost S n)"
  by (simp add: gasForMem_def mem_cost_def Let_def)

lemma post_toInt63:
  "post E Q (toInt63 v n) = (if n \<le> 0x7FFFFFFFFFFFFFFF then Q n else E (OutOfGas, v))"
  by (simp add: toInt63_def)

lemma post_memNeed:
  assumes "E (OutOfGas, v)"
    and "\<And>need. need \<le> 0x7FFFFFFFFFFFFFFF \<Longrightarrow> (sz \<noteq> 0 \<longrightarrow> need = unat off + unat sz) \<Longrightarrow> Q need"
  shows "post E Q (memNeed v off sz)"
  using assms by (auto simp: memNeed_def post_toInt63)

lemma post_updateIOGas:
  "post E Q (updateIOGas g v) =
     (if m_io_gas v < g then E (OutOfGas, v) else Q (v\<lparr>m_io_gas := m_io_gas v - g\<rparr>))"
  by (simp add: updateIOGas_def)

definition no_wrap :: "EVMSchedule \<Rightarrow> nat \<Rightarrow> nat \<Rightarrow> bool" where
  "no_wrap S copy g \<longleftrightarrow> g + copyGas S * ((copy + 31) div 32) \<le> 2 ^ 63"

lemma round_up: "(n :: nat) \<le> (n + 31) div 32 * 32"
  by presburger

lemma int63_diff: "a \<le> 0x7FFFFFFFFFFFFFFF \<Longrightarrow> b \<le> a \<Longrightarrow> (a + 2 ^ 64 - b) mod 2 ^ 64 = (a - b :: nat)"
  by (simp add: mod_if)

lemma wrap_free:
  "g + c \<le> 2 ^ 63 \<Longrightarrow> d \<le> 0x7FFFFFFFFFFFFFFF \<Longrightarrow> ((g + d) mod 2 ^ 64 + c) mod 2 ^ 64 = (g + d + c :: nat)"
  by (simp add: mod_less)

text \<open>\<open>updateGas\<close>: the tier price, the words copied and the growth of memory.\<close>

lemma updateGas_grow:
  fixes v :: "'e vm"
  assumes grow: "newMem > length (m_mem v)"
    and a: "a = mem_cost S newMem" and b: "b = mem_cost S (length (m_mem v))" and ba: "b \<le> a"
  shows "post E Q (updateGas S newMem copy g v) =
    (if a \<le> 0x7FFFFFFFFFFFFFFF then
       post E Q (let g' = ((g + (a - b)) mod 2 ^ 64 + copyGas S * ((copy + 31) div 32)) mod 2 ^ 64 in
         if m_io_gas v < g' then fail OutOfGas v else Inr g')
     else E (OutOfGas, v))"
proof (cases "a \<le> 0x7FFFFFFFFFFFFFFF")
  case le: True
  then have "b \<le> 0x7FFFFFFFFFFFFFFF" "a - b \<le> 0x7FFFFFFFFFFFFFFF" using ba by linarith+
  then show ?thesis
    using le grow ba unfolding updateGas_def gasForMem_cost a [symmetric] b [symmetric]
    by (simp add: post_toInt63 int63_diff del: power_numeral)
next
  case False
  then show ?thesis
    using grow unfolding updateGas_def gasForMem_cost a [symmetric] b [symmetric]
    by (simp add: post_toInt63 del: power_numeral)
qed

lemma post_updateGas:
  fixes v :: "'e vm"
  assumes E: "E (OutOfGas, v)"
    and Q: "\<And>g'. g' \<le> m_io_gas v \<Longrightarrow>
      no_wrap S copy g \<longrightarrow> g + mem_cost S (max newMem (length (m_mem v))) \<le> g' + mem_cost S (length (m_mem v)) \<Longrightarrow>
      Q g'"
  shows "post E Q (updateGas S newMem copy g v)"
proof -
  define c where "c = copyGas S * ((copy + 31) div 32)"
  define a b where "a = mem_cost S newMem" and "b = mem_cost S (length (m_mem v))"
  show ?thesis
  proof (cases "newMem > length (m_mem v)")
    case False
    have "(g + c) mod 2 ^ 64 = g + c" if "no_wrap S copy g"
      using that by (simp add: no_wrap_def c_def)
    then have "Q ((g + c) mod 2 ^ 64)" if "(g + c) mod 2 ^ 64 \<le> m_io_gas v"
      using that False by (intro Q) (auto simp: max_def simp del: power_numeral)
    then show ?thesis
      using E False unfolding updateGas_def c_def [symmetric]
      by (auto simp: Let_def not_less simp del: power_numeral)
  next
    case True
    then have ba: "b \<le> a" by (simp add: a_def b_def mem_cost_mono)
    define r where "r = ((g + (a - b)) mod 2 ^ 64 + c) mod 2 ^ 64"
    have "g + a \<le> r + b" if "no_wrap S copy g" "a \<le> 0x7FFFFFFFFFFFFFFF"
      using that ba wrap_free [of g c "a - b"] by (auto simp: no_wrap_def c_def r_def simp del: power_numeral)
    then have "Q r" if "r \<le> m_io_gas v" "a \<le> 0x7FFFFFFFFFFFFFFF"
      using that True by (intro Q) (auto simp: a_def b_def max_def)
    then show ?thesis
      using E unfolding updateGas_grow [OF True a_def b_def ba] c_def [symmetric] r_def [symmetric] Let_def
      by (simp add: not_less)
  qed
qed

lemma post_payMem:
  assumes E: "\<And>m. E (OutOfGas, v\<lparr>m_mem := m\<rparr>)"
    and Q: "\<And>m io. need \<le> length m \<Longrightarrow> length (m_mem v) \<le> length m \<Longrightarrow>
      (32 dvd length (m_mem v) \<longrightarrow> 32 dvd length m) \<Longrightarrow> io \<le> m_io_gas v \<Longrightarrow>
      (no_wrap S copy g \<longrightarrow> io + mem_cost S (length m) + g \<le> m_io_gas v + mem_cost S (length (m_mem v))) \<Longrightarrow>
      Q (v\<lparr>m_mem := m, m_io_gas := io\<rparr>)"
  shows "post E Q (payMem S need copy g v)"
  unfolding payMem_def updateMem_def Let_def post_simps
proof (rule post_updateGas)
  show "E (OutOfGas, v)" using E [of "m_mem v"] by simp
next
  let ?n = "(need + 31) div 32 * 32"
  fix g'
  assume g': "g' \<le> m_io_gas v"
    "no_wrap S copy g \<longrightarrow> g + mem_cost S (max ?n (length (m_mem v))) \<le> g' + mem_cost S (length (m_mem v))"
  define m where "m = (if ?n > length (m_mem v) then m_mem v @ replicate (?n - length (m_mem v)) 0 else m_mem v)"
  have len: "length m = max ?n (length (m_mem v))" by (auto simp: m_def max_def)
  have "Q (v\<lparr>m_mem := m, m_io_gas := m_io_gas v - g'\<rparr>)"
    by (rule Q) (use round_up [of need] g' in \<open>auto simp: len max_def\<close>)
  moreover have "(if ?n > length (m_mem v)
      then v\<lparr>m_mem := m_mem v @ replicate (?n - length (m_mem v)) 0\<rparr> else v) = v\<lparr>m_mem := m\<rparr>"
    by (simp add: m_def)
  ultimately show "post E Q (case (g', if ?n > length (m_mem v)
      then v\<lparr>m_mem := m_mem v @ replicate (?n - length (m_mem v)) 0\<rparr> else v) of
    (g, v) \<Rightarrow> updateIOGas g v)"
    using E g' by (simp add: post_updateIOGas)
qed

subsection \<open>Accesses stay in bounds\<close>

lemma post_mem_slice:
  assumes "sz = 0 \<or> off + sz \<le> length (m_mem v)" and "\<And>b. length b = sz \<Longrightarrow> Q b"
  shows "post E Q (mem_slice v off sz)"
  using assms by (auto simp: mem_slice_def)

lemma post_mem_write:
  assumes "bs = [] \<or> off + length bs \<le> length (m_mem v)"
    and "\<And>m. length m = length (m_mem v) \<Longrightarrow> Q (v\<lparr>m_mem := m\<rparr>)"
  shows "post E Q (mem_write v off bs)"
proof (cases "bs = []")
  case True
  have "Q (v\<lparr>m_mem := m_mem v\<rparr>)" by (rule assms(2)) simp
  with True show ?thesis by (simp add: mem_write_def)
next
  case False
  then show ?thesis using assms by (auto simp: mem_write_def)
qed

lemma post_ebind: "post E (\<lambda>x. post E Q (f x)) r \<Longrightarrow> post E Q (ebind r f)"
  by simp

lemma post_toInt63I: "E (OutOfGas, v) \<Longrightarrow> (n \<le> 0x7FFFFFFFFFFFFFFF \<Longrightarrow> Q n) \<Longrightarrow> post E Q (toInt63 v n)"
  by (simp add: post_toInt63)

lemma post_updateIOGasI:
  "E (OutOfGas, v) \<Longrightarrow> (g \<le> m_io_gas v \<Longrightarrow> Q (v\<lparr>m_io_gas := m_io_gas v - g\<rparr>)) \<Longrightarrow> post E Q (updateIOGas g v)"
  by (simp add: post_updateIOGas)

lemma post_ifI: "(b \<Longrightarrow> post E Q r) \<Longrightarrow> (\<not> b \<Longrightarrow> post E Q s) \<Longrightarrow> post E Q (if b then r else s)"
  by simp

lemma post_failI: "E (err, v) \<Longrightarrow> post E Q (fail err v)"
  by simp

lemma post_InrI: "Q y \<Longrightarrow> post E Q (Inr y)"
  by simp

lemma window_uint64:
  assumes "sz \<noteq> 0 \<longrightarrow> need = unat off + unat sz" "need \<le> 0x7FFFFFFFFFFFFFFF" "need \<le> len"
  shows "uint64 sz = 0 \<or> uint64 off + uint64 sz \<le> len"
  using assms by (cases "sz = 0") (auto simp: mod_less)

lemma window_uint32: "n \<le> len \<Longrightarrow> unat off + k \<le> n \<Longrightarrow> uint32 off + k \<le> len"
  by (meson add_le_mono1 le_trans mod_less_eq_dividend)

text \<open>The copying of data: the bytes written are a window of \<open>sp[2]\<close> bytes at \<open>sp[0]\<close>.\<close>

lemma post_copyDataToMemory:
  assumes "uint64 (sp ! 2) = 0 \<or> uint64 (sp ! 0) + uint64 (sp ! 2) \<le> length (m_mem v)"
    and d: "length d < 2 ^ 64"
    and Q: "\<And>m. length m = length (m_mem v) \<Longrightarrow> Q (v\<lparr>m_mem := m\<rparr>)"
  shows "post E Q (copyDataToMemory d sp v)"
proof -
  define off where "off = uint64 (sp ! 0)"
  define n where "n = uint64 (sp ! 2)"
  define b where "b = unat (sp ! 1)"
  define k where "k = (if b + n > length d then (if length d < b then 0 else length d - b mod 2 ^ 64) else n)"
  have win: "n = 0 \<or> off + n \<le> length (m_mem v)" using assms by (simp add: off_def n_def)
  have "b mod 2 ^ 64 = b" if "\<not> length d < b" using that d by simp
  then have k: "k \<le> n" by (auto simp: k_def simp del: power_numeral)
  have "copyDataToMemory d sp v =
    ebind (mem_write v off (take k (drop (b mod 2 ^ 64) d))) (\<lambda>v.
      if n > k then mem_write v (off + k) (replicate (n - k) 0) else Inr v)"
    unfolding copyDataToMemory_def Let_def off_def n_def b_def k_def by (rule refl)
  also have "post E Q \<dots>"
  proof (intro post_ebind post_mem_write post_ifI post_InrI)
    show "take k (drop (b mod 2 ^ 64) d) = [] \<or>
        off + length (take k (drop (b mod 2 ^ 64) d)) \<le> length (m_mem v)"
      using win k by auto
  qed (use win k in \<open>auto intro: Q\<close>)
  finally show ?thesis .
qed

subsection \<open>The world outside\<close>

text \<open>
  What the interpreter relies on in \<open>ExtVMFace\<close>, for an invariant \<open>I\<close> of the world: the operations keep
  \<open>I\<close> and byte strings have sizes that fit \<open>size_t\<close> (\<open>ext_ok\<close>); a call or creation whose value can be
  paid returns, and gives back at most the gas it was given (\<open>ext_metered\<close>).
\<close>

definition ext_ok :: "('e \<Rightarrow> bool) \<Rightarrow> 'e ext_ops \<Rightarrow> bool" where
  "ext_ok I X \<longleftrightarrow>
     (\<forall>e a. I e \<longrightarrow> length (x_codeAt X e a) < 2 ^ 64) \<and>
     (\<forall>e k x. I e \<longrightarrow> I (x_setStore X k x e)) \<and> (\<forall>e a e'. I e \<longrightarrow> x_suicide X a e = Some e' \<longrightarrow> I e') \<and>
     (\<forall>e ts d. I e \<longrightarrow> I (x_log X ts d e)) \<and> (\<forall>e g. I e \<longrightarrow> I (x_refund X g e)) \<and>
     (\<forall>p e e' g b out. I e \<longrightarrow> length (call_data p) < 2 ^ 64 \<longrightarrow> x_call X p e = Some (e', g, b, out) \<longrightarrow>
       I e' \<and> length out < 2 ^ 64) \<and>
     (\<forall>w g c op s e e' g' a out. I e \<longrightarrow> length c < 2 ^ 64 \<longrightarrow> x_create X w g c op s e = Some (e', g', a, out) \<longrightarrow> I e' \<and> length out < 2 ^ 64)"

definition call_allowed :: "'e ext_ops \<Rightarrow> vm_env \<Rightarrow> 'e \<Rightarrow> CallParameters \<Rightarrow> bool" where
  "call_allowed X E e p \<longleftrightarrow>
     e_depth E < 1024 \<and> valueTransfer p \<le> x_balance X e (e_myAddress E) \<and>
     (valueTransfer p = 0 \<or> senderAddress p = e_myAddress E) \<and> length (call_data p) < 2 ^ 64 \<and>
     (receiveAddress p = e_myAddress E \<or> length (receiveAddress p) = 20)"

definition ext_metered :: "('e \<Rightarrow> bool) \<Rightarrow> 'e ext_ops \<Rightarrow> vm_env \<Rightarrow> bool" where
  "ext_metered I X E \<longleftrightarrow>
     (\<forall>p e. I e \<longrightarrow> call_allowed X E e p \<longrightarrow>
       (\<exists>e' g b out. x_call X p e = Some (e', g, b, out) \<and> g \<le> call_gas p)) \<and>
     (\<forall>e a. I e \<longrightarrow> (\<exists>e'. x_suicide X a e = Some e')) \<and>
     (\<forall>w g c op s e. I e \<longrightarrow> length c < 2 ^ 64 \<longrightarrow> e_depth E < 1024 \<longrightarrow> w \<le> x_balance X e (e_myAddress E) \<longrightarrow>
       (\<exists>e' g' a out. x_create X w g c op s e = Some (e', g', a, out) \<and> g' \<le> g))"

lemma ext_okD:
  assumes "ext_ok I X"
  shows "\<forall>e a. I e \<longrightarrow> length (x_codeAt X e a) < 2 ^ 64"
    "\<forall>e k x. I e \<longrightarrow> I (x_setStore X k x e)" "\<forall>e a e'. I e \<longrightarrow> x_suicide X a e = Some e' \<longrightarrow> I e'"
    "\<forall>e ts d. I e \<longrightarrow> I (x_log X ts d e)" "\<forall>e g. I e \<longrightarrow> I (x_refund X g e)"
    "\<forall>p e e' g b out. I e \<longrightarrow> length (call_data p) < 2 ^ 64 \<longrightarrow> x_call X p e = Some (e', g, b, out) \<longrightarrow> I e' \<and> length out < 2 ^ 64"
    "\<forall>w g c op s e e' g' a out. I e \<longrightarrow> length c < 2 ^ 64 \<longrightarrow> x_create X w g c op s e = Some (e', g', a, out) \<longrightarrow> I e' \<and> length out < 2 ^ 64"
  using assms unfolding ext_ok_def by - (elim conjE, assumption)+

lemmas ext_ok_ops = ext_okD(1-5) [rule_format]
lemmas ext_ok_call = ext_okD(6) [rule_format]
lemmas ext_ok_create = ext_okD(7) [rule_format]

lemma metered_call:
  assumes "ext_metered I X E" "I e" "call_allowed X E e p"
  shows "\<exists>e' g b out. x_call X p e = Some (e', g, b, out) \<and> g \<le> call_gas p"
  using assms unfolding ext_metered_def by blast

lemma metered_suicide: "ext_metered I X E \<Longrightarrow> I e \<Longrightarrow> \<exists>e'. x_suicide X a e = Some e'"
  unfolding ext_metered_def by blast

lemma metered_create:
  assumes "ext_metered I X E" "I e" "length c < 2 ^ 64" "e_depth E < 1024" "w \<le> x_balance X e (e_myAddress E)"
  shows "\<exists>e' g' a out. x_create X w g c op s e = Some (e', g', a, out) \<and> g' \<le> g"
  using assms unfolding ext_metered_def by blast

subsection \<open>Every instruction\<close>

text \<open>The interpreter's state between two instructions of a program of \<open>n\<close> bytes.\<close>

definition vm_wf :: "nat \<Rightarrow> ('e \<Rightarrow> bool) \<Rightarrow> 'e vm \<Rightarrow> bool" where
  "vm_wf n I v \<longleftrightarrow>
     m_PC v < n + 33 \<and> length (m_stack v) \<le> 1024 \<and> 32 dvd length (m_mem v) \<and> m_io_gas v < 2 ^ 64 \<and>
     length (m_returnData v) < 2 ^ 64 \<and> I (m_ext v)"

text \<open>The gas left and the gas the memory has cost.\<close>

definition pot :: "EVMSchedule \<Rightarrow> 'e vm \<Rightarrow> nat" where
  "pot S v = m_io_gas v + mem_cost S (length (m_mem v))"

text \<open>Before an instruction that takes \<open>args\<close> words and leaves \<open>ret\<close>.\<close>

definition ready :: "nat \<Rightarrow> ('e \<Rightarrow> bool) \<Rightarrow> nat \<Rightarrow> nat \<Rightarrow> 'e vm \<Rightarrow> bool" where
  "ready n I args ret v \<longleftrightarrow>
     m_PC v < n \<and> args \<le> length (m_stack v) \<and> length (m_stack v) - args + ret \<le> 1024 \<and>
     32 dvd length (m_mem v) \<and> m_io_gas v < 2 ^ 64 \<and> length (m_returnData v) < 2 ^ 64 \<and> I (m_ext v)"

text \<open>After it: \<open>H\<close> is the condition under which gas is accounted for.\<close>

definition step_ok :: "nat \<Rightarrow> ('e \<Rightarrow> bool) \<Rightarrow> EVMSchedule \<Rightarrow> bool \<Rightarrow> 'e vm \<Rightarrow> 'e vm_result \<Rightarrow> bool" where
  "step_ok n I S H v r =
     (case r of
        Next v' \<Rightarrow> vm_wf n I v' \<and> (H \<longrightarrow> pot S v' < pot S v)
      | Halt v' out \<Rightarrow> m_io_gas v' < 2 ^ 64 \<and> I (m_ext v') \<and> length out < 2 ^ 64 \<and> (H \<longrightarrow> pot S v' \<le> pot S v))"

definition err_ok :: "('e \<Rightarrow> bool) \<Rightarrow> bool \<Rightarrow> 'e vm \<Rightarrow> vm_error \<times> 'e vm \<Rightarrow> bool" where
  "err_ok I H v x \<longleftrightarrow> fst x \<noteq> OutOfBounds \<and> m_io_gas (snd x) \<le> m_io_gas v \<and> (H \<longrightarrow> fst x \<noteq> NoReturn) \<and>
     I (m_ext (snd x)) \<and> (\<forall>out. fst x = RevertInstruction out \<longrightarrow> length out < 2 ^ 64)"

lemmas post_intros = post_ebind post_memNeed post_payMem post_mem_slice post_mem_write post_toInt63I
  post_updateIOGasI post_ifI post_failI post_InrI

lemmas step_defs = ready_def err_ok_def step_ok_def vm_wf_def pot_def

abbreviation instr_ok :: "nat \<Rightarrow> ('e \<Rightarrow> bool) \<Rightarrow> EVMSchedule \<Rightarrow> bool \<Rightarrow> 'e vm \<Rightarrow> ('e, 'e vm_result) vmr \<Rightarrow> bool" where
  "instr_ok n I S H v r \<equiv> post (err_ok I H v) (step_ok n I S H v) r"

text \<open>A price that is neither free nor able to overflow the counter.\<close>

definition price :: "EVMSchedule \<Rightarrow> nat \<Rightarrow> bool" where
  "price S g \<longleftrightarrow> 0 < g \<and> g < 2 ^ 62 \<and> copyGas S \<le> 8"

lemma price_no_wrap: "price S g \<Longrightarrow> copy \<le> 0x7FFFFFFFFFFFFFFF \<Longrightarrow> no_wrap S copy g"
proof -
  assume g: "price S g" and copy: "copy \<le> 0x7FFFFFFFFFFFFFFF"
  have "(copy + 31) div 32 \<le> 2 ^ 58" using copy by simp
  then have "copyGas S * ((copy + 31) div 32) \<le> 8 * 2 ^ 58"
    using g unfolding price_def by (intro mult_le_mono) blast+
  then show ?thesis using g unfolding price_def no_wrap_def by simp
qed

lemma no_wrap_0: "g \<le> 0x7FFFFFFFFFFFFFFF \<Longrightarrow> no_wrap S 0 g"
  by (simp add: no_wrap_def)

lemma price_pos: "price S g \<Longrightarrow> 0 < g"
  by (simp add: price_def)

lemma uint32_mono: "unat off + k \<le> len \<Longrightarrow> uint32 off + k \<le> len"
  by (meson add_le_mono1 le_trans mod_less_eq_dividend)

lemma NEXT_ok:
  assumes "m_PC v' < n" "length st \<le> 1024" "32 dvd length (m_mem v')" "m_io_gas v' < 2 ^ 64"
    "length (m_returnData v') < 2 ^ 64" "I (m_ext v')" "H \<longrightarrow> pot S v' < pot S v"
  shows "instr_ok n I S H v (NEXT v' st)"
  using assms by (simp add: NEXT_def step_ok_def vm_wf_def pot_def)

lemma case_MLOAD_ok:
  assumes "ready n I 1 1 v" "H \<longrightarrow> price S g"
  shows "instr_ok n I S H v (case_MLOAD S g v)"
  unfolding case_MLOAD_def Let_def
  by (intro post_intros NEXT_ok)
    (use assms price_no_wrap [of S g 0] price_pos [of S g] in \<open>auto simp: step_defs uint32_mono\<close>)

lemma length_toBytes32 [simp]: "length (toBytes32 w) = 32"
  by (simp add: toBytes32_def)

text \<open>Instructions that expand memory.\<close>

lemma case_MSTORE_ok:
  assumes "ready n I 2 0 v" "H \<longrightarrow> price S g"
  shows "instr_ok n I S H v (case_MSTORE S g v)"
  unfolding case_MSTORE_def Let_def
  by (intro post_intros NEXT_ok)
    (use assms price_no_wrap [of S g 0] price_pos [of S g] in \<open>auto simp: step_defs uint32_mono\<close>)

lemma case_MSTORE8_ok:
  assumes "ready n I 2 0 v" "H \<longrightarrow> price S g"
  shows "instr_ok n I S H v (case_MSTORE8 S g v)"
  unfolding case_MSTORE8_def Let_def
  by (intro post_intros NEXT_ok)
    (use assms price_no_wrap [of S g 0] price_pos [of S g] uint32_mono [of "m_stack v ! 0" 1] in \<open>auto simp: step_defs\<close>)

lemma case_RETURN_ok:
  assumes "ready n I 2 0 v" "G \<longrightarrow> no_wrap S 0 g"
  shows "post (err_ok I H v) (\<lambda>(v', out). m_io_gas v' \<le> m_io_gas v \<and> I (m_ext v') \<and> length out < 2 ^ 64 \<and> (G \<longrightarrow> pot S v' \<le> pot S v))
    (case_RETURN S g v)"
  unfolding case_RETURN_def Let_def
  by (intro post_intros window_uint64) (use assms in \<open>auto simp: step_defs\<close>)

lemma case_REVERT_ok:
  assumes "ready n I 2 0 v"
  shows "instr_ok n I S H v (case_REVERT S g v)"
  unfolding case_REVERT_def
  by (intro post_ifI post_failI post_ebind post_weaken [OF case_RETURN_ok [where G = False, OF assms]])
    (use assms in \<open>auto simp: err_ok_def ready_def\<close>)

lemma case_SHA3_ok:
  assumes "ready n I 2 1 v" "H \<longrightarrow> 0 < sha3Gas S"
  shows "instr_ok n I S H v (case_SHA3 X S v)"
  unfolding case_SHA3_def Let_def
  by (intro post_intros NEXT_ok window_uint64) (use assms in \<open>auto simp: step_defs no_wrap_0\<close>)

lemma case_LOG_ok:
  assumes "ready n I (k + 2) 0 v" "H \<longrightarrow> 0 < logGas (e_schedule E)" "ext_ok I X"
  shows "instr_ok n I (e_schedule E) H v (case_LOG X E k v)"
  unfolding case_LOG_def logGasMem_def Let_def
  by (intro post_intros NEXT_ok window_uint64) (use assms in \<open>auto simp: step_defs no_wrap_0 ext_ok_ops [OF assms(3)]\<close>)

lemma case_DATACOPY_ok:
  assumes "ready n I 3 0 v" "H \<longrightarrow> price S g" "length d < 2 ^ 64"
  shows "instr_ok n I S H v (case_DATACOPY S g d v)"
  unfolding case_DATACOPY_def Let_def
  by (intro post_intros NEXT_ok post_copyDataToMemory window_uint64)
    (use assms price_no_wrap [of S g] price_pos [of S g] in \<open>auto simp: step_defs\<close>)

lemma case_RETURNDATACOPY_ok:
  assumes "ready n I 3 0 v" "H \<longrightarrow> price S g"
  shows "instr_ok n I S H v (case_RETURNDATACOPY S g v)"
  unfolding case_RETURNDATACOPY_def
  by (intro post_ifI post_failI case_DATACOPY_ok assms) (use assms in \<open>auto simp: step_defs\<close>)

lemma case_EXTCODECOPY_ok:
  assumes "ready n I 4 0 v" "H \<longrightarrow> price S (extcodecopyGas S)" "ext_ok I X"
  shows "instr_ok n I S H v (case_EXTCODECOPY X S v)"
  unfolding case_EXTCODECOPY_def Let_def
proof (intro post_intros NEXT_ok post_copyDataToMemory)
  fix need io and m :: bytes
  assume a: "need \<le> 0x7FFFFFFFFFFFFFFF" "need \<le> length m"
    "m_stack v ! 3 \<noteq> 0 \<longrightarrow> need = unat (m_stack v ! 1) + unat (m_stack v ! 3)"
  have "drop 1 (m_stack v) ! 2 = m_stack v ! 3" "drop 1 (m_stack v) ! 0 = m_stack v ! 1"
    using assms(1) by (simp_all add: ready_def numeral_3_eq_3)
  then show "uint64 (drop 1 (m_stack v) ! 2) = 0 \<or>
      uint64 (drop 1 (m_stack v) ! 0) + uint64 (drop 1 (m_stack v) ! 2) \<le> length (m_mem (v\<lparr>m_mem := m, m_io_gas := io\<rparr>))"
    using window_uint64 [OF a(3,1,2)] by simp
qed (use assms price_no_wrap [of S "extcodecopyGas S"] price_pos [of S "extcodecopyGas S"] in
    \<open>auto simp: step_defs ext_ok_ops [OF assms(3)] simp del: power_numeral\<close>)

text \<open>Instructions with a fixed price.\<close>

lemma case_ordinary_ok:
  assumes "ready n I k 1 v" "H \<longrightarrow> 0 < g"
  shows "instr_ok n I S H v (case_ordinary g k f v)"
  unfolding case_ordinary_def Let_def
  by (intro post_intros NEXT_ok) (use assms in \<open>auto simp: step_defs\<close>)

lemma case_priced_ok:
  assumes "ready n I 1 1 v" "H \<longrightarrow> 0 < p"
  shows "instr_ok n I S H v (case_priced p f v)"
  unfolding case_priced_def Let_def
  by (intro post_intros NEXT_ok) (use assms in \<open>auto simp: step_defs\<close>)

lemma case_EXP_ok:
  assumes "ready n I 2 1 v" "H \<longrightarrow> 0 < expGas S"
  shows "instr_ok n I S H v (case_EXP S v)"
  unfolding case_EXP_def Let_def
  by (intro post_intros NEXT_ok) (use assms in \<open>auto simp: step_defs\<close>)

lemma case_shift_ok:
  assumes "ready n I 2 1 v" "H \<longrightarrow> 0 < g"
  shows "instr_ok n I S H v (case_shift S g p v)"
  unfolding case_shift_def
  by (intro post_ifI post_failI case_ordinary_ok assms) (use assms in \<open>simp add: err_ok_def ready_def\<close>)

lemma case_RETURNDATASIZE_ok:
  assumes "ready n I 0 1 v" "H \<longrightarrow> 0 < g"
  shows "instr_ok n I S H v (case_RETURNDATASIZE S g v)"
  unfolding case_RETURNDATASIZE_def
  by (intro post_ifI post_failI case_ordinary_ok assms) (use assms in \<open>simp add: err_ok_def ready_def\<close>)

lemma case_machine_ok:
  assumes "ready n I 0 1 v" "H \<longrightarrow> 0 < g"
  shows "instr_ok n I S H v (case_machine g p v)"
  unfolding case_machine_def
  by (intro post_intros NEXT_ok) (use assms in \<open>auto simp: step_defs\<close>)

lemma case_POP_ok:
  assumes "ready n I 1 0 v" "H \<longrightarrow> 0 < g"
  shows "instr_ok n I S H v (case_POP g v)"
  unfolding case_POP_def
  by (intro post_intros NEXT_ok) (use assms in \<open>auto simp: step_defs\<close>)

lemma case_DUP_ok:
  assumes "ready n I k (k + 1) v" "H \<longrightarrow> 0 < g"
  shows "instr_ok n I S H v (case_DUP k g v)"
  unfolding case_DUP_def Let_def
  by (intro post_intros NEXT_ok) (use assms in \<open>auto simp: step_defs\<close>)

lemma case_SWAP_ok:
  assumes "ready n I (k + 1) (k + 1) v" "H \<longrightarrow> 0 < g"
  shows "instr_ok n I S H v (case_SWAP k g v)"
  unfolding case_SWAP_def Let_def
  by (intro post_intros NEXT_ok) (use assms in \<open>auto simp: step_defs\<close>)

lemma case_JUMPDEST_ok:
  assumes "ready n I 0 0 v"
  shows "instr_ok n I S H v (case_JUMPDEST v)"
  unfolding case_JUMPDEST_def
  by (intro post_intros NEXT_ok) (use assms in \<open>auto simp: step_defs\<close>)

lemma case_STOP_ok:
  assumes "m_io_gas v < 2 ^ 64" "I (m_ext v)"
  shows "instr_ok n I S H v (case_STOP g v)"
  unfolding case_STOP_def
  by (intro post_intros) (use assms in \<open>auto simp: step_defs\<close>)

lemma suicide_tail_ok:
  assumes "m_io_gas v' \<le> m_io_gas v" "m_io_gas v < 2 ^ 64" "I (m_ext v')" "m_mem v' = m_mem v"
    and X: "ext_ok I X" "H \<longrightarrow> ext_metered I X E"
  shows "instr_ok n I S H v
    (case x_suicide X dest (m_ext v') of None \<Rightarrow> fail NoReturn v' | Some e \<Rightarrow> Inr (Halt (v'\<lparr>m_ext := e\<rparr>) []))"
proof (cases "x_suicide X dest (m_ext v')")
  case None
  then have "\<not> H" using X(2) metered_suicide [of I X E "m_ext v'" dest] assms(3) by auto
  then show ?thesis using None assms by (simp add: err_ok_def)
next
  case (Some e)
  then show ?thesis using ext_ok_ops(3) [OF X(1) assms(3) Some] assms by (simp add: step_ok_def pot_def)
qed

lemma case_SUICIDE_ok:
  assumes "ready n I 1 0 v" "ext_ok I X" "H \<longrightarrow> ext_metered I X E"
  shows "instr_ok n I S H v (case_SUICIDE X E v)"
  unfolding case_SUICIDE_def Let_def
  by (intro post_intros suicide_tail_ok [where E = E]) (use assms in \<open>auto simp: step_defs\<close>)

lemma case_SSTORE_ok:
  assumes "ready n I 2 0 v" "H \<longrightarrow> 0 < sstoreSetGas (e_schedule E) \<and> 0 < sstoreResetGas (e_schedule E)" "ext_ok I X"
  shows "instr_ok n I S H v (case_SSTORE X E v)"
  unfolding case_SSTORE_def updateSSGas_def Let_def
  by (intro post_intros NEXT_ok) (use assms in \<open>auto simp: step_defs ext_ok_ops [OF assms(3)] intro!: post_intros NEXT_ok\<close>)

text \<open>Jumps and pushes: the program is followed by 33 zero bytes.\<close>

definition prog_ok :: "nat \<Rightarrow> bytes \<times> nat list \<Rightarrow> bool" where
  "prog_ok n prog \<longleftrightarrow>
     length (fst prog) = n + 33 \<and> (\<forall>i < 33. fst prog ! (n + i) = 0) \<and>
     (\<forall>d \<in> set (snd prog). d < n \<and> fst prog ! d = 0x5b)"

lemma case_PUSH_ok:
  assumes "ready n I 0 1 v" "H \<longrightarrow> 0 < g" "k \<le> 32" "prog_ok n prog"
  shows "instr_ok n I S H v (case_PUSH (fst prog) k g v)"
  unfolding case_PUSH_def
  by (intro post_intros) (use assms in \<open>auto simp: step_defs prog_ok_def\<close>)

lemma post_verifyJumpDest:
  assumes "E (BadJumpDestination, v)" "\<And>pc. pc \<in> set dests \<Longrightarrow> Q pc"
  shows "post E Q (verifyJumpDest dests dest v)"
  unfolding verifyJumpDest_def using assms by (intro post_ifI post_InrI post_failI) blast+

lemma case_JUMP_ok:
  assumes "ready n I 1 0 v" "H \<longrightarrow> 0 < g" "prog_ok n prog"
  shows "instr_ok n I S H v (case_JUMP (snd prog) g v)"
  unfolding case_JUMP_def Let_def
  by (intro post_intros post_verifyJumpDest) (use assms in \<open>fastforce simp: step_defs prog_ok_def\<close>)+

lemma case_JUMPI_ok:
  assumes "ready n I 2 0 v" "H \<longrightarrow> 0 < g" "prog_ok n prog"
  shows "instr_ok n I S H v (case_JUMPI (snd prog) g v)"
  unfolding case_JUMPI_def Let_def
  by (intro post_intros post_verifyJumpDest) (use assms in \<open>fastforce simp: step_defs prog_ok_def\<close>)+

subsection \<open>Calls\<close>

text \<open>
  Prices under which gas cannot grow: every instruction costs something, and a call keeps back the
  64th part of what is left (\<open>eip150Mode\<close>).
\<close>

definition priced :: "EVMSchedule \<Rightarrow> bool" where
  "priced S \<longleftrightarrow>
     eip150Mode S \<and> tierStepGas S = [0, 2, 3, 5, 8, 10, 20, 0] \<and> copyGas S \<le> 8 \<and>
     0 < sha3Gas S \<and> 0 < logGas S \<and> 0 < expGas S \<and> 0 < sstoreSetGas S \<and> 0 < sstoreResetGas S \<and>
     0 < createGas S \<and> 0 < callGas S \<and> callStipend S \<le> callValueTransferGas S \<and>
     callGas S + callNewAccountGas S + callValueTransferGas S < 2 ^ 62 \<and>
     (\<forall>p \<in> {balanceGas S, extcodesizeGas S, sloadGas S, blockhashGas S}. 0 < p) \<and>
     0 < extcodecopyGas S \<and> extcodecopyGas S < 2 ^ 62"

lemma priced_schedules:
  "S \<in> {EIP150Schedule, EIP158Schedule, ByzantiumSchedule, ConstantinopleSchedule} \<Longrightarrow> priced S"
  by (elim insertE emptyE) (simp_all add: priced_def schedule_defs)

lemma refund_le:
  assumes "gas \<le> cg" "cg \<le> io"
  shows "nat ((int io - (int cg - int gas)) mod 2 ^ 64) \<le> io"
proof -
  have "(int io - (int cg - int gas)) mod 2 ^ 64 \<le> int io - (int cg - int gas)"
    using assms by (intro zmod_le_nonneg_dividend) simp
  then show ?thesis using assms by linarith
qed

lemma refund_less: "nat ((int io - (int cg - int gas)) mod 2 ^ 64) < 2 ^ 64"
  by (simp add: nat_less_iff)

lemma post_split: "(\<And>a b. p = (a, b) \<Longrightarrow> post E Q (f a b)) \<Longrightarrow> post E Q (case p of (a, b) \<Rightarrow> f a b)"
  by (cases p) simp

lemma create_tail_ok:
  assumes X: "ext_ok I X" "H \<longrightarrow> ext_metered I X E" and bal: "w \<le> x_balance X (m_ext v') (e_myAddress E)" "e_depth E < 1024" "length code < 2 ^ 64"
    and v: "m_PC v' < n" "length st < 1024" "32 dvd length (m_mem v')" "I (m_ext v')" "m_io_gas v' \<le> m_io_gas v"
      "H \<longrightarrow> pot S v' < pot S v" "cg \<le> m_io_gas v'"
  shows "instr_ok n I S H v
    (case x_create X w cg code op salt (m_ext v') of
       None \<Rightarrow> fail NoReturn v'
     | Some (e, gas, addr, out) \<Rightarrow>
         NEXT (v'\<lparr>m_ext := e, m_returnData := out,
                 m_io_gas := nat ((int (m_io_gas v') - (int cg - int gas)) mod 2 ^ 64)\<rparr>) (fromAddress addr # st))"
proof (cases "x_create X w cg code op salt (m_ext v')")
  case None
  then have "\<not> H" using X(2) metered_create [of I X E "m_ext v'" code w cg op salt] bal v(4) by auto
  then show ?thesis using None v by (simp add: err_ok_def)
next
  case (Some r)
  obtain e gas addr out where r: "r = (e, gas, addr, out)" by (metis prod_cases4)
  have "gas \<le> cg" if H using that Some X(2) metered_create [of I X E "m_ext v'" code w cg op salt] bal v(4) by (auto simp: r)
  moreover have "I e \<and> length out < 2 ^ 64" using ext_ok_create [OF X(1) v(4) bal(3)] Some by (simp add: r)
  ultimately show ?thesis
    using Some X v refund_le [of gas cg "m_io_gas v'"] refund_less by (auto simp: r pot_def intro!: NEXT_ok)
qed

lemma caseCreate_ok:
  assumes v: "ready n I (if op = I_CREATE then 3 else 4) 1 v" "H \<longrightarrow> 0 < createGas (e_schedule E)"
    and X: "ext_ok I X" "H \<longrightarrow> ext_metered I X E"
  shows "instr_ok n I (e_schedule E) H v (caseCreate X E op v)"
proof -
  define salt where "salt = (if op = I_CREATE then 0 else m_stack v ! 1)"
  define initOff where "initOff = (if op = I_CREATE then m_stack v ! 1 else m_stack v ! 2)"
  define initSize where "initSize = (if op = I_CREATE then m_stack v ! 2 else m_stack v ! 3)"
  define args :: nat where "args = (if op = I_CREATE then 3 else 4)"
  have tuple: "(if op = I_CREATE then (0, m_stack v ! 1, m_stack v ! 2, 3) else (m_stack v ! 1, m_stack v ! 2, m_stack v ! 3, 4))
     = (salt, initOff, initSize, args)"
    by (simp add: salt_def initOff_def initSize_def args_def)
  have "ready n I args 1 v" using v(1) by (auto simp: args_def)
  then show ?thesis
    unfolding caseCreate_def Let_def tuple prod.case
    by (intro post_intros create_tail_ok [where E = E] X NEXT_ok window_uint64)
      (use v X in \<open>auto simp: step_defs no_wrap_0\<close>)
qed

text \<open>
  \<open>caseCallSetup\<close>: what is left, together with the gas handed to the callee, is less than before.
\<close>

definition setup_ok :: "nat \<Rightarrow> 'e ext_ops \<Rightarrow> vm_env \<Rightarrow> bool \<Rightarrow> 'e vm \<Rightarrow> bool \<times> CallParameters \<times> nat \<times> nat \<times> 'e vm \<Rightarrow> bool" where
  "setup_ok n X E H v r =
     (case r of (ok, p, outOff, outSize, v') \<Rightarrow>
        m_PC v' < n \<and> m_stack v' = m_stack v \<and> m_returnData v' = m_returnData v \<and> m_ext v' = m_ext v \<and>
        32 dvd length (m_mem v') \<and> m_io_gas v' < 2 ^ 64 \<and>
        (outSize = 0 \<or> outOff + outSize \<le> length (m_mem v')) \<and> (ok \<longrightarrow> call_allowed X E (m_ext v) p) \<and>
        m_io_gas v' \<le> m_io_gas v \<and> (H \<longrightarrow> pot (e_schedule E) v' + call_gas p < pot (e_schedule E) v))"

lemma setup_okI:
  assumes "m_PC v' < n" "m_stack v' = m_stack v" "m_returnData v' = m_returnData v" "m_ext v' = m_ext v"
    "32 dvd length (m_mem v')"
    "m_io_gas v < 2 ^ 64" "m_io_gas v' \<le> m_io_gas v" "sz = 0 \<or> off + sz \<le> length (m_mem v')"
    "ok \<Longrightarrow> call_allowed X E (m_ext v) p" "H \<Longrightarrow> pot (e_schedule E) v' + call_gas p < pot (e_schedule E) v"
  shows "setup_ok n X E H v (ok, p, off, sz, v')"
  using assms by (simp add: setup_ok_def)

lemma post_call_price:
  assumes "E (OutOfGas, v)"
    and "\<And>g2. (priced S \<longrightarrow> g2 < 2 ^ 62 \<and> callGas S + (if b then callValueTransferGas S else 0) \<le> g2) \<Longrightarrow> Q g2"
  shows "post E Q
    (ebind (ebind (toInt63 v (callGas S)) (\<lambda>g0.
       if a then ebind (toInt63 v (callNewAccountGas S)) (\<lambda>d. Inr ((g0 + d) mod 2 ^ 64)) else Inr g0)) (\<lambda>g1.
     if b then ebind (toInt63 v (callValueTransferGas S)) (\<lambda>d. Inr ((g1 + d) mod 2 ^ 64)) else Inr g1))"
  by (intro post_intros assms) (auto simp: priced_def)

text \<open>The gas argument: what the callee gets is taken from what is left, up to the stipend.\<close>

lemma call_gas_split:
  assumes "priced S" "runGas = (if staticCallDepthLimit S then a else min a (io - io div 64))"
  shows "io - (if io < runGas then io else runGas) + (if b then runGas + callStipend S else runGas)
    \<le> io + (if b then callValueTransferGas S else 0)"
proof -
  have "runGas \<le> io" using assms by (simp add: priced_def staticCallDepthLimit_def)
  then show ?thesis using assms(1) by (auto simp: priced_def)
qed

lemma setup_tail_ok:
  fixes v :: "'e vm" and P :: "nat \<Rightarrow> bytes \<Rightarrow> CallParameters"
  assumes v: "m_PC v < n" "32 dvd length (m_mem v)" "m_io_gas v < 2 ^ 64" "I (m_ext v)"
    and g: "H \<longrightarrow> priced S" "priced S \<longrightarrow> g2 < 2 ^ 62 \<and> callGas S + (if b then callValueTransferGas S else 0) \<le> g2"
    and P: "\<And>g d. call_gas (P g d) = g" "\<And>w g d. m_ext w = m_ext v \<Longrightarrow> ok w \<Longrightarrow> length d < 2 ^ 64 \<Longrightarrow>
      call_allowed X E (m_ext v) (P g d)"
    and S: "S = e_schedule E"
  shows "post (err_ok I H v) (setup_ok n X E H v)
    (ebind (memNeed v inOff inSize) (\<lambda>inNeed.
     ebind (memNeed v outOff outSize) (\<lambda>outNeed.
     ebind (payMem S (max inNeed outNeed) 0 g2 v) (\<lambda>v.
     ebind (toInt63 v (if staticCallDepthLimit S then a else min a (m_io_gas v - m_io_gas v div 64))) (\<lambda>runGas.
     ebind (updateIOGas (if m_io_gas v < runGas then m_io_gas v else runGas) v) (\<lambda>v'.
     ebind (mem_slice v' (uint64 inOff) (uint64 inSize)) (\<lambda>d.
     Inr (ok v', P (if b then (if staticCallDepthLimit S then a else min a (m_io_gas v - m_io_gas v div 64)) + callStipend S
                    else if staticCallDepthLimit S then a else min a (m_io_gas v - m_io_gas v div 64)) d,
          uint64 outOff, uint64 outSize, v'))))))))"
proof (intro post_intros)
  fix inNeed outNeed :: nat and m :: bytes and io :: nat and d :: bytes
  let ?v = "v\<lparr>m_mem := m, m_io_gas := io\<rparr>"
  let ?run = "if staticCallDepthLimit S then a else min a (m_io_gas ?v - m_io_gas ?v div 64)"
  let ?v' = "?v\<lparr>m_io_gas := m_io_gas ?v - (if m_io_gas ?v < ?run then m_io_gas ?v else ?run)\<rparr>"
  assume need: "outNeed \<le> 0x7FFFFFFFFFFFFFFF" "outSize \<noteq> 0 \<longrightarrow> outNeed = unat outOff + unat outSize"
    "max inNeed outNeed \<le> length m"
    and m: "32 dvd length (m_mem v) \<longrightarrow> 32 dvd length m" "io \<le> m_io_gas v"
    and pay: "no_wrap S 0 g2 \<longrightarrow> io + mem_cost S (length m) + g2 \<le> m_io_gas v + mem_cost S (length (m_mem v))"
    and "length d = uint64 inSize"
  then have d: "length d < 2 ^ 64" by simp
  have win: "uint64 outSize = 0 \<or> uint64 outOff + uint64 outSize \<le> length m"
    by (rule window_uint64 [OF need(2,1)]) (use need(3) in simp)
  have "pot S ?v' + (if b then ?run + callStipend S else ?run) < pot S v" if H
  proof -
    have pr: "priced S" "0 < callGas S" using g that by (auto simp: priced_def)
    have "no_wrap S 0 g2" and g2: "callGas S + (if b then callValueTransferGas S else 0) \<le> g2"
      using g pr by (simp_all add: no_wrap_def)
    then have pay': "io + mem_cost S (length m) + g2 \<le> pot S v" using pay by (simp add: pot_def)
    have io: "m_io_gas ?v = io" by simp
    have pot: "pot S (?v\<lparr>m_io_gas := x\<rparr>) = x + mem_cost S (length m)" for x
      by (simp add: pot_def)
    show ?thesis
      using call_gas_split [OF pr(1) refl, of io a b] pay' g2 pr(2) unfolding pot io by linarith
  qed
  then show "setup_ok n X E H v (ok ?v', P (if b then ?run + callStipend S else ?run) d, uint64 outOff, uint64 outSize, ?v')"
    by (intro setup_okI) (use v m win P(2) [of ?v' d] d in \<open>simp_all add: P(1) S le_trans [OF diff_le_self]\<close>)
next
  fix inNeed outNeed :: nat and m :: bytes and v' :: "'e vm"
  assume "inNeed \<le> 0x7FFFFFFFFFFFFFFF" "inSize \<noteq> 0 \<longrightarrow> inNeed = unat inOff + unat inSize"
    "max inNeed outNeed \<le> length m"
  then have "uint64 inSize = 0 \<or> uint64 inOff + uint64 inSize \<le> length m"
    by (intro window_uint64 [of inSize inNeed]) simp_all
  then show "uint64 inSize = 0 \<or> uint64 inOff + uint64 inSize \<le> length (m_mem (v\<lparr>m_mem := m, m_io_gas := io,
      m_io_gas := x\<rparr>))" for io x
    by simp
qed (use v in \<open>simp_all add: err_ok_def\<close>)

lemma length_asAddress [simp]: "length (asAddress w) = 20"
  by (simp add: asAddress_def)

lemma caseCallSetup_ok:
  assumes v: "ready n I (if op = I_CALL \<or> op = I_CALLCODE then 7 else 6) 1 v"
    and H: "H \<longrightarrow> priced (e_schedule E)"
  shows "post (err_ok I H v) (setup_ok n X E H v) (caseCallSetup X E op v)"
  unfolding caseCallSetup_def Let_def
proof (subst ebind_assoc [symmetric], subst ebind_assoc [symmetric], rule post_ebind, rule post_call_price)
  show "err_ok I H v (OutOfGas, v)" using v by (simp add: err_ok_def ready_def)
qed (rule setup_tail_ok; use v H in \<open>auto simp: ready_def call_allowed_def\<close>)

end
