(* ===== verification/EVM_Run.thy ===== *)
theory EVM_Run
  imports EVM_Safety
begin

section \<open>Runs of the interpreter\<close>

text \<open>
  The calls, the step function and whole runs: \<open>vm_step_ok\<close> puts the instructions together,
  \<open>optimize_dests\<close> says what the jump table holds, \<open>vm_reach\<close> are the states between instructions of a run,
  and \<open>interpretCases_returns\<close> shows that a run ends when calls give back at most what they were given.
\<close>

subsection \<open>Call instructions\<close>

text \<open>\<open>caseCall\<close> and the guards of the call instructions.\<close>

lemma add_mod64_le: "(io + g mod 2 ^ 64) mod 2 ^ 64 \<le> io + (g :: nat)"
  by (metis add_left_mono le_trans mod_less_eq_dividend)

lemma call_tail_ok:
  assumes X: "ext_ok I X" "H \<longrightarrow> ext_metered I X E" and st: "length st < 1024"
    and s: "setup_ok n X E H w (ok, p, off, sz, v')"
    and w: "pot (e_schedule E) w = pot (e_schedule E) v" "length (m_returnData w) < 2 ^ 64" "I (m_ext w)" "m_io_gas w = m_io_gas v"
  shows "instr_ok n I (e_schedule E) H v
    (if ok then
       (case x_call X p (m_ext v') of
          None \<Rightarrow> fail NoReturn v'
        | Some (e, gas, success, out) \<Rightarrow>
            ebind (mem_write v' off (take sz out)) (\<lambda>v.
            NEXT (v\<lparr>m_ext := e, m_returnData := out, m_io_gas := (m_io_gas v + gas mod 2 ^ 64) mod 2 ^ 64\<rparr>)
              (bool256 success # st)))
     else NEXT (v'\<lparr>m_io_gas := (m_io_gas v' + call_gas p mod 2 ^ 64) mod 2 ^ 64\<rparr>) (0 # st))"
proof (rule post_ifI)
  let ?S = "e_schedule E"
  have v': "m_PC v' < n" "m_returnData v' = m_returnData w" "32 dvd length (m_mem v')" "m_ext v' = m_ext w"
    "sz = 0 \<or> off + sz \<le> length (m_mem v')" "m_io_gas v' \<le> m_io_gas v"
    and pay: "H \<longrightarrow> pot ?S v' + call_gas p < pot ?S v" and allowed: "ok \<longrightarrow> call_allowed X E (m_ext w) p"
    using s w by (simp_all add: setup_ok_def)
  show "instr_ok n I ?S H v
      (NEXT (v'\<lparr>m_io_gas := (m_io_gas v' + call_gas p mod 2 ^ 64) mod 2 ^ 64\<rparr>) (0 # st))"
    by (rule NEXT_ok)
      (use v' pay st w add_mod64_le [of "m_io_gas v'" "call_gas p"] in \<open>auto simp: pot_def simp del: power_numeral\<close>)
  assume ok
  note meter = metered_call [of I X E "m_ext w" p]
  show "instr_ok n I ?S H v (case x_call X p (m_ext v') of
          None \<Rightarrow> fail NoReturn v'
        | Some (e, gas, success, out) \<Rightarrow>
            ebind (mem_write v' off (take sz out)) (\<lambda>v.
            NEXT (v\<lparr>m_ext := e, m_returnData := out, m_io_gas := (m_io_gas v + gas mod 2 ^ 64) mod 2 ^ 64\<rparr>)
              (bool256 success # st)))"
  proof (cases "x_call X p (m_ext v')")
    case None
    then show ?thesis using meter X(2) w allowed v' \<open>ok\<close> by (auto simp: err_ok_def)
  next
    case (Some r)
    obtain e gas success out where r: "r = (e, gas, success, out)" by (metis prod_cases4)
    have "H \<longrightarrow> gas \<le> call_gas p" using meter X(2) w allowed v' \<open>ok\<close> Some r by auto
    then have gas: "H \<longrightarrow> (m_io_gas v' + gas mod 2 ^ 64) mod 2 ^ 64 \<le> m_io_gas v' + call_gas p"
      using add_mod64_le [of "m_io_gas v'" gas] by linarith
    have e: "I e \<and> length out < 2 ^ 64" using ext_ok_call [OF X(1), of "m_ext w" p] allowed \<open>ok\<close> w(3) v'(4) Some r by (simp add: call_allowed_def)
    show ?thesis
      unfolding Some r option.case prod.case
      by (intro post_intros NEXT_ok) (use v' pay gas st w e in \<open>auto simp: pot_def simp del: power_numeral\<close>)
  qed
qed

lemma caseCall_ok:
  assumes v: "ready n I (if op = I_CALL \<or> op = I_CALLCODE then 7 else 6) 1 v"
    and H: "H \<longrightarrow> priced (e_schedule E)" and X: "ext_ok I X" "H \<longrightarrow> ext_metered I X E"
  shows "instr_ok n I (e_schedule E) H v (caseCall X E op v)"
proof -
  let ?v = "v\<lparr>m_returnData := []\<rparr>"
  have "ready n I (if op = I_CALL \<or> op = I_CALLCODE then 7 else 6) 1 ?v" using v by (simp add: ready_def)
  note prep = caseCallSetup_ok [OF this H, of X]
  have err: "err_ok I H ?v = err_ok I H v" by (auto simp: err_ok_def)
  have st: "length (drop (if op = I_CALL \<or> op = I_CALLCODE then 7 else 6) (m_stack v)) < 1024"
    using v by (auto simp: ready_def)
  show ?thesis
    unfolding caseCall_def Let_def
  proof (rule post_ebind, rule post_weaken [OF prep [unfolded err]], goal_cases)
    case (1 y)
    obtain ok p off sz v' where y: "y = (ok, p, off, sz, v')" by (metis prod_cases5)
    show ?case
      using 1 unfolding y prod.case
      by (rule call_tail_ok [OF X st]) (use v in \<open>simp_all add: pot_def ready_def\<close>)
  qed
qed

lemma case_CALL_ok:
  assumes "ready n I (if op = I_CALL \<or> op = I_CALLCODE then 7 else 6) 1 v"
    "H \<longrightarrow> priced (e_schedule E)" "ext_ok I X" "H \<longrightarrow> ext_metered I X E"
  shows "instr_ok n I (e_schedule E) H v (case_CALL X E op v)"
  unfolding case_CALL_def Let_def
  by (intro post_ifI post_failI caseCall_ok assms) (use assms in \<open>simp_all add: err_ok_def ready_def\<close>)

lemma case_CREATE_ok:
  assumes "ready n I 3 1 v" "H \<longrightarrow> priced (e_schedule E)" "ext_ok I X" "H \<longrightarrow> ext_metered I X E"
  shows "instr_ok n I (e_schedule E) H v (case_CREATE X E v)"
  unfolding case_CREATE_def
  by (intro post_ifI post_failI caseCreate_ok assms) (use assms in \<open>auto simp: err_ok_def priced_def ready_def\<close>)

lemma case_CREATE2_ok:
  assumes "ready n I 4 1 v" "H \<longrightarrow> priced (e_schedule E)" "ext_ok I X" "H \<longrightarrow> ext_metered I X E"
  shows "instr_ok n I (e_schedule E) H v (case_CREATE2 X E v)"
  unfolding case_CREATE2_def
  by (intro post_ifI post_failI caseCreate_ok assms) (use assms in \<open>auto simp: err_ok_def priced_def ready_def\<close>)

subsection \<open>The step function\<close>

definition env_fits :: "vm_env \<Rightarrow> bool" where
  "env_fits E \<longleftrightarrow> length (e_data E) < 2 ^ 64 \<and> length (e_code E) < 2 ^ 64"

lemma halt_RETURN_ok:
  assumes "ready n I 2 0 v" "H \<longrightarrow> no_wrap S 0 g"
  shows "instr_ok n I S H v (ebind (case_RETURN S g v) (\<lambda>(v, out). Inr (Halt v out)))"
  by (rule post_ebind, rule post_weaken [OF case_RETURN_ok [where G = H, OF assms]])
    (use assms in \<open>auto simp: step_ok_def ready_def\<close>)

lemma tier_gas_priced:
  assumes "priced S"
  shows "t \<notin> {Zero, Special, Invalid} \<Longrightarrow> price S (tier_gas S t)" "no_wrap S 0 (tier_gas S Zero)"
    "t \<notin> {Zero, Special, Invalid} \<Longrightarrow> 0 < tier_gas S t"
  using assms by (cases t; simp add: priced_def tier_gas_def tier_index_def price_def no_wrap_def)+

lemma pure_metric_shape: "pure_metric p = (fst (pure_metric p), 1, snd (snd (pure_metric p)))"
  "snd (snd (pure_metric p)) \<notin> {Zero, Special, Invalid}"
  by (simp_all add: pure_metric_def split: pure_op.split)

lemmas instr_rules = case_MLOAD_ok case_MSTORE_ok case_MSTORE8_ok halt_RETURN_ok case_REVERT_ok case_SHA3_ok
  case_LOG_ok case_DATACOPY_ok case_RETURNDATACOPY_ok case_EXTCODECOPY_ok case_ordinary_ok case_priced_ok case_EXP_ok
  case_shift_ok case_RETURNDATASIZE_ok case_machine_ok case_POP_ok case_DUP_ok case_SWAP_ok case_JUMPDEST_ok
  case_STOP_ok case_SUICIDE_ok case_SSTORE_ok case_PUSH_ok case_JUMP_ok case_JUMPI_ok case_CALL_ok
  case_CREATE_ok case_CREATE2_ok

lemma interpret_case_ok:
  assumes op: "instruction_metric op = (args, ret, t)" "\<forall>k. op = I_PUSH k \<longrightarrow> k \<le> 32"
    and v: "ready n I args ret v" and prog: "prog_ok n prog" and E: "env_fits E" and X: "ext_ok I X"
    and H: "H \<longrightarrow> priced (e_schedule E)" "H \<longrightarrow> ext_metered I X E"
  shows "instr_ok n I (e_schedule E) H v (interpret_case X E prog op (tier_gas (e_schedule E) t) v)"
proof -
  let ?S = "e_schedule E"
  have data: "length (e_data E) < 2 ^ 64" "length (e_code E) < 2 ^ 64" using E by (simp_all add: env_fits_def)
  have io: "m_io_gas v < 2 ^ 64" "I (m_ext v)" using v by (simp_all add: ready_def)
  have pr: "H \<longrightarrow> price ?S (extcodecopyGas ?S)" "H \<longrightarrow> 0 < sha3Gas ?S" "H \<longrightarrow> 0 < logGas ?S"
    "H \<longrightarrow> 0 < expGas ?S" "H \<longrightarrow> 0 < sstoreSetGas ?S \<and> 0 < sstoreResetGas ?S"
    "H \<longrightarrow> 0 < balanceGas ?S" "H \<longrightarrow> 0 < extcodesizeGas ?S" "H \<longrightarrow> 0 < sloadGas ?S" "H \<longrightarrow> 0 < blockhashGas ?S"
    using H(1) by (auto simp: priced_def price_def)
  have tier: "t \<notin> {Zero, Special, Invalid} \<Longrightarrow> H \<longrightarrow> price ?S (tier_gas ?S t)" "H \<longrightarrow> no_wrap ?S 0 (tier_gas ?S Zero)"
    "t \<notin> {Zero, Special, Invalid} \<Longrightarrow> H \<longrightarrow> 0 < tier_gas ?S t" for t
    using tier_gas_priced H(1) by blast+
  show ?thesis
  proof (cases op)
    case (I_Pure p)
    then show ?thesis
      using op(1) v pure_metric_shape [of p] tier(3) [of t]
      by (simp add: interpret_case_def instruction_metric_def case_ordinary_ok del: post_simps)
  next
    case (I_Call c)
    then show ?thesis
      using op(1) v X H by (auto simp: interpret_case_def instruction_metric_def split: if_splits intro!: case_CALL_ok simp del: post_simps)
  qed (use op v in \<open>clarsimp simp: interpret_case_def instruction_metric_def instr_rules prog data io pr tier X H
         err_ok_def simp del: post_simps power_numeral\<close>)+
qed

lemma decode_PUSH: "decode b = I_PUSH k \<Longrightarrow> k \<le> 32"
  by (auto simp: decode_def decode_arith_def decode_env_def decode_flow_def decode_system_def Let_def split: if_splits)

lemma decode_0: "decode 0 = I_STOP"
  by (simp add: decode_def decode_arith_def)

lemma vm_step_ok:
  assumes v: "vm_wf n I v" and prog: "prog_ok n prog" and E: "env_fits E" and X: "ext_ok I X"
    and H: "H \<longrightarrow> priced (e_schedule E)" "H \<longrightarrow> ext_metered I X E"
  shows "instr_ok n I (e_schedule E) H v (vm_step X E prog v)"
proof -
  define op where "op = decode (fst prog ! m_PC v)"
  obtain args ret t where m: "instruction_metric op = (args, ret, t)" by (metis prod_cases3)
  have fetch: "vm_step X E prog v =
    ebind (adjustStack args ret v) (\<lambda>_. ebind (toInt63 v (tier_gas (e_schedule E) t)) (\<lambda>g. interpret_case X E prog op g v))"
    using v prog m by (simp add: vm_step_def fetchInstruction_def ebind_assoc vm_wf_def prog_ok_def op_def [symmetric])
  have run: "instr_ok n I (e_schedule E) H v (interpret_case X E prog op (tier_gas (e_schedule E) t) v)"
    if "args \<le> length (m_stack v)" "length (m_stack v) - args + ret \<le> 1024"
  proof (cases "m_PC v < n")
    case True
    then have "ready n I args ret v" using v that by (simp add: ready_def vm_wf_def)
    then show ?thesis
      using interpret_case_ok [OF m _ _ prog E X H] decode_PUSH by (simp add: op_def)
  next
    case False
    then have "m_PC v = n + (m_PC v - n)" "m_PC v - n < 33" using v by (auto simp: vm_wf_def)
    then have "op = I_STOP" using prog decode_0 unfolding op_def prog_ok_def by metis
    then show ?thesis
      using v by (simp add: interpret_case_def case_STOP_ok vm_wf_def del: post_simps)
  qed
  show ?thesis
    unfolding fetch adjustStack_def
    by (intro post_intros run) (use v in \<open>auto simp: err_ok_def vm_wf_def not_less\<close>)
qed

subsection \<open>The jump table\<close>

text \<open>Positions where an instruction starts, reading from \<open>pc\<close> on and skipping push data.\<close>

definition push_width :: "byte \<Rightarrow> nat" where
  "push_width b = (case decode b of I_PUSH k \<Rightarrow> k | _ \<Rightarrow> 0)"

function instr_starts :: "nat \<Rightarrow> bytes \<Rightarrow> nat \<Rightarrow> nat list" where
  "instr_starts n code pc = (if pc \<ge> n then [] else pc # instr_starts n code (pc + 1 + push_width (code ! pc)))"
  by auto

termination instr_starts
  by (relation "measure (\<lambda>(n, _, pc). n - pc)") auto

declare instr_starts.simps [simp del]

lemma push_width_unat:
  "push_width b = (if 0x60 \<le> unat b \<and> unat b \<le> 0x7f then unat b - 0x60 + 1 else 0)"
  by (auto simp: push_width_def decode_def decode_arith_def decode_env_def decode_flow_def decode_system_def Let_def)

lemma instr_starts_sorted: "sorted_wrt (<) (instr_starts n code pc) \<and> (\<forall>d \<in> set (instr_starts n code pc). pc \<le> d \<and> d < n)"
proof (induction n code pc rule: instr_starts.induct)
  case (1 n code pc)
  then show ?case
    by (cases "n \<le> pc") (subst (1 2) instr_starts.simps; fastforce)+
qed

abbreviation synthetic :: "byte \<Rightarrow> bool" where
  "synthetic b \<equiv> unat b \<in> {0xac, 0xad, 0xae}"

lemma jump_scan_step:
  "jump_scan n code dests pc =
     (if pc \<ge> n then (code, dests)
      else jump_scan n (if synthetic (code ! pc) then code[pc := 0xfe] else code)
        (if unat (code ! pc) = 0x5b then dests @ [pc] else dests) (pc + 1 + push_width (code ! pc)))"
  by (subst jump_scan.simps) (auto simp: Let_def push_width_unat)

lemma jump_scan_dests:
  "\<forall>i \<ge> pc. code' ! i = code ! i \<Longrightarrow>
     snd (jump_scan n code' dests pc) = dests @ filter (\<lambda>d. unat (code ! d) = 0x5b) (instr_starts n code pc)"
proof (induction n code pc arbitrary: code' dests rule: instr_starts.induct)
  case (1 n code pc)
  show ?case
  proof (cases "n \<le> pc")
    case True
    then show ?thesis by (simp add: jump_scan_step instr_starts.simps)
  next
    case False
    then show ?thesis
      using 1 by (subst jump_scan_step, subst instr_starts.simps) auto
  qed
qed

lemma jump_scan_code:
  "length (fst (jump_scan n code dests pc)) = length code \<and>
   (\<forall>i. fst (jump_scan n code dests pc) ! i = code ! i \<or>
     pc \<le> i \<and> i < n \<and> synthetic (code ! i) \<and> fst (jump_scan n code dests pc) ! i = 0xfe)"
proof (induction "n - pc" arbitrary: code dests pc rule: less_induct)
  case less
  show ?case
  proof (cases "n \<le> pc")
    case True
    then show ?thesis by (simp add: jump_scan_step)
  next
    case False
    define code' where "code' = (if synthetic (code ! pc) then code[pc := 0xfe] else code)"
    have code': "length code' = length code" "\<And>i. code' ! i = code ! i \<or> i = pc \<and> synthetic (code ! i) \<and> code' ! i = 0xfe"
      by (cases "pc < length code"; auto simp: code'_def nth_list_update list_update_beyond simp del: insert_iff)+
    have "n - (pc + 1 + push_width (code ! pc)) < n - pc" using False by simp
    note IH = less [OF this, of code']
    define dests' where "dests' = (if unat (code ! pc) = 0x5b then dests @ [pc] else dests)"
    have eq: "jump_scan n code dests pc = jump_scan n code' dests' (pc + 1 + push_width (code ! pc))"
      unfolding code'_def dests'_def using False by (subst jump_scan_step) (simp only: if_False)
    show ?thesis
    proof (intro conjI allI, goal_cases)
      case 1
      then show ?case using IH code'(1) by (simp add: eq)
    next
      case (2 i)
      have "fst (jump_scan n code dests pc) ! i = code' ! i \<or>
          pc < i \<and> i < n \<and> synthetic (code' ! i) \<and> fst (jump_scan n code dests pc) ! i = 0xfe"
        using IH [of dests'] unfolding eq by fastforce
      then show ?case using code'(2) [of i] False by auto
    qed
  qed
qed

lemma instr_starts_cong: "\<forall>i < n. c ! i = c' ! i \<Longrightarrow> instr_starts n c pc = instr_starts n c' pc"
proof (induction n c pc rule: instr_starts.induct)
  case (1 n c pc)
  then show ?case by (subst (1 2) instr_starts.simps) simp
qed

lemma copyCode_nth [simp]: "i < length code \<Longrightarrow> copyCode k code ! i = code ! i" "length (copyCode k code) = length code + k"
  "i < k \<Longrightarrow> copyCode k code ! (length code + i) = 0"
  by (simp_all add: copyCode_def nth_append)

lemma optimize_dests:
  "snd (optimize code) = filter (\<lambda>d. unat (code ! d) = 0x5b) (instr_starts (length code) code 0)"
proof -
  have "instr_starts (length code) (copyCode 33 code) 0 = instr_starts (length code) code 0"
    by (rule instr_starts_cong) simp
  then show ?thesis
    using instr_starts_sorted [of "length code" code 0]
    by (auto simp: optimize_def jump_scan_dests [where code = "copyCode 33 code"] intro!: filter_cong)
qed

lemma optimize_code:
  "length (fst (optimize code)) = length code + 33"
  "fst (optimize code) ! i = copyCode 33 code ! i \<or>
     i < length code \<and> synthetic (code ! i) \<and> fst (optimize code) ! i = 0xfe"
  using jump_scan_code [of "length code" "copyCode 33 code" "[]" 0] by (auto simp: optimize_def)

lemma optimize_prog_ok: "prog_ok (length code) (optimize code)"
proof -
  have "fst (optimize code) ! (length code + i) = 0" if "i < 33" for i
    using optimize_code(2) [of code "length code + i"] that by auto
  moreover have "d < length code \<and> fst (optimize code) ! d = 0x5b" if "d \<in> set (snd (optimize code))" for d
  proof -
    have d: "d < length code" "unat (code ! d) = 0x5b"
      using that instr_starts_sorted [of "length code" code 0] by (auto simp: optimize_dests)
    then have "code ! d = 0x5b" by (metis of_nat_numeral of_nat_unat ucast_id)
    then show ?thesis using d optimize_code(2) [of code d] by auto
  qed
  ultimately show ?thesis by (auto simp: prog_ok_def optimize_code(1))
qed

subsection \<open>Runs\<close>

text \<open>The states between instructions of a run of \<open>exec\<close>.\<close>

inductive vm_reach :: "'e ext_ops \<Rightarrow> vm_env \<Rightarrow> nat \<Rightarrow> 'e \<Rightarrow> 'e vm \<Rightarrow> bool" for X E gas e where
  start: "vm_reach X E gas e (vm_init gas e)"
| step: "vm_reach X E gas e v \<Longrightarrow> vm_step X E (optimize (e_code E)) v = Inr (Next v') \<Longrightarrow> vm_reach X E gas e v'"

lemma vm_init_wf: "I e \<Longrightarrow> vm_wf n I (vm_init gas e)"
  by (simp add: vm_wf_def vm_init_def)

abbreviation run_ok :: "('e \<Rightarrow> bool) \<Rightarrow> 'e ext_ops \<Rightarrow> vm_env \<Rightarrow> bool" where
  "run_ok I X E \<equiv> env_fits E \<and> ext_ok I X"

abbreviation run_metered :: "('e \<Rightarrow> bool) \<Rightarrow> 'e ext_ops \<Rightarrow> vm_env \<Rightarrow> bool" where
  "run_metered I X E \<equiv> run_ok I X E \<and> ext_metered I X E \<and> priced (e_schedule E)"

lemma step_result:
  assumes "vm_wf (length (e_code E)) I v" "run_ok I X E" "vm_step X E (optimize (e_code E)) v = Inr r"
  shows "step_ok (length (e_code E)) I (e_schedule E) (run_metered I X E) v r"
  using post_Inr [OF vm_step_ok [OF assms(1) optimize_prog_ok, of E X "run_metered I X E"] assms(3)] assms(2) by blast

lemma step_error:
  assumes "vm_wf (length (e_code E)) I v" "run_ok I X E" "vm_step X E (optimize (e_code E)) v = Inl x"
  shows "err_ok I (run_metered I X E) v x"
  using post_Inl [OF vm_step_ok [OF assms(1) optimize_prog_ok, of E X "run_metered I X E"] assms(3)] assms(2) by blast

lemma step_wf:
  assumes "vm_wf (length (e_code E)) I v" "run_ok I X E" "vm_step X E (optimize (e_code E)) v = Inr (Next v')"
  shows "vm_wf (length (e_code E)) I v'"
  using step_result [OF assms] by (simp add: step_ok_def)

lemma step_pays:
  assumes "vm_wf (length (e_code E)) I v" "run_metered I X E" "vm_step X E (optimize (e_code E)) v = Inr (Next v')"
  shows "pot (e_schedule E) v' < pot (e_schedule E) v"
  using step_result [OF assms(1) _ assms(3)] assms(2) by (simp add: step_ok_def)

lemma vm_reach_wf:
  assumes "vm_reach X E gas e v" "run_ok I X E" "I e"
  shows "vm_wf (length (e_code E)) I v"
  using assms by induction (auto intro: vm_init_wf step_wf)

lemma vm_reach_pot:
  assumes "vm_reach X E gas e v" "run_metered I X E" "I e"
  shows "pot (e_schedule E) v \<le> gas mod 2 ^ 64"
  using assms(1)
proof induction
  case start
  show ?case by (simp add: pot_def vm_init_def)
next
  case (step v v')
  then show ?case using step_pays [OF vm_reach_wf [OF step(1)]] assms(2,3) by (meson le_trans less_imp_le)
qed

text \<open>A run that ends, ends in a step of a reachable state.\<close>

definition run_end :: "('e, 'e vm_result) vmr \<Rightarrow> ('e, 'e vm \<times> bytes) vmr option" where
  "run_end r = (case r of Inl err \<Rightarrow> Some (Inl err) | Inr (Halt v out) \<Rightarrow> Some (Inr (v, out)) | Inr (Next v) \<Rightarrow> None)"

lemma interpretCases_end:
  assumes "interpretCases X E prog v = Some r" "prog = optimize (e_code E)" "vm_reach X E gas e v"
  shows "\<exists>v'. vm_reach X E gas e v' \<and> run_end (vm_step X E prog v') = Some r"
  using assms
proof (induction X E prog v r rule: interpretCases.raw_induct [rotated, consumes 1, case_names loop])
  case (loop rec X E prog v r)
  show ?case
  proof (cases "\<exists>w. vm_step X E prog v = Inr (Next w)")
    case True
    then obtain w where w: "vm_step X E prog v = Inr (Next w)" ..
    then have "rec X E prog w = Some r" using loop(2) by simp
    moreover have "vm_reach X E gas e w" using loop(3,4) w by (auto intro: vm_reach.step)
    ultimately show ?thesis using loop(1,3) by blast
  next
    case False
    then have "run_end (vm_step X E prog v) = Some r"
      using loop(2) by (auto simp: run_end_def split: sum.splits vm_result.splits)
    then show ?thesis using loop by blast
  qed
qed

lemma interpretCases_returns:
  assumes "run_metered I X E" "vm_wf (length (e_code E)) I v"
  shows "\<exists>r. interpretCases X E (optimize (e_code E)) v = Some r"
  using assms(2)
proof (induction "pot (e_schedule E) v" arbitrary: v rule: less_induct)
  case less
  show ?case
  proof (cases "vm_step X E (optimize (e_code E)) v")
    case (Inr r)
    then show ?thesis
      using less step_pays [OF less.prems assms(1)] step_wf [OF less.prems, of X] assms(1)
      by (subst interpretCases.simps) (cases r; simp)
  qed (subst interpretCases.simps, simp)
qed

text \<open>What a run of \<open>exec\<close> gives, when it ends.\<close>

definition exec_ok :: "('e \<Rightarrow> bool) \<Rightarrow> bool \<Rightarrow> nat \<Rightarrow> ('e, 'e vm \<times> bytes) vmr \<Rightarrow> bool" where
  "exec_ok I H gas r =
     (case r of
        Inl (err, v) \<Rightarrow> err \<noteq> OutOfBounds \<and> I (m_ext v) \<and> (\<forall>out. err = RevertInstruction out \<longrightarrow> length out < 2 ^ 64) \<and>
          (H \<longrightarrow> err \<noteq> NoReturn \<and> m_io_gas v \<le> gas)
      | Inr (v, out) \<Rightarrow> I (m_ext v) \<and> length out < 2 ^ 64 \<and> (H \<longrightarrow> m_io_gas v \<le> gas))"

lemma exec_result:
  assumes "run_ok I X E" "I e" "exec X E gas e = Some r"
  shows "exec_ok I (run_metered I X E) (gas mod 2 ^ 64) r"
proof -
  obtain v where v: "vm_reach X E gas e v" "run_end (vm_step X E (optimize (e_code E)) v) = Some r"
    using interpretCases_end [OF assms(3) [unfolded exec_def] refl vm_reach.start] by blast
  note wf = vm_reach_wf [OF v(1) assms(1,2)]
  have pot: "run_metered I X E \<longrightarrow> pot (e_schedule E) v \<le> gas mod 2 ^ 64"
    using vm_reach_pot [OF v(1), of I] assms(2) by blast
  show ?thesis
  proof (cases "vm_step X E (optimize (e_code E)) v")
    case (Inl x)
    then have "r = Inl x" using v(2) by (simp add: run_end_def)
    then show ?thesis
      using step_error [OF wf assms(1) Inl] pot by (auto simp: exec_ok_def err_ok_def pot_def split: prod.splits)
  next
    case (Inr y)
    then obtain v' out where y: "y = Halt v' out" "r = Inr (v', out)"
      using v(2) by (cases y) (simp_all add: run_end_def)
    then show ?thesis
      using step_result [OF wf assms(1) Inr] pot by (auto simp: exec_ok_def step_ok_def pot_def)
  qed
qed

lemma exec_returns:
  assumes "run_metered I X E" "I e"
  shows "\<exists>r. exec X E gas e = Some r"
  using interpretCases_returns [OF assms(1), of "vm_init gas e"] vm_init_wf [of I e] assms(2) by (simp add: exec_def)

end
