(* ===== verification/EVM_Properties.thy ===== *)
theory EVM_Properties
  imports EVM_Run
begin

section \<open>Properties of the bytecode interpreter\<close>

text \<open>
  The interpreter stays in bounds, ends, pays for its memory, jumps only to marked positions, computes
  the arithmetic it should and is read-only in static calls; and two ways in which it does not do what it
  means to: under the schedule of the QPOS engine a call can create gas, and \<open>CREATE2\<close> ignores a static call.
\<close>

subsection \<open>A cycle never returns\<close>

lemma interpretCases_cycle:
  assumes "interpretCases X E prog v = Some r" "v \<in> C" "\<forall>v \<in> C. \<exists>w \<in> C. vm_step X E prog v = Inr (Next w)"
  shows False
  using assms
proof (induction X E prog v r rule: interpretCases.raw_induct [rotated, consumes 1, case_names loop])
  case (loop rec X E prog v r)
  then obtain w where w: "w \<in> C" "vm_step X E prog v = Inr (Next w)" by blast
  then have "rec X E prog w = Some r" using loop(2) by simp
  then show ?case using loop(1,4) w(1) by blast
qed

definition mint_code :: bytes where
  "mint_code =
     [0x5b, 0x60, 0, 0x60, 0, 0x60, 0, 0x60, 0, 0x60, 0, 0x60, 0xff, 0x61, 0xff, 0xff, 0xf1, 0x50, 0x60, 0, 0x56]"

lemma optimize_mint: "optimize mint_code = (mint_code @ replicate 33 0, [0])"
  by (simp add: optimize_def mint_code_def copyCode_def jump_scan.simps Let_def)

lemmas decode_defs = decode_def decode_arith_def decode_env_def decode_flow_def decode_system_def

lemmas vm_eval = vm_step_def fetchInstruction_def decode_defs instruction_metric_def adjustStack_def
  tier_gas_def tier_index_def toInt63_def interpret_case_def case_JUMPDEST_def case_PUSH_def case_POP_def
  case_JUMP_def verifyJumpDest_def updateIOGas_def NEXT_def case_CALL_def caseCall_def caseCallSetup_def
  memNeed_def payMem_def updateMem_def updateGas_def mem_slice_def mem_write_def staticCallDepthLimit_def
  zeroValueTransferChargesNewAccountGas_def

definition mint_state :: "nat \<Rightarrow> u256 list \<Rightarrow> nat \<Rightarrow> 'e \<Rightarrow> 'e vm" where
  "mint_state pc st g e = \<lparr>m_PC = pc, m_stack = st, m_mem = [], m_io_gas = g, m_returnData = [], m_ext = e\<rparr>"

lemma mint_steps:
  assumes "e_schedule E = DefaultSchedule"
  shows
  "vm_step X E (mint_code @ replicate 33 0, [0]) (mint_state 0 [] 65522 e) = Inr (Next (mint_state 1 [] 65521 e))"
  "vm_step X E (mint_code @ replicate 33 0, [0]) (mint_state 1 [] 65521 e) = Inr (Next (mint_state 3 [0] 65518 e))"
  "vm_step X E (mint_code @ replicate 33 0, [0]) (mint_state 3 [0] 65518 e) = Inr (Next (mint_state 5 [0, 0] 65515 e))"
  "vm_step X E (mint_code @ replicate 33 0, [0]) (mint_state 5 [0, 0] 65515 e) = Inr (Next (mint_state 7 [0, 0, 0] 65512 e))"
  "vm_step X E (mint_code @ replicate 33 0, [0]) (mint_state 7 [0, 0, 0] 65512 e) = Inr (Next (mint_state 9 [0, 0, 0, 0] 65509 e))"
  "vm_step X E (mint_code @ replicate 33 0, [0]) (mint_state 9 [0, 0, 0, 0] 65509 e) = Inr (Next (mint_state 11 [0, 0, 0, 0, 0] 65506 e))"
  "vm_step X E (mint_code @ replicate 33 0, [0]) (mint_state 11 [0, 0, 0, 0, 0] 65506 e) = Inr (Next (mint_state 13 [255, 0, 0, 0, 0, 0] 65503 e))"
  "vm_step X E (mint_code @ replicate 33 0, [0]) (mint_state 13 [255, 0, 0, 0, 0, 0] 65503 e) = Inr (Next (mint_state 16 [65535, 255, 0, 0, 0, 0, 0] 65500 e))"
  "vm_step X E (mint_code @ replicate 33 0, [0]) (mint_state 17 [1] 65535 e) = Inr (Next (mint_state 18 [] 65533 e))"
  "vm_step X E (mint_code @ replicate 33 0, [0]) (mint_state 18 [] 65533 e) = Inr (Next (mint_state 20 [0] 65530 e))"
  "vm_step X E (mint_code @ replicate 33 0, [0]) (mint_state 20 [0] 65530 e) = Inr (Next (mint_state 0 [] 65522 e))"
  using assms by (simp_all add: vm_eval mint_state_def mint_code_def schedule_defs fromBigEndian_def)

lemma mint_call:
  assumes "e_schedule E = DefaultSchedule" "e_depth E < 1024" "x_exists X e (asAddress 255)"
    "\<And>p. codeAddress p = asAddress 255 \<Longrightarrow> receiveAddress p = asAddress 255 \<Longrightarrow> valueTransfer p = 0 \<Longrightarrow>
       x_call X p e = Some (e', call_gas p, True, [])"
  shows
  "vm_step X E (mint_code @ replicate 33 0, [0]) (mint_state 16 [65535, 255, 0, 0, 0, 0, 0] 65500 e)
   = Inr (Next (mint_state 17 [1] 65535 e'))"
  using assms by (simp add: vm_eval Let_def mint_state_def mint_code_def schedule_defs)

text \<open>
  Under \<open>DefaultSchedule\<close> a call that asks for more gas than is left leaves the caller with the gas it asked for;
  the program does so in a loop. Its machine states are closed under steps: the run is endless, and the interpreter
  does not return.
\<close>

lemma closed_endless:
  assumes "v \<in> S" and "\<forall>v \<in> S. \<exists>w \<in> S. vm_step X E code v = Inr (Next w)"
  shows "\<exists>f. f 0 = v \<and> (\<forall>n. vm_step X E code (f n) = Inr (Next (f (Suc n))))"
proof -
  obtain h where h: "\<forall>v \<in> S. h v \<in> S \<and> vm_step X E code v = Inr (Next (h v))" using assms(2) by metis
  have "(h ^^ n) v \<in> S" for n using assms(1) h by (induction n) simp_all
  then show ?thesis using h by (intro exI [of _ "\<lambda>n. (h ^^ n) v"]) simp
qed

lemma mint_closed:
  assumes E: "e_schedule E = DefaultSchedule" "e_depth E < 1024" and "J e"
    and J: "\<And>e. J e \<Longrightarrow> x_exists X e (asAddress 255)"
      "\<And>e. J e \<Longrightarrow> \<exists>e'. J e' \<and> (\<forall>p. codeAddress p = asAddress 255 \<longrightarrow> receiveAddress p = asAddress 255 \<longrightarrow>
         valueTransfer p = 0 \<longrightarrow> x_call X p e = Some (e', call_gas p, True, []))"
  shows "\<exists>S. vm_init 65522 e \<in> S \<and> (\<forall>v \<in> S. \<exists>w \<in> S. vm_step X E (mint_code @ replicate 33 0, [0]) v = Inr (Next w))"
proof -
  define c :: "'a \<Rightarrow> 'a vm set" where
    "c e = {mint_state 0 [] 65522 e, mint_state 1 [] 65521 e, mint_state 3 [0] 65518 e, mint_state 5 [0, 0] 65515 e,
      mint_state 7 [0, 0, 0] 65512 e, mint_state 9 [0, 0, 0, 0] 65509 e, mint_state 11 [0, 0, 0, 0, 0] 65506 e,
      mint_state 13 [255, 0, 0, 0, 0, 0] 65503 e, mint_state 16 [65535, 255, 0, 0, 0, 0, 0] 65500 e,
      mint_state 17 [1] 65535 e, mint_state 18 [] 65533 e, mint_state 20 [0] 65530 e}" for e
  let ?C = "\<Union>e \<in> Collect J. c e"
  have "\<exists>w \<in> ?C. vm_step X E (mint_code @ replicate 33 0, [0]) v = Inr (Next w)" if v: "v \<in> c d" "J d" for v d
  proof (cases "v = mint_state 16 [65535, 255, 0, 0, 0, 0, 0] 65500 d")
    case True
    obtain d' where d': "J d'" "\<forall>p. codeAddress p = asAddress 255 \<longrightarrow> receiveAddress p = asAddress 255 \<longrightarrow>
        valueTransfer p = 0 \<longrightarrow> x_call X p d = Some (d', call_gas p, True, [])"
      using J(2) [OF v(2)] by blast
    have "mint_state 17 [1] 65535 d' \<in> c d'" by (simp add: c_def)
    then show ?thesis using True d'(1) mint_call [OF E J(1) [OF v(2)], of d'] d'(2) by auto
  next
    case False
    then have "\<exists>w \<in> c d. vm_step X E (mint_code @ replicate 33 0, [0]) v = Inr (Next w)"
      using v(1) by (auto simp: c_def mint_steps [OF E(1)] simp del: One_nat_def)
    then show ?thesis using v(2) by blast
  qed
  then have cl: "\<forall>v \<in> ?C. \<exists>w \<in> ?C. vm_step X E (mint_code @ replicate 33 0, [0]) v = Inr (Next w)" by blast
  have "vm_init 65522 e = mint_state 0 [] 65522 e" by (simp add: vm_init_def mint_state_def)
  then have "vm_init 65522 e \<in> c e" by (simp add: c_def)
  then have "vm_init 65522 e \<in> ?C" using \<open>J e\<close> by blast
  then show ?thesis using cl by (intro exI [of _ ?C] conjI)
qed

lemma mint_forever:
  assumes E: "e_schedule E = DefaultSchedule" "e_code E = mint_code" "e_depth E < 1024" and "J e"
    and J: "\<And>e. J e \<Longrightarrow> x_exists X e (asAddress 255)"
      "\<And>e. J e \<Longrightarrow> \<exists>e'. J e' \<and> (\<forall>p. codeAddress p = asAddress 255 \<longrightarrow> receiveAddress p = asAddress 255 \<longrightarrow>
         valueTransfer p = 0 \<longrightarrow> x_call X p e = Some (e', call_gas p, True, []))"
  shows "exec X E 65522 e = None \<and>
    (\<exists>f. f 0 = vm_init 65522 e \<and> (\<forall>n. vm_step X E (optimize (e_code E)) (f n) = Inr (Next (f (Suc n)))))"
proof -
  obtain S where S: "vm_init 65522 e \<in> S" "\<forall>v \<in> S. \<exists>w \<in> S. vm_step X E (mint_code @ replicate 33 0, [0]) v = Inr (Next w)"
    using mint_closed [OF E(1,3) \<open>J e\<close> J] by blast
  have "interpretCases X E (mint_code @ replicate 33 0, [0]) (vm_init 65522 e) \<noteq> Some r" for r
    using interpretCases_cycle [OF _ S] by blast
  then have "exec X E 65522 e = None" unfolding exec_def E(2) optimize_mint by (metis option.exhaust)
  then show ?thesis using closed_endless [OF S] by (simp add: E(2) optimize_mint)
qed

subsection \<open>Instructions without side effects outside\<close>

text \<open>In a static call nothing outside changes but by calls that are static themselves.\<close>

definition static_next :: "'e ext_ops \<Rightarrow> 'e \<Rightarrow> 'e \<Rightarrow> bool" where
  "static_next X e e' \<longleftrightarrow>
     e' = e \<or>
     (\<exists>p. call_static p \<and> (valueTransfer p = 0 \<or> senderAddress p = receiveAddress p) \<and> (\<exists>r. x_call X p e = Some (e', r)))"

definition result_ext :: "'e vm_result \<Rightarrow> 'e" where
  "result_ext r = (case r of Next v \<Rightarrow> m_ext v | Halt v out \<Rightarrow> m_ext v)"

abbreviation any_err :: "'x \<Rightarrow> bool" where
  "any_err \<equiv> \<lambda>_. True"

lemma quiet_payMem:
  assumes "\<And>m io. Q (v\<lparr>m_mem := m, m_io_gas := io\<rparr>)"
  shows "post any_err Q (payMem S need copy g v)"
  by (rule post_payMem) (use assms in auto)

lemma quiet_memNeed: "(\<And>need. Q need) \<Longrightarrow> post any_err Q (memNeed v off sz)"
  by (rule post_memNeed) auto

lemma quiet_mem_slice: "(\<And>b. Q b) \<Longrightarrow> post any_err Q (mem_slice v off sz)"
  by (simp add: mem_slice_def)

lemma quiet_mem_write:
  assumes "\<And>m. Q (v\<lparr>m_mem := m\<rparr>)"
  shows "post any_err Q (mem_write v off bs)"
  using assms [of "m_mem v"] assms by (simp add: mem_write_def)

lemma quiet_copyData:
  assumes "\<And>m. Q (v\<lparr>m_mem := m\<rparr>)"
  shows "post any_err Q (copyDataToMemory d sp v)"
  unfolding copyDataToMemory_def Let_def
  by (intro post_ebind quiet_mem_write post_ifI post_InrI) (use assms in auto)

lemma quiet_verifyJumpDest: "(\<And>pc. Q pc) \<Longrightarrow> post any_err Q (verifyJumpDest dests d v)"
  by (rule post_verifyJumpDest) auto

lemmas quiet_intros = post_ebind quiet_payMem quiet_memNeed quiet_mem_slice quiet_mem_write quiet_copyData
  quiet_verifyJumpDest post_toInt63I post_updateIOGasI post_ifI post_failI post_InrI

lemma quiet_setup:
  assumes Q: "\<And>ok p off sz m io. call_static p = (op = I_STATICCALL \<or> e_staticCall E) \<Longrightarrow>
      (valueTransfer p = 0 \<or> op = I_CALL \<and> valueTransfer p = m_stack v ! 2 \<or> senderAddress p = receiveAddress p) \<Longrightarrow>
      Q (ok, p, off, sz, v\<lparr>m_mem := m, m_io_gas := io\<rparr>)"
  shows "post any_err Q (caseCallSetup X E op v)"
proof -
  have Q': "Q (ok, p, off, sz, v\<lparr>m_mem := m, m_io_gas := io, m_io_gas := io'\<rparr>)"
    if "call_static p = (op = I_STATICCALL \<or> e_staticCall E)"
      "valueTransfer p = 0 \<or> op = I_CALL \<and> valueTransfer p = m_stack v ! 2 \<or> senderAddress p = receiveAddress p"
    for ok p off sz m io io'
    using Q [OF that] by simp
  show ?thesis
    unfolding caseCallSetup_def Let_def
    by (intro quiet_intros Q') (cases op; simp)+
qed

lemma static_caseCall:
  assumes E: "e_staticCall E" and op: "op = I_CALL \<longrightarrow> m_stack v ! 2 = 0"
  shows "post any_err (\<lambda>r. static_next X (m_ext v) (result_ext r)) (caseCall X E op v)"
  unfolding caseCall_def Let_def
proof (intro post_ebind quiet_setup, goal_cases)
  case (1 ok p off sz m io)
  have p: "call_static p" "valueTransfer p = 0 \<or> senderAddress p = receiveAddress p" using 1 E op by auto
  show ?case
  proof (cases "x_call X p (m_ext v)")
    case None
    then show ?thesis by (auto simp: NEXT_def result_ext_def static_next_def simp del: power_numeral)
  next
    case (Some r)
    then have "static_next X (m_ext v) (fst r)" using p unfolding static_next_def by (metis prod.collapse)
    then show ?thesis
      unfolding prod.case
      by (intro post_ifI)
        (auto simp: Some NEXT_def result_ext_def static_next_def intro!: quiet_mem_write simp del: power_numeral split: prod.splits)
  qed
qed

text \<open>Every other instruction leaves the outside as it is, or is refused.\<close>

lemma static_interpret_case:
  assumes E: "e_staticCall E" "\<not> haveCreate2 (e_schedule E)"
  shows "post any_err (\<lambda>r. static_next X (m_ext v) (result_ext r)) (interpret_case X E prog op g v)"
proof -
  note defs = interpret_case_def case_RETURN_def case_REVERT_def case_SUICIDE_def case_STOP_def case_MLOAD_def case_MSTORE_def
    case_MSTORE8_def case_SHA3_def case_LOG_def case_EXP_def case_ordinary_def case_shift_def case_priced_def
    case_DATACOPY_def case_RETURNDATASIZE_def case_RETURNDATACOPY_def case_EXTCODECOPY_def case_POP_def case_PUSH_def
    case_JUMP_def case_JUMPI_def case_DUP_def case_SWAP_def case_SSTORE_def case_machine_def case_JUMPDEST_def
    case_CREATE_def case_CREATE2_def NEXT_def
  show ?thesis
  proof (cases op)
    case (I_Call c)
    then show ?thesis
      unfolding interpret_case_def case_CALL_def Let_def Instruction.case
      by (auto intro!: post_ifI post_failI static_caseCall E simp del: post_simps post_fail)
  qed (simp only: Instruction.case defs Let_def E if_True if_False not_False_eq_True post_fail prod.case,
      (intro quiet_intros)?, (simp_all add: result_ext_def static_next_def split_beta)?)+
qed

subsection \<open>A world for the examples\<close>

text \<open>Accounts without code: a call or a creation gives all its gas back.\<close>

definition idle_world :: "nat ext_ops" where
  "idle_world =
     \<lparr>x_store = \<lambda>e k. 0, x_setStore = \<lambda>k x e. e + 1, x_balance = \<lambda>e a. 0, x_exists = \<lambda>e a. True,
      x_codeAt = \<lambda>e a. [], x_codeSizeAt = \<lambda>e a. 0, x_suicide = \<lambda>a e. Some (e + 1), x_log = \<lambda>ts d e. e + 1,
      x_blockHash = \<lambda>e k. replicate 32 0, x_refund = \<lambda>k e. e + 1,
      x_create = \<lambda>w g c op s e. Some (e + 1, g, replicate 20 0, []),
      x_call = \<lambda>p e. Some (e, call_gas p, True, []),
      x_sha3 = \<lambda>b. replicate 32 0\<rparr>"

lemma idle_world_ok: "ext_ok (\<lambda>_. True) idle_world" "ext_metered (\<lambda>_. True) idle_world E"
  by (auto simp: ext_ok_def ext_metered_def idle_world_def)

definition sample_env :: "EVMSchedule \<Rightarrow> bool \<Rightarrow> bytes \<Rightarrow> vm_env" where
  "sample_env S static code =
     \<lparr>e_schedule = S, e_myAddress = replicate 20 0, e_caller = replicate 20 0, e_origin = replicate 20 0, e_value = 0,
      e_gasPrice = 0, e_data = [], e_code = code, e_depth = 0, e_staticCall = static, e_author = replicate 20 0,
      e_timestamp = 0, e_number = 0, e_difficulty = 0, e_gasLimit = 0\<rparr>"

lemma sample_env_simps [simp]:
  "e_schedule (sample_env S st code) = S" "e_code (sample_env S st code) = code" "e_depth (sample_env S st code) = 0"
  "e_staticCall (sample_env S st code) = st" "length code < 2 ^ 64 \<Longrightarrow> env_fits (sample_env S st code)"
  by (simp_all add: sample_env_def env_fits_def)

subsection \<open>The properties\<close>

text \<open>
  C18: in every state of a run between two instructions the program counter is inside the extended code, the
  stack holds at most 1024 words, the memory is a whole number of words, and the next instruction does not
  access code or memory out of bounds.
\<close>

theorem evm_in_bounds:
  assumes "vm_reach X E gas e v" and "env_fits E" and "ext_ok I X" and "I e"
  shows "m_PC v < length (fst (optimize (e_code E))) \<and> length (m_stack v) \<le> 1024 \<and> 32 dvd length (m_mem v) \<and>
    (\<forall>v'. vm_step X E (optimize (e_code E)) v \<noteq> Inl (OutOfBounds, v'))"
proof -
  have wf: "vm_wf (length (e_code E)) I v" using vm_reach_wf [OF assms(1)] assms(2-4) by blast
  moreover have "vm_step X E (optimize (e_code E)) v \<noteq> Inl (OutOfBounds, v')" for v'
    using step_error [OF wf, of X "(OutOfBounds, v')"] assms(2,3) by (auto simp: err_ok_def)
  ultimately show ?thesis by (simp add: vm_wf_def optimize_code)
qed

theorem evm_in_bounds_witness:
  "length (m_stack (vm_init 9 (0 :: nat))) \<le> 1024 \<and>
   (\<forall>v'. vm_step idle_world (sample_env ByzantiumSchedule False [0x51]) (optimize [0x51]) (vm_init 9 0) \<noteq> Inl (OutOfBounds, v'))"
  using evm_in_bounds [OF vm_reach.start [of idle_world "sample_env ByzantiumSchedule False [0x51]" 9 0] _ idle_world_ok(1)]
  by simp

text \<open>
  C17: under the schedules from EIP150 on, and when sub-calls give back at most the gas they were given, every
  program ends, and with no more gas than it had.
\<close>

theorem evm_terminates:
  assumes "e_schedule E \<in> {EIP150Schedule, EIP158Schedule, ByzantiumSchedule, ConstantinopleSchedule}"
    and "env_fits E" and "ext_ok I X" and "ext_metered I X E" and "I e"
  shows "\<exists>r. exec X E gas e = Some r \<and>
    (case r of Inl (err, v) \<Rightarrow> err \<noteq> NoReturn \<and> m_io_gas v \<le> gas mod 2 ^ 64 | Inr (v, out) \<Rightarrow> m_io_gas v \<le> gas mod 2 ^ 64)"
proof -
  have run: "run_metered I X E" using assms priced_schedules by blast
  obtain r where r: "exec X E gas e = Some r" using exec_returns [OF run] assms(5) by blast
  have "exec_ok I (run_metered I X E) (gas mod 2 ^ 64) r"
    using exec_result [OF _ _ r, of I] assms(2,3,5) by blast
  with run r show ?thesis by (auto simp: exec_ok_def split: sum.splits)
qed

theorem evm_terminates_witness:
  "\<exists>r. exec idle_world (sample_env ByzantiumSchedule False mint_code) 65522 0 = Some r"
  using evm_terminates [of "sample_env ByzantiumSchedule False mint_code" "\<lambda>_. True" idle_world 0 65522] idle_world_ok
  by (auto simp: mint_code_def)

text \<open>
  C19: memory is paid for: in every state of such a run the gas left and the price of the memory in use are
  together at most the gas at the start.
\<close>

theorem evm_memory_paid:
  assumes "e_schedule E \<in> {EIP150Schedule, EIP158Schedule, ByzantiumSchedule, ConstantinopleSchedule}"
    and "env_fits E" and "ext_ok I X" and "ext_metered I X E" and "I e" and "vm_reach X E gas e v"
  shows "m_io_gas v + 3 * (length (m_mem v) div 32) + (length (m_mem v) div 32) ^ 2 div 512 \<le> gas mod 2 ^ 64"
proof -
  have "memoryGas (e_schedule E) = 3 \<and> quadCoeffDiv (e_schedule E) = 512"
    using assms(1) by (elim insertE emptyE) (simp_all add: schedule_defs)
  moreover have "pot (e_schedule E) v \<le> gas mod 2 ^ 64"
    using vm_reach_pot [OF assms(6), of I] assms(2-5) priced_schedules [OF assms(1)] by blast
  ultimately show ?thesis by (simp add: pot_def mem_cost_def power2_eq_square)
qed

theorem evm_memory_paid_witness:
  "m_io_gas (vm_init 9 (0 :: nat)) + 3 * (length (m_mem (vm_init 9 (0 :: nat))) div 32)
     + (length (m_mem (vm_init 9 (0 :: nat))) div 32) ^ 2 div 512 \<le> 9 mod 2 ^ 64"
  using evm_memory_paid [OF _ _ idle_world_ok(1) idle_world_ok(2) _ vm_reach.start, of "sample_env ByzantiumSchedule False []" 9 0]
  by simp

text \<open>
  C21: \<open>JUMP\<close> succeeds exactly when its price is there and the target is a \<open>JUMPDEST\<close> that starts an
  instruction, that is, does not lie in push data; the table \<open>optimize\<close> builds is sorted, as the binary search
  needs it.
\<close>

theorem evm_jumps:
  "sorted_wrt (<) (snd (optimize code)) \<and>
   case_JUMP (snd (optimize code)) g v =
     (if m_io_gas v < g then Inl (OutOfGas, v)
      else if unat (m_stack v ! 0) \<le> 0x7FFFFFFFFFFFFFFF \<and>
         unat (m_stack v ! 0) \<in> {d \<in> set (instr_starts (length code) code 0). unat (code ! d) = 0x5b}
      then Inr (Next (v\<lparr>m_PC := unat (m_stack v ! 0), m_stack := drop 1 (m_stack v), m_io_gas := m_io_gas v - g\<rparr>))
      else Inl (BadJumpDestination, v\<lparr>m_io_gas := m_io_gas v - g\<rparr>))"
proof
  show "sorted_wrt (<) (snd (optimize code))"
    using instr_starts_sorted [of "length code" code 0] by (simp add: optimize_dests sorted_wrt_filter)
qed (auto simp: case_JUMP_def updateIOGas_def verifyJumpDest_def fail_def optimize_dests Let_def cong: conj_cong)

text \<open>
  C22: the arithmetic instructions compute what they are named for: \<open>EXP\<close> by squaring is the power modulo
  \<open>2 ^ 256\<close>, \<open>SDIV\<close> and \<open>SMOD\<close> divide the two's complement readings towards zero, \<open>SIGNEXTEND\<close> extends the low
  bytes, \<open>SAR\<close> divides by a power of two rounding down and \<open>BYTE\<close> reads a byte of the big-endian form.
\<close>

theorem evm_arith:
  "exp256 a b = a ^ unat b \<and>
   pure_eval I_SDIV [a, b] = (if b = 0 then 0 else word_of_int (sint a sdiv sint b)) \<and>
   pure_eval I_SMOD [a, b] = (if b = 0 then 0 else word_of_int (sint a smod sint b)) \<and>
   pure_eval I_SIGNEXTEND [a, b] =
     (if a < 31 then word_of_int (signed_take_bit (8 * unat a + 7) (uint b)) else b) \<and>
   shift_eval I_SAR [a, b] = word_of_int (sint b div 2 ^ unat a) \<and>
   pure_eval I_BYTE [a, b] = (if a < 32 then of_nat (unat b div 256 ^ (31 - unat a) mod 256) else 0)"
proof (intro conjI)
  show "pure_eval I_SIGNEXTEND [a, b] =
      (if a < 31 then word_of_int (signed_take_bit (8 * unat a + 7) (uint b)) else b)"
    using signextend_spec [of a b] by (simp add: pure_eval_def eval_SIGNEXTEND_def)
  show "pure_eval I_BYTE [a, b] = (if a < 32 then of_nat (unat b div 256 ^ (31 - unat a) mod 256) else 0)"
    using byte_spec [of a b] by (simp add: pure_eval_def)
qed (simp_all add: exp256_power sar_spec pure_eval_def divWorkaround_def modWorkaround_def u2s_sint s2u_word)

text \<open>
  C20: in a static call, under a schedule without \<open>CREATE2\<close>, an instruction leaves the world outside as it is,
  but for calls that are static in turn and move no value to another account.
\<close>

theorem evm_static_call:
  assumes "e_staticCall E" and "\<not> haveCreate2 (e_schedule E)" and "vm_step X E prog v = Inr r"
  shows "static_next X (m_ext v) (result_ext r)"
proof -
  obtain op g where "interpret_case X E prog op g v = Inr r"
    using assms(3) by (auto simp: vm_step_def ebind_Inr_iff)
  then show ?thesis
    using post_Inr [OF static_interpret_case [OF assms(1,2)]] by blast
qed

theorem evm_static_call_witness:
  "static_next idle_world 7 (result_ext (Next (mint_state 17 [1] 65535 7))) \<and>
   vm_step idle_world (sample_env DefaultSchedule True mint_code) (mint_code @ replicate 33 0, [0])
     (mint_state 16 [65535, 255, 0, 0, 0, 0, 0] 65500 7) = Inr (Next (mint_state 17 [1] 65535 7))"
proof -
  have "vm_step idle_world (sample_env DefaultSchedule True mint_code) (mint_code @ replicate 33 0, [0])
     (mint_state 16 [65535, 255, 0, 0, 0, 0, 0] 65500 7) = Inr (Next (mint_state 17 [1] 65535 7))"
    by (rule mint_call) (simp_all add: idle_world_def)
  with evm_static_call [OF _ _ this] show ?thesis by (simp add: mint_state_def schedule_defs)
qed

text \<open>
  \<open>CREATE2\<close> has no such guard: in a static call with enough gas it creates an account and so changes the
  world outside.
\<close>

lemma evm_static_create2:
  assumes "haveCreate2 (e_schedule E)" and "createGas (e_schedule E) = 32000" and "e_depth E < 1024"
    and "m_stack v = 0 # salt # 0 # 0 # st" and "32000 \<le> m_io_gas v" and "m_mem v = []"
    and "\<And>g. x_create X 0 g [] I_CREATE2 salt (m_ext v) = Some (e', g, a, out)"
  shows "\<exists>v'. case_CREATE2 X E v = Inr (Next v') \<and> m_ext v' = e'"
  using assms
  by (simp add: case_CREATE2_def caseCreate_def toInt63_def memNeed_def payMem_def updateMem_def updateGas_def
      updateIOGas_def mem_slice_def NEXT_def Let_def)

lemma evm_static_create2_witness:
  "\<exists>v'. case_CREATE2 idle_world (sample_env ConstantinopleSchedule True []) ((vm_init 40000 3)\<lparr>m_stack := [0, 5, 0, 0]\<rparr>)
      = Inr (Next v') \<and> m_ext v' \<noteq> 3"
  using evm_static_create2 [of "sample_env ConstantinopleSchedule True []" "(vm_init 40000 3)\<lparr>m_stack := [0, 5, 0, 0]\<rparr>" 5 "[]" idle_world 4
      "replicate 20 0" "[]"]
  by (auto simp: schedule_defs vm_init_def idle_world_def)

end
