(* ===== verification/Assoc_Lists.thy ===== *)
theory Assoc_Lists
  imports Prelude
begin

section \<open>Associative containers\<close>

text \<open>
  \<open>std::map\<close> as a list of pairs in the order of its keys (\<open>om_ok\<close>), \<open>std::unordered_map\<close> as a list of pairs in some order.
  The locale \<open>assoc_list\<close> is what the clients of both rely on; its interpretations discharge it for the two.
\<close>

subsection \<open>Maps with ordered keys\<close>

fun om_set :: "'k :: linorder \<Rightarrow> 'v \<Rightarrow> ('k \<times> 'v) list \<Rightarrow> ('k \<times> 'v) list" where
  "om_set k v [] = [(k, v)]"
| "om_set k v ((l, w) # m) = (if k < l then (k, v) # (l, w) # m else if k = l then (k, v) # m else (l, w) # om_set k v m)"

definition om_insert :: "'k :: linorder \<Rightarrow> 'v \<Rightarrow> ('k \<times> 'v) list \<Rightarrow> ('k \<times> 'v) list" where
  "om_insert k v m = (if map_of m k = None then om_set k v m else m)"

definition om_erase :: "'k \<Rightarrow> ('k \<times> 'v) list \<Rightarrow> ('k \<times> 'v) list" where
  "om_erase k m = filter (\<lambda>p. fst p \<noteq> k) m"

text \<open>A hash map: its entries in some order.\<close>

fun hm_set :: "'k \<Rightarrow> 'v \<Rightarrow> ('k \<times> 'v) list \<Rightarrow> ('k \<times> 'v) list" where
  "hm_set k v [] = [(k, v)]"
| "hm_set k v ((l, w) # m) = (if k = l then (k, v) # m else (l, w) # hm_set k v m)"

subsection \<open>Ordered maps\<close>

abbreviation om_ok :: "('k :: linorder \<times> 'v) list \<Rightarrow> bool" where
  "om_ok m \<equiv> sorted_wrt (<) (map fst m)"

lemma set_om_set: "fst ` set (om_set k v m) = insert k (fst ` set m)"
  by (induction k v m rule: om_set.induct) auto

lemma om_ok_set [simp]: "om_ok m \<Longrightarrow> om_ok (om_set k v m)"
proof (induction k v m rule: om_set.induct)
  case (2 k v l w m)
  then show ?case using set_om_set [of k v m] by (auto simp: image_iff)
qed simp

lemma om_ok_distinct: "om_ok m \<Longrightarrow> distinct (map fst m)"
  by (induction m) auto

lemma map_of_om_set [simp]: "om_ok m \<Longrightarrow> map_of (om_set k v m) = (map_of m)(k \<mapsto> v)"
proof (induction k v m rule: om_set.induct)
  case (2 k v l w m)
  have "map_of m k = None" if "k < l" using that 2(2) by (force simp: map_of_eq_None_iff)
  then show ?case using 2 by (auto simp: fun_eq_iff)
qed simp

lemma om_set_neq_Nil [simp]: "om_set k v m \<noteq> []"
  by (cases m) (auto split: prod.splits if_splits)

lemma om_ok_insert [simp]: "om_ok m \<Longrightarrow> om_ok (om_insert k v m)"
  by (simp add: om_insert_def)

lemma map_of_om_insert: "om_ok m \<Longrightarrow> map_of (om_insert k v m) = (if map_of m k = None then (map_of m)(k \<mapsto> v) else map_of m)"
  by (simp add: om_insert_def)

lemma om_ok_filter [simp]: "om_ok m \<Longrightarrow> om_ok (filter P m)"
  by (induction m) auto

lemma map_of_om_erase [simp]: "map_of (om_erase k m) = (map_of m)(k := None)"
  by (induction m) (auto simp: om_erase_def fun_eq_iff)

lemma om_erase_notin: "k \<notin> fst ` set m \<Longrightarrow> om_erase k m = m"
  by (auto simp: om_erase_def filter_id_conv intro: rev_image_eqI)

lemma distinct_om_erase [simp]: "distinct (map fst m) \<Longrightarrow> distinct (map fst (om_erase k m))"
  by (induction m) (auto simp: om_erase_def)

lemma set_om_erase [simp]: "set (om_erase k m) = {p \<in> set m. fst p \<noteq> k}"
  by (auto simp: om_erase_def)

lemma om_ok_erase [simp]: "om_ok m \<Longrightarrow> om_ok (om_erase k m)"
  by (simp add: om_erase_def)

subsection \<open>Hash maps\<close>

lemma set_hm_set: "fst ` set (hm_set k v m) = insert k (fst ` set m)"
  by (induction k v m rule: hm_set.induct) auto

lemma map_of_hm_set [simp]: "map_of (hm_set k v m) = (map_of m)(k \<mapsto> v)"
  by (induction k v m rule: hm_set.induct) (auto simp: fun_eq_iff)

lemma distinct_hm_set [simp]: "distinct (map fst m) \<Longrightarrow> distinct (map fst (hm_set k v m))"
proof (induction k v m rule: hm_set.induct)
  case (2 k v l w m)
  then show ?case using set_hm_set [of k v m] by (auto simp flip: set_map)
qed simp

text \<open>What the clients of both kinds of map rely on: a lookup after a change, and the number of entries.\<close>

locale assoc_list =
  fixes ok :: "('k \<times> 'v) list \<Rightarrow> bool" and put :: "'k \<Rightarrow> 'v \<Rightarrow> ('k \<times> 'v) list \<Rightarrow> ('k \<times> 'v) list"
  assumes ok_distinct: "ok m \<Longrightarrow> distinct (map fst m)"
    and ok_put: "ok m \<Longrightarrow> ok (put k v m)"
    and ok_erase: "ok m \<Longrightarrow> ok (om_erase k m)"
    and lookup_put: "ok m \<Longrightarrow> map_of (put k v m) = (map_of m)(k \<mapsto> v)"
begin

lemma length_dom: "ok m \<Longrightarrow> length m = card (dom (map_of m))"
  using distinct_card [OF ok_distinct] by (simp add: dom_map_of_conv_image_fst)

lemma length_put: "ok m \<Longrightarrow> length (put k v m) = (if map_of m k = None then length m + 1 else length m)"
  by (simp add: length_dom ok_put lookup_put card_insert_if finite_dom_map_of domIff)

lemma length_erase: "ok m \<Longrightarrow> length (om_erase k m) = (if map_of m k = None then length m else length m - 1)"
  by (auto simp: length_dom ok_erase card_Diff_singleton_if finite_dom_map_of domIff)

end

interpretation om: assoc_list om_ok om_set
  by unfold_locales (simp_all only: om_ok_distinct om_ok_set om_ok_erase map_of_om_set)

interpretation hm: assoc_list "\<lambda>m. distinct (map fst m)" hm_set
  by unfold_locales (simp_all only: distinct_hm_set distinct_om_erase map_of_hm_set)

end
