(* ===== verification/World_State.thy ===== *)
theory World_State
  imports EVM Assoc_Lists "HOL-Library.List_Lexorder"
begin

section \<open>Accounts and the state (\<open>libethereum/Account\<close>, \<open>libethereum/State\<close>)\<close>

text \<open>
  The state of all accounts with its caches and its change log. \<open>m_state\<close> is what the state trie holds of an
  address (nonce, balance, storage root, code hash), \<open>m_storages\<close> what the storage trie of a root holds and
  \<open>m_codes\<close> the code stored under a hash; the tries and the database behind them, hashing among it, are
  given by their lookups (\<open>backend\<close>). Reading goes through the caches and fills them, so the readers
  return the state too. The back of the vector \<open>m_changeLog\<close> is the head of the list.
  The random engine that picks the cache entry to evict is a stream of numbers, and one of hashes for the cache of code
  sizes. That cache (\<open>CodeSizeCache\<close>) is one for the process; it is a field of the state here. Hashes are byte strings
  of any length, so what is said of them holds in particular of those of 32 bytes.
\<close>

type_synonym h256 = bytes

record backend =
  b_sha3 :: "bytes \<Rightarrow> h256"
  EmptyTrie :: h256
  b_root :: "(u256 \<Rightarrow> u256) \<Rightarrow> h256" \<comment> \<open>the root of the trie with these values\<close>

definition EmptySHA3 :: "backend \<Rightarrow> h256" where
  "EmptySHA3 B = b_sha3 B []"

subsection \<open>Accounts\<close>

record Account =
  m_isAlive :: bool
  m_isUnchanged :: bool
  m_hasNewCode :: bool
  m_nonce :: u256
  m_balance :: u256
  m_storageRoot :: h256
  m_codeHash :: h256
  m_storageOverlay :: "u256 \<rightharpoonup> u256"
  m_codeCache :: bytes

text \<open>The constructors: a dead account, one with nonce and balance, and one loaded from the trie.\<close>

definition dead_account :: "backend \<Rightarrow> Account" where
  "dead_account B =
     \<lparr>m_isAlive = False, m_isUnchanged = False, m_hasNewCode = False, m_nonce = 0, m_balance = 0,
      m_storageRoot = EmptyTrie B, m_codeHash = EmptySHA3 B, m_storageOverlay = Map.empty, m_codeCache = []\<rparr>"

definition new_account :: "backend \<Rightarrow> u256 \<Rightarrow> u256 \<Rightarrow> Account" where
  "new_account B nonce bal = (dead_account B)\<lparr>m_isAlive := True, m_nonce := nonce, m_balance := bal\<rparr>"

definition loaded_account :: "backend \<Rightarrow> u256 \<times> u256 \<times> h256 \<times> h256 \<Rightarrow> Account" where
  "loaded_account B t =
     (case t of (nonce, bal, root, hash) \<Rightarrow>
        (dead_account B)\<lparr>m_isAlive := True, m_isUnchanged := True, m_nonce := nonce, m_balance := bal,
          m_storageRoot := root, m_codeHash := hash\<rparr>)"

definition changed :: "Account \<Rightarrow> Account" where
  "changed a = a\<lparr>m_isUnchanged := False\<rparr>"

definition acc_kill :: "backend \<Rightarrow> Account \<Rightarrow> Account" where
  "acc_kill B a =
     changed (a\<lparr>m_isAlive := False, m_storageOverlay := Map.empty, m_codeHash := EmptySHA3 B,
       m_storageRoot := EmptyTrie B, m_balance := 0, m_nonce := 0\<rparr>)"

definition isDirty :: "Account \<Rightarrow> bool" where
  "isDirty a = (\<not> m_isUnchanged a)"

definition untouch :: "Account \<Rightarrow> Account" where
  "untouch a = a\<lparr>m_isUnchanged := True\<rparr>"

definition acc_isEmpty :: "backend \<Rightarrow> Account \<Rightarrow> bool" where
  "acc_isEmpty B a = (m_nonce a = 0 \<and> m_balance a = 0 \<and> m_codeHash a = EmptySHA3 B)"

definition acc_addBalance :: "u256 \<Rightarrow> Account \<Rightarrow> Account" where
  "acc_addBalance x a = changed (a\<lparr>m_balance := m_balance a + x\<rparr>)"

definition acc_incNonce :: "Account \<Rightarrow> Account" where
  "acc_incNonce a = changed (a\<lparr>m_nonce := m_nonce a + 1\<rparr>)"

definition acc_setNonce :: "u256 \<Rightarrow> Account \<Rightarrow> Account" where
  "acc_setNonce x a = changed (a\<lparr>m_nonce := x\<rparr>)"

definition acc_setStorage :: "u256 \<Rightarrow> u256 \<Rightarrow> Account \<Rightarrow> Account" where
  "acc_setStorage k x a = changed (a\<lparr>m_storageOverlay := (m_storageOverlay a)(k \<mapsto> x)\<rparr>)"

definition acc_clearStorage :: "backend \<Rightarrow> Account \<Rightarrow> Account" where
  "acc_clearStorage B a = changed (a\<lparr>m_storageOverlay := Map.empty, m_storageRoot := EmptyTrie B\<rparr>)"

definition acc_setStorageRoot :: "h256 \<Rightarrow> Account \<Rightarrow> Account" where
  "acc_setStorageRoot r a = changed (a\<lparr>m_storageOverlay := Map.empty, m_storageRoot := r\<rparr>)"

definition acc_setStorageCache :: "u256 \<Rightarrow> u256 \<Rightarrow> Account \<Rightarrow> Account" where
  "acc_setStorageCache k x a = a\<lparr>m_storageOverlay := (m_storageOverlay a)(k \<mapsto> x)\<rparr>"

text \<open>\<open>setCode\<close> does not call \<open>changed\<close>.\<close>

definition acc_setCode :: "backend \<Rightarrow> bytes \<Rightarrow> Account \<Rightarrow> Account" where
  "acc_setCode B c a = a\<lparr>m_codeCache := c, m_hasNewCode := True, m_codeHash := b_sha3 B c\<rparr>"

definition acc_noteCode :: "bytes \<Rightarrow> Account \<Rightarrow> Account" where
  "acc_noteCode c a = a\<lparr>m_codeCache := c\<rparr>"

subsection \<open>The state\<close>

datatype Change =
    ChBalance address u256 \<comment> \<open>the amount added\<close>
  | ChStorage address u256 u256 \<comment> \<open>key and old value\<close>
  | ChStorageRoot address h256
  | ChNonce address u256
  | ChCreate address
  | ChCode address bytes
  | ChTouch address

datatype state_error = InvalidAccountStartNonceInState | IncorrectAccountStartNonceInState | NotEnoughCash

record State =
  m_state :: "address \<rightharpoonup> u256 \<times> u256 \<times> h256 \<times> h256"
  m_storages :: "h256 \<Rightarrow> u256 \<Rightarrow> u256"
  m_codes :: "h256 \<Rightarrow> bytes"
  m_cache :: "address \<rightharpoonup> Account"
  m_unchangedCacheEntries :: "address list"
  m_nonExistingAccountsCache :: "address set"
  m_touched :: "address set"
  m_accountStartNonce :: u256
  m_changeLog :: "Change list"
  s_draws :: "nat \<Rightarrow> nat" \<comment> \<open>\<open>s_fixedHashEngine\<close>\<close>
  m_codeSizes :: "(h256 \<times> nat) list" \<comment> \<open>\<open>CodeSizeCache::instance ()\<close>, a \<open>std::map\<close>\<close>
  s_randomHashes :: "nat \<Rightarrow> h256" \<comment> \<open>what \<open>h256::random ()\<close> returns\<close>

subsubsection \<open>The cache of code sizes (\<open>CodeSizeCache\<close>)\<close>

definition c_maxSize :: nat where
  "c_maxSize = 50000"

text \<open>\<open>removeRandomElement\<close>: the entry at the lower bound of a random hash, or the first one.\<close>

definition removeRandomElement :: "h256 \<Rightarrow> (h256 \<times> nat) list \<Rightarrow> (h256 \<times> nat) list" where
  "removeRandomElement r m =
     (case m of
        [] \<Rightarrow> []
      | p # _ \<Rightarrow> (case dropWhile (\<lambda>q. fst q < r) m of [] \<Rightarrow> om_erase (fst p) m | q # _ \<Rightarrow> om_erase (fst q) m))"

definition store_size :: "h256 \<Rightarrow> nat \<Rightarrow> State \<Rightarrow> State" where
  "store_size h n s =
     (let full = (length (m_codeSizes s) \<ge> c_maxSize);
          s = (if full then s\<lparr>m_codeSizes := removeRandomElement (s_randomHashes s 0) (m_codeSizes s),
                              s_randomHashes := (\<lambda>i. s_randomHashes s (Suc i))\<rparr> else s) in
      s\<lparr>m_codeSizes := om_set h n (m_codeSizes s)\<rparr>)"

subsubsection \<open>The start nonce and the account cache\<close>

definition requireAccountStartNonce :: "State \<Rightarrow> state_error + u256" where
  "requireAccountStartNonce s =
     (if m_accountStartNonce s = - 1 then Inl InvalidAccountStartNonceInState else Inr (m_accountStartNonce s))"

definition noteAccountStartNonce :: "u256 \<Rightarrow> State \<Rightarrow> state_error + State" where
  "noteAccountStartNonce actual s =
     (if m_accountStartNonce s = - 1 then Inr (s\<lparr>m_accountStartNonce := actual\<rparr>)
      else if m_accountStartNonce s \<noteq> actual then Inl IncorrectAccountStartNonceInState
      else Inr s)"

text \<open>The loop of \<open>clearCacheIfTooLarge\<close>.\<close>

function clearCacheIfTooLarge :: "State \<Rightarrow> State" where
  "clearCacheIfTooLarge s =
     (let es = m_unchangedCacheEntries s in
      if length es > 1000 then
        let randomIndex = s_draws s 0 mod length es; addr = es ! randomIndex;
            cache = (case m_cache s addr of
                Some a \<Rightarrow> if \<not> isDirty a then (m_cache s)(addr := None) else m_cache s
              | None \<Rightarrow> m_cache s)
        in clearCacheIfTooLarge
             (s\<lparr>m_unchangedCacheEntries := butlast (es[randomIndex := last es]), m_cache := cache,
                s_draws := (\<lambda>i. s_draws s (Suc i))\<rparr>)
      else s)"
  by auto

termination clearCacheIfTooLarge
  by (relation "measure (\<lambda>s. length (m_unchangedCacheEntries s))") auto

declare clearCacheIfTooLarge.simps [simp del]

definition account :: "backend \<Rightarrow> address \<Rightarrow> State \<Rightarrow> Account option \<times> State" where
  "account B addr s =
     (case m_cache s addr of
        Some a \<Rightarrow> (Some a, s)
      | None \<Rightarrow>
          if addr \<in> m_nonExistingAccountsCache s then (None, s)
          else
            (case m_state s addr of
               None \<Rightarrow> (None, s\<lparr>m_nonExistingAccountsCache := insert addr (m_nonExistingAccountsCache s)\<rparr>)
             | Some t \<Rightarrow>
                 let s = clearCacheIfTooLarge s; a = loaded_account B t in
                 (Some a, s\<lparr>m_cache := (m_cache s)(addr \<mapsto> a),
                            m_unchangedCacheEntries := m_unchangedCacheEntries s @ [addr]\<rparr>)))"

text \<open>Writing through the pointer \<open>account\<close> returned, and \<open>m_cache[addr]\<close>, which makes a missing entry.\<close>

definition put_account :: "address \<Rightarrow> Account \<Rightarrow> State \<Rightarrow> State" where
  "put_account addr a s = s\<lparr>m_cache := (m_cache s)(addr \<mapsto> a)\<rparr>"

definition cache_at :: "backend \<Rightarrow> address \<Rightarrow> State \<Rightarrow> Account" where
  "cache_at B addr s = (case m_cache s addr of Some a \<Rightarrow> a | None \<Rightarrow> dead_account B)"

definition log_change :: "Change \<Rightarrow> State \<Rightarrow> State" where
  "log_change c s = s\<lparr>m_changeLog := c # m_changeLog s\<rparr>"

subsubsection \<open>Readers\<close>

definition addressInUse :: "backend \<Rightarrow> address \<Rightarrow> State \<Rightarrow> bool \<times> State" where
  "addressInUse B addr s = (let (a, s) = account B addr s in (a \<noteq> None, s))"

definition accountNonemptyAndExisting :: "backend \<Rightarrow> address \<Rightarrow> State \<Rightarrow> bool \<times> State" where
  "accountNonemptyAndExisting B addr s =
     (let (r, s) = account B addr s in (case r of Some a \<Rightarrow> \<not> acc_isEmpty B a | None \<Rightarrow> False, s))"

definition addressHasCode :: "backend \<Rightarrow> address \<Rightarrow> State \<Rightarrow> bool \<times> State" where
  "addressHasCode B addr s =
     (let (r, s) = account B addr s in (case r of Some a \<Rightarrow> m_codeHash a \<noteq> EmptySHA3 B | None \<Rightarrow> False, s))"

definition state_balance :: "backend \<Rightarrow> address \<Rightarrow> State \<Rightarrow> u256 \<times> State" where
  "state_balance B addr s = (let (r, s) = account B addr s in (case r of Some a \<Rightarrow> m_balance a | None \<Rightarrow> 0, s))"

definition getNonce :: "backend \<Rightarrow> address \<Rightarrow> State \<Rightarrow> u256 \<times> State" where
  "getNonce B addr s =
     (let (r, s) = account B addr s in (case r of Some a \<Rightarrow> m_nonce a | None \<Rightarrow> m_accountStartNonce s, s))"

definition state_storage :: "backend \<Rightarrow> address \<Rightarrow> u256 \<Rightarrow> State \<Rightarrow> u256 \<times> State" where
  "state_storage B addr key s =
     (let (r, s) = account B addr s in
      case r of
        None \<Rightarrow> (0, s)
      | Some a \<Rightarrow>
          (case m_storageOverlay a key of
             Some x \<Rightarrow> (x, s)
           | None \<Rightarrow>
               let x = m_storages s (m_storageRoot a) key in
               (x, put_account addr (acc_setStorageCache key x a) s)))"

definition state_code :: "backend \<Rightarrow> address \<Rightarrow> State \<Rightarrow> bytes \<times> State" where
  "state_code B addr s =
     (let (r, s) = account B addr s in
      case r of
        None \<Rightarrow> ([], s)
      | Some a \<Rightarrow>
          if m_codeHash a = EmptySHA3 B then ([], s)
          else if m_codeCache a = [] then
            let c = m_codes s (m_codeHash a) in (c, store_size (m_codeHash a) (length c) (put_account addr (acc_noteCode c a) s))
          else (m_codeCache a, s))"

definition codeHash :: "backend \<Rightarrow> address \<Rightarrow> State \<Rightarrow> h256 \<times> State" where
  "codeHash B addr s = (let (r, s) = account B addr s in (case r of Some a \<Rightarrow> m_codeHash a | None \<Rightarrow> EmptySHA3 B, s))"

text \<open>\<open>storageRoot\<close> reads the trie, past the cache.\<close>

definition state_storageRoot :: "backend \<Rightarrow> address \<Rightarrow> State \<Rightarrow> h256" where
  "state_storageRoot B addr s = (case m_state s addr of Some (nonce, bal, root, hash) \<Rightarrow> root | None \<Rightarrow> EmptyTrie B)"

definition codeSize :: "backend \<Rightarrow> address \<Rightarrow> State \<Rightarrow> nat \<times> State" where
  "codeSize B addr s =
     (let (r, s) = account B addr s in
      case r of
        None \<Rightarrow> (0, s)
      | Some a \<Rightarrow>
          if m_hasNewCode a then (length (m_codeCache a), s)
          else
            (case map_of (m_codeSizes s) (m_codeHash a) of
               Some n \<Rightarrow> (n, s)
             | None \<Rightarrow> let (c, s) = state_code B addr s in (length c, store_size (m_codeHash a) (length c) s)))"

subsubsection \<open>Writers\<close>

text \<open>\<open>createAccount\<close>, for an address that is not in use; the code asserts that, and its callers see to it.\<close>

definition createAccount :: "address \<Rightarrow> Account \<Rightarrow> State \<Rightarrow> State" where
  "createAccount addr a s =
     log_change (ChCreate addr)
       (s\<lparr>m_cache := (m_cache s)(addr \<mapsto> a), m_nonExistingAccountsCache := m_nonExistingAccountsCache s - {addr}\<rparr>)"

definition createContract :: "backend \<Rightarrow> address \<Rightarrow> State \<Rightarrow> state_error + State" where
  "createContract B addr s =
     ebind (requireAccountStartNonce s) (\<lambda>n. Inr (createAccount addr (new_account B n 0) s))"

definition incNonce :: "backend \<Rightarrow> address \<Rightarrow> State \<Rightarrow> state_error + State" where
  "incNonce B addr s =
     (let (r, s) = account B addr s in
      case r of
        Some a \<Rightarrow> Inr (log_change (ChNonce addr (m_nonce a)) (put_account addr (acc_incNonce a) s))
      | None \<Rightarrow> ebind (requireAccountStartNonce s) (\<lambda>n. Inr (createAccount addr (new_account B (n + 1) 0) s)))"

definition setNonce :: "backend \<Rightarrow> address \<Rightarrow> u256 \<Rightarrow> State \<Rightarrow> State" where
  "setNonce B addr newNonce s =
     (let (r, s) = account B addr s in
      case r of
        Some a \<Rightarrow> log_change (ChNonce addr (m_nonce a)) (put_account addr (acc_setNonce newNonce a) s)
      | None \<Rightarrow> createAccount addr (new_account B newNonce 0) s)"

definition addBalance :: "backend \<Rightarrow> address \<Rightarrow> u256 \<Rightarrow> State \<Rightarrow> state_error + State" where
  "addBalance B addr amount s =
     (let (r, s) = account B addr s in
      ebind
        (case r of
           Some a \<Rightarrow>
             Inr (put_account addr (acc_addBalance amount a)
               (if \<not> isDirty a \<and> acc_isEmpty B a then log_change (ChTouch addr) s else s))
         | None \<Rightarrow> ebind (requireAccountStartNonce s) (\<lambda>n. Inr (createAccount addr (new_account B n amount) s)))
        (\<lambda>s. Inr (if amount \<noteq> 0 then log_change (ChBalance addr amount) s else s)))"

definition subBalance :: "backend \<Rightarrow> address \<Rightarrow> u256 \<Rightarrow> State \<Rightarrow> state_error + State" where
  "subBalance B addr val s =
     (if val = 0 then Inr s
      else
        let (r, s) = account B addr s in
        case r of
          None \<Rightarrow> Inl NotEnoughCash
        | Some a \<Rightarrow> if m_balance a < val then Inl NotEnoughCash else addBalance B addr (0 - val) s)"

definition setBalance :: "backend \<Rightarrow> address \<Rightarrow> u256 \<Rightarrow> State \<Rightarrow> state_error + State" where
  "setBalance B addr val s =
     (let (r, s) = account B addr s; original = (case r of Some a \<Rightarrow> m_balance a | None \<Rightarrow> 0) in
      addBalance B addr (val - original) s)"

definition transferBalance :: "backend \<Rightarrow> address \<Rightarrow> address \<Rightarrow> u256 \<Rightarrow> State \<Rightarrow> state_error + State" where
  "transferBalance B src dst val s = ebind (subBalance B src val s) (\<lambda>s. addBalance B dst val s)"

definition state_kill :: "backend \<Rightarrow> address \<Rightarrow> State \<Rightarrow> State" where
  "state_kill B addr s =
     (let (r, s) = account B addr s in
      case r of Some a \<Rightarrow> put_account addr (acc_kill B a) s | None \<Rightarrow> s)"

definition setStorage :: "backend \<Rightarrow> address \<Rightarrow> u256 \<Rightarrow> u256 \<Rightarrow> State \<Rightarrow> State" where
  "setStorage B contract key val s =
     (let (old, s) = state_storage B contract key s; s = log_change (ChStorage contract key old) s in
      put_account contract (acc_setStorage key val (cache_at B contract s)) s)"

definition clearStorage :: "backend \<Rightarrow> address \<Rightarrow> State \<Rightarrow> State" where
  "clearStorage B contract s =
     (let s = put_account contract (cache_at B contract s) s; oldHash = m_storageRoot (cache_at B contract s) in
      if oldHash = EmptyTrie B then s
      else
        let s = log_change (ChStorageRoot contract oldHash) s in
        put_account contract (acc_clearStorage B (cache_at B contract s)) s)"

definition setCode :: "backend \<Rightarrow> address \<Rightarrow> bytes \<Rightarrow> State \<Rightarrow> State" where
  "setCode B addr c s =
     (let (old, s) = state_code B addr s; s = log_change (ChCode addr old) s in
      put_account addr (acc_setCode B c (cache_at B addr s)) s)"

subsubsection \<open>Savepoints\<close>

definition savepoint :: "State \<Rightarrow> nat" where
  "savepoint s = length (m_changeLog s)"

text \<open>One pass of the loop of \<open>rollback\<close>, without popping the entry.\<close>

definition undo :: "backend \<Rightarrow> Change \<Rightarrow> State \<Rightarrow> State" where
  "undo B c s =
     (case c of
        ChStorage a k x \<Rightarrow> put_account a (acc_setStorage k x (cache_at B a s)) s
      | ChStorageRoot a r \<Rightarrow> put_account a (acc_setStorageRoot r (cache_at B a s)) s
      | ChBalance a x \<Rightarrow> put_account a (acc_addBalance (0 - x) (cache_at B a s)) s
      | ChNonce a x \<Rightarrow> put_account a (acc_setNonce x (cache_at B a s)) s
      | ChCreate a \<Rightarrow> s\<lparr>m_cache := (m_cache s)(a := None)\<rparr>
      | ChCode a x \<Rightarrow> put_account a (acc_setCode B x (cache_at B a s)) s
      | ChTouch a \<Rightarrow>
          (put_account a (untouch (cache_at B a s)) s)\<lparr>m_unchangedCacheEntries := m_unchangedCacheEntries s @ [a]\<rparr>)"

text \<open>A savepoint above the log is popping an empty vector in the code; here the loop stops.\<close>

function rollback :: "backend \<Rightarrow> nat \<Rightarrow> State \<Rightarrow> State" where
  "rollback B sp s =
     (if sp = length (m_changeLog s) then s
      else
        case m_changeLog s of
          [] \<Rightarrow> s
        | c # cs \<Rightarrow> rollback B sp ((undo B c s)\<lparr>m_changeLog := cs\<rparr>))"
  by auto

termination rollback
  by (relation "measure (\<lambda>(B, sp, s). length (m_changeLog s))") auto

declare rollback.simps [simp del]

subsubsection \<open>Commit\<close>

definition removeEmptyAccounts :: "backend \<Rightarrow> State \<Rightarrow> State" where
  "removeEmptyAccounts B s =
     s\<lparr>m_cache := (\<lambda>a. map_option (\<lambda>x. if isDirty x \<and> acc_isEmpty B x then acc_kill B x else x) (m_cache s a))\<rparr>"

text \<open>What \<open>commit\<close> writes of an account: the storage trie with the overlay over it.\<close>

definition overlaid :: "State \<Rightarrow> Account \<Rightarrow> u256 \<Rightarrow> u256" where
  "overlaid s x k = (case m_storageOverlay x k of Some v \<Rightarrow> v | None \<Rightarrow> m_storages s (m_storageRoot x) k)"

definition committed_root :: "backend \<Rightarrow> State \<Rightarrow> Account \<Rightarrow> h256" where
  "committed_root B s x = (if m_storageOverlay x = Map.empty then m_storageRoot x else b_root B (overlaid s x))"

text \<open>
  One pass of the loop of \<open>dev::eth::commit\<close>; the database gets the new trie and the new code, and the cache of code
  sizes the size of that.
\<close>

definition commit_account :: "backend \<Rightarrow> address \<times> Account \<Rightarrow> State \<Rightarrow> State" where
  "commit_account B ax s =
     (case ax of (a, x) \<Rightarrow>
        if \<not> isDirty x then s
        else if \<not> m_isAlive x then s\<lparr>m_state := (m_state s)(a := None), m_touched := insert a (m_touched s)\<rparr>
        else
          (if m_hasNewCode x then store_size (m_codeHash x) (length (m_codeCache x)) s else s)
           \<lparr>m_storages := (if m_storageOverlay x = Map.empty then m_storages s
                             else (m_storages s)(committed_root B s x := overlaid s x)),
            m_codes := (if m_hasNewCode x then (m_codes s)(m_codeHash x := m_codeCache x) else m_codes s),
            m_state := (m_state s)(a \<mapsto> (m_nonce x, m_balance x, committed_root B s x, m_codeHash x)),
            m_touched := insert a (m_touched s)\<rparr>)"

text \<open>\<open>commit\<close>; \<open>order\<close> lists the addresses of the cache in the order of the hash map.\<close>

definition commit :: "backend \<Rightarrow> address list \<Rightarrow> bool \<Rightarrow> State \<Rightarrow> State" where
  "commit B order removeEmpty s =
     (let s = (if removeEmpty then removeEmptyAccounts B s else s) in
      (fold (\<lambda>a. commit_account B (a, cache_at B a s)) order s)
        \<lparr>m_changeLog := [], m_cache := Map.empty, m_unchangedCacheEntries := []\<rparr>)"

end
