(* ===== verification/World_View.thy ===== *)
theory World_View
  imports World_State
begin

section \<open>What the state holds\<close>

text \<open>
  The state as a map from addresses to account contents (\<open>view\<close>), whatever the caches hold. In coherent
  states (\<open>state_ok\<close>) the caches are transparent: a reader returns what the map says and changes nothing
  visible (\<open>quiet\<close>).
\<close>

record acct =
  v_alive :: bool
  v_nonce :: u256
  v_balance :: u256
  v_root :: h256
  v_storage :: "u256 \<Rightarrow> u256"
  v_hash :: h256
  v_code :: bytes

definition code_of :: "backend \<Rightarrow> State \<Rightarrow> Account \<Rightarrow> bytes" where
  "code_of B s x =
     (if m_codeHash x = EmptySHA3 B then [] else if m_codeCache x = [] then m_codes s (m_codeHash x) else m_codeCache x)"

definition contents :: "backend \<Rightarrow> State \<Rightarrow> Account \<Rightarrow> acct" where
  "contents B s x =
     \<lparr>v_alive = m_isAlive x, v_nonce = m_nonce x, v_balance = m_balance x, v_root = m_storageRoot x,
      v_storage = overlaid s x, v_hash = m_codeHash x, v_code = code_of B s x\<rparr>"

lemma contents_simps [simp]:
  "v_alive (contents B s x) = m_isAlive x" "v_nonce (contents B s x) = m_nonce x"
  "v_balance (contents B s x) = m_balance x" "v_root (contents B s x) = m_storageRoot x"
  "v_storage (contents B s x) = overlaid s x" "v_hash (contents B s x) = m_codeHash x"
  "v_code (contents B s x) = code_of B s x"
  by (simp_all add: contents_def)

lemma overlaid_update [simp]:
  "overlaid s (x\<lparr>m_isAlive := b\<rparr>) = overlaid s x" "overlaid s (x\<lparr>m_isUnchanged := b\<rparr>) = overlaid s x"
  "overlaid s (x\<lparr>m_hasNewCode := b\<rparr>) = overlaid s x" "overlaid s (x\<lparr>m_nonce := n\<rparr>) = overlaid s x"
  "overlaid s (x\<lparr>m_balance := n\<rparr>) = overlaid s x" "overlaid s (x\<lparr>m_codeHash := h\<rparr>) = overlaid s x"
  "overlaid s (x\<lparr>m_codeCache := c\<rparr>) = overlaid s x"
  "overlaid s (x\<lparr>m_storageOverlay := (m_storageOverlay x)(k \<mapsto> v)\<rparr>) = (overlaid s x)(k := v)"
  "overlaid s (x\<lparr>m_storageOverlay := Map.empty, m_storageRoot := r\<rparr>) = m_storages s r"
  by (auto simp: overlaid_def fun_eq_iff split: option.split)

lemma code_of_update [simp]:
  "code_of B s (x\<lparr>m_isAlive := b\<rparr>) = code_of B s x" "code_of B s (x\<lparr>m_isUnchanged := b\<rparr>) = code_of B s x"
  "code_of B s (x\<lparr>m_hasNewCode := b\<rparr>) = code_of B s x" "code_of B s (x\<lparr>m_nonce := n\<rparr>) = code_of B s x"
  "code_of B s (x\<lparr>m_balance := n\<rparr>) = code_of B s x" "code_of B s (x\<lparr>m_storageRoot := h\<rparr>) = code_of B s x"
  "code_of B s (x\<lparr>m_storageOverlay := f\<rparr>) = code_of B s x"
  by (simp_all add: code_of_def)

text \<open>New code is in the cache, other code in the database.\<close>

definition code_held :: "backend \<Rightarrow> State \<Rightarrow> Account \<Rightarrow> bool" where
  "code_held B s x \<longleftrightarrow>
     (if m_hasNewCode x then code_of B s x = m_codeCache x
      else m_codeHash x \<noteq> EmptySHA3 B \<longrightarrow> m_codes s (m_codeHash x) = code_of B s x)"

lemma code_held_update [simp]:
  "code_held B s (x\<lparr>m_isAlive := b\<rparr>) = code_held B s x" "code_held B s (x\<lparr>m_isUnchanged := b\<rparr>) = code_held B s x"
  "code_held B s (x\<lparr>m_nonce := n\<rparr>) = code_held B s x" "code_held B s (x\<lparr>m_balance := n\<rparr>) = code_held B s x"
  "code_held B s (x\<lparr>m_storageRoot := h\<rparr>) = code_held B s x" "code_held B s (x\<lparr>m_storageOverlay := f\<rparr>) = code_held B s x"
  by (simp_all add: code_held_def)

text \<open>What the tries hold, and the caches over it.\<close>

definition stored :: "backend \<Rightarrow> State \<Rightarrow> address \<rightharpoonup> acct" where
  "stored B s a = map_option (\<lambda>t. contents B s (loaded_account B t)) (m_state s a)"

definition view :: "backend \<Rightarrow> State \<Rightarrow> address \<rightharpoonup> acct" where
  "view B s a = (case m_cache s a of Some x \<Rightarrow> Some (contents B s x) | None \<Rightarrow> stored B s a)"

definition dirty :: "State \<Rightarrow> address \<Rightarrow> bool" where
  "dirty s a \<longleftrightarrow> (\<exists>x. m_cache s a = Some x \<and> isDirty x)"

text \<open>
  Coherence: an unchanged entry says what the tries say, what is known not to exist does not, codes
  have the hashes under which they are stored, and codes are in the cache or the database.
\<close>

definition state_ok :: "backend \<Rightarrow> State \<Rightarrow> bool" where
  "state_ok B s \<longleftrightarrow>
     (\<forall>a x. m_cache s a = Some x \<longrightarrow> \<not> isDirty x \<longrightarrow> stored B s a = Some (contents B s x)) \<and>
     (\<forall>a x. m_cache s a = Some x \<longrightarrow> code_held B s x) \<and>
     (\<forall>a \<in> m_nonExistingAccountsCache s. m_state s a = None \<and> m_cache s a = None) \<and>
     (\<forall>a w. view B s a = Some w \<longrightarrow> v_hash w = b_sha3 B (v_code w))"

lemma state_okD:
  assumes "state_ok B s"
  shows "m_cache s a = Some x \<Longrightarrow> \<not> isDirty x \<Longrightarrow> stored B s a = Some (contents B s x)"
    and "m_cache s a = Some x \<Longrightarrow> code_held B s x"
    and "a \<in> m_nonExistingAccountsCache s \<Longrightarrow> m_state s a = None"
    and "a \<in> m_nonExistingAccountsCache s \<Longrightarrow> m_cache s a = None"
    and "view B s a = Some w \<Longrightarrow> v_hash w = b_sha3 B (v_code w)"
  using assms unfolding state_ok_def by blast+

text \<open>What no operation on accounts changes: the tries, the codes and the start nonce.\<close>

definition same_base :: "State \<Rightarrow> State \<Rightarrow> bool" where
  "same_base s s' \<longleftrightarrow>
     m_state s' = m_state s \<and> m_storages s' = m_storages s \<and> m_codes s' = m_codes s \<and>
     m_accountStartNonce s' = m_accountStartNonce s"

lemma same_base_refl [simp]: "same_base s s"
  by (simp add: same_base_def)

lemma same_base_trans: "same_base s s' \<Longrightarrow> same_base s' s'' \<Longrightarrow> same_base s s''"
  by (simp add: same_base_def)

lemma same_base_overlaid: "same_base s s' \<Longrightarrow> overlaid s' = overlaid s"
  by (intro ext) (simp add: same_base_def overlaid_def split: option.split)

lemma same_base_code_of: "same_base s s' \<Longrightarrow> code_of B s' = code_of B s"
  by (intro ext) (simp add: same_base_def code_of_def)

lemma same_base_contents: "same_base s s' \<Longrightarrow> contents B s' = contents B s"
  by (intro ext) (simp add: contents_def same_base_overlaid same_base_code_of)

lemma same_base_code_held: "same_base s s' \<Longrightarrow> code_held B s' = code_held B s"
  by (intro ext) (simp add: code_held_def same_base_code_of, simp add: same_base_def)

lemma same_base_stored: "same_base s s' \<Longrightarrow> stored B s' = stored B s"
  by (intro ext) (simp add: stored_def same_base_contents, simp add: same_base_def)

lemmas same_base_cong = same_base_contents same_base_stored same_base_code_of same_base_code_held

lemma same_base_update [simp]:
  "same_base s (s\<lparr>m_cache := c\<rparr>)" "same_base s (s\<lparr>m_changeLog := l\<rparr>)"
  "same_base s (s\<lparr>m_nonExistingAccountsCache := n\<rparr>)" "same_base s (s\<lparr>m_unchangedCacheEntries := es\<rparr>)"
  "same_base s (s\<lparr>s_draws := d\<rparr>)"
  by (simp_all add: same_base_def)

subsection \<open>The caches are transparent\<close>

definition quiet :: "backend \<Rightarrow> State \<Rightarrow> State \<Rightarrow> bool" where
  "quiet B s s' \<longleftrightarrow>
     state_ok B s' \<and> view B s' = view B s \<and> same_base s s' \<and> m_changeLog s' = m_changeLog s \<and> dirty s' = dirty s"

lemma quiet_refl: "state_ok B s \<Longrightarrow> quiet B s s"
  by (simp add: quiet_def)

lemma quiet_trans: "quiet B s s' \<Longrightarrow> quiet B s' s'' \<Longrightarrow> quiet B s s''"
  unfolding quiet_def using same_base_trans by metis

lemma quietD:
  assumes "quiet B s s'"
  shows "state_ok B s'" "view B s' = view B s" "same_base s s'" "m_changeLog s' = m_changeLog s" "dirty s' = dirty s"
  using assms by (simp_all add: quiet_def)

text \<open>The cache of code sizes is no part of what is visible.\<close>

lemma store_size_simps [simp]:
  "m_cache (store_size h n s) = m_cache s" "m_state (store_size h n s) = m_state s" "m_storages (store_size h n s) = m_storages s"
  "m_codes (store_size h n s) = m_codes s" "m_nonExistingAccountsCache (store_size h n s) = m_nonExistingAccountsCache s"
  "m_changeLog (store_size h n s) = m_changeLog s" "m_accountStartNonce (store_size h n s) = m_accountStartNonce s"
  "m_unchangedCacheEntries (store_size h n s) = m_unchangedCacheEntries s" "m_touched (store_size h n s) = m_touched s"
  by (simp_all add: store_size_def Let_def)

lemma store_size_base: "same_base s (store_size h n s)"
  by (simp add: same_base_def)

lemma quiet_store: "quiet B s s' \<Longrightarrow> quiet B s (store_size h n s')"
proof -
  note cong = same_base_cong [OF store_size_base [of s' h n]]
  have v: "view B (store_size h n s') = view B s'" by (intro ext) (simp add: view_def cong split: option.split)
  have "state_ok B (store_size h n s') = state_ok B s'" by (simp add: state_ok_def v cong)
  moreover have "dirty (store_size h n s') = dirty s'" by (simp add: dirty_def fun_eq_iff)
  ultimately show "quiet B s s' \<Longrightarrow> quiet B s (store_size h n s')"
    using v same_base_trans [OF _ store_size_base [of s' h n]] by (auto simp: quiet_def)
qed

text \<open>Coherence is a matter of one address at a time.\<close>

lemma state_ok_entry:
  assumes ok: "state_ok B s" and base: "same_base s s'" and other: "\<And>b. b \<noteq> a \<Longrightarrow> m_cache s' b = m_cache s b"
    and non: "m_nonExistingAccountsCache s' \<subseteq> m_nonExistingAccountsCache s" "m_cache s' a \<noteq> None \<longrightarrow> a \<notin> m_nonExistingAccountsCache s'"
    and clean: "\<And>y. m_cache s' a = Some y \<Longrightarrow> \<not> isDirty y \<Longrightarrow> stored B s a = Some (contents B s y)"
    and new: "\<And>y. m_cache s' a = Some y \<Longrightarrow> code_held B s y"
    and hash: "\<And>w. view B s' a = Some w \<Longrightarrow> v_hash w = b_sha3 B (v_code w)"
  shows "state_ok B s'"
  unfolding state_ok_def
proof (intro conjI allI ballI impI)
  note cong = same_base_cong [OF base]
  fix b x assume x: "m_cache s' b = Some x"
  show "stored B s' b = Some (contents B s' x)" if "\<not> isDirty x"
    using x that clean other state_okD(1) [OF ok] by (cases "b = a") (auto simp: cong)
  show "code_held B s' x"
    using x new other state_okD(2) [OF ok] by (cases "b = a") (auto simp: cong)
next
  fix b assume b: "b \<in> m_nonExistingAccountsCache s'"
  show "m_state s' b = None" using b non state_okD(3) [OF ok] base by (auto simp: same_base_def)
  show "m_cache s' b = None" using b non other [of b] state_okD(4) [OF ok] by (cases "b = a") auto
next
  fix b w assume "view B s' b = Some w"
  then show "v_hash w = b_sha3 B (v_code w)"
    using hash other [of b] state_okD(5) [OF ok, of b]
    by (cases "b = a") (auto simp: view_def same_base_cong [OF base] split: option.splits)
qed

lemma view_entry:
  assumes "same_base s s'" "\<And>b. b \<noteq> a \<Longrightarrow> m_cache s' b = m_cache s b"
  shows "view B s' = (view B s)(a := view B s' a)"
  using assms(2) by (intro ext) (auto simp: view_def same_base_cong [OF assms(1)] split: option.split)

lemma quiet_entry:
  assumes ok: "state_ok B s" and base: "same_base s s'" "m_changeLog s' = m_changeLog s"
    and non: "m_nonExistingAccountsCache s' \<subseteq> m_nonExistingAccountsCache s" "m_cache s' a \<noteq> None \<longrightarrow> a \<notin> m_nonExistingAccountsCache s'"
    and other: "\<And>b. b \<noteq> a \<Longrightarrow> m_cache s' b = m_cache s b"
    and new: "\<And>y. m_cache s' a = Some y \<Longrightarrow> code_held B s y"
    and same: "view B s' a = view B s a" "dirty s' a = dirty s a"
  shows "quiet B s s'"
proof -
  have view: "view B s' = view B s"
    using view_entry [OF base(1), of a B] other same(1) by auto
  have "stored B s a = Some (contents B s y)" if "m_cache s' a = Some y" "\<not> isDirty y" for y
  proof (cases "m_cache s a")
    case None
    then show ?thesis using same(1) that by (simp add: view_def same_base_cong [OF base(1)])
  next
    case (Some x)
    then have "\<not> isDirty x" using same(2) that by (simp add: dirty_def)
    then show ?thesis
      using state_okD(1) [OF ok Some] Some same(1) that by (simp add: view_def same_base_cong [OF base(1)])
  qed
  then have "state_ok B s'"
    using state_okD(5) [OF ok] by (intro state_ok_entry [OF ok base(1) other non _ new]) (auto simp: view)
  moreover have "dirty s' = dirty s"
  proof
    fix b show "dirty s' b = dirty s b" using other [of b] same(2) by (cases "b = a") (auto simp: dirty_def)
  qed
  ultimately show ?thesis using view base by (simp add: quiet_def)
qed


lemma clearCacheIfTooLarge_quiet: "state_ok B s \<Longrightarrow> quiet B s (clearCacheIfTooLarge s)"
proof (induction s rule: clearCacheIfTooLarge.induct)
  case (1 s)
  define es i addr c s' where "es = m_unchangedCacheEntries s" and "i = s_draws s 0 mod length es" and "addr = es ! i"
    and "c = (case m_cache s addr of
          Some a \<Rightarrow> if \<not> isDirty a then (m_cache s)(addr := None) else m_cache s | None \<Rightarrow> m_cache s)"
    and "s' = s\<lparr>m_unchangedCacheEntries := butlast (es[i := last es]), m_cache := c, s_draws := (\<lambda>k. s_draws s (Suc k))\<rparr>"
  have c: "c addr = None \<and> (\<exists>x. m_cache s addr = Some x \<and> \<not> isDirty x) \<or> c = m_cache s" "\<And>b. b \<noteq> addr \<Longrightarrow> c b = m_cache s b"
    by (auto simp: c_def split: option.split)
  have base: "same_base s s'" and mc: "m_cache s' = c" by (simp_all add: s'_def same_base_def)
  have "quiet B s s'"
  proof (rule quiet_entry [OF 1(2) base, of addr])
    show "view B s' addr = view B s addr"
      using c(1) state_okD(1) [OF 1(2)] by (auto simp: view_def mc same_base_cong [OF base] split: option.split)
    show "dirty s' addr = dirty s addr" using c(1) by (auto simp: dirty_def s'_def)
    show "m_cache s' addr \<noteq> None \<longrightarrow> addr \<notin> m_nonExistingAccountsCache s'"
      using c(1) state_okD(4) [OF 1(2)] by (auto simp: s'_def)
    show "code_held B s y" if "m_cache s' addr = Some y" for y
      using that c(1) state_okD(2) [OF 1(2)] by (auto simp: s'_def)
  qed (use c(2) in \<open>auto simp: s'_def\<close>)
  note step = this
  have rec: "quiet B s' (clearCacheIfTooLarge s')" if "length es > 1000"
    using 1(1) [OF es_def that i_def addr_def c_def, folded s'_def] quietD(1) [OF step] by blast
  have "clearCacheIfTooLarge s = (if length es > 1000 then clearCacheIfTooLarge s' else s)"
    unfolding s'_def c_def addr_def i_def es_def by (subst clearCacheIfTooLarge.simps) (simp add: Let_def)
  then show ?case using rec quiet_trans [OF step] quiet_refl [OF 1(2)] by simp
qed

text \<open>\<open>account\<close> finds the account if there is one, and from then on it is in the cache.\<close>

definition found :: "backend \<Rightarrow> address \<Rightarrow> State \<Rightarrow> Account option \<Rightarrow> State \<Rightarrow> bool" where
  "found B a s r s' \<longleftrightarrow>
     quiet B s s' \<and> m_cache s' a = r \<and> view B s a = map_option (contents B s') r"

lemma dead_simps [simp]:
  "m_hasNewCode (loaded_account B t) = False" "isDirty (loaded_account B t) = False" "m_codeCache (loaded_account B t) = []"
  "code_held B s (loaded_account B t)"
  by (auto simp: code_held_def code_of_def loaded_account_def dead_account_def isDirty_def split: prod.split)

lemma account_found:
  assumes ok: "state_ok B s"
  shows "found B a s (fst (account B a s)) (snd (account B a s))"
proof (cases "m_cache s a")
  case (Some x)
  then show ?thesis using ok by (simp add: account_def found_def quiet_refl view_def)
next
  case none: None
  show ?thesis
  proof (cases "a \<in> m_nonExistingAccountsCache s")
    case True
    then show ?thesis
      using ok none state_okD(3) [OF ok] by (simp add: account_def found_def quiet_refl view_def stored_def)
  next
    case new: False
    show ?thesis
    proof (cases "m_state s a")
      case None
      let ?s = "s\<lparr>m_nonExistingAccountsCache := insert a (m_nonExistingAccountsCache s)\<rparr>"
      have base: "same_base s ?s" by simp
      have view: "view B ?s = view B s"
        by (intro ext) (simp add: view_def same_base_cong [OF base] split: option.split)
      have "state_ok B ?s"
        using ok none None view unfolding state_ok_def by (simp add: same_base_cong [OF base])
      then have "quiet B s ?s" using view by (auto simp: quiet_def dirty_def)
      then show ?thesis
        using none new None by (simp add: account_def found_def view_def stored_def)
    next
      case (Some t)
      define s1 x where "s1 = clearCacheIfTooLarge s" and "x = loaded_account B t"
      define s2 where "s2 = s1\<lparr>m_cache := (m_cache s1)(a \<mapsto> x), m_unchangedCacheEntries := m_unchangedCacheEntries s1 @ [a]\<rparr>"
      have 1: "quiet B s s1" using clearCacheIfTooLarge_quiet [OF ok] by (simp add: s1_def)
      note b1 = quietD(3) [OF 1] and ok1 = quietD(1) [OF 1]
      have base: "same_base s1 s2" by (simp add: s2_def same_base_def)
      have x: "stored B s1 a = Some (contents B s1 x)"
        using Some b1 by (simp add: stored_def x_def same_base_def)
      have v1: "view B s1 a = Some (contents B s1 x)"
        using none x quietD(2) [OF 1] same_base_cong [OF b1] by (simp add: view_def)
      have "m_cache s1 a = Some y \<Longrightarrow> \<not> isDirty y" for y
        using quietD(5) [OF 1] none by (metis dirty_def option.distinct(1))
      then have d1: "\<not> dirty s1 a" by (auto simp: dirty_def)
      have "quiet B s1 s2"
      proof (rule quiet_entry [OF ok1 base, of a])
        show "view B s2 a = view B s1 a" using v1 by (simp add: view_def s2_def same_base_cong [OF base [unfolded s2_def]])
        show "dirty s2 a = dirty s1 a" using d1 by (simp add: dirty_def s2_def x_def)
        show "m_cache s2 a \<noteq> None \<longrightarrow> a \<notin> m_nonExistingAccountsCache s2"
          using state_okD(3) [OF ok1, of a] Some b1 by (auto simp: s2_def same_base_def)
      qed (auto simp: s2_def x_def)
      then have "quiet B s s2" using quiet_trans [OF 1] by blast
      moreover have "account B a s = (Some x, s2)"
        using none new Some by (simp add: account_def Let_def s1_def s2_def x_def)
      moreover have "view B s a = Some (contents B s2 x)"
        using v1 quietD(2) [OF 1] same_base_cong(1) [OF base, of B] by simp
      ultimately show ?thesis by (simp add: found_def s2_def)
    qed
  qed
qed


subsection \<open>Readers\<close>

text \<open>
  The contract of a reader: it is quiet (\<open>quiet_reader\<close>) and returns a function of the start nonce and the view
  (\<open>state_reader\<close>). So what is read does not depend on what was read before.
\<close>

locale quiet_reader =
  fixes B :: backend and get :: "State \<Rightarrow> 'r \<times> State"
  assumes quiet_get: "state_ok B s \<Longrightarrow> quiet B s (snd (get s))"
begin

lemma keeps_view: "state_ok B s \<Longrightarrow> view B (snd (get s)) = view B s"
  using quiet_get quietD(2) by blast

end

locale state_reader = quiet_reader B get for B :: backend and get :: "State \<Rightarrow> 'r \<times> State" +
  fixes proj :: "u256 \<Rightarrow> (address \<rightharpoonup> acct) \<Rightarrow> 'r"
  assumes reads: "state_ok B s \<Longrightarrow> fst (get s) = proj (m_accountStartNonce s) (view B s)"
begin

lemma same_answer:
  assumes "state_ok B s" "state_ok B s'" "view B s' = view B s" "m_accountStartNonce s' = m_accountStartNonce s"
  shows "fst (get s') = fst (get s)"
  using assms reads [of s] reads [of s'] by simp

lemma after_quiet:
  assumes "state_ok B s" "quiet B s s'"
  shows "fst (get s') = fst (get s)"
  using assms reads [of s] reads [of s'] quietD(1-3) [OF assms(2)] by (simp add: same_base_def)

lemma again: "state_ok B s \<Longrightarrow> fst (get (snd (get s))) = fst (get s)"
  using after_quiet quiet_get by blast

end

text \<open>Readers that look at the account \<open>account\<close> finds.\<close>

lemma account_reader:
  assumes "\<And>s r s'. account B a s = (r, s') \<Longrightarrow> get s = (f (m_accountStartNonce s') (map_option (contents B s') r), s')"
  shows "state_reader B get (\<lambda>n v. f n (v a))"
proof
  fix s assume ok: "state_ok B s"
  obtain r s' where r: "account B a s = (r, s')" by fastforce
  have "found B a s r s'" using account_found [OF ok, of a] r by simp
  then show "fst (get s) = f (m_accountStartNonce s) (view B s a)" "quiet B s (snd (get s))"
    using assms [OF r] by (auto simp: found_def quiet_def same_base_def)
qed

definition acct_empty :: "backend \<Rightarrow> acct \<Rightarrow> bool" where
  "acct_empty B w \<longleftrightarrow> v_nonce w = 0 \<and> v_balance w = 0 \<and> v_hash w = EmptySHA3 B"

interpretation addressInUse: state_reader B "addressInUse B a" "\<lambda>n v. v a \<noteq> None" for B a
  by (rule account_reader [where f = "\<lambda>n w. w \<noteq> None"]) (simp add: addressInUse_def)

interpretation accountNonemptyAndExisting: state_reader B "accountNonemptyAndExisting B a"
  "\<lambda>n v. case v a of Some w \<Rightarrow> \<not> acct_empty B w | None \<Rightarrow> False" for B a
  by (rule account_reader [where f = "\<lambda>n w. case w of Some w \<Rightarrow> \<not> acct_empty B w | None \<Rightarrow> False"])
    (auto simp: accountNonemptyAndExisting_def acct_empty_def acc_isEmpty_def split: option.split)

interpretation addressHasCode: state_reader B "addressHasCode B a"
  "\<lambda>n v. case v a of Some w \<Rightarrow> v_hash w \<noteq> EmptySHA3 B | None \<Rightarrow> False" for B a
  by (rule account_reader [where f = "\<lambda>n w. case w of Some w \<Rightarrow> v_hash w \<noteq> EmptySHA3 B | None \<Rightarrow> False"])
    (auto simp: addressHasCode_def split: option.split)

interpretation state_balance: state_reader B "state_balance B a"
  "\<lambda>n v. case v a of Some w \<Rightarrow> v_balance w | None \<Rightarrow> 0" for B a
  by (rule account_reader [where f = "\<lambda>n w. case w of Some w \<Rightarrow> v_balance w | None \<Rightarrow> 0"])
    (auto simp: state_balance_def split: option.split)

interpretation getNonce: state_reader B "getNonce B a"
  "\<lambda>n v. case v a of Some w \<Rightarrow> v_nonce w | None \<Rightarrow> n" for B a
  by (rule account_reader [where f = "\<lambda>n w. case w of Some w \<Rightarrow> v_nonce w | None \<Rightarrow> n"])
    (auto simp: getNonce_def split: option.split)

interpretation codeHash: state_reader B "codeHash B a"
  "\<lambda>n v. case v a of Some w \<Rightarrow> v_hash w | None \<Rightarrow> EmptySHA3 B" for B a
  by (rule account_reader [where f = "\<lambda>n w. case w of Some w \<Rightarrow> v_hash w | None \<Rightarrow> EmptySHA3 B"])
    (auto simp: codeHash_def split: option.split)

text \<open>Readers that fill the account's own caches.\<close>

lemma quiet_put:
  assumes ok: "state_ok B s" and x: "m_cache s a = Some x"
    and y: "contents B s y = contents B s x" "isDirty y = isDirty x" "code_held B s y"
  shows "quiet B s (put_account a y s)"
proof (rule quiet_entry [OF ok, of _ a])
  have base: "same_base s (put_account a y s)" by (simp add: put_account_def)
  then show "same_base s (put_account a y s)" .
  show "view B (put_account a y s) a = view B s a"
    using x y(1) same_base_cong [OF base] by (simp add: view_def put_account_def)
  show "m_cache (put_account a y s) a \<noteq> None \<longrightarrow> a \<notin> m_nonExistingAccountsCache (put_account a y s)"
    using state_okD(4) [OF ok, of a] x by (auto simp: put_account_def)
qed (use x y in \<open>auto simp: put_account_def dirty_def\<close>)

interpretation state_storage: state_reader B "state_storage B a k"
  "\<lambda>n v. case v a of Some w \<Rightarrow> v_storage w k | None \<Rightarrow> 0" for B a k
proof
  fix s assume ok: "state_ok B s"
  obtain r s' where r: "account B a s = (r, s')" by fastforce
  then have f: "found B a s r s'" using account_found [OF ok, of a] by simp
  show "fst (state_storage B a k s) = (case view B s a of Some w \<Rightarrow> v_storage w k | None \<Rightarrow> 0)"
    using r f by (auto simp: state_storage_def found_def overlaid_def Let_def split: option.split)
  have "quiet B s' (put_account a (acc_setStorageCache k (m_storages s' (m_storageRoot x) k) x) s')"
    if "r = Some x" "m_storageOverlay x k = None" for x
    using f that state_okD(2) [of B s' a x]
    by (intro quiet_put) (auto simp: found_def quiet_def contents_def acc_setStorageCache_def isDirty_def overlaid_def fun_eq_iff)
  then show "quiet B s (snd (state_storage B a k s))"
    using r f quiet_trans [of B s s'] by (auto simp: state_storage_def found_def Let_def split: option.split)
qed

interpretation state_code: state_reader B "state_code B a"
  "\<lambda>n v. case v a of Some w \<Rightarrow> v_code w | None \<Rightarrow> []" for B a
proof
  fix s assume ok: "state_ok B s"
  obtain r s' where r: "account B a s = (r, s')" by fastforce
  then have f: "found B a s r s'" using account_found [OF ok, of a] by simp
  show "fst (state_code B a s) = (case view B s a of Some w \<Rightarrow> v_code w | None \<Rightarrow> [])"
    using r f by (auto simp: state_code_def found_def code_of_def Let_def split: option.split)
  have "quiet B s' (put_account a (acc_noteCode (m_codes s' (m_codeHash x)) x) s')"
    if x: "r = Some x" "m_codeHash x \<noteq> EmptySHA3 B" "m_codeCache x = []" for x
  proof (rule quiet_put)
    have "m_cache s' a = Some x" "state_ok B s'" using f x(1) by (auto simp: found_def quiet_def)
    then show "state_ok B s'" "m_cache s' a = Some x" by blast+
    then have "code_held B s' x" by (rule state_okD(2))
    then show "code_held B s' (acc_noteCode (m_codes s' (m_codeHash x)) x)"
      by (cases "m_hasNewCode x") (simp_all add: code_held_def code_of_def acc_noteCode_def x)
    show "contents B s' (acc_noteCode (m_codes s' (m_codeHash x)) x) = contents B s' x"
      by (simp add: contents_def acc_noteCode_def code_of_def x)
  qed (simp add: acc_noteCode_def isDirty_def)
  then have "quiet B s' (store_size h n (put_account a (acc_noteCode (m_codes s' (m_codeHash x)) x) s'))"
    if "r = Some x" "m_codeHash x \<noteq> EmptySHA3 B" "m_codeCache x = []" for x h n
    using that quiet_store by blast
  then show "quiet B s (snd (state_code B a s))"
    using r f quiet_trans [of B s s'] by (auto simp: state_code_def found_def Let_def split: option.split)
qed

subsection \<open>The size of a code\<close>

text \<open>
  \<open>codeSize\<close> answers from the cache of code sizes. Its entries are sizes of codes of the set \<open>K\<close> under their hashes, where
  \<open>K\<close> has the codes of all accounts; when no two codes of \<open>K\<close> have the same hash, the answer is the size of the account's code.
\<close>

definition codes_of :: "backend \<Rightarrow> State \<Rightarrow> bytes set" where
  "codes_of B s = {v_code w |a w. view B s a = Some w}"

definition sizes_ok :: "backend \<Rightarrow> bytes set \<Rightarrow> State \<Rightarrow> bool" where
  "sizes_ok B K s \<longleftrightarrow> om_ok (m_codeSizes s) \<and> (\<forall>(h, n) \<in> set (m_codeSizes s). \<exists>c \<in> K. b_sha3 B c = h \<and> length c = n)"

lemma quiet_codes: "quiet B s s' \<Longrightarrow> codes_of B s' = codes_of B s"
  by (simp add: quiet_def codes_of_def)

lemma removeRandomElement_om:
  assumes "om_ok m"
  shows "om_ok (removeRandomElement r m)" "set (removeRandomElement r m) \<subseteq> set m"
proof -
  have "removeRandomElement r m = m \<or> (\<exists>k. removeRandomElement r m = om_erase k m)"
    by (auto simp: removeRandomElement_def split: list.split)
  then show "om_ok (removeRandomElement r m)" "set (removeRandomElement r m) \<subseteq> set m" using assms by (auto simp: om_erase_def)
qed

lemma sizes_ok_store:
  assumes "sizes_ok B K s" "c \<in> K"
  shows "sizes_ok B K (store_size (b_sha3 B c) (length c) s)"
proof -
  define m where "m = (if length (m_codeSizes s) \<ge> c_maxSize then removeRandomElement (s_randomHashes s 0) (m_codeSizes s) else m_codeSizes s)"
  have m: "om_ok m" "set m \<subseteq> set (m_codeSizes s)" using assms(1) removeRandomElement_om by (auto simp: m_def sizes_ok_def)
  have "m_codeSizes (store_size (b_sha3 B c) (length c) s) = om_set (b_sha3 B c) (length c) m" by (simp add: store_size_def m_def)
  moreover have "\<exists>d \<in> K. b_sha3 B d = h \<and> length d = n" if "(h, n) \<in> set (om_set (b_sha3 B c) (length c) m)" for h n
  proof -
    have "map_of (om_set (b_sha3 B c) (length c) m) h = Some n" using that m(1) by (simp add: om_ok_distinct del: map_of_om_set)
    then have "h = b_sha3 B c \<and> n = length c \<or> (h, n) \<in> set m" using m(1) by (auto split: if_splits dest: map_of_SomeD)
    then show ?thesis using assms m(2) by (auto simp: sizes_ok_def)
  qed
  ultimately show ?thesis using m(1) by (auto simp: sizes_ok_def)
qed

lemma account_sizes: "m_codeSizes (snd (account B a s)) = m_codeSizes s"
proof -
  have "m_codeSizes (clearCacheIfTooLarge s) = m_codeSizes s"
    by (induction s rule: clearCacheIfTooLarge.induct) (subst clearCacheIfTooLarge.simps, simp add: Let_def)
  then show ?thesis by (simp add: account_def Let_def split: option.split)
qed

lemma sizes_ok_code:
  assumes "state_ok B s" "sizes_ok B K s" "codes_of B s \<subseteq> K"
  shows "sizes_ok B K (snd (state_code B a s))"
proof -
  obtain r s' where r: "account B a s = (r, s')" by fastforce
  then have f: "found B a s r s'" and z: "sizes_ok B K s'"
    using account_found [OF assms(1), of a] account_sizes [of B a s] assms(2) by (auto simp: sizes_ok_def)
  show ?thesis
  proof (cases "\<exists>x. r = Some x \<and> m_codeHash x \<noteq> EmptySHA3 B \<and> m_codeCache x = []")
    case True
    then obtain x where x: "r = Some x" "m_codeHash x \<noteq> EmptySHA3 B" "m_codeCache x = []" by blast
    let ?c = "m_codes s' (m_codeHash x)"
    have v: "view B s a = Some (contents B s' x)" "v_code (contents B s' x) = ?c" using f x by (simp_all add: found_def code_of_def)
    then have "m_codeHash x = b_sha3 B ?c" using state_okD(5) [OF assms(1) v(1)] by simp
    moreover have "?c \<in> K" using assms(3) v by (force simp: codes_of_def)
    moreover have "sizes_ok B K (put_account a (acc_noteCode ?c x) s')" using z by (simp add: sizes_ok_def put_account_def)
    ultimately show ?thesis
      using sizes_ok_store [of B K "put_account a (acc_noteCode ?c x) s'" ?c] r x by (simp add: state_code_def Let_def)
  next
    case False
    then show ?thesis using r z by (auto simp: state_code_def Let_def split: option.split)
  qed
qed

lemma codeSize_spec:
  assumes ok: "state_ok B s" and z: "sizes_ok B K s" "codes_of B s \<subseteq> K"
  shows "quiet B s (snd (codeSize B a s))" "sizes_ok B K (snd (codeSize B a s))"
    "inj_on (b_sha3 B) K \<Longrightarrow> fst (codeSize B a s) = (case view B s a of Some w \<Rightarrow> length (v_code w) | None \<Rightarrow> 0)"
proof -
  obtain r s' where r: "account B a s = (r, s')" by fastforce
  then have f: "found B a s r s'" and z': "sizes_ok B K s'"
    using account_found [OF ok, of a] account_sizes [of B a s] z(1) by (auto simp: sizes_ok_def)
  then have q: "quiet B s s'" "state_ok B s'" by (auto simp: found_def quiet_def)
  have zc: "sizes_ok B K (snd (state_code B a s'))" using sizes_ok_code [OF q(2) z'] z(2) quiet_codes [OF q(1)] by simp
  have c: "fst (state_code B a s') = (case view B s a of Some w \<Rightarrow> v_code w | None \<Rightarrow> [])" "quiet B s (snd (state_code B a s'))"
    using state_code.reads [OF q(2), of a] state_code.quiet_get [OF q(2), of a] quietD(2) [OF q(1)] quiet_trans [OF q(1)] by auto
  have x: "m_codeHash x = b_sha3 B (fst (state_code B a s')) \<and> fst (state_code B a s') \<in> K" if "r = Some x" for x
  proof -
    have v: "view B s a = Some (contents B s' x)" using f that by (simp add: found_def)
    then show ?thesis using state_okD(5) [OF ok v] c(1) z(2) by (force simp: codes_of_def)
  qed
  show "quiet B s (snd (codeSize B a s))"
    using r q(1) c(2) quiet_store by (auto simp: codeSize_def Let_def split: option.split prod.split)
  show "sizes_ok B K (snd (codeSize B a s))"
    using r z' zc sizes_ok_store x by (auto simp: codeSize_def Let_def split: option.split prod.split)
  show "fst (codeSize B a s) = (case view B s a of Some w \<Rightarrow> length (v_code w) | None \<Rightarrow> 0)" if inj: "inj_on (b_sha3 B) K"
  proof -
    have "n = length (fst (state_code B a s'))" if y: "r = Some y" "map_of (m_codeSizes s') (m_codeHash y) = Some n" for y n
    proof -
      obtain d where "d \<in> K" "b_sha3 B d = m_codeHash y" "length d = n"
        using z' map_of_SomeD [OF y(2)] by (auto simp: sizes_ok_def)
      then show ?thesis using x [OF y(1)] inj by (auto dest: inj_onD)
    qed
    then show ?thesis
      using r f c(1) state_okD(2) [OF q(2), of a]
      by (auto simp: codeSize_def code_held_def found_def Let_def split: option.split prod.split)
  qed
qed

interpretation codeSize: quiet_reader B "codeSize B a" for B a
proof
  fix s assume ok: "state_ok B s"
  obtain r s' where r: "account B a s = (r, s')" by fastforce
  then have q: "quiet B s s'" using account_found [OF ok, of a] by (simp add: found_def)
  then have c: "quiet B s (snd (state_code B a s'))" using quiet_trans [OF q state_code.quiet_get] quietD(1) by blast
  show "quiet B s (snd (codeSize B a s))"
    using r q quiet_store [OF c] by (simp add: codeSize_def Let_def split_beta split: option.split)
qed

end
