(* ===== verification/World_Log.thy ===== *)
theory World_Log
  imports World_View
begin

section \<open>The change log\<close>

text \<open>
  What undoing a change does to the contents of the accounts (\<open>undo_view\<close>), the invariant of the log
  (\<open>world_ok\<close>), and that every operation on accounts is an advance: it keeps the invariant, and undoing what
  it logged gives back the contents from before. Undoing the clearing of an account's storage restores the root
  only, not the values written over it (\<open>acct_sim\<close>).
\<close>

subsection \<open>Undoing changes\<close>

definition change_addr :: "Change \<Rightarrow> address" where
  "change_addr c =
     (case c of ChBalance a x \<Rightarrow> a | ChStorage a k x \<Rightarrow> a | ChStorageRoot a r \<Rightarrow> a | ChNonce a x \<Rightarrow> a
      | ChCreate a \<Rightarrow> a | ChCode a x \<Rightarrow> a | ChTouch a \<Rightarrow> a)"

lemma change_addr_simps [simp]:
  "change_addr (ChBalance a x) = a" "change_addr (ChStorage a k x) = a" "change_addr (ChStorageRoot a r) = a"
  "change_addr (ChNonce a x) = a" "change_addr (ChCreate a) = a" "change_addr (ChCode a c) = a" "change_addr (ChTouch a) = a"
  by (simp_all add: change_addr_def)

fun undo_slot :: "backend \<Rightarrow> (h256 \<Rightarrow> u256 \<Rightarrow> u256) \<Rightarrow> Change \<Rightarrow> acct option \<Rightarrow> acct option" where
  "undo_slot B \<sigma> (ChBalance a x) q = map_option (\<lambda>w. w\<lparr>v_balance := v_balance w - x\<rparr>) q"
| "undo_slot B \<sigma> (ChStorage a k x) q = map_option (\<lambda>w. w\<lparr>v_storage := (v_storage w)(k := x)\<rparr>) q"
| "undo_slot B \<sigma> (ChStorageRoot a r) q = map_option (\<lambda>w. w\<lparr>v_root := r, v_storage := \<sigma> r\<rparr>) q"
| "undo_slot B \<sigma> (ChNonce a x) q = map_option (\<lambda>w. w\<lparr>v_nonce := x\<rparr>) q"
| "undo_slot B \<sigma> (ChCreate a) q = None"
| "undo_slot B \<sigma> (ChCode a x) q = map_option (\<lambda>w. w\<lparr>v_hash := b_sha3 B x, v_code := x\<rparr>) q"
| "undo_slot B \<sigma> (ChTouch a) q = q"

definition undo_view :: "backend \<Rightarrow> (h256 \<Rightarrow> u256 \<Rightarrow> u256) \<Rightarrow> Change \<Rightarrow> (address \<rightharpoonup> acct) \<Rightarrow> (address \<rightharpoonup> acct)" where
  "undo_view B \<sigma> c v = v(change_addr c := undo_slot B \<sigma> c (v (change_addr c)))"

text \<open>
  The log above a state of the tries: what was created was not there, what was touched for the first time had
  not been changed, and neither has older entries.
\<close>

definition first_change :: "(address \<rightharpoonup> acct) \<Rightarrow> Change \<Rightarrow> Change list \<Rightarrow> (address \<rightharpoonup> acct) \<Rightarrow> bool" where
  "first_change base c cs v \<longleftrightarrow>
     (c = ChCreate (change_addr c) \<or> c = ChTouch (change_addr c) \<longrightarrow>
       change_addr c \<notin> change_addr ` set cs \<and> base (change_addr c) = v (change_addr c))"

fun log_ok :: "backend \<Rightarrow> (h256 \<Rightarrow> u256 \<Rightarrow> u256) \<Rightarrow> (address \<rightharpoonup> acct) \<Rightarrow> Change list \<Rightarrow> (address \<rightharpoonup> acct) \<Rightarrow> bool" where
  "log_ok B \<sigma> base [] v = True"
| "log_ok B \<sigma> base (c # cs) v =
     (first_change base c cs (undo_view B \<sigma> c v) \<and> log_ok B \<sigma> base cs (undo_view B \<sigma> c v))"

definition world_ok :: "backend \<Rightarrow> State \<Rightarrow> bool" where
  "world_ok B s \<longleftrightarrow>
     state_ok B s \<and> (\<forall>c. b_sha3 B c = EmptySHA3 B \<longrightarrow> c = []) \<and> m_accountStartNonce s \<noteq> - 1 \<and>
     (\<forall>c \<in> set (m_changeLog s). dirty s (change_addr c)) \<and>
     log_ok B (m_storages s) (stored B s) (m_changeLog s) (view B s)"

lemma world_okD:
  assumes "world_ok B s"
  shows "state_ok B s" "b_sha3 B c = EmptySHA3 B \<Longrightarrow> c = []" "m_accountStartNonce s \<noteq> - 1"
    "c' \<in> set (m_changeLog s) \<Longrightarrow> dirty s (change_addr c')" "log_ok B (m_storages s) (stored B s) (m_changeLog s) (view B s)"
  using assms unfolding world_ok_def by blast+

text \<open>One entry undone.\<close>

lemma dirty_view: "dirty s a \<Longrightarrow> \<exists>x. m_cache s a = Some x \<and> isDirty x \<and> view B s a = Some (contents B s x) \<and> cache_at B a s = x"
  by (auto simp: dirty_def view_def cache_at_def)

lemmas acc_defs = acc_setStorage_def acc_setStorageRoot_def acc_addBalance_def acc_setNonce_def acc_setCode_def
  acc_incNonce_def acc_clearStorage_def untouch_def changed_def

text \<open>Replacing one entry of the cache by a changed one.\<close>

lemma state_ok_put:
  assumes ok: "state_ok B s" and base: "same_base s s'" and c: "m_cache s' = (m_cache s)(a \<mapsto> y)"
    and non: "m_nonExistingAccountsCache s' \<subseteq> m_nonExistingAccountsCache s - {a}"
    and y: "isDirty y \<or> stored B s a = Some (contents B s y)" "code_held B s y"
      "m_codeHash y = b_sha3 B (code_of B s y)"
  shows "state_ok B s' \<and> view B s' = (view B s)(a \<mapsto> contents B s y)"
proof
  have v: "view B s' a = Some (contents B s y)" using c same_base_cong [OF base] by (simp add: view_def)
  show "state_ok B s'"
    by (rule state_ok_entry [OF ok base, of a]) (use c non y v in auto)
  show "view B s' = (view B s)(a \<mapsto> contents B s y)"
    using view_entry [OF base, of a B] c v by simp
qed

lemma undo_world:
  assumes w: "world_ok B s" and l: "m_changeLog s = c # cs" and s': "s' = (undo B c s)\<lparr>m_changeLog := cs\<rparr>"
  shows "world_ok B s' \<and> same_base s s' \<and> m_changeLog s' = cs \<and> view B s' = undo_view B (m_storages s) c (view B s)"
proof -
  define a where "a = change_addr c"
  note ok = world_okD(1) [OF w]
  obtain x where x: "m_cache s a = Some x" "isDirty x" "view B s a = Some (contents B s x)" "cache_at B a s = x"
    using world_okD(4) [OF w, of c] l dirty_view unfolding a_def by (metis list.set_intros(1))
  have first: "first_change (stored B s) c cs (undo_view B (m_storages s) c (view B s))"
    and rest: "log_ok B (m_storages s) (stored B s) cs (undo_view B (m_storages s) c (view B s))"
    using world_okD(5) [OF w] l by simp_all
  have base: "same_base s s'"
    unfolding s' by (cases c) (simp_all add: undo_def put_account_def same_base_def)
  have new: "code_held B s x" and hash: "m_codeHash x = b_sha3 B (code_of B s x)"
    and non: "a \<notin> m_nonExistingAccountsCache s"
    using state_okD(2) [OF ok x(1)] state_okD(5) [OF ok x(3)] state_okD(4) [OF ok, of a] x(1) by auto
  have "state_ok B s' \<and> view B s' = undo_view B (m_storages s) c (view B s)"
  proof (cases "c = ChCreate a")
    case True
    then have "stored B s a = None" using first by (simp add: first_change_def undo_view_def)
    moreover have "m_cache s' = (m_cache s)(a := None)" "m_nonExistingAccountsCache s' = m_nonExistingAccountsCache s"
      using True by (simp_all add: s' undo_def)
    ultimately show ?thesis
      using True view_entry [OF base, of a B] same_base_cong [OF base]
      by (auto intro!: state_ok_entry [OF ok base, of a] simp: view_def undo_view_def)
  next
    case False
    define y where "y = (case c of
        ChStorage a k v \<Rightarrow> acc_setStorage k v x | ChStorageRoot a r \<Rightarrow> acc_setStorageRoot r x
      | ChBalance a v \<Rightarrow> acc_addBalance (0 - v) x | ChNonce a v \<Rightarrow> acc_setNonce v x
      | ChCode a v \<Rightarrow> acc_setCode B v x | ChTouch a \<Rightarrow> untouch x | ChCreate a \<Rightarrow> x)"
    have c: "m_cache s' = (m_cache s)(a \<mapsto> y)" "m_nonExistingAccountsCache s' = m_nonExistingAccountsCache s"
      using False x(4) by (cases c; simp add: s' undo_def put_account_def y_def a_def)+
    have slot: "undo_slot B (m_storages s) c (Some (contents B s x)) = Some (contents B s y)"
      using False world_okD(2) [OF w] by (cases c) (auto simp: y_def a_def acc_defs contents_def code_of_def EmptySHA3_def)
    have "isDirty y \<or> stored B s a = Some (contents B s y)"
    proof (cases "c = ChTouch a")
      case True
      then show ?thesis using first slot x(3) by (simp add: first_change_def undo_view_def)
    next
      case False
      then show ?thesis using \<open>c \<noteq> ChCreate a\<close> x(2) by (cases c) (auto simp: y_def a_def acc_defs isDirty_def)
    qed
    moreover have "code_held B s y"
    proof (cases c)
      case (ChCode a v)
      then show ?thesis using world_okD(2) [OF w, of v] by (auto simp: y_def acc_defs code_held_def code_of_def EmptySHA3_def)
    qed (use new in \<open>simp_all add: y_def acc_defs\<close>)
    moreover have "m_codeHash y = b_sha3 B (code_of B s y)"
    proof (cases c)
      case (ChCode a v)
      then show ?thesis using world_okD(2) [OF w, of v] by (auto simp: y_def acc_defs code_of_def EmptySHA3_def)
    qed (use hash in \<open>simp_all add: y_def acc_defs\<close>)
    ultimately have "state_ok B s' \<and> view B s' = (view B s)(a \<mapsto> contents B s y)"
      using non c by (intro state_ok_put [OF ok base]) auto
    then show ?thesis using slot x(3) by (simp add: undo_view_def a_def)
  qed
  moreover have "dirty s' (change_addr c')" if "c' \<in> set cs" for c'
  proof -
    have d: "dirty s (change_addr c')" using world_okD(4) [OF w, of c'] l that by simp
    have "change_addr c' \<noteq> a" if "c = ChCreate a \<or> c = ChTouch a"
      using first that imageI [OF \<open>c' \<in> set cs\<close>, of change_addr] by (auto simp: first_change_def a_def)
    then show ?thesis
      using d x by (cases c) (auto simp: s' undo_def dirty_def put_account_def acc_defs isDirty_def a_def)
  qed
  ultimately show ?thesis
    using rest world_okD(2,3) [OF w] base same_base_cong [OF base]
    by (simp add: world_ok_def) (simp add: s' same_base_def)
qed


lemma rollback_world:
  assumes "world_ok B s" "m_changeLog s = cs @ l"
  shows "world_ok B (rollback B (length l) s) \<and> same_base s (rollback B (length l) s) \<and>
    m_changeLog (rollback B (length l) s) = l \<and>
    view B (rollback B (length l) s) = fold (undo_view B (m_storages s)) cs (view B s)"
  using assms
proof (induction cs arbitrary: s)
  case Nil
  then show ?case by (simp add: rollback.simps)
next
  case (Cons c cs)
  define s' where "s' = (undo B c s)\<lparr>m_changeLog := cs @ l\<rparr>"
  have u: "world_ok B s'" "same_base s s'" "m_changeLog s' = cs @ l" "view B s' = undo_view B (m_storages s) c (view B s)"
    using undo_world [OF Cons.prems(1) _ s'_def] Cons.prems(2) by auto
  have "rollback B (length l) s = rollback B (length l) s'"
    using Cons.prems(2) by (subst rollback.simps) (simp add: s'_def)
  then show ?case
    using Cons.IH [OF u(1,3)] u same_base_trans [OF u(2)] by (auto simp: same_base_def)
qed

subsection \<open>Advances\<close>

text \<open>
  An account as it was, or (only when \<open>clearing\<close>) with some storage values of the trie in place of values
  written since.
\<close>

definition acct_sim :: "bool \<Rightarrow> (h256 \<Rightarrow> u256 \<Rightarrow> u256) \<Rightarrow> acct \<Rightarrow> acct \<Rightarrow> bool" where
  "acct_sim clearing \<sigma> w w0 \<longleftrightarrow>
     v_alive w = v_alive w0 \<and> v_nonce w = v_nonce w0 \<and> v_balance w = v_balance w0 \<and> v_root w = v_root w0 \<and>
     v_hash w = v_hash w0 \<and> v_code w = v_code w0 \<and>
     (\<forall>k. v_storage w k = v_storage w0 k \<or> clearing \<and> v_storage w k = \<sigma> (v_root w0) k)"

definition view_sim :: "bool \<Rightarrow> (h256 \<Rightarrow> u256 \<Rightarrow> u256) \<Rightarrow> (address \<rightharpoonup> acct) \<Rightarrow> (address \<rightharpoonup> acct) \<Rightarrow> bool" where
  "view_sim clearing \<sigma> v v0 \<longleftrightarrow> (\<forall>a. rel_option (acct_sim clearing \<sigma>) (v a) (v0 a))"

lemma acct_sim_refl [simp]: "acct_sim b \<sigma> w w"
  by (simp add: acct_sim_def)

lemma view_sim_refl [simp]: "view_sim b \<sigma> v v"
  by (simp add: view_sim_def option.rel_refl)

lemma acct_sim_eq: "acct_sim b \<sigma> w w0 \<Longrightarrow> v_storage w0 = \<sigma> (v_root w0) \<or> \<not> b \<Longrightarrow> w = w0"
  by (cases w; cases w0) (auto simp: acct_sim_def)

lemma acct_sim_trans: "acct_sim b \<sigma> w w1 \<Longrightarrow> acct_sim b \<sigma> w1 w0 \<Longrightarrow> acct_sim b \<sigma> w w0"
  unfolding acct_sim_def by (intro conjI allI; (elim conjE)?) (simp, metis)+

lemma view_simD: "view_sim b \<sigma> v v0 \<Longrightarrow> rel_option (acct_sim b \<sigma>) (v a) (v0 a)"
  by (simp add: view_sim_def)

lemma view_sim_trans: "view_sim b \<sigma> v v1 \<Longrightarrow> view_sim b \<sigma> v1 v0 \<Longrightarrow> view_sim b \<sigma> v v0"
  unfolding view_sim_def
proof
  fix a assume "\<forall>a. rel_option (acct_sim b \<sigma>) (v a) (v1 a)" "\<forall>a. rel_option (acct_sim b \<sigma>) (v1 a) (v0 a)"
  then have "rel_option (acct_sim b \<sigma>) (v a) (v1 a)" "rel_option (acct_sim b \<sigma>) (v1 a) (v0 a)" by blast+
  then show "rel_option (acct_sim b \<sigma>) (v a) (v0 a)"
    by (cases "v a"; cases "v1 a"; cases "v0 a") (auto intro: acct_sim_trans)
qed

lemma view_sim_exact: "view_sim False \<sigma> v v0 \<Longrightarrow> v = v0"
proof
  fix a assume "view_sim False \<sigma> v v0"
  then have "rel_option (acct_sim False \<sigma>) (v a) (v0 a)" by (rule view_simD)
  then show "v a = v0 a" by (cases "v a"; cases "v0 a") (auto dest: acct_sim_eq)
qed

lemma undo_slot_sim:
  assumes "rel_option (acct_sim b \<sigma>) q q0"
  shows "rel_option (acct_sim b \<sigma>) (undo_slot B \<sigma> c q) (undo_slot B \<sigma> c q0)"
  using assms by (cases q; cases q0; cases c) (auto simp: acct_sim_def)

lemma undo_view_sim: "view_sim b \<sigma> v v0 \<Longrightarrow> view_sim b \<sigma> (undo_view B \<sigma> c v) (undo_view B \<sigma> c v0)"
  by (simp add: view_sim_def undo_view_def undo_slot_sim)

lemma fold_undo_sim: "view_sim b \<sigma> v v0 \<Longrightarrow> view_sim b \<sigma> (fold (undo_view B \<sigma>) cs v) (fold (undo_view B \<sigma>) cs v0)"
  by (induction cs arbitrary: v v0) (simp_all add: undo_view_sim)

lemma log_ok_sim:
  assumes "log_ok B \<sigma> base cs v0" "view_sim b \<sigma> v v0" "\<And>a w. base a = Some w \<Longrightarrow> v_storage w = \<sigma> (v_root w)"
  shows "log_ok B \<sigma> base cs v"
  using assms(1,2)
proof (induction cs arbitrary: v v0)
  case (Cons c cs)
  let ?v = "undo_view B \<sigma> c v" and ?u = "undo_view B \<sigma> c v0" and ?a = "change_addr c"
  have sim: "rel_option (acct_sim b \<sigma>) (?v a) (?u a)" for a
    using view_simD [OF undo_view_sim [OF Cons.prems(2)]] .
  have "first_change base c cs ?u" using Cons.prems(1) by simp
  moreover have "?v ?a = ?u ?a" if "base ?a = ?u ?a"
    using sim [of ?a] assms(3) [of ?a] that by (cases "?v ?a"; cases "?u ?a") (auto dest: acct_sim_eq)
  ultimately have "first_change base c cs ?v" by (auto simp: first_change_def)
  then show ?case using Cons.IH [of ?u ?v] Cons.prems undo_view_sim by simp
qed simp

text \<open>A step that keeps the invariant and whose entries of the log undo it.\<close>

definition advance :: "bool \<Rightarrow> backend \<Rightarrow> State \<Rightarrow> State \<Rightarrow> bool" where
  "advance clearing B s s' \<longleftrightarrow>
     world_ok B s' \<and> same_base s s' \<and>
     (\<exists>cs. m_changeLog s' = cs @ m_changeLog s \<and>
        view_sim clearing (m_storages s) (fold (undo_view B (m_storages s)) cs (view B s')) (view B s))"


lemma advanceD:
  assumes "advance b B s s'"
  shows "world_ok B s'" "same_base s s'" "state_ok B s'" "set (m_changeLog s) \<subseteq> set (m_changeLog s')"
  using assms by (auto simp: advance_def dest: world_okD(1))

lemma quiet_world: "world_ok B s \<Longrightarrow> quiet B s s' \<Longrightarrow> world_ok B s'"
  using same_base_cong(2) [of s s' B] by (auto simp: world_ok_def quiet_def same_base_def)

lemma quiet_advance: "world_ok B s \<Longrightarrow> quiet B s s' \<Longrightarrow> advance b B s s'"
  using quiet_world [of B s s'] by (auto simp: advance_def quiet_def)

lemma advance_refl: "world_ok B s \<Longrightarrow> advance b B s s"
  by (simp add: advance_def)

lemma advance_trans:
  assumes "advance b B s s1" "advance b B s1 s2"
  shows "advance b B s s2"
proof -
  let ?\<sigma> = "m_storages s"
  have base: "same_base s s1" "same_base s1 s2" using assms by (auto simp: advance_def)
  obtain cs where cs: "m_changeLog s1 = cs @ m_changeLog s" "view_sim b ?\<sigma> (fold (undo_view B ?\<sigma>) cs (view B s1)) (view B s)"
    using assms(1) by (auto simp: advance_def)
  obtain ds where ds: "m_changeLog s2 = ds @ m_changeLog s1" "view_sim b ?\<sigma> (fold (undo_view B ?\<sigma>) ds (view B s2)) (view B s1)"
    using assms(2) base by (auto simp: advance_def same_base_def)
  have "view_sim b ?\<sigma> (fold (undo_view B ?\<sigma>) (ds @ cs) (view B s2)) (view B s)"
    using view_sim_trans [OF fold_undo_sim [OF ds(2)] cs(2)] by simp
  then show ?thesis
    using assms(2) same_base_trans [OF base] cs(1) ds(1) unfolding advance_def by fastforce
qed

lemma advance_weaken: "advance False B s s' \<Longrightarrow> advance b B s s'"
  unfolding advance_def using view_sim_exact by (metis view_sim_refl)

text \<open>Rolling back to the state before an advance.\<close>

lemma advance_rollback:
  assumes "advance b B s s'"
  shows "advance b B s (rollback B (savepoint s) s')" "m_changeLog (rollback B (savepoint s) s') = m_changeLog s"
    "view_sim b (m_storages s) (view B (rollback B (savepoint s) s')) (view B s)"
proof -
  obtain cs where cs: "m_changeLog s' = cs @ m_changeLog s"
      "view_sim b (m_storages s) (fold (undo_view B (m_storages s)) cs (view B s')) (view B s)"
    using assms by (auto simp: advance_def)
  have base: "same_base s s'" using assms by (simp add: advance_def)
  note r = rollback_world [OF advanceD(1) [OF assms] cs(1)]
  show 1: "view_sim b (m_storages s) (view B (rollback B (savepoint s) s')) (view B s)"
    using r cs(2) base by (simp add: savepoint_def same_base_def)
  show 2: "m_changeLog (rollback B (savepoint s) s') = m_changeLog s" using r by (simp add: savepoint_def)
  show "advance b B s (rollback B (savepoint s) s')"
    using 1 2 r same_base_trans [OF base] by (simp add: advance_def savepoint_def)
qed

subsection \<open>Writers\<close>

lemma log_ok_append:
  assumes "log_ok B \<sigma> base cs v" "log_ok B \<sigma> base l (fold (undo_view B \<sigma>) cs v)"
    and "\<And>c a. c \<in> set cs \<Longrightarrow> c = ChCreate a \<or> c = ChTouch a \<Longrightarrow> a \<notin> change_addr ` set l"
  shows "log_ok B \<sigma> base (cs @ l) v"
  using assms
proof (induction cs arbitrary: v)
  case (Cons c cs)
  have "first_change base c (cs @ l) (undo_view B \<sigma> c v)"
    using Cons.prems(1) Cons.prems(3) [of c "change_addr c"] by (auto simp: first_change_def)
  moreover have "log_ok B \<sigma> base (cs @ l) (undo_view B \<sigma> c v)"
    using Cons.prems(1,2) Cons.prems(3) by (intro Cons.IH) auto
  ultimately show ?case by simp
qed simp

lemma stored_storage: "stored B s a = Some w \<Longrightarrow> v_storage w = m_storages s (v_root w)"
  by (auto simp: stored_def loaded_account_def dead_account_def overlaid_def split: prod.splits)

text \<open>Writing one account and logging how to undo it.\<close>

lemma advance_put:
  assumes w: "world_ok B s" and base: "same_base s s'" and c: "m_cache s' = (m_cache s)(a \<mapsto> y)"
    and non: "m_nonExistingAccountsCache s' \<subseteq> m_nonExistingAccountsCache s - {a}"
    and log: "m_changeLog s' = cs @ m_changeLog s" "\<forall>c \<in> set cs. change_addr c = a"
    and y: "isDirty y" "code_held B s y" "m_codeHash y = b_sha3 B (code_of B s y)"
    and first: "dirty s a \<longrightarrow> ChCreate a \<notin> set cs \<and> ChTouch a \<notin> set cs"
      "log_ok B (m_storages s) (stored B s) cs ((view B s)(a \<mapsto> contents B s y))"
    and undo: "view_sim b (m_storages s) (fold (undo_view B (m_storages s)) cs ((view B s)(a \<mapsto> contents B s y))) (view B s)"
  shows "advance b B s s' \<and> view B s' = (view B s)(a \<mapsto> contents B s y) \<and> dirty s' a"
proof -
  let ?\<sigma> = "m_storages s"
  have s': "state_ok B s'" and v: "view B s' = (view B s)(a \<mapsto> contents B s y)"
    using state_ok_put [OF world_okD(1) [OF w] base c non] y by auto
  have d: "dirty s' a" and mono: "dirty s e \<Longrightarrow> dirty s' e" for e using c y(1) by (auto simp: dirty_def)
  have "log_ok B ?\<sigma> (stored B s) (cs @ m_changeLog s) (view B s')"
  proof (rule log_ok_append)
    show "log_ok B ?\<sigma> (stored B s) (m_changeLog s) (fold (undo_view B ?\<sigma>) cs (view B s'))"
      using log_ok_sim [OF world_okD(5) [OF w], of b] undo v stored_storage by simp
    show "e \<notin> change_addr ` set (m_changeLog s)" if "c \<in> set cs" "c = ChCreate e \<or> c = ChTouch e" for c e
      using that log(2) first(1) world_okD(4) [OF w] by fastforce
  qed (use first(2) v in simp)
  then have "world_ok B s'"
    using s' d mono world_okD(2-4) [OF w] log base same_base_cong(2) [OF base, of B]
    by (auto simp: world_ok_def same_base_def)
  then show ?thesis using base log(1) undo v d by (auto simp: advance_def)
qed


lemma foundD:
  assumes "found B a s r s'"
  shows "quiet B s s'" "state_ok B s'" "view B s' = view B s" "m_cache s' a = r" "view B s' a = map_option (contents B s') r"
    "same_base s s'" "m_changeLog s' = m_changeLog s"
  using assms by (auto simp: found_def quiet_def)

lemma account_cases:
  assumes "world_ok B s"
  obtains r s1 where "account B a s = (r, s1)" "found B a s r s1" "world_ok B s1" "advance b B s s1"
proof -
  obtain r s1 where r: "account B a s = (r, s1)" by fastforce
  then have "found B a s r s1" using account_found [OF world_okD(1) [OF assms], of a] by simp
  then show thesis using that [OF r] quiet_world [OF assms] quiet_advance [OF assms] foundD(1) by blast
qed

lemma view_cases: "view B s a = map_option (contents B s) r \<Longrightarrow> (view B s a = None \<and> r = None) \<or>
    (\<exists>x. r = Some x \<and> view B s a = Some (contents B s x))"
  by (cases r) auto

lemma entry_ok:
  assumes "state_ok B s" "m_cache s a = Some x"
  shows "code_held B s x" "m_codeHash x = b_sha3 B (code_of B s x)"
    "a \<notin> m_nonExistingAccountsCache s" "view B s a = Some (contents B s x)"
proof -
  show "view B s a = Some (contents B s x)" using assms(2) by (simp add: view_def)
  then show "m_codeHash x = b_sha3 B (code_of B s x)" using state_okD(5) [OF assms(1)] by fastforce
  show "code_held B s x" "a \<notin> m_nonExistingAccountsCache s"
    using state_okD(2) [OF assms] state_okD(4) [OF assms(1), of a] assms(2) by auto
qed

text \<open>A new account, on an address where there was none.\<close>

definition new_acct :: "backend \<Rightarrow> State \<Rightarrow> u256 \<Rightarrow> u256 \<Rightarrow> acct" where
  "new_acct B s n b = contents B s (new_account B n b)"

lemma new_acct_simps [simp]:
  "v_alive (new_acct B s n b)" "v_nonce (new_acct B s n b) = n" "v_balance (new_acct B s n b) = b"
  "v_root (new_acct B s n b) = EmptyTrie B" "v_storage (new_acct B s n b) = m_storages s (EmptyTrie B)"
  "v_hash (new_acct B s n b) = EmptySHA3 B" "v_code (new_acct B s n b) = []"
  by (simp_all add: new_acct_def new_account_def dead_account_def code_of_def overlaid_def fun_eq_iff)

lemma createAccount_advance:
  assumes w: "world_ok B s" and none: "m_cache s a = None" "view B s a = None"
  shows "advance b B s (createAccount a (new_account B n x) s) \<and>
    view B (createAccount a (new_account B n x) s) = (view B s)(a \<mapsto> new_acct B s n x) \<and>
    dirty (createAccount a (new_account B n x) s) a"
  unfolding new_acct_def
proof (rule advance_put [OF w, where cs = "[ChCreate a]"])
  show "log_ok B (m_storages s) (stored B s) [ChCreate a] ((view B s)(a \<mapsto> contents B s (new_account B n x)))"
    using none by (simp add: first_change_def undo_view_def) (simp add: view_def)
  show "view_sim b (m_storages s) (fold (undo_view B (m_storages s)) [ChCreate a]
      ((view B s)(a \<mapsto> contents B s (new_account B n x)))) (view B s)"
    using none by (simp add: undo_view_def fun_upd_idem)
qed (use none in \<open>auto simp: createAccount_def log_change_def same_base_def new_account_def dead_account_def isDirty_def
    code_held_def code_of_def EmptySHA3_def dirty_def\<close>)

definition or_new :: "backend \<Rightarrow> State \<Rightarrow> u256 \<Rightarrow> u256 \<Rightarrow> (acct \<Rightarrow> acct) \<Rightarrow> acct option \<Rightarrow> acct" where
  "or_new B s n b f q = (case q of Some w \<Rightarrow> f w | None \<Rightarrow> new_acct B s n b)"


definition wrote :: "bool \<Rightarrow> backend \<Rightarrow> State \<Rightarrow> State \<Rightarrow> address \<Rightarrow> acct \<Rightarrow> bool" where
  "wrote b B s s' a w \<longleftrightarrow> advance b B s s' \<and> view B s' = (view B s)(a \<mapsto> w) \<and> dirty s' a"

lemma wrote_after:
  assumes "advance b B s s1" "view B s1 = view B s" "wrote b B s1 s' a w"
  shows "wrote b B s s' a w"
  using assms advance_trans unfolding wrote_def by metis

lemma new_acct_base: "same_base s s' \<Longrightarrow> new_acct B s' = new_acct B s"
  by (intro ext) (simp add: new_acct_def same_base_cong)

text \<open>Writers that change an account in the cache and log one change.\<close>

lemma put_wrote:
  assumes w: "world_ok B s" and x: "m_cache s a = Some x"
    and c: "change_addr c = a" "c \<noteq> ChCreate a" "c \<noteq> ChTouch a"
    and y: "isDirty y" "code_held B s y" "m_codeHash y = b_sha3 B (code_of B s y)"
    and undo: "rel_option (acct_sim b (m_storages s)) (undo_slot B (m_storages s) c (Some (contents B s y))) (Some (contents B s x))"
  shows "wrote b B s (log_change c (put_account a y s)) a (contents B s y)"
  unfolding wrote_def
proof (rule advance_put [OF w, where cs = "[c]"])
  note e = entry_ok [OF world_okD(1) [OF w] x]
  show "log_ok B (m_storages s) (stored B s) [c] ((view B s)(a \<mapsto> contents B s y))"
    using c by (simp add: first_change_def)
  have "view_sim b (m_storages s) ((view B s)(a := undo_slot B (m_storages s) c (Some (contents B s y)))) (view B s)"
    using undo e(4) by (simp add: view_sim_def option.rel_refl)
  then show "view_sim b (m_storages s) (fold (undo_view B (m_storages s)) [c] ((view B s)(a \<mapsto> contents B s y))) (view B s)"
    using c(1) by (simp add: undo_view_def)
  show "m_nonExistingAccountsCache (log_change c (put_account a y s)) \<subseteq> m_nonExistingAccountsCache s - {a}"
    using e(3) by (auto simp: log_change_def put_account_def)
qed (use c y in \<open>auto simp: log_change_def put_account_def same_base_def\<close>)

lemma write_or_create:
  assumes w: "world_ok B s"
    and op: "\<And>r s1. account B a s = (r, s1) \<Longrightarrow> op = (case r of Some x \<Rightarrow> upd x s1 | None \<Rightarrow> new s1)"
    and upd: "\<And>x s1. world_ok B s1 \<Longrightarrow> m_cache s1 a = Some x \<Longrightarrow> wrote b B s1 (upd x s1) a (f (contents B s1 x))"
    and new: "\<And>s1. world_ok B s1 \<Longrightarrow> m_cache s1 a = None \<Longrightarrow> view B s1 a = None \<Longrightarrow> same_base s s1 \<Longrightarrow>
      wrote b B s1 (new s1) a (new_acct B s1 n m)"
  shows "wrote b B s op a (or_new B s n m f (view B s a))"
proof -
  obtain r s1 where r: "account B a s = (r, s1)" "found B a s r s1" "world_ok B s1" "advance b B s s1"
    using account_cases [OF w] .
  note fd = foundD [OF r(2)]
  show ?thesis
  proof (cases r)
    case None
    then have "wrote b B s1 op a (new_acct B s n m)"
      using new [OF r(3)] op [OF r(1)] fd new_acct_base [OF fd(6)] by simp
    then show ?thesis using wrote_after [OF r(4) fd(3)] fd(3,5) None by (simp add: or_new_def)
  next
    case (Some x)
    then show ?thesis
      using wrote_after [OF r(4) fd(3)] fd(3,5) upd [OF r(3), of x] fd(4) op [OF r(1)] by (simp add: or_new_def)
  qed
qed

lemma setNonce_wrote:
  assumes w: "world_ok B s"
  shows "wrote b B s (setNonce B a n s) a (or_new B s n 0 (\<lambda>w. w\<lparr>v_nonce := n\<rparr>) (view B s a))"
proof (rule write_or_create [OF w])
  show "setNonce B a n s =
      (case r of Some x \<Rightarrow> log_change (ChNonce a (m_nonce x)) (put_account a (acc_setNonce n x) s1)
       | None \<Rightarrow> createAccount a (new_account B n 0) s1)" if "account B a s = (r, s1)" for r s1
    using that by (simp add: setNonce_def)
  fix x s1 assume x: "world_ok B s1" "m_cache s1 a = Some x"
  show "wrote b B s1 (log_change (ChNonce a (m_nonce x)) (put_account a (acc_setNonce n x) s1)) a
      ((contents B s1 x)\<lparr>v_nonce := n\<rparr>)"
    using put_wrote [OF x, of "ChNonce a (m_nonce x)" "acc_setNonce n x" b] entry_ok [OF world_okD(1) [OF x(1)] x(2)]
    by (simp add: acc_defs isDirty_def contents_def)
qed (use createAccount_advance in \<open>simp add: wrote_def\<close>)

lemma start_nonce: "world_ok B s \<Longrightarrow> same_base s s1 \<Longrightarrow> requireAccountStartNonce s1 = Inr (m_accountStartNonce s)"
  using world_okD(3) [of B s] by (simp add: requireAccountStartNonce_def same_base_def)

lemma incNonce_wrote:
  assumes w: "world_ok B s"
  shows "\<exists>s'. incNonce B a s = Inr s' \<and>
    wrote b B s s' a (or_new B s (m_accountStartNonce s + 1) 0 (\<lambda>w. w\<lparr>v_nonce := v_nonce w + 1\<rparr>) (view B s a))"
proof -
  let ?n = "m_accountStartNonce s + 1"
  define upd where "upd x s1 = log_change (ChNonce a (m_nonce x)) (put_account a (acc_incNonce x) s1)" for x s1
  define op where "op = (let (r, s1) = account B a s in
      case r of Some x \<Rightarrow> upd x s1 | None \<Rightarrow> createAccount a (new_account B ?n 0) s1)"
  have "incNonce B a s = Inr op"
    using account_found [OF world_okD(1) [OF w], of a] start_nonce [OF w]
    by (auto simp: incNonce_def op_def upd_def found_def quiet_def split: option.split prod.split)
  moreover have "wrote b B s op a (or_new B s ?n 0 (\<lambda>w. w\<lparr>v_nonce := v_nonce w + 1\<rparr>) (view B s a))"
  proof (rule write_or_create [OF w])
    show "op = (case r of Some x \<Rightarrow> upd x s1 | None \<Rightarrow> createAccount a (new_account B ?n 0) s1)"
      if "account B a s = (r, s1)" for r s1 using that by (simp add: op_def)
    fix x s1 assume x: "world_ok B s1" "m_cache s1 a = Some x"
    show "wrote b B s1 (upd x s1) a ((contents B s1 x)\<lparr>v_nonce := v_nonce (contents B s1 x) + 1\<rparr>)"
      using put_wrote [OF x, of "ChNonce a (m_nonce x)" "acc_incNonce x" b] entry_ok [OF world_okD(1) [OF x(1)] x(2)]
      by (simp add: upd_def acc_defs isDirty_def contents_def)
  qed (use createAccount_advance in \<open>simp add: wrote_def\<close>)
  ultimately show ?thesis by blast
qed

definition balance_log :: "address \<Rightarrow> u256 \<Rightarrow> State \<Rightarrow> State" where
  "balance_log a amount s = (if amount \<noteq> 0 then log_change (ChBalance a amount) s else s)"

lemma addBalance_upd:
  assumes w: "world_ok B s" and x: "m_cache s a = Some x"
  shows "wrote b B s (balance_log a amount (put_account a (acc_addBalance amount x)
      (if \<not> isDirty x \<and> acc_isEmpty B x then log_change (ChTouch a) s else s))) a
    ((contents B s x)\<lparr>v_balance := v_balance (contents B s x) + amount\<rparr>)"
    (is "wrote b B s ?s a ?w")
proof -
  note ok = world_okD(1) [OF w]
  note e = entry_ok [OF ok x]
  define cs where "cs = (if amount \<noteq> 0 then [ChBalance a amount] else []) @
    (if \<not> isDirty x \<and> acc_isEmpty B x then [ChTouch a] else [])"
  have c: "contents B s (acc_addBalance amount x) = ?w" by (simp add: contents_def acc_defs)
  have u: "undo_view B (m_storages s) (ChBalance a amount) ((view B s)(a \<mapsto> ?w)) = view B s"
    using e(4) by (simp add: undo_view_def fun_upd_idem)
  have 0: "(view B s)(a \<mapsto> ?w) = view B s" if "amount = 0" using that e(4) by (simp add: fun_upd_idem)
  have t: "undo_view B (m_storages s) (ChTouch a) v = v" for v by (simp add: undo_view_def)
  show ?thesis
    unfolding wrote_def c [symmetric]
  proof (rule advance_put [OF w, where cs = cs])
    show "log_ok B (m_storages s) (stored B s) cs ((view B s)(a \<mapsto> contents B s (acc_addBalance amount x)))"
      unfolding c using u 0 t state_okD(1) [OF ok x] e(4) by (auto simp: cs_def first_change_def)
    show "view_sim b (m_storages s) (fold (undo_view B (m_storages s)) cs
        ((view B s)(a \<mapsto> contents B s (acc_addBalance amount x)))) (view B s)"
      unfolding c using u 0 t by (simp add: cs_def)
    show "dirty s a \<longrightarrow> ChCreate a \<notin> set cs \<and> ChTouch a \<notin> set cs"
      using x by (auto simp: cs_def dirty_def)
  qed (use e x in \<open>auto simp: cs_def balance_log_def put_account_def log_change_def same_base_def acc_defs isDirty_def\<close>)
qed

lemma addBalance_new:
  assumes w: "world_ok B s" and none: "m_cache s a = None" "view B s a = None"
  shows "wrote b B s (balance_log a amount (createAccount a (new_account B n amount) s)) a (new_acct B s n amount)"
  unfolding wrote_def new_acct_def
proof (rule advance_put [OF w, where cs = "(if amount \<noteq> 0 then [ChBalance a amount] else []) @ [ChCreate a]"])
  have s: "stored B s a = None" using none by (simp add: view_def)
  show "log_ok B (m_storages s) (stored B s) ((if amount \<noteq> 0 then [ChBalance a amount] else []) @ [ChCreate a])
      ((view B s)(a \<mapsto> contents B s (new_account B n amount)))"
    using s by (simp add: first_change_def undo_view_def)
  show "view_sim b (m_storages s) (fold (undo_view B (m_storages s)) ((if amount \<noteq> 0 then [ChBalance a amount] else []) @ [ChCreate a])
      ((view B s)(a \<mapsto> contents B s (new_account B n amount)))) (view B s)"
    using none by (simp add: undo_view_def fun_upd_idem)
qed (use none in \<open>auto simp: balance_log_def createAccount_def log_change_def same_base_def new_account_def dead_account_def isDirty_def
    code_held_def code_of_def EmptySHA3_def dirty_def\<close>)


lemma addBalance_wrote:
  assumes w: "world_ok B s"
  shows "\<exists>s'. addBalance B a amount s = Inr s' \<and>
    wrote b B s s' a (or_new B s (m_accountStartNonce s) amount (\<lambda>w. w\<lparr>v_balance := v_balance w + amount\<rparr>) (view B s a))"
proof -
  let ?n = "m_accountStartNonce s"
  define upd where "upd x s1 = balance_log a amount (put_account a (acc_addBalance amount x)
      (if \<not> isDirty x \<and> acc_isEmpty B x then log_change (ChTouch a) s1 else s1))" for x s1
  define op where "op = (let (r, s1) = account B a s in
      case r of Some x \<Rightarrow> upd x s1 | None \<Rightarrow> balance_log a amount (createAccount a (new_account B ?n amount) s1))"
  have "addBalance B a amount s = Inr op"
    using account_found [OF world_okD(1) [OF w], of a] start_nonce [OF w]
    by (auto simp: addBalance_def op_def upd_def balance_log_def found_def quiet_def split: option.split prod.split)
  moreover have "wrote b B s op a (or_new B s ?n amount (\<lambda>w. w\<lparr>v_balance := v_balance w + amount\<rparr>) (view B s a))"
  proof (rule write_or_create [OF w])
    show "op = (case r of Some x \<Rightarrow> upd x s1 | None \<Rightarrow> balance_log a amount (createAccount a (new_account B ?n amount) s1))"
      if "account B a s = (r, s1)" for r s1 using that by (simp add: op_def)
  qed (use addBalance_upd addBalance_new in \<open>auto simp: upd_def\<close>)
  ultimately show ?thesis by blast
qed

definition bal :: "(address \<rightharpoonup> acct) \<Rightarrow> address \<Rightarrow> u256" where
  "bal v a = (case v a of Some w \<Rightarrow> v_balance w | None \<Rightarrow> 0)"

definition debit :: "address \<Rightarrow> u256 \<Rightarrow> (address \<rightharpoonup> acct) \<Rightarrow> (address \<rightharpoonup> acct)" where
  "debit a x v = v(a := map_option (\<lambda>w. w\<lparr>v_balance := v_balance w - x\<rparr>) (v a))"

definition credit :: "backend \<Rightarrow> State \<Rightarrow> address \<Rightarrow> u256 \<Rightarrow> (address \<rightharpoonup> acct) \<Rightarrow> (address \<rightharpoonup> acct)" where
  "credit B s a x v = v(a \<mapsto> or_new B s (m_accountStartNonce s) x (\<lambda>w. w\<lparr>v_balance := v_balance w + x\<rparr>) (v a))"

lemma addBalance_spec:
  assumes "world_ok B s"
  shows "\<exists>s'. addBalance B a x s = Inr s' \<and> advance b B s s' \<and> view B s' = credit B s a x (view B s) \<and> dirty s' a"
  using addBalance_wrote [OF assms, of a x b] by (auto simp: wrote_def credit_def)

lemma debit_0: "debit a 0 v = v"
  by (cases "v a") (simp_all add: debit_def fun_upd_idem)

lemma subBalance_spec:
  assumes w: "world_ok B s"
  shows "if bal (view B s) a < x then subBalance B a x s = Inl NotEnoughCash
    else \<exists>s'. subBalance B a x s = Inr s' \<and> advance b B s s' \<and> view B s' = debit a x (view B s)"
proof (cases "x = 0")
  case True
  then show ?thesis using advance_refl [OF w] by (simp add: subBalance_def debit_0)
next
  case x: False
  obtain r s1 where r: "account B a s = (r, s1)" "found B a s r s1" "world_ok B s1" "advance b B s s1"
    using account_cases [OF w] .
  note f = foundD [OF r(2)]
  show ?thesis
  proof (cases r)
    case None
    then have "bal (view B s) a < x" using f(3,5) x by (simp add: bal_def word_neq_0_conv)
    then show ?thesis using None r(1) x by (simp add: subBalance_def)
  next
    case (Some y)
    then have v: "view B s a = Some (contents B s1 y)" using f(3,5) by simp
    obtain s' where s': "addBalance B a (0 - x) s1 = Inr s'" "advance b B s1 s'" "view B s' = credit B s1 a (0 - x) (view B s1)"
      using addBalance_spec [OF r(3)] by blast
    have "credit B s1 a (0 - x) (view B s1) = debit a x (view B s)"
      using v f(3) by (simp add: credit_def debit_def or_new_def)
    then show ?thesis
      using r(1,4) Some x s' v advance_trans by (auto simp: subBalance_def bal_def)
  qed
qed

lemma transferBalance_spec:
  assumes w: "world_ok B s"
  shows "if bal (view B s) src < x then transferBalance B src dst x s = Inl NotEnoughCash
    else \<exists>s'. transferBalance B src dst x s = Inr s' \<and> advance b B s s' \<and>
      view B s' = credit B s dst x (debit src x (view B s)) \<and> dirty s' dst"
proof (cases "bal (view B s) src < x")
  case True
  then show ?thesis using subBalance_spec [OF w, of src x] by (simp add: transferBalance_def)
next
  case False
  then obtain s1 where s1: "subBalance B src x s = Inr s1" "advance b B s s1" "view B s1 = debit src x (view B s)"
    using subBalance_spec [OF w, of src x b] by auto
  obtain s' where s': "addBalance B dst x s1 = Inr s'" "advance b B s1 s'" "view B s' = credit B s1 dst x (view B s1)" "dirty s' dst"
    using addBalance_spec [OF advanceD(1) [OF s1(2)]] by blast
  moreover have "credit B s1 = credit B s"
    using advanceD(2) [OF s1(2)] new_acct_base [OF advanceD(2) [OF s1(2)], of B]
    by (intro ext) (simp add: credit_def or_new_def same_base_def split: option.split)
  ultimately show ?thesis using False s1 advance_trans [OF s1(2)] by (simp add: transferBalance_def)
qed

lemma setBalance_spec:
  assumes w: "world_ok B s"
  shows "\<exists>s'. setBalance B a x s = Inr s' \<and> advance b B s s' \<and>
    view B s' = credit B s a (x - bal (view B s) a) (view B s)"
proof -
  obtain r s1 where r: "account B a s = (r, s1)" "found B a s r s1" "world_ok B s1" "advance b B s s1"
    using account_cases [OF w] .
  note f = foundD [OF r(2)]
  have o: "(case r of Some y \<Rightarrow> m_balance y | None \<Rightarrow> 0) = bal (view B s) a"
    using f(3,5) by (cases r) (auto simp: bal_def)
  have "credit B s1 = credit B s"
    using f(6) new_acct_base [OF f(6), of B] by (intro ext) (simp add: credit_def or_new_def same_base_def split: option.split)
  then show ?thesis
    using addBalance_spec [OF r(3), of a "x - bal (view B s) a" b] r(1) o advance_trans [OF r(4)] f(3)
    by (auto simp: setBalance_def)
qed

lemma setStorage_wrote:
  assumes w: "world_ok B s" and a: "view B s a = Some v"
  shows "wrote b B s (setStorage B a k x s) a (v\<lparr>v_storage := (v_storage v)(k := x)\<rparr>)"
proof -
  note ok = world_okD(1) [OF w]
  define s1 old where "s1 = snd (state_storage B a k s)" and "old = fst (state_storage B a k s)"
  have old: "old = v_storage v k" and q: "quiet B s s1"
    using state_storage.reads [OF ok, of a k] state_storage.quiet_get [OF ok, of a k] a by (auto simp: s1_def old_def)
  have "m_cache s1 a \<noteq> None"
    using account_found [OF ok, of a] a
    by (auto simp: s1_def state_storage_def found_def put_account_def Let_def split: prod.split option.split)
  then obtain y where y: "m_cache s1 a = Some y" by blast
  note w1 = quiet_world [OF w q] and e = entry_ok [OF quietD(1) [OF q] y]
  have v: "v = contents B s1 y" using e(4) a quietD(2) [OF q] by simp
  have "setStorage B a k x s = log_change (ChStorage a k old) (put_account a (acc_setStorage k x y) s1)"
    using y by (simp add: setStorage_def Let_def s1_def old_def split_beta log_change_def put_account_def cache_at_def)
  moreover have "wrote b B s1 (log_change (ChStorage a k old) (put_account a (acc_setStorage k x y) s1)) a
      (contents B s1 (acc_setStorage k x y))"
    using e old v by (intro put_wrote [OF w1 y]) (simp_all add: acc_defs isDirty_def contents_def)
  moreover have "contents B s1 (acc_setStorage k x y) = v\<lparr>v_storage := (v_storage v)(k := x)\<rparr>"
    by (simp add: v contents_def acc_defs)
  ultimately show ?thesis
    using wrote_after [OF quiet_advance [OF w q] quietD(2) [OF q]] by simp
qed

lemma setCode_wrote:
  assumes w: "world_ok B s" and a: "view B s a = Some v" "dirty s a"
  shows "wrote b B s (setCode B a c s) a (v\<lparr>v_hash := b_sha3 B c, v_code := c\<rparr>)"
proof -
  note ok = world_okD(1) [OF w]
  define s1 old where "s1 = snd (state_code B a s)" and "old = fst (state_code B a s)"
  have old: "old = v_code v" and q: "quiet B s s1"
    using state_code.reads [OF ok, of a] state_code.quiet_get [OF ok, of a] a by (auto simp: s1_def old_def)
  obtain y where y: "m_cache s1 a = Some y" "isDirty y" using a(2) quietD(5) [OF q] by (metis dirty_def)
  note w1 = quiet_world [OF w q] and e = entry_ok [OF quietD(1) [OF q] y(1)]
  have v: "v = contents B s1 y" using e(4) a quietD(2) [OF q] by simp
  have c: "contents B s1 (acc_setCode B c y) = v\<lparr>v_hash := b_sha3 B c, v_code := c\<rparr>"
    using world_okD(2) [OF w, of c] by (auto simp: v contents_def acc_defs code_of_def EmptySHA3_def)
  have "setCode B a c s = log_change (ChCode a old) (put_account a (acc_setCode B c y) s1)"
    using y by (simp add: setCode_def Let_def s1_def old_def split_beta log_change_def put_account_def cache_at_def)
  moreover have "wrote b B s1 (log_change (ChCode a old) (put_account a (acc_setCode B c y) s1)) a
      (contents B s1 (acc_setCode B c y))"
  proof (rule put_wrote [OF w1 y(1)])
    have "v\<lparr>v_hash := b_sha3 B old, v_code := old\<rparr> = v" using old e(2) by (simp add: v contents_def)
    then show "rel_option (acct_sim b (m_storages s1)) (undo_slot B (m_storages s1) (ChCode a old) (Some (contents B s1 (acc_setCode B c y))))
        (Some (contents B s1 y))"
      unfolding c v [symmetric] by simp
  qed (use world_okD(2) [OF w, of c] y(2) in \<open>auto simp: acc_defs isDirty_def code_held_def code_of_def EmptySHA3_def\<close>)
  ultimately show ?thesis
    using c wrote_after [OF quiet_advance [OF w q] quietD(2) [OF q]] by simp
qed

lemma clearStorage_wrote:
  assumes w: "world_ok B s" and a: "view B s a = Some v" "dirty s a"
  shows "if v_root v = EmptyTrie B then clearStorage B a s = s
    else wrote True B s (clearStorage B a s) a (v\<lparr>v_root := EmptyTrie B, v_storage := m_storages s (EmptyTrie B)\<rparr>)"
proof -
  obtain y where y: "m_cache s a = Some y" "isDirty y" using a(2) by (auto simp: dirty_def)
  note e = entry_ok [OF world_okD(1) [OF w] y(1)]
  have v: "v = contents B s y" using e(4) a by simp
  have id: "put_account a y s = s" using y by (simp add: put_account_def fun_upd_idem)
  have "wrote True B s (log_change (ChStorageRoot a (m_storageRoot y)) (put_account a (acc_clearStorage B y) s)) a
      (contents B s (acc_clearStorage B y))"
    using e by (intro put_wrote [OF w y(1)]) (auto simp: acc_defs isDirty_def acct_sim_def)
  moreover have "contents B s (acc_clearStorage B y) = v\<lparr>v_root := EmptyTrie B, v_storage := m_storages s (EmptyTrie B)\<rparr>"
    by (simp add: v contents_def acc_defs)
  moreover have "clearStorage B a s = (if m_storageRoot y = EmptyTrie B then s
      else log_change (ChStorageRoot a (m_storageRoot y)) (put_account a (acc_clearStorage B y) s))"
    using y(1) id by (simp add: clearStorage_def cache_at_def Let_def) (simp add: log_change_def put_account_def cache_at_def)
  ultimately show ?thesis by (simp add: v)
qed

end
