(* ===== verification/World_Commit.thy ===== *)
theory World_Commit
  imports World_Log
begin

section \<open>Committing\<close>

text \<open>
  \<open>commit\<close> writes the changed accounts to the tries and the database and empties the caches; afterwards the
  tries hold what the state showed before. The roots in use are those of the storages under them (\<open>db_ok\<close>), and
  among the storages and the codes of this state no two have the same root or hash (\<open>collision_free\<close>).
\<close>

definition roots_in :: "backend \<Rightarrow> State \<Rightarrow> h256 set" where
  "roots_in B s = {m_storageRoot x |a x. m_cache s a = Some x} \<union> {v_root w |a w. stored B s a = Some w} \<union> {EmptyTrie B}"

definition storages_in :: "backend \<Rightarrow> State \<Rightarrow> (u256 \<Rightarrow> u256) set" where
  "storages_in B s = m_storages s ` roots_in B s \<union> {overlaid s x |a x. m_cache s a = Some x}"

definition collision_free :: "backend \<Rightarrow> State \<Rightarrow> bool" where
  "collision_free B s \<longleftrightarrow> inj_on (b_root B) (storages_in B s) \<and> inj_on (b_sha3 B) (codes_of B s)"

definition db_ok :: "backend \<Rightarrow> State \<Rightarrow> bool" where
  "db_ok B s \<longleftrightarrow> (\<forall>r \<in> roots_in B s. b_root B (m_storages s r) = r)"

lemma in_use:
  "m_cache s a = Some x \<Longrightarrow> m_storageRoot x \<in> roots_in B s" "m_cache s a = Some x \<Longrightarrow> overlaid s x \<in> storages_in B s"
  "stored B s a = Some w \<Longrightarrow> v_root w \<in> roots_in B s" "r \<in> roots_in B s \<Longrightarrow> m_storages s r \<in> storages_in B s"
  "m_cache s a = Some x \<Longrightarrow> code_of B s x \<in> codes_of B s"
proof -
  show "m_cache s a = Some x \<Longrightarrow> code_of B s x \<in> codes_of B s"
    unfolding codes_of_def by (rule CollectI, rule exI [of _ a], rule exI [of _ "contents B s x"]) (simp add: view_def)
  show "r \<in> roots_in B s \<Longrightarrow> m_storages s r \<in> storages_in B s" by (simp add: storages_in_def)
qed (auto simp: roots_in_def storages_in_def)

text \<open>What \<open>commit_account\<close> stores for an account of the cache.\<close>

definition written :: "backend \<Rightarrow> State \<Rightarrow> address \<Rightarrow> Account \<Rightarrow> (u256 \<times> u256 \<times> h256 \<times> h256) option" where
  "written B s a x =
     (if \<not> isDirty x then m_state s a
      else if \<not> m_isAlive x then None
      else Some (m_nonce x, m_balance x, committed_root B s x, m_codeHash x))"

abbreviation commits :: "backend \<Rightarrow> State \<Rightarrow> address list \<Rightarrow> State" where
  "commits B s l \<equiv> fold (\<lambda>a. commit_account B (a, cache_at B a s)) l s"

lemma committed_root_root:
  assumes "b_root B (m_storages s (m_storageRoot x)) = m_storageRoot x"
  shows "committed_root B s x = b_root B (overlaid s x)"
proof (cases "m_storageOverlay x = Map.empty")
  case True
  then have "overlaid s x = m_storages s (m_storageRoot x)" by (intro ext) (simp add: overlaid_def)
  then show ?thesis using True assms by (simp add: committed_root_def)
qed (simp add: committed_root_def)

text \<open>The state of the database after a part of the loop.\<close>

definition committing :: "backend \<Rightarrow> State \<Rightarrow> address list \<Rightarrow> State \<Rightarrow> bool" where
  "committing B s l t \<longleftrightarrow>
     m_cache t = m_cache s \<and> m_accountStartNonce t = m_accountStartNonce s \<and>
     m_nonExistingAccountsCache t = m_nonExistingAccountsCache s \<and>
     (\<forall>a. m_state t a = (if a \<in> set l then written B s a (cache_at B a s) else m_state s a)) \<and>
     (\<forall>r \<in> roots_in B s. m_storages t r = m_storages s r) \<and>
     (\<forall>h. b_sha3 B (m_codes s h) = h \<longrightarrow> m_codes s h \<in> codes_of B s \<longrightarrow> m_codes t h = m_codes s h) \<and>
     (\<forall>a \<in> set l. let x = cache_at B a s in isDirty x \<longrightarrow> m_isAlive x \<longrightarrow>
        m_storages t (b_root B (overlaid s x)) = overlaid s x \<and> (m_hasNewCode x \<longrightarrow> m_codes t (m_codeHash x) = m_codeCache x))"

lemma commit_account_committing:
  assumes cf: "collision_free B s" and db: "db_ok B s" and ok: "state_ok B s"
    and IH: "committing B s l t" and a: "a \<notin> set l" "m_cache s a = Some x" and l: "\<forall>b \<in> set l. m_cache s b \<noteq> None"
  shows "committing B s (l @ [a]) (commit_account B (a, x) t)"
proof -
  let ?t = "commit_account B (a, x) t" and ?f = "overlaid s x"
  have at: "cache_at B a s = x" using a(2) by (simp add: cache_at_def)
  have good: "b_root B (m_storages s (m_storageRoot x)) = m_storageRoot x" using db in_use(1) [OF a(2)] by (simp add: db_ok_def)
  have root: "m_storages t (m_storageRoot x) = m_storages s (m_storageRoot x)" using IH in_use(1) [OF a(2)] by (simp add: committing_def)
  then have o: "overlaid t x = ?f" by (intro ext) (simp add: overlaid_def split: option.split)
  have r: "committed_root B t x = b_root B ?f"
    using o committed_root_root [OF good] by (simp add: committed_root_def split: if_splits)
  have new: "m_codeHash y = b_sha3 B (m_codeCache y)" if "m_cache s b = Some y" "m_hasNewCode y" for b y
    using entry_ok [OF ok that(1)] that(2) by (simp add: code_held_def)
  have cache: "m_codeCache y \<in> codes_of B s" if "m_cache s b = Some y" "m_hasNewCode y" for b y
    using in_use(5) [OF that(1), of B] entry_ok(1) [OF ok that(1)] that(2) by (simp add: code_held_def)
  have codeD: "m_codeCache x = c" if "m_hasNewCode x" "m_codeHash x = b_sha3 B c" "c \<in> codes_of B s" for c
    using cf new [OF a(2)] cache [OF a(2)] that by (auto simp: collision_free_def dest: inj_onD)
  show ?thesis
  proof (cases "isDirty x \<and> m_isAlive x")
    case False
    then show ?thesis
      using IH a(1) at by (auto simp: committing_def commit_account_def written_def Let_def)
  next
    case True
    then have st: "m_storages ?t = (if m_storageOverlay x = Map.empty then m_storages t else (m_storages t)(b_root B ?f := ?f))"
        and co: "m_codes ?t = (if m_hasNewCode x then (m_codes t)(m_codeHash x := m_codeCache x) else m_codes t)"
        and rest: "m_state ?t = (m_state t)(a := written B s a x)" "m_cache ?t = m_cache t"
          "m_accountStartNonce ?t = m_accountStartNonce t" "m_nonExistingAccountsCache ?t = m_nonExistingAccountsCache t"
      using o r committed_root_root [OF good] by (simp_all add: commit_account_def written_def)
    have keep: "m_storages ?t (b_root B f) = f" if "m_storages t (b_root B f) = f" "f \<in> storages_in B s" for f
      using that cf in_use(2) [OF a(2), of B] unfolding st collision_free_def by (auto dest: inj_onD)
    have own: "m_storages ?t (b_root B ?f) = ?f"
    proof (cases "m_storageOverlay x = Map.empty")
      case e: True
      then have "?f = m_storages s (m_storageRoot x)" by (intro ext) (simp add: overlaid_def)
      then show ?thesis using e good root by (simp add: st)
    qed (simp add: st)
    have "let y = cache_at B b s in isDirty y \<longrightarrow> m_isAlive y \<longrightarrow>
        m_storages ?t (b_root B (overlaid s y)) = overlaid s y \<and> (m_hasNewCode y \<longrightarrow> m_codes ?t (m_codeHash y) = m_codeCache y)"
      if b: "b \<in> set (l @ [a])" for b
    proof (cases "b = a")
      case True
      then show ?thesis using at own by (simp add: co)
    next
      case False
      then obtain y where y: "b \<in> set l" "m_cache s b = Some y" using b l by auto
      then have "cache_at B b s = y" by (simp add: cache_at_def)
      then show ?thesis
        using IH y(1) keep [of "overlaid s y"] in_use(2) [OF y(2), of B] new [OF y(2)] cache [OF y(2)] codeD [of "m_codeCache y"]
        by (auto simp: committing_def Let_def co)
    qed
    moreover have "m_storages ?t r = m_storages s r" if "r \<in> roots_in B s" for r
      using keep [of "m_storages s r"] that IH in_use(4) [OF that] db by (simp add: committing_def db_ok_def)
    moreover have "m_codes ?t h = m_codes s h" if "b_sha3 B (m_codes s h) = h" "m_codes s h \<in> codes_of B s" for h
      using that IH codeD [of "m_codes s h"] by (auto simp: co committing_def)
    moreover have "m_state ?t b = (if b \<in> set (l @ [a]) then written B s b (cache_at B b s) else m_state s b)" for b
      using IH at a(1) by (auto simp: rest committing_def)
    ultimately show ?thesis using IH unfolding committing_def rest by blast
  qed
qed

lemma commits_committing:
  assumes "collision_free B s" "db_ok B s" "state_ok B s" "distinct l" "\<forall>a \<in> set l. m_cache s a \<noteq> None"
  shows "committing B s l (commits B s l)"
  using assms(4,5)
proof (induction l rule: rev_induct)
  case (snoc a l)
  then obtain x where x: "m_cache s a = Some x" by auto
  then have "commits B s (l @ [a]) = commit_account B (a, x) (commits B s l)" by (simp add: cache_at_def)
  then show ?case using commit_account_committing [OF assms(1-3) _ _ x, of l] snoc by simp
qed (simp add: committing_def)

text \<open>The contents afterwards.\<close>

definition survives :: "backend \<Rightarrow> acct option \<Rightarrow> acct option" where
  "survives B q = (case q of Some w \<Rightarrow> if v_alive w then Some (w\<lparr>v_root := b_root B (v_storage w)\<rparr>) else None | None \<Rightarrow> None)"

lemma stored_loaded:
  "stored B s a = (case m_state s a of None \<Rightarrow> None | Some (n, b, r, h) \<Rightarrow>
     Some \<lparr>v_alive = True, v_nonce = n, v_balance = b, v_root = r, v_storage = m_storages s r, v_hash = h,
       v_code = (if h = EmptySHA3 B then [] else m_codes s h)\<rparr>)"
  by (auto simp: stored_def contents_def loaded_account_def dead_account_def overlaid_def code_of_def fun_eq_iff split: option.split)

lemma commit_view:
  assumes cf: "collision_free B s" and db: "db_ok B s" and ok: "state_ok B s"
    and order: "distinct order" "set order = dom (m_cache s)"
  shows "view B (commit B order False s) a = survives B (view B s a)"
proof -
  let ?t = "commits B s order" and ?s = "commit B order False s"
  have c: "committing B s order ?t" using commits_committing [OF cf db ok order(1)] order(2) by auto
  have "view B ?s a = stored B ?s a" by (simp add: view_def commit_def Let_def)
  also have "\<dots> = stored B ?t a" by (rule arg_cong [OF same_base_stored, of ?t ?s "\<lambda>f. f a"])
      (simp add: commit_def Let_def same_base_def)
  also have "\<dots> = survives B (view B s a)"
  proof (cases "dirty s a")
    case True
    then obtain x where x: "m_cache s a = Some x" "isDirty x" by (auto simp: dirty_def)
    then have at: "cache_at B a s = x" and a: "a \<in> set order" using order(2) by (auto simp: cache_at_def)
    note e = entry_ok [OF ok x(1)]
    have m: "m_state ?t a = written B s a x" using c a at by (simp add: committing_def)
    show ?thesis
    proof (cases "m_isAlive x")
      case True
      have root: "committed_root B s x = b_root B (overlaid s x)"
        using db in_use(1) [OF x(1)] by (intro committed_root_root) (simp add: db_ok_def)
      have "m_storages ?t (b_root B (overlaid s x)) = overlaid s x"
        and n: "m_hasNewCode x \<longrightarrow> m_codes ?t (m_codeHash x) = m_codeCache x"
        using c a at x(2) True by (auto simp: committing_def Let_def)
      moreover have "m_codes ?t (m_codeHash x) = code_of B s x" if "m_codeHash x \<noteq> EmptySHA3 B"
        using that c e(1,2) n in_use(5) [OF x(1), of B] by (cases "m_hasNewCode x") (simp_all add: committing_def code_held_def)
      moreover have "code_of B s x = []" if "m_codeHash x = EmptySHA3 B" using that by (simp add: code_of_def)
      ultimately show ?thesis
        using True m e(4) x(2) root by (auto simp: stored_loaded written_def survives_def contents_def)
    next
      case False
      then show ?thesis using m e(4) x(2) by (simp add: stored_loaded written_def survives_def)
    qed
  next
    case False
    have v: "view B s a = stored B s a"
      using False state_okD(1) [OF ok, of a] by (auto simp: dirty_def view_def split: option.split)
    have m: "m_state ?t a = m_state s a"
    proof (cases "m_cache s a")
      case None
      then have "a \<notin> set order" using order(2) by blast
      then show ?thesis using c by (simp add: committing_def)
    next
      case (Some x)
      then show ?thesis using c False order(2) by (auto simp: committing_def written_def cache_at_def dirty_def)
    qed
    show ?thesis
    proof (cases "m_state s a")
      case None
      then show ?thesis using v m by (simp add: stored_loaded survives_def)
    next
      case (Some p)
      obtain n b r h where p: "p = (n, b, r, h)" by (cases p) auto
      obtain w where w: "stored B s a = Some w" "v_root w = r" "v_hash w = h" "v_code w = (if h = EmptySHA3 B then [] else m_codes s h)"
        using Some p by (simp add: stored_loaded)
      have "r \<in> roots_in B s" "b_root B (m_storages s r) = r" using db w(2) in_use(3) [OF w(1)] by (auto simp: db_ok_def)
      moreover have "b_sha3 B (m_codes s h) = h \<and> m_codes s h \<in> codes_of B s" if "h \<noteq> EmptySHA3 B"
        using state_okD(5) [OF ok, of a w] v w that by (auto simp: codes_of_def intro!: exI [of _ w] exI [of _ a])
      ultimately show ?thesis
        using v m c Some p by (auto simp: stored_loaded survives_def committing_def)
    qed
  qed
  finally show ?thesis .
qed


text \<open>Empty accounts that were touched are killed first.\<close>

definition removed :: "backend \<Rightarrow> bool \<Rightarrow> State \<Rightarrow> address \<Rightarrow> bool" where
  "removed B removeEmpty s a \<longleftrightarrow> removeEmpty \<and> dirty s a \<and> (\<exists>w. view B s a = Some w \<and> acct_empty B w)"

lemma removeEmptyAccounts_ok:
  assumes ok: "state_ok B s" and db: "db_ok B s" and cf: "collision_free B s"
  shows "state_ok B (removeEmptyAccounts B s)" "db_ok B (removeEmptyAccounts B s)" "collision_free B (removeEmptyAccounts B s)"
    "survives B (view B (removeEmptyAccounts B s) a) = (if removed B True s a then None else survives B (view B s a))"
proof -
  let ?s = "removeEmptyAccounts B s"
  define k where "k x = (if isDirty x \<and> acc_isEmpty B x then acc_kill B x else x)" for x
  have c: "m_cache ?s b = map_option k (m_cache s b)" for b
    by (cases "m_cache s b") (simp_all add: removeEmptyAccounts_def k_def)
  have base: "same_base s ?s" by (simp add: removeEmptyAccounts_def)
  note cong = same_base_cong [OF base]
  have kd: "isDirty (k x) = isDirty x" for x by (simp add: k_def acc_kill_def changed_def isDirty_def)
  have kc: "k x = x" if "\<not> isDirty x" for x using that by (simp add: k_def)
  have kk: "code_held B s (k x) \<and> m_codeHash (k x) = b_sha3 B (code_of B s (k x))"
    if "code_held B s x" "m_codeHash x = b_sha3 B (code_of B s x)" for x
    using that by (auto simp: k_def acc_kill_def changed_def code_held_def code_of_def acc_isEmpty_def EmptySHA3_def split: if_splits)
  have v: "view B ?s b = (case m_cache s b of Some x \<Rightarrow> Some (contents B s (k x)) | None \<Rightarrow> stored B s b)" for b
    by (simp add: view_def c cong split: option.split)
  have e: "code_held B s (k x) \<and> m_codeHash (k x) = b_sha3 B (code_of B s (k x))" if "m_cache s b = Some x" for b x
    using kk entry_ok(1,2) [OF ok that] by blast
  show "state_ok B ?s"
    unfolding state_ok_def
  proof (intro conjI allI ballI impI)
    fix b x assume x: "m_cache ?s b = Some x"
    then obtain y where y: "m_cache s b = Some y" "x = k y" using c by auto
    show "code_held B ?s x" using e [OF y(1)] y(2) by (simp add: cong)
    show "stored B ?s b = Some (contents B ?s x)" if "\<not> isDirty x"
      using that y kd kc state_okD(1) [OF ok y(1)] by (simp add: cong)
  next
    fix b assume "b \<in> m_nonExistingAccountsCache ?s"
    then have b: "b \<in> m_nonExistingAccountsCache s" by (simp add: removeEmptyAccounts_def)
    show "m_state ?s b = None" "m_cache ?s b = None"
      using state_okD(3,4) [OF ok b] base by (simp_all add: c same_base_def)
  next
    fix b w assume "view B ?s b = Some w"
    then show "v_hash w = b_sha3 B (v_code w)"
      using e [of b] state_okD(5) [OF ok, of b w] unfolding v by (auto simp: view_def split: option.splits)
  qed
  have roots: "roots_in B ?s \<subseteq> roots_in B s" by (auto simp: roots_in_def cong c k_def acc_kill_def changed_def)
  then show "db_ok B ?s" using db base by (auto simp: db_ok_def same_base_def)
  have "overlaid s (k x) \<in> storages_in B s" if "m_cache s b = Some x" for b x
    using in_use(2) [OF that, of B] in_use(4) [of "EmptyTrie B" B s]
    by (auto simp: k_def acc_kill_def changed_def roots_in_def overlaid_def [abs_def])
  then have "storages_in B ?s \<subseteq> storages_in B s"
    using roots base same_base_overlaid [OF base] by (auto simp: storages_in_def c same_base_def)
  moreover have "code_of B s (k x) = code_of B s x" for x
    by (simp add: k_def acc_kill_def changed_def code_of_def acc_isEmpty_def)
  then have "codes_of B ?s = codes_of B s" by (simp add: codes_of_def v) (auto simp: view_def split: option.splits)
  ultimately show "collision_free B ?s" using cf by (auto simp: collision_free_def intro: inj_on_subset)
  show "survives B (view B ?s a) = (if removed B True s a then None else survives B (view B s a))"
  proof (cases "m_cache s a")
    case None
    then show ?thesis unfolding v by (simp add: view_def removed_def dirty_def)
  next
    case (Some x)
    have "removed B True s a \<longleftrightarrow> isDirty x \<and> acc_isEmpty B x"
      using Some by (simp add: removed_def dirty_def view_def acct_empty_def acc_isEmpty_def)
    then show ?thesis
      using Some unfolding v by simp (simp add: view_def k_def acc_kill_def changed_def survives_def)
  qed
qed

lemma commit_survives:
  assumes "collision_free B s" "db_ok B s" "state_ok B s" "distinct order" "set order = dom (m_cache s)"
  shows "view B (commit B order removeEmpty s) a = (if removed B removeEmpty s a then None else survives B (view B s a))"
proof (cases removeEmpty)
  case True
  have "dom (m_cache (removeEmptyAccounts B s)) = dom (m_cache s)" by (auto simp: removeEmptyAccounts_def dom_def)
  then have "view B (commit B order False (removeEmptyAccounts B s)) a = survives B (view B (removeEmptyAccounts B s) a)"
    using assms removeEmptyAccounts_ok(1-3) by (intro commit_view) auto
  then show ?thesis
    using True removeEmptyAccounts_ok(4) [OF assms(3,2,1)] by (simp add: commit_def Let_def)
next
  case False
  then show ?thesis using commit_view [OF assms] by (simp add: removed_def)
qed

lemma commit_frame:
  "m_accountStartNonce (commit B order rm s) = m_accountStartNonce s"
  "m_nonExistingAccountsCache (commit B order rm s) = m_nonExistingAccountsCache s"
  "m_cache (commit B order rm s) = Map.empty" "m_changeLog (commit B order rm s) = []"
proof -
  have "m_accountStartNonce (fold (\<lambda>a. commit_account B (a, f a)) l t) = m_accountStartNonce t \<and>
      m_nonExistingAccountsCache (fold (\<lambda>a. commit_account B (a, f a)) l t) = m_nonExistingAccountsCache t" for f l t
    by (induction l arbitrary: t) (simp_all add: commit_account_def)
  then show "m_accountStartNonce (commit B order rm s) = m_accountStartNonce s"
    "m_nonExistingAccountsCache (commit B order rm s) = m_nonExistingAccountsCache s"
    "m_cache (commit B order rm s) = Map.empty" "m_changeLog (commit B order rm s) = []"
    by (simp_all add: commit_def Let_def removeEmptyAccounts_def)
qed

lemma commit_world:
  assumes "collision_free B s" "db_ok B s" "world_ok B s" "distinct order" "set order = dom (m_cache s)"
  shows "world_ok B (commit B order rm s)"
proof -
  let ?s = "commit B order rm s"
  note ok = world_okD(1) [OF assms(3)]
  note v = commit_survives [OF assms(1,2) ok assms(4,5), of rm]
  have "state_ok B ?s"
    unfolding state_ok_def
  proof (intro conjI allI ballI impI)
    fix a assume "a \<in> m_nonExistingAccountsCache ?s"
    then have "view B s a = None" using state_okD(3,4) [OF ok, of a] by (simp add: commit_frame view_def stored_def)
    then have "view B ?s a = None" using v [of a] by (simp add: survives_def)
    then show "m_state ?s a = None" by (simp add: view_def stored_def commit_frame)
  next
    fix a w assume "view B ?s a = Some w"
    then show "v_hash w = b_sha3 B (v_code w)"
      using v [of a] state_okD(5) [OF ok, of a] by (auto simp: survives_def split: option.splits if_splits)
  qed (simp_all add: commit_frame)
  then show ?thesis using world_okD(2,3) [OF assms(3)] by (simp add: world_ok_def commit_frame)
qed

text \<open>The cache of code sizes gets the sizes of the codes of accounts only.\<close>

lemma commit_sizes:
  assumes "state_ok B s" "sizes_ok B K s" "codes_of B s \<subseteq> K" "set order \<subseteq> dom (m_cache s)"
  shows "sizes_ok B K (commits B s order)"
proof -
  have x: "m_codeHash x = b_sha3 B (m_codeCache x) \<and> m_codeCache x \<in> K" if "m_cache s a = Some x" "m_hasNewCode x" for a x
    using entry_ok(1,2) [OF assms(1) that(1)] in_use(5) [OF that(1), of B] assms(3) that(2) by (auto simp: code_held_def)
  have "sizes_ok B K (fold (\<lambda>a. commit_account B (a, cache_at B a s)) order t)" if "sizes_ok B K t" for t
    using that assms(4)
  proof (induction order arbitrary: t)
    case (Cons a order)
    then obtain y where y: "m_cache s a = Some y" by auto
    then have "sizes_ok B K (commit_account B (a, y) t)"
      using Cons.prems(1) x [OF y] sizes_ok_store [of B K t "m_codeCache y"] by (auto simp: commit_account_def sizes_ok_def)
    then show ?case using Cons y by (simp add: cache_at_def)
  qed simp
  then show ?thesis using assms(2) by blast
qed

end
