(* ===== verification/World_Properties.thy ===== *)
theory World_Properties
  imports World_Commit
begin

section \<open>Properties of the state\<close>

text \<open>
  The caches and the change log of \<open>libethereum/State\<close>: readers return the contents of the accounts whatever
  is cached, rolling back undoes what a transaction has done since the savepoint, and transfers move what they say.
\<close>

subsection \<open>Operations between a savepoint and its rollback\<close>

definition reads :: "backend \<Rightarrow> State \<Rightarrow> State \<Rightarrow> bool" where
  "reads B s s' \<longleftrightarrow>
     (\<exists>a k. s' \<in> {snd (addressInUse B a s), snd (accountNonemptyAndExisting B a s), snd (addressHasCode B a s),
       snd (state_balance B a s), snd (getNonce B a s), snd (state_storage B a k s), snd (state_code B a s),
       snd (codeHash B a s), snd (codeSize B a s)})"

lemma reads_quiet: "state_ok B s \<Longrightarrow> reads B s s' \<Longrightarrow> quiet B s s'"
  using addressInUse.quiet_get accountNonemptyAndExisting.quiet_get addressHasCode.quiet_get state_balance.quiet_get
    getNonce.quiet_get state_storage.quiet_get state_code.quiet_get codeHash.quiet_get codeSize.quiet_get
  by (auto simp: reads_def)

text \<open>
  What the virtual machine and \<open>Executive\<close> do with the state while a transaction runs: read it, create and write
  accounts (storage only of accounts that are there, code only of accounts already changed), and roll back to savepoints
  of their own. Storage is only cleared when \<open>clearing\<close>. Accounts are killed after the run, and that is not logged.
\<close>

inductive changes :: "bool \<Rightarrow> backend \<Rightarrow> State \<Rightarrow> State \<Rightarrow> bool" for clearing B where
  none: "changes clearing B s s"
| read: "changes clearing B s s1 \<Longrightarrow> reads B s1 s2 \<Longrightarrow> changes clearing B s s2"
| createContract: "changes clearing B s s1 \<Longrightarrow> \<not> fst (addressInUse B a s1) \<Longrightarrow> createContract B a s1 = Inr s2 \<Longrightarrow> changes clearing B s s2"
| incNonce: "changes clearing B s s1 \<Longrightarrow> incNonce B a s1 = Inr s2 \<Longrightarrow> changes clearing B s s2"
| setNonce: "changes clearing B s s1 \<Longrightarrow> changes clearing B s (setNonce B a n s1)"
| addBalance: "changes clearing B s s1 \<Longrightarrow> addBalance B a x s1 = Inr s2 \<Longrightarrow> changes clearing B s s2"
| subBalance: "changes clearing B s s1 \<Longrightarrow> subBalance B a x s1 = Inr s2 \<Longrightarrow> changes clearing B s s2"
| setBalance: "changes clearing B s s1 \<Longrightarrow> setBalance B a x s1 = Inr s2 \<Longrightarrow> changes clearing B s s2"
| transferBalance: "changes clearing B s s1 \<Longrightarrow> transferBalance B a a' x s1 = Inr s2 \<Longrightarrow> changes clearing B s s2"
| setStorage: "changes clearing B s s1 \<Longrightarrow> fst (addressInUse B a s1) \<Longrightarrow> changes clearing B s (setStorage B a k x s1)"
| setCode: "changes clearing B s s1 \<Longrightarrow> dirty s1 a \<Longrightarrow> changes clearing B s (setCode B a c s1)"
| clearStorage: "changes clearing B s s1 \<Longrightarrow> clearing \<Longrightarrow> dirty s1 a \<Longrightarrow> changes clearing B s (clearStorage B a s1)"
| rollback: "changes clearing B s s1 \<Longrightarrow> changes clearing B s1 s2 \<Longrightarrow> changes clearing B s (rollback B (savepoint s1) s2)"

lemma changes_advance:
  assumes "changes b B s s'" "world_ok B s"
  shows "advance b B s s'"
  using assms
proof (induction rule: changes.induct)
  case (none s)
  then show ?case by (rule advance_refl)
next
  case (read s s1 s2)
  then show ?case using advance_trans quiet_advance [OF advanceD(1)] reads_quiet [OF advanceD(3)] by blast
next
  case (createContract s s1 a s2)
  then have w: "world_ok B s1" using advanceD(1) by blast
  have none: "view B s1 a = None" using createContract(2) addressInUse.reads [OF world_okD(1) [OF w], of a] by simp
  then have "m_cache s1 a = None" by (simp add: view_def split: option.splits)
  then show ?case
    using createAccount_advance [OF w _ none, of b "m_accountStartNonce s1" 0] start_nonce [OF w same_base_refl] createContract advance_trans
    by (auto simp: createContract_def)
next
  case (incNonce s s1 a s2)
  then show ?case using incNonce_wrote [OF advanceD(1), of b B s s1 a b] advance_trans by (auto simp: wrote_def)
next
  case (setNonce s s1 a n)
  then show ?case using setNonce_wrote [OF advanceD(1), of b B s s1 b a n] advance_trans by (auto simp: wrote_def)
next
  case (addBalance s s1 a x s2)
  then show ?case using addBalance_spec [OF advanceD(1), of b B s s1 a x b] advance_trans by auto
next
  case (subBalance s s1 a x s2)
  then show ?case using subBalance_spec [OF advanceD(1), of b B s s1 a x b] advance_trans by (auto split: if_splits)
next
  case (setBalance s s1 a x s2)
  then show ?case using setBalance_spec [OF advanceD(1), of b B s s1 a x b] advance_trans by auto
next
  case (transferBalance s s1 a a' x s2)
  then show ?case using transferBalance_spec [OF advanceD(1), of b B s s1 a x a' b] advance_trans by (auto split: if_splits)
next
  case (setStorage s s1 a k x)
  then have w: "world_ok B s1" using advanceD(1) by blast
  then obtain v where "view B s1 a = Some v"
    using setStorage(2) addressInUse.reads [OF world_okD(1), of B s1 a] by auto
  then show ?case using setStorage_wrote [OF w, of a v b k x] setStorage advance_trans by (auto simp: wrote_def)
next
  case (setCode s s1 a c)
  then have w: "world_ok B s1" using advanceD(1) by blast
  obtain v where "view B s1 a = Some v" using dirty_view [OF setCode(2), of B] by blast
  then show ?case using setCode_wrote [OF w _ setCode(2), of v b c] setCode advance_trans by (auto simp: wrote_def)
next
  case (clearStorage s s1 a)
  then have w: "world_ok B s1" and b: "b = True" using advanceD(1) by auto
  obtain v where "view B s1 a = Some v" using dirty_view [OF clearStorage(3), of B] by blast
  then show ?case
    using clearStorage_wrote [OF w _ clearStorage(3), of v] clearStorage advance_trans
    by (auto simp: wrote_def b split: if_splits)
next
  case (rollback s s1 s2)
  then show ?case using advance_trans advance_rollback(1) advanceD(1) by blast
qed

subsection \<open>A state for the examples\<close>

text \<open>Hashing that keeps the bytes, and two accounts: one with storage, one with code.\<close>

definition sample_backend :: backend where
  "sample_backend = \<lparr>b_sha3 = \<lambda>b. b, EmptyTrie = [1], b_root = \<lambda>f. [2]\<rparr>"

definition sample_state :: State where
  "sample_state =
     \<lparr>m_state = [[1] \<mapsto> (3, 100, [5], []), [2] \<mapsto> (1, 50, [1], [0x60, 0])],
      m_storages = \<lambda>r k. if r = [5] then 7 else 0, m_codes = \<lambda>h. h, m_cache = Map.empty,
      m_unchangedCacheEntries = [], m_nonExistingAccountsCache = {}, m_touched = {}, m_accountStartNonce = 0,
      m_changeLog = [], s_draws = \<lambda>i. 0, m_codeSizes = [], s_randomHashes = \<lambda>i. []\<rparr>"

lemma sample_world_ok: "world_ok sample_backend sample_state"
  by (auto simp: world_ok_def state_ok_def sample_backend_def sample_state_def view_def stored_def EmptySHA3_def
      loaded_account_def dead_account_def code_of_def split: if_splits)

text \<open>Hashes and roots of 32 bytes, and an account without storage.\<close>

definition fixed_backend :: backend where
  "fixed_backend = \<lparr>b_sha3 = \<lambda>b. replicate 32 (if b = [] then 0 else 1), EmptyTrie = replicate 32 2,
     b_root = \<lambda>f. replicate 32 (if f = (\<lambda>k. 0) then 2 else 3)\<rparr>"

definition fixed_state :: State where
  "fixed_state = sample_state\<lparr>m_state := [[1] \<mapsto> (3, 100, replicate 32 2, replicate 32 0)], m_storages := \<lambda>r k. 0, m_codes := \<lambda>h. [1]\<rparr>"

lemma fixed_simps [simp]:
  "b_root fixed_backend f = replicate 32 (if f = (\<lambda>k. 0) then 2 else 3)" "EmptyTrie fixed_backend = replicate 32 2"
  "b_sha3 fixed_backend b = replicate 32 (if b = [] then 0 else 1)" "EmptySHA3 fixed_backend = replicate 32 0"
  by (simp_all add: fixed_backend_def EmptySHA3_def)

lemma fixed_ok: "world_ok fixed_backend fixed_state"
  by (auto simp: world_ok_def state_ok_def fixed_state_def sample_state_def view_def stored_def
      loaded_account_def dead_account_def code_of_def split: if_splits)

text \<open>The same with code on the account.\<close>

definition coded_state :: State where
  "coded_state = fixed_state\<lparr>m_state := [[1] \<mapsto> (3, 100, replicate 32 2, replicate 32 1)]\<rparr>"

lemma coded_ok: "state_ok fixed_backend coded_state" "codes_of fixed_backend coded_state \<subseteq> {[1]}"
  by (auto simp: state_ok_def coded_state_def fixed_state_def sample_state_def view_def stored_def codes_of_def
      loaded_account_def dead_account_def code_of_def split: if_splits)

subsection \<open>The properties\<close>

text \<open>
  C38: rolling back to a savepoint gives every account the nonce, balance, storage and code it had there and the log
  its length, whatever the caches evicted, after any sequence of what a transaction does with the state: reads, new
  contracts at unused addresses, changes of nonces, balances and transfers, storage written to existing accounts, code set
  on accounts already changed, and rollbacks to later savepoints. Killing accounts and clearing storage are not among these.
\<close>

theorem state_rollback:
  assumes "world_ok B s" and "changes False B s s'"
  shows "view B (rollback B (savepoint s) s') = view B s \<and> savepoint (rollback B (savepoint s) s') = savepoint s \<and>
    world_ok B (rollback B (savepoint s) s')"
proof -
  have "advance False B s s'" using changes_advance assms by blast
  then show ?thesis
    using advance_rollback [of False B s s'] view_sim_exact advanceD(1) by (auto simp: savepoint_def)
qed

theorem state_rollback_witness:
  "view sample_backend (rollback sample_backend (savepoint sample_state) (setNonce sample_backend [1] 9 sample_state))
     = view sample_backend sample_state"
  using state_rollback [OF sample_world_ok changes.setNonce [OF changes.none]] by blast

text \<open>
  Clearing an account's storage (\<open>clearStorage\<close>) and rolling back gives it the storage of its trie, not the
  values that had been written and not yet committed.
\<close>

lemma clear_rollback_loses:
  assumes "world_ok B s" and "dirty s a" and "view B s a = Some w" and "v_root w \<noteq> EmptyTrie B"
  shows "\<exists>w'. view B (rollback B (savepoint s) (clearStorage B a s)) a = Some w' \<and> v_storage w' = m_storages s (v_root w)"
proof -
  let ?s = "clearStorage B a s"
  obtain y where y: "m_cache s a = Some y" "m_storageRoot y = v_root w"
    using dirty_view [OF assms(2), of B] assms(3) by auto
  have "m_changeLog ?s = [ChStorageRoot a (v_root w)] @ m_changeLog s"
    using y assms(4) by (simp add: clearStorage_def Let_def cache_at_def put_account_def log_change_def)
  moreover have "wrote True B s ?s a (w\<lparr>v_root := EmptyTrie B, v_storage := m_storages s (EmptyTrie B)\<rparr>)"
    using clearStorage_wrote [OF assms(1,3,2)] assms(4) by simp
  ultimately show ?thesis
    using rollback_world [of B ?s "[ChStorageRoot a (v_root w)]" "m_changeLog s"]
    by (auto simp: wrote_def undo_view_def savepoint_def advance_def same_base_def)
qed

lemma clear_rollback_loses_witness:
  "let s = setStorage sample_backend [1] 0 8 sample_state in
   fst (state_storage sample_backend [1] 0 s) = 8 \<and>
   (\<exists>w'. view sample_backend (rollback sample_backend (savepoint s) (clearStorage sample_backend [1] s)) [1] = Some w' \<and>
      v_storage w' 0 = 7)"
proof -
  let ?s = "setStorage sample_backend [1] 0 8 sample_state"
  obtain v where v: "view sample_backend sample_state [1] = Some v" "v_root v = [5]"
    by (simp add: view_def stored_def sample_state_def loaded_account_def)
  have w: "wrote False sample_backend sample_state ?s [1] (v\<lparr>v_storage := (v_storage v)(0 := 8)\<rparr>)"
    by (rule setStorage_wrote [OF sample_world_ok v(1)])
  then have ok: "world_ok sample_backend ?s" "m_storages ?s = m_storages sample_state"
    by (auto simp: wrote_def advance_def same_base_def)
  then show ?thesis
    using clear_rollback_loses [OF ok(1), of "[1]" "v\<lparr>v_storage := (v_storage v)(0 := 8)\<rparr>"] w v(2)
      state_storage.reads [OF world_okD(1) [OF ok(1)], of "[1]" 0]
    by (simp add: wrote_def sample_backend_def) (auto simp: sample_state_def)
qed

text \<open>
  C40: what the readers return depends on the contents of the accounts only. Two coherent states with the same
  contents give the same answers, whatever their caches of accounts, of accounts that do not exist, of storage, of code and of
  code sizes hold; every reader, and evicting accounts from the cache, leaves the contents as they are; and \<open>codeSize\<close> is the size
  of what \<open>code\<close> returns. The entries of the caches of code sizes of both states come from codes of a set \<open>K\<close>, with the codes
  of the accounts among them, on which the hash does not collide, and reading code and its size keeps that so.
\<close>

theorem readers_ignore_caches:
  assumes "state_ok B s" and "state_ok B s'" and "view B s' = view B s" and "m_accountStartNonce s' = m_accountStartNonce s"
    and "sizes_ok B K s" and "sizes_ok B K s'" and "codes_of B s \<subseteq> K" and "inj_on (b_sha3 B) K"
  shows "fst (addressInUse B a s') = fst (addressInUse B a s) \<and>
    fst (accountNonemptyAndExisting B a s') = fst (accountNonemptyAndExisting B a s) \<and>
    fst (addressHasCode B a s') = fst (addressHasCode B a s) \<and>
    fst (state_balance B a s') = fst (state_balance B a s) \<and> fst (getNonce B a s') = fst (getNonce B a s) \<and>
    fst (state_storage B a k s') = fst (state_storage B a k s) \<and> fst (state_code B a s') = fst (state_code B a s) \<and>
    fst (codeHash B a s') = fst (codeHash B a s) \<and> fst (codeSize B a s') = fst (codeSize B a s) \<and>
    fst (codeSize B a s) = length (fst (state_code B a s)) \<and>
    (\<forall>t. reads B s t \<or> t = clearCacheIfTooLarge s \<longrightarrow> view B t = view B s) \<and>
    sizes_ok B K (snd (state_code B a s)) \<and> sizes_ok B K (snd (codeSize B a s))"
proof (intro conjI)
  have c': "codes_of B s' \<subseteq> K" using assms(3,7) by (simp add: codes_of_def)
  show "fst (codeSize B a s') = fst (codeSize B a s)"
    using codeSize_spec(3) [OF assms(1,5,7,8)] codeSize_spec(3) [OF assms(2,6) c' assms(8)] assms(3) by simp
  show "fst (codeSize B a s) = length (fst (state_code B a s))"
    using codeSize_spec(3) [OF assms(1,5,7,8)] assms(1) by (simp add: state_code.reads split: option.split)
  show "\<forall>t. reads B s t \<or> t = clearCacheIfTooLarge s \<longrightarrow> view B t = view B s"
    using reads_quiet [OF assms(1)] clearCacheIfTooLarge_quiet [OF assms(1)] quietD(2) by blast
  show "sizes_ok B K (snd (state_code B a s))" "sizes_ok B K (snd (codeSize B a s))"
    by (rule sizes_ok_code [OF assms(1,5,7)], rule codeSize_spec(2) [OF assms(1,5,7)])
qed (rule addressInUse.same_answer accountNonemptyAndExisting.same_answer addressHasCode.same_answer state_balance.same_answer
    getNonce.same_answer state_storage.same_answer state_code.same_answer codeHash.same_answer; rule assms)+

theorem readers_ignore_caches_witness:
  "fst (codeSize fixed_backend [1] (coded_state\<lparr>m_codeSizes := [(replicate 32 1, 1)]\<rparr>)) = fst (codeSize fixed_backend [1] coded_state) \<and>
   fst (codeSize fixed_backend [1] coded_state) = length (fst (state_code fixed_backend [1] coded_state))"
proof -
  let ?s = "coded_state\<lparr>m_codeSizes := [(replicate 32 1, 1)]\<rparr>" and ?K = "{[], [1]} :: bytes set"
  have b: "same_base coded_state ?s" by (simp add: same_base_def del: One_nat_def)
  have v: "view fixed_backend ?s = view fixed_backend coded_state"
    by (intro ext) (simp add: view_def same_base_cong [OF b] del: One_nat_def split: option.split)
  have "state_ok fixed_backend ?s"
    by (auto simp: state_ok_def coded_state_def fixed_state_def sample_state_def view_def stored_def
      loaded_account_def dead_account_def code_of_def split: if_splits)
  moreover have "sizes_ok fixed_backend ?K coded_state" "sizes_ok fixed_backend ?K ?s"
    by (auto simp: sizes_ok_def coded_state_def fixed_state_def sample_state_def)
  moreover have "inj_on (b_sha3 fixed_backend) ?K" by simp
  moreover have "codes_of fixed_backend coded_state \<subseteq> ?K" using coded_ok(2) by blast
  ultimately show ?thesis
    using readers_ignore_caches [OF coded_ok(1), of ?s ?K "[1]"] v by (simp del: One_nat_def)
qed

text \<open>
  \<open>transferBalance\<close> between two accounts fails exactly when the sender has less than the amount; otherwise it
  moves the amount and keeps every other balance, nonce, storage and code.
\<close>

lemma transfer_moves:
  assumes "world_ok B s" and "src \<noteq> dst"
  shows "case transferBalance B src dst x s of
      Inl err \<Rightarrow> fst (state_balance B src s) < x
    | Inr s' \<Rightarrow> x \<le> fst (state_balance B src s) \<and> world_ok B s' \<and>
        fst (state_balance B src s') = fst (state_balance B src s) - x \<and>
        fst (state_balance B dst s') = fst (state_balance B dst s) + x \<and>
        (\<forall>a. a \<notin> {src, dst} \<longrightarrow> view B s' a = view B s a)"
proof -
  have b: "fst (state_balance B a s') = bal (view B s') a" if "state_ok B s'" for a s'
    using state_balance.reads [OF that] by (simp add: bal_def)
  show ?thesis
  proof (cases "bal (view B s) src < x")
    case True
    then show ?thesis using transferBalance_spec [OF assms(1), of src x dst] b [OF world_okD(1) [OF assms(1)]] by simp
  next
    case False
    then obtain s' where s': "transferBalance B src dst x s = Inr s'" "advance False B s s'"
        "view B s' = credit B s dst x (debit src x (view B s))"
      using transferBalance_spec [OF assms(1), of src x dst False] by auto
    then show ?thesis
      using False assms b [OF world_okD(1) [OF assms(1)]] b [OF advanceD(3) [OF s'(2)]] advanceD(1) [OF s'(2)]
      by (auto simp: bal_def credit_def debit_def or_new_def word_neq_0_conv [symmetric] split: option.split)
  qed
qed

lemma transfer_moves_witness:
  "case transferBalance sample_backend [1] [3] 60 sample_state of
     Inl err \<Rightarrow> False
   | Inr s' \<Rightarrow> fst (state_balance sample_backend [1] s') = 40 \<and> fst (state_balance sample_backend [3] s') = 60"
proof -
  have "fst (state_balance sample_backend [1] sample_state) = 100" "fst (state_balance sample_backend [3] sample_state) = 0"
    unfolding state_balance.reads [OF world_okD(1) [OF sample_world_ok]]
    by (simp_all add: view_def stored_def sample_state_def loaded_account_def)
  then show ?thesis
    using transfer_moves [OF sample_world_ok, of "[1]" "[3]" 60] by (auto split: sum.splits)
qed


text \<open>
  C39: \<open>commit\<close> writes what the state shows: afterwards the tries hold every account with its nonce, balance, storage
  and code, under the root of that storage, but for dead accounts and, when asked for, touched empty ones; the caches
  and the log are empty and the state is coherent again. The roots in use are those of the storages under them, and among
  the storages and codes of this very state, before and after, no two have the same root or hash. (That the
  trie code computes such a root, with the values under it, is shown for \<open>commit_storage\<close>.)
\<close>

theorem commit_keeps:
  assumes "collision_free B s" and "db_ok B s" and "world_ok B s" and "distinct order" and "set order = dom (m_cache s)"
  shows "stored B (commit B order removeEmpty s) a =
      (case view B s a of
         None \<Rightarrow> None
       | Some w \<Rightarrow>
           if v_alive w \<and> \<not> (removeEmpty \<and> dirty s a \<and> acct_empty B w) then Some (w\<lparr>v_root := b_root B (v_storage w)\<rparr>) else None) \<and>
    m_cache (commit B order removeEmpty s) = Map.empty \<and> world_ok B (commit B order removeEmpty s)"
proof (intro conjI)
  have "stored B (commit B order removeEmpty s) a = view B (commit B order removeEmpty s) a"
    by (simp add: view_def commit_frame)
  then show "stored B (commit B order removeEmpty s) a =
      (case view B s a of
         None \<Rightarrow> None
       | Some w \<Rightarrow>
           if v_alive w \<and> \<not> (removeEmpty \<and> dirty s a \<and> acct_empty B w) then Some (w\<lparr>v_root := b_root B (v_storage w)\<rparr>) else None)"
    using commit_survives [OF assms(1,2) world_okD(1) [OF assms(3)] assms(4,5), of removeEmpty a]
    by (auto simp: survives_def removed_def split: option.splits)
qed (use commit_frame(3) commit_world assms in auto)

theorem commit_keeps_witness:
  "let s = setStorage fixed_backend [1] 0 5 fixed_state; w = stored fixed_backend (commit fixed_backend [[1]] True s) [1] in
   map_option v_nonce w = Some 3 \<and> map_option (\<lambda>w. v_storage w 0) w = Some 5 \<and> map_option v_root w = Some (replicate 32 3)"
proof -
  let ?B = fixed_backend and ?s = "setStorage fixed_backend [1] 0 5 fixed_state"
  define x where "x = acc_setStorage 0 5 (acc_setStorageCache 0 0 (loaded_account ?B (3, 100, replicate 32 2, replicate 32 0)))"
  have s: "m_cache ?s = [[1] \<mapsto> x]" "m_storages ?s = (\<lambda>r k. 0)" "m_state ?s = [[1] \<mapsto> (3, 100, replicate 32 2, replicate 32 0)]" "m_codes ?s = (\<lambda>h. [1])"
    by (simp_all add: setStorage_def state_storage_def account_def fixed_state_def sample_state_def clearCacheIfTooLarge.simps Let_def
        put_account_def log_change_def cache_at_def x_def loaded_account_def dead_account_def)
  have x: "m_storageRoot x = replicate 32 2" "m_isAlive x" "isDirty x" "m_nonce x = 3" "m_balance x = 100" "m_codeHash x = replicate 32 0"
      "overlaid ?s x = (\<lambda>k. if k = 0 then 5 else 0)"
    by (auto simp: x_def acc_setStorage_def acc_setStorageCache_def changed_def isDirty_def loaded_account_def dead_account_def overlaid_def s(2) fun_eq_iff)
  have st: "stored ?B ?s a = Some w \<Longrightarrow> v_root w = replicate 32 2" for a w
    by (auto simp: stored_loaded s(3) split: if_splits option.splits)
  have view: "view ?B ?s [1] = Some (contents ?B ?s x)" by (simp add: view_def s(1))
  have roots: "roots_in ?B ?s = {replicate 32 2}" using st by (auto simp: roots_in_def s(1) x(1))
  have db: "db_ok ?B ?s" by (simp add: db_ok_def roots s(2))
  have "storages_in ?B ?s = {\<lambda>k. 0, \<lambda>k. if k = 0 then 5 else 0}" by (auto simp: storages_in_def roots s(1,2) x(7))
  moreover have "(\<lambda>k :: u256. if k = 0 then 5 else 0 :: u256) \<noteq> (\<lambda>k. 0)" by (auto simp: fun_eq_iff)
  moreover have "codes_of ?B ?s \<subseteq> {[]}"
    by (auto simp: codes_of_def view_def s(1) stored_def s(3) code_of_def x(6) split: if_splits)
  ultimately have cf: "collision_free ?B ?s" by (auto simp: collision_free_def inj_on_def)
  have "\<exists>v. view ?B fixed_state [1] = Some v" by (simp add: view_def stored_def fixed_state_def sample_state_def)
  then have ok: "world_ok ?B ?s" using setStorage_wrote [OF fixed_ok, of "[1]" _ False 0 5] by (auto simp: wrote_def advance_def)
  have "\<not> acct_empty ?B (contents ?B ?s x)" by (simp add: acct_empty_def x)
  moreover have "b_root ?B (\<lambda>k. if k = 0 then 5 else 0) = replicate 32 3" by (auto simp: fun_eq_iff)
  ultimately show ?thesis
    using commit_keeps [OF cf db ok, of "[[1]]" True "[1]"] by (simp add: s(1) x Let_def view)
qed

end
