(* ===== verification/Executive.thy ===== *)
theory Executive
  imports World_State RLP_Stream
begin

section \<open>Message calls and transactions (\<open>libethereum/Executive\<close>, \<open>libethereum/ExtVM\<close>)\<close>

text \<open>
  \<open>Executive\<close> runs one message call, contract creation or transaction on the state; \<open>ExtVM\<close> gives the
  interpreter its access to the state and starts an \<open>Executive\<close> for every sub-call. The recursion between the
  two is bounded by the call depth the interpreter checks: \<open>ext_world\<close> is defined by recursion on the number of
  levels left. An exception that neither of them handles ends the process (\<open>exit (1)\<close> in \<open>go\<close>), which is
  \<open>None\<close> here, as is a run that does not end: a theorem that a transaction returns excludes both, and one that it
  runs forever gives the endless sequence of machine states. At the outermost level an exception is an error of the result.
  The interpreter's readers look at the state through its caches; what they leave in the caches is dropped.
\<close>

text \<open>What the seal engine and the block give: the schedule, fork blocks, precompiled contracts and \<open>EnvInfo\<close>.\<close>

record chain =
  c_backend :: backend
  c_schedule :: EVMSchedule
  homesteadForkBlock :: int
  EIP158ForkBlock :: int
  constantinopleForkBlock :: int
  isPrecompiled :: "address \<Rightarrow> bool"
  costOfPrecompiled :: "address \<Rightarrow> bytes \<Rightarrow> nat"
  executePrecompiled :: "address \<Rightarrow> bytes \<Rightarrow> bool \<times> bytes"
  precedingHashes :: "bytes list"
  blockhashContract :: "State \<Rightarrow> address \<Rightarrow> u256 \<Rightarrow> bytes" \<comment> \<open>stands for the nested execution of \<open>blockHash\<close>\<close>
  nodeAddress :: address \<comment> \<open>of the contract that lists the miners\<close>
  c_author :: address
  c_timestamp :: int
  c_number :: int
  c_difficulty :: u256
  c_gasLimit :: u256

subsection \<open>Sub-state\<close>

record SubState =
  suicides :: "address list" \<comment> \<open>the set, without duplicates\<close>
  sub_logs :: "(address \<times> u256 list \<times> bytes) list"
  refunds :: u256

definition empty_sub :: SubState where
  "empty_sub = \<lparr>suicides = [], sub_logs = [], refunds = 0\<rparr>"

definition add_sub :: "SubState \<Rightarrow> SubState \<Rightarrow> SubState" where
  "add_sub a b = \<lparr>suicides = List.union (suicides b) (suicides a), sub_logs = sub_logs a @ sub_logs b, refunds = refunds a + refunds b\<rparr>"

text \<open>What an \<open>ExtVM\<close> changes: the state and its own sub-state.\<close>

record world =
  w_state :: State
  w_sub :: SubState

subsection \<open>The executive\<close>

datatype TransactionException =
    NoException | Unknown | BadRLP | InvalidFormat | OutOfGasIntrinsic | TxInvalidSignature | TxInvalidNonce | TxNotEnoughCash
  | OutOfGasBase | BlockGasLimitReached | TxBadInstruction | TxBadJumpDestination | TxOutOfGas | TxOutOfStack
  | TxStackUnderflow | TxRevertInstruction | InvalidZeroSignatureFormat | AddressAlreadyUsed

definition toTransactionException :: "vm_error \<Rightarrow> TransactionException" where
  "toTransactionException err =
     (case err of
        BadInstruction \<Rightarrow> TxBadInstruction | BadJumpDestination \<Rightarrow> TxBadJumpDestination | OutOfGas \<Rightarrow> TxOutOfGas
      | OutOfStack \<Rightarrow> TxOutOfStack | StackUnderflow \<Rightarrow> TxStackUnderflow | _ \<Rightarrow> Unknown)"

text \<open>The members of \<open>Executive\<close> that a call or creation sets; \<open>m_extvm\<close> is \<open>m_ext\<close> with its sub-state beside it.\<close>

record executive =
  m_extvm :: "vm_env option"
  m_sub :: SubState
  m_output :: bytes
  m_excepted :: TransactionException
  m_gas :: nat
  m_newAddress :: address
  m_isCreation :: bool
  m_savepoint :: nat

definition ZeroAddress :: address where
  "ZeroAddress = replicate 20 0"

definition MaxAddress :: address where
  "MaxAddress = replicate 20 0xff"

definition new_executive :: executive where
  "new_executive =
     \<lparr>m_extvm = None, m_sub = empty_sub, m_output = [], m_excepted = NoException, m_gas = 0,
      m_newAddress = ZeroAddress, m_isCreation = False, m_savepoint = 0\<rparr>"

text \<open>The \<open>ExtVM\<close> of a call or a creation.\<close>

definition ExtVM :: "chain \<Rightarrow> address \<Rightarrow> address \<Rightarrow> address \<Rightarrow> u256 \<Rightarrow> u256 \<Rightarrow> bytes \<Rightarrow> bytes \<Rightarrow> nat \<Rightarrow> bool \<Rightarrow> vm_env" where
  "ExtVM C myAddress caller origin val gasPrice d code depth staticCall =
     \<lparr>e_schedule = c_schedule C, e_myAddress = myAddress, e_caller = caller, e_origin = origin, e_value = val,
      e_gasPrice = gasPrice, e_data = d, e_code = code, e_depth = depth, e_staticCall = staticCall,
      e_author = c_author C, e_timestamp = c_timestamp C, e_number = c_number C, e_difficulty = c_difficulty C,
      e_gasLimit = c_gasLimit C\<rparr>"

definition revert :: "backend \<Rightarrow> executive \<Rightarrow> State \<Rightarrow> executive \<times> State" where
  "revert B x s =
     (x\<lparr>m_sub := (if m_extvm x \<noteq> None then empty_sub else m_sub x), m_newAddress := ZeroAddress\<rparr>,
      rollback B (m_savepoint x) s)"

text \<open>EIP86: nonces of the zero-signature sender are not used after Constantinople.\<close>

definition bump_nonce :: "chain \<Rightarrow> address \<Rightarrow> State \<Rightarrow> state_error + State" where
  "bump_nonce C sender s =
     (if sender \<noteq> MaxAddress \<or> c_number C < constantinopleForkBlock C then incNonce (c_backend C) sender s else Inr s)"

text \<open>\<open>call\<close>; \<open>external\<close> says that there is a transaction (\<open>m_t\<close>).\<close>

definition exec_call :: "chain \<Rightarrow> nat \<Rightarrow> bool \<Rightarrow> CallParameters \<Rightarrow> u256 \<Rightarrow> address \<Rightarrow> State \<Rightarrow> state_error + executive \<times> State" where
  "exec_call C depth external p gasPrice origin s =
     (let B = c_backend C in
      ebind (if external then bump_nonce C (senderAddress p) s else Inr s) (\<lambda>s.
      let x = new_executive\<lparr>m_savepoint := savepoint s\<rparr> in
      if isPrecompiled C (codeAddress p) then
        let g = costOfPrecompiled C (codeAddress p) (call_data p) in
        if call_gas p < g then
          ebind (if c_number C \<ge> EIP158ForkBlock C then addBalance B (codeAddress p) 0 s else Inr s) (\<lambda>s.
          Inr (x\<lparr>m_excepted := OutOfGasBase\<rparr>, s))
        else
          let (success, output) = executePrecompiled C (codeAddress p) (call_data p);
              x = x\<lparr>m_gas := call_gas p - g, m_output := output\<rparr> in
          if \<not> success then Inr (x\<lparr>m_gas := 0, m_excepted := TxOutOfGas\<rparr>, s)
          else
            ebind (transferBalance B (senderAddress p) (receiveAddress p) (valueTransfer p) s) (\<lambda>s. Inr (x, s))
      else
        let x = x\<lparr>m_gas := call_gas p\<rparr>; (hasCode, s) = addressHasCode B (codeAddress p) s;
            (x, s) =
              (if hasCode then
                 let (c, s) = state_code B (codeAddress p) s; (_, s) = codeHash B (codeAddress p) s in
                 (x\<lparr>m_extvm := Some (ExtVM C (receiveAddress p) (senderAddress p) origin (apparentValue p) gasPrice
                      (call_data p) c depth (call_static p))\<rparr>, s)
               else (x, s)) in
        ebind (transferBalance B (senderAddress p) (receiveAddress p) (valueTransfer p) s) (\<lambda>s. Inr (x, s))))"

text \<open>\<open>executeCreate\<close> for the address it is to create.\<close>

definition executeCreate ::
  "chain \<Rightarrow> nat \<Rightarrow> address \<Rightarrow> address \<Rightarrow> u256 \<Rightarrow> u256 \<Rightarrow> nat \<Rightarrow> bytes \<Rightarrow> address \<Rightarrow> State \<Rightarrow> state_error + executive \<times> State" where
  "executeCreate C depth newAddress sender endowment gasPrice gas init origin s =
     (let B = c_backend C in
      ebind (bump_nonce C sender s) (\<lambda>s.
      let x = new_executive\<lparr>m_newAddress := newAddress, m_savepoint := savepoint s, m_isCreation := True, m_gas := gas\<rparr>;
          (hasCode, s) = addressHasCode B newAddress s;
          (used, s) = (if hasCode then (True, s) else let (n, s) = getNonce B newAddress s in (n > 0, s)) in
      if used then
        let (x, s) = revert B (x\<lparr>m_gas := 0, m_excepted := AddressAlreadyUsed\<rparr>) s in Inr (x\<lparr>m_extvm := None\<rparr>, s)
      else
        ebind (transferBalance B sender newAddress endowment s) (\<lambda>s.
        ebind (requireAccountStartNonce s) (\<lambda>start.
        let newNonce = (if c_number C \<ge> EIP158ForkBlock C then start + 1 else start);
            s = setNonce B newAddress newNonce s in
        Inr (if init \<noteq> [] then
               x\<lparr>m_extvm := Some (ExtVM C newAddress sender origin endowment gasPrice [] init depth False)\<rparr>
             else x, s)))))"

text \<open>
  The new addresses: of \<open>CREATE\<close> the hash of the list of sender and nonce, of \<open>CREATE2\<close> that of sender, salt and
  hash of the code. Building the list cannot fail on such items; the error is not handled by the code.
\<close>

definition rlpList_sender :: "address \<Rightarrow> u256 \<Rightarrow> bytes rlp_result" where
  "rlpList_sender sender nonce =
     ebind (appendList 2 RLPStream) (\<lambda>out. ebind (append_bytes False sender out) (\<lambda>out.
     ebind (append_bigint (unat nonce) out) stream_out))"

definition createOpcode ::
  "chain \<Rightarrow> nat \<Rightarrow> address \<Rightarrow> u256 \<Rightarrow> u256 \<Rightarrow> nat \<Rightarrow> bytes \<Rightarrow> address \<Rightarrow> State \<Rightarrow> (state_error + executive \<times> State) option" where
  "createOpcode C depth sender endowment gasPrice gas init origin s =
     (let (nonce, s) = getNonce (c_backend C) sender s in
      case rlpList_sender sender nonce of
        Inl _ \<Rightarrow> None
      | Inr l \<Rightarrow>
          Some (executeCreate C depth (drop 12 (b_sha3 (c_backend C) l)) sender endowment gasPrice gas init origin s))"

definition create2Opcode ::
  "chain \<Rightarrow> nat \<Rightarrow> address \<Rightarrow> u256 \<Rightarrow> u256 \<Rightarrow> nat \<Rightarrow> bytes \<Rightarrow> address \<Rightarrow> u256 \<Rightarrow> State \<Rightarrow> (state_error + executive \<times> State) option" where
  "create2Opcode C depth sender endowment gasPrice gas init origin salt s =
     (let h = b_sha3 (c_backend C) in
      Some (executeCreate C depth (drop 12 (h (sender @ toBytes32 salt @ h init))) sender endowment gasPrice gas init origin s))"

text \<open>The handlers of \<open>go\<close> for an exception of the virtual machine.\<close>

definition vm_failed :: "backend \<Rightarrow> vm_error \<Rightarrow> executive \<Rightarrow> State \<Rightarrow> (executive \<times> State) option" where
  "vm_failed B err x s =
     (case err of
        RevertInstruction out \<Rightarrow>
          let (x, s) = revert B x s in Some (x\<lparr>m_output := out, m_excepted := TxRevertInstruction\<rparr>, s)
      | OutOfBounds \<Rightarrow> None
      | NoReturn \<Rightarrow> None
      | _ \<Rightarrow> Some (revert B (x\<lparr>m_gas := 0, m_excepted := toTransactionException err\<rparr>) s))"

text \<open>After the code of a creation has run: the price of the new code, then \<open>setCode\<close>.\<close>

definition deposit :: "chain \<Rightarrow> vm_env \<Rightarrow> bytes \<Rightarrow> executive \<Rightarrow> State \<Rightarrow> (executive \<times> State) option" where
  "deposit C E out x s =
     (let S = c_schedule C; B = c_backend C in
      if length out > maxCodeSize S then vm_failed B OutOfGas x s
      else if length out * createDataGas S \<le> m_gas x then
        Some (x\<lparr>m_gas := m_gas x - length out * createDataGas S\<rparr>, setCode B (e_myAddress E) out s)
      else if exceptionalFailedCodeDeposit S then vm_failed B OutOfGas x s
      else Some (x, setCode B (e_myAddress E) [] s))"

definition go :: "chain \<Rightarrow> (vm_env \<Rightarrow> world ext_ops) \<Rightarrow> executive \<Rightarrow> State \<Rightarrow> (executive \<times> State) option" where
  "go C X x s =
     (case m_extvm x of
        None \<Rightarrow> Some (x, s)
      | Some E \<Rightarrow>
          let B = c_backend C; s = (if m_isCreation x then clearStorage B (e_myAddress E) s else s) in
          case exec (X E) E (m_gas x) \<lparr>w_state = s, w_sub = m_sub x\<rparr> of
            None \<Rightarrow> None
          | Some (Inl (err, v)) \<Rightarrow>
              vm_failed B err (x\<lparr>m_gas := m_io_gas v, m_sub := w_sub (m_ext v)\<rparr>) (w_state (m_ext v))
          | Some (Inr (v, out)) \<Rightarrow>
              let x = x\<lparr>m_gas := m_io_gas v, m_sub := w_sub (m_ext v)\<rparr>; s = w_state (m_ext v) in
              if m_isCreation x then deposit C E out x s else Some (x\<lparr>m_output := out\<rparr>, s))"

subsection \<open>The externalities\<close>

definition ext_suicide :: "backend \<Rightarrow> address \<Rightarrow> address \<Rightarrow> world \<Rightarrow> world option" where
  "ext_suicide B myAddress a w =
     (let (amount, s) = state_balance B myAddress (w_state w) in
      case ebind (addBalance B a amount s) (\<lambda>s. setBalance B myAddress 0 s) of
        Inl _ \<Rightarrow> None
      | Inr s \<Rightarrow> Some (w\<lparr>w_state := s, w_sub := (w_sub w)\<lparr>suicides := List.insert myAddress (suicides (w_sub w))\<rparr>\<rparr>))"

text \<open>
  \<open>ExtVM::blockHash\<close>. From 256 blocks after the Constantinople fork on the code runs a whole transaction with
  \<open>Permanence::Reverted\<close> on the contract of block hashes, from within the interpreter; this can raise an exception and
  clears the cache of the state. It is not modelled: \<open>blockhashContract\<close> only stands for its answer, and the
  theorems on runs of arbitrary code assume an earlier block. Before that, an index beyond the hashes fails an
  \<open>assert\<close> of the source, and the same theorems assume that the 256 hashes are there.
\<close>

definition ext_blockHash :: "chain \<Rightarrow> vm_env \<Rightarrow> world \<Rightarrow> u256 \<Rightarrow> bytes" where
  "ext_blockHash C E w n =
     (let currentNumber = c_number C in
      if uint n \<ge> currentNumber \<or> uint n < max 256 currentNumber - 256 then replicate 32 0
      else if currentNumber < constantinopleForkBlock C + 256 then
        precedingHashes C ! nat (currentNumber - 1 - uint n)
      else blockhashContract C (w_state w) (e_caller E) n)"

text \<open>\<open>ExtVM::call\<close> and \<open>ExtVM::create\<close>, over the externalities of the next level.\<close>

definition finish :: "chain \<Rightarrow> (vm_env \<Rightarrow> world ext_ops) \<Rightarrow> state_error + executive \<times> State \<Rightarrow> world \<Rightarrow> (executive \<times> world) option" where
  "finish C X r w =
     (case r of
        Inl _ \<Rightarrow> None
      | Inr (x, s) \<Rightarrow>
          if m_extvm x = None then Some (x, w\<lparr>w_state := s\<rparr>)
          else
            case go C X x s of
              None \<Rightarrow> None
            | Some (x, s) \<Rightarrow> Some (x, w\<lparr>w_state := s, w_sub := add_sub (w_sub w) (m_sub x)\<rparr>))"

definition ext_call :: "chain \<Rightarrow> (vm_env \<Rightarrow> world ext_ops) \<Rightarrow> vm_env \<Rightarrow> CallParameters \<Rightarrow> world \<Rightarrow> (world \<times> nat \<times> bool \<times> bytes) option" where
  "ext_call C X E p w =
     (case finish C X (exec_call C (e_depth E + 1) False p (e_gasPrice E) (e_origin E) (w_state w)) w of
        None \<Rightarrow> None
      | Some (x, w) \<Rightarrow> Some (w, m_gas x, m_excepted x = NoException, m_output x))"

definition ext_create ::
  "chain \<Rightarrow> (vm_env \<Rightarrow> world ext_ops) \<Rightarrow> vm_env \<Rightarrow> u256 \<Rightarrow> nat \<Rightarrow> bytes \<Rightarrow> Instruction \<Rightarrow> u256 \<Rightarrow> world
   \<Rightarrow> (world \<times> nat \<times> address \<times> bytes) option" where
  "ext_create C X E endowment gas code op salt w =
     (let my = e_myAddress E; d = e_depth E + 1;
          r = (if op = I_CREATE then createOpcode C d my endowment (e_gasPrice E) gas code (e_origin E) (w_state w)
               else create2Opcode C d my endowment (e_gasPrice E) gas code (e_origin E) salt (w_state w)) in
      case r of
        None \<Rightarrow> None
      | Some r \<Rightarrow>
          (case finish C X r w of
             None \<Rightarrow> None
           | Some (x, w) \<Rightarrow> Some (w, m_gas x, m_newAddress x, m_output x)))"

fun ext_world :: "chain \<Rightarrow> nat \<Rightarrow> vm_env \<Rightarrow> world ext_ops" where
  "ext_world C n E =
     (let B = c_backend C; my = e_myAddress E in
      \<lparr>x_store = \<lambda>w k. fst (state_storage B my k (w_state w)),
       x_setStore = \<lambda>k v w. w\<lparr>w_state := setStorage B my k v (w_state w)\<rparr>,
       x_balance = \<lambda>w a. fst (state_balance B a (w_state w)),
       x_exists = \<lambda>w a.
         if emptinessIsNonexistence (c_schedule C) then fst (accountNonemptyAndExisting B a (w_state w))
         else fst (addressInUse B a (w_state w)),
       x_codeAt = \<lambda>w a. fst (state_code B a (w_state w)),
       x_codeSizeAt = \<lambda>w a. fst (codeSize B a (w_state w)),
       x_suicide = ext_suicide B my,
       x_log = \<lambda>ts d w. w\<lparr>w_sub := (w_sub w)\<lparr>sub_logs := sub_logs (w_sub w) @ [(my, ts, d)]\<rparr>\<rparr>,
       x_blockHash = ext_blockHash C E,
       x_refund = \<lambda>g w. w\<lparr>w_sub := (w_sub w)\<lparr>refunds := refunds (w_sub w) + of_nat g\<rparr>\<rparr>,
       x_create = (case n of 0 \<Rightarrow> \<lambda>_ _ _ _ _ _. None | Suc m \<Rightarrow> ext_create C (ext_world C m) E),
       x_call = (case n of 0 \<Rightarrow> \<lambda>_ _. None | Suc m \<Rightarrow> ext_call C (ext_world C m) E),
       x_sha3 = b_sha3 B\<rparr>)"

declare ext_world.simps [simp del]


subsection \<open>Transactions\<close>

datatype tx_error =
    InvalidSignature | TransactionIsUnsigned | InvalidZeroSignatureTransaction | OutOfGasIntrinsicError
  | BlockGasLimitReachedError | InvalidNonce | NotEnoughCashError | StateError state_error
  | InvalidTransactionFormat | RlpError rlp_error

text \<open>\<open>t_sender\<close> is what \<open>sender ()\<close> returns or throws.\<close>

record Transaction =
  t_isCreation :: bool
  t_nonce :: u256
  t_value :: u256
  t_receiveAddress :: address
  t_gasPrice :: u256
  t_gas :: u256
  t_data :: bytes
  t_vrs :: "(u256 \<times> u256 \<times> byte) option" \<comment> \<open>\<open>r\<close>, \<open>s\<close> and \<open>v\<close>\<close>
  t_chainId :: int
  t_sender :: "tx_error + address"

definition hasZeroSignature :: "Transaction \<Rightarrow> bool" where
  "hasZeroSignature t = (case t_vrs t of None \<Rightarrow> False | Some (r, s, v) \<Rightarrow> r = 0 \<and> s = 0)"

definition isReplayProtected :: "Transaction \<Rightarrow> bool" where
  "isReplayProtected t = (t_chainId t \<noteq> - 4)"

definition tx_from :: "Transaction \<Rightarrow> address" where
  "tx_from t = (case t_sender t of Inl _ \<Rightarrow> ZeroAddress | Inr a \<Rightarrow> a)"

definition c_secp256k1n :: nat where
  "c_secp256k1n = 115792089237316195423570985008687907852837564279074904382605163141518161494337"

definition checkLowS :: "Transaction \<Rightarrow> tx_error + unit" where
  "checkLowS t =
     (case t_vrs t of
        None \<Rightarrow> Inl TransactionIsUnsigned
      | Some (r, s, v) \<Rightarrow> if unat s > c_secp256k1n div 2 then Inl InvalidSignature else Inr ())"

definition baseGasRequired :: "bool \<Rightarrow> bytes \<Rightarrow> EVMSchedule \<Rightarrow> nat" where
  "baseGasRequired contractCreation d S =
     foldl (\<lambda>g i. g + (if i \<noteq> 0 then txDataNonZeroGas S else txDataZeroGas S)) (if contractCreation then txCreateGas S else txGas S) d"

text \<open>\<open>SealEngineFace::verifyTransaction\<close> with \<open>ImportRequirements::Everything\<close>.\<close>

definition verifyTransaction :: "chain \<Rightarrow> Transaction \<Rightarrow> u256 \<Rightarrow> tx_error + unit" where
  "verifyTransaction C t gasUsed =
     (if c_number C < EIP158ForkBlock C \<and> isReplayProtected t then Inl InvalidSignature
      else if c_number C < constantinopleForkBlock C \<and> hasZeroSignature t then Inl InvalidSignature
      else if c_number C \<ge> constantinopleForkBlock C \<and> hasZeroSignature t \<and> (t_value t \<noteq> 0 \<or> t_gasPrice t \<noteq> 0 \<or> t_nonce t \<noteq> 0)
      then Inl InvalidZeroSignatureTransaction
      else
        ebind (if c_number C \<ge> homesteadForkBlock C \<and> t_vrs t \<noteq> None then checkLowS t else Inr ()) (\<lambda>_.
        if baseGasRequired (t_isCreation t) (t_data t) (c_schedule C) > unat (t_gas t) then Inl OutOfGasIntrinsicError
        else if unat gasUsed + unat (t_gas t) > unat (c_gasLimit C) \<and> nodeAddress C \<noteq> tx_from t then Inl BlockGasLimitReachedError
        else Inr ()))"

text \<open>\<open>initialize\<close>; the result is \<open>m_gasCost\<close> and the state.\<close>

definition initialize :: "chain \<Rightarrow> Transaction \<Rightarrow> u256 \<Rightarrow> State \<Rightarrow> tx_error + u256 \<times> State" where
  "initialize C t gasUsed s =
     (let B = c_backend C; base = baseGasRequired (t_isCreation t) (t_data t) (c_schedule C) in
      ebind (verifyTransaction C t gasUsed) (\<lambda>_.
      if hasZeroSignature t then Inr (0, s)
      else
        ebind (t_sender t) (\<lambda>sender.
        let (nonceReq, s) = getNonce B sender s in
        if t_nonce t \<noteq> nonceReq then Inl InvalidNonce
        else
          let gasCost = unat (t_gas t) * unat (t_gasPrice t); totalCost = unat (t_value t) + gasCost in
          if base > unat (t_gas t) then Inl NotEnoughCashError
          else
            let (balance, s) = state_balance B sender s in
            if unat balance < totalCost then Inl NotEnoughCashError
            else Inr (of_nat gasCost, s))))"

definition lift_state :: "state_error + 'a \<Rightarrow> tx_error + 'a" where
  "lift_state r = (case r of Inl e \<Rightarrow> Inl (StateError e) | Inr a \<Rightarrow> Inr a)"

text \<open>\<open>execute\<close>: pay for the gas, then \<open>create\<close> or \<open>call\<close>.\<close>

definition execute :: "chain \<Rightarrow> Transaction \<Rightarrow> u256 \<Rightarrow> State \<Rightarrow> (tx_error + executive \<times> State) option" where
  "execute C t gasCost s =
     (case t_sender t of
        Inl e \<Rightarrow> Some (Inl e)
      | Inr sender \<Rightarrow>
          (case subBalance (c_backend C) sender gasCost s of
             Inl e \<Rightarrow> Some (Inl (StateError e))
           | Inr s \<Rightarrow>
               let gas = unat (t_gas t - of_nat (baseGasRequired (t_isCreation t) (t_data t) (c_schedule C))) in
               map_option lift_state
                 (if t_isCreation t then createOpcode C 0 sender (t_value t) (t_gasPrice t) gas (t_data t) sender s
                  else
                    Some (exec_call C 0 True
                      \<lparr>senderAddress = sender, codeAddress = t_receiveAddress t, receiveAddress = t_receiveAddress t,
                       valueTransfer = t_value t, apparentValue = t_value t, call_gas = gas, call_data = t_data t,
                       call_static = False\<rparr> (t_gasPrice t) sender s))))"

text \<open>\<open>finalize\<close>: refunds, fees and suicides (of the result, the output and the data on the deposit are left out); \<open>gasUsed\<close> throws when there is more gas than at the start.\<close>

record ExecutionResult =
  r_gasUsed :: u256
  r_excepted :: TransactionException
  r_newAddress :: address
  r_gasRefunded :: u256
  r_logs :: "(address \<times> u256 list \<times> bytes) list"

definition finalize :: "chain \<Rightarrow> Transaction \<Rightarrow> executive \<Rightarrow> State \<Rightarrow> tx_error + ExecutionResult \<times> State" where
  "finalize C t x s =
     (let B = c_backend C; vm = (m_extvm x \<noteq> None);
          refs = refunds (m_sub x) + of_nat (suicideRefundGas (c_schedule C)) * of_nat (length (suicides (m_sub x)));
          refunded = (if vm then min ((t_gas t - of_nat (m_gas x)) div 2) refs else 0);
          gas = of_nat (m_gas x) + refunded in
      ebind (t_sender t) (\<lambda>sender.
      ebind (lift_state (addBalance B sender (gas * t_gasPrice t) s)) (\<lambda>s.
      ebind (lift_state (addBalance B (c_author C) ((t_gas t - gas) * t_gasPrice t) s)) (\<lambda>s.
      let s = (if vm then fold (state_kill B) (suicides (m_sub x)) s else s) in
      if t_gas t < gas then Inl OutOfGasIntrinsicError
      else
        Inr (\<lparr>r_gasUsed = t_gas t - gas, r_excepted = m_excepted x, r_newAddress = m_newAddress x,
              r_gasRefunded = (if vm then refs else 0), r_logs = (if vm then sub_logs (m_sub x) else [])\<rparr>, s)))))"

text \<open>\<open>executeTransaction\<close> of \<open>State.cpp\<close>; 1024 is the limit of the depth of calls.\<close>

definition executeTransaction :: "chain \<Rightarrow> Transaction \<Rightarrow> u256 \<Rightarrow> State \<Rightarrow> (tx_error + ExecutionResult \<times> State) option" where
  "executeTransaction C t gasUsed s =
     (case initialize C t gasUsed s of
        Inl e \<Rightarrow> Some (Inl e)
      | Inr (gasCost, s) \<Rightarrow>
          (case execute C t gasCost s of
             None \<Rightarrow> None
           | Some (Inl e) \<Rightarrow> Some (Inl e)
           | Some (Inr (x, s)) \<Rightarrow>
               (case go C (ext_world C 1024) x s of
                  None \<Rightarrow> None
                | Some (x, s) \<Rightarrow> Some (finalize C t x s))))"

end
