(* ===== verification/Executive_Setup.thy ===== *)
theory Executive_Setup
  imports Executive World_Log EVM_Run RLP_Field
begin

section \<open>Message calls: setting up\<close>

text \<open>
  A message call or creation keeps the state coherent, gives back at most the gas it was given, and, when it fails,
  leaves the accounts as they were; under the schedules from EIP150 on it returns. By induction on the levels
  left below the limit of the call depth the externalities meet the interpreter's contract.
\<close>

subsection \<open>Steps of the state\<close>

definition codes_fit :: "backend \<Rightarrow> State \<Rightarrow> bool" where
  "codes_fit B s \<longleftrightarrow> (\<forall>a w. view B s a = Some w \<longrightarrow> length (v_code w) < 2 ^ 64)"

definition good :: "backend \<Rightarrow> State \<Rightarrow> bool" where
  "good B s \<longleftrightarrow> world_ok B s \<and> codes_fit B s"

definition adv :: "backend \<Rightarrow> State \<Rightarrow> State \<Rightarrow> bool" where
  "adv B s s' \<longleftrightarrow> advance True B s s' \<and> codes_fit B s'"

lemma goodD: "good B s \<Longrightarrow> world_ok B s" "good B s \<Longrightarrow> state_ok B s" "good B s \<Longrightarrow> codes_fit B s"
  by (auto simp: good_def dest: world_okD(1))

lemma adv_good: "adv B s s' \<Longrightarrow> good B s'"
  by (auto simp: adv_def good_def dest: advanceD(1))

lemma adv_refl: "good B s \<Longrightarrow> adv B s s"
  by (simp add: adv_def good_def advance_refl)

lemma adv_trans [trans]: "adv B s s1 \<Longrightarrow> adv B s1 s2 \<Longrightarrow> adv B s s2"
  using advance_trans by (auto simp: adv_def)

lemma adv_base: "adv B s s' \<Longrightarrow> same_base s s'"
  by (simp add: adv_def advance_def)

lemma quiet_adv: "good B s \<Longrightarrow> quiet B s s' \<Longrightarrow> adv B s s'"
  using quiet_advance [of B s s'] by (auto simp: adv_def good_def codes_fit_def quiet_def)

lemma wrote_adv:
  assumes "good B s" "wrote True B s s' a w" "length (v_code w) < 2 ^ 64"
  shows "adv B s s'"
  using assms by (auto simp: adv_def good_def codes_fit_def wrote_def)

lemma fold_undo_None: "v a = None \<Longrightarrow> fold (undo_view B \<sigma>) cs v a = None"
proof (induction cs arbitrary: v)
  case (Cons c cs)
  have "undo_view B \<sigma> c v a = None" using Cons.prems by (cases c) (auto simp: undo_view_def)
  then show ?case using Cons.IH by simp
qed simp

text \<open>Accounts do not go away, and what the log names has been changed.\<close>

lemma adv_exists:
  assumes "adv B s s'" "view B s a \<noteq> None"
  shows "view B s' a \<noteq> None"
proof
  assume n: "view B s' a = None"
  obtain cs where "view_sim True (m_storages s) (fold (undo_view B (m_storages s)) cs (view B s')) (view B s)"
    using assms(1) by (auto simp: adv_def advance_def)
  then have "rel_option (acct_sim True (m_storages s)) (fold (undo_view B (m_storages s)) cs (view B s') a) (view B s a)"
    by (rule view_simD)
  then show False using fold_undo_None [of "view B s'" a B "m_storages s" cs] n assms(2) by simp
qed

lemma adv_dirty: "adv B s s' \<Longrightarrow> a \<in> change_addr ` set (m_changeLog s) \<Longrightarrow> dirty s' a"
  using advanceD(4) [of True B s s'] world_okD(4) [of B s'] advanceD(1) [of True B s s'] by (fastforce simp: adv_def)

lemma adv_rollback:
  assumes "good B s" "adv B s s'"
  shows "adv B s (rollback B (savepoint s) s')"
    "view_sim True (m_storages s) (view B (rollback B (savepoint s) s')) (view B s)"
proof -
  have a: "advance True B s s'" using assms(2) by (simp add: adv_def)
  show sim: "view_sim True (m_storages s) (view B (rollback B (savepoint s) s')) (view B s)"
    using advance_rollback(3) [OF a] .
  have "codes_fit B (rollback B (savepoint s) s')"
    unfolding codes_fit_def
  proof (intro allI impI)
    fix b w assume w: "view B (rollback B (savepoint s) s') b = Some w"
    then obtain w0 where "view B s b = Some w0" "v_code w = v_code w0"
      using view_simD [OF sim, of b] by (cases "view B s b") (auto simp: acct_sim_def)
    then show "length (v_code w) < 2 ^ 64" using goodD(3) [OF assms(1)] by (auto simp: codes_fit_def)
  qed
  then show "adv B s (rollback B (savepoint s) s')" using advance_rollback(1) [OF a] by (simp add: adv_def)
qed

lemma codes_fit_upd: "codes_fit B s \<Longrightarrow> view B s' = (view B s)(a := q) \<Longrightarrow> (\<And>w. q = Some w \<Longrightarrow> length (v_code w) < 2 ^ 64) \<Longrightarrow> codes_fit B s'"
  by (auto simp: codes_fit_def)

lemma or_new_code: "codes_fit B s \<Longrightarrow> (\<And>w. v_code (f w) = v_code w) \<Longrightarrow> length (v_code (or_new B s n b f (view B s a))) < 2 ^ 64"
  by (auto simp: or_new_def codes_fit_def split: option.split)

lemma incNonce_adv:
  assumes "good B s"
  shows "\<exists>s'. incNonce B a s = Inr s' \<and> adv B s s' \<and> bal (view B s') = bal (view B s)"
proof -
  obtain s' where s': "incNonce B a s = Inr s'"
      "wrote True B s s' a (or_new B s (m_accountStartNonce s + 1) 0 (\<lambda>w. w\<lparr>v_nonce := v_nonce w + 1\<rparr>) (view B s a))"
    using incNonce_wrote [OF goodD(1) [OF assms]] by blast
  have "bal (view B s') = bal (view B s)"
    using s'(2) by (intro ext) (auto simp: wrote_def bal_def or_new_def split: option.split)
  then show ?thesis using s' wrote_adv [OF assms s'(2)] or_new_code [OF goodD(3) [OF assms]] by simp
qed

lemma setNonce_adv:
  assumes "good B s"
  shows "adv B s (setNonce B a n s)" "view B (setNonce B a n s) a \<noteq> None" "a \<in> change_addr ` set (m_changeLog (setNonce B a n s))"
proof -
  note w = setNonce_wrote [OF goodD(1) [OF assms], of True a n]
  show "adv B s (setNonce B a n s)" using wrote_adv [OF assms w] or_new_code [OF goodD(3) [OF assms]] by simp
  show "view B (setNonce B a n s) a \<noteq> None" using w by (simp add: wrote_def)
  show "a \<in> change_addr ` set (m_changeLog (setNonce B a n s))"
    by (auto simp: setNonce_def createAccount_def log_change_def split: prod.split option.split)
qed

lemma addBalance_adv:
  assumes "good B s"
  shows "\<exists>s'. addBalance B a x s = Inr s' \<and> adv B s s' \<and> view B s' a \<noteq> None \<and> view B s' = credit B s a x (view B s)"
proof -
  obtain s' where s': "addBalance B a x s = Inr s'" "advance True B s s'" "view B s' = credit B s a x (view B s)"
    using addBalance_spec [OF goodD(1) [OF assms]] by blast
  have "codes_fit B s'"
    using codes_fit_upd [OF goodD(3) [OF assms] s'(3) [unfolded credit_def]] or_new_code [OF goodD(3) [OF assms]] by simp
  then show ?thesis using s' by (simp add: adv_def credit_def)
qed

lemma subBalance_adv:
  assumes "good B s"
  shows "if bal (view B s) a < x then subBalance B a x s = Inl NotEnoughCash
    else \<exists>s'. subBalance B a x s = Inr s' \<and> adv B s s' \<and> view B s' = debit a x (view B s)"
proof -
  have "codes_fit B s'" if "view B s' = debit a x (view B s)" for s'
    using that goodD(3) [OF assms] by (auto simp: codes_fit_def debit_def split: if_splits)
  then show ?thesis using subBalance_spec [OF goodD(1) [OF assms], of a x True] by (auto simp: adv_def split: if_splits)
qed

lemma transferBalance_adv:
  assumes "good B s"
  shows "if bal (view B s) src < x then transferBalance B src dst x s = Inl NotEnoughCash
    else \<exists>s'. transferBalance B src dst x s = Inr s' \<and> adv B s s' \<and> view B s' dst \<noteq> None"
proof (cases "bal (view B s) src < x")
  case True
  then show ?thesis using subBalance_adv [OF assms, of src x] by (simp add: transferBalance_def)
next
  case False
  then obtain s1 where s1: "subBalance B src x s = Inr s1" "adv B s s1" using subBalance_adv [OF assms, of src x] by auto
  then show ?thesis
    using addBalance_adv [OF adv_good [OF s1(2)], of dst x] adv_trans [OF s1(2)] False by (auto simp: transferBalance_def)
qed

lemma setBalance_adv:
  assumes "good B s"
  shows "\<exists>s'. setBalance B a x s = Inr s' \<and> adv B s s'"
proof -
  obtain s' where s': "setBalance B a x s = Inr s'" "advance True B s s'" "view B s' = credit B s a (x - bal (view B s) a) (view B s)"
    using setBalance_spec [OF goodD(1) [OF assms]] by blast
  have "codes_fit B s'"
    using codes_fit_upd [OF goodD(3) [OF assms] s'(3) [unfolded credit_def]] or_new_code [OF goodD(3) [OF assms]] by simp
  then show ?thesis using s' by (simp add: adv_def)
qed

lemma setStorage_adv:
  assumes "good B s" "view B s a \<noteq> None"
  shows "adv B s (setStorage B a k x s)"
proof -
  obtain v where v: "view B s a = Some v" using assms(2) by blast
  show ?thesis
    using wrote_adv [OF assms(1) setStorage_wrote [OF goodD(1) [OF assms(1)] v]] goodD(3) [OF assms(1)] v
    by (auto simp: codes_fit_def)
qed

lemma setCode_adv:
  assumes "good B s" "dirty s a" "length c < 2 ^ 64"
  shows "adv B s (setCode B a c s)"
proof -
  obtain v where v: "view B s a = Some v" using dirty_view [OF assms(2), of B] by blast
  show ?thesis using wrote_adv [OF assms(1) setCode_wrote [OF goodD(1) [OF assms(1)] v assms(2)]] assms(3) by simp
qed

lemma clearStorage_adv:
  assumes "good B s" "dirty s a"
  shows "adv B s (clearStorage B a s)"
proof -
  obtain v where v: "view B s a = Some v" using dirty_view [OF assms(2), of B] by blast
  then show ?thesis
    using clearStorage_wrote [OF goodD(1) [OF assms(1)] v assms(2)] wrote_adv [OF assms(1)] adv_refl [OF assms(1)] goodD(3) [OF assms(1)]
    by (fastforce simp: codes_fit_def split: if_splits)
qed


subsection \<open>Setting up calls and creations\<close>

definition engine_ok :: "chain \<Rightarrow> bool" where
  "engine_ok C \<longleftrightarrow> (\<forall>a d. length (snd (executePrecompiled C a d)) < 2 ^ 64)"

text \<open>
  An executive that has been set up on the state \<open>s0\<close> of its savepoint, with at most \<open>gas\<close>: if there is code to
  run it fits, its account is there, and has been changed in the case of a creation; if it has failed already,
  other than for the price of a precompiled contract, nothing has changed.
\<close>

definition runnable :: "chain \<Rightarrow> nat \<Rightarrow> executive \<Rightarrow> State \<Rightarrow> vm_env \<Rightarrow> bool" where
  "runnable C d x s E \<longleftrightarrow>
     env_fits E \<and> e_schedule E = c_schedule C \<and> e_depth E = d \<and> view (c_backend C) s (e_myAddress E) \<noteq> None \<and>
     (m_isCreation x \<longrightarrow> e_myAddress E \<in> change_addr ` set (m_changeLog s))"

definition clean_failure :: "backend \<Rightarrow> State \<Rightarrow> executive \<Rightarrow> State \<Rightarrow> bool" where
  "clean_failure B s0 x s \<longleftrightarrow>
     (m_excepted x \<notin> {NoException, OutOfGasBase} \<longrightarrow> view_sim True (m_storages s0) (view B s) (view B s0))"

definition prepared :: "chain \<Rightarrow> nat \<Rightarrow> nat \<Rightarrow> State \<Rightarrow> executive \<Rightarrow> State \<Rightarrow> bool" where
  "prepared C d gas s0 x s \<longleftrightarrow>
     good (c_backend C) s0 \<and> m_savepoint x = savepoint s0 \<and> adv (c_backend C) s0 s \<and> m_gas x \<le> gas \<and>
     length (m_output x) < 2 ^ 64 \<and> (m_excepted x \<noteq> NoException \<longrightarrow> m_extvm x = None) \<and>
     clean_failure (c_backend C) s0 x s \<and> (\<forall>E. m_extvm x = Some E \<longrightarrow> runnable C d x s E)"

lemma bump_nonce_ok:
  assumes "good (c_backend C) s"
  shows "\<exists>s0. bump_nonce C a s = Inr s0 \<and> adv (c_backend C) s s0 \<and> bal (view (c_backend C) s0) = bal (view (c_backend C) s)"
  using incNonce_adv [OF assms, of a] adv_refl [OF assms] by (auto simp: bump_nonce_def)

lemma quiet_bal: "quiet B s s' \<Longrightarrow> bal (view B s') = bal (view B s)"
  by (simp add: quiet_def)

lemma exec_call_ok:
  fixes C defines "B \<equiv> c_backend C"
  assumes s: "good B s" and C: "engine_ok C" and p: "length (call_data p) < 2 ^ 64"
  shows "case exec_call C d external p gasPrice origin s of
      Inl e \<Rightarrow> bal (view B s) (senderAddress p) < valueTransfer p
    | Inr (x, s') \<Rightarrow> \<not> m_isCreation x \<and> (\<exists>s0. adv B s s0 \<and> prepared C d (call_gas p) s0 x s' \<and>
        (if external then bump_nonce C (senderAddress p) s else Inr s) = Inr s0)"
proof -
  obtain s0 where s0: "(if external then bump_nonce C (senderAddress p) s else Inr s) = Inr s0" "adv B s s0"
      "bal (view B s0) = bal (view B s)"
    using bump_nonce_ok [of C s "senderAddress p"] s adv_refl [OF s] by (cases external) (auto simp: B_def)
  note g0 = adv_good [OF s0(2)]
  let ?x = "new_executive\<lparr>m_savepoint := savepoint s0\<rparr>"
  note defs = prepared_def clean_failure_def runnable_def B_def [symmetric]
  show ?thesis
  proof (cases "isPrecompiled C (codeAddress p)")
    case pre: True
    define g where "g = costOfPrecompiled C (codeAddress p) (call_data p)"
    show ?thesis
    proof (cases "call_gas p < g")
      case True
      obtain s1 where s1: "(if c_number C \<ge> EIP158ForkBlock C then addBalance B (codeAddress p) 0 s0 else Inr s0) = Inr s1" "adv B s0 s1"
        using addBalance_adv [OF g0, of "codeAddress p" 0] adv_refl [OF g0] by (cases "c_number C \<ge> EIP158ForkBlock C") auto
      have "exec_call C d external p gasPrice origin s = Inr (?x\<lparr>m_excepted := OutOfGasBase\<rparr>, s1)"
        using pre True s0(1) s1(1) by (auto simp: exec_call_def B_def [symmetric] g_def Let_def split: if_splits)
      then show ?thesis using s0(1,2) s1(2) g0 by (auto simp: defs new_executive_def)
    next
      case False
      obtain success out where out: "executePrecompiled C (codeAddress p) (call_data p) = (success, out)" by fastforce
      have len: "length out < 2 ^ 64" using C out unfolding engine_ok_def by (metis snd_conv)
      let ?y = "?x\<lparr>m_gas := call_gas p - g, m_output := out\<rparr>"
      have eq: "exec_call C d external p gasPrice origin s =
          (if \<not> success then Inr (?y\<lparr>m_gas := 0, m_excepted := TxOutOfGas\<rparr>, s0)
           else ebind (transferBalance B (senderAddress p) (receiveAddress p) (valueTransfer p) s0) (\<lambda>s. Inr (?y, s)))"
        using pre False s0(1) out by (simp add: exec_call_def B_def [symmetric] g_def Let_def)
      show ?thesis
        using transferBalance_adv [OF g0, of "senderAddress p" "valueTransfer p" "receiveAddress p"] s0(1-3) g0 len adv_refl [OF g0]
        unfolding eq by (auto simp: defs new_executive_def split: if_splits)
    qed
  next
    case code: False
    let ?a = "codeAddress p"
    define s1 s2 s3 where "s1 = snd (addressHasCode B ?a s0)" and "s2 = snd (state_code B ?a s1)" and "s3 = snd (codeHash B ?a s2)"
    define c where "c = fst (state_code B ?a s1)"
    define E where "E = ExtVM C (receiveAddress p) (senderAddress p) origin (apparentValue p) gasPrice (call_data p) c d (call_static p)"
    define y where "y = ?x\<lparr>m_gas := call_gas p, m_extvm := (if fst (addressHasCode B ?a s0) then Some E else None)\<rparr>"
    define sN where "sN = (if fst (addressHasCode B ?a s0) then s3 else s1)"
    have q1: "quiet B s0 s1" using addressHasCode.quiet_get [OF goodD(2) [OF g0]] by (simp add: s1_def)
    have q2: "quiet B s0 s2" using quiet_trans [OF q1 state_code.quiet_get [OF quietD(1) [OF q1]]] by (simp add: s2_def)
    have q3: "quiet B s0 s3" using quiet_trans [OF q2 codeHash.quiet_get [OF quietD(1) [OF q2]]] by (simp add: s3_def)
    have len: "length c < 2 ^ 64"
      using state_code.reads [OF quietD(1) [OF q1], of ?a] goodD(3) [OF adv_good [OF quiet_adv [OF g0 q1]]]
      by (auto simp: c_def codes_fit_def split: option.split)
    have q: "quiet B s0 sN" using q1 q3 by (simp add: sN_def)
    have eq: "exec_call C d external p gasPrice origin s =
        ebind (transferBalance B (senderAddress p) (receiveAddress p) (valueTransfer p) sN) (\<lambda>s. Inr (y, s))"
      using code s0(1)
      by (auto simp: exec_call_def B_def [symmetric] Let_def split_beta s1_def s2_def s3_def sN_def c_def y_def E_def new_executive_def)
    have gN: "good B sN" "adv B s0 sN" using adv_good quiet_adv [OF g0 q] by blast+
    have fits: "env_fits E" using len p by (simp add: E_def ExtVM_def env_fits_def)
    show ?thesis
    proof (cases "bal (view B sN) (senderAddress p) < valueTransfer p")
      case True
      then show ?thesis
        using transferBalance_adv [OF gN(1), of "senderAddress p" "valueTransfer p" "receiveAddress p"] quiet_bal [OF q] s0(3)
        unfolding eq by simp
    next
      case False
      then obtain s' where s': "transferBalance B (senderAddress p) (receiveAddress p) (valueTransfer p) sN = Inr s'"
          "adv B sN s'" "view B s' (receiveAddress p) \<noteq> None"
        using transferBalance_adv [OF gN(1), of "senderAddress p" "valueTransfer p" "receiveAddress p"] by auto
      have "prepared C d (call_gas p) s0 y s'"
        using g0 adv_trans [OF gN(2) s'(2)] fits s'(3)
        by (auto simp: defs y_def new_executive_def E_def ExtVM_def split: if_splits)
      then show ?thesis using s0(1,2) unfolding eq s'(1) by (auto simp: y_def new_executive_def)
    qed
  qed
qed


lemma revert_ok:
  assumes "good B s0" "adv B s0 s" "m_savepoint x = savepoint s0" "revert B x s = (x', s')"
  shows "adv B s0 s'" "view_sim True (m_storages s0) (view B s') (view B s0)"
    "x' = x\<lparr>m_sub := m_sub x', m_newAddress := ZeroAddress\<rparr>"
  using adv_rollback [OF assms(1,2)] assms(3,4) by (auto simp: revert_def)

lemma executeCreate_ok:
  fixes C defines "B \<equiv> c_backend C"
  assumes s: "good B s" and init: "length init < 2 ^ 64"
  shows "case executeCreate C d a sender endowment gasPrice gas init origin s of
      Inl e \<Rightarrow> bal (view B s) sender < endowment
    | Inr (x, s') \<Rightarrow> \<exists>s0. adv B s s0 \<and> prepared C d gas s0 x s' \<and> bump_nonce C sender s = Inr s0 \<and>
        (\<forall>E. m_extvm x = Some E \<longrightarrow> e_myAddress E = a)"
proof -
  obtain s0 where s0: "bump_nonce C sender s = Inr s0" "adv B s s0" "bal (view B s0) = bal (view B s)"
    using bump_nonce_ok [of C s sender] s by (auto simp: B_def)
  note g0 = adv_good [OF s0(2)]
  note defs = prepared_def clean_failure_def runnable_def B_def [symmetric]
  define x where "x = new_executive\<lparr>m_newAddress := a, m_savepoint := savepoint s0, m_isCreation := True, m_gas := gas\<rparr>"
  define hc s1 where "hc = fst (addressHasCode B a s0)" and "s1 = snd (addressHasCode B a s0)"
  define used s2 where "used = (hc \<or> fst (getNonce B a s1) > 0)" and "s2 = (if hc then s1 else snd (getNonce B a s1))"
  have q1: "quiet B s0 s1" using addressHasCode.quiet_get [OF goodD(2) [OF g0]] by (simp add: s1_def)
  have q: "quiet B s0 s2" using q1 quiet_trans [OF q1 getNonce.quiet_get [OF quietD(1) [OF q1]]] by (simp add: s2_def)
  have g2: "good B s2" "adv B s0 s2" using adv_good quiet_adv [OF g0 q] by blast+
  define x1 s3 where "x1 = fst (revert B (x\<lparr>m_gas := 0, m_excepted := AddressAlreadyUsed\<rparr>) s2)"
    and "s3 = snd (revert B (x\<lparr>m_gas := 0, m_excepted := AddressAlreadyUsed\<rparr>) s2)"
  define E where "E = ExtVM C a sender origin endowment gasPrice [] init d False"
  have eq: "executeCreate C d a sender endowment gasPrice gas init origin s =
      (if used then Inr (x1\<lparr>m_extvm := None\<rparr>, s3)
       else
         ebind (transferBalance B sender a endowment s2) (\<lambda>s.
         ebind (requireAccountStartNonce s) (\<lambda>start.
           Inr (if init \<noteq> [] then x\<lparr>m_extvm := Some E\<rparr> else x,
             setNonce B a (if c_number C \<ge> EIP158ForkBlock C then start + 1 else start) s))))"
    using s0(1)
    by (simp add: executeCreate_def B_def [symmetric] Let_def split_beta hc_def s1_def used_def s2_def x_def x1_def s3_def E_def)
  show ?thesis
  proof (cases used)
    case True
    have r: "adv B s0 s3" "view_sim True (m_storages s0) (view B s3) (view B s0)"
        "x1 = (x\<lparr>m_gas := 0, m_excepted := AddressAlreadyUsed\<rparr>)\<lparr>m_sub := m_sub x1, m_newAddress := ZeroAddress\<rparr>"
      using revert_ok [OF g0 g2(2), of "x\<lparr>m_gas := 0, m_excepted := AddressAlreadyUsed\<rparr>" x1 s3] by (auto simp: x_def x1_def s3_def)
    have x1: "m_savepoint x1 = savepoint s0" "m_gas x1 = 0" "m_output x1 = []"
      by (subst r(3), simp add: x_def new_executive_def)+
    have "prepared C d gas s0 (x1\<lparr>m_extvm := None\<rparr>) s3"
      using g0 r(1,2) x1 by (simp add: defs)
    then show ?thesis using True s0(1,2) unfolding eq by auto
  next
    case unused: False
    show ?thesis
    proof (cases "bal (view B s2) sender < endowment")
      case True
      then show ?thesis
        using unused transferBalance_adv [OF g2(1), of sender endowment a] quiet_bal [OF q] s0(3) unfolding eq by simp
    next
      case False
      then obtain s4 where s4: "transferBalance B sender a endowment s2 = Inr s4" "adv B s2 s4"
        using transferBalance_adv [OF g2(1), of sender endowment a] by auto
      note g4 = adv_good [OF s4(2)]
      have start: "requireAccountStartNonce s4 = Inr (m_accountStartNonce s4)"
        using start_nonce [OF goodD(1) [OF g4], of s4] by simp
      define n where "n = (if c_number C \<ge> EIP158ForkBlock C then m_accountStartNonce s4 + 1 else m_accountStartNonce s4)"
      have n: "adv B s0 (setNonce B a n s4)"
        using adv_trans [OF g2(2) adv_trans [OF s4(2) setNonce_adv(1) [OF g4]]] .
      have "prepared C d gas s0 (if init \<noteq> [] then x\<lparr>m_extvm := Some E\<rparr> else x) (setNonce B a n s4)"
        using g0 n setNonce_adv(2,3) [OF g4, of a n] init
        by (auto simp: defs x_def new_executive_def E_def ExtVM_def env_fits_def)
      then show ?thesis using unused s0(1,2) s4(1) start unfolding eq n_def by (auto simp: E_def ExtVM_def x_def new_executive_def)
    qed
  qed
qed

lemma rlpList_sender_enc:
  assumes "length sender = 20"
  shows "rlpList_sender sender n = Inr (rlp_enc (RList [RStr sender, int_item (unat n)]))"
proof -
  let ?it = "RList [RStr sender, int_item (unat n)]"
  have n: "unat n < 256 ^ 32" using unsigned_less [of n] by simp
  then have "rlp_bound ?it \<le> 79" using rlp_bound_int_item [OF n] assms by simp
  then have fits: "rlp_fits ?it" by (intro rlp_fits_bound) simp
  have "rlpList_sender sender n = ebind (emit ?it RLPStream) stream_out"
    using append_bigint_emit [OF n] by (simp add: rlpList_sender_def emits_Cons_fun ebind_assoc numeral_2_eq_2)
  moreover have "emit ?it RLPStream = appendRaw (rlp_enc ?it) 1 RLPStream"
    using fits by (intro emit_enc) (simp add: rlp_fits_def rlp_max_def)
  ultimately show ?thesis by (simp add: appendRaw_note RLPStream_def stream_out_def)
qed

end
