(* ===== verification/Executive_Safety.thy ===== *)
theory Executive_Safety
  imports Executive_Setup
begin

section \<open>Message calls: gas, termination and rollback\<close>

text \<open>
  Running what has been set up. By induction on the levels left below the limit of the call depth the
  externalities that \<open>ext_world\<close> builds meet the contract of the interpreter (\<open>ext_ok\<close>, \<open>ext_metered\<close>).
\<close>

subsection \<open>The end of a run\<close>

text \<open>What a call or creation set up on \<open>s0\<close> leaves; under \<open>H\<close>, gas is paid.\<close>

definition finished :: "backend \<Rightarrow> bool \<Rightarrow> nat \<Rightarrow> State \<Rightarrow> executive \<times> State \<Rightarrow> bool" where
  "finished B H gas s0 r \<longleftrightarrow>
     adv B s0 (snd r) \<and> length (m_output (fst r)) < 2 ^ 64 \<and> (H \<longrightarrow> m_gas (fst r) \<le> gas) \<and>
     clean_failure B s0 (fst r) (snd r)"

lemma prepared_finished: "prepared C d gas s0 x s \<Longrightarrow> finished (c_backend C) H gas s0 (x, s)"
  by (simp add: prepared_def finished_def)

lemma vm_failed_ok:
  assumes "good B s0" "adv B s0 s" "m_savepoint x = savepoint s0" "length (m_output x) < 2 ^ 64"
    "H \<longrightarrow> m_gas x \<le> gas" "\<And>out. err = RevertInstruction out \<Longrightarrow> length out < 2 ^ 64"
    "vm_failed B err x s = Some r"
  shows "finished B H gas s0 r"
proof (cases "\<exists>out. err = RevertInstruction out")
  case True
  then obtain out where err: "err = RevertInstruction out" ..
  show ?thesis
    using revert_ok(1,2) [OF assms(1-3), of "fst (revert B x s)" "snd (revert B x s)"] assms(5-7)
    by (auto simp: vm_failed_def err finished_def clean_failure_def revert_def split: prod.splits)
next
  case False
  then have "r = revert B (x\<lparr>m_gas := 0, m_excepted := toTransactionException err\<rparr>) s"
    using assms(7) by (cases err) (auto simp: vm_failed_def)
  then show ?thesis
    using revert_ok(1,2) [OF assms(1,2), of "x\<lparr>m_gas := 0, m_excepted := toTransactionException err\<rparr>" "fst r" "snd r"] assms(3,4)
    by (auto simp: finished_def clean_failure_def revert_def)
qed

lemma vm_failed_returns: "err \<noteq> OutOfBounds \<Longrightarrow> err \<noteq> NoReturn \<Longrightarrow> \<exists>r. vm_failed B err x s = Some r"
  by (cases err) (auto simp: vm_failed_def split: prod.split)

lemma deposit_ok:
  assumes "good B s0" "adv B s0 s" "m_savepoint x = savepoint s0" "length (m_output x) < 2 ^ 64" "H \<longrightarrow> m_gas x \<le> gas"
    "B = c_backend C" "dirty s (e_myAddress E)" "length out < 2 ^ 64" "m_excepted x = NoException" "deposit C E out x s = Some r"
  shows "finished B H gas s0 r"
proof -
  have code: "adv B s0 (setCode B (e_myAddress E) c s)" if "length c < 2 ^ 64" for c
    using adv_trans [OF assms(2) setCode_adv [OF adv_good [OF assms(2)] assms(7) that]] .
  have fail: "finished B H gas s0 q" if "vm_failed B OutOfGas x s = Some q" for q
    using vm_failed_ok [OF assms(1-5) _ that] by simp
  show ?thesis
    using assms(10) code [of out] code [of "[]"] fail assms(4,5,8,9)
    by (auto simp: deposit_def Let_def assms(6) [symmetric] finished_def clean_failure_def split: if_splits)
qed

lemma deposit_returns: "\<exists>r. deposit C E out x s = Some r"
  using vm_failed_returns [of OutOfGas] by (simp add: deposit_def Let_def)

text \<open>The state on which the code of an executive starts.\<close>

definition started :: "backend \<Rightarrow> executive \<Rightarrow> vm_env \<Rightarrow> State \<Rightarrow> State" where
  "started B x E s = (if m_isCreation x then clearStorage B (e_myAddress E) s else s)"

abbreviation since :: "backend \<Rightarrow> State \<Rightarrow> world \<Rightarrow> bool" where
  "since B s w \<equiv> adv B s (w_state w)"

lemma started_ok:
  assumes "prepared C d gas s0 x s" "m_extvm x = Some E"
  shows "adv (c_backend C) s (started (c_backend C) x E s)" "view (c_backend C) (started (c_backend C) x E s) (e_myAddress E) \<noteq> None"
proof -
  let ?B = "c_backend C"
  have r: "runnable C d x s E" and g: "good ?B s" using assms adv_good by (auto simp: prepared_def)
  show a: "adv ?B s (started ?B x E s)"
    using clearStorage_adv [OF g] adv_dirty [OF adv_refl [OF g]] adv_refl [OF g] r by (auto simp: started_def runnable_def)
  show "view ?B (started ?B x E s) (e_myAddress E) \<noteq> None"
    using adv_exists [OF a] r by (simp add: runnable_def)
qed

lemma go_ok:
  fixes C defines "B \<equiv> c_backend C"
  assumes p: "prepared C d gas s0 x s" and run: "go C X x s = Some r"
    and X: "\<And>E. m_extvm x = Some E \<Longrightarrow> ext_ok (since B (started B x E s)) (X E)"
    and H: "\<And>E. H \<Longrightarrow> m_extvm x = Some E \<Longrightarrow> ext_metered (since B (started B x E s)) (X E) E \<and> priced (e_schedule E)"
  shows "finished B H gas s0 r"
proof (cases "m_extvm x")
  case None
  then show ?thesis using run prepared_finished [OF p] by (auto simp: go_def B_def)
next
  case (Some E)
  define s1 where "s1 = started B x E s"
  note st = started_ok [OF p Some, folded B_def, folded s1_def]
  have P: "good B s0" "adv B s0 s" "m_savepoint x = savepoint s0" "length (m_output x) < 2 ^ 64" "m_excepted x = NoException"
      "m_gas x \<le> gas" "runnable C d x s E"
    using p Some by (auto simp: prepared_def B_def)
  have s1: "adv B s0 s1" using adv_trans [OF P(2) st(1)] .
  have "env_fits E" using P(7) by (simp add: runnable_def)
  then have ok: "run_ok (since B s1) (X E) E" using X [OF Some] by (simp add: s1_def)
  obtain e where e: "exec (X E) E (m_gas x) \<lparr>w_state = s1, w_sub = m_sub x\<rparr> = Some e"
    using run Some by (cases "exec (X E) E (m_gas x) \<lparr>w_state = s1, w_sub = m_sub x\<rparr>")
      (auto simp: go_def s1_def started_def B_def Let_def split: option.splits)
  have ex: "exec_ok (since B s1) (run_metered (since B s1) (X E) E) (m_gas x mod 2 ^ 64) e"
    using exec_result [OF ok _ e] adv_refl [OF adv_good [OF s1]] by simp
  have gas: "m_io_gas v \<le> gas" if "H" "run_metered (since B s1) (X E) E \<longrightarrow> m_io_gas v \<le> m_gas x mod 2 ^ 64" for v :: "world vm"
  proof -
    have "m_io_gas v \<le> m_gas x mod 2 ^ 64" using that H [OF that(1) Some] ok unfolding s1_def by blast
    then show ?thesis using P(6) mod_less_eq_dividend [of "m_gas x" "2 ^ 64"] by linarith
  qed
  show ?thesis
  proof (cases e)
    case (Inl l)
    obtain err v where l: "l = (err, v)" by fastforce
    let ?y = "x\<lparr>m_gas := m_io_gas v, m_sub := w_sub (m_ext v)\<rparr>"
    have f: "vm_failed B err ?y (w_state (m_ext v)) = Some r"
      using run Some e Inl l by (simp add: go_def s1_def started_def B_def Let_def)
    have v: "since B s1 (m_ext v)" "\<And>out. err = RevertInstruction out \<Longrightarrow> length out < 2 ^ 64" "H \<longrightarrow> m_io_gas v \<le> gas"
      using ex Inl l gas [of v] by (auto simp: exec_ok_def)
    show ?thesis
      using vm_failed_ok [OF P(1) adv_trans [OF s1 v(1)] _ _ _ v(2) f] P(3,4) v(3) by simp
  next
    case (Inr q)
    obtain v out where q: "q = (v, out)" by fastforce
    let ?y = "x\<lparr>m_gas := m_io_gas v, m_sub := w_sub (m_ext v)\<rparr>" and ?s = "w_state (m_ext v)"
    have v: "since B s1 (m_ext v)" "length out < 2 ^ 64" "H \<longrightarrow> m_io_gas v \<le> gas"
      using ex Inr q gas [of v] by (auto simp: exec_ok_def)
    have r: "(if m_isCreation x then deposit C E out ?y ?s else Some (?y\<lparr>m_output := out\<rparr>, ?s)) = Some r"
      using run Some e Inr q by (simp add: go_def s1_def started_def B_def Let_def)
    show ?thesis
    proof (cases "m_isCreation x")
      case True
      have d: "dirty ?s (e_myAddress E)"
        using adv_dirty [OF adv_trans [OF st(1) v(1)]] P(7) True by (simp add: runnable_def)
      have dep: "deposit C E out ?y ?s = Some r" using r True by simp
      show ?thesis
        by (rule deposit_ok [OF P(1) adv_trans [OF s1 v(1)] _ _ _ B_def [THEN meta_eq_to_obj_eq] d v(2) _ dep])
          (use P(3-5) v(3) in simp_all)
    next
      case False
      then show ?thesis using r adv_trans [OF s1 v(1)] v(2,3) P(5) by (auto simp: finished_def clean_failure_def)
    qed
  qed
qed

lemma go_returns:
  fixes C defines "B \<equiv> c_backend C"
  assumes p: "prepared C d gas s0 x s" 
    and X: "\<And>E. m_extvm x = Some E \<Longrightarrow> ext_ok (since B (started B x E s)) (X E)"
    and H: "\<And>E. m_extvm x = Some E \<Longrightarrow> ext_metered (since B (started B x E s)) (X E) E \<and> priced (e_schedule E)"
  shows "\<exists>r. go C X x s = Some r"
proof (cases "m_extvm x")
  case (Some E)
  define s1 where "s1 = started B x E s"
  have g: "good B s1" using adv_good [OF started_ok(1) [OF p Some]] by (simp add: B_def s1_def)
  have "env_fits E" using p Some by (auto simp: prepared_def runnable_def)
  then have m: "run_metered (since B s1) (X E) E" using X [OF Some] H [OF Some] by (simp add: s1_def)
  obtain e where e: "exec (X E) E (m_gas x) \<lparr>w_state = s1, w_sub = m_sub x\<rparr> = Some e"
    using exec_returns [OF m, of "\<lparr>w_state = s1, w_sub = m_sub x\<rparr>"] adv_refl [OF g] by auto
  have "exec_ok (since B s1) True (m_gas x mod 2 ^ 64) e"
    using exec_result [OF _ _ e, of "since B s1"] m adv_refl [OF g] by simp
  then show ?thesis
    using Some e vm_failed_returns deposit_returns
    by (auto simp: go_def s1_def started_def B_def Let_def exec_ok_def split: sum.split prod.split)
qed (simp add: go_def)

subsection \<open>One level of the call depth\<close>

definition level_ok :: "chain \<Rightarrow> (vm_env \<Rightarrow> world ext_ops) \<Rightarrow> bool" where
  "level_ok C X \<longleftrightarrow>
     (\<forall>E s. good (c_backend C) s \<longrightarrow> view (c_backend C) s (e_myAddress E) \<noteq> None \<longrightarrow> ext_ok (since (c_backend C) s) (X E))"

definition level_metered :: "chain \<Rightarrow> nat \<Rightarrow> (vm_env \<Rightarrow> world ext_ops) \<Rightarrow> bool" where
  "level_metered C d X \<longleftrightarrow>
     (\<forall>E s. good (c_backend C) s \<longrightarrow> view (c_backend C) s (e_myAddress E) \<noteq> None \<longrightarrow> e_depth E = d \<longrightarrow>
        e_schedule E = c_schedule C \<longrightarrow> length (e_myAddress E) = 20 \<longrightarrow> ext_metered (since (c_backend C) s) (X E) E)"

text \<open>An executive whose code, if any, runs at an address of twenty bytes.\<close>

definition addressed :: "executive \<Rightarrow> bool" where
  "addressed x \<longleftrightarrow> (\<forall>E. m_extvm x = Some E \<longrightarrow> length (e_myAddress E) = 20)"

lemma go_level:
  fixes C defines "B \<equiv> c_backend C"
  assumes p: "prepared C d gas s0 x s" and X: "level_ok C X"
    and H: "H \<longrightarrow> level_metered C d X \<and> priced (c_schedule C) \<and> addressed x"
  shows "go C X x s = Some r \<Longrightarrow> finished B H gas s0 r" "H \<Longrightarrow> \<exists>r. go C X x s = Some r"
proof -
  have E: "good B (started B x E s)" "view B (started B x E s) (e_myAddress E) \<noteq> None" "e_depth E = d" "e_schedule E = c_schedule C"
    if "m_extvm x = Some E" for E
    using started_ok [OF p that] adv_good p that by (auto simp: B_def prepared_def runnable_def)
  have ok: "ext_ok (since B (started B x E s)) (X E)" if "m_extvm x = Some E" for E
    using X E [OF that] by (simp add: level_ok_def B_def)
  have metered: "ext_metered (since B (started B x E s)) (X E) E \<and> priced (e_schedule E)" if "H" "m_extvm x = Some E" for E
    using H E [OF that(2)] that by (simp add: level_metered_def addressed_def B_def)
  show "go C X x s = Some r \<Longrightarrow> finished B H gas s0 r" using go_ok [OF p _ ok [unfolded B_def], of r H] metered by (simp add: B_def)
  show "H \<Longrightarrow> \<exists>r. go C X x s = Some r" using go_returns [OF p, of X] ok metered by (simp add: B_def)
qed

lemma finish_ok:
  fixes C defines "B \<equiv> c_backend C"
  assumes p: "prepared C d gas s0 x s" and X: "level_ok C X"
    and H: "H \<longrightarrow> level_metered C d X \<and> priced (c_schedule C) \<and> addressed x"
  shows "finish C X (Inr (x, s)) w = Some (x', w') \<Longrightarrow> finished B H gas s0 (x', w_state w')"
    "H \<Longrightarrow> \<exists>x' w'. finish C X (Inr (x, s)) w = Some (x', w')"
proof -
  show "finish C X (Inr (x, s)) w = Some (x', w') \<Longrightarrow> finished B H gas s0 (x', w_state w')"
    using prepared_finished [OF p] go_level(1) [OF p X H]
    by (auto simp: finish_def B_def split: if_splits option.splits)
  show "H \<Longrightarrow> \<exists>x' w'. finish C X (Inr (x, s)) w = Some (x', w')"
    using go_level(2) [OF p X H] by (auto simp: finish_def split: option.split)
qed

lemma finish_Inl [simp]: "finish C X (Inl e) w = None"
  by (simp add: finish_def)

lemma exec_call_address:
  assumes "exec_call C d external p gasPrice origin s = Inr (x, s')" "m_extvm x = Some E"
  shows "e_myAddress E = receiveAddress p"
proof -
  have "\<forall>E. m_extvm x = Some E \<longrightarrow> e_myAddress E = receiveAddress p"
    using assms(1) by (auto simp: exec_call_def Let_def ebind_def ExtVM_def new_executive_def split: sum.splits prod.splits if_splits)
  then show ?thesis using assms(2) by blast
qed

lemma balance_reads: "good B s \<Longrightarrow> fst (state_balance B a s) = bal (view B s) a"
  using state_balance.reads [OF goodD(2), of B s a] by (auto simp: bal_def split: option.split)

text \<open>How a run fails: not as \<open>OutOfGasBase\<close>, and with its sub-state cleared.\<close>

lemma vm_failed_result:
  assumes "vm_failed B err x s = Some (x', s')"
  shows "m_excepted x' \<notin> {NoException, OutOfGasBase}" "m_extvm x \<noteq> None \<Longrightarrow> m_sub x' = empty_sub"
  using assms by (cases err; auto simp: vm_failed_def revert_def toTransactionException_def split: if_splits)+

lemma deposit_result:
  assumes "deposit C E out x s = Some (x', s')"
  shows "m_excepted x' = m_excepted x \<or> m_excepted x' \<notin> {NoException, OutOfGasBase} \<and> (m_extvm x \<noteq> None \<longrightarrow> m_sub x' = empty_sub)"
  using assms vm_failed_result by (auto simp: deposit_def Let_def split: if_splits)

lemma go_result:
  assumes "go C X x s = Some (x', s')"
  shows "m_excepted x' = m_excepted x \<or> m_excepted x' \<notin> {NoException, OutOfGasBase} \<and> m_sub x' = empty_sub"
proof (cases "m_extvm x")
  case None
  then show ?thesis using assms by (simp add: go_def)
next
  case (Some E)
  show ?thesis
    using assms Some vm_failed_result deposit_result
    by (fastforce simp: go_def Let_def split: option.splits sum.splits prod.splits if_splits)
qed

lemma exec_call_excepted:
  assumes "exec_call C d external p gasPrice origin s = Inr (x, s')" "\<not> isPrecompiled C (codeAddress p)"
  shows "m_excepted x = NoException"
  using assms by (auto simp: exec_call_def Let_def ebind_def new_executive_def split: sum.splits prod.splits if_splits)

lemma add_empty_sub [simp]: "add_sub u empty_sub = u"
  by (simp add: add_sub_def empty_sub_def List.union_def)

lemma ext_callE:
  assumes "ext_call C X E p w = Some (w', g, b, out)"
  obtains x s x' where "exec_call C (e_depth E + 1) False p (e_gasPrice E) (e_origin E) (w_state w) = Inr (x, s)"
    "finish C X (Inr (x, s)) w = Some (x', w')" "g = m_gas x'" "b = (m_excepted x' = NoException)" "out = m_output x'"
proof (cases "exec_call C (e_depth E + 1) False p (e_gasPrice E) (e_origin E) (w_state w)")
  case (Inl e)
  then show ?thesis using assms by (simp add: ext_call_def)
next
  case (Inr q)
  then show ?thesis using assms that by (cases q) (auto simp: ext_call_def split: option.splits)
qed

lemma ext_call_ok:
  fixes C defines "B \<equiv> c_backend C"
  assumes w: "good B (w_state w)" and C: "engine_ok C" and p: "length (call_data p) < 2 ^ 64" and X: "level_ok C X"
    and r: "ext_call C X E p w = Some (w', g, b, out)"
  shows "adv B (w_state w) (w_state w')" "length out < 2 ^ 64"
    "\<not> b \<Longrightarrow> \<not> isPrecompiled C (codeAddress p) \<Longrightarrow>
       view_sim True (m_storages (w_state w)) (view B (w_state w')) (view B (w_state w)) \<and> w_sub w' = w_sub w"
proof -
  obtain x s x' where x: "exec_call C (e_depth E + 1) False p (e_gasPrice E) (e_origin E) (w_state w) = Inr (x, s)"
      "finish C X (Inr (x, s)) w = Some (x', w')" "b = (m_excepted x' = NoException)" "out = m_output x'"
    using ext_callE [OF r] by metis
  have pr: "prepared C (e_depth E + 1) (call_gas p) (w_state w) x s"
    using exec_call_ok [of C "w_state w" p, where d = "e_depth E + 1" and external = False and gasPrice = "e_gasPrice E" and origin = "e_origin E"] w C p x(1) by (auto simp: B_def)
  have f: "finished B False (call_gas p) (w_state w) (x', w_state w')"
    using finish_ok(1) [OF pr X, of False w x' w'] x(2) by (simp add: B_def)
  show "adv B (w_state w) (w_state w')" "length out < 2 ^ 64" using f x(4) by (simp_all add: finished_def)
  show "view_sim True (m_storages (w_state w)) (view B (w_state w')) (view B (w_state w)) \<and> w_sub w' = w_sub w"
    if "\<not> b" "\<not> isPrecompiled C (codeAddress p)"
  proof -
    have e: "m_excepted x = NoException" using exec_call_excepted [OF x(1) that(2)] .
    then have c: "m_extvm x \<noteq> None" using x(2,3) that(1) by (auto simp: finish_def split: if_splits)
    then obtain s' where g: "go C X x s = Some (x', s')" "w' = w\<lparr>w_state := s', w_sub := add_sub (w_sub w) (m_sub x')\<rparr>"
      using x(2) by (auto simp: finish_def split: option.splits)
    have "m_excepted x' \<notin> {NoException, OutOfGasBase}" "m_sub x' = empty_sub"
      using go_result [OF g(1)] e that(1) x(3) by auto
    then show ?thesis using f g(2) by (simp add: finished_def clean_failure_def)
  qed
qed

lemma ext_call_metered:
  fixes C defines "B \<equiv> c_backend C"
  assumes w: "good B (w_state w)" and C: "engine_ok C" and p: "length (call_data p) < 2 ^ 64" and X: "level_ok C X"
    and H: "level_metered C (e_depth E + 1) X" "priced (c_schedule C)" "length (receiveAddress p) = 20"
    and v: "valueTransfer p \<le> bal (view B (w_state w)) (senderAddress p)"
  shows "\<exists>w' g b out. ext_call C X E p w = Some (w', g, b, out) \<and> g \<le> call_gas p"
proof -
  obtain x s where x: "exec_call C (e_depth E + 1) False p (e_gasPrice E) (e_origin E) (w_state w) = Inr (x, s)"
      "prepared C (e_depth E + 1) (call_gas p) (w_state w) x s"
    using exec_call_ok [of C "w_state w" p, where d = "e_depth E + 1" and external = False and gasPrice = "e_gasPrice E" and origin = "e_origin E"] w C p v
    by (auto simp: B_def split: sum.splits)
  have "addressed x" using exec_call_address [OF x(1)] H(3) by (simp add: addressed_def)
  then show ?thesis
    using finish_ok [OF x(2) X, of True w] H(1,2) x(1) by (force simp: ext_call_def finished_def)
qed

text \<open>Creations.\<close>

definition hash_ok :: "backend \<Rightarrow> bool" where
  "hash_ok B \<longleftrightarrow> (\<forall>b. length (b_sha3 B b) = 32)"

definition creation :: "chain \<Rightarrow> Instruction \<Rightarrow> nat \<Rightarrow> address \<Rightarrow> u256 \<Rightarrow> u256 \<Rightarrow> nat \<Rightarrow> bytes \<Rightarrow> address \<Rightarrow> u256 \<Rightarrow> State
    \<Rightarrow> (state_error + executive \<times> State) option" where
  "creation C op d a endowment gasPrice gas init origin salt s =
     (if op = I_CREATE then createOpcode C d a endowment gasPrice gas init origin s
      else create2Opcode C d a endowment gasPrice gas init origin salt s)"

lemma creation_ok:
  fixes C defines "B \<equiv> c_backend C"
  assumes s: "good B s" and init: "length init < 2 ^ 64"
    and r: "creation C op d a endowment gasPrice gas init origin salt s = Some r"
  shows "case r of Inl e \<Rightarrow> bal (view B s) a < endowment
    | Inr (x, s') \<Rightarrow> (\<exists>s0 s1. adv B s s0 \<and> prepared C d gas s0 x s' \<and> quiet B s s1 \<and> bump_nonce C a s1 = Inr s0) \<and>
        (hash_ok B \<longrightarrow> addressed x)"
proof -
  define s1 where "s1 = (if op = I_CREATE then snd (getNonce B a s) else s)"
  have q: "quiet B s s1" using getNonce.quiet_get [OF goodD(2) [OF s]] quiet_refl [OF goodD(2) [OF s]] by (simp add: s1_def)
  note a1 = quiet_adv [OF s q]
  obtain l where l: "r = executeCreate C d (drop 12 (b_sha3 B l)) a endowment gasPrice gas init origin s1"
    using r by (auto simp: creation_def createOpcode_def create2Opcode_def s1_def B_def Let_def split: if_splits prod.splits sum.splits)
  show ?thesis
    using executeCreate_ok [of C s1 init, where a = "drop 12 (b_sha3 B l)" and d = d and sender = a and endowment = endowment and gasPrice = gasPrice and gas = gas and origin = origin] adv_good [OF a1] init l
      adv_trans [OF a1] quiet_bal [OF q] q
    by (auto simp: B_def addressed_def hash_ok_def split: sum.splits)
qed

lemma creation_returns:
  assumes "length a = 20"
  shows "\<exists>r. creation C op d a endowment gasPrice gas init origin salt s = Some r"
  using rlpList_sender_enc [OF assms] by (auto simp: creation_def createOpcode_def create2Opcode_def Let_def split: prod.split)

lemma ext_create_eq:
  "ext_create C X E endowment gas code op salt w =
     (case creation C op (e_depth E + 1) (e_myAddress E) endowment (e_gasPrice E) gas code (e_origin E) salt (w_state w) of
        None \<Rightarrow> None
      | Some r \<Rightarrow>
          (case finish C X r w of
             None \<Rightarrow> None
           | Some (x, w) \<Rightarrow> Some (w, m_gas x, m_newAddress x, m_output x)))"
  by (simp add: ext_create_def creation_def Let_def)

lemma ext_create_ok:
  fixes C defines "B \<equiv> c_backend C"
  assumes w: "good B (w_state w)" and c: "length code < 2 ^ 64" and X: "level_ok C X"
    and r: "ext_create C X E endowment gas code op salt w = Some (w', g, a, out)"
  shows "adv B (w_state w) (w_state w') \<and> length out < 2 ^ 64"
proof -
  obtain r x' where r: "creation C op (e_depth E + 1) (e_myAddress E) endowment (e_gasPrice E) gas code (e_origin E) salt (w_state w) = Some r"
      "finish C X r w = Some (x', w')" "out = m_output x'"
    using r by (auto simp: ext_create_eq split: option.splits)
  then obtain x s where rx: "r = Inr (x, s)" by (cases r) auto
  obtain s0 where s0: "adv B (w_state w) s0" "prepared C (e_depth E + 1) gas s0 x s"
    using creation_ok [of C "w_state w" code op] w c r(1) rx by (fastforce simp: B_def)
  show ?thesis
    using finish_ok(1) [OF s0(2) X, of False w x' w'] adv_trans [OF s0(1)] r rx by (auto simp: finished_def B_def)
qed

lemma ext_create_metered:
  fixes C defines "B \<equiv> c_backend C"
  assumes w: "good B (w_state w)" and c: "length code < 2 ^ 64" and X: "level_ok C X"
    and H: "level_metered C (e_depth E + 1) X" "priced (c_schedule C)" "length (e_myAddress E) = 20" "hash_ok B"
    and v: "endowment \<le> bal (view B (w_state w)) (e_myAddress E)"
  shows "\<exists>w' g a out. ext_create C X E endowment gas code op salt w = Some (w', g, a, out) \<and> g \<le> gas"
proof -
  obtain r where r: "creation C op (e_depth E + 1) (e_myAddress E) endowment (e_gasPrice E) gas code (e_origin E) salt (w_state w) = Some r"
    using creation_returns [OF H(3)] by blast
  note c = creation_ok [of C "w_state w" code op, OF w [unfolded B_def] c r]
  then obtain x s where rx: "r = Inr (x, s)" using v by (cases r) (auto simp: B_def)
  then obtain s0 where s0: "prepared C (e_depth E + 1) gas s0 x s" "addressed x" using c H(4) by (auto simp: B_def)
  then show ?thesis
    using finish_ok [OF s0(1) X, of True w] H(1,2) r rx by (force simp: ext_create_eq finished_def)
qed

subsection \<open>All levels\<close>

lemma ext_suicide_ok:
  assumes "good B (w_state w)"
  shows "\<exists>w'. ext_suicide B my a w = Some w' \<and> adv B (w_state w) (w_state w')"
proof -
  define s x where "s = snd (state_balance B my (w_state w))" and "x = fst (state_balance B my (w_state w))"
  have s: "adv B (w_state w) s" using quiet_adv [OF assms state_balance.quiet_get [OF goodD(2) [OF assms]]] by (simp add: s_def)
  obtain s1 where s1: "addBalance B a x s = Inr s1" "adv B s s1" using addBalance_adv [OF adv_good [OF s]] by blast
  obtain s2 where s2: "setBalance B my 0 s1 = Inr s2" "adv B s1 s2" using setBalance_adv [OF adv_good [OF s1(2)]] by blast
  show ?thesis
    using s1(1) s2(1) adv_trans [OF s adv_trans [OF s1(2) s2(2)]]
    by (simp add: ext_suicide_def s_def x_def split_beta Let_def)
qed

lemma codeAt_fits: "good B s \<Longrightarrow> length (fst (state_code B a s)) < 2 ^ 64"
  using state_code.reads [OF goodD(2), of B s a] goodD(3) [of B s] by (auto simp: codes_fit_def split: option.split)

lemmas ext_world_simps = ext_world.simps Let_def

lemma ext_world_calls:
  "x_call (ext_world C (Suc n) E) = ext_call C (ext_world C n) E" "x_create (ext_world C (Suc n) E) = ext_create C (ext_world C n) E"
  "x_call (ext_world C 0 E) p w = None" "x_create (ext_world C 0 E) v g c op salt w = None"
  by (simp_all add: ext_world_simps)

lemma ext_world_ops:
  "x_codeAt (ext_world C n E) w a = fst (state_code (c_backend C) a (w_state w))"
  "x_balance (ext_world C n E) w a = fst (state_balance (c_backend C) a (w_state w))"
  "x_setStore (ext_world C n E) k v w = w\<lparr>w_state := setStorage (c_backend C) (e_myAddress E) k v (w_state w)\<rparr>"
  "x_suicide (ext_world C n E) = ext_suicide (c_backend C) (e_myAddress E)"
  "w_state (x_log (ext_world C n E) ts d w) = w_state w"
  "w_state (x_refund (ext_world C n E) g w) = w_state w"
  by (simp_all add: ext_world_simps)

lemma ext_world_suicide:
  "since (c_backend C) s w \<Longrightarrow> \<exists>w'. x_suicide (ext_world C n E) a w = Some w'"
  using ext_suicide_ok [OF adv_good] by (simp add: ext_world_ops) blast

lemma ext_world_steps:
  fixes C defines "B \<equiv> c_backend C"
  assumes my: "view B s (e_myAddress E) \<noteq> None"
  shows "\<forall>w a. since B s w \<longrightarrow> length (x_codeAt (ext_world C n E) w a) < 2 ^ 64"
    "\<forall>w k x. since B s w \<longrightarrow> since B s (x_setStore (ext_world C n E) k x w)"
    "\<forall>w a w'. since B s w \<longrightarrow> x_suicide (ext_world C n E) a w = Some w' \<longrightarrow> since B s w'"
proof (safe)
  fix w a assume "since B s w"
  then show "length (x_codeAt (ext_world C n E) w a) < 2 ^ 64" using codeAt_fits [OF adv_good] by (simp add: ext_world_ops B_def)
next
  fix w k x assume w: "since B s w"
  show "since B s (x_setStore (ext_world C n E) k x w)"
    using adv_trans [OF w setStorage_adv [OF adv_good [OF w] adv_exists [OF w my]]] by (simp add: ext_world_ops B_def)
next
  fix w a w' assume w: "since B s w" "x_suicide (ext_world C n E) a w = Some w'"
  then show "since B s w'"
    using ext_suicide_ok [OF adv_good [OF w(1)], of "e_myAddress E" a] adv_trans [OF w(1)] by (auto simp: ext_world_ops B_def)
qed

lemma ext_world_ok:
  assumes "engine_ok C"
  shows "level_ok C (ext_world C n)"
proof (induction n)
  let ?B = "c_backend C"
  case 0
  show ?case using ext_world_steps by (simp add: level_ok_def ext_ok_def ext_world_calls ext_world_ops(5,6))
  case (Suc n)
  have "ext_ok (since ?B s) (ext_world C (Suc n) E)" if my: "view ?B s (e_myAddress E) \<noteq> None" for s E
    unfolding ext_ok_def
  proof (intro conjI ext_world_steps [OF my], goal_cases)
    case 3
    then show ?case
      using ext_call_ok(1,2) [OF adv_good assms _ Suc.IH] adv_trans unfolding ext_world_calls by blast
  next
    case 4
    then show ?case
      using ext_create_ok [OF adv_good _ Suc.IH] adv_trans unfolding ext_world_calls by blast
  qed (simp_all add: ext_world_ops)
  then show ?case by (simp add: level_ok_def)
qed

lemma ext_world_metered:
  assumes C: "engine_ok C" "priced (c_schedule C)" "hash_ok (c_backend C)"
  shows "n \<le> 1024 \<Longrightarrow> level_metered C (1024 - n) (ext_world C n)"
proof (induction n)
  case 0
  show ?case using ext_world_suicide by (simp add: level_metered_def ext_metered_def call_allowed_def)
next
  let ?B = "c_backend C"
  case (Suc n)
  have d: "1024 - Suc n + 1 = 1024 - n" using Suc.prems by simp
  note IH = Suc.IH [OF Suc_leD [OF Suc.prems]] ext_world_ok [OF C(1), of n]
  have "ext_metered (since ?B s) (ext_world C (Suc n) E) E"
    if E: "view ?B s (e_myAddress E) \<noteq> None" "e_depth E = 1024 - Suc n" "length (e_myAddress E) = 20" for s E
    unfolding ext_metered_def
  proof (intro conjI allI impI)
    fix p w assume w: "since ?B s w" and p: "call_allowed (ext_world C (Suc n) E) E w p"
    have "valueTransfer p \<le> bal (view ?B (w_state w)) (senderAddress p)" "length (receiveAddress p) = 20"
      using p E(3) balance_reads [OF adv_good [OF w]] by (auto simp: call_allowed_def ext_world_ops)
    then show "\<exists>w' g b out. x_call (ext_world C (Suc n) E) p w = Some (w', g, b, out) \<and> g \<le> call_gas p"
      using ext_call_metered [OF adv_good [OF w] C(1) _ IH(2), of p E] p IH(1) C(2) d E(2)
      by (simp add: ext_world_calls call_allowed_def)
  next
    fix v g c op salt w assume w: "since ?B s w" and a: "length (c :: bytes) < 2 ^ 64" "v \<le> x_balance (ext_world C (Suc n) E) w (e_myAddress E)"
    then show "\<exists>w' g' a out. x_create (ext_world C (Suc n) E) v g c op salt w = Some (w', g', a, out) \<and> g' \<le> g"
      using ext_create_metered [OF adv_good [OF w] a(1) IH(2), of E v g op salt] IH(1) C(2,3) d E(2,3) balance_reads [OF adv_good [OF w]]
      by (simp add: ext_world_calls ext_world_ops)
  qed (rule ext_world_suicide)
  then show ?case by (simp add: level_metered_def)
qed

end
