(* ===== verification/Executive_Tx.thy ===== *)
theory Executive_Tx
  imports Executive_Safety
begin

section \<open>Transactions: admission, payment and end\<close>

text \<open>
  The three phases of a transaction: \<open>initialize\<close> finds that the sender can pay (\<open>payable\<close>), \<open>execute\<close> takes the payment
  and runs the call or creation, \<open>finalize\<close> refunds and pays the author; the gas left is never more than the gas
  bought less the base price.
\<close>

abbreviation base_gas :: "chain \<Rightarrow> Transaction \<Rightarrow> nat" where
  "base_gas C t \<equiv> baseGasRequired (t_isCreation t) (t_data t) (c_schedule C)"

text \<open>What \<open>initialize\<close> has found of a transaction it accepts: the gas covers the base price, and the sender can pay.\<close>

definition payable :: "chain \<Rightarrow> Transaction \<Rightarrow> u256 \<Rightarrow> State \<Rightarrow> address \<Rightarrow> bool" where
  "payable C t gasCost s a \<longleftrightarrow>
     base_gas C t \<le> unat (t_gas t) \<and> unat (t_value t) + unat gasCost \<le> unat (bal (view (c_backend C) s) a)"

lemma nonce_reads:
  "good B s \<Longrightarrow> fst (getNonce B a s) = (case view B s a of Some w \<Rightarrow> v_nonce w | None \<Rightarrow> m_accountStartNonce s)"
  using getNonce.reads [OF goodD(2), of B s a] by simp

lemma verifyTransaction_Inr:
  "verifyTransaction C t u = Inr () \<longleftrightarrow>
     (c_number C < EIP158ForkBlock C \<longrightarrow> \<not> isReplayProtected t) \<and>
     (hasZeroSignature t \<longrightarrow> constantinopleForkBlock C \<le> c_number C \<and> t_value t = 0 \<and> t_gasPrice t = 0 \<and> t_nonce t = 0) \<and>
     (homesteadForkBlock C \<le> c_number C \<longrightarrow> (\<forall>r s v. t_vrs t = Some (r, s, v) \<longrightarrow> unat s \<le> c_secp256k1n div 2)) \<and>
     base_gas C t \<le> unat (t_gas t) \<and> (unat u + unat (t_gas t) \<le> unat (c_gasLimit C) \<or> nodeAddress C = tx_from t)"
  by (auto simp: verifyTransaction_def checkLowS_def ebind_def split: sum.splits option.splits if_splits)

lemma initialize_eq:
  fixes C defines "B \<equiv> c_backend C"
  assumes s: "good B s" and sender: "\<not> hasZeroSignature t \<Longrightarrow> t_sender t = Inr a"
  shows "(\<exists>s'. initialize C t u s = Inr (gasCost, s') \<and> quiet B s s') \<longleftrightarrow>
      verifyTransaction C t u = Inr () \<and>
      (if hasZeroSignature t then gasCost = 0
       else
         t_nonce t = (case view B s a of Some w \<Rightarrow> v_nonce w | None \<Rightarrow> m_accountStartNonce s) \<and>
         unat (t_value t) + unat (t_gas t) * unat (t_gasPrice t) \<le> unat (bal (view B s) a) \<and>
         gasCost = t_gas t * t_gasPrice t)"
proof -
  define s1 s2 where "s1 = snd (getNonce B a s)" and "s2 = snd (state_balance B a s1)"
  have q1: "quiet B s s1" using getNonce.quiet_get [OF goodD(2) [OF s]] by (simp add: s1_def)
  have q2: "quiet B s s2" using quiet_trans [OF q1 state_balance.quiet_get [OF quietD(1) [OF q1]]] by (simp add: s2_def)
  have b: "fst (state_balance B a s1) = bal (view B s) a"
    using balance_reads [OF adv_good [OF quiet_adv [OF s q1]]] quiet_bal [OF q1] by simp
  have v: "verifyTransaction C t u = Inr () \<Longrightarrow> base_gas C t \<le> unat (t_gas t)" by (simp add: verifyTransaction_Inr)
  have c: "(of_nat (unat (t_gas t) * unat (t_gasPrice t)) :: u256) = t_gas t * t_gasPrice t" by simp
  show ?thesis
    using sender v quiet_refl [OF goodD(2) [OF s]] q2 b nonce_reads [OF s, of a]
    by (cases "verifyTransaction C t u"; cases "hasZeroSignature t")
      (auto simp: initialize_def B_def [symmetric] Let_def split_beta s1_def [symmetric] s2_def [symmetric] not_less not_le)
qed

lemma initialize_quiet:
  assumes "good (c_backend C) s" "initialize C t u s = Inr (gasCost, s')"
  shows "quiet (c_backend C) s s'"
proof (cases "hasZeroSignature t")
  case True
  then show ?thesis using assms quiet_refl [OF goodD(2) [OF assms(1)]] by (auto simp: initialize_def ebind_def Let_def split: sum.splits)
next
  case False
  then obtain a where a: "t_sender t = Inr a"
    using assms(2) by (cases "t_sender t") (auto simp: initialize_def ebind_def Let_def split: sum.splits)
  let ?B = "c_backend C"
  define s1 where "s1 = snd (getNonce ?B a s)"
  have q1: "quiet ?B s s1" using getNonce.quiet_get [OF goodD(2) [OF assms(1)]] by (simp add: s1_def)
  have q2: "quiet ?B s (snd (state_balance ?B a s1))" using quiet_trans [OF q1 state_balance.quiet_get [OF quietD(1) [OF q1]]] .
  show ?thesis
    using assms(2) False a q2
    by (auto simp: initialize_def ebind_def Let_def split_beta s1_def split: sum.splits if_splits)
qed

lemma unat_mult_le: "unat (x * y :: u256) \<le> unat x * unat y"
  by (simp add: unat_word_ariths)

lemma initialize_payable:
  assumes s: "good (c_backend C) s" and a: "t_sender t = Inr a" and i: "initialize C t u s = Inr (gasCost, s')"
  shows "payable C t gasCost s' a"
proof -
  let ?B = "c_backend C"
  note q = initialize_quiet [OF s i]
  have v: "verifyTransaction C t u = Inr ()"
    and c: "if hasZeroSignature t then gasCost = 0 else unat (t_value t) + unat (t_gas t) * unat (t_gasPrice t) \<le> unat (bal (view ?B s) a) \<and>
         gasCost = t_gas t * t_gasPrice t"
    using initialize_eq [OF s, of t a u gasCost] a i q by (auto split: if_splits)
  show ?thesis
    using v c unat_mult_le [of "t_gas t" "t_gasPrice t"] quiet_bal [OF q]
    by (auto simp: payable_def verifyTransaction_Inr split: if_splits)
qed

lemma bump_nonce_view:
  fixes C defines "B \<equiv> c_backend C"
  assumes "good B s"
  shows "\<exists>s'. bump_nonce C a s = Inr s' \<and> adv B s s' \<and> (\<forall>b. bal (view B s') b = bal (view B s) b) \<and>
    (\<forall>b. b \<noteq> a \<longrightarrow> view B s' b = view B s b)"
proof (cases "a \<noteq> MaxAddress \<or> c_number C < constantinopleForkBlock C")
  case True
  obtain s' where s': "incNonce B a s = Inr s'"
      "wrote True B s s' a (or_new B s (m_accountStartNonce s + 1) 0 (\<lambda>w. w\<lparr>v_nonce := v_nonce w + 1\<rparr>) (view B s a))"
    using incNonce_wrote [OF goodD(1) [OF assms(2)]] by blast
  then show ?thesis
    using True incNonce_adv [OF assms(2), of a] by (auto simp: bump_nonce_def B_def wrote_def)
next
  case False
  then show ?thesis using adv_refl [OF assms(2)] by (simp add: bump_nonce_def)
qed

lemma bal_credit: "bal (credit B s c x v) d = bal v d + (if d = c then x else 0)"
  by (auto simp: bal_def credit_def or_new_def split: option.split)

lemma bal_debit: "x \<le> bal v a \<Longrightarrow> bal (debit a x v) d = bal v d - (if d = a then x else 0)"
  by (auto simp: bal_def debit_def split: option.split)

lemma credit_other: "d \<noteq> c \<Longrightarrow> credit B s c x v d = v d"
  by (simp add: credit_def)

lemma debit_other: "d \<noteq> c \<Longrightarrow> debit c x v d = v d"
  by (simp add: debit_def)

lemma paid_ok:
  fixes C defines "B \<equiv> c_backend C"
  assumes s: "good B s" and p: "payable C t gasCost s a"
  shows "\<exists>s1. subBalance B a gasCost s = Inr s1 \<and> adv B s s1 \<and> view B s1 = debit a gasCost (view B s) \<and>
    t_value t \<le> bal (view B s1) a"
proof -
  have le: "unat (t_value t) + unat gasCost \<le> unat (bal (view B s) a)" using p by (simp add: payable_def B_def)
  then have "\<not> bal (view B s) a < gasCost" by (simp add: word_less_nat_alt)
  then obtain s1 where s1: "subBalance B a gasCost s = Inr s1" "adv B s s1" "view B s1 = debit a gasCost (view B s)"
    using subBalance_adv [OF s, of a gasCost] by auto
  have "t_value t \<le> bal (view B s) a - gasCost" using le by (simp add: word_le_nat_alt unat_sub)
  then show ?thesis using s1 \<open>\<not> bal (view B s) a < gasCost\<close> by (simp add: bal_debit)
qed

lemma unat_u256: "unat (w :: u256) < 2 ^ 256"
  using unsigned_less [of w, where ?'a = nat] by simp

lemma unat_of_gas: "n \<le> unat g \<Longrightarrow> unat (of_nat n :: u256) = n" for g :: u256
  using unat_u256 [of g] by (simp add: unat_of_nat take_bit_nat_eq_self)

lemma gas_left: "n \<le> unat g \<Longrightarrow> unat (g - of_nat n :: u256) = unat g - n"
  by (simp add: unat_sub word_le_nat_alt unat_of_gas)

text \<open>Transactions that fit: data and addresses have the sizes of their types.\<close>

definition tx_ok :: "Transaction \<Rightarrow> address \<Rightarrow> bool" where
  "tx_ok t a \<longleftrightarrow> t_sender t = Inr a \<and> length a = 20 \<and> length (t_receiveAddress t) = 20 \<and> length (t_data t) < 2 ^ 64"

text \<open>The state on whose savepoint a transaction runs: the sender has paid for the gas, and its nonce is counted.\<close>

definition charged :: "backend \<Rightarrow> address \<Rightarrow> u256 \<Rightarrow> State \<Rightarrow> State \<Rightarrow> bool" where
  "charged B a cost s s0 \<longleftrightarrow>
     adv B s s0 \<and> (\<forall>b. bal (view B s0) b = bal (view B s) b - (if b = a then cost else 0)) \<and>
     (\<forall>b. b \<noteq> a \<longrightarrow> view B s0 b = view B s b)"

lemma charged_bump:
  fixes C defines "B \<equiv> c_backend C"
  assumes s: "good B s" and c: "cost \<le> bal (view B s) a" and s1: "adv B s s1" "view B s1 = debit a cost (view B s)"
    and q: "quiet B s1 s2" and s0: "bump_nonce C a s2 = Inr s0"
  shows "charged B a cost s s0"
proof -
  have a2: "adv B s s2" using adv_trans [OF s1(1) quiet_adv [OF adv_good [OF s1(1)] q]] .
  have "adv B s2 s0" "\<forall>b. bal (view B s0) b = bal (view B s2) b" "\<forall>b. b \<noteq> a \<longrightarrow> view B s0 b = view B s2 b"
    using bump_nonce_view [of C s2 a] adv_good [OF a2] s0 by (auto simp: B_def)
  then show ?thesis
    using adv_trans [OF a2] quietD(2) [OF q] s1(2) c by (simp add: charged_def bal_debit debit_other)
qed

lemma execute_ok:
  fixes C defines "B \<equiv> c_backend C"
  assumes s: "good B s" and C: "engine_ok C" "hash_ok B" and t: "tx_ok t a" and p: "payable C t gasCost s a"
  shows "\<exists>x s0 s'. execute C t gasCost s = Some (Inr (x, s')) \<and> charged B a gasCost s s0 \<and>
    prepared C 0 (unat (t_gas t) - base_gas C t) s0 x s' \<and> addressed x"
proof -
  obtain s1 where s1: "subBalance B a gasCost s = Inr s1" "adv B s s1" "view B s1 = debit a gasCost (view B s)" "t_value t \<le> bal (view B s1) a"
    using paid_ok [of C s t gasCost a] s p by (auto simp: B_def)
  note g1 = adv_good [OF s1(2)]
  have cost: "gasCost \<le> bal (view B s) a" using p by (simp add: payable_def B_def word_le_nat_alt)
  note charged = charged_bump [of C s gasCost a s1, folded B_def, OF s cost s1(2,3)]
  have gas: "unat (t_gas t - of_nat (base_gas C t)) = unat (t_gas t) - base_gas C t"
    using p by (intro gas_left) (simp add: payable_def)
  show ?thesis
  proof (cases "t_isCreation t")
    case True
    obtain r where r: "creation C I_CREATE 0 a (t_value t) (t_gasPrice t) (unat (t_gas t) - base_gas C t) (t_data t) a 0 s1 = Some r"
      using creation_returns t unfolding tx_ok_def by blast
    note c = creation_ok [of C s1 "t_data t" I_CREATE, OF g1 [unfolded B_def] _ r]
    then obtain x s' where x: "r = Inr (x, s')" using s1(4) t by (cases r) (auto simp: tx_ok_def B_def)
    have "execute C t gasCost s = Some (Inr (x, s'))"
      using True t s1(1) r x gas by (simp add: execute_def tx_ok_def B_def creation_def lift_state_def)
    then show ?thesis using c x t C(2) charged by (auto simp: tx_ok_def B_def)
  next
    case False
    define q where "q = \<lparr>senderAddress = a, codeAddress = t_receiveAddress t, receiveAddress = t_receiveAddress t,
      valueTransfer = t_value t, apparentValue = t_value t, call_gas = unat (t_gas t) - base_gas C t, call_data = t_data t, call_static = False\<rparr>"
    obtain x s' s0 where x: "exec_call C 0 True q (t_gasPrice t) a s1 = Inr (x, s')" "bump_nonce C a s1 = Inr s0"
        "prepared C 0 (unat (t_gas t) - base_gas C t) s0 x s'"
      using exec_call_ok [of C s1 q, where d = 0 and external = True and gasPrice = "t_gasPrice t" and origin = a] g1 C(1) t s1(4)
      by (auto simp: B_def tx_ok_def q_def split: sum.splits)
    have "execute C t gasCost s = Some (Inr (x, s'))"
      using False t s1(1) x(1) gas by (simp add: execute_def tx_ok_def B_def lift_state_def q_def)
    moreover have "addressed x" using exec_call_address [OF x(1)] t by (simp add: addressed_def tx_ok_def q_def)
    ultimately show ?thesis using x(3) charged [OF quiet_refl [OF goodD(2) [OF g1]] x(2)] by blast
  qed
qed

text \<open>The refund is at most half of the gas that was used.\<close>

definition gas_back :: "chain \<Rightarrow> Transaction \<Rightarrow> executive \<Rightarrow> u256" where
  "gas_back C t x =
     of_nat (m_gas x) +
     (if m_extvm x \<noteq> None then
        min ((t_gas t - of_nat (m_gas x)) div 2)
          (refunds (m_sub x) + of_nat (suicideRefundGas (c_schedule C)) * of_nat (length (suicides (m_sub x))))
      else 0)"

lemma gas_back_bounds:
  assumes "m_gas x + n \<le> unat (t_gas t)"
  shows "gas_back C t x \<le> t_gas t" "n \<le> 2 * unat (t_gas t - gas_back C t x)"
proof -
  let ?m = "of_nat (m_gas x) :: u256"
  obtain r where r: "gas_back C t x = ?m + r" "r \<le> (t_gas t - ?m) div 2"
    by (cases "m_extvm x") (auto simp: gas_back_def)
  have m: "unat ?m = m_gas x" using assms unat_of_gas [of "m_gas x" "t_gas t"] by simp
  have "unat ((t_gas t - ?m) div 2) = (unat (t_gas t) - m_gas x) div 2"
    using gas_left [of "m_gas x" "t_gas t"] assms by (simp add: unat_div)
  then have ur: "unat r \<le> (unat (t_gas t) - m_gas x) div 2" using r(2) by (simp add: word_le_nat_alt)
  have "unat (?m + r) = m_gas x + unat r"
    using ur m assms unat_u256 [of "t_gas t"] by (subst unat_add_lem [THEN iffD1]) auto
  then have g: "unat (gas_back C t x) = m_gas x + unat r" using r(1) by simp
  then show le: "gas_back C t x \<le> t_gas t" using ur assms by (simp add: word_le_nat_alt)
  show "n \<le> 2 * unat (t_gas t - gas_back C t x)"
    using le g ur assms by (simp add: unat_sub)
qed

lemma finalize_ok:
  fixes C defines "B \<equiv> c_backend C"
  assumes s: "good B s" and a: "t_sender t = Inr a" and g: "m_gas x \<le> unat (t_gas t)"
  shows "\<exists>s1 s2 res. addBalance B a (gas_back C t x * t_gasPrice t) s = Inr s1 \<and>
    addBalance B (c_author C) ((t_gas t - gas_back C t x) * t_gasPrice t) s1 = Inr s2 \<and> adv B s s2 \<and>
    r_gasUsed res = t_gas t - gas_back C t x \<and> r_excepted res = m_excepted x \<and>
    finalize C t x s = Inr (res, if m_extvm x \<noteq> None then fold (state_kill B) (suicides (m_sub x)) s2 else s2)"
proof -
  obtain s1 where s1: "addBalance B a (gas_back C t x * t_gasPrice t) s = Inr s1" "adv B s s1"
    using addBalance_adv [OF s] by blast
  obtain s2 where s2: "addBalance B (c_author C) ((t_gas t - gas_back C t x) * t_gasPrice t) s1 = Inr s2" "adv B s1 s2"
    using addBalance_adv [OF adv_good [OF s1(2)]] by blast
  have eq: "finalize C t x s =
      ebind (t_sender t) (\<lambda>sender.
      ebind (lift_state (addBalance B sender (gas_back C t x * t_gasPrice t) s)) (\<lambda>s.
      ebind (lift_state (addBalance B (c_author C) ((t_gas t - gas_back C t x) * t_gasPrice t) s)) (\<lambda>s.
      if t_gas t < gas_back C t x then Inl OutOfGasIntrinsicError
      else
        Inr (\<lparr>r_gasUsed = t_gas t - gas_back C t x, r_excepted = m_excepted x, r_newAddress = m_newAddress x,
              r_gasRefunded = (if m_extvm x \<noteq> None then refunds (m_sub x) +
                of_nat (suicideRefundGas (c_schedule C)) * of_nat (length (suicides (m_sub x))) else 0),
              r_logs = (if m_extvm x \<noteq> None then sub_logs (m_sub x) else [])\<rparr>,
             if m_extvm x \<noteq> None then fold (state_kill B) (suicides (m_sub x)) s else s))))"
    by (simp only: finalize_def gas_back_def B_def Let_def)
  have "\<not> t_gas t < gas_back C t x" using gas_back_bounds(1) [of x 0 t C] g by simp
  then show ?thesis
    using s1 s2(1) adv_trans [OF s1(2) s2(2)] a unfolding eq by (simp add: lift_state_def)
qed

subsection \<open>Whole transactions\<close>

text \<open>The state before the suicides are carried out.\<close>

definition settled :: "chain \<Rightarrow> Transaction \<Rightarrow> address \<Rightarrow> u256 \<Rightarrow> State \<Rightarrow> State \<Rightarrow> bool" where
  "settled C t a used s s' \<longleftrightarrow>
     (\<exists>s1. view (c_backend C) s1 = credit (c_backend C) s a ((t_gas t - used) * t_gasPrice t) (view (c_backend C) s) \<and>
       view (c_backend C) s' = credit (c_backend C) s1 (c_author C) (used * t_gasPrice t) (view (c_backend C) s1))"

lemma settled_bal:
  "settled C t a used s s' \<Longrightarrow>
     bal (view (c_backend C) s') b =
       bal (view (c_backend C) s) b + (if b = a then (t_gas t - used) * t_gasPrice t else 0)
       + (if b = c_author C then used * t_gasPrice t else 0)"
  "settled C t a used s s' \<Longrightarrow> b \<noteq> a \<Longrightarrow> b \<noteq> c_author C \<Longrightarrow> view (c_backend C) s' b = view (c_backend C) s b"
  by (auto simp: settled_def bal_credit credit_other)

lemma transaction_ok:
  fixes C defines "B \<equiv> c_backend C"
  assumes s: "good B s" and C: "engine_ok C" "hash_ok B" "priced (c_schedule C)" and t: "tx_ok t a"
    and i: "initialize C t u s = Inr (gasCost, s1)"
  shows "\<exists>x s0 s2 s3 res. charged B a gasCost s s0 \<and> finished B True (unat (t_gas t) - base_gas C t) s0 (x, s2) \<and>
    settled C t a (r_gasUsed res) s2 s3 \<and> r_excepted res = m_excepted x \<and>
    (m_excepted x \<noteq> NoException \<longrightarrow> m_extvm x = None \<or> m_sub x = empty_sub) \<and>
    r_gasUsed res \<le> t_gas t \<and> base_gas C t \<le> 2 * unat (r_gasUsed res) \<and>
    executeTransaction C t u s = Some (Inr (res, if m_extvm x \<noteq> None then fold (state_kill B) (suicides (m_sub x)) s3 else s3))"
proof -
  note q = initialize_quiet [of C s t u gasCost s1, OF s [unfolded B_def] i, folded B_def]
  note a1 = quiet_adv [OF s q]
  have p: "payable C t gasCost s1 a" using initialize_payable [of C s t a u gasCost s1] s t i by (simp add: B_def tx_ok_def)
  obtain y s0 s' where y: "execute C t gasCost s1 = Some (Inr (y, s'))" "charged B a gasCost s1 s0"
      "prepared C 0 (unat (t_gas t) - base_gas C t) s0 y s'" "addressed y"
    using execute_ok [of C s1 t a gasCost] adv_good [OF a1] C(1,2) t p by (auto simp: B_def)
  have ch: "charged B a gasCost s s0" using y(2) adv_trans [OF a1] quietD(2) [OF q] by (simp add: charged_def)
  note level = ext_world_ok [OF C(1), of 1024] ext_world_metered [of C 1024, OF C(1,3) C(2) [unfolded B_def]]
  have H: "True \<longrightarrow> level_metered C 0 (ext_world C 1024) \<and> priced (c_schedule C) \<and> addressed y" using level(2) C(3) y(4) by simp
  obtain x s2 where x: "go C (ext_world C 1024) y s' = Some (x, s2)" using go_level(2) [OF y(3) level(1) H] by auto
  have f: "finished B True (unat (t_gas t) - base_gas C t) s0 (x, s2)"
    using go_level(1) [OF y(3) level(1) H x] by (simp add: B_def)
  then have g2: "good B s2" and m: "m_gas x + base_gas C t \<le> unat (t_gas t)"
    using adv_good p by (auto simp: finished_def payable_def)
  obtain s3 s4 res where r: "addBalance B a (gas_back C t x * t_gasPrice t) s2 = Inr s3"
      "addBalance B (c_author C) ((t_gas t - gas_back C t x) * t_gasPrice t) s3 = Inr s4"
      "r_gasUsed res = t_gas t - gas_back C t x" "r_excepted res = m_excepted x"
      "finalize C t x s2 = Inr (res, if m_extvm x \<noteq> None then fold (state_kill B) (suicides (m_sub x)) s4 else s4)"
    using finalize_ok [of C s2 t a x] g2 t m by (auto simp: B_def tx_ok_def)
  have g3: "good B s3" and v3: "view B s3 = credit B s2 a (gas_back C t x * t_gasPrice t) (view B s2)"
    using addBalance_adv [OF g2, of a "gas_back C t x * t_gasPrice t"] r(1) adv_good by auto
  have v4: "view B s4 = credit B s3 (c_author C) ((t_gas t - gas_back C t x) * t_gasPrice t) (view B s3)"
    using addBalance_adv [OF g3, of "c_author C" "(t_gas t - gas_back C t x) * t_gasPrice t"] r(2) by auto
  have settled: "settled C t a (r_gasUsed res) s2 s4"
    unfolding settled_def using v3 v4 r(3) by (intro exI [of _ s3]) (simp add: B_def)
  have sub: "m_excepted x \<noteq> NoException \<longrightarrow> m_extvm x = None \<or> m_sub x = empty_sub"
  proof (cases "m_extvm y")
    case None
    then show ?thesis using x by (simp add: go_def)
  next
    case (Some E)
    then have "m_excepted y = NoException" using y(3) by (simp add: prepared_def)
    then show ?thesis using go_result [OF x] by auto
  qed
  have "unat (r_gasUsed res) = unat (t_gas t) - unat (gas_back C t x)"
    using r(3) gas_back_bounds(1) [OF m, of C] by (simp add: unat_sub)
  then have "r_gasUsed res \<le> t_gas t" by (simp add: word_le_nat_alt)
  moreover have "executeTransaction C t u s = Some (Inr (res, if m_extvm x \<noteq> None then fold (state_kill B) (suicides (m_sub x)) s4 else s4))"
    unfolding executeTransaction_def by (simp only: i y(1) x r(5) sum.case option.case prod.case)
  moreover have "base_gas C t \<le> 2 * unat (r_gasUsed res)" using r(3) gas_back_bounds(2) [OF m, of C] by simp
  ultimately show ?thesis using ch f settled r(4) sub by blast
qed

end
