(* ===== verification/Executive_Plain.thy ===== *)
theory Executive_Plain
  imports Executive_Tx EVM_Properties
begin

section \<open>Calls to accounts without code\<close>

text \<open>
  A call to an address that is no precompiled contract and has no code only moves its value and keeps its gas; what such
  a transaction leaves in the accounts of the sender, the receiver and the author, and in every other account.
\<close>

definition plain :: "chain \<Rightarrow> State \<Rightarrow> address \<Rightarrow> bool" where
  "plain C s a \<longleftrightarrow> \<not> isPrecompiled C a \<and> (\<forall>w. view (c_backend C) s a = Some w \<longrightarrow> v_code w = [])"

lemma plain_no_code:
  assumes "good (c_backend C) s" "plain C s a"
  shows "\<not> fst (addressHasCode (c_backend C) a s)"
  using addressHasCode.reads [OF goodD(2) [OF assms(1)], of a] state_okD(5) [OF goodD(2) [OF assms(1)], of a] assms(2)
  by (auto simp: plain_def EmptySHA3_def split: option.split)

text \<open>Such a call only moves the value.\<close>

lemma exec_call_plain:
  fixes C defines "B \<equiv> c_backend C"
  assumes s: "good B s" and p: "plain C s (codeAddress p)"
  shows "exec_call C d False p gasPrice origin s =
    ebind (transferBalance B (senderAddress p) (receiveAddress p) (valueTransfer p) (snd (addressHasCode B (codeAddress p) s)))
      (\<lambda>s'. Inr (new_executive\<lparr>m_savepoint := savepoint s, m_gas := call_gas p\<rparr>, s'))"
  using plain_no_code [of C s "codeAddress p"] s p by (simp add: exec_call_def B_def plain_def Let_def split_beta)

text \<open>The external call bumps the nonce first.\<close>

lemma exec_call_external:
  "exec_call C d True p gasPrice origin s =
     ebind (bump_nonce C (senderAddress p) s) (exec_call C d False p gasPrice origin)"
  by (cases "bump_nonce C (senderAddress p) s") (simp_all add: exec_call_def Let_def)

lemma transfer_view:
  assumes "good B s" "x \<le> bal (view B s) src"
  shows "\<exists>s'. transferBalance B src dst x s = Inr s' \<and> adv B s s' \<and> view B s' = credit B s dst x (debit src x (view B s))"
  using transferBalance_spec [OF goodD(1) [OF assms(1)], of src x dst True] transferBalance_adv [OF assms(1), of src x dst] assms(2)
  by (auto simp: not_less [symmetric])

subsection \<open>A plain transfer\<close>

lemma execute_plain:
  fixes C defines "B \<equiv> c_backend C"
  assumes s: "good B s" and t: "t_sender t = Inr a" "\<not> t_isCreation t" "plain C s (t_receiveAddress t)" "a \<noteq> t_receiveAddress t"
    and p: "payable C t gasCost s a"
  shows "\<exists>x s'. execute C t gasCost s = Some (Inr (x, s')) \<and> adv B s s' \<and> m_extvm x = None \<and>
    m_gas x = unat (t_gas t) - base_gas C t \<and> m_excepted x = NoException \<and>
    (\<forall>b. bal (view B s') b =
       bal (view B s) b - (if b = a then gasCost + t_value t else 0) + (if b = t_receiveAddress t then t_value t else 0)) \<and>
    (\<forall>b. b \<noteq> a \<longrightarrow> b \<noteq> t_receiveAddress t \<longrightarrow> view B s' b = view B s b)"
proof -
  let ?b = "t_receiveAddress t" and ?g = "unat (t_gas t) - base_gas C t"
  obtain s1 where s1: "subBalance B a gasCost s = Inr s1" "adv B s s1" "view B s1 = debit a gasCost (view B s)" "t_value t \<le> bal (view B s1) a"
    using paid_ok [of C s t gasCost a] s p by (auto simp: B_def)
  obtain s2 where s2: "bump_nonce C a s1 = Inr s2" "adv B s1 s2" "\<forall>b. bal (view B s2) b = bal (view B s1) b"
      "\<forall>b. b \<noteq> a \<longrightarrow> view B s2 b = view B s1 b"
    using bump_nonce_view [of C s1 a] adv_good [OF s1(2)] by (auto simp: B_def)
  note g2 = adv_good [OF s2(2)]
  define s3 where "s3 = snd (addressHasCode B ?b s2)"
  have q: "quiet B s2 s3" using addressHasCode.quiet_get [OF goodD(2) [OF g2]] by (simp add: s3_def)
  have g3: "good B s3" using adv_good [OF quiet_adv [OF g2 q]] .
  obtain s4 where s4: "transferBalance B a ?b (t_value t) s3 = Inr s4" "adv B s3 s4"
      "view B s4 = credit B s3 ?b (t_value t) (debit a (t_value t) (view B s3))"
    using transfer_view [OF g3, of "t_value t" a ?b] s1(4) s2(3) quiet_bal [OF q] by auto
  have plain2: "plain C s2 ?b"
    using t(3,4) s1(3) s2(4) by (simp add: plain_def B_def debit_other)
  define x where "x = new_executive\<lparr>m_savepoint := savepoint s2, m_gas := ?g\<rparr>"
  have "execute C t gasCost s = Some (Inr (x, s4))"
    using t(1,2) s1(1) s2(1) s4(1) gas_left [of "base_gas C t" "t_gas t"] p exec_call_plain [of C s2, OF g2 [unfolded B_def]] plain2
    by (simp add: execute_def B_def [symmetric] exec_call_external s3_def x_def lift_state_def payable_def)
  moreover have "adv B s s4"
    using adv_trans [OF s1(2) adv_trans [OF s2(2) adv_trans [OF quiet_adv [OF g2 q] s4(2)]]] .
  moreover have "gasCost \<le> bal (view B s) a" using p by (simp add: payable_def B_def word_le_nat_alt)
  then have "bal (view B s4) b = bal (view B s) b - (if b = a then gasCost + t_value t else 0) + (if b = ?b then t_value t else 0)" for b
    using s1(3,4) s2(3) quiet_bal [OF q] t(4) unfolding s4(3) by (simp add: bal_credit bal_debit)
  moreover have "view B s4 b = view B s b" if "b \<noteq> a" "b \<noteq> ?b" for b
    using that s1(3) s2(4) quietD(2) [OF q] unfolding s4(3) by (simp add: credit_other debit_other)
  ultimately show ?thesis by (auto simp: x_def new_executive_def)
qed

lemma plain_transaction:
  fixes C defines "B \<equiv> c_backend C"
  assumes s: "good B s" and t: "t_sender t = Inr a" "\<not> hasZeroSignature t" "\<not> t_isCreation t" "plain C s (t_receiveAddress t)"
    and d: "distinct [a, t_receiveAddress t, c_author C]"
    and i: "initialize C t u s = Inr (gasCost, s1)"
  shows "\<exists>res s'. executeTransaction C t u s = Some (Inr (res, s')) \<and> r_excepted res = NoException \<and>
    r_gasUsed res = of_nat (base_gas C t) \<and>
    bal (view B s') a = bal (view B s) a - t_value t - of_nat (base_gas C t) * t_gasPrice t \<and>
    bal (view B s') (t_receiveAddress t) = bal (view B s) (t_receiveAddress t) + t_value t \<and>
    bal (view B s') (c_author C) = bal (view B s) (c_author C) + of_nat (base_gas C t) * t_gasPrice t \<and>
    (\<forall>b. b \<notin> {a, t_receiveAddress t, c_author C} \<longrightarrow> view B s' b = view B s b)"
proof -
  note q = initialize_quiet [of C s t u gasCost s1, OF s [unfolded B_def] i, folded B_def]
  have cost: "gasCost = t_gas t * t_gasPrice t"
    using initialize_eq [of C s t a u gasCost] s t(1,2) i q by (auto simp: B_def)
  have p: "payable C t gasCost s1 a" using initialize_payable [of C s t a u gasCost s1] s t(1) i by (simp add: B_def)
  have pl: "plain C s1 (t_receiveAddress t)" using t(4) quietD(2) [OF q] by (simp add: plain_def B_def)
  obtain x s2 where x: "execute C t gasCost s1 = Some (Inr (x, s2))" "adv B s1 s2" "m_extvm x = None"
      "m_gas x = unat (t_gas t) - base_gas C t" "m_excepted x = NoException"
      "\<forall>b. bal (view B s2) b =
       bal (view B s1) b - (if b = a then gasCost + t_value t else 0) + (if b = t_receiveAddress t then t_value t else 0)"
      "\<forall>b. b \<noteq> a \<longrightarrow> b \<noteq> t_receiveAddress t \<longrightarrow> view B s2 b = view B s1 b"
    using execute_plain [of C s1 t a gasCost] adv_good [OF quiet_adv [OF s q]] t(1,3) pl d p by (auto simp: B_def)
  have bk: "gas_back C t x = t_gas t - of_nat (base_gas C t)"
    using x(3,4) p by (simp add: gas_back_def payable_def of_nat_diff)
  obtain s3 s4 res where r: "addBalance B a (gas_back C t x * t_gasPrice t) s2 = Inr s3"
      "addBalance B (c_author C) ((t_gas t - gas_back C t x) * t_gasPrice t) s3 = Inr s4" "adv B s2 s4"
      "r_gasUsed res = t_gas t - gas_back C t x" "r_excepted res = m_excepted x" "finalize C t x s2 = Inr (res, s4)"
    using finalize_ok [of C s2 t a x] adv_good [OF x(2)] t(1) x(3,4) by (auto simp: B_def)
  have v3: "view B s3 = credit B s2 a (gas_back C t x * t_gasPrice t) (view B s2)" and g3: "good B s3"
    using addBalance_adv [OF adv_good [OF x(2)], of a "gas_back C t x * t_gasPrice t"] r(1) adv_good by auto
  have v4: "view B s4 = credit B s3 (c_author C) ((t_gas t - gas_back C t x) * t_gasPrice t) (view B s3)"
    using addBalance_adv [OF g3, of "c_author C" "(t_gas t - gas_back C t x) * t_gasPrice t"] r(2) by auto
  have b4: "bal (view B s4) b = bal (view B s2) b + (if b = a then gas_back C t x * t_gasPrice t else 0)
      + (if b = c_author C then (t_gas t - gas_back C t x) * t_gasPrice t else 0)" for b
    by (simp add: v3 v4 bal_credit)
  have "executeTransaction C t u s = Some (Inr (res, s4))"
    using i x(1,3) r(6) by (simp add: executeTransaction_def go_def)
  moreover have "view B s4 b = view B s b" if "b \<notin> {a, t_receiveAddress t, c_author C}" for b
    using that x(7) quietD(2) [OF q] by (simp add: v3 v4 credit_other)
  moreover have "bal (view B s4) a = bal (view B s) a - t_value t - of_nat (base_gas C t) * t_gasPrice t"
    using b4 [of a] x(6) d quiet_bal [OF q] bk cost by (simp add: algebra_simps)
  moreover have "bal (view B s4) (t_receiveAddress t) = bal (view B s) (t_receiveAddress t) + t_value t"
    using b4 [of "t_receiveAddress t"] x(6) d quiet_bal [OF q] by auto
  moreover have "bal (view B s4) (c_author C) = bal (view B s) (c_author C) + of_nat (base_gas C t) * t_gasPrice t"
    using b4 [of "c_author C"] x(6) d quiet_bal [OF q] bk by auto
  ultimately show ?thesis using x(5) r(4,5) bk by auto
qed

subsection \<open>A call to a contract\<close>

lemma exec_call_code:
  fixes C defines "B \<equiv> c_backend C"
  assumes s: "good B s" and c: "\<not> isPrecompiled C (codeAddress p)" "view B s (codeAddress p) = Some w" "b_sha3 B (v_code w) \<noteq> EmptySHA3 B"
    and v: "valueTransfer p \<le> bal (view B s) (senderAddress p)"
  shows "\<exists>s'. exec_call C d False p gasPrice origin s =
      Inr (new_executive\<lparr>m_savepoint := savepoint s, m_gas := call_gas p,
        m_extvm := Some (ExtVM C (receiveAddress p) (senderAddress p) origin (apparentValue p) gasPrice (call_data p) (v_code w) d (call_static p))\<rparr>, s') \<and>
    adv B s s' \<and> view B s' = credit B s (receiveAddress p) (valueTransfer p) (debit (senderAddress p) (valueTransfer p) (view B s))"
proof -
  let ?a = "codeAddress p"
  define s1 s2 s3 where "s1 = snd (addressHasCode B ?a s)" and "s2 = snd (state_code B ?a s1)" and "s3 = snd (codeHash B ?a s2)"
  have q1: "quiet B s s1" using addressHasCode.quiet_get [OF goodD(2) [OF s]] by (simp add: s1_def)
  have q2: "quiet B s s2" using quiet_trans [OF q1 state_code.quiet_get [OF quietD(1) [OF q1]]] by (simp add: s2_def)
  have q3: "quiet B s s3" using quiet_trans [OF q2 codeHash.quiet_get [OF quietD(1) [OF q2]]] by (simp add: s3_def)
  have has: "fst (addressHasCode B ?a s)"
    using addressHasCode.reads [OF goodD(2) [OF s], of ?a] c(2,3) state_okD(5) [OF goodD(2) [OF s] c(2)] by simp
  have code: "fst (state_code B ?a s1) = v_code w"
    using state_code.reads [OF quietD(1) [OF q1], of ?a] quietD(2) [OF q1] c(2) by simp
  note g3 = adv_good [OF quiet_adv [OF s q3]]
  obtain s' where s': "transferBalance B (senderAddress p) (receiveAddress p) (valueTransfer p) s3 = Inr s'" "adv B s3 s'"
      "view B s' = credit B s3 (receiveAddress p) (valueTransfer p) (debit (senderAddress p) (valueTransfer p) (view B s3))"
    using transfer_view [OF g3, of "valueTransfer p" "senderAddress p" "receiveAddress p"] v quiet_bal [OF q3] by auto
  have cr: "credit B s3 = credit B s"
    using quietD(3) [OF q3] same_base_contents [OF quietD(3) [OF q3], of B]
    by (intro ext) (auto simp: credit_def or_new_def new_acct_def same_base_def split: option.split)
  show ?thesis
    using c(1) has code s' adv_trans [OF quiet_adv [OF s q3] s'(2)] quietD(2) [OF q3]
    by (simp add: exec_call_def B_def [symmetric] Let_def split_beta s1_def [symmetric] s2_def [symmetric] s3_def [symmetric] cr)
qed

lemma execute_code:
  fixes C defines "B \<equiv> c_backend C"
  assumes s: "good B s" and t: "t_sender t = Inr a" "\<not> t_isCreation t" "a \<noteq> t_receiveAddress t"
    and code: "\<not> isPrecompiled C (t_receiveAddress t)" "view B s (t_receiveAddress t) = Some w" "b_sha3 B (v_code w) \<noteq> EmptySHA3 B"
    and p: "payable C t gasCost s a"
  shows "\<exists>s0 s'. execute C t gasCost s =
      Some (Inr (new_executive\<lparr>m_savepoint := savepoint s0, m_gas := unat (t_gas t) - base_gas C t,
        m_extvm := Some (ExtVM C (t_receiveAddress t) a a (t_value t) (t_gasPrice t) (t_data t) (v_code w) 0 False)\<rparr>, s')) \<and>
    good B s' \<and> (\<forall>b. b \<noteq> a \<longrightarrow> b \<noteq> t_receiveAddress t \<longrightarrow> view B s' b = view B s b)"
proof -
  let ?b = "t_receiveAddress t" and ?g = "unat (t_gas t) - base_gas C t"
  obtain s2 where s2: "subBalance B a gasCost s = Inr s2" "adv B s s2" "view B s2 = debit a gasCost (view B s)" "t_value t \<le> bal (view B s2) a"
    using paid_ok [of C s t gasCost a] s p by (auto simp: B_def)
  obtain s3 where s3: "bump_nonce C a s2 = Inr s3" "adv B s2 s3" "\<forall>b. bal (view B s3) b = bal (view B s2) b"
      "\<forall>b. b \<noteq> a \<longrightarrow> view B s3 b = view B s2 b"
    using bump_nonce_view [of C s2 a] adv_good [OF s2(2)] by (auto simp: B_def)
  have v3: "view B s3 b = view B s b" if "b \<noteq> a" for b using that s2(3) s3(4) by (simp add: debit_other)
  define P where "P = \<lparr>senderAddress = a, codeAddress = ?b, receiveAddress = ?b, valueTransfer = t_value t, apparentValue = t_value t,
      call_gas = ?g, call_data = t_data t, call_static = False\<rparr>"
  obtain s4 where s4: "exec_call C 0 False P (t_gasPrice t) a s3 = Inr (new_executive\<lparr>m_savepoint := savepoint s3, m_gas := ?g,
        m_extvm := Some (ExtVM C ?b a a (t_value t) (t_gasPrice t) (t_data t) (v_code w) 0 False)\<rparr>, s4)"
      "adv B s3 s4" "view B s4 = credit B s3 ?b (t_value t) (debit a (t_value t) (view B s3))"
    using exec_call_code [of C s3 P w 0 "t_gasPrice t" a] adv_good [OF s3(2)] code v3 [of ?b] t(3) s2(4) s3(3)
    by (auto simp: B_def P_def)
  have "unat (t_gas t - of_nat (base_gas C t)) = ?g" using p by (simp add: gas_left payable_def)
  then have "execute C t gasCost s = Some (Inr (new_executive\<lparr>m_savepoint := savepoint s3, m_gas := ?g,
        m_extvm := Some (ExtVM C ?b a a (t_value t) (t_gasPrice t) (t_data t) (v_code w) 0 False)\<rparr>, s4))"
    using t(1,2) s2(1) s3(1) s4(1) by (simp add: execute_def B_def [symmetric] exec_call_external P_def lift_state_def)
  moreover have "view B s4 b = view B s b" if "b \<noteq> a" "b \<noteq> ?b" for b
    using that v3 by (simp add: s4(3) credit_other debit_other)
  ultimately show ?thesis using adv_good [OF s4(2)] by blast
qed

subsection \<open>A transaction that never ends\<close>

text \<open>While the program runs, the account it calls is there and has no code.\<close>

definition spinning :: "chain \<Rightarrow> world \<Rightarrow> bool" where
  "spinning C w \<longleftrightarrow>
     good (c_backend C) (w_state w) \<and> plain C (w_state w) (asAddress 255) \<and> view (c_backend C) (w_state w) (asAddress 255) \<noteq> None"

lemma spinning_call:
  assumes "spinning C w"
  shows "\<exists>w'. spinning C w' \<and> (\<forall>p. codeAddress p = asAddress 255 \<longrightarrow> receiveAddress p = asAddress 255 \<longrightarrow> valueTransfer p = 0 \<longrightarrow>
    x_call (ext_world C (Suc n) E) p w = Some (w', call_gas p, True, []))"
proof -
  let ?B = "c_backend C" and ?a = "asAddress 255"
  define s where "s = snd (addressHasCode ?B ?a (w_state w))"
  have g: "good ?B (w_state w)" and pl: "plain C (w_state w) ?a" and ex: "view ?B (w_state w) ?a \<noteq> None"
    using assms by (auto simp: spinning_def)
  have q: "quiet ?B (w_state w) s" using addressHasCode.quiet_get [OF goodD(2) [OF g]] by (simp add: s_def)
  note gs = adv_good [OF quiet_adv [OF g q]]
  obtain s' where s': "addBalance ?B ?a 0 s = Inr s'" "adv ?B s s'" "view ?B s' = credit ?B s ?a 0 (view ?B s)"
    using addBalance_adv [OF gs, of ?a 0] by auto
  have "spinning C (w\<lparr>w_state := s'\<rparr>)"
    using adv_good [OF s'(2)] s'(3) pl ex quietD(2) [OF q] by (auto simp: spinning_def plain_def credit_def or_new_def)
  moreover have "x_call (ext_world C (Suc n) E) p w = Some (w\<lparr>w_state := s'\<rparr>, call_gas p, True, [])"
    if "codeAddress p = ?a" "receiveAddress p = ?a" "valueTransfer p = 0" for p
    using exec_call_plain [OF g, of p] pl that s'(1)
    by (simp add: ext_world_calls ext_call_def finish_def transferBalance_def subBalance_def s_def [symmetric] new_executive_def)
  ultimately show ?thesis by blast
qed

lemma spinning_exists:
  assumes "spinning C w" "c_schedule C = DefaultSchedule"
  shows "x_exists (ext_world C n E) w (asAddress 255)"
  using addressInUse.reads [OF goodD(2), of "c_backend C" "w_state w" "asAddress 255"] assms
  by (simp add: spinning_def ext_world_simps emptinessIsNonexistence_def schedule_defs split: option.splits)

lemma endless_transaction:
  fixes C defines "B \<equiv> c_backend C"
  assumes s: "good B s" and C: "c_schedule C = DefaultSchedule"
    and t: "t_sender t = Inr a" "\<not> t_isCreation t" "distinct [a, t_receiveAddress t, asAddress 255]"
      "unat (t_gas t) = base_gas C t + 65522"
    and code: "\<not> isPrecompiled C (t_receiveAddress t)" "view B s (t_receiveAddress t) = Some w" "v_code w = mint_code"
      "b_sha3 B mint_code \<noteq> EmptySHA3 B"
    and pl: "plain C s (asAddress 255)" "view B s (asAddress 255) \<noteq> None"
    and i: "initialize C t u s = Inr (gasCost, s1)"
  shows "\<exists>x s2 E f. execute C t gasCost s1 = Some (Inr (x, s2)) \<and> m_extvm x = Some E \<and> \<not> m_isCreation x \<and>
    f 0 = vm_init (m_gas x) \<lparr>w_state = s2, w_sub = m_sub x\<rparr> \<and>
    (\<forall>n. vm_step (ext_world C 1024 E) E (optimize (e_code E)) (f n) = Inr (Next (f (Suc n)))) \<and>
    executeTransaction C t u s = None"
proof -
  let ?b = "t_receiveAddress t"
  note q = initialize_quiet [of C s t u gasCost s1, OF s [unfolded B_def] i, folded B_def]
  have p: "payable C t gasCost s1 a" using initialize_payable [of C s t a u gasCost s1] s t(1) i by (simp add: B_def)
  define E where "E = ExtVM C ?b a a (t_value t) (t_gasPrice t) (t_data t) mint_code 0 False"
  obtain s0 s4 where ex: "execute C t gasCost s1 = Some (Inr (new_executive\<lparr>m_savepoint := savepoint s0, m_gas := 65522, m_extvm := Some E\<rparr>, s4))"
      "good B s4" "\<forall>b. b \<noteq> a \<longrightarrow> b \<noteq> ?b \<longrightarrow> view B s4 b = view B s1 b"
    using execute_code [of C s1 t a w gasCost] adv_good [OF quiet_adv [OF s q]] t code p quietD(2) [OF q] by (auto simp: B_def E_def)
  have sp: "spinning C \<lparr>w_state = s4, w_sub = empty_sub\<rparr>"
    using ex(2,3) pl t(3) quietD(2) [OF q] by (auto simp: spinning_def plain_def B_def [symmetric])
  have run: "exec (ext_world C 1024 E) E 65522 \<lparr>w_state = s4, w_sub = empty_sub\<rparr> = None \<and>
      (\<exists>f. f 0 = vm_init 65522 \<lparr>w_state = s4, w_sub = empty_sub\<rparr> \<and>
        (\<forall>n. vm_step (ext_world C 1024 E) E (optimize (e_code E)) (f n) = Inr (Next (f (Suc n)))))"
    by (rule mint_forever [of E "spinning C"])
      (use C sp spinning_exists spinning_call [of C _ 1023 E] in \<open>simp_all add: E_def ExtVM_def\<close>)
  then have "executeTransaction C t u s = None" using i ex(1) by (simp add: executeTransaction_def go_def new_executive_def)
  with run ex(1) show ?thesis by (simp add: new_executive_def)
qed

end
