(* ===== verification/Executive_Properties.thy ===== *)
theory Executive_Properties
  imports Executive_Plain
begin

section \<open>Properties of transactions\<close>

text \<open>
  Which transactions are admitted, that they end and what they cost, what a failed one leaves, what a transfer
  does; and that under the schedule of the QPOS engine a transaction need not end.
\<close>

lemma initialize_cost:
  fixes C defines "B \<equiv> c_backend C"
  assumes "good B s" "t_sender t = Inr a" "initialize C t u s = Inr (gasCost, s1)"
  shows "gasCost = t_gas t * t_gasPrice t"
  using initialize_eq [of C s t a u gasCost] assms initialize_quiet [of C s t u gasCost s1]
  by (auto simp: B_def verifyTransaction_Inr split: if_splits)

lemma charged_base: "charged B a cost s s0 \<Longrightarrow> m_storages s0 = m_storages s"
  using adv_base [of B s s0] by (simp add: charged_def same_base_def)

lemma sim_bal: "view_sim c \<sigma> v v0 \<Longrightarrow> bal v b = bal v0 b"
  using view_simD [of c \<sigma> v v0 b] by (cases "v b"; cases "v0 b") (auto simp: bal_def acct_sim_def)

subsection \<open>A chain for the examples\<close>

definition tx_backend :: backend where
  "tx_backend = \<lparr>b_sha3 = \<lambda>b. if b = [] then replicate 32 0 else replicate 32 1, EmptyTrie = [1], b_root = \<lambda>f. [2]\<rparr>"

definition tx_chain :: "EVMSchedule \<Rightarrow> chain" where
  "tx_chain S =
     \<lparr>c_backend = tx_backend, c_schedule = S, homesteadForkBlock = 0, EIP158ForkBlock = 0, constantinopleForkBlock = 1000,
      isPrecompiled = \<lambda>a. False, costOfPrecompiled = \<lambda>a d. 0, executePrecompiled = \<lambda>a d. (True, []), precedingHashes = replicate 256 (replicate 32 0),
      blockhashContract = \<lambda>s a n. replicate 32 0, nodeAddress = replicate 20 9, c_author = replicate 20 7, c_timestamp = 0,
      c_number = 5, c_difficulty = 0, c_gasLimit = 1000000\<rparr>"

text \<open>An account with funds, one with code, and one without either.\<close>

definition tx_state :: "bytes \<Rightarrow> State" where
  "tx_state code =
     \<lparr>m_state = [replicate 20 1 \<mapsto> (0, 1000000, [1], replicate 32 0), replicate 20 2 \<mapsto> (1, 0, [1], replicate 32 1),
        asAddress 255 \<mapsto> (0, 1, [1], replicate 32 0)],
      m_storages = \<lambda>r k. 0, m_codes = \<lambda>h. if h = replicate 32 1 then code else [], m_cache = Map.empty,
      m_unchangedCacheEntries = [], m_nonExistingAccountsCache = {}, m_touched = {}, m_accountStartNonce = 0,
      m_changeLog = [], s_draws = \<lambda>i. 0, m_codeSizes = [], s_randomHashes = \<lambda>i. []\<rparr>"

definition sample_tx :: "address \<Rightarrow> Transaction" where
  "sample_tx to =
     \<lparr>t_isCreation = False, t_nonce = 0, t_value = 5, t_receiveAddress = to, t_gasPrice = 2, t_gas = 86522, t_data = [],
      t_vrs = Some (1, 1, 0), t_chainId = 1, t_sender = Inr (replicate 20 1)\<rparr>"

lemma tx_addresses [simp]:
  "asAddress 255 \<noteq> replicate 20 1" "asAddress 255 \<noteq> replicate 20 2" "asAddress 255 \<noteq> replicate 20 7"
  "replicate 20 1 \<noteq> asAddress 255" "replicate 20 2 \<noteq> asAddress 255" "replicate 20 7 \<noteq> asAddress 255"
  "replicate 20 (1 :: byte) \<noteq> replicate 20 2" "replicate 20 (1 :: byte) \<noteq> replicate 20 7" "replicate 20 (2 :: byte) \<noteq> replicate 20 7"
  "length (asAddress 255) = 20"
  by code_simp+

lemma tx_chain_simps [simp]:
  "c_backend (tx_chain S) = tx_backend" "c_schedule (tx_chain S) = S" "homesteadForkBlock (tx_chain S) = 0"
  "EIP158ForkBlock (tx_chain S) = 0" "constantinopleForkBlock (tx_chain S) = 1000" "\<not> isPrecompiled (tx_chain S) a"
  "c_author (tx_chain S) = replicate 20 7" "c_number (tx_chain S) = 5" "c_gasLimit (tx_chain S) = 1000000" "engine_ok (tx_chain S)"
  "length (precedingHashes (tx_chain S)) = 256"
  "hash_ok tx_backend" "b_sha3 tx_backend b = (if b = [] then replicate 32 0 else replicate 32 1)"
  by (simp_all add: tx_chain_def tx_backend_def engine_ok_def hash_ok_def)

lemma tx_empty [simp]: "EmptySHA3 tx_backend = replicate 32 0"
  by (simp add: EmptySHA3_def)

lemma tx_loaded [simp]:
  "contents tx_backend (tx_state code) (loaded_account tx_backend (n, v, r, h)) =
     \<lparr>v_alive = True, v_nonce = n, v_balance = v, v_root = r, v_storage = \<lambda>k. 0, v_hash = h,
      v_code = (if h = replicate 32 1 then code else [])\<rparr>"
  by (auto simp: contents_def loaded_account_def dead_account_def code_of_def overlaid_def tx_state_def EmptySHA3_def tx_backend_def fun_eq_iff)

lemma tx_view:
  "view tx_backend (tx_state code) =
     [replicate 20 1 \<mapsto> \<lparr>v_alive = True, v_nonce = 0, v_balance = 1000000, v_root = [1], v_storage = \<lambda>k. 0, v_hash = replicate 32 0, v_code = []\<rparr>,
      replicate 20 2 \<mapsto> \<lparr>v_alive = True, v_nonce = 1, v_balance = 0, v_root = [1], v_storage = \<lambda>k. 0, v_hash = replicate 32 1, v_code = code\<rparr>,
      asAddress 255 \<mapsto> \<lparr>v_alive = True, v_nonce = 0, v_balance = 1, v_root = [1], v_storage = \<lambda>k. 0, v_hash = replicate 32 0, v_code = []\<rparr>]"
proof
  fix a
  have m: "m_cache (tx_state code) a = None" "m_state (tx_state code) a =
      [replicate 20 1 \<mapsto> (0, 1000000, [1], replicate 32 0), replicate 20 2 \<mapsto> (1, 0, [1], replicate 32 1),
        asAddress 255 \<mapsto> (0, 1, [1], replicate 32 0)] a"
    by (simp_all add: tx_state_def)
  show "view tx_backend (tx_state code) a =
     [replicate 20 1 \<mapsto> \<lparr>v_alive = True, v_nonce = 0, v_balance = 1000000, v_root = [1], v_storage = \<lambda>k. 0, v_hash = replicate 32 0, v_code = []\<rparr>,
      replicate 20 2 \<mapsto> \<lparr>v_alive = True, v_nonce = 1, v_balance = 0, v_root = [1], v_storage = \<lambda>k. 0, v_hash = replicate 32 1, v_code = code\<rparr>,
      asAddress 255 \<mapsto> \<lparr>v_alive = True, v_nonce = 0, v_balance = 1, v_root = [1], v_storage = \<lambda>k. 0, v_hash = replicate 32 0, v_code = []\<rparr>] a"
    unfolding view_def stored_def m by simp
qed

lemma tx_state_simps [simp]:
  "m_cache (tx_state code) = Map.empty" "m_changeLog (tx_state code) = []" "m_nonExistingAccountsCache (tx_state code) = {}"
  "m_accountStartNonce (tx_state code) = 0"
  by (simp_all add: tx_state_def)

lemma tx_good: "code \<noteq> [] \<Longrightarrow> length code < 2 ^ 64 \<Longrightarrow> good tx_backend (tx_state code)"
  by (auto simp: good_def world_ok_def state_ok_def codes_fit_def tx_view split: if_splits)

lemma sample_tx_simps [simp]:
  "tx_ok (sample_tx to) (replicate 20 1) \<longleftrightarrow> length to = 20" "t_sender (sample_tx to) = Inr (replicate 20 1)" "\<not> hasZeroSignature (sample_tx to)"
  "t_receiveAddress (sample_tx to) = to" "\<not> t_isCreation (sample_tx to)" "t_gas (sample_tx to) = 86522" "t_value (sample_tx to) = 5"
  "t_gasPrice (sample_tx to) = 2" "t_data (sample_tx to) = []" "t_nonce (sample_tx to) = 0" "t_vrs (sample_tx to) = Some (1, 1, 0)"
  by (simp_all add: tx_ok_def sample_tx_def hasZeroSignature_def)

lemma tx_initialize:
  assumes "S \<in> {DefaultSchedule, ByzantiumSchedule}" "code \<noteq> []" "length code < 2 ^ 64"
  shows "\<exists>gasCost s1. initialize (tx_chain S) (sample_tx to) 0 (tx_state code) = Inr (gasCost, s1)"
proof -
  have "base_gas (tx_chain S) (sample_tx to) = 21000"
    using assms(1) by (auto simp: baseGasRequired_def schedule_defs)
  then show ?thesis
    using initialize_eq [of "tx_chain S" "tx_state code" "sample_tx to" "replicate 20 1" 0 "86522 * 2"] tx_good [OF assms(2,3)]
    by (auto simp: verifyTransaction_Inr tx_view bal_def c_secp256k1n_def)
qed

subsection \<open>The properties\<close>

text \<open>
  C28: \<open>initialize\<close> admits a signed transaction exactly when it is replay protected only after the fork that brings it,
  its signature is canonical, its gas covers the base price and fits what is left of the block, its nonce is that of
  the sender and the sender can pay the value and all the gas; only the contract that lists the miners is free of the
  limit of the block. Sums and products are those of integers, so none wraps.
\<close>

theorem transaction_admitted:
  assumes "good (c_backend C) s" and "t_sender t = Inr a" and "\<not> hasZeroSignature t"
  shows "(\<exists>gasCost s'. initialize C t gasUsed s = Inr (gasCost, s')) \<longleftrightarrow>
      (c_number C < EIP158ForkBlock C \<longrightarrow> \<not> isReplayProtected t) \<and>
      (homesteadForkBlock C \<le> c_number C \<longrightarrow> (\<forall>r s v. t_vrs t = Some (r, s, v) \<longrightarrow> unat s \<le> c_secp256k1n div 2)) \<and>
      baseGasRequired (t_isCreation t) (t_data t) (c_schedule C) \<le> unat (t_gas t) \<and>
      (unat gasUsed + unat (t_gas t) \<le> unat (c_gasLimit C) \<or> nodeAddress C = a) \<and>
      t_nonce t = fst (getNonce (c_backend C) a s) \<and>
      unat (t_value t) + unat (t_gas t) * unat (t_gasPrice t) \<le> unat (fst (state_balance (c_backend C) a s))"
proof -
  have "(\<exists>gasCost s'. initialize C t gasUsed s = Inr (gasCost, s')) \<longleftrightarrow>
      (\<exists>gasCost. \<exists>s'. initialize C t gasUsed s = Inr (gasCost, s') \<and> quiet (c_backend C) s s')"
    using initialize_quiet [OF assms(1)] by blast
  then show ?thesis
    using assms initialize_eq [OF assms(1), of t a gasUsed] nonce_reads [OF assms(1), of a] balance_reads [OF assms(1), of a]
    by (simp add: verifyTransaction_Inr tx_from_def)
qed

theorem transaction_admitted_witness:
  "\<exists>gasCost s'. initialize (tx_chain ByzantiumSchedule) (sample_tx (asAddress 255)) 0 (tx_state [0xfe]) = Inr (gasCost, s')"
proof -
  have "baseGasRequired False [] ByzantiumSchedule = 21000" by (simp add: baseGasRequired_def schedule_defs)
  then show ?thesis
    using transaction_admitted [of "tx_chain ByzantiumSchedule" "tx_state [0xfe]" "sample_tx (asAddress 255)" "replicate 20 1" 0]
      nonce_reads [OF tx_good, of "[0xfe]" "replicate 20 1"] balance_reads [OF tx_good, of "[0xfe]" "replicate 20 1"]
    by (simp add: tx_good tx_view bal_def c_secp256k1n_def)
qed

text \<open>
  C25: under the schedules from EIP150 on a transaction that \<open>initialize\<close> admits is executed: it returns a result, no
  error and no exception that ends the process, however its calls and creations nest; it uses at most its gas, and
  refunds leave at least half of the base price to be paid. The block comes before the 256th after the Constantinople
  fork, from where on \<open>BLOCKHASH\<close> would run a nested transaction, and the hashes of the 256 blocks before it are there.
\<close>

theorem transaction_runs:
  assumes "c_schedule C \<in> {EIP150Schedule, EIP158Schedule, ByzantiumSchedule, ConstantinopleSchedule}"
    and "good (c_backend C) s" and "engine_ok C" and "hash_ok (c_backend C)" and "tx_ok t a"
    and "initialize C t gasUsed s = Inr (gasCost, s1)"
    and "c_number C < constantinopleForkBlock C + 256" and "256 \<le> length (precedingHashes C)"
  shows "\<exists>res s'. executeTransaction C t gasUsed s = Some (Inr (res, s')) \<and> r_gasUsed res \<le> t_gas t \<and>
    baseGasRequired (t_isCreation t) (t_data t) (c_schedule C) \<le> 2 * unat (r_gasUsed res)"
  using transaction_ok [OF assms(2-4) priced_schedules [OF assms(1)] assms(5,6)] by blast

theorem transaction_runs_witness:
  "\<exists>res s'. executeTransaction (tx_chain ByzantiumSchedule) (sample_tx (replicate 20 2)) 0 (tx_state mint_code) = Some (Inr (res, s')) \<and>
    r_gasUsed res \<le> 86522"
proof -
  obtain gasCost s1 where "initialize (tx_chain ByzantiumSchedule) (sample_tx (replicate 20 2)) 0 (tx_state mint_code) = Inr (gasCost, s1)"
    using tx_initialize [of ByzantiumSchedule mint_code "replicate 20 2"] by (auto simp: mint_code_def)
  from transaction_runs [OF _ _ _ _ _ this, of "replicate 20 1"] show ?thesis
    using tx_good [of mint_code] by (auto simp: mint_code_def)
qed

text \<open>
  C26: a transaction whose sender is not the author of the block, and which fails in the interpreter, on a used address
  or in the run of a precompiled contract, costs the sender the gas it used and gives that to the author; every other
  account is as before, but for storage that a creation has cleared, of which the values of the trie come back. Left
  out is the failure \<open>OutOfGasBase\<close>, of a precompiled contract whose price the gas does not cover, since it leaves the
  account of the contract touched. The block is one before the 256th after the Constantinople fork, as above.
\<close>

theorem failed_transaction:
  assumes "c_schedule C \<in> {EIP150Schedule, EIP158Schedule, ByzantiumSchedule, ConstantinopleSchedule}"
    and "good (c_backend C) s" and "engine_ok C" and "hash_ok (c_backend C)" and "tx_ok t a" and "a \<noteq> c_author C"
    and "initialize C t gasUsed s = Inr (gasCost, s1)"
    and "executeTransaction C t gasUsed s = Some (Inr (res, s'))" and "r_excepted res \<notin> {NoException, OutOfGasBase}"
    and "c_number C < constantinopleForkBlock C + 256" and "256 \<le> length (precedingHashes C)"
  shows "bal (view (c_backend C) s') a = bal (view (c_backend C) s) a - r_gasUsed res * t_gasPrice t \<and>
    bal (view (c_backend C) s') (c_author C) = bal (view (c_backend C) s) (c_author C) + r_gasUsed res * t_gasPrice t \<and>
    (\<forall>b. b \<noteq> a \<longrightarrow> b \<noteq> c_author C \<longrightarrow>
       rel_option (acct_sim True (m_storages s)) (view (c_backend C) s' b) (view (c_backend C) s b))"
proof -
  let ?B = "c_backend C"
  obtain x s0 s2 s3 r where r: "charged ?B a gasCost s s0" "finished ?B True (unat (t_gas t) - base_gas C t) s0 (x, s2)"
      "settled C t a (r_gasUsed r) s2 s3" "r_excepted r = m_excepted x"
      "m_excepted x \<noteq> NoException \<longrightarrow> m_extvm x = None \<or> m_sub x = empty_sub"
      "executeTransaction C t gasUsed s = Some (Inr (r, if m_extvm x \<noteq> None then fold (state_kill ?B) (suicides (m_sub x)) s3 else s3))"
    using transaction_ok [OF assms(2-4) priced_schedules [OF assms(1)] assms(5,7)] by blast
  have res: "r = res" "s' = s3" using r(4-6) assms(8,9) by (auto simp: empty_sub_def split: if_splits)
  have sim: "view_sim True (m_storages s) (view ?B s2) (view ?B s0)"
    using r(2,4) assms(9) res(1) charged_base [OF r(1)] by (simp add: finished_def clean_failure_def)
  have "gasCost = t_gas t * t_gasPrice t" using initialize_cost [OF assms(2) _ assms(7)] assms(5) by (simp add: tx_ok_def)
  then have "bal (view ?B s0) a = bal (view ?B s) a - t_gas t * t_gasPrice t" "bal (view ?B s0) (c_author C) = bal (view ?B s) (c_author C)"
    using r(1) assms(6) by (simp_all add: charged_def)
  then have "bal (view ?B s') a = bal (view ?B s) a - r_gasUsed res * t_gasPrice t"
      "bal (view ?B s') (c_author C) = bal (view ?B s) (c_author C) + r_gasUsed res * t_gasPrice t"
    using settled_bal(1) [OF r(3)] sim_bal [OF sim] assms(6) res by (simp_all add: algebra_simps)
  moreover have "rel_option (acct_sim True (m_storages s)) (view ?B s' b) (view ?B s b)" if "b \<noteq> a" "b \<noteq> c_author C" for b
    using view_simD [OF sim, of b] settled_bal(2) [OF r(3) that] r(1) that res(2) by (simp add: charged_def)
  ultimately show ?thesis by blast
qed

text \<open>The code \<open>0xfe\<close> is no instruction.\<close>

lemma exec_bad_code:
  assumes "e_code E = [0xfe]" "e_schedule E = ByzantiumSchedule"
  shows "\<exists>v. exec X E g e = Some (Inl (BadInstruction, v))"
  using assms
  by (simp add: exec_def optimize_def copyCode_def jump_scan.simps interpretCases.simps Let_def vm_init_def vm_eval bad_metric_def schedule_defs fail_def)

lemma bad_transaction:
  assumes "initialize (tx_chain ByzantiumSchedule) (sample_tx (replicate 20 2)) 0 (tx_state [0xfe]) = Inr (gasCost, s1)"
    and "executeTransaction (tx_chain ByzantiumSchedule) (sample_tx (replicate 20 2)) 0 (tx_state [0xfe]) = Some (Inr (res, s'))"
  shows "r_excepted res = TxBadInstruction"
proof -
  let ?C = "tx_chain ByzantiumSchedule" and ?t = "sample_tx (replicate 20 2)" and ?B = tx_backend
  define E where "E = ExtVM ?C (replicate 20 2) (replicate 20 1) (replicate 20 1) 5 2 [] [0xfe] 0 False"
  have g: "good ?B (tx_state [0xfe])" by (simp add: tx_good)
  have q: "quiet ?B (tx_state [0xfe]) s1" using initialize_quiet [OF _ assms(1)] g by simp
  have p: "payable ?C ?t gasCost s1 (replicate 20 1)" using initialize_payable [OF _ _ assms(1)] g by simp
  obtain s0 s2 where ex: "execute ?C ?t gasCost s1 =
      Some (Inr (new_executive\<lparr>m_savepoint := savepoint s0, m_gas := 86522 - base_gas ?C ?t, m_extvm := Some E\<rparr>, s2))"
    using execute_code [of ?C s1 ?t "replicate 20 1" _ gasCost] adv_good [OF quiet_adv [OF g q]] p quietD(2) [OF q]
    by (fastforce simp: tx_view E_def)
  obtain v where v: "exec (ext_world ?C 1024 E) E (86522 - base_gas ?C ?t) \<lparr>w_state = s2, w_sub = empty_sub\<rparr> = Some (Inl (BadInstruction, v))"
    using exec_bad_code [of E "ext_world ?C 1024 E" "86522 - base_gas ?C ?t" "\<lparr>w_state = s2, w_sub = empty_sub\<rparr>"]
    by (auto simp: E_def ExtVM_def)
  have "finalize ?C ?t x s = Inr (r, u) \<Longrightarrow> r_excepted r = m_excepted x" for x s r u
    by (auto simp: finalize_def Let_def ebind_def split: sum.splits if_splits)
  then show ?thesis
    using assms ex v
    by (fastforce simp: executeTransaction_def go_def new_executive_def vm_failed_def toTransactionException_def revert_def)
qed

theorem failed_transaction_witness:
  "\<exists>res s'. executeTransaction (tx_chain ByzantiumSchedule) (sample_tx (replicate 20 2)) 0 (tx_state [0xfe]) = Some (Inr (res, s')) \<and>
    r_excepted res = TxBadInstruction \<and>
    bal (view tx_backend s') (replicate 20 1) = 1000000 - r_gasUsed res * 2 \<and>
    bal (view tx_backend s') (replicate 20 7) = r_gasUsed res * 2"
proof -
  let ?C = "tx_chain ByzantiumSchedule" and ?t = "sample_tx (replicate 20 2)" and ?s = "tx_state [0xfe]"
  have g: "good (c_backend ?C) ?s" by (simp add: tx_good)
  obtain gasCost s1 where i: "initialize ?C ?t 0 ?s = Inr (gasCost, s1)"
    using tx_initialize [of ByzantiumSchedule "[0xfe]" "t_receiveAddress ?t"] by auto
  obtain res s' where r: "executeTransaction ?C ?t 0 ?s = Some (Inr (res, s'))"
    using transaction_ok [OF g _ _ _ _ i, of "replicate 20 1"] priced_schedules [of ByzantiumSchedule] by auto
  note e = bad_transaction [OF i r]
  show ?thesis
    using failed_transaction [OF _ g _ _ _ _ i r, of "replicate 20 1"] r e by (simp add: tx_view bal_def)
qed

text \<open>
  C27: a transaction to an account without code uses the base price of its gas, moves the value from the sender to the
  receiver and the price of that gas from the sender to the author, and changes no other account.
\<close>

theorem plain_transfer:
  assumes "good (c_backend C) s" and "t_sender t = Inr a" and "\<not> hasZeroSignature t" and "\<not> t_isCreation t"
    and "plain C s (t_receiveAddress t)" and "distinct [a, t_receiveAddress t, c_author C]"
    and "initialize C t gasUsed s = Inr (gasCost, s1)"
  shows "\<exists>res s'. executeTransaction C t gasUsed s = Some (Inr (res, s')) \<and> r_excepted res = NoException \<and>
    (let B = c_backend C; base = of_nat (baseGasRequired False (t_data t) (c_schedule C)) in
     r_gasUsed res = base \<and>
     bal (view B s') a = bal (view B s) a - t_value t - base * t_gasPrice t \<and>
     bal (view B s') (t_receiveAddress t) = bal (view B s) (t_receiveAddress t) + t_value t \<and>
     bal (view B s') (c_author C) = bal (view B s) (c_author C) + base * t_gasPrice t \<and>
     (\<forall>b. b \<notin> {a, t_receiveAddress t, c_author C} \<longrightarrow> view B s' b = view B s b))"
  using plain_transaction [OF assms] assms(4) by (auto simp: Let_def)

theorem plain_transfer_witness:
  "\<exists>res s'. executeTransaction (tx_chain ByzantiumSchedule) (sample_tx (asAddress 255)) 0 (tx_state [0xfe]) = Some (Inr (res, s')) \<and>
    bal (view tx_backend s') (replicate 20 1) = 957995 \<and> bal (view tx_backend s') (asAddress 255) = 6 \<and>
    bal (view tx_backend s') (replicate 20 7) = 42000"
proof -
  let ?C = "tx_chain ByzantiumSchedule" and ?t = "sample_tx (asAddress 255)" and ?s = "tx_state [0xfe]"
  have g: "good (c_backend ?C) ?s" by (simp add: tx_good)
  obtain gasCost s1 where i: "initialize ?C ?t 0 ?s = Inr (gasCost, s1)"
    using tx_initialize [of ByzantiumSchedule "[0xfe]" "t_receiveAddress ?t"] by auto
  have "baseGasRequired False [] ByzantiumSchedule = 21000" by (simp add: baseGasRequired_def schedule_defs)
  then show ?thesis
    using plain_transfer [OF g _ _ _ _ _ i, of "replicate 20 1"] by (auto simp: plain_def tx_view bal_def Let_def)
qed

text \<open>
  C29: under \<open>DefaultSchedule\<close>, which is what the QPOS engine uses, an admitted transaction need not end. One that leaves
  65522 gas for a contract with the code \<open>mint_code\<close>, while account 255 exists, has no code and is not precompiled,
  starts the interpreter and has an endless run there: every state is followed by the next one, no step stops and none
  raises an exception, since every call the contract makes gives it more gas than it had. So it has no result either.
\<close>

theorem transaction_never_ends:
  assumes "c_schedule C = DefaultSchedule" and "good (c_backend C) s"
    and "t_sender t = Inr a" and "\<not> t_isCreation t" and "distinct [a, t_receiveAddress t, asAddress 255]"
    and "unat (t_gas t) = baseGasRequired False (t_data t) (c_schedule C) + 65522"
    and "\<not> isPrecompiled C (t_receiveAddress t)" and "view (c_backend C) s (t_receiveAddress t) = Some w" and "v_code w = mint_code"
    and "b_sha3 (c_backend C) mint_code \<noteq> EmptySHA3 (c_backend C)"
    and "plain C s (asAddress 255)" and "view (c_backend C) s (asAddress 255) \<noteq> None"
    and "initialize C t gasUsed s = Inr (gasCost, s1)"
  shows "\<exists>x s2 E run. execute C t gasCost s1 = Some (Inr (x, s2)) \<and> m_extvm x = Some E \<and> \<not> m_isCreation x \<and>
    run 0 = vm_init (m_gas x) \<lparr>w_state = s2, w_sub = m_sub x\<rparr> \<and>
    (\<forall>n. vm_step (ext_world C 1024 E) E (optimize (e_code E)) (run n) = Inr (Next (run (Suc n)))) \<and>
    executeTransaction C t gasUsed s = None"
  using endless_transaction [OF assms(2,1,3,4,5) _ assms(7-13)] assms(4,6) by simp

theorem transaction_never_ends_witness:
  "\<exists>E run. (\<forall>n. vm_step (ext_world (tx_chain DefaultSchedule) 1024 E) E (optimize (e_code E)) (run n) = Inr (Next (run (Suc n)))) \<and>
    executeTransaction (tx_chain DefaultSchedule) (sample_tx (replicate 20 2)) 0 (tx_state mint_code) = None"
proof -
  let ?C = "tx_chain DefaultSchedule" and ?t = "sample_tx (replicate 20 2)" and ?s = "tx_state mint_code"
  have m: "mint_code \<noteq> []" "length mint_code < 2 ^ 64" by (simp_all add: mint_code_def)
  have g: "good (c_backend ?C) ?s" using tx_good [OF m] by simp
  obtain gasCost s1 where i: "initialize ?C ?t 0 ?s = Inr (gasCost, s1)"
    using tx_initialize [OF _ m, of DefaultSchedule "replicate 20 2"] by auto
  have base: "baseGasRequired False [] DefaultSchedule = 21000" by (simp add: baseGasRequired_def schedule_defs)
  show ?thesis
    using transaction_never_ends [OF _ g _ _ _ _ _ _ _ _ _ _ i, of "replicate 20 1" "the (view tx_backend ?s (replicate 20 2))"] m base
    by (simp add: plain_def tx_view) blast
qed

end
