(* ===== verification/Tx_Queue.thy ===== *)
theory Tx_Queue
  imports Executive Assoc_Lists
begin

section \<open>The transaction queue (\<open>libethereum/TransactionQueue\<close>)\<close>

text \<open>
  Transactions waiting for a block, indexed by hash and by sender and nonce, and those whose nonce is too high yet.
  \<open>std::map\<close> is a list of pairs in the order of its keys. \<open>m_current\<close> is a \<open>std::multiset\<close> whose comparator looks
  at the queue itself: it is the list of its elements in the order of the tree, each under a number that stands for
  the iterator, and the descent of \<open>emplace\<close> through a tree is a binary search whose pivots the shape of the
  tree gives (\<open>tree\<close>). An iterator that was never set is \<open>None\<close>. \<open>unordered_map::begin\<close> is any of the entries
  (\<open>front\<close>). An exception carries the queue at the throw, since \<open>manageImport_WITH_LOCK\<close> handles it; following an
  iterator that is not set or not in the queue, and the last of no elements, are undefined; a loop that
  does nothing in a pass and goes on is \<open>Diverges\<close>. The operations run under the lock \<open>m_lock\<close>, so one at a time;
  the signals \<open>m_onReady\<close>, \<open>m_onImport\<close> and \<open>m_onReplaced\<close> and the recovery of the sender are outside.
\<close>

subsection \<open>State\<close>

type_synonym handle = nat

record TransactionQueue =
  tq_known :: "h256 set"
  tq_dropped :: "h256 set"
  tq_current :: "(handle \<times> Transaction) list"
  tq_byHash :: "h256 \<rightharpoonup> handle"
  tq_byAddress :: "address \<rightharpoonup> (u256 \<times> handle option) list"
  tq_future :: "(address \<times> (u256 \<times> Transaction) list) list"
  tq_limit :: nat
  tq_futureLimit :: nat
  tq_futureSize :: "32 word"
  tq_unverified :: "(bytes \<times> bytes) list" \<comment> \<open>the data and the peer\<close>
  tq_next :: handle

record tq_env =
  txHash :: "Transaction \<Rightarrow> h256" \<comment> \<open>\<open>sha3 ()\<close>\<close>
  tree :: "handle \<Rightarrow> nat \<Rightarrow> nat \<Rightarrow> nat"
  front :: "address list \<Rightarrow> nat"

definition new_TransactionQueue :: "nat \<Rightarrow> nat \<Rightarrow> TransactionQueue" where
  "new_TransactionQueue limit futureLimit =
     \<lparr>tq_known = {}, tq_dropped = {}, tq_current = [], tq_byHash = Map.empty, tq_byAddress = Map.empty, tq_future = [],
      tq_limit = limit, tq_futureLimit = futureLimit, tq_futureSize = 0, tq_unverified = [], tq_next = 0\<rparr>"

datatype ImportResult =
    Success | UnknownParent | FutureTimeKnown | FutureTimeUnknown | AlreadyInChain | AlreadyKnown | Malformed
  | OverbidGasPrice | BadChain | ZeroSignature

datatype IfDropped = Ignore | Retry

datatype tq_error = TqThrow tx_error | TqUndefined | TqDiverges

type_synonym 'a tqr = "tq_error \<times> TransactionQueue + 'a"

definition deref :: "handle option \<Rightarrow> TransactionQueue \<Rightarrow> (handle \<times> Transaction) tqr" where
  "deref it q =
     (case it of
        None \<Rightarrow> Inl (TqUndefined, q)
      | Some h \<Rightarrow> (case map_of (tq_current q) h of None \<Rightarrow> Inl (TqUndefined, q) | Some t \<Rightarrow> Inr (h, t)))"

definition index :: "TransactionQueue \<Rightarrow> address \<Rightarrow> u256 \<rightharpoonup> handle option" where
  "index q a n = (case tq_byAddress q a of None \<Rightarrow> None | Some m \<Rightarrow> map_of m n)"

definition at_address :: "address \<Rightarrow> TransactionQueue \<Rightarrow> (u256 \<times> handle option) list" where
  "at_address a q = (case tq_byAddress q a of None \<Rightarrow> [] | Some m \<Rightarrow> m)"

subsection \<open>The priority queue\<close>

text \<open>\<open>PriorityCompare\<close>.\<close>

definition height :: "Transaction \<Rightarrow> TransactionQueue \<Rightarrow> u256 tqr" where
  "height t q =
     (case t_sender t of
        Inl e \<Rightarrow> Inl (TqThrow e, q)
      | Inr a \<Rightarrow> (case at_address a q of [] \<Rightarrow> Inl (TqUndefined, q) | (n, _) # _ \<Rightarrow> Inr (t_nonce t - n)))"

definition PriorityCompare :: "Transaction \<Rightarrow> Transaction \<Rightarrow> TransactionQueue \<Rightarrow> bool tqr" where
  "PriorityCompare t u q =
     ebind (height t q) (\<lambda>h1. ebind (height u q) (\<lambda>h2.
     Inr (h1 < h2 \<or> h1 = h2 \<and> t_gasPrice t > t_gasPrice u)))"

function descend :: "tq_env \<Rightarrow> Transaction \<Rightarrow> TransactionQueue \<Rightarrow> nat \<Rightarrow> nat \<Rightarrow> nat tqr" where
  "descend E t q lo hi =
     (if hi \<le> lo then Inr lo
      else
        let p = lo + tree E (tq_next q) lo hi mod (hi - lo) in
        ebind (PriorityCompare t (snd (tq_current q ! p)) q) (\<lambda>left.
        if left then descend E t q lo p else descend E t q (p + 1) hi))"
  by auto

lemma pivot_less: "lo < hi \<Longrightarrow> lo + k mod (hi - lo) < (hi :: nat)"
  by (metis add.commute less_diff_conv mod_less_divisor zero_less_diff)

termination descend
  by (relation "measure (\<lambda>(E, t, q, lo, hi). hi - lo)") (use pivot_less in \<open>fastforce simp: not_le\<close>)+

declare descend.simps [simp del]

definition emplace :: "tq_env \<Rightarrow> Transaction \<Rightarrow> TransactionQueue \<Rightarrow> (handle \<times> TransactionQueue) tqr" where
  "emplace E t q =
     ebind (descend E t q 0 (length (tq_current q))) (\<lambda>pos.
     Inr (tq_next q, q\<lparr>tq_current := take pos (tq_current q) @ (tq_next q, t) # drop pos (tq_current q), tq_next := tq_next q + 1\<rparr>))"

text \<open>Into the priority queue and both indexes; what \<open>insertCurrent_WITH_LOCK\<close> and the loop of \<open>makeCurrent_WITH_LOCK\<close> share.\<close>

definition place_current :: "tq_env \<Rightarrow> address \<Rightarrow> Transaction \<Rightarrow> TransactionQueue \<Rightarrow> TransactionQueue tqr" where
  "place_current E a t q =
     (let q = q\<lparr>tq_byAddress := (tq_byAddress q)(a \<mapsto> om_insert (t_nonce t) None (at_address a q))\<rparr> in
      ebind (emplace E t q) (\<lambda>(h, q).
      Inr (q\<lparr>tq_byAddress := (tq_byAddress q)(a \<mapsto> om_set (t_nonce t) (Some h) (at_address a q)),
             tq_byHash := (tq_byHash q)(txHash E t \<mapsto> h)\<rparr>)))"

subsection \<open>Future transactions\<close>

text \<open>A transaction that was moved from has no data left.\<close>

definition moved_from :: "address \<Rightarrow> u256 \<Rightarrow> Transaction \<Rightarrow> TransactionQueue \<Rightarrow> TransactionQueue" where
  "moved_from a n t q =
     (case map_of (tq_future q) a of
        None \<Rightarrow> q
      | Some m \<Rightarrow> q\<lparr>tq_future := hm_set a (om_set n (t\<lparr>t_data := []\<rparr>) m) (tq_future q)\<rparr>)"

fun make_run :: "tq_env \<Rightarrow> address \<Rightarrow> u256 \<Rightarrow> (u256 \<times> Transaction) list \<Rightarrow> TransactionQueue \<Rightarrow> ((u256 \<times> Transaction) list \<times> TransactionQueue) tqr" where
  "make_run E a nonce [] q = Inr ([], q)"
| "make_run E a nonce ((n, t) # l) q =
     (if t_nonce t = nonce then
        ebind (place_current E a t (moved_from a n t q)) (\<lambda>q.
        make_run E a (nonce + 1) l (q\<lparr>tq_futureSize := tq_futureSize q - 1\<rparr>))
      else Inr ((n, t) # l, q))"

definition set_future :: "address \<Rightarrow> (u256 \<times> Transaction) list \<Rightarrow> TransactionQueue \<Rightarrow> TransactionQueue" where
  "set_future a m q = q\<lparr>tq_future := (if m = [] then om_erase a (tq_future q) else hm_set a m (tq_future q))\<rparr>"

text \<open>The chain ends that go when there are too many.\<close>

function evict :: "tq_env \<Rightarrow> TransactionQueue \<Rightarrow> TransactionQueue tqr" where
  "evict E q =
     (if unat (tq_futureSize q) \<le> tq_futureLimit q then Inr q
      else
        let q' = q\<lparr>tq_futureSize := tq_futureSize q - 1\<rparr> in
        case tq_future q of
          [] \<Rightarrow> Inl (TqUndefined, q')
        | _ \<Rightarrow>
          let (a, m) = tq_future q ! (front E (map fst (tq_future q)) mod length (tq_future q)) in
          if m = [] then Inl (TqUndefined, q') else evict E (set_future a (butlast m) q'))"
  by pat_completeness auto

lemma set_future_futureSize [simp]: "tq_futureSize (set_future a m q) = tq_futureSize q"
  by (simp add: set_future_def)

termination evict
proof (relation "measure (\<lambda>(E, q). unat (tq_futureSize q))")
  fix E :: tq_env and q q' :: TransactionQueue and x x21 x22 a m
  assume "\<not> unat (tq_futureSize q) \<le> tq_futureLimit q" "q' = q\<lparr>tq_futureSize := tq_futureSize q - 1\<rparr>"
  then have "0 < unat (tq_futureSize q)" by linarith
  then have "unat (tq_futureSize q - 1) < unat (tq_futureSize q)" by (simp add: unat_minus_one unat_gt_0)
  then show "((E, set_future a (butlast m) q'), E, q) \<in> measure (\<lambda>(E, q). unat (tq_futureSize q))"
    using \<open>q' = _\<close> by simp
qed simp

declare evict.simps [simp del]

definition makeCurrent :: "tq_env \<Rightarrow> Transaction \<Rightarrow> TransactionQueue \<Rightarrow> TransactionQueue tqr" where
  "makeCurrent E t q =
     (let a = tx_from t; nonce = t_nonce t + 1 in
      ebind
        (case map_of (tq_future q) a of
           None \<Rightarrow> Inr q
         | Some m \<Rightarrow>
             if map_of m nonce = None then Inr q
             else
               ebind (make_run E a nonce (dropWhile (\<lambda>p. fst p \<noteq> nonce) m) q) (\<lambda>(rest, q).
               Inr (set_future a (takeWhile (\<lambda>p. fst p \<noteq> nonce) m @ rest) q)))
        (evict E))"

definition insertCurrent :: "tq_env \<Rightarrow> h256 \<Rightarrow> Transaction \<Rightarrow> TransactionQueue \<Rightarrow> TransactionQueue tqr" where
  "insertCurrent E h t q =
     (if tq_byHash q h \<noteq> None then Inr q
      else
        ebind (place_current E (tx_from t) t q) (\<lambda>q.
        ebind (makeCurrent E t q) (\<lambda>q.
        Inr (q\<lparr>tq_known := insert h (tq_known q)\<rparr>))))"

subsection \<open>Removal\<close>

text \<open>\<open>remove_WITH_LOCK\<close>.\<close>

definition tq_remove :: "h256 \<Rightarrow> TransactionQueue \<Rightarrow> (bool \<times> TransactionQueue) tqr" where
  "tq_remove h q =
     (case tq_byHash q h of
        None \<Rightarrow> Inr (False, q)
      | Some it \<Rightarrow>
          ebind (deref (Some it) q) (\<lambda>(_, t).
          case tq_byAddress q (tx_from t) of
            None \<Rightarrow> Inl (TqUndefined, q)
          | Some m \<Rightarrow>
              let m = om_erase (t_nonce t) m in
              Inr (True, q\<lparr>tq_byAddress := (tq_byAddress q)(tx_from t := if m = [] then None else Some m),
                           tq_current := om_erase it (tq_current q), tq_byHash := (tq_byHash q)(h := None),
                           tq_known := tq_known q - {h}\<rparr>)))"

lemma tq_remove_shorter: "tq_remove h q = Inr (True, q') \<Longrightarrow> length (tq_current q') < length (tq_current q)"
proof -
  assume r: "tq_remove h q = Inr (True, q')"
  then obtain it t where it: "map_of (tq_current q) it = Some t" "tq_current q' = om_erase it (tq_current q)"
    by (auto simp: tq_remove_def deref_def ebind_Inr_iff Let_def split: option.splits)
  then show ?thesis using length_filter_less [of "(it, t)" "tq_current q" "\<lambda>p. fst p \<noteq> it"] by (auto simp: om_erase_def dest: map_of_SomeD)
qed

text \<open>The loop that keeps the queue within its limit.\<close>

function shrink :: "tq_env \<Rightarrow> TransactionQueue \<Rightarrow> TransactionQueue tqr" where
  "shrink E q =
     (if length (tq_current q) \<le> tq_limit q then Inr q
      else
        case tq_remove (txHash E (snd (last (tq_current q)))) q of
          Inl e \<Rightarrow> Inl e
        | Inr (removed, q') \<Rightarrow> if removed then shrink E q' else Inl (TqDiverges, q))"
  by pat_completeness auto

termination shrink
  by (relation "measure (\<lambda>(E, q). length (tq_current q))") (auto dest: tq_remove_shorter)

declare shrink.simps [simp del]

subsection \<open>Import\<close>

definition check :: "h256 \<Rightarrow> IfDropped \<Rightarrow> TransactionQueue \<Rightarrow> ImportResult" where
  "check h ik q =
     (if h \<in> tq_known q then AlreadyKnown else if h \<in> tq_dropped q \<and> ik = Ignore then AlreadyInChain else Success)"

text \<open>\<open>manageImport_WITH_LOCK\<close>; first what the handlers surround.\<close>

definition replace_current :: "tq_env \<Rightarrow> Transaction \<Rightarrow> TransactionQueue \<Rightarrow> (bool \<times> TransactionQueue) tqr" where
  "replace_current E t q =
     (case index q (tx_from t) (t_nonce t) of
        None \<Rightarrow> Inr (True, q)
      | Some it \<Rightarrow>
          ebind (deref it q) (\<lambda>(_, u).
          if t_gasPrice t < t_gasPrice u then Inr (False, q)
          else ebind (tq_remove (txHash E u) q) (\<lambda>(_, q). Inr (True, q))))"

definition replace_future :: "Transaction \<Rightarrow> TransactionQueue \<Rightarrow> bool \<times> TransactionQueue" where
  "replace_future t q =
     (case map_of (tq_future q) (tx_from t) of
        None \<Rightarrow> (True, q)
      | Some m \<Rightarrow>
          case map_of m (t_nonce t) of
            None \<Rightarrow> (True, q)
          | Some u \<Rightarrow>
              if t_gasPrice t < t_gasPrice u then (False, q)
              else
                (True, set_future (tx_from t) (om_erase (t_nonce t) m) (q\<lparr>tq_futureSize := tq_futureSize q - 1\<rparr>)))"

definition import_body :: "tq_env \<Rightarrow> h256 \<Rightarrow> Transaction \<Rightarrow> TransactionQueue \<Rightarrow> (ImportResult \<times> TransactionQueue) tqr" where
  "import_body E h t q =
     ebind (replace_current E t q) (\<lambda>(go_on, q).
     if \<not> go_on then Inr (OverbidGasPrice, q)
     else
       let (go_on, q) = replace_future t q in
       if \<not> go_on then Inr (OverbidGasPrice, q)
       else
         ebind (insertCurrent E h t q) (\<lambda>q.
         ebind (shrink E q) (\<lambda>q.
         Inr (Success, q))))"

definition manageImport :: "tq_env \<Rightarrow> h256 \<Rightarrow> Transaction \<Rightarrow> TransactionQueue \<Rightarrow> (ImportResult \<times> TransactionQueue) tqr" where
  "manageImport E h t q =
     (case import_body E h t q of Inl (TqThrow _, q') \<Rightarrow> Inr (Malformed, q') | r \<Rightarrow> r)"

text \<open>
  \<open>import\<close> of a transaction, which is signed, as every one that was parsed is: for one without a signature the call
  of \<open>sha3\<close> would throw before the queue is looked at.
\<close>

definition tq_import :: "tq_env \<Rightarrow> Transaction \<Rightarrow> IfDropped \<Rightarrow> TransactionQueue \<Rightarrow> (ImportResult \<times> TransactionQueue) tqr" where
  "tq_import E t ik q =
     (if hasZeroSignature t then Inr (ZeroSignature, q)
      else
        let h = txHash E t; ir = check h ik q in
        if ir \<noteq> Success then Inr (ir, q) else manageImport E h t q)"

text \<open>\<open>import\<close> of RLP data; \<open>parse\<close> is the constructor of \<open>Transaction\<close>.\<close>

definition import_rlp :: "tq_env \<Rightarrow> (bytes \<Rightarrow> tx_error + Transaction) \<Rightarrow> bytes \<Rightarrow> IfDropped \<Rightarrow> TransactionQueue \<Rightarrow> (ImportResult \<times> TransactionQueue) tqr" where
  "import_rlp E parse b ik q = (case parse b of Inl _ \<Rightarrow> Inr (Malformed, q) | Inr t \<Rightarrow> tq_import E t ik q)"

subsection \<open>The other operations\<close>

definition topTransactions :: "tq_env \<Rightarrow> nat \<Rightarrow> h256 set \<Rightarrow> TransactionQueue \<Rightarrow> Transaction list" where
  "topTransactions E limit avoid q = take limit (filter (\<lambda>t. txHash E t \<notin> avoid) (map snd (tq_current q)))"

definition maxNonce :: "address \<Rightarrow> TransactionQueue \<Rightarrow> u256" where
  "maxNonce a q =
     (let r = (case tq_byAddress q a of Some m \<Rightarrow> if m = [] then 0 else fst (last m) + 1 | None \<Rightarrow> 0) in
      case map_of (tq_future q) a of Some m \<Rightarrow> if m = [] then r else max r (fst (last m) + 1) | None \<Rightarrow> r)"

definition waiting :: "address \<Rightarrow> TransactionQueue \<Rightarrow> nat" where
  "waiting a q =
     length (at_address a q) + (case map_of (tq_future q) a of Some m \<Rightarrow> length m | None \<Rightarrow> 0)"

text \<open>The loop of \<open>setFuture\<close> over the sender's transactions from the given one on; \<open>target\<close> is the sender's map in \<open>m_future\<close>.\<close>

fun to_future :: "tq_env \<Rightarrow> (u256 \<times> handle option) list \<Rightarrow> (u256 \<times> Transaction) list \<Rightarrow> TransactionQueue \<Rightarrow> ((u256 \<times> Transaction) list \<times> TransactionQueue) tqr" where
  "to_future E [] target q = Inr (target, q)"
| "to_future E ((_, it) # l) target q =
     ebind (deref it q) (\<lambda>(h, t).
     to_future E l (om_insert (t_nonce t) t target)
       (q\<lparr>tq_byHash := (tq_byHash q)(txHash E t := None), tq_current := om_erase h (tq_current q),
          tq_futureSize := tq_futureSize q + 1\<rparr>))"

definition setFuture :: "tq_env \<Rightarrow> h256 \<Rightarrow> TransactionQueue \<Rightarrow> TransactionQueue tqr" where
  "setFuture E h q =
     (case tq_byHash q h of
        None \<Rightarrow> Inr q
      | Some it \<Rightarrow>
          ebind (deref (Some it) q) (\<lambda>(_, st).
          let a = tx_from st; m = at_address a q;
              target = (case map_of (tq_future q) a of None \<Rightarrow> [] | Some m \<Rightarrow> m);
              keep = filter (\<lambda>p. fst p < t_nonce st) m in
          ebind (to_future E (filter (\<lambda>p. \<not> fst p < t_nonce st) m) target q) (\<lambda>(target, q).
          Inr (q\<lparr>tq_future := hm_set a target (tq_future q),
                 tq_byAddress := (tq_byAddress q)(a := if keep = [] then None else Some keep)\<rparr>))))"

definition tq_drop :: "h256 \<Rightarrow> TransactionQueue \<Rightarrow> TransactionQueue tqr" where
  "tq_drop h q =
     (if h \<notin> tq_known q then Inr q
      else ebind (tq_remove h (q\<lparr>tq_dropped := insert h (tq_dropped q)\<rparr>)) (\<lambda>(_, q). Inr q))"

definition dropGood :: "tq_env \<Rightarrow> Transaction \<Rightarrow> TransactionQueue \<Rightarrow> TransactionQueue tqr" where
  "dropGood E t q =
     ebind (makeCurrent E t q) (\<lambda>q.
     if txHash E t \<notin> tq_known q then Inr q else ebind (tq_remove (txHash E t) q) (\<lambda>(_, q). Inr q))"

definition tq_clear :: "TransactionQueue \<Rightarrow> TransactionQueue" where
  "tq_clear q =
     q\<lparr>tq_known := {}, tq_current := [], tq_dropped := {}, tq_byAddress := Map.empty, tq_byHash := Map.empty, tq_future := [],
       tq_futureSize := 0\<rparr>"

definition c_maxVerificationQueueSize :: nat where
  "c_maxVerificationQueueSize = 8192"

text \<open>\<open>enqueue\<close>: \<open>xs\<close> are the items of the list that the peer sent.\<close>

definition tq_enqueue :: "bytes list \<Rightarrow> bytes \<Rightarrow> TransactionQueue \<Rightarrow> TransactionQueue" where
  "tq_enqueue xs node q =
     q\<lparr>tq_unverified :=
         tq_unverified q @ map (\<lambda>b. (b, node)) (take (c_maxVerificationQueueSize - length (tq_unverified q)) xs)\<rparr>"

text \<open>
  One pass of \<open>verifierBody\<close>, when there is work; \<open>parse\<close> is the constructor of \<open>Transaction\<close> with
  \<open>CheckTransaction::Cheap\<close>, whose exceptions are dropped.
\<close>

definition verifierBody :: "tq_env \<Rightarrow> (bytes \<Rightarrow> tx_error + Transaction) \<Rightarrow> TransactionQueue \<Rightarrow> TransactionQueue tqr" where
  "verifierBody E parse q =
     (case tq_unverified q of
        [] \<Rightarrow> Inr q
      | (b, node) # rest \<Rightarrow>
          let q = q\<lparr>tq_unverified := rest\<rparr> in
          (case parse b of
             Inl _ \<Rightarrow> Inr q
           | Inr t \<Rightarrow> ebind (tq_import E t Ignore q) (\<lambda>(_, q). Inr q)))"

end
