(* ===== verification/Tx_Queue_Invariant.thy ===== *)
theory Tx_Queue_Invariant
  imports Tx_Queue
begin

section \<open>What the transaction queue keeps\<close>

text \<open>
  The indexes agree with the priority queue, every sender and nonce is held once, and the count of future
  transactions is right. Each operation keeps this on transactions with a recoverable sender, and does not run into
  undefined behaviour; the set \<open>T\<close> of the transactions at hand has no colliding hashes.
\<close>

subsection \<open>Future transactions\<close>

type_synonym future = "(address \<times> (u256 \<times> Transaction) list) list"

definition fut :: "future \<Rightarrow> address \<Rightarrow> u256 \<rightharpoonup> Transaction" where
  "fut F a = (case map_of F a of None \<Rightarrow> Map.empty | Some m \<Rightarrow> map_of m)"

definition total :: "future \<Rightarrow> nat" where
  "total F = sum_list (map (\<lambda>p. length (snd p)) F)"

definition fut_set :: "address \<Rightarrow> (u256 \<times> Transaction) list \<Rightarrow> future \<Rightarrow> future" where
  "fut_set a m F = (if m = [] then om_erase a F else hm_set a m F)"

definition fut_wf :: "future \<Rightarrow> bool" where
  "fut_wf F \<longleftrightarrow> distinct (map fst F) \<and> (\<forall>(a, m) \<in> set F. m \<noteq> [] \<and> om_ok m)"

lemma fut_wfD: "fut_wf F \<Longrightarrow> map_of F a = Some m \<Longrightarrow> m \<noteq> [] \<and> om_ok m"
  by (auto simp: fut_wf_def dest: map_of_SomeD)

lemma fut_fut_set [simp]: "fut (fut_set a m F) = (fut F)(a := map_of m)"
  by (auto simp: fut_def fut_set_def fun_eq_iff)

lemma total_hm_set: "distinct (map fst F) \<Longrightarrow>
  total (hm_set a m F) + (case map_of F a of None \<Rightarrow> 0 | Some m' \<Rightarrow> length m') = total F + length m"
  by (induction a m F rule: hm_set.induct) (auto simp: total_def split: option.splits)

lemma total_om_erase: "distinct (map fst F) \<Longrightarrow>
  total (om_erase a F) + (case map_of F a of None \<Rightarrow> 0 | Some m' \<Rightarrow> length m') = total F"
proof (induction F)
  case (Cons p F)
  have "om_erase (fst p) F = F" using Cons.prems by (simp add: om_erase_notin)
  then show ?case using Cons by (auto simp: total_def om_erase_def split: option.splits)
qed (simp add: total_def om_erase_def)

lemma total_fut_set: "distinct (map fst F) \<Longrightarrow>
  total (fut_set a m F) + (case map_of F a of None \<Rightarrow> 0 | Some m' \<Rightarrow> length m') = total F + length m"
  using total_hm_set total_om_erase by (simp add: fut_set_def)

lemma set_hm_set_subset: "set (hm_set k v m) \<subseteq> insert (k, v) (set m)"
  by (induction k v m rule: hm_set.induct) auto

lemma fut_wf_set [simp]: "fut_wf F \<Longrightarrow> om_ok m \<Longrightarrow> fut_wf (fut_set a m F)"
  using set_hm_set_subset [of a m F] by (auto simp: fut_wf_def fut_set_def)

lemma tq_future_set [simp]: "tq_future (set_future a m q) = fut_set a m (tq_future q)"
  by (simp add: set_future_def fut_set_def)

lemma map_of_fut_set [simp]: "map_of (fut_set a m F) a = (if m = [] then None else Some m)"
  by (simp add: fut_set_def)

subsection \<open>The invariant\<close>

definition tq_core :: "tq_env \<Rightarrow> Transaction set \<Rightarrow> (address \<Rightarrow> u256 \<rightharpoonup> Transaction) \<Rightarrow> TransactionQueue \<Rightarrow> bool" where
  "tq_core E T f q \<longleftrightarrow>
     distinct (map fst (tq_current q)) \<and> (\<forall>(h, t) \<in> set (tq_current q). h < tq_next q \<and> t \<in> T \<and> (\<exists>a. t_sender t = Inr a)) \<and>
     (\<forall>x h. tq_byHash q x = Some h \<longleftrightarrow> (\<exists>t. (h, t) \<in> set (tq_current q) \<and> txHash E t = x)) \<and>
     (\<forall>a n it. index q a n = Some it \<longleftrightarrow> (\<exists>h t. it = Some h \<and> (h, t) \<in> set (tq_current q) \<and> t_sender t = Inr a \<and> t_nonce t = n)) \<and>
     (\<forall>a m. tq_byAddress q a = Some m \<longrightarrow> m \<noteq> [] \<and> om_ok m) \<and>
     (\<forall>a n t. f a n = Some t \<longrightarrow> t \<in> T \<and> t_nonce t = n \<and> t_sender t = Inr a \<and> index q a n = None)"

lemma tq_coreD:
  assumes "tq_core E T f q"
  shows "distinct (map fst (tq_current q))"
    "(h, t) \<in> set (tq_current q) \<Longrightarrow> h < tq_next q \<and> t \<in> T \<and> (\<exists>a. t_sender t = Inr a)"
    "tq_byHash q x = Some h \<longleftrightarrow> (\<exists>t. (h, t) \<in> set (tq_current q) \<and> txHash E t = x)"
    "index q a n = Some it \<longleftrightarrow> (\<exists>h t. it = Some h \<and> (h, t) \<in> set (tq_current q) \<and> t_sender t = Inr a \<and> t_nonce t = n)"
    "tq_byAddress q a = Some m \<Longrightarrow> m \<noteq> [] \<and> om_ok m"
    "f a n = Some t \<Longrightarrow> t \<in> T \<and> t_nonce t = n \<and> t_sender t = Inr a \<and> index q a n = None"
proof -
  note c = assms [unfolded tq_core_def]
  note c2 = c [THEN conjunct2] and c3 = c [THEN conjunct2, THEN conjunct2]
  note c4 = c3 [THEN conjunct2] note c5 = c4 [THEN conjunct2]
  show "distinct (map fst (tq_current q))" by (rule c [THEN conjunct1])
  show "(h, t) \<in> set (tq_current q) \<Longrightarrow> h < tq_next q \<and> t \<in> T \<and> (\<exists>a. t_sender t = Inr a)"
    by (drule bspec [OF c2 [THEN conjunct1]]) simp
  show "tq_byHash q x = Some h \<longleftrightarrow> (\<exists>t. (h, t) \<in> set (tq_current q) \<and> txHash E t = x)"
    by (rule c3 [THEN conjunct1, THEN spec, THEN spec])
  show "index q a n = Some it \<longleftrightarrow> (\<exists>h t. it = Some h \<and> (h, t) \<in> set (tq_current q) \<and> t_sender t = Inr a \<and> t_nonce t = n)"
    by (rule c4 [THEN conjunct1, THEN spec, THEN spec, THEN spec])
  show "tq_byAddress q a = Some m \<Longrightarrow> m \<noteq> [] \<and> om_ok m"
    by (rule c5 [THEN conjunct1, THEN spec, THEN spec, THEN mp])
  show "f a n = Some t \<Longrightarrow> t \<in> T \<and> t_nonce t = n \<and> t_sender t = Inr a \<and> index q a n = None"
    by (rule c5 [THEN conjunct2, THEN spec, THEN spec, THEN spec, THEN mp])
qed

lemma om_ok_at_address: "tq_core E T f q \<Longrightarrow> om_ok (at_address a q)"
  using tq_coreD(5) [of E T f q a] by (auto simp: at_address_def split: option.split)

lemma index_at_address: "index q a = map_of (at_address a q)"
  by (auto simp: index_def at_address_def fun_eq_iff split: option.split)

lemma at_address_neq_Nil: "tq_core E T f q \<Longrightarrow> (h, t) \<in> set (tq_current q) \<Longrightarrow> t_sender t = Inr a \<Longrightarrow> at_address a q \<noteq> []"
  using tq_coreD(4) [of E T f q a "t_nonce t" "Some h"] by (auto simp: index_at_address)

lemma deref_Some: "tq_core E T f q \<Longrightarrow> (h, t) \<in> set (tq_current q) \<Longrightarrow> deref (Some h) q = Inr (h, t)"
  using tq_coreD(1) [of E T f q] by (simp add: deref_def)

subsection \<open>Into the priority queue\<close>

definition comparable :: "TransactionQueue \<Rightarrow> Transaction \<Rightarrow> bool" where
  "comparable q t \<longleftrightarrow> (\<exists>a. t_sender t = Inr a \<and> at_address a q \<noteq> [])"

lemma height_Inr: "comparable q t \<Longrightarrow> \<exists>x. height t q = Inr x"
  by (auto simp: comparable_def height_def neq_Nil_conv split: prod.split)

lemma PriorityCompare_Inr: "comparable q t \<Longrightarrow> comparable q u \<Longrightarrow> \<exists>b. PriorityCompare t u q = Inr b"
  using height_Inr [of q t] height_Inr [of q u] by (auto simp: PriorityCompare_def)

lemma descend_Inr:
  assumes "comparable q t" "\<And>p. p \<in> set (tq_current q) \<Longrightarrow> comparable q (snd p)" "hi \<le> length (tq_current q)" "lo \<le> hi"
  shows "\<exists>p. descend E t q lo hi = Inr p \<and> lo \<le> p \<and> p \<le> hi"
  using assms(3,4)
proof (induction "hi - lo" arbitrary: lo hi rule: less_induct)
  case less
  show ?case
  proof (cases "hi \<le> lo")
    case True
    then show ?thesis using less.prems by (simp add: descend.simps)
  next
    case False
    define p where "p = lo + tree E (tq_next q) lo hi mod (hi - lo)"
    have p: "lo \<le> p" "p < hi" using False pivot_less [of lo hi] by (simp_all add: p_def)
    obtain b where b: "PriorityCompare t (snd (tq_current q ! p)) q = Inr b"
      using PriorityCompare_Inr [OF assms(1) assms(2)] p less.prems(1) by (meson nth_mem order.strict_trans2)
    have eq: "descend E t q lo hi = (if b then descend E t q lo p else descend E t q (p + 1) hi)"
      using False b by (subst descend.simps) (simp add: p_def)
    show ?thesis
    proof (cases b)
      case True
      then show ?thesis using less.hyps [of p lo] p less.prems eq by fastforce
    next
      case b: False
      then show ?thesis using less.hyps [of hi "p + 1"] p less.prems eq by fastforce
    qed
  qed
qed

lemma set_take_drop: "set (take p xs) \<union> set (drop p xs) = set xs"
  by (metis append_take_drop_id set_append)

lemma distinct_mid: "distinct (map f (ys @ zs)) \<Longrightarrow> f x \<notin> f ` set (ys @ zs) \<Longrightarrow> distinct (map f (ys @ x # zs))"
  by auto

text \<open>The queue with a transaction at a fresh number; its place does not matter for the indexes.\<close>

definition placed :: "tq_env \<Rightarrow> address \<Rightarrow> Transaction \<Rightarrow> TransactionQueue \<Rightarrow> TransactionQueue \<Rightarrow> bool" where
  "placed E a t q q' \<longleftrightarrow>
     set (tq_current q') = insert (tq_next q, t) (set (tq_current q)) \<and> length (tq_current q') = length (tq_current q) + 1 \<and>
     index q' = (index q)(a := (index q a)(t_nonce t \<mapsto> Some (tq_next q))) \<and>
     q' = q\<lparr>tq_current := tq_current q', tq_next := tq_next q + 1, tq_byAddress := tq_byAddress q',
            tq_byHash := (tq_byHash q)(txHash E t \<mapsto> tq_next q)\<rparr>"

lemma place_current_ok:
  assumes q: "tq_core E T f q" and t: "t \<in> T" "t_sender t = Inr a" "index q a (t_nonce t) = None" "f a (t_nonce t) = None"
    and inj: "inj_on (txHash E) T"
  shows "\<exists>q'. place_current E a t q = Inr q' \<and> tq_core E T f q' \<and> placed E a t q q'"
proof -
  let ?n = "t_nonce t" and ?h = "tq_next q"
  define q1 where "q1 = q\<lparr>tq_byAddress := (tq_byAddress q)(a \<mapsto> om_insert ?n None (at_address a q))\<rparr>"
  have at1: "at_address b q1 = (if b = a then om_insert ?n None (at_address a q) else at_address b q)" for b
    by (simp add: q1_def at_address_def)
  have ne: "om_insert ?n None (at_address a q) \<noteq> []" by (auto simp: om_insert_def)
  have c: "comparable q1 u" if "(h, u) \<in> set (tq_current q)" for h u
    using tq_coreD(2) [OF q that] at_address_neq_Nil [OF q that] ne by (auto simp: comparable_def at1)
  have "comparable q1 t" using t(2) ne by (simp add: comparable_def at1)
  moreover have "comparable q1 (snd x)" if "x \<in> set (tq_current q1)" for x
    using c [of "fst x" "snd x"] that by (simp add: q1_def)
  ultimately obtain p where p: "descend E t q1 0 (length (tq_current q1)) = Inr p" "p \<le> length (tq_current q1)"
    using descend_Inr [of q1 t "length (tq_current q1)" 0 E] by auto
  define cur where "cur = take p (tq_current q) @ (?h, t) # drop p (tq_current q)"
  define q' where "q' = q\<lparr>tq_current := cur, tq_next := ?h + 1,
      tq_byAddress := (tq_byAddress q)(a \<mapsto> om_set ?n (Some ?h) (om_insert ?n None (at_address a q))),
      tq_byHash := (tq_byHash q)(txHash E t \<mapsto> ?h)\<rparr>"
  have q1: "tq_current q1 = tq_current q" "tq_next q1 = ?h" by (simp_all add: q1_def)
  have emp: "emplace E t q1 = Inr (?h, q1\<lparr>tq_current := cur, tq_next := ?h + 1\<rparr>)"
    using p(1) by (simp add: emplace_def cur_def q1)
  have at2: "at_address a (q1\<lparr>tq_current := cur, tq_next := Suc ?h\<rparr>) = om_insert ?n None (at_address a q)"
    using at1 [of a] by (simp add: at_address_def)
  have eq: "place_current E a t q = Inr q'"
    unfolding place_current_def Let_def q1_def [symmetric] emp by (simp add: at2, simp add: q1_def q'_def)
  have set: "set cur = insert (?h, t) (set (tq_current q))"
    using set_take_drop [of p "tq_current q"] by (simp add: cur_def)
  have new: "?h \<notin> fst ` set (tq_current q)" using tq_coreD(2) [OF q] by fastforce
  have dist: "distinct (map fst cur)"
    using tq_coreD(1) [OF q] new distinct_mid [of fst "take p (tq_current q)" "drop p (tq_current q)" "(?h, t)"]
    by (simp only: cur_def append_take_drop_id fst_conv simp_thms)
  have om: "om_ok (om_insert ?n None (at_address a q))" using om_ok_at_address [OF q] by simp
  have idx: "index q' = (index q)(a := (index q a)(?n \<mapsto> Some ?h))"
    using om om_ok_at_address [OF q, of a] t(3)
    by (auto simp: index_at_address fun_eq_iff q'_def at_address_def map_of_om_insert split: option.splits)
  have unused: "txHash E u \<noteq> txHash E t" if "(h, u) \<in> set (tq_current q)" for h u
  proof
    assume "txHash E u = txHash E t"
    then have "u = t" using inj_onD [OF inj] tq_coreD(2) [OF q that] t(1) by blast
    then show False using tq_coreD(4) [OF q, of a ?n "Some h"] that t(2,3) by auto
  qed
  have "placed E a t q q'" using set idx by (simp add: placed_def q'_def cur_def) 
  moreover have "tq_core E T f q'"
    unfolding tq_core_def
  proof (intro conjI allI impI ballI)
    show "distinct (map fst (tq_current q'))" using dist by (simp add: q'_def)
    show "case x of (h, u) \<Rightarrow> h < tq_next q' \<and> u \<in> T \<and> (\<exists>b. t_sender u = Inr b)" if "x \<in> set (tq_current q')" for x
      using that tq_coreD(2) [OF q] t(1,2) set by (fastforce simp: q'_def)
    show "tq_byHash q' x = Some h \<longleftrightarrow> (\<exists>u. (h, u) \<in> set (tq_current q') \<and> txHash E u = x)" for x h
      using tq_coreD(3) [OF q, of x h] unused new set by (force simp: q'_def)
    show "index q' b n = Some it \<longleftrightarrow> (\<exists>h u. it = Some h \<and> (h, u) \<in> set (tq_current q') \<and> t_sender u = Inr b \<and> t_nonce u = n)" for b n it
      using tq_coreD(4) [OF q, of b n it] tq_coreD(4) [OF q, of a ?n] t(2,3) set idx by (auto simp: q'_def)
    show "m \<noteq> []" "om_ok m" if "tq_byAddress q' b = Some m" for b m
      using that om tq_coreD(5) [OF q, of b m] by (auto simp: q'_def split: if_splits)
    show "u \<in> T" "t_nonce u = n" "t_sender u = Inr b" "index q' b n = None" if "f b n = Some u" for b n u
      using tq_coreD(6) [OF q that] that t(4) idx by auto
  qed
  ultimately show ?thesis using eq by blast
qed

subsection \<open>Out of the future\<close>

text \<open>The transactions that wait in the priority queue, and the fields that the queue's own loops leave alone.\<close>

definition pending :: "TransactionQueue \<Rightarrow> Transaction set" where
  "pending q = snd ` set (tq_current q)"

definition kept :: "TransactionQueue \<Rightarrow> TransactionQueue \<Rightarrow> bool" where
  "kept q q' \<longleftrightarrow> tq_known q' = tq_known q \<and> tq_dropped q' = tq_dropped q \<and> tq_limit q' = tq_limit q \<and>
     tq_futureLimit q' = tq_futureLimit q \<and> tq_unverified q' = tq_unverified q"

lemma kept_refl [simp]: "kept q q"
  by (simp add: kept_def)

lemma kept_trans: "kept q q' \<Longrightarrow> kept q' q'' \<Longrightarrow> kept q q''"
  by (simp add: kept_def)

lemma index_cong: "tq_byAddress q' = tq_byAddress q \<Longrightarrow> index q' = index q"
  by (simp add: index_def fun_eq_iff)

lemma tq_core_cong:
  assumes "tq_current q' = tq_current q" "tq_byHash q' = tq_byHash q" "tq_byAddress q' = tq_byAddress q" "tq_next q' = tq_next q"
  shows "tq_core E T f q' = tq_core E T f q"
  by (simp add: tq_core_def assms index_cong [OF assms(3)])

lemma tq_core_mono: 
  assumes "tq_core E T f q" "\<And>a n t. f' a n = Some t \<Longrightarrow> f a n = Some t"
  shows "tq_core E T f' q"
proof -
  have "\<forall>a n t. f' a n = Some t \<longrightarrow> t \<in> T \<and> t_nonce t = n \<and> t_sender t = Inr a \<and> index q a n = None"
    using tq_coreD(6) [OF assms(1) assms(2)] by blast
  then show ?thesis using assms(1) unfolding tq_core_def by (elim conjE, intro conjI)
qed

lemma placed_simps:
  assumes "placed E a t q q'"
  shows "pending q' = insert t (pending q)" "length (tq_current q') = length (tq_current q) + 1" "kept q q'"
    "tq_future q' = tq_future q" "tq_futureSize q' = tq_futureSize q" "tq_byHash q' = (tq_byHash q)(txHash E t \<mapsto> tq_next q)"
proof -
  have q': "q' = q\<lparr>tq_current := tq_current q', tq_next := tq_next q + 1, tq_byAddress := tq_byAddress q',
            tq_byHash := (tq_byHash q)(txHash E t \<mapsto> tq_next q)\<rparr>" using assms by (simp add: placed_def)
  show "pending q' = insert t (pending q)" "length (tq_current q') = length (tq_current q) + 1"
    using assms by (simp_all add: placed_def pending_def)
  show "kept q q'" by (subst q') (simp add: kept_def)
  show "tq_future q' = tq_future q" "tq_futureSize q' = tq_futureSize q" "tq_byHash q' = (tq_byHash q)(txHash E t \<mapsto> tq_next q)"
    by (subst q', simp)+
qed

lemma hm_set_twice [simp]: "hm_set a m (hm_set a x F) = hm_set a m F"
  by (induction a x F rule: hm_set.induct) auto

lemma om_erase_hm_set [simp]: "om_erase a (hm_set a x F) = om_erase a F"
  by (induction a x F rule: hm_set.induct) (auto simp: om_erase_def)

lemma fut_set_moved_from [simp]: "fut_set a m (tq_future (moved_from a n t q)) = fut_set a m (tq_future q)"
  by (simp add: moved_from_def fut_set_def split: option.split)

lemma moved_from_same [simp]: "tq_core E T f (moved_from a n t q) = tq_core E T f q" "kept (moved_from a n t q) q'' = kept q q''"
    "pending (moved_from a n t q) = pending q" "index (moved_from a n t q) = index q"
    "tq_current (moved_from a n t q) = tq_current q" "tq_futureSize (moved_from a n t q) = tq_futureSize q"
proof -
  show "tq_core E T f (moved_from a n t q) = tq_core E T f q"
    by (rule tq_core_cong) (auto simp: moved_from_def split: option.split)
  show "index (moved_from a n t q) = index q"
    by (rule index_cong) (auto simp: moved_from_def split: option.split)
qed (auto simp: moved_from_def kept_def pending_def split: option.split)

text \<open>What a run of moves from the future leaves.\<close>

definition moved :: "address \<Rightarrow> Transaction set \<Rightarrow> nat \<Rightarrow> TransactionQueue \<Rightarrow> TransactionQueue \<Rightarrow> bool" where
  "moved a M k q q' \<longleftrightarrow> kept q q' \<and> pending q' = pending q \<union> M \<and> length (tq_current q') = length (tq_current q) + k \<and>
     tq_futureSize q = tq_futureSize q' + of_nat k \<and> (\<forall>m. fut_set a m (tq_future q') = fut_set a m (tq_future q))"

lemma make_run_ok:
  assumes "tq_core E T f q" "inj_on (txHash E) T" "f a = map_of (pre @ l)" "om_ok (pre @ l)"
  shows "\<exists>ms rest q'. make_run E a nonce l q = Inr (rest, q') \<and> l = ms @ rest \<and> tq_core E T (f(a := map_of (pre @ rest))) q' \<and>
     moved a (snd ` set ms) (length ms) q q'"
  using assms
proof (induction l arbitrary: q f nonce)
  case Nil
  have "f(a := map_of (pre @ [])) = f" using Nil by (auto simp: fun_eq_iff)
  then have "tq_core E T (f(a := map_of (pre @ []))) q" using Nil(1) by simp
  moreover have "moved a (snd ` set []) (length []) q q" by (simp add: moved_def)
  ultimately show ?case by (metis append_Nil make_run.simps(1))
next
  case (Cons p l)
  obtain n t where p: "p = (n, t)" by fastforce
  show ?case
  proof (cases "t_nonce t = nonce")
    case False
    have "f(a := map_of (pre @ p # l)) = f" using Cons.prems(3) by auto
    then have "tq_core E T (f(a := map_of (pre @ p # l))) q" using Cons.prems(1) by simp
    moreover have "make_run E a nonce (p # l) q = Inr (p # l, q)" using False by (simp add: p)
    moreover have "moved a (snd ` set []) (length []) q q" by (simp add: moved_def)
    ultimately show ?thesis by (metis append_Nil)
  next
    case True
    define f1 where "f1 = f(a := map_of (pre @ l))"
    have d: "distinct (map fst (pre @ (n, t) # l))" using om_ok_distinct [OF Cons.prems(4)] by (simp add: p)
    then have "map_of (pre @ (n, t) # l) n = Some t" by (intro map_of_is_SomeI) auto
    then have fn: "f a n = Some t" using Cons.prems(3) by (simp add: p)
    note t = tq_coreD(6) [OF Cons.prems(1) fn]
    have fnone: "f1 a (t_nonce t) = None" using d t by (auto simp: f1_def map_of_eq_None_iff)
    have sub: "f b k = Some u" if "f1 b k = Some u" for b k u
    proof (cases "b = a")
      case True
      then have "map_of (pre @ l) k = Some u" using that by (simp add: f1_def)
      then have "(k, u) \<in> set (pre @ (n, t) # l)" by (auto dest!: map_of_SomeD)
      then have "map_of (pre @ (n, t) # l) k = Some u" using d by (intro map_of_is_SomeI)
      then show ?thesis using True Cons.prems(3) by (simp add: p)
    qed (use that in \<open>simp add: f1_def\<close>)
    have c1: "tq_core E T f1 (moved_from a n t q)" using tq_core_mono [OF Cons.prems(1) sub] by simp
    obtain q1 where q1: "place_current E a t (moved_from a n t q) = Inr q1" "tq_core E T f1 q1" "placed E a t (moved_from a n t q) q1"
      using place_current_ok [OF c1 _ _ _ fnone Cons.prems(2)] t by auto
    define q2 where "q2 = q1\<lparr>tq_futureSize := tq_futureSize q1 - 1\<rparr>"
    have c2: "tq_core E T f1 q2" using q1(2) tq_core_cong [of q2 q1] by (simp add: q2_def)
    have om: "om_ok (pre @ l)" using Cons.prems(4) by (simp add: sorted_wrt_append)
    obtain ms rest q' where r: "make_run E a (nonce + 1) l q2 = Inr (rest, q')" "l = ms @ rest"
        "tq_core E T (f1(a := map_of (pre @ rest))) q'" "moved a (snd ` set ms) (length ms) q2 q'"
      using Cons.IH [OF c2 Cons.prems(2) _ om] by (fastforce simp: f1_def)
    have eq: "make_run E a nonce (p # l) q = Inr (rest, q')" using True q1(1) r(1) by (simp add: p q2_def)
    note pl = placed_simps [OF q1(3), simplified]
    have q2: "kept q q2" "pending q2 = insert t (pending q)" "length (tq_current q2) = length (tq_current q) + 1"
        "tq_futureSize q2 = tq_futureSize q - 1" "fut_set a m (tq_future q2) = fut_set a m (tq_future q)" for m
      using pl by (simp_all add: q2_def kept_def pending_def)
    have "moved a (snd ` set (p # ms)) (length (p # ms)) q q'"
      using r(4) q2 kept_trans [OF q2(1)] unfolding moved_def by (simp add: p eq_diff_eq algebra_simps)
    moreover have "tq_core E T (f(a := map_of (pre @ rest))) q'" using r(3) by (simp add: f1_def)
    moreover have "p # l = (p # ms) @ rest" using r(2) by simp
    ultimately show ?thesis using eq by blast
  qed
qed

subsection \<open>The count of future transactions\<close>

definition later :: "TransactionQueue \<Rightarrow> Transaction set" where
  "later q = {t. \<exists>a n. fut (tq_future q) a n = Some t}"

definition tq_ok :: "tq_env \<Rightarrow> Transaction set \<Rightarrow> TransactionQueue \<Rightarrow> bool" where
  "tq_ok E T q \<longleftrightarrow> tq_core E T (fut (tq_future q)) q \<and> fut_wf (tq_future q) \<and> tq_futureSize q = of_nat (total (tq_future q))"

lemma tq_okD:
  assumes "tq_ok E T q"
  shows "tq_core E T (fut (tq_future q)) q" "fut_wf (tq_future q)" "distinct (map fst (tq_future q))" "tq_futureSize q = of_nat (total (tq_future q))"
  using assms by (auto simp: tq_ok_def fut_wf_def)

lemma set_future_same [simp]: "tq_core E T f (set_future a m q) = tq_core E T f q" "kept q (set_future a m q)"
    "pending (set_future a m q) = pending q" "tq_current (set_future a m q) = tq_current q" "tq_futureLimit (set_future a m q) = tq_futureLimit q"
proof -
  show "tq_core E T f (set_future a m q) = tq_core E T f q"
    by (rule tq_core_cong) (simp_all add: set_future_def)
qed (simp_all add: set_future_def kept_def pending_def)

lemma fut_some: "map_of F a = Some m \<Longrightarrow> fut F a = map_of m"
  by (simp add: fut_def)

text \<open>A sender's future transactions are replaced by some of them.\<close>

lemma set_future_ok:
  assumes core: "tq_core E T f q" "fut_wf F" and m: "map_of F a = Some m" "om_ok m'"
    and f: "\<And>k t. map_of m' k = Some t \<Longrightarrow> f a k = Some t" "\<And>b. b \<noteq> a \<Longrightarrow> f b = fut F b"
    and F: "fut_set a m' (tq_future q) = fut_set a m' F"
    and n: "tq_futureSize q + of_nat (length m) = of_nat (total F + length m')"
  shows "tq_ok E T (set_future a m' q)"
proof -
  have fut: "fut (fut_set a m' F) b k = Some t \<Longrightarrow> f b k = Some t" for b k t
    using f by (simp split: if_splits)
  have d: "distinct (map fst F)" using core(2) by (simp add: fut_wf_def)
  have "total (fut_set a m' F) + length m = total F + length m'" using total_fut_set [OF d, of a m'] m(1) by simp
  then have "tq_futureSize q + of_nat (length m) = of_nat (total (fut_set a m' F)) + of_nat (length m)"
    using n by (simp flip: of_nat_add)
  then have "tq_futureSize q = of_nat (total (fut_set a m' F))" by simp
  moreover have "tq_core E T (fut (fut_set a m' F)) q" by (rule tq_core_mono [OF core(1) fut])
  moreover have "fut_wf (fut_set a m' F)" using core(2) m(2) by simp
  ultimately show ?thesis unfolding tq_ok_def tq_future_set F set_future_same set_future_futureSize by blast
qed

lemma om_ok_butlast: "om_ok m \<Longrightarrow> om_ok (butlast m)"
  by (cases m rule: rev_cases) (simp_all add: sorted_wrt_append)

lemma map_of_part: "om_ok m \<Longrightarrow> set m' \<subseteq> set m \<Longrightarrow> map_of m' k = Some t \<Longrightarrow> map_of m k = Some t"
  using om_ok_distinct [of m] by (auto dest!: map_of_SomeD)

lemma later_subset: "(\<And>a n t. fut (tq_future q') a n = Some t \<Longrightarrow> fut (tq_future q) a n = Some t) \<Longrightarrow> later q' \<subseteq> later q"
  unfolding later_def by blast

lemma evict_ok:
  assumes "tq_ok E T q"
  shows "\<exists>q'. evict E q = Inr q' \<and> tq_ok E T q' \<and> unat (tq_futureSize q') \<le> tq_futureLimit q \<and> kept q q' \<and>
    tq_current q' = tq_current q \<and> later q' \<subseteq> later q"
  using assms
proof (induction "unat (tq_futureSize q)" arbitrary: q rule: less_induct)
  case less
  show ?case
  proof (cases "unat (tq_futureSize q) \<le> tq_futureLimit q")
    case True
    then show ?thesis using less.prems by (simp add: evict.simps)
  next
    case False
    note q = tq_okD [OF less.prems]
    define F where "F = tq_future q"
    have "tq_futureSize q \<noteq> 0" using False by (auto simp: unat_eq_0)
    then have "F \<noteq> []" using q(4) by (auto simp: F_def total_def)
    define i where "i = front E (map fst F) mod length F"
    obtain a m where am: "F ! i = (a, m)" by fastforce
    have "i < length F" using \<open>F \<noteq> []\<close> by (simp add: i_def)
    then have mem: "(a, m) \<in> set F" using am by (metis nth_mem)
    then have map: "map_of F a = Some m" using q(3) by (simp add: F_def)
    have m: "m \<noteq> []" "om_ok m" using fut_wfD [OF q(2)] map by (auto simp: F_def)
    define q1 where "q1 = q\<lparr>tq_futureSize := tq_futureSize q - 1\<rparr>"
    define q2 where "q2 = set_future a (butlast m) q1"
    have eq: "evict E q = evict E q2"
      using False \<open>F \<noteq> []\<close> am m(1)
      by (subst evict.simps, cases "tq_future q") (simp_all add: F_def i_def q1_def q2_def del: nth_Cons)
    have part: "map_of (butlast m) k = Some t \<Longrightarrow> map_of m k = Some t" for k t
      by (rule map_of_part [OF m(2)]) (auto dest: in_set_butlastD)
    have core: "tq_core E T (fut F) q1" using q(1) tq_core_cong [of q1 q] by (simp add: q1_def F_def)
    have ok: "tq_ok E T q2"
      unfolding q2_def
    proof (rule set_future_ok [OF core _ map om_ok_butlast [OF m(2)]])
      show "tq_futureSize q1 + of_nat (length m) = of_nat (total F + length (butlast m))"
        using m(1) q(4) by (cases m) (simp_all add: q1_def F_def)
    qed (use q(2) part map in \<open>simp_all add: q1_def F_def fut_some\<close>)
    have lt: "unat (tq_futureSize q2) < unat (tq_futureSize q)"
      using \<open>tq_futureSize q \<noteq> 0\<close> by (simp add: q2_def q1_def unat_minus_one unat_gt_0 unat_eq_0)
    have same: "kept q q2" "tq_current q2 = tq_current q" "tq_futureLimit q2 = tq_futureLimit q"
      using set_future_same(2) [of q1 a "butlast m"] by (simp_all add: q2_def q1_def kept_def)
    have "later q2 \<subseteq> later q"
      by (rule later_subset) (use part map in \<open>auto simp: q2_def q1_def F_def fut_some split: if_splits\<close>)
    then show ?thesis using less.hyps [OF lt ok] same kept_trans [OF same(1)] by (auto simp: eq)
  qed
qed

definition settled :: "TransactionQueue \<Rightarrow> bool" where
  "settled q \<longleftrightarrow> unat (tq_futureSize q) \<le> tq_futureLimit q"

lemma makeCurrent_ok:
  assumes "tq_ok E T q" "inj_on (txHash E) T"
  shows "\<exists>q'. makeCurrent E t q = Inr q' \<and> tq_ok E T q' \<and> settled q' \<and> kept q q' \<and>
    pending q \<subseteq> pending q' \<and> pending q' \<union> later q' \<subseteq> pending q \<union> later q"
proof -
  let ?a = "tx_from t" and ?n = "t_nonce t + 1"
  define mid where "mid = (case map_of (tq_future q) ?a of
           None \<Rightarrow> Inr q
         | Some m \<Rightarrow>
             if map_of m ?n = None then Inr q
             else
               ebind (make_run E ?a ?n (dropWhile (\<lambda>p. fst p \<noteq> ?n) m) q) (\<lambda>(rest, q).
               Inr (set_future ?a (takeWhile (\<lambda>p. fst p \<noteq> ?n) m @ rest) q)))"
  have "\<exists>q1. mid = Inr q1 \<and> tq_ok E T q1 \<and> kept q q1 \<and> pending q \<subseteq> pending q1 \<and> pending q1 \<union> later q1 \<subseteq> pending q \<union> later q"
  proof (cases "\<exists>m. map_of (tq_future q) ?a = Some m \<and> map_of m ?n \<noteq> None")
    case False
    then show ?thesis using assms(1) by (auto simp: mid_def split: option.split)
  next
    case True
    then obtain m where m: "map_of (tq_future q) ?a = Some m" "map_of m ?n \<noteq> None" by blast
    note q = tq_okD [OF assms(1)]
    define pre l where "pre = takeWhile (\<lambda>p. fst p \<noteq> ?n) m" and "l = dropWhile (\<lambda>p. fst p \<noteq> ?n) m"
    have split: "m = pre @ l" by (simp add: pre_def l_def)
    have om: "om_ok m" using fut_wfD [OF q(2) m(1)] by simp
    obtain ms rest q1 where r: "make_run E ?a ?n l q = Inr (rest, q1)" "l = ms @ rest"
        "tq_core E T ((fut (tq_future q))(?a := map_of (pre @ rest))) q1" "moved ?a (snd ` set ms) (length ms) q q1"
      using make_run_ok [OF q(1) assms(2), of ?a pre l ?n] om m(1) fut_some [OF m(1)] by (auto simp: split)
    define q2 where "q2 = set_future ?a (pre @ rest) q1"
    have eq: "mid = Inr q2" using m r(1) by (auto simp: mid_def q2_def pre_def l_def)
    have ok: "tq_ok E T q2"
      unfolding q2_def
    proof (rule set_future_ok [OF r(3) q(2) m(1)])
      show "om_ok (pre @ rest)" using om by (simp add: split r(2) sorted_wrt_append)
      show "fut_set ?a (pre @ rest) (tq_future q1) = fut_set ?a (pre @ rest) (tq_future q)" using r(4) by (simp add: moved_def)
      have "tq_futureSize q1 + of_nat (length ms) = of_nat (total (tq_future q))" using r(4) q(4) by (simp add: moved_def)
      then show "tq_futureSize q1 + of_nat (length m) = of_nat (total (tq_future q) + length (pre @ rest))"
        by (simp add: split r(2) algebra_simps)
    qed simp_all
    have kept: "kept q q2" using r(4) kept_trans set_future_same(2) by (auto simp: q2_def moved_def)
    have p: "pending q2 = pending q \<union> snd ` set ms" using r(4) by (simp add: q2_def moved_def)
    have mem: "u \<in> later q" if "(k, u) \<in> set m" for k u
      using that m(1) om om_ok_distinct [of m] fut_some [OF m(1)] unfolding later_def by (metis (mono_tags, lifting) map_of_is_SomeI mem_Collect_eq)
    have "later q2 \<subseteq> later q"
    proof (rule later_subset)
      fix b k u assume "fut (tq_future q2) b k = Some u"
      moreover have "tq_future q2 = fut_set ?a (pre @ rest) (tq_future q)" using r(4) by (simp add: q2_def moved_def)
      ultimately have "(if b = ?a then map_of (pre @ rest) else fut (tq_future q) b) k = Some u"
        by (simp split: if_splits)
      moreover have "map_of (pre @ rest) k = Some u \<Longrightarrow> map_of m k = Some u" by (rule map_of_part [OF om, of "pre @ rest"]) (auto simp: split r(2))
      ultimately show "fut (tq_future q) b k = Some u" using fut_some [OF m(1)] by (simp split: if_splits)
    qed
    then show ?thesis using eq ok kept p mem by (fastforce simp: split r(2))
  qed
  then obtain q1 where q1: "mid = Inr q1" "tq_ok E T q1" "kept q q1" "pending q \<subseteq> pending q1" "pending q1 \<union> later q1 \<subseteq> pending q \<union> later q"
    by blast
  obtain q' where q': "evict E q1 = Inr q'" "tq_ok E T q'" "unat (tq_futureSize q') \<le> tq_futureLimit q1" "kept q1 q'"
      "tq_current q' = tq_current q1" "later q' \<subseteq> later q1"
    using evict_ok [OF q1(2)] by blast
  have "makeCurrent E t q = Inr q'" using q1(1) q'(1) by (simp add: makeCurrent_def mid_def [symmetric])
  moreover have "settled q'" "pending q' = pending q1" using q'(3,4,5) by (simp_all add: settled_def kept_def pending_def)
  ultimately show ?thesis using q'(2,6) q1(4,5) kept_trans [OF q1(3) q'(4)] by blast
qed

subsection \<open>Removal\<close>

text \<open>A queue without one transaction.\<close>

lemma tq_remove_none: "tq_byHash q h = None \<Longrightarrow> tq_remove h q = Inr (False, q)"
  by (simp add: tq_remove_def)

lemma tx_from_good [simp]: "t_sender t = Inr a \<Longrightarrow> tx_from t = a"
  by (simp add: tx_from_def)

definition unplaced :: "TransactionQueue \<Rightarrow> h256 \<Rightarrow> handle \<Rightarrow> Transaction \<Rightarrow> TransactionQueue" where
  "unplaced q h it t =
    (let m = om_erase (t_nonce t) (at_address (tx_from t) q) in
     q\<lparr>tq_byAddress := (tq_byAddress q)(tx_from t := if m = [] then None else Some m),
       tq_current := om_erase it (tq_current q), tq_byHash := (tq_byHash q)(h := None), tq_known := tq_known q - {h}\<rparr>)"

lemma index_unplaced: "index (unplaced q h it t) = (index q)(tx_from t := (index q (tx_from t))(t_nonce t := None))"
proof (rule ext, rule ext)
  fix a n
  have "index (unplaced q h it t) a n =
      (if a = tx_from t then map_of (om_erase (t_nonce t) (at_address a q)) n else index q a n)"
    by (auto simp: index_def unplaced_def Let_def simp del: map_of_om_erase)
  then show "index (unplaced q h it t) a n = ((index q)(tx_from t := (index q (tx_from t))(t_nonce t := None))) a n"
    by (simp add: index_at_address)
qed

lemma unplaced_ok:
  assumes q: "tq_core E T f q" and t: "(it, t) \<in> set (tq_current q)" "txHash E t = h" and inj: "inj_on (txHash E) T"
  shows "tq_core E T f (unplaced q h it t)"
proof -
  obtain a where a: "t_sender t = Inr a" using tq_coreD(2) [OF q t(1)] by blast
  let ?q = "unplaced q h it t" and ?n = "t_nonce t"
  have cur: "set (tq_current ?q) = {p \<in> set (tq_current q). fst p \<noteq> it}" "tq_next ?q = tq_next q"
    "tq_byHash ?q = (tq_byHash q)(h := None)"
    by (simp_all add: unplaced_def Let_def)
  note idx = index_unplaced [of q h it t, unfolded tx_from_good [OF a]]
  have one: "u = t" if "(it, u) \<in> set (tq_current q)" for u
    using that t(1) tq_coreD(1) [OF q] by (metis map_of_is_SomeI option.inject)
  have hash: "g = it" if "(g, u) \<in> set (tq_current q)" "txHash E u = h" for g u
    using that tq_coreD(3) [OF q, of h g] tq_coreD(3) [OF q, of h it] t by auto
  have key: "g = it" if "(g, u) \<in> set (tq_current q)" "t_sender u = Inr a" "t_nonce u = ?n" for g u
    using that tq_coreD(4) [OF q, of a ?n "Some g"] tq_coreD(4) [OF q, of a ?n "Some it"] t(1) a by auto
  show ?thesis
    unfolding tq_core_def
  proof (intro conjI allI impI ballI)
    show "distinct (map fst (tq_current ?q))" using tq_coreD(1) [OF q] by (simp add: unplaced_def Let_def)
    show "case x of (h, u) \<Rightarrow> h < tq_next ?q \<and> u \<in> T \<and> (\<exists>b. t_sender u = Inr b)" if "x \<in> set (tq_current ?q)" for x
      using that tq_coreD(2) [OF q, of "fst x" "snd x"] unfolding cur by (simp add: case_prod_beta)
    show "tq_byHash ?q x = Some g \<longleftrightarrow> (\<exists>u. (g, u) \<in> set (tq_current ?q) \<and> txHash E u = x)" for x g
    proof (cases "x = h")
      case True
      then show ?thesis using hash [of g] unfolding cur by auto
    next
      case False
      have "(\<exists>u. (g, u) \<in> set (tq_current q) \<and> fst (g, u) \<noteq> it \<and> txHash E u = x) = (\<exists>u. (g, u) \<in> set (tq_current q) \<and> txHash E u = x)"
        using False one t(2) by (metis fst_conv)
      then show ?thesis using False tq_coreD(3) [OF q, of x g] unfolding cur by simp
    qed
    show "index ?q b n = Some i \<longleftrightarrow> (\<exists>h u. i = Some h \<and> (h, u) \<in> set (tq_current ?q) \<and> t_sender u = Inr b \<and> t_nonce u = n)" for b n i
    proof (cases "b = a \<and> n = ?n")
      case True
      then show ?thesis using key unfolding cur idx by auto
    next
      case False
      have "(\<exists>h u. i = Some h \<and> (h, u) \<in> set (tq_current q) \<and> fst (h, u) \<noteq> it \<and> t_sender u = Inr b \<and> t_nonce u = n) =
          (\<exists>h u. i = Some h \<and> (h, u) \<in> set (tq_current q) \<and> t_sender u = Inr b \<and> t_nonce u = n)"
        using False one a by (metis fst_conv sum.inject(2))
      then show ?thesis using False tq_coreD(4) [OF q, of b n i] unfolding cur idx by auto
    qed
    show "m \<noteq> []" "om_ok m" if "tq_byAddress ?q b = Some m" for b m
      using that tq_coreD(5) [OF q, of b m] om_ok_at_address [OF q, of a] a by (auto simp: unplaced_def Let_def split: if_splits)
    show "u \<in> T" "t_nonce u = n" "t_sender u = Inr b" "index ?q b n = None" if "f b n = Some u" for b n u
      using tq_coreD(6) [OF q that] by (auto simp: idx)
  qed
qed

text \<open>What \<open>remove_WITH_LOCK\<close> does: the transaction with this hash, if any, is gone.\<close>

definition without :: "tq_env \<Rightarrow> h256 \<Rightarrow> TransactionQueue \<Rightarrow> TransactionQueue \<Rightarrow> bool" where
  "without E h q q' \<longleftrightarrow> pending q' = {t \<in> pending q. txHash E t \<noteq> h} \<and> tq_future q' = tq_future q \<and> tq_futureSize q' = tq_futureSize q \<and>
     tq_known q' = (if h \<in> txHash E ` pending q then tq_known q - {h} else tq_known q) \<and> kept (q\<lparr>tq_known := tq_known q'\<rparr>) q'"

lemma byHash_pending: "tq_core E T f q \<Longrightarrow> tq_byHash q h = None \<longleftrightarrow> h \<notin> txHash E ` pending q"
proof -
  assume q: "tq_core E T f q"
  have "tq_byHash q h = None \<longleftrightarrow> (\<forall>g. tq_byHash q h \<noteq> Some g)" by (cases "tq_byHash q h") auto
  also have "\<dots> \<longleftrightarrow> (\<forall>g t. (g, t) \<in> set (tq_current q) \<longrightarrow> txHash E t \<noteq> h)"
    unfolding tq_coreD(3) [OF q] by blast
  also have "\<dots> \<longleftrightarrow> h \<notin> txHash E ` pending q" by (fastforce simp: pending_def image_iff)
  finally show ?thesis .
qed

lemma tq_remove_ok:
  assumes ok: "tq_ok E T q" and inj: "inj_on (txHash E) T"
  shows "\<exists>q'. tq_remove h q = Inr (h \<in> txHash E ` pending q, q') \<and> tq_ok E T q' \<and> without E h q q'"
proof (cases "tq_byHash q h")
  case None
  then have h: "h \<notin> txHash E ` pending q" using byHash_pending [OF tq_okD(1) [OF ok]] by simp
  then have "{t \<in> pending q. txHash E t \<noteq> h} = pending q" by auto
  then show ?thesis using None h ok by (auto simp: tq_remove_none without_def kept_def)
next
  case (Some it)
  note q = tq_okD [OF ok]
  obtain t where t: "(it, t) \<in> set (tq_current q)" "txHash E t = h" using Some tq_coreD(3) [OF q(1), of h it] by blast
  have h: "h \<in> txHash E ` pending q" using byHash_pending [OF q(1), of h] Some by simp
  obtain a where a: "t_sender t = Inr a" using tq_coreD(2) [OF q(1) t(1)] by blast
  obtain m where m: "tq_byAddress q a = Some m"
    using at_address_neq_Nil [OF q(1) t(1) a] by (auto simp: at_address_def split: option.splits)
  define q' where "q' = unplaced q h it t"
  have eq: "tq_remove h q = Inr (True, q')"
    using Some deref_Some [OF q(1) t(1)] m a by (simp add: tq_remove_def q'_def unplaced_def at_address_def Let_def)
  have "tq_core E T (fut (tq_future q)) q'" using unplaced_ok [OF q(1) t inj] by (simp add: q'_def)
  then have ok': "tq_ok E T q'" using q(2,4) by (simp add: tq_ok_def q'_def unplaced_def Let_def)
  have one: "(g, u) \<in> set (tq_current q) \<Longrightarrow> g = it \<longleftrightarrow> txHash E u = h" for g u
    using t tq_coreD(1,3) [OF q(1)] by (metis (no_types, lifting) map_of_is_SomeI option.inject)
  have "pending q' = {t \<in> pending q. txHash E t \<noteq> h}"
    using one by (force simp: q'_def unplaced_def Let_def pending_def)
  then have "without E h q q'" using h by (simp add: without_def q'_def unplaced_def Let_def kept_def)
  then show ?thesis using eq ok' h by auto
qed

lemma pending_T: "tq_core E T f q \<Longrightarrow> pending q \<subseteq> T"
  using tq_coreD(2) [of E T f q] by (force simp: pending_def)

lemma hash_only:
  assumes "tq_core E T f q" "inj_on (txHash E) T" "u \<in> pending q"
  shows "{t \<in> pending q. txHash E t \<noteq> txHash E u} = pending q - {u}"
proof -
  have "t \<in> pending q \<Longrightarrow> txHash E t = txHash E u \<longleftrightarrow> t = u" for t
    using inj_on_eq_iff [OF assms(2), of t u] pending_T [OF assms(1)] assms(3) by blast
  then show ?thesis by blast
qed

lemma pending_card:
  assumes "tq_core E T f q" "inj_on (txHash E) T"
  shows "length (tq_current q) = card (pending q)"
proof -
  have "inj_on snd (set (tq_current q))"
  proof (rule inj_onI)
    fix x y assume x: "x \<in> set (tq_current q)" "y \<in> set (tq_current q)" "snd x = snd y"
    then have "tq_byHash q (txHash E (snd x)) = Some (fst x)" "tq_byHash q (txHash E (snd x)) = Some (fst y)"
      unfolding tq_coreD(3) [OF assms(1)] by (metis prod.collapse)+
    then show "x = y" using x(3) by (simp add: prod_eq_iff)
  qed
  then show ?thesis using tq_coreD(1) [OF assms(1)] by (simp add: pending_def card_image distinct_card [symmetric] distinct_map)
qed

lemma shrink_ok:
  assumes "tq_ok E T q" "inj_on (txHash E) T"
  shows "\<exists>q'. shrink E q = Inr q' \<and> tq_ok E T q' \<and> length (tq_current q') = min (length (tq_current q)) (tq_limit q) \<and>
    pending q' \<subseteq> pending q \<and> tq_future q' = tq_future q \<and> tq_futureSize q' = tq_futureSize q \<and>
    tq_known q' = tq_known q - txHash E ` (pending q - pending q') \<and> kept (q\<lparr>tq_known := tq_known q'\<rparr>) q'"
  using assms(1)
proof (induction "length (tq_current q)" arbitrary: q rule: less_induct)
  case less
  show ?case
  proof (cases "length (tq_current q) \<le> tq_limit q")
    case True
    then show ?thesis using less.prems by (simp add: shrink.simps kept_def)
  next
    case False
    then have ne: "tq_current q \<noteq> []" by auto
    define h where "h = txHash E (snd (last (tq_current q)))"
    have h: "h \<in> txHash E ` pending q" using ne by (auto simp: h_def pending_def)
    obtain q1 where q1: "tq_remove h q = Inr (True, q1)" "tq_ok E T q1" "without E h q q1"
      using tq_remove_ok [OF less.prems assms(2), of h] h by auto
    have eq: "shrink E q = shrink E q1" using False q1(1) by (subst shrink.simps) (simp add: h_def)
    obtain q' where q': "shrink E q1 = Inr q'" "tq_ok E T q'" "length (tq_current q') = min (length (tq_current q1)) (tq_limit q1)"
        "pending q' \<subseteq> pending q1"
        "tq_future q' = tq_future q1" "tq_futureSize q' = tq_futureSize q1"
        "tq_known q' = tq_known q1 - txHash E ` (pending q1 - pending q')" "kept (q1\<lparr>tq_known := tq_known q'\<rparr>) q'"
      using less.hyps [OF tq_remove_shorter [OF q1(1)] q1(2)] by blast
    have p1: "pending q1 = {t \<in> pending q. txHash E t \<noteq> h}" "tq_known q1 = tq_known q - {h}"
      using q1(3) h by (simp_all add: without_def)
    have len: "length (tq_current q1) + 1 = length (tq_current q)"
    proof -
      note q = tq_okD [OF less.prems]
      have last: "snd (last (tq_current q)) \<in> pending q" using ne by (simp add: pending_def)
      then have "pending q1 = pending q - {snd (last (tq_current q))}"
        using p1(1) hash_only [OF q(1) assms(2)] by (simp add: h_def)
      moreover have "finite (pending q)" by (simp add: pending_def)
      ultimately show ?thesis
        using pending_card [OF q(1) assms(2)] pending_card [OF tq_okD(1) [OF q1(2)] assms(2)] card_Suc_Diff1 [OF _ last] by simp
    qed
    have "txHash E ` (pending q - pending q') = insert h (txHash E ` (pending q1 - pending q'))"
      using h q'(4) unfolding p1(1) by blast
    then have "tq_known q' = tq_known q - txHash E ` (pending q - pending q')" using q'(7) p1(2) by auto
    moreover have "kept (q\<lparr>tq_known := tq_known q'\<rparr>) q'" "tq_limit q1 = tq_limit q"
      using q'(8) q1(3) by (simp_all add: without_def kept_def)
    moreover have "pending q' \<subseteq> pending q" using q'(4) p1(1) by blast
    moreover have "length (tq_current q') = min (length (tq_current q)) (tq_limit q)"
      using q'(3) len False \<open>tq_limit q1 = tq_limit q\<close> by simp
    ultimately show ?thesis using eq q'(1,2,5,6) q1(3) unfolding without_def by auto
  qed
qed

end
