(* ===== verification/Tx_Queue_Import.thy ===== *)
theory Tx_Queue_Import
  imports Tx_Queue_Invariant
begin

section \<open>The operations of the transaction queue\<close>

text \<open>
  What an import does to the sets of pending and future transactions, and that every operation of the queue keeps the invariant.
\<close>

subsection \<open>Rivals\<close>

definition queued :: "TransactionQueue \<Rightarrow> Transaction set" where
  "queued q = pending q \<union> later q"

definition rivals :: "Transaction \<Rightarrow> Transaction set \<Rightarrow> Transaction set" where
  "rivals t S = {u \<in> S. t_sender u = t_sender t \<and> t_nonce u = t_nonce t}"

lemma rivals_pending:
  assumes q: "tq_core E T f q" and t: "t_sender t = Inr a"
  shows "index q a (t_nonce t) = None \<Longrightarrow> rivals t (pending q) = {}"
    and "index q a (t_nonce t) = Some it \<Longrightarrow> \<exists>h u. it = Some h \<and> (h, u) \<in> set (tq_current q) \<and> rivals t (pending q) = {u}"
proof -
  have idx: "index q a (t_nonce t) = Some (Some h)" if "(h, u) \<in> set (tq_current q)" "t_sender u = t_sender t" "t_nonce u = t_nonce t" for h u
    using that t tq_coreD(4) [OF q, of a "t_nonce t" "Some h"] by auto
  show "index q a (t_nonce t) = None \<Longrightarrow> rivals t (pending q) = {}"
  proof (rule ccontr)
    assume none: "index q a (t_nonce t) = None" "rivals t (pending q) \<noteq> {}"
    then obtain h u where "(h, u) \<in> set (tq_current q)" "t_sender u = t_sender t" "t_nonce u = t_nonce t"
      by (auto simp: rivals_def pending_def)
    from idx [OF this] none(1) show False by simp
  qed
  assume i: "index q a (t_nonce t) = Some it"
  then obtain h u where u: "it = Some h" "(h, u) \<in> set (tq_current q)" "t_sender u = Inr a" "t_nonce u = t_nonce t"
    using tq_coreD(4) [OF q, of a "t_nonce t" it] by blast
  have "v = u" if "(g, v) \<in> set (tq_current q)" "t_sender v = t_sender t" "t_nonce v = t_nonce t" for g v
  proof -
    have "g = h" using idx [OF that] i u(1) by simp
    then show ?thesis using that(1) u(2) eq_key_imp_eq_value [OF tq_coreD(1) [OF q]] by blast
  qed
  then have "rivals t (pending q) \<subseteq> {u}" unfolding rivals_def pending_def by auto
  moreover have "u \<in> rivals t (pending q)" using u t unfolding rivals_def pending_def by force
  ultimately have "rivals t (pending q) = {u}" by auto
  then show "\<exists>h u. it = Some h \<and> (h, u) \<in> set (tq_current q) \<and> rivals t (pending q) = {u}" using u by blast
qed

lemma rivals_later:
  assumes q: "tq_core E T (fut (tq_future q)) q" and t: "t_sender t = Inr a"
  shows "rivals t (later q) = {u. fut (tq_future q) a (t_nonce t) = Some u}"
  using tq_coreD(6) [OF q] t by (fastforce simp: rivals_def later_def)

lemma pending_later: "tq_core E T (fut (tq_future q)) q \<Longrightarrow> pending q \<inter> later q = {}"
proof -
  assume q: "tq_core E T (fut (tq_future q)) q"
  have False if t: "t \<in> pending q" "fut (tq_future q) a n = Some t" for t a n
  proof -
    obtain h where h: "(h, t) \<in> set (tq_current q)" using t(1) by (auto simp: pending_def)
    note c = tq_coreD(6) [OF q t(2)]
    then show False using tq_coreD(4) [OF q, of a n "Some h"] h by auto
  qed
  then show ?thesis by (auto simp: later_def)
qed

lemma replace_current_ok:
  assumes ok: "tq_ok E T q" and inj: "inj_on (txHash E) T" and t: "t_sender t = Inr a"
  defines "R \<equiv> rivals t (pending q)"
  shows "if \<exists>u \<in> R. t_gasPrice t < t_gasPrice u then replace_current E t q = Inr (False, q)
    else \<exists>q'. replace_current E t q = Inr (True, q') \<and> tq_ok E T q' \<and> pending q' = pending q - R \<and> tq_future q' = tq_future q \<and>
      tq_known q' = tq_known q - txHash E ` R \<and> kept (q\<lparr>tq_known := tq_known q'\<rparr>) q' \<and> index q' a (t_nonce t) = None"
proof (cases "index q a (t_nonce t)")
  case None
  then have "R = {}" using rivals_pending(1) [OF tq_okD(1) [OF ok] t] by (simp add: R_def)
  then show ?thesis using None ok t by (auto simp: replace_current_def kept_def)
next
  case (Some it)
  note q = tq_okD [OF ok]
  obtain h u where u: "it = Some h" "(h, u) \<in> set (tq_current q)" "R = {u}"
    using rivals_pending(2) [OF q(1) t Some] by (auto simp: R_def)
  have "replace_current E t q = (if t_gasPrice t < t_gasPrice u then Inr (False, q) else ebind (tq_remove (txHash E u) q) (\<lambda>(_, q). Inr (True, q)))"
    using Some t u deref_Some [OF q(1) u(2)] by (simp add: replace_current_def)
  moreover have pu: "u \<in> pending q" using u(2) by (force simp: pending_def)
  obtain q' where q': "tq_remove (txHash E u) q = Inr (True, q')" "tq_ok E T q'" "without E (txHash E u) q q'"
    using tq_remove_ok [OF ok inj, of "txHash E u"] pu by auto
  have p': "pending q' = pending q - {u}" using q'(3) hash_only [OF q(1) inj pu] by (simp add: without_def)
  moreover have "index q' a (t_nonce t) = None"
  proof (rule ccontr)
    assume "index q' a (t_nonce t) \<noteq> None"
    then obtain i where "index q' a (t_nonce t) = Some i" by blast
    from rivals_pending(2) [OF tq_okD(1) [OF q'(2)] t this] obtain v where "rivals t (pending q') = {v}" by blast
    then have v: "v \<in> rivals t (pending q')" by simp
    then have "v \<in> pending q'" by (simp add: rivals_def)
    moreover have "v \<in> R" using v p' by (simp add: R_def rivals_def)
    ultimately show False using u(3) p' by simp
  qed
  moreover have "tq_known q' = tq_known q - txHash E ` R" "tq_future q' = tq_future q"
    using q'(3) pu u(3) by (simp_all add: without_def)
  moreover have "kept (q\<lparr>tq_known := tq_known q'\<rparr>) q'" using q'(3) unfolding without_def by blast
  ultimately show ?thesis using q'(1,2) p' u(3) by simp
qed

lemma replace_future_ok:
  assumes ok: "tq_ok E T q" and t: "t_sender t = Inr a"
  defines "R \<equiv> rivals t (later q)"
  shows "if \<exists>u \<in> R. t_gasPrice t < t_gasPrice u then replace_future t q = (False, q)
    else \<exists>q'. replace_future t q = (True, q') \<and> tq_ok E T q' \<and> pending q' = pending q \<and> later q' = later q - R \<and>
      kept q q' \<and> index q' = index q \<and> fut (tq_future q') a (t_nonce t) = None"
proof (cases "fut (tq_future q) a (t_nonce t)")
  case None
  then have "R = {}" using rivals_later [OF tq_okD(1) [OF ok] t] by (simp add: R_def)
  moreover have "replace_future t q = (True, q)" using None t by (auto simp: replace_future_def fut_def split: option.splits)
  ultimately show ?thesis using None ok by simp
next
  case (Some u)
  note q = tq_okD [OF ok]
  then have R: "R = {u}" using rivals_later [OF tq_okD(1) [OF ok] t] Some by (simp add: R_def)
  obtain m where m: "map_of (tq_future q) a = Some m" "map_of m (t_nonce t) = Some u"
    using Some by (auto simp: fut_def split: option.splits)
  have om: "om_ok m" using fut_wfD [OF q(2) m(1)] by simp
  define q1 where "q1 = q\<lparr>tq_futureSize := tq_futureSize q - 1\<rparr>"
  define q' where "q' = set_future a (om_erase (t_nonce t) m) q1"
  have eq: "replace_future t q = (if t_gasPrice t < t_gasPrice u then (False, q) else (True, q'))"
    using m t by (simp add: replace_future_def q'_def q1_def)
  have core: "tq_core E T (fut (tq_future q)) q1" using q(1) tq_core_cong [of q1 q] by (simp add: q1_def)
  have len: "length (om_erase (t_nonce t) m) + 1 = length m"
    using om.length_erase [OF om, of "t_nonce t"] m(2) by (cases m) auto
  have ok': "tq_ok E T q'"
    unfolding q'_def
  proof (rule set_future_ok [OF core q(2) m(1)])
    show "tq_futureSize q1 + of_nat (length m) = of_nat (total (tq_future q) + length (om_erase (t_nonce t) m))"
      using q(4) by (simp add: q1_def flip: len)
    show "map_of (om_erase (t_nonce t) m) k = Some v \<Longrightarrow> fut (tq_future q) a k = Some v" for k v
      using fut_some [OF m(1)] by (simp split: if_splits)
  qed (use om in \<open>simp_all add: q1_def\<close>)
  have F: "fut (tq_future q') = (fut (tq_future q))(a := (fut (tq_future q) a)(t_nonce t := None))"
    using fut_some [OF m(1)] by (simp add: q'_def q1_def)
  have "later q' = later q - {u}"
  proof (rule set_eqI)
    fix v
    have "v \<noteq> u" if "fut (tq_future q) b k = Some v" "b \<noteq> a \<or> k \<noteq> t_nonce t" for b k
      using tq_coreD(6) [OF q(1) that(1)] tq_coreD(6) [OF q(1) Some] that(2) by auto
    moreover have "fut (tq_future q') b k = Some v \<longleftrightarrow> fut (tq_future q) b k = Some v \<and> (b \<noteq> a \<or> k \<noteq> t_nonce t)" for b k
      unfolding F by auto
    moreover have "b \<noteq> a \<or> k \<noteq> t_nonce t" if "fut (tq_future q) b k = Some v" "v \<noteq> u" for b k
      using that Some by auto
    ultimately show "v \<in> later q' \<longleftrightarrow> v \<in> later q - {u}" unfolding later_def by blast
  qed
  moreover have "index q' = index q" "kept q q'" "pending q' = pending q"
    by (auto intro!: index_cong simp: q'_def q1_def set_future_def kept_def pending_def)
  ultimately show ?thesis using eq ok' F R by simp
qed

subsection \<open>Import\<close>

lemma insertCurrent_ok:
  assumes ok: "tq_ok E T q" and inj: "inj_on (txHash E) T" and t: "t \<in> T" "t_sender t = Inr a" "index q a (t_nonce t) = None"
    "fut (tq_future q) a (t_nonce t) = None"
  shows "\<exists>q'. insertCurrent E (txHash E t) t q = Inr q' \<and> tq_ok E T q' \<and> settled q' \<and> insert t (pending q) \<subseteq> pending q' \<and>
    queued q' \<subseteq> insert t (queued q) \<and> tq_known q' = insert (txHash E t) (tq_known q) \<and> kept (q\<lparr>tq_known := tq_known q'\<rparr>) q'"
proof -
  note q = tq_okD [OF ok]
  have "t \<notin> pending q" using rivals_pending(1) [OF q(1) t(2,3)] by (auto simp: rivals_def)
  then have "txHash E t \<notin> txHash E ` pending q"
    using inj_on_image_mem_iff [OF inj t(1) pending_T [OF q(1)]] by simp
  then have none: "tq_byHash q (txHash E t) = None" using byHash_pending [OF q(1)] by simp
  obtain q1 where q1: "place_current E a t q = Inr q1" "tq_core E T (fut (tq_future q)) q1" "placed E a t q q1"
    using place_current_ok [OF q(1) t inj] by blast
  note p = placed_simps [OF q1(3)]
  have ok1: "tq_ok E T q1" using q1(2) q(2,4) p(4,5) by (simp add: tq_ok_def)
  obtain q2 where q2: "makeCurrent E t q1 = Inr q2" "tq_ok E T q2" "settled q2" "kept q1 q2"
      "pending q1 \<subseteq> pending q2" "pending q2 \<union> later q2 \<subseteq> pending q1 \<union> later q1"
    using makeCurrent_ok [OF ok1 inj] by blast
  define q' where "q' = q2\<lparr>tq_known := insert (txHash E t) (tq_known q2)\<rparr>"
  have eq: "insertCurrent E (txHash E t) t q = Inr q'"
    using none q1(1) q2(1) t(2) by (simp add: insertCurrent_def q'_def)
  have "tq_core E T f q' = tq_core E T f q2" for f by (rule tq_core_cong) (simp_all add: q'_def)
  then have "tq_ok E T q'" using q2(2) by (simp add: tq_ok_def q'_def)
  moreover have "settled q'" using q2(3) by (simp add: settled_def q'_def)
  moreover have l1: "later q1 = later q" using p(4) by (simp add: later_def)
  moreover have pq: "pending q' = pending q2" "later q' = later q2" by (simp_all add: q'_def pending_def later_def)
  moreover have k: "kept q q2" by (rule kept_trans [OF p(3) q2(4)])
  then have "tq_known q' = insert (txHash E t) (tq_known q)" by (simp add: q'_def kept_def)
  moreover have "kept (q\<lparr>tq_known := tq_known q'\<rparr>) q'" using k by (simp add: q'_def kept_def)
  ultimately show ?thesis using eq q2(5,6) p(1) unfolding queued_def by blast
qed

definition tq_inv :: "tq_env \<Rightarrow> Transaction set \<Rightarrow> TransactionQueue \<Rightarrow> bool" where
  "tq_inv E T q \<longleftrightarrow> tq_ok E T q \<and> txHash E ` queued q \<subseteq> tq_known q"

lemma queued_T: "tq_ok E T q \<Longrightarrow> queued q \<subseteq> T"
  using pending_T [OF tq_okD(1)] tq_coreD(6) [OF tq_okD(1)] by (fastforce simp: queued_def later_def)

text \<open>
  What an import of a transaction \<open>t\<close> gives: it is refused when a rival, of the same sender and nonce, pays more;
  otherwise it takes the rivals' place, and the limits hold.
\<close>

definition imported :: "tq_env \<Rightarrow> Transaction \<Rightarrow> TransactionQueue \<Rightarrow> ImportResult \<Rightarrow> TransactionQueue \<Rightarrow> bool" where
  "imported E t q r q' \<longleftrightarrow>
     (if \<exists>u \<in> rivals t (queued q). t_gasPrice t < t_gasPrice u then r = OverbidGasPrice \<and> q' = q
      else r = Success \<and> length (tq_current q') \<le> tq_limit q \<and> settled q' \<and>
        queued q' \<subseteq> insert t (queued q - rivals t (queued q)) \<and>
        (length (tq_current q') < tq_limit q \<longrightarrow> insert t (pending q - rivals t (queued q)) \<subseteq> pending q') \<and>
        tq_limit q' = tq_limit q \<and> tq_futureLimit q' = tq_futureLimit q \<and> tq_dropped q' = tq_dropped q \<and>
        tq_unverified q' = tq_unverified q)"

lemma rivals_queued: "rivals t (queued q) = rivals t (pending q) \<union> rivals t (later q)"
  by (auto simp: rivals_def queued_def)

lemma import_refused:
  assumes ok: "tq_ok E T q" and inj: "inj_on (txHash E) T" and t: "t_sender t = Inr a"
    and dear: "u \<in> rivals t (queued q)" "t_gasPrice t < t_gasPrice u"
  shows "import_body E h t q = Inr (OverbidGasPrice, q)"
proof (cases "\<exists>u \<in> rivals t (pending q). t_gasPrice t < t_gasPrice u")
  case True
  then have "replace_current E t q = Inr (False, q)" using replace_current_ok [OF ok inj t] by simp
  then show ?thesis by (simp add: import_body_def)
next
  case False
  then have u: "u \<in> rivals t (later q)" using dear by (auto simp: rivals_queued)
  note q = tq_okD(1) [OF ok]
  have "fut (tq_future q) a (t_nonce t) = Some u" using u rivals_later [OF q t] by simp
  then have "index q a (t_nonce t) = None" using tq_coreD(6) [OF q] by blast
  then have "replace_current E t q = Inr (True, q)" using t by (simp add: replace_current_def)
  moreover have "replace_future t q = (False, q)"
    using replace_future_ok [OF ok t] u dear(2) by (auto split: if_splits)
  ultimately show ?thesis by (simp add: import_body_def)
qed

lemma import_accepted:
  assumes inv: "tq_inv E T q" and inj: "inj_on (txHash E) T" and t: "t \<in> T" "t_sender t = Inr a"
    and cheap: "\<not> (\<exists>u \<in> rivals t (queued q). t_gasPrice t < t_gasPrice u)"
  shows "\<exists>q'. import_body E (txHash E t) t q = Inr (Success, q') \<and> tq_inv E T q' \<and> imported E t q Success q'"
proof -
  let ?h = "txHash E t" and ?R = "rivals t (queued q)"
  have ok: "tq_ok E T q" and known: "txHash E ` queued q \<subseteq> tq_known q" using inv by (simp_all add: tq_inv_def)
  have c: "\<not> (\<exists>u \<in> rivals t (pending q). t_gasPrice t < t_gasPrice u)" using cheap by (auto simp: rivals_queued)
  obtain q1 where q1: "replace_current E t q = Inr (True, q1)" "tq_ok E T q1" "pending q1 = pending q - rivals t (pending q)"
      "tq_future q1 = tq_future q" "tq_known q1 = tq_known q - txHash E ` rivals t (pending q)" "kept (q\<lparr>tq_known := tq_known q1\<rparr>) q1"
      "index q1 a (t_nonce t) = None"
    using replace_current_ok [OF ok inj t(2)] unfolding if_not_P [OF c] by blast
  have l1: "later q1 = later q" using q1(4) by (simp add: later_def)
  have c1: "\<not> (\<exists>u \<in> rivals t (later q1). t_gasPrice t < t_gasPrice u)" using cheap l1 by (auto simp: rivals_queued)
  obtain q2 where q2: "replace_future t q1 = (True, q2)" "tq_ok E T q2" "pending q2 = pending q1" "later q2 = later q1 - rivals t (later q1)"
      "kept q1 q2" "index q2 = index q1" "fut (tq_future q2) a (t_nonce t) = None"
    using replace_future_ok [OF q1(2) t(2)] unfolding if_not_P [OF c1] by blast
  have idx: "index q2 a (t_nonce t) = None" using q1(7) q2(6) by simp
  obtain q3 where q3: "insertCurrent E ?h t q2 = Inr q3" "tq_ok E T q3" "settled q3" "insert t (pending q2) \<subseteq> pending q3"
      "queued q3 \<subseteq> insert t (queued q2)" "tq_known q3 = insert ?h (tq_known q2)" "kept (q2\<lparr>tq_known := tq_known q3\<rparr>) q3"
    using insertCurrent_ok [OF q2(2) inj t idx q2(7)] by blast
  obtain q' where q': "shrink E q3 = Inr q'" "tq_ok E T q'" "length (tq_current q') = min (length (tq_current q3)) (tq_limit q3)"
      "pending q' \<subseteq> pending q3" "tq_future q' = tq_future q3" "tq_futureSize q' = tq_futureSize q3"
      "tq_known q' = tq_known q3 - txHash E ` (pending q3 - pending q')" "kept (q3\<lparr>tq_known := tq_known q'\<rparr>) q'"
    using shrink_ok [OF q3(2) inj] by blast
  have eq: "import_body E ?h t q = Inr (Success, q')" using q1(1) q2(1) q3(1) q'(1) by (simp add: import_body_def)
  have r: "?R = rivals t (pending q) \<union> rivals t (later q)" by (rule rivals_queued)
  have disj: "pending q3 \<inter> later q3 = {}" by (rule pending_later [OF tq_okD(1) [OF q3(2)]])
  have Rp: "pending q \<inter> ?R = rivals t (pending q)" "later q \<inter> ?R = rivals t (later q)"
    by (auto simp: rivals_def queued_def)
  have w2: "queued q2 = queued q - ?R" "pending q2 = pending q - ?R"
    using q1(3) q2(3,4) l1 Rp by (auto simp: queued_def)
  have l': "later q' = later q3" using q'(5) by (simp add: later_def)
  have sub: "queued q' \<subseteq> insert t (queued q - ?R)" using q'(4) l' q3(5) w2(1) by (auto simp: queued_def)
  have lims: "tq_limit q' = tq_limit q \<and> tq_futureLimit q' = tq_futureLimit q \<and> tq_dropped q' = tq_dropped q \<and> tq_unverified q' = tq_unverified q"
    "tq_limit q3 = tq_limit q" "tq_futureLimit q' = tq_futureLimit q3" "tq_known q2 = tq_known q1"
    using q1(6) q2(5) q3(7) q'(8) by (simp_all add: kept_def)
  have keep: "pending q' = pending q3" if "length (tq_current q') < tq_limit q"
  proof (rule card_subset_eq [OF _ q'(4)])
    show "finite (pending q3)" by (simp add: pending_def)
    show "card (pending q') = card (pending q3)"
      using that q'(3) lims(2) pending_card [OF tq_okD(1) [OF q'(2)] inj] pending_card [OF tq_okD(1) [OF q3(2)] inj] by simp
  qed
  have "imported E t q Success q'"
    unfolding imported_def if_not_P [OF cheap] using q'(3,6) lims q3(3,4) sub keep w2(2) by (auto simp: settled_def)
  moreover have "txHash E ` queued q' \<subseteq> tq_known q'"
  proof
    fix x assume "x \<in> txHash E ` queued q'"
    then obtain u where u: "u \<in> queued q'" "x = txHash E u" by blast
    have uT: "u \<in> T" using u(1) queued_T [OF q'(2)] by blast
    have "x \<in> insert ?h (tq_known q2)"
    proof (cases "u = t")
      case False
      then have "u \<in> queued q - ?R" using u(1) sub by blast
      then have "u \<notin> rivals t (pending q)" "x \<in> tq_known q" using r known u(2) by blast+
      moreover have "rivals t (pending q) \<subseteq> T" using pending_T [OF tq_okD(1) [OF ok]] by (auto simp: rivals_def)
      then have "x \<notin> txHash E ` rivals t (pending q)" if "u \<notin> rivals t (pending q)"
        using that inj_on_image_mem_iff [OF inj uT, of "rivals t (pending q)"] u(2) by simp
      ultimately show ?thesis using q1(5) lims(4) by blast
    qed (simp add: u(2))
    moreover have "u \<notin> pending q3 - pending q'" using u(1) l' disj by (auto simp: queued_def)
    then have "x \<notin> txHash E ` (pending q3 - pending q')"
      using inj_on_image_mem_iff [OF inj uT, of "pending q3 - pending q'"] pending_T [OF tq_okD(1) [OF q3(2)]] u(2) by auto
    ultimately show "x \<in> tq_known q'" using q'(7) q3(6) by blast
  qed
  ultimately show ?thesis using eq q'(2) by (auto simp: tq_inv_def)
qed

subsection \<open>Marking as future\<close>

definition opt :: "'a list \<Rightarrow> 'a list option" where
  "opt m = (if m = [] then None else Some m)"

lemma om_ok_split: "om_ok m \<Longrightarrow> filter (\<lambda>p. fst p < n) m @ filter (\<lambda>p. \<not> fst p < n) m = m"
proof (induction m)
  case (Cons p m)
  show ?case
  proof (cases "fst p < n")
    case False
    then have "filter (\<lambda>p. fst p < n) m = []" using Cons.prems by (auto simp: filter_empty_conv)
    then show ?thesis using False Cons by simp
  qed (use Cons in simp)
qed simp

lemma tq_core_add:
  assumes "tq_core E T f q" "t \<in> T" "t_sender t = Inr a" "index q a (t_nonce t) = None"
  shows "tq_core E T (f(a := (f a)(t_nonce t \<mapsto> t))) q"
proof -
  let ?f = "f(a := (f a)(t_nonce t \<mapsto> t))"
  have "\<forall>b n u. ?f b n = Some u \<longrightarrow> u \<in> T \<and> t_nonce u = n \<and> t_sender u = Inr b \<and> index q b n = None"
    using tq_coreD(6) [OF assms(1)] assms(2-4) by auto
  then show ?thesis using assms(1) unfolding tq_core_def by (elim conjE, intro conjI)
qed

lemma om_erase_mid: "distinct (map fst (pre @ (n, x) # l)) \<Longrightarrow> om_erase n (pre @ (n, x) # l) = pre @ l"
  using om_erase_notin [of n pre] om_erase_notin [of n l] by (simp add: om_erase_def)

text \<open>The transactions of a sender with some nonces.\<close>

definition of_sender :: "address \<Rightarrow> u256 set \<Rightarrow> TransactionQueue \<Rightarrow> Transaction set" where
  "of_sender a N q = {t \<in> pending q. t_sender t = Inr a \<and> t_nonce t \<in> N}"

text \<open>One pass of the loop in \<open>setFuture\<close>.\<close>

definition passed :: "tq_env \<Rightarrow> handle \<Rightarrow> Transaction \<Rightarrow> TransactionQueue \<Rightarrow> TransactionQueue" where
  "passed E h t q = q\<lparr>tq_byHash := (tq_byHash q)(txHash E t := None), tq_current := om_erase h (tq_current q),
          tq_futureSize := tq_futureSize q + 1\<rparr>"

definition indexed :: "address \<Rightarrow> (u256 \<times> handle option) list \<Rightarrow> TransactionQueue \<Rightarrow> TransactionQueue" where
  "indexed a m q = q\<lparr>tq_byAddress := (tq_byAddress q)(a := opt m)\<rparr>"

lemma at_address_indexed [simp]: "at_address a (indexed a m q) = m"
  by (simp add: at_address_def indexed_def opt_def)

lemma index_indexed: "index (indexed a m q) a = map_of m"
  by (simp add: index_at_address)

lemma passed_ok:
  assumes core: "tq_core E T f (indexed a (keep @ (n, it) # l) q)" and om: "om_ok (keep @ (n, it) # l)" and inj: "inj_on (txHash E) T"
  shows "\<exists>h t. it = Some h \<and> deref it q = Inr (h, t) \<and> t \<in> pending q \<and> t_sender t = Inr a \<and> t_nonce t = n \<and> f a n = None \<and>
    tq_core E T (f(a := (f a)(n \<mapsto> t))) (indexed a (keep @ l) (passed E h t q)) \<and> pending (passed E h t q) = pending q - {t} \<and>
    of_sender a {n} q = {t}"
proof -
  let ?s = "indexed a (keep @ (n, it) # l) q"
  have d: "distinct (map fst (keep @ (n, it) # l))" by (rule om_ok_distinct [OF om])
  have cur: "tq_current ?s = tq_current q" "pending ?s = pending q" by (simp_all add: indexed_def pending_def)
  have i: "index ?s a n = Some it" unfolding index_indexed using d by (intro map_of_is_SomeI) auto
  then obtain h t where t: "it = Some h" "(h, t) \<in> set (tq_current ?s)" "t_sender t = Inr a" "t_nonce t = n"
    using tq_coreD(4) [OF core, of a n it] by blast
  have der: "deref it q = Inr (h, t)" using t(2) tq_coreD(1) [OF core] unfolding cur(1) by (simp add: deref_def t(1))
  have fn: "f a n = None" using tq_coreD(6) [OF core, of a n] i by (cases "f a n") auto
  have tT: "t \<in> T" using tq_coreD(2) [OF core t(2)] by blast
  let ?u = "unplaced ?s (txHash E t) h t" and ?s' = "indexed a (keep @ l) (passed E h t q)"
  have "tq_core E T f ?u" by (rule unplaced_ok [OF core t(2) refl inj])
  moreover have "tq_core E T f ?s' = tq_core E T f ?u"
    using om_erase_mid [OF d] t(3,4)
    by (intro tq_core_cong) (auto simp: indexed_def passed_def unplaced_def Let_def opt_def at_address_def)
  moreover have "index ?s' a n = None" unfolding index_indexed using d by (auto simp: map_of_eq_None_iff)
  ultimately have core': "tq_core E T (f(a := (f a)(n \<mapsto> t))) ?s'" using tq_core_add [of E T f ?s' t a] tT t(3,4) by simp
  have pt: "t \<in> pending q" using t(2) cur(1) by (force simp: pending_def)
  have one: "(g, u) \<in> set (tq_current q) \<Longrightarrow> g = h \<longleftrightarrow> u = t" for g u
    using tq_coreD(1,4) [OF core] t cur(1) by (metis eq_key_imp_eq_value option.inject)
  have "pending (passed E h t q) = pending q - {t}"
  proof -
    have "pending (passed E h t q) = snd ` {p \<in> set (tq_current q). fst p \<noteq> h}" by (simp add: passed_def pending_def)
    also have "{p \<in> set (tq_current q). fst p \<noteq> h} = {p \<in> set (tq_current q). snd p \<noteq> t}"
      using one by (metis prod.collapse)
    also have "snd ` \<dots> = pending q - {t}" by (auto simp: pending_def)
    finally show ?thesis .
  qed
  moreover obtain u where "rivals t (pending q) = {u}"
    using rivals_pending(2) [OF core t(3), of it] i unfolding t(4) cur(2) by blast
  moreover have "t \<in> rivals t (pending q)" using pt by (simp add: rivals_def)
  ultimately have "pending (passed E h t q) = pending q - {t}" "rivals t (pending q) = {t}" by auto
  moreover from this(2) have "of_sender a {n} q = {t}" using t(3,4) by (simp add: of_sender_def rivals_def)
  ultimately show ?thesis using t der fn core' pt by blast
qed

lemma to_future_ok:
  assumes "tq_core E T f (indexed a (keep @ l) q)" "inj_on (txHash E) T" "om_ok (keep @ l)" "f a = map_of target" "om_ok target"
  shows "\<exists>target' q'. to_future E l target q = Inr (target', q') \<and> tq_core E T (f(a := map_of target')) (indexed a keep q') \<and>
    om_ok target' \<and> length target' = length target + length l \<and> tq_futureSize q' = tq_futureSize q + of_nat (length l) \<and>
    tq_byAddress q' = tq_byAddress q \<and> tq_future q' = tq_future q \<and> kept q q' \<and>
    pending q' = pending q - of_sender a (fst ` set l) q \<and> ran (map_of target') = ran (map_of target) \<union> of_sender a (fst ` set l) q"
  using assms
proof (induction l arbitrary: q f target)
  case Nil
  have "f(a := map_of target) = f" using Nil(4) by auto
  then have "tq_core E T (f(a := map_of target)) (indexed a keep q)" using Nil(1) by simp
  moreover have "of_sender a (fst ` set []) q = {}" by (simp add: of_sender_def)
  ultimately show ?case using Nil(5) by (intro exI [of _ target] exI [of _ q] conjI) (simp_all add: fun_upd_def)
next
  case (Cons p l)
  obtain n it where p: "p = (n, it)" by fastforce
  obtain h t where t: "it = Some h" "deref it q = Inr (h, t)" "t \<in> pending q" "t_sender t = Inr a" "t_nonce t = n" "f a n = None"
      "tq_core E T (f(a := (f a)(n \<mapsto> t))) (indexed a (keep @ l) (passed E h t q))" "pending (passed E h t q) = pending q - {t}"
      "of_sender a {n} q = {t}"
    using passed_ok [OF Cons.prems(1) [unfolded p] Cons.prems(3) [unfolded p] Cons.prems(2)] by blast
  let ?q = "passed E h t q" and ?g = "om_insert n t target" and ?f = "f(a := (f a)(n \<mapsto> t))"
  have none: "map_of target n = None" using t(6) Cons.prems(4) by simp
  have g: "om_ok ?g" "map_of ?g = (map_of target)(n \<mapsto> t)" "length ?g = length target + 1"
    using Cons.prems(5) none by (simp_all add: map_of_om_insert, simp add: om_insert_def om.length_put)
  have om: "om_ok (keep @ l)" "n \<notin> fst ` set l" using Cons.prems(3) by (auto simp: p sorted_wrt_append)
  have fa: "?f a = map_of ?g" using g(2) Cons.prems(4) by simp
  obtain target' q' where r: "to_future E l ?g ?q = Inr (target', q')" "tq_core E T (?f(a := map_of target')) (indexed a keep q')"
      "om_ok target'" "length target' = length ?g + length l" "tq_futureSize q' = tq_futureSize ?q + of_nat (length l)"
      "tq_byAddress q' = tq_byAddress ?q" "tq_future q' = tq_future ?q" "kept ?q q'"
      "pending q' = pending ?q - of_sender a (fst ` set l) ?q" "ran (map_of target') = ran (map_of ?g) \<union> of_sender a (fst ` set l) ?q"
    using Cons.IH [OF t(7) Cons.prems(2) om(1) fa g(1)] by blast
  have eq: "to_future E (p # l) target q = Inr (target', q')" using t(2,5) r(1) by (simp add: p passed_def)
  have s: "of_sender a (fst ` set (p # l)) q = insert t (of_sender a (fst ` set l) ?q)"
    using t(3,4,5,8,9) om(2) by (auto simp: of_sender_def p)
  have "ran (map_of ?g) = insert t (ran (map_of target))" using g(2) none by simp
  moreover have "tq_core E T (f(a := map_of target')) (indexed a keep q')" using r(2) by simp
  moreover have "kept q q'" using r(8) by (simp add: passed_def kept_def)
  moreover have "tq_futureSize q' = tq_futureSize q + of_nat (length (p # l))" "tq_byAddress q' = tq_byAddress q" "tq_future q' = tq_future q"
    using r(5,6,7) by (simp_all add: passed_def)
  moreover have "length target' = length target + length (p # l)" using r(4) g(3) by simp
  moreover have "pending q' = pending q - of_sender a (fst ` set (p # l)) q" unfolding s using r(9) t(8) by blast
  ultimately show ?case using eq r(3,10) s by blast
qed

lemma fut_hm_set: "fut (hm_set a m F) = (fut F)(a := map_of m)"
  by (auto simp: fut_def fun_eq_iff)

lemma of_sender_from:
  assumes q: "tq_core E T f q"
  shows "of_sender a (fst ` set (filter (\<lambda>p. \<not> fst p < n) (at_address a q))) q = of_sender a {n..} q"
proof (rule set_eqI)
  fix u
  have "t_nonce u \<in> fst ` set (at_address a q)" if u: "u \<in> pending q" "t_sender u = Inr a"
  proof -
    obtain k where "(k, u) \<in> set (tq_current q)" using u(1) by (auto simp: pending_def)
    then have "map_of (at_address a q) (t_nonce u) = Some (Some k)"
      using tq_coreD(4) [OF q, of a "t_nonce u" "Some k"] u(2) by (auto simp: index_at_address)
    then show ?thesis by (force dest: map_of_SomeD)
  qed
  then show "u \<in> of_sender a (fst ` set (filter (\<lambda>p. \<not> fst p < n) (at_address a q))) q \<longleftrightarrow> u \<in> of_sender a {n..} q"
    unfolding of_sender_def by (auto simp: image_iff not_less, blast)
qed

lemma ran_split: "{t. \<exists>a n. f a n = Some t} = {t. \<exists>b n. b \<noteq> a \<and> f b n = Some t} \<union> ran (f a)"
  by (auto simp: ran_def)

lemma setFuture_ok:
  assumes ok: "tq_ok E T q" and inj: "inj_on (txHash E) T"
  shows "\<exists>q'. setFuture E h q = Inr q' \<and> tq_ok E T q' \<and> kept q q' \<and> queued q' = queued q \<and>
    (case tq_byHash q h of None \<Rightarrow> q' = q
     | Some g \<Rightarrow> \<exists>t a. (g, t) \<in> set (tq_current q) \<and> txHash E t = h \<and> t_sender t = Inr a \<and>
         pending q' = pending q - of_sender a {t_nonce t..} q)"
proof (cases "tq_byHash q h")
  case None
  then show ?thesis using ok by (simp add: setFuture_def)
next
  case (Some g)
  note q = tq_okD [OF ok]
  obtain t where t: "(g, t) \<in> set (tq_current q)" "txHash E t = h" using Some tq_coreD(3) [OF q(1), of h g] by blast
  obtain a where a: "t_sender t = Inr a" using tq_coreD(2) [OF q(1) t(1)] by blast
  define m where "m = at_address a q"
  define keep l where "keep = filter (\<lambda>p. fst p < t_nonce t) m" and "l = filter (\<lambda>p. \<not> fst p < t_nonce t) m"
  have m: "keep @ l = m" "om_ok m" using om_ok_split om_ok_at_address [OF q(1), of a] by (simp_all add: keep_def l_def m_def)
  have ne: "at_address a q \<noteq> []" by (rule at_address_neq_Nil [OF q(1) t(1) a])
  then have "indexed a m q = q" by (auto simp: indexed_def m_def opt_def at_address_def fun_eq_iff split: option.splits)
  then have core: "tq_core E T (fut (tq_future q)) (indexed a (keep @ l) q)" using q(1) m(1) by simp
  define target where "target = (case map_of (tq_future q) a of None \<Rightarrow> [] | Some m \<Rightarrow> m)"
  have tg: "fut (tq_future q) a = map_of target" "om_ok target"
    using fut_wfD [OF q(2), of a] by (auto simp: target_def fut_def split: option.splits)
  obtain target' q1 where r: "to_future E l target q = Inr (target', q1)"
      "tq_core E T ((fut (tq_future q))(a := map_of target')) (indexed a keep q1)" "om_ok target'"
      "length target' = length target + length l" "tq_futureSize q1 = tq_futureSize q + of_nat (length l)"
      "tq_byAddress q1 = tq_byAddress q" "tq_future q1 = tq_future q" "kept q q1"
      "pending q1 = pending q - of_sender a (fst ` set l) q" "ran (map_of target') = ran (map_of target) \<union> of_sender a (fst ` set l) q"
    using to_future_ok [OF core inj _ tg] m by auto
  define q' where "q' = (indexed a keep q1)\<lparr>tq_future := hm_set a target' (tq_future q1)\<rparr>"
  have eq: "setFuture E h q = Inr q'"
    using Some deref_Some [OF q(1) t(1)] r(1,6) a
    by (simp add: setFuture_def q'_def indexed_def target_def m_def keep_def l_def opt_def Let_def)
  have "index q a (t_nonce t) = Some (Some g)" using tq_coreD(4) [OF q(1), of a "t_nonce t" "Some g"] t(1) a by blast
  then have "(t_nonce t, Some g) \<in> set l" by (simp add: index_at_address l_def m_def map_of_SomeD)
  then have ne': "target' \<noteq> []" using r(4) by (cases l) auto
  have "tq_core E T (fut (tq_future q')) q' = tq_core E T (fut (tq_future q')) (indexed a keep q1)"
    by (rule tq_core_cong) (simp_all add: q'_def)
  then have "tq_core E T (fut (tq_future q')) q'" using r(2,7) by (simp add: q'_def fut_hm_set)
  moreover have "fut_wf (tq_future q')"
    using fut_wf_set [OF q(2) r(3), of a] ne' r(7) by (simp add: q'_def fut_set_def)
  moreover have "total (tq_future q') = total (tq_future q) + length l"
    using total_hm_set [OF q(3), of a target'] r(4,7) by (simp add: q'_def target_def split: option.splits)
  then have "tq_futureSize q' = of_nat (total (tq_future q'))" using r(5) q(4) by (simp add: q'_def indexed_def)
  ultimately have ok': "tq_ok E T q'" by (simp add: tq_ok_def)
  have p': "pending q' = pending q1" by (simp add: q'_def indexed_def pending_def)
  have nonces: "of_sender a (fst ` set l) q = of_sender a {t_nonce t..} q"
    using of_sender_from [OF q(1), of a "t_nonce t"] by (simp add: l_def m_def)
  have lat: "later q' = later q \<union> of_sender a (fst ` set l) q"
  proof -
    have "fut (tq_future q') = (fut (tq_future q))(a := map_of target')" using r(7) by (simp add: q'_def fut_hm_set)
    then show ?thesis unfolding later_def ran_split [of _ a] by (simp add: r(10) tg(1) Un_assoc cong: conj_cong)
  qed
  have "of_sender a (fst ` set l) q \<subseteq> pending q" by (auto simp: of_sender_def)
  then have "queued q' = queued q" using lat p' r(9) by (auto simp: queued_def)
  moreover have "kept q q'" using r(8) by (simp add: q'_def indexed_def kept_def)
  ultimately show ?thesis using eq ok' Some t a p' r(9) nonces by auto
qed

subsection \<open>Every operation\<close>

lemma tq_invD: "tq_inv E T q \<Longrightarrow> tq_ok E T q" "tq_inv E T q \<Longrightarrow> txHash E ` queued q \<subseteq> tq_known q"
  by (simp_all add: tq_inv_def)

lemma without_inv:
  assumes inv: "tq_inv E T q" and ok: "tq_ok E T q'" and w: "without E h q q'" and inj: "inj_on (txHash E) T"
  shows "tq_inv E T q'"
proof -
  have l: "later q' = later q" using w by (simp add: without_def later_def)
  have "txHash E u \<noteq> h" if u: "u \<in> queued q'" "t \<in> pending q" "txHash E t = h" for u t
  proof
    assume "txHash E u = h"
    moreover have "u \<in> T" "t \<in> T"
      using u queued_T [OF ok] queued_T [OF tq_invD(1) [OF inv]] by (auto simp: queued_def)
    ultimately have "u = t" using inj_onD [OF inj, of u t] u(3) by simp
    then have "u \<in> later q" using u l w by (auto simp: queued_def without_def)
    then show False using \<open>u = t\<close> u(2) pending_later [OF tq_okD(1) [OF tq_invD(1) [OF inv]]] by blast
  qed
  then have "txHash E u \<in> tq_known q'" if "u \<in> queued q'" for u
    using that w l tq_invD(2) [OF inv] by (auto simp: without_def queued_def split: if_splits)
  then show ?thesis using ok by (auto simp: tq_inv_def)
qed

lemma tq_inv_shrunk:
  assumes "tq_inv E T q" "tq_ok E T q'" "queued q' \<subseteq> queued q" "tq_known q' = tq_known q"
  shows "tq_inv E T q'"
  using assms by (auto simp: tq_inv_def)

lemma tq_inv_cong:
  assumes "tq_inv E T q" "tq_current q' = tq_current q" "tq_byHash q' = tq_byHash q" "tq_byAddress q' = tq_byAddress q"
    "tq_next q' = tq_next q" "tq_future q' = tq_future q" "tq_futureSize q' = tq_futureSize q" "tq_known q' = tq_known q"
  shows "tq_inv E T q'"
  using assms(1) tq_core_cong [OF assms(2-5)] by (simp add: tq_inv_def tq_ok_def queued_def pending_def later_def assms(2,6,7,8))

lemma remove_inv:
  assumes "tq_inv E T q" "inj_on (txHash E) T"
  shows "\<exists>b q'. tq_remove h q = Inr (b, q') \<and> tq_inv E T q'"
  using tq_remove_ok [OF tq_invD(1) [OF assms(1)] assms(2), of h] without_inv [OF assms(1) _ _ assms(2)] by blast

lemma drop_inv:
  assumes "tq_inv E T q" "inj_on (txHash E) T"
  shows "\<exists>q'. tq_drop h q = Inr q' \<and> tq_inv E T q'"
proof -
  have "tq_inv E T (q\<lparr>tq_dropped := insert h (tq_dropped q)\<rparr>)" by (rule tq_inv_cong [OF assms(1)]) simp_all
  then show ?thesis using remove_inv [OF _ assms(2), of _ h] assms(1) by (fastforce simp: tq_drop_def)
qed

lemma makeCurrent_inv:
  assumes "tq_inv E T q" "inj_on (txHash E) T"
  shows "\<exists>q'. makeCurrent E t q = Inr q' \<and> tq_inv E T q'"
proof -
  obtain q' where q': "makeCurrent E t q = Inr q'" "tq_ok E T q'" "kept q q'" "pending q' \<union> later q' \<subseteq> pending q \<union> later q"
    using makeCurrent_ok [OF tq_invD(1) [OF assms(1)] assms(2), of t] by blast
  have "tq_inv E T q'" by (rule tq_inv_shrunk [OF assms(1) q'(2)]) (use q'(3,4) in \<open>simp_all add: queued_def kept_def\<close>)
  then show ?thesis using q'(1) by blast
qed

lemma dropGood_inv:
  assumes "tq_inv E T q" "inj_on (txHash E) T"
  shows "\<exists>q'. dropGood E t q = Inr q' \<and> tq_inv E T q'"
proof -
  obtain q1 where q1: "makeCurrent E t q = Inr q1" "tq_inv E T q1" using makeCurrent_inv [OF assms] by blast
  then show ?thesis using remove_inv [OF q1(2) assms(2), of "txHash E t"] by (auto simp: dropGood_def)
qed

lemma setFuture_inv:
  assumes "tq_inv E T q" "inj_on (txHash E) T"
  shows "\<exists>q'. setFuture E h q = Inr q' \<and> tq_inv E T q'"
proof -
  obtain q' where q': "setFuture E h q = Inr q'" "tq_ok E T q'" "kept q q'" "queued q' = queued q"
    using setFuture_ok [OF tq_invD(1) [OF assms(1)] assms(2), of h] by blast
  have "tq_inv E T q'" by (rule tq_inv_shrunk [OF assms(1) q'(2)]) (use q'(3,4) in \<open>simp_all add: kept_def\<close>)
  then show ?thesis using q'(1) by blast
qed

lemma new_inv: "tq_inv E T (new_TransactionQueue limit futureLimit)"
  by (simp add: tq_inv_def tq_ok_def tq_core_def new_TransactionQueue_def fut_def fut_wf_def total_def queued_def pending_def later_def index_def)

lemma clear_inv: "tq_inv E T (tq_clear q)"
  by (simp add: tq_inv_def tq_ok_def tq_core_def tq_clear_def fut_def fut_wf_def total_def queued_def pending_def later_def index_def)

lemma enqueue_inv: "tq_inv E T q \<Longrightarrow> tq_inv E T (tq_enqueue xs node q)"
  by (rule tq_inv_cong) (simp_all add: tq_enqueue_def)

lemma import_spec:
  assumes inv: "tq_inv E T q" and inj: "inj_on (txHash E) T" and t: "t \<in> T" "t_sender t = Inr a"
  shows "\<exists>r q'. tq_import E t ik q = Inr (r, q') \<and> tq_inv E T q' \<and>
    (if hasZeroSignature t then r = ZeroSignature \<and> q' = q
     else if txHash E t \<in> tq_known q then r = AlreadyKnown \<and> q' = q
     else if txHash E t \<in> tq_dropped q \<and> ik = Ignore then r = AlreadyInChain \<and> q' = q
     else imported E t q r q')"
proof (cases "\<exists>u \<in> rivals t (queued q). t_gasPrice t < t_gasPrice u")
  case True
  then have "import_body E (txHash E t) t q = Inr (OverbidGasPrice, q)" using import_refused [OF tq_invD(1) [OF inv] inj t(2)] by blast
  then show ?thesis using inv True by (simp add: tq_import_def check_def manageImport_def imported_def Let_def)
next
  case False
  then obtain q' where "import_body E (txHash E t) t q = Inr (Success, q')" "tq_inv E T q'" "imported E t q Success q'"
    using import_accepted [OF inv inj t] by blast
  then show ?thesis using inv by (simp add: tq_import_def check_def manageImport_def Let_def)
qed

lemma verifier_inv:
  assumes inv: "tq_inv E T q" and inj: "inj_on (txHash E) T" and parse: "\<And>b t. parse b = Inr t \<Longrightarrow> t \<in> T \<and> (\<exists>a. t_sender t = Inr a)"
  shows "\<exists>q'. verifierBody E parse q = Inr q' \<and> tq_inv E T q'"
proof (cases "tq_unverified q")
  case Nil
  then show ?thesis using inv by (simp add: verifierBody_def)
next
  case (Cons w rest)
  define q1 where "q1 = q\<lparr>tq_unverified := rest\<rparr>"
  have q1: "tq_inv E T q1" by (rule tq_inv_cong [OF inv]) (simp_all add: q1_def)
  show ?thesis
  proof (cases "parse (fst w)")
    case (Inl e)
    then show ?thesis using Cons q1 by (simp add: verifierBody_def q1_def case_prod_beta)
  next
    case (Inr t)
    then obtain a where t: "t \<in> T" "t_sender t = Inr a" using parse by blast
    obtain r q' where "tq_import E t Ignore q1 = Inr (r, q')" "tq_inv E T q'" using import_spec [OF q1 inj t, of Ignore] by blast
    then show ?thesis using Cons Inr by (simp add: verifierBody_def q1_def case_prod_beta)
  qed
qed

end
