(* ===== verification/Tx_Queue_Properties.thy ===== *)
theory Tx_Queue_Properties
  imports Tx_Queue_Import
begin

section \<open>Properties of the transaction queue\<close>

text \<open>
  Any sequence of the operations runs without undefined behaviour and keeps the indexes right; what an import does; where
  \<open>emplace\<close> puts a transaction; and two things that go wrong: the order of the priority queue, and transactions
  whose sender cannot be recovered.
\<close>

subsection \<open>Sequences of operations\<close>

datatype tq_op =
    Import Transaction IfDropped | Drop h256 | DropGood Transaction | SetFuture h256 | Clear | Enqueue "bytes list" bytes | Verify

primrec tq_step :: "tq_env \<Rightarrow> (bytes \<Rightarrow> tx_error + Transaction) \<Rightarrow> tq_op \<Rightarrow> TransactionQueue \<Rightarrow> TransactionQueue tqr" where
  "tq_step E parse (Import t ik) q = ebind (tq_import E t ik q) (\<lambda>(_, q). Inr q)"
| "tq_step E parse (Drop h) q = tq_drop h q"
| "tq_step E parse (DropGood t) q = dropGood E t q"
| "tq_step E parse (SetFuture h) q = setFuture E h q"
| "tq_step E parse Clear q = Inr (tq_clear q)"
| "tq_step E parse (Enqueue xs node) q = Inr (tq_enqueue xs node q)"
| "tq_step E parse Verify q = verifierBody E parse q"

fun tq_steps :: "tq_env \<Rightarrow> (bytes \<Rightarrow> tx_error + Transaction) \<Rightarrow> tq_op list \<Rightarrow> TransactionQueue \<Rightarrow> TransactionQueue tqr" where
  "tq_steps E parse [] q = Inr q"
| "tq_steps E parse (x # xs) q = ebind (tq_step E parse x q) (tq_steps E parse xs)"

text \<open>The transactions that are imported come from a set \<open>T\<close>.\<close>

primrec op_from :: "Transaction set \<Rightarrow> tq_op \<Rightarrow> bool" where
  "op_from T (Import t ik) = (t \<in> T)"
| "op_from T (Drop h) = True"
| "op_from T (DropGood t) = True"
| "op_from T (SetFuture h) = True"
| "op_from T Clear = True"
| "op_from T (Enqueue xs node) = True"
| "op_from T Verify = True"

lemma step_inv:
  assumes "tq_inv E T q" "inj_on (txHash E) T" "\<And>t. t \<in> T \<Longrightarrow> \<exists>a. t_sender t = Inr a" "\<And>b t. parse b = Inr t \<Longrightarrow> t \<in> T" "op_from T x"
  shows "\<exists>q'. tq_step E parse x q = Inr q' \<and> tq_inv E T q'"
proof (cases x)
  case (Import t ik)
  then obtain a where t: "t \<in> T" "t_sender t = Inr a" using assms(3,5) by auto
  then obtain r q' where "tq_import E t ik q = Inr (r, q')" "tq_inv E T q'" using import_spec [OF assms(1,2), of t a ik] by blast
  then show ?thesis by (simp add: Import)
next
  case Verify
  then show ?thesis using verifier_inv [OF assms(1,2), of parse] assms(3,4) by auto
qed (use assms(1,2) drop_inv dropGood_inv setFuture_inv clear_inv enqueue_inv in simp_all)

lemma steps_inv:
  assumes "tq_inv E T q" "inj_on (txHash E) T" "\<And>t. t \<in> T \<Longrightarrow> \<exists>a. t_sender t = Inr a" "\<And>b t. parse b = Inr t \<Longrightarrow> t \<in> T"
    "\<forall>x \<in> set xs. op_from T x"
  shows "\<exists>q'. tq_steps E parse xs q = Inr q' \<and> tq_inv E T q'"
  using assms(1,5)
proof (induction xs arbitrary: q)
  case (Cons x xs)
  obtain q1 where "tq_step E parse x q = Inr q1" "tq_inv E T q1"
    using step_inv [where parse = parse and x = x, OF Cons.prems(1) assms(2,3)] assms(4) Cons.prems(2) by fastforce
  then show ?case using Cons.IH Cons.prems(2) by simp
qed simp

subsection \<open>The place of a new transaction\<close>

definition before :: "TransactionQueue \<Rightarrow> Transaction \<Rightarrow> Transaction \<Rightarrow> bool" where
  "before q t u \<longleftrightarrow> PriorityCompare t u q = Inr True"

lemma before_code [code]: "before q t u = (case PriorityCompare t u q of Inl _ \<Rightarrow> False | Inr b \<Rightarrow> b)"
  by (auto simp: before_def split: sum.split)





definition ordered :: "TransactionQueue \<Rightarrow> bool" where
  "ordered q \<longleftrightarrow> (\<forall>p \<in> set (tq_current q). comparable q (snd p)) \<and>
     sorted_wrt (\<lambda>x y. \<not> before q (snd y) (snd x)) (tq_current q)"




subsection \<open>Samples\<close>

definition queue_tx :: "address \<Rightarrow> u256 \<Rightarrow> u256 \<Rightarrow> Transaction" where
  "queue_tx a nonce gasPrice =
     \<lparr>t_isCreation = False, t_nonce = nonce, t_value = 0, t_receiveAddress = replicate 20 0, t_gasPrice = gasPrice,
      t_gas = 21000, t_data = [], t_vrs = Some (1, 1, 0), t_chainId = 1, t_sender = Inr a\<rparr>"

definition bad_tx :: "u256 \<Rightarrow> u256 \<Rightarrow> Transaction" where
  "bad_tx nonce gasPrice = (queue_tx [] nonce gasPrice)\<lparr>t_sender := Inl InvalidSignature\<rparr>"

text \<open>A hash that keeps these transactions apart, and the pivot at the end.\<close>

definition queue_env :: tq_env where
  "queue_env = \<lparr>txHash = (\<lambda>t. tx_from t @ [ucast (t_nonce t), ucast (t_gasPrice t)]), tree = (\<lambda>h lo hi. hi - lo - 1), front = (\<lambda>_. 0)\<rparr>"

lemma queue_env_inj: "inj_on (txHash queue_env) {queue_tx [1] 0 5, queue_tx [1] 1 7}"
  by (simp add: inj_on_def queue_env_def queue_tx_def tx_from_def)

lemma ex_InrI: "(case r of Inl _ \<Rightarrow> False | Inr q \<Rightarrow> P q) \<Longrightarrow> \<exists>q. r = Inr q \<and> P q"
  by (cases r) auto

lemma ex_InlI: "(case r of Inl p \<Rightarrow> fst p = e | Inr _ \<Rightarrow> False) \<Longrightarrow> \<exists>q. r = Inl (e, q)"
  by (cases r) auto

subsection \<open>Properties\<close>

text \<open>
  C34: Any sequence of imports, drops, \<open>dropGood\<close>, \<open>setFuture\<close>, \<open>clear\<close>, \<open>enqueue\<close> and passes of the verifier, on
  transactions with a recoverable sender and without colliding hashes, runs to its end: no operation follows an
  iterator that is not in the queue, compares with a missing sender, takes the last of no elements or loops. After it the
  hash index and the sender and nonce index are those of the priority queue, no sender and nonce is held twice, also
  not between pending and future transactions, \<open>m_futureSize\<close> counts the future transactions (modulo 2 to the 32),
  and the hashes of all queued transactions are in \<open>m_known\<close>; whatever the shape of the tree and the order
  of the hash map.
\<close>

theorem queue_runs:
  assumes "inj_on (txHash E) T" and "\<And>t. t \<in> T \<Longrightarrow> \<exists>a. t_sender t = Inr a" and "\<And>b t. parse b = Inr t \<Longrightarrow> t \<in> T"
    and "\<forall>x \<in> set xs. op_from T x"
  shows "\<exists>q. tq_steps E parse xs (new_TransactionQueue limit futureLimit) = Inr q \<and> tq_inv E T q"
  by (rule steps_inv [OF new_inv assms])

theorem queue_runs_witness:
  "\<exists>q. tq_steps queue_env (\<lambda>_. Inl InvalidSignature)
      [Import (queue_tx [1] 0 5) Ignore, Import (queue_tx [1] 1 7) Retry, SetFuture [1, 0, 5], DropGood (queue_tx [1] 0 5), Verify]
      (new_TransactionQueue 10 10) = Inr q \<and> tq_inv queue_env {queue_tx [1] 0 5, queue_tx [1] 1 7} q"
  by (rule queue_runs [OF queue_env_inj]) (auto simp: queue_tx_def)

text \<open>
  C35: What an import does. A zero signature, a known transaction and a dropped one (unless it is retried) are refused and
  leave the queue alone; so is one whose sender and nonce are taken by a transaction that pays more, pending or
  future. Otherwise the import succeeds, the transaction takes the place of its rivals, the queue is within both limits and
  holds nothing else that is new; and when the limit of pending transactions is not reached, it is
  pending and every pending transaction other than the rivals still is.
\<close>

theorem queue_import:
  assumes "tq_inv E T q" and "inj_on (txHash E) T" and "t \<in> T" and "t_sender t = Inr a"
  shows "\<exists>r q'. tq_import E t ik q = Inr (r, q') \<and> tq_inv E T q' \<and>
    (if hasZeroSignature t then r = ZeroSignature \<and> q' = q
     else if txHash E t \<in> tq_known q then r = AlreadyKnown \<and> q' = q
     else if txHash E t \<in> tq_dropped q \<and> ik = Ignore then r = AlreadyInChain \<and> q' = q
     else imported E t q r q')"
  using assms by (rule import_spec)

theorem queue_import_witness:
  "\<exists>r q'. tq_import queue_env (queue_tx [1] 0 5) Ignore (new_TransactionQueue 10 10) = Inr (r, q') \<and>
     tq_inv queue_env {queue_tx [1] 0 5, queue_tx [1] 1 7} q' \<and>
     imported queue_env (queue_tx [1] 0 5) (new_TransactionQueue 10 10) r q'"
  using queue_import [OF new_inv [of _ _ 10 10] queue_env_inj, of "queue_tx [1] 0 5" "[1]" Ignore]
  by (simp add: queue_tx_def hasZeroSignature_def new_TransactionQueue_def)



text \<open>
  The queue does not stay in the order of its comparator. A transaction with a lower nonce than the sender's others changes the height of
  those, which keep their place: after the imports of a transaction of the second sender, one of the first with nonce 6,
  and one of the first with nonce 5, the transaction with nonce 6 comes first, although its height is 1 and that of
  the two others is 0, and \<open>topTransactions\<close> returns it before the one it has to follow.
\<close>

lemma queue_order_broken:
  "\<exists>q. tq_steps queue_env (\<lambda>_. Inl InvalidSignature)
      [Import (queue_tx [2] 0 5) Ignore, Import (queue_tx [1] 6 10) Ignore, Import (queue_tx [1] 5 1) Ignore]
      (new_TransactionQueue 10 10) = Inr q \<and>
    topTransactions queue_env 10 {} q = [queue_tx [1] 6 10, queue_tx [2] 0 5, queue_tx [1] 5 1] \<and> \<not> ordered q"
proof -
  have "\<exists>q. tq_steps queue_env (\<lambda>_. Inl InvalidSignature)
      [Import (queue_tx [2] 0 5) Ignore, Import (queue_tx [1] 6 10) Ignore, Import (queue_tx [1] 5 1) Ignore]
      (new_TransactionQueue 10 10) = Inr q \<and>
    (topTransactions queue_env 10 {} q = [queue_tx [1] 6 10, queue_tx [2] 0 5, queue_tx [1] 5 1] \<and>
     \<not> sorted_wrt (\<lambda>x y. \<not> before q (snd y) (snd x)) (tq_current q))"
    by (rule ex_InrI) code_simp
  then show ?thesis by (auto simp: ordered_def)
qed

lemma map_of_om_set_same: "map_of (om_set k v m) k = Some v"
  by (induction k v m rule: om_set.induct) simp_all

text \<open>
  C37: A transaction whose signature does not recover to a sender, which the verifier's cheap check lets through, is
  refused by a queue that is not empty, but leaves an iterator that was never set in the index under the zero address,
  because the comparator throws after the entry is made. Any other such transaction with that nonce then follows the
  iterator, which is undefined behaviour. Neither is known yet, and nothing is queued under the zero address with
  that nonce.
\<close>

theorem queue_bad_sender:
  assumes "t_sender t = Inl e" and "t_sender u = Inl e'" and "t_nonce u = t_nonce t"
    and "\<not> hasZeroSignature t" and "\<not> hasZeroSignature u"
    and "check (txHash E t) ik q = Success" and "check (txHash E u) ik q = Success" and "tq_byHash q (txHash E t) = None"
    and "tq_current q \<noteq> []" and "index q ZeroAddress (t_nonce t) = None" and "map_of (tq_future q) ZeroAddress = None"
  shows "\<exists>q' q''. tq_import E t ik q = Inr (Malformed, q') \<and> tq_current q' = tq_current q \<and>
    index q' ZeroAddress (t_nonce t) = Some None \<and> tq_import E u ik q' = Inl (TqUndefined, q'')"
proof -
  define q' where "q' = q\<lparr>tq_byAddress := (tq_byAddress q)(ZeroAddress \<mapsto> om_insert (t_nonce t) None (at_address ZeroAddress q))\<rparr>"
  have a: "tx_from t = ZeroAddress" "tx_from u = ZeroAddress" using assms(1,2) by (simp_all add: tx_from_def)
  have "map_of (at_address ZeroAddress q) (t_nonce t) = None"
    using assms(10) by (auto simp: index_def at_address_def split: option.splits)
  then have i: "index q' ZeroAddress (t_nonce t) = Some None" by (simp add: q'_def index_def om_insert_def map_of_om_set_same)
  have "tq_current q' \<noteq> []" using assms(9) by (simp add: q'_def)
  then have "emplace E t q' = Inl (TqThrow e, q')"
    using assms(1) by (simp add: emplace_def descend.simps [of E t q' 0] Let_def PriorityCompare_def height_def)
  then have "insertCurrent E (txHash E t) t q = Inl (TqThrow e, q')"
    using assms(8) by (simp add: insertCurrent_def place_current_def Let_def a q'_def [symmetric])
  then have "import_body E (txHash E t) t q = Inl (TqThrow e, q')"
    using assms(10,11) by (simp add: import_body_def replace_current_def replace_future_def a)
  then have r: "tq_import E t ik q = Inr (Malformed, q')"
    using assms(4,6) by (simp add: tq_import_def Let_def manageImport_def)
  have "import_body E (txHash E u) u q' = Inl (TqUndefined, q')"
    using i by (simp add: import_body_def replace_current_def deref_def a assms(3))
  moreover have "check (txHash E u) ik q' = Success" using assms(7) by (simp add: check_def q'_def split: if_splits)
  ultimately have "tq_import E u ik q' = Inl (TqUndefined, q')"
    using assms(5) by (simp add: tq_import_def Let_def manageImport_def)
  then show ?thesis using i r by (auto simp: q'_def)
qed

theorem queue_bad_sender_witness:
  "\<exists>q q' q''. tq_steps queue_env (\<lambda>_. Inl InvalidSignature) [Import (queue_tx [2] 0 5) Ignore] (new_TransactionQueue 10 10) = Inr q \<and>
     tq_import queue_env (bad_tx 0 1) Ignore q = Inr (Malformed, q') \<and> tq_import queue_env (bad_tx 0 2) Ignore q' = Inl (TqUndefined, q'')"
proof -
  have "\<exists>q. tq_steps queue_env (\<lambda>_. Inl InvalidSignature) [Import (queue_tx [2] 0 5) Ignore] (new_TransactionQueue 10 10) = Inr q \<and>
      (check (txHash queue_env (bad_tx 0 1)) Ignore q = Success \<and> check (txHash queue_env (bad_tx 0 2)) Ignore q = Success \<and>
       tq_byHash q (txHash queue_env (bad_tx 0 1)) = None \<and> tq_current q \<noteq> [] \<and> index q ZeroAddress 0 = None \<and>
       map_of (tq_future q) ZeroAddress = None)"
    by (rule ex_InrI) code_simp
  then obtain q where q: "tq_steps queue_env (\<lambda>_. Inl InvalidSignature) [Import (queue_tx [2] 0 5) Ignore] (new_TransactionQueue 10 10) = Inr q"
      "check (txHash queue_env (bad_tx 0 1)) Ignore q = Success" "check (txHash queue_env (bad_tx 0 2)) Ignore q = Success"
      "tq_byHash q (txHash queue_env (bad_tx 0 1)) = None" "tq_current q \<noteq> []" "index q ZeroAddress 0 = None"
      "map_of (tq_future q) ZeroAddress = None" by blast
  show ?thesis
    using queue_bad_sender [of "bad_tx 0 1" InvalidSignature "bad_tx 0 2" InvalidSignature queue_env Ignore q] q
    by (auto simp: bad_tx_def queue_tx_def hasZeroSignature_def)
qed

end
