(* ===== verification/Transaction_RLP.thy ===== *)
theory Transaction_RLP
  imports Executive RLP_Field
begin

section \<open>Transactions as RLP (\<open>libethcore/TransactionBase\<close>)\<close>

text \<open>
  The RLP form of a transaction, with its signature or as the message that is signed, the hash, the sender that the signature
  gives, and the constructor that parses and checks. Keccak and the recovery of a public key (\<open>libdevcrypto\<close>) are
  arguments. The memos \<open>m_hashWith\<close> and \<open>m_sender\<close> hold what the functions below compute; the parsed
  transaction carries in \<open>t_sender\<close> what \<open>sender ()\<close> returns or throws. \<open>int\<close> is 32 bits wide; it goes to the stream as \<open>unsigned\<close>.
\<close>

declare rlp_enc.simps(2) [simp del]

datatype IncludeSignature = WithoutSignature | WithSignature

datatype CheckTransaction = CheckNone | Cheap | Everything

record tx_crypto =
  tx_hash :: "bytes \<Rightarrow> bytes"
  tx_recover :: "u256 \<times> u256 \<times> byte \<Rightarrow> bytes \<Rightarrow> bytes"

definition as_tx :: "'a rlp_result \<Rightarrow> tx_error + 'a" where
  "as_tx r = (case r of Inl e \<Rightarrow> Inl (RlpError e) | Inr x \<Rightarrow> Inr x)"

definition to_unsigned :: "int \<Rightarrow> nat" where
  "to_unsigned i = nat (i mod 2 ^ 32)"

definition to_int :: "nat \<Rightarrow> int" where
  "to_int n = sint (of_nat n :: 32 word)"

text \<open>\<open>SignatureStruct::isValid\<close>.\<close>

definition s_max :: u256 where
  "s_max = 0xfffffffffffffffffffffffffffffffebaaedce6af48a03bbfd25e8cd0364141"

definition isValid :: "u256 \<times> u256 \<times> byte \<Rightarrow> bool" where
  "isValid vrs = (case vrs of (r, s, v) \<Rightarrow> v \<le> 1 \<and> 0 < r \<and> 0 < s \<and> r < s_max \<and> s < s_max)"

subsection \<open>Writing\<close>

definition stream_fields :: "Transaction \<Rightarrow> rlp_stream \<Rightarrow> rlp_stream rlp_result" where
  "stream_fields t s =
     ebind (append_bigint (unat (t_nonce t)) s) (\<lambda>s.
     ebind (append_bigint (unat (t_gasPrice t)) s) (\<lambda>s.
     ebind (append_bigint (unat (t_gas t)) s) (\<lambda>s.
     ebind (append_bytes False (if t_isCreation t then [] else t_receiveAddress t) s) (\<lambda>s.
     ebind (append_bigint (unat (t_value t)) s) (\<lambda>s.
     append_bytes False (t_data t) s)))))"

definition tx_streamRLP :: "IncludeSignature \<Rightarrow> bool \<Rightarrow> Transaction \<Rightarrow> rlp_stream \<Rightarrow> tx_error + rlp_stream" where
  "tx_streamRLP sig forEip155hash t s =
     ebind (as_tx (ebind (appendList ((if sig = WithSignature \<or> forEip155hash then 3 else 0) + 6) s) (stream_fields t))) (\<lambda>s.
     if sig = WithSignature then
       case t_vrs t of
         None \<Rightarrow> Inl TransactionIsUnsigned
       | Some (r, s', v) \<Rightarrow>
           as_tx (ebind (append_bigint (to_unsigned (if hasZeroSignature t then t_chainId t else uint v + (t_chainId t * 2 + 35))) s) (\<lambda>s.
             ebind (append_bigint (unat r) s) (append_bigint (unat s'))))
     else if forEip155hash then
       as_tx (ebind (append_bigint (to_unsigned (t_chainId t)) s) (\<lambda>s. ebind (append_bigint 0 s) (append_bigint 0)))
     else Inr s)"

definition tx_out :: "IncludeSignature \<Rightarrow> bool \<Rightarrow> Transaction \<Rightarrow> tx_error + bytes" where
  "tx_out sig forEip155hash t = ebind (tx_streamRLP sig forEip155hash t RLPStream) (\<lambda>s. as_tx (stream_out s))"

definition tx_rlp :: "IncludeSignature \<Rightarrow> Transaction \<Rightarrow> tx_error + bytes" where
  "tx_rlp sig t = tx_out sig False t"

definition tx_sha3 :: "tx_crypto \<Rightarrow> IncludeSignature \<Rightarrow> Transaction \<Rightarrow> tx_error + bytes" where
  "tx_sha3 K sig t = ebind (tx_out sig (t_chainId t > 0 \<and> sig = WithoutSignature) t) (\<lambda>b. Inr (tx_hash K b))"

definition sender :: "tx_crypto \<Rightarrow> Transaction \<Rightarrow> tx_error + address" where
  "sender K t =
     (if hasZeroSignature t then Inr MaxAddress
      else
        case t_vrs t of
          None \<Rightarrow> Inl TransactionIsUnsigned
        | Some vrs \<Rightarrow>
            ebind (tx_sha3 K WithoutSignature t) (\<lambda>h.
            let p = tx_recover K vrs h in
            if p = replicate 64 0 then Inl InvalidSignature else Inr (drop 12 (tx_hash K p))))"

lemma sender_upd [simp]: "sender K (t\<lparr>t_sender := x\<rparr>) = sender K t"
  by (cases t, simp only: Transaction.update_convs)
    (unfold sender_def hasZeroSignature_def tx_sha3_def tx_out_def tx_streamRLP_def stream_fields_def Transaction.select_convs, rule refl)

subsection \<open>Parsing\<close>

text \<open>The chain identifier and the signature that \<open>v\<close>, \<open>r\<close> and \<open>s\<close> stand for.\<close>

definition read_vrs :: "CheckTransaction \<Rightarrow> int \<Rightarrow> u256 \<Rightarrow> u256 \<Rightarrow> tx_error + int \<times> (u256 \<times> u256 \<times> byte)" where
  "read_vrs checkSig v r s =
     (if r = 0 \<and> s = 0 then Inr (v, (r, s, 0))
      else
        ebind (if v > 36 then Inr ((v - 35) div 2) else if v = 27 \<or> v = 28 then Inr (- 4) else Inl InvalidSignature) (\<lambda>chainId.
        let vrs = (r, s, of_int (v - (chainId * 2 + 35))) in
        if checkSig \<noteq> CheckNone \<and> \<not> isValid vrs then Inl InvalidSignature else Inr (chainId, vrs)))"

definition TransactionBase :: "tx_crypto \<Rightarrow> bytes \<Rightarrow> CheckTransaction \<Rightarrow> tx_error + Transaction" where
  "TransactionBase K rlpData checkSig =
     ebind (as_tx (RLP rlpData VeryStrict)) (\<lambda>rlp.
     if \<not> isList rlp then Inl InvalidTransactionFormat
     else
       ebind (as_tx (ebind (rlp_at rlp 0) (toInt 32 Strict))) (\<lambda>nonce.
       ebind (as_tx (ebind (rlp_at rlp 1) (toInt 32 Strict))) (\<lambda>gasPrice.
       ebind (as_tx (ebind (rlp_at rlp 2) (toInt 32 Strict))) (\<lambda>gas.
       ebind (as_tx (rlp_at rlp 3)) (\<lambda>to.
       ebind (if isEmpty to then Inr (replicate 20 0) else as_tx (toHash 20 VeryStrict to)) (\<lambda>receiveAddress.
       ebind (as_tx (ebind (rlp_at rlp 4) (toInt 32 Strict))) (\<lambda>value.
       ebind (as_tx (rlp_at rlp 5)) (\<lambda>d.
       if \<not> isData d then Inl InvalidTransactionFormat
       else
         ebind (as_tx (toBytes LaissezFaire d)) (\<lambda>data.
         ebind (as_tx (ebind (rlp_at rlp 6) (toInt 4 Strict))) (\<lambda>v.
         ebind (as_tx (ebind (rlp_at rlp 7) (toInt 32 Strict))) (\<lambda>r.
         ebind (as_tx (ebind (rlp_at rlp 8) (toInt 32 Strict))) (\<lambda>s.
         ebind (read_vrs checkSig (to_int v) (of_nat r) (of_nat s)) (\<lambda>(chainId, vrs).
         let t = \<lparr>t_isCreation = isEmpty to, t_nonce = of_nat nonce, t_value = of_nat value, t_receiveAddress = receiveAddress,
                  t_gasPrice = of_nat gasPrice, t_gas = of_nat gas, t_data = data, t_vrs = Some vrs, t_chainId = chainId,
                  t_sender = Inl TransactionIsUnsigned\<rparr>;
             a = sender K t in
         ebind (if checkSig = Everything then a else Inr []) (\<lambda>_.
         ebind (as_tx (itemCount rlp)) (\<lambda>n.
         if n > 9 then Inl InvalidTransactionFormat else Inr (t\<lparr>t_sender := a\<rparr>))))))))))))))))"

subsection \<open>What is written\<close>

definition base_items :: "Transaction \<Rightarrow> rlp_item list" where
  "base_items t =
     [int_item (unat (t_nonce t)), int_item (unat (t_gasPrice t)), int_item (unat (t_gas t)),
      RStr (if t_isCreation t then [] else t_receiveAddress t), int_item (unat (t_value t)), RStr (t_data t)]"

definition tx_v :: "Transaction \<Rightarrow> byte \<Rightarrow> int" where
  "tx_v t v = (if hasZeroSignature t then t_chainId t else uint v + (t_chainId t * 2 + 35))"

definition tx_items :: "Transaction \<Rightarrow> rlp_item list" where
  "tx_items t = base_items t @
     (case t_vrs t of None \<Rightarrow> [] | Some (r, s, v) \<Rightarrow> [int_item (to_unsigned (tx_v t v)), int_item (unat r), int_item (unat s)])"

lemma length_base_items [simp]: "length (base_items t) = 6"
  by (simp add: base_items_def)

lemma to_unsigned_less: "to_unsigned i < 256 ^ 4"
  using pos_mod_bound [of "2 ^ 32" i] by (simp add: to_unsigned_def nat_less_iff)

lemma unat_u256_less: "unat (x :: u256) < 256 ^ 32"
  using unsigned_less [of x, where ?'a = nat] by simp

lemma append_field:
  "append_bigint (unat (x :: u256)) s = emit (int_item (unat x)) s" "append_bigint (to_unsigned i) s = emit (int_item (to_unsigned i)) s"
  "append_bigint 0 s = emit (int_item 0) s"
  by (rule append_bigint_emit, use unat_u256_less [of x] to_unsigned_less [of i] in simp)+

lemma stream_fields_emits: "stream_fields t = emits (base_items t)"
  by (rule ext) (simp add: stream_fields_def base_items_def append_field emits_Cons_fun ebind_assoc)

lemma as_tx_simps [simp]: "as_tx (Inr x) = Inr x" "as_tx (Inl e) = Inl (RlpError e)"
    "as_tx (ebind r f) = ebind (as_tx r) (\<lambda>x. as_tx (f x))"
  by (simp_all add: as_tx_def ebind_def split: sum.split)

lemma as_tx_Inr_iff: "as_tx r = Inr x \<longleftrightarrow> r = Inr x"
  by (simp add: as_tx_def split: sum.split)

lemma tx_out_enc:
  assumes "t_vrs t \<noteq> None" "rlp_fits (RList (tx_items t))"
  shows "tx_rlp WithSignature t = Inr (rlp_enc (RList (tx_items t)))"
proof -
  obtain r s v where vrs: "t_vrs t = Some (r, s, v)" using assms(1) by (cases "t_vrs t") auto
  let ?sig = "[int_item (to_unsigned (tx_v t v)), int_item (unat r), int_item (unat s)]"
  have items: "tx_items t = base_items t @ ?sig" by (simp add: tx_items_def vrs)
  have "tx_streamRLP WithSignature False t RLPStream = as_tx (emit (RList (tx_items t)) RLPStream)"
    by (simp add: tx_streamRLP_def vrs items stream_fields_emits emits_append tx_v_def [symmetric] append_field emits_Cons_fun ebind_assoc)
  moreover have "ebind (emit (RList (tx_items t)) RLPStream) stream_out = Inr (rlp_enc (RList (tx_items t)))"
    by (rule emit_out [OF assms(2)])
  ultimately show ?thesis by (simp add: tx_rlp_def tx_out_def as_tx_simps(3) [symmetric] del: as_tx_simps(3))
qed

subsection \<open>What is read\<close>

text \<open>
  A transaction as the parser makes it. The sender is the one that the signature gives. Of a zero signature \<open>v\<close> is the
  chain identifier; otherwise the identifier is \<open>-4\<close> or positive and small enough for \<open>v\<close> to be an \<open>int\<close>.
\<close>

definition signed_ok :: "Transaction \<Rightarrow> bool" where
  "signed_ok t \<longleftrightarrow>
     (case t_vrs t of
        None \<Rightarrow> False
      | Some (r, s, v) \<Rightarrow>
          if r = 0 \<and> s = 0 then v = 0 \<and> - (2 ^ 31) \<le> t_chainId t \<and> t_chainId t < 2 ^ 31
          else isValid (r, s, v) \<and> (t_chainId t = - 4 \<or> 1 \<le> t_chainId t \<and> uint v + (t_chainId t * 2 + 35) < 2 ^ 31))"

definition parsed_ok :: "tx_crypto \<Rightarrow> Transaction \<Rightarrow> bool" where
  "parsed_ok K t \<longleftrightarrow> signed_ok t \<and> t_sender t = sender K t \<and> length (t_receiveAddress t) = 20 \<and>
     (t_isCreation t \<longrightarrow> t_receiveAddress t = replicate 20 0)"

lemma signed_ok_vrs: "signed_ok t \<Longrightarrow> t_vrs t \<noteq> None"
  by (cases "t_vrs t") (simp_all add: signed_ok_def)

lemma to_int_unsigned: "- (2 ^ 31) \<le> i \<Longrightarrow> i < 2 ^ 31 \<Longrightarrow> to_int (to_unsigned i) = i"
proof -
  assume i: "- (2 ^ 31) \<le> i" "i < 2 ^ 31"
  have "(of_nat (to_unsigned i) :: 32 word) = of_int (i mod 2 ^ 32)" by (simp add: to_unsigned_def)
  also have "\<dots> = of_int i" by (simp add: word_of_int_eq_iff take_bit_eq_mod)
  finally have "to_int (to_unsigned i) = sint (word_of_int i :: 32 word)" by (simp add: to_int_def)
  also have "\<dots> = i" using i by transfer (simp add: signed_take_bit_int_eq_self)
  finally show ?thesis .
qed

lemma read_vrs_tx_v:
  assumes "signed_ok t" "t_vrs t = Some (r, s, v)"
  shows "read_vrs chk (to_int (to_unsigned (tx_v t v))) r s = Inr (t_chainId t, (r, s, v))"
proof (cases "r = 0 \<and> s = 0")
  case True
  then show ?thesis using assms by (simp add: read_vrs_def signed_ok_def tx_v_def hasZeroSignature_def to_int_unsigned)
next
  case False
  let ?v = "uint v + (t_chainId t * 2 + 35)"
  have v: "isValid (r, s, v)" "t_chainId t = - 4 \<or> 1 \<le> t_chainId t \<and> ?v < 2 ^ 31"
    using assms False by (auto simp: signed_ok_def)
  have "uint v \<le> 1" using v(1) by (simp add: isValid_def word_le_def)
  then have v1: "uint v = 0 \<or> uint v = 1" using uint_ge_0 [of v] by linarith
  then have "to_int (to_unsigned (tx_v t v)) = ?v"
    using v(2) False assms(2) by (subst to_int_unsigned) (auto simp: tx_v_def hasZeroSignature_def)
  moreover have "(if ?v > 36 then Inr ((?v - 35) div 2) else if ?v = 27 \<or> ?v = 28 then Inr (- 4) else Inl InvalidSignature)
      = (Inr (t_chainId t) :: tx_error + int)"
    using v(2) v1 by auto
  moreover have "(of_int (?v - (t_chainId t * 2 + 35)) :: byte) = v" by simp
  ultimately show ?thesis unfolding read_vrs_def if_not_P [OF False] Let_def using v(1) by (simp only: ebind_simps) simp
qed

lemma isEmpty_enc: "rlp_fits (RStr b) \<Longrightarrow> length b = 0 \<or> length b = 20 \<Longrightarrow> isEmpty (rlp_enc (RStr b)) \<longleftrightarrow> b = []"
  by (auto simp: isEmpty_def isNull_def enc_bytes_def enc_hdr_def c_rlpDataImmLenStart_def c_rlpListStart_def)

lemma parse_enc:
  assumes ok: "parsed_ok K t" and fits: "rlp_fits (RList (tx_items t))" and chk: "chk = Everything \<Longrightarrow> \<exists>a. t_sender t = Inr a"
  shows "TransactionBase K (rlp_enc (RList (tx_items t))) chk = Inr t"
proof -
  obtain r s v where vrs: "t_vrs t = Some (r, s, v)" using ok by (auto simp: parsed_ok_def signed_ok_def split: option.splits)
  let ?xs = "tx_items t"
  let ?d = "rlp_enc (RList ?xs)" and ?to = "if t_isCreation t then [] else t_receiveAddress t"
  have items: "?xs = base_items t @ [int_item (to_unsigned (tx_v t v)), int_item (unat r), int_item (unat s)]" by (simp add: tx_items_def vrs)
  have len: "length ?xs = 9" by (simp add: items)
  note int = int_field.at_read [OF fits]
  have fs: "ebind (rlp_at ?d 0) (toInt 32 Strict) = Inr (unat (t_nonce t))" "ebind (rlp_at ?d 1) (toInt 32 Strict) = Inr (unat (t_gasPrice t))"
    "ebind (rlp_at ?d 2) (toInt 32 Strict) = Inr (unat (t_gas t))" "ebind (rlp_at ?d 4) (toInt 32 Strict) = Inr (unat (t_value t))"
    "ebind (rlp_at ?d 6) (toInt 4 Strict) = Inr (to_unsigned (tx_v t v))" "ebind (rlp_at ?d 7) (toInt 32 Strict) = Inr (unat r)"
    "ebind (rlp_at ?d 8) (toInt 32 Strict) = Inr (unat s)"
    by (rule int; simp add: items base_items_def nth_append unat_u256_less [simplified] to_unsigned_less [simplified])+
  have at: "rlp_at ?d 3 = Inr (rlp_enc (RStr ?to))" "rlp_at ?d 5 = Inr (rlp_enc (RStr (t_data t)))"
    using rlp_at_nth [OF fits, of 3] rlp_at_nth [OF fits, of 5] by (simp_all add: len) (simp_all add: items base_items_def nth_append)
  have sub: "rlp_fits (RStr ?to)" "rlp_fits (RStr (t_data t))"
    using rlp_fits_item [OF fits] by (simp_all add: items base_items_def)
  have to: "isEmpty (rlp_enc (RStr ?to)) = t_isCreation t"
    using isEmpty_enc [OF sub(1)] ok by (auto simp: parsed_ok_def)
  have addr: "(if t_isCreation t then Inr (replicate 20 0) else as_tx (toHash 20 VeryStrict (rlp_enc (RStr ?to)))) = Inr (t_receiveAddress t)"
    using hash_field.read_item [OF _ sub(1), of 20 VeryStrict] ok by (auto simp: parsed_ok_def)
  have data: "isData (rlp_enc (RStr (t_data t)))" "toBytes LaissezFaire (rlp_enc (RStr (t_data t))) = Inr (t_data t)"
    using reader_data(1) [OF sub(2)] bytes_field.read_item [OF _ sub(2)] by simp_all
  have cnt: "itemCount ?d = Inr 9" using itemCount_enc(1) [OF fits] len by simp
  have vrs': "read_vrs chk (to_int (to_unsigned (tx_v t v))) r s = Inr (t_chainId t, r, s, v)"
    using ok by (intro read_vrs_tx_v) (simp_all add: parsed_ok_def vrs)
  let ?t = "\<lparr>t_isCreation = t_isCreation t, t_nonce = t_nonce t, t_value = t_value t, t_receiveAddress = t_receiveAddress t,
                  t_gasPrice = t_gasPrice t, t_gas = t_gas t, t_data = t_data t, t_vrs = Some (r, s, v), t_chainId = t_chainId t,
                  t_sender = Inl TransactionIsUnsigned\<rparr>"
  have t: "?t\<lparr>t_sender := t_sender t\<rparr> = t" "?t = t\<lparr>t_sender := Inl TransactionIsUnsigned\<rparr>" by (simp_all add: vrs)
  have word_nat: "word_of_nat (unat x) = x" for x :: u256 by simp
  have sender: "sender K ?t = t_sender t" using ok unfolding t(2) sender_upd parsed_ok_def by simp
  have rlp: "RLP ?d VeryStrict = Inr ?d" "isList ?d" using RLP_exact(1) [OF fits] isList_enc(1) [OF fits] by simp_all
  obtain a where a: "(if chk = Everything then t_sender t else Inr []) = Inr a" using chk by (cases "chk = Everything") auto
  show ?thesis
    unfolding TransactionBase_def rlp(1) fs at as_tx_simps(1) ebind_simps to addr data(2) word_nat cnt vrs' prod.case Let_def sender a
    using data(1) by (simp add: rlp(2) t)
qed


subsection \<open>What the parser accepts\<close>

lemma ebind_InrE: "ebind r f = Inr y \<Longrightarrow> (\<And>x. r = Inr x \<Longrightarrow> f x = Inr y \<Longrightarrow> P) \<Longrightarrow> P"
  by (auto simp: ebind_Inr_iff)

lemma if_InrE: "(if b then Inl e else r) = Inr y \<Longrightarrow> (\<not> b \<Longrightarrow> r = Inr y \<Longrightarrow> P) \<Longrightarrow> P"
  by (simp split: if_splits)

lemma case_prod_InrE: "(case p of (a, b) \<Rightarrow> f a b) = Inr y \<Longrightarrow> (\<And>a b. p = (a, b) \<Longrightarrow> f a b = Inr y \<Longrightarrow> P) \<Longrightarrow> P"
  by (cases p) simp

lemma payload_length: "payload d = Inr p \<Longrightarrow> length p \<le> length d"
  by (auto simp: payload_def ebind_Inr_iff intro: order_trans [OF length_cropped_le] split: if_splits)

lemma RLP_length: "RLP d s = Inr m \<Longrightarrow> length m \<le> length d"
  by (auto simp: RLP_def ebind_Inr_iff split: if_splits)

lemma at_loop_length:
  "at_loop r i = (r', x) \<Longrightarrow> length (m_lastItem r) \<le> length (m_data r) \<Longrightarrow> length (m_lastItem r') \<le> length (m_data r)"
proof (induction r i arbitrary: r' x rule: at_loop.induct)
  case (1 r i)
  show ?case
  proof (cases "m_lastIndex r < i \<and> length (m_lastItem r) \<noteq> 0")
    case False
    then show ?thesis using "1.prems" by (auto simp: at_loop.simps [of r i])
  next
    case True
    show ?thesis
    proof (cases "payload (m_data r)")
      case (Inl e)
      then show ?thesis using "1.prems" True by (auto simp: at_loop.simps [of r i])
    next
      case (Inr pl)
      have rest: "length (cropped_from pl (m_lastEnd r)) \<le> length (m_data r)"
        using payload_length [OF Inr] by (auto simp: cropped_from_def)
      show ?thesis
      proof (cases "sizeAsEncoded (cropped_from pl (m_lastEnd r))")
        case Inl': (Inl e)
        then show ?thesis using "1.prems" True Inr rest by (auto simp: at_loop.simps [of r i] Let_def)
      next
        case Inr': (Inr n)
        have "length (cropped (cropped_from pl (m_lastEnd r)) 0 n) \<le> length (m_data r)"
          using rest by (simp add: cropped_def)
        then show ?thesis
          using "1.IH" [OF True Inr refl refl Inr' refl] "1.prems"(1) True Inr Inr' by (simp add: at_loop.simps [of r i] Let_def)
      qed
    qed
  qed
qed

lemma rlp_at_length: "rlp_at d i = Inr x \<Longrightarrow> length x \<le> length d"
proof -
  assume x: "rlp_at d i = Inr x"
  have crop: "length (cropped pl 0 n) \<le> length d" if "payload d = Inr pl" for pl n
    using payload_length [OF that] by (auto simp: cropped_def)
  show ?thesis
    using x crop at_loop_length
    by (fastforce simp: rlp_at_def rlp_at_obj_def rlp_obj_of_def Let_def split: if_splits sum.splits prod.splits dest!: RLP_length)
qed

lemma toBytes_length: "toBytes fl d = Inr b \<Longrightarrow> length b \<le> length d"
  by (auto simp: toBytes_def ebind_Inr_iff dest: payload_length split: if_splits)

lemma toHash_length: "toHash N fl d = Inr b \<Longrightarrow> length b = N"
  by (auto simp: toHash_def ebind_Inr_iff Let_def split: if_splits)

lemma read_vrs_ok:
  assumes "read_vrs chk (to_int n) r s = Inr (c, vrs)" "chk \<noteq> CheckNone" "t_vrs t = Some vrs" "t_chainId t = c"
  shows "signed_ok t"
proof -
  have range: "- (2 ^ 31) \<le> to_int n" "to_int n < 2 ^ 31"
    using sint_ge [of "of_nat n :: 32 word"] sint_lt [of "of_nat n :: 32 word"] by (simp_all add: to_int_def)
  show ?thesis
  proof (cases "r = 0 \<and> s = 0")
    case True
    then show ?thesis using assms range by (auto simp: read_vrs_def signed_ok_def)
  next
    case False
    let ?v = "to_int n"
    have c: "c = (if ?v > 36 then (?v - 35) div 2 else - 4)" "?v > 36 \<or> ?v = 27 \<or> ?v = 28"
      and vrs: "vrs = (r, s, of_int (?v - (c * 2 + 35)))" "isValid vrs"
      using assms(1,2) unfolding read_vrs_def if_not_P [OF False] ebind_Inr_iff Let_def by (auto split: if_splits)
    have "uint (of_int x :: byte) = x" if "x = 0 \<or> x = 1" for x using that by auto
    moreover have "?v - (c * 2 + 35) = 0 \<or> ?v - (c * 2 + 35) = 1" using c by auto
    ultimately have "uint (of_int (?v - (c * 2 + 35)) :: byte) = ?v - (c * 2 + 35)" by blast
    moreover have "c = - 4 \<or> 1 \<le> c" using c by auto
    ultimately have "c = - 4 \<or> 1 \<le> c \<and> uint (of_int (?v - (c * 2 + 35)) :: byte) + (c * 2 + 35) < 2 ^ 31" using range(2) by linarith
    then show ?thesis using vrs(2) unfolding signed_ok_def assms(3,4) vrs(1) option.case prod.case if_not_P [OF False] by blast
  qed
qed

lemma parsed_fields:
  assumes "TransactionBase K b chk = Inr t"
  shows "\<exists>n r s vrs. read_vrs chk (to_int n) r s = Inr (t_chainId t, vrs) \<and> t_vrs t = Some vrs"
    "t_sender t = sender K t" "length (t_receiveAddress t) = 20" "t_isCreation t \<Longrightarrow> t_receiveAddress t = replicate 20 0"
    "length (t_data t) \<le> length b" "chk = Everything \<Longrightarrow> \<exists>a. t_sender t = Inr a"
proof -
  obtain rlp to d nonce gasPrice gas receiveAddress v data n r s chainId vrs x where
    p: "as_tx (RLP b VeryStrict) = Inr rlp" "as_tx (rlp_at rlp 3) = Inr to"
    "(if isEmpty to then Inr (replicate 20 0) else as_tx (toHash 20 VeryStrict to)) = Inr receiveAddress"
    "as_tx (rlp_at rlp 5) = Inr d" "as_tx (toBytes LaissezFaire d) = Inr data" "read_vrs chk (to_int n) r s = Inr (chainId, vrs)" and
    t: "(if chk = Everything then sender K \<lparr>t_isCreation = isEmpty to, t_nonce = nonce, t_value = v, t_receiveAddress = receiveAddress,
                  t_gasPrice = gasPrice, t_gas = gas, t_data = data, t_vrs = Some vrs, t_chainId = chainId,
                  t_sender = Inl TransactionIsUnsigned\<rparr> else Inr []) = Inr x"
      "Inr (\<lparr>t_isCreation = isEmpty to, t_nonce = nonce, t_value = v, t_receiveAddress = receiveAddress,
                  t_gasPrice = gasPrice, t_gas = gas, t_data = data, t_vrs = Some vrs, t_chainId = chainId,
                  t_sender = Inl TransactionIsUnsigned\<rparr>\<lparr>t_sender := sender K \<lparr>t_isCreation = isEmpty to, t_nonce = nonce, t_value = v,
                  t_receiveAddress = receiveAddress, t_gasPrice = gasPrice, t_gas = gas, t_data = data, t_vrs = Some vrs, t_chainId = chainId,
                  t_sender = Inl TransactionIsUnsigned\<rparr>\<rparr>) = (Inr t :: tx_error + Transaction)"
    using assms unfolding TransactionBase_def Let_def by (elim ebind_InrE if_InrE case_prod_InrE) (hypsubst, rule that; assumption)
  have t': "t_isCreation t = isEmpty to" "t_receiveAddress t = receiveAddress" "t_data t = data" "t_vrs t = Some vrs" "t_chainId t = chainId"
    using t(2) by (auto simp only: sum.inject Transaction.simps)
  show "\<exists>n r s vrs. read_vrs chk (to_int n) r s = Inr (t_chainId t, vrs) \<and> t_vrs t = Some vrs" using p(6) t' by blast
  show "t_sender t = sender K t" using t(2) sender_upd by (metis Transaction.select_convs(10) Transaction.update_convs(10) sum.inject(2))
  have "length receiveAddress = 20" using p(3) toHash_length by (cases "isEmpty to") (auto simp: as_tx_Inr_iff)
  then show "length (t_receiveAddress t) = 20" using t' by simp
  show "t_receiveAddress t = replicate 20 0" if "t_isCreation t" using p(3) t' that by simp
  show "length (t_data t) \<le> length b"
    using p(1,4,5) t' RLP_length rlp_at_length toBytes_length unfolding as_tx_Inr_iff by (metis order_trans)
  show "\<exists>a. t_sender t = Inr a" if "chk = Everything" using t unfolding that by (auto simp only: sum.inject Transaction.simps if_True simp_thms)
qed

lemma parsed_parsed_ok: "TransactionBase K b chk = Inr t \<Longrightarrow> chk \<noteq> CheckNone \<Longrightarrow> parsed_ok K t"
  using parsed_fields [of K b chk t] read_vrs_ok [of chk _ _ _ "t_chainId t" _ t] unfolding parsed_ok_def by blast

lemma tx_bound:
  assumes "signed_ok t" "length (t_receiveAddress t) = 20"
  shows "rlp_bound (RList (tx_items t)) \<le> 400 + length (t_data t)"
proof -
  obtain r s v where vrs: "t_vrs t = Some (r, s, v)" using assms(1) by (auto simp: signed_ok_def split: option.splits)
  have b: "rlp_bound (int_item (unat (x :: u256))) \<le> 41" "rlp_bound (int_item (to_unsigned i)) \<le> 13" for x i
    using rlp_bound_int_item [OF unat_u256_less [of x]] rlp_bound_int_item [OF to_unsigned_less [of i]] by simp_all
  note b' = b(1) [of "t_nonce t"] b(1) [of "t_gasPrice t"] b(1) [of "t_gas t"] b(1) [of "t_value t"] b(1) [of r] b(1) [of s] b(2) [of "tx_v t v"]
  show ?thesis using b' assms(2) by (simp add: tx_items_def vrs base_items_def)
qed

lemma tx_fits:
  assumes "signed_ok t" "length (t_receiveAddress t) = 20" "length (t_data t) < 2 ^ 59"
  shows "rlp_fits (RList (tx_items t))"
  using tx_bound [OF assms(1,2)] assms(3) by (intro rlp_fits_bound) simp

definition sample_crypto :: tx_crypto where
  "sample_crypto = \<lparr>tx_hash = (\<lambda>b. replicate 32 (of_nat (length b))), tx_recover = (\<lambda>_ _. replicate 64 1)\<rparr>"

definition signed_tx :: Transaction where
  "signed_tx =
     (let t = \<lparr>t_isCreation = False, t_nonce = 3, t_value = 5, t_receiveAddress = replicate 20 7, t_gasPrice = 2, t_gas = 21000,
               t_data = [1, 2], t_vrs = Some (1, 1, 1), t_chainId = 15, t_sender = Inl TransactionIsUnsigned\<rparr>
      in t\<lparr>t_sender := sender sample_crypto t\<rparr>)"

lemma signed_tx_ok: "parsed_ok sample_crypto signed_tx"
proof -
  have "t_sender signed_tx = sender sample_crypto signed_tx" unfolding signed_tx_def Let_def sender_upd by simp
  then show ?thesis by (simp add: parsed_ok_def) (simp add: signed_tx_def signed_ok_def isValid_def s_max_def)
qed

subsection \<open>Properties\<close>

text \<open>
  C23: A signed transaction survives the trip through its RLP form: parsing what \<open>streamRLP\<close> wrote, at any level of checking, gives every
  field back, with the chain identifier and the recovery bit that were folded into \<open>v\<close>, and the sender of the signature.
\<close>

theorem transaction_roundtrip:
  assumes "parsed_ok K t" and "length (t_data t) < 2 ^ 59" and "chk = Everything \<longrightarrow> (\<exists>a. t_sender t = Inr a)"
  shows "\<exists>b. tx_rlp WithSignature t = Inr b \<and> TransactionBase K b chk = Inr t"
proof -
  have fits: "rlp_fits (RList (tx_items t))" using assms by (intro tx_fits) (simp_all add: parsed_ok_def)
  have "t_vrs t \<noteq> None" using assms(1) signed_ok_vrs by (simp add: parsed_ok_def)
  then show ?thesis using tx_out_enc [OF _ fits] parse_enc [OF assms(1) fits] assms(3) by blast
qed

theorem transaction_roundtrip_witness:
  "\<exists>b. tx_rlp WithSignature signed_tx = Inr b \<and> TransactionBase sample_crypto b Cheap = Inr signed_tx"
  using transaction_roundtrip [OF signed_tx_ok, of Cheap] by (simp add: signed_tx_def)

text \<open>
  C24: Every transaction that the parser lets through with a check of its signature is well-formed: the signature is in range or zero, the
  chain identifier is one that \<open>v\<close> can carry, the address has 20 bytes and is zero for a creation, and the sender is what the
  signature gives, or, when everything is checked, an address. So its own RLP form is accepted as the same transaction again.
\<close>

theorem transaction_parsed:
  assumes "TransactionBase K b chk = Inr t" and "chk \<noteq> CheckNone" and "length b < 2 ^ 59"
  shows "parsed_ok K t \<and> (chk = Everything \<longrightarrow> (\<exists>a. t_sender t = Inr a)) \<and>
    (\<exists>b'. tx_rlp WithSignature t = Inr b' \<and> TransactionBase K b' chk = Inr t)"
proof -
  have ok: "parsed_ok K t" by (rule parsed_parsed_ok [OF assms(1,2)])
  have fits: "rlp_fits (RList (tx_items t))"
    using ok parsed_fields(5) [OF assms(1)] assms(3) by (intro tx_fits) (simp_all add: parsed_ok_def)
  have "t_vrs t \<noteq> None" using ok signed_ok_vrs by (simp add: parsed_ok_def)
  then show ?thesis using ok parsed_fields(6) [OF assms(1)] tx_out_enc [OF _ fits] parse_enc [OF ok fits] by blast
qed

theorem transaction_parsed_witness:
  "TransactionBase sample_crypto (rlp_enc (RList (tx_items signed_tx))) Cheap = Inr signed_tx \<and> parsed_ok sample_crypto signed_tx"
proof -
  have fits: "rlp_fits (RList (tx_items signed_tx))"
    using signed_tx_ok by (intro tx_fits) (simp_all add: parsed_ok_def signed_tx_def)
  have parse: "TransactionBase sample_crypto (rlp_enc (RList (tx_items signed_tx))) Cheap = Inr signed_tx"
    by (rule parse_enc [OF signed_tx_ok fits]) simp
  have "length (rlp_enc (RList (tx_items signed_tx))) < 2 ^ 59"
    using tx_bound [of signed_tx] rlp_bound_enc [of "RList (tx_items signed_tx)"] signed_tx_ok by (simp add: parsed_ok_def signed_tx_def)
  then show ?thesis using transaction_parsed [OF parse] parse by simp
qed

text \<open>
  The parser accepts more than the transaction's own RLP form: an empty list in place of the receiver is taken for a creation too.
\<close>

lemma two_forms_fields:
  defines "b \<equiv> \<lambda>x :: byte. [0xc9, 1, 1, 1, x, 0x80, 0x80, 27, 1, 1]"
  assumes "x = 0xc0 \<or> x = 0x80"
  shows "RLP (b x) VeryStrict = Inr (b x)" "isList (b x)" "rlp_at (b x) 0 = Inr [1]" "rlp_at (b x) 1 = Inr [1]" "rlp_at (b x) 2 = Inr [1]"
    "rlp_at (b x) 3 = Inr [x]" "rlp_at (b x) 4 = Inr [0x80]" "rlp_at (b x) 5 = Inr [0x80]" "rlp_at (b x) 6 = Inr [27]"
    "rlp_at (b x) 7 = Inr [1]" "rlp_at (b x) 8 = Inr [1]" "itemCount (b x) = Inr 9" "isEmpty [x]"
  using assms(2) unfolding b_def by (elim disjE; simp add: rlp_eval itemCount_def items_def items_loop.simps isEmpty_def)+

lemma two_forms_ints:
  "toInt 32 Strict [1] = Inr 1" "toInt 32 Strict [0x80] = Inr 0" "toInt 4 Strict [27] = Inr 27" "toBytes LaissezFaire [0x80] = Inr []" "isData [0x80]"
  "read_vrs Cheap (to_int 27) (of_nat 1) (of_nat 1) = Inr (- 4, 1, 1, 0)"
  by (simp_all add: rlp_eval toInt_def isInt_def fromBigEndian_w_def toBytes_def read_vrs_def to_int_def isValid_def s_max_def)

lemma transaction_two_forms:
  "(\<exists>t. TransactionBase K [0xc9, 1, 1, 1, 0xc0, 0x80, 0x80, 27, 1, 1] Cheap = Inr t) \<and>
   TransactionBase K [0xc9, 1, 1, 1, 0xc0, 0x80, 0x80, 27, 1, 1] Cheap =
   TransactionBase K [0xc9, 1, 1, 1, 0x80, 0x80, 0x80, 27, 1, 1] Cheap"
  unfolding TransactionBase_def two_forms_fields [OF disjI1 [OF refl]] two_forms_fields [OF disjI2 [OF refl]] ebind_simps as_tx_simps(1) two_forms_ints
  by (simp add: two_forms_fields two_forms_ints(5))

end
