(* ===== verification/Trie_Hash.thy ===== *)
theory Trie_Hash
  imports RLP_Field Common_Data Assoc_Lists "HOL-Library.List_Lexorder"
begin

section \<open>Trie roots (\<open>libdevcore/TrieHash\<close>, \<open>TrieCommon\<close>)\<close>

text \<open>
  The root hash of the Patricia trie of a map, computed from the sorted pairs without building the trie. \<open>HexMap\<close> and
  \<open>BytesMap\<close> are \<open>std::map\<close>s, and a range of iterators is the list of its pairs; \<open>_preLen\<close> nibbles of every key are already used.
  Keccak is an argument. Reading a key past its end, undefined in the code, is \<open>OutOfView\<close>.
\<close>

type_synonym hex_map = "(bytes \<times> bytes) list"

subsection \<open>Hex prefix\<close>

function hp_loop :: "bytes \<Rightarrow> nat \<Rightarrow> nat \<Rightarrow> bytes" where
  "hp_loop hexVector i e = (if i < e then (hexVector ! i * 16 + hexVector ! (i + 1)) # hp_loop hexVector (i + 2) e else [])"
  by auto
termination by (relation "measure (\<lambda>(h, i, e). e - i)") auto

declare hp_loop.simps [simp del]

definition hexPrefixEncode :: "bytes \<Rightarrow> bool \<Rightarrow> nat \<Rightarrow> int \<Rightarrow> bytes" where
  "hexPrefixEncode hexVector leaf begin e =
     (let e = (if e < 0 then nat (int (length hexVector) + 1 + e) else nat e);
          odd = ((e - begin) mod 2 \<noteq> 0);
          ret = ((if leaf then 2 else 0) + (if odd then 1 else 0)) * 16 in
      if odd then (ret + hexVector ! begin) # hp_loop hexVector (begin + 1) e
      else ret # hp_loop hexVector begin e)"

subsection \<open>The root\<close>

text \<open>The nibbles that the keys share: the loop over one pair of keys, then the loop over the range.\<close>

function shared_loop :: "bytes \<Rightarrow> bytes \<Rightarrow> nat \<Rightarrow> nat \<Rightarrow> nat" where
  "shared_loop a b x shared = (if shared < x \<and> a ! shared = b ! shared then shared_loop a b x (shared + 1) else shared)"
  by auto
termination by (relation "measure (\<lambda>(a, b, x, shared). x - shared)") auto

declare shared_loop.simps [simp del]

definition shared_bound :: "bytes \<Rightarrow> bytes \<Rightarrow> nat \<Rightarrow> nat" where
  "shared_bound k l sp = min sp (min (length k mod 2 ^ 32) (length l mod 2 ^ 32))"

fun sharedPre :: "bytes \<Rightarrow> hex_map \<Rightarrow> nat \<Rightarrow> nat \<Rightarrow> nat" where
  "sharedPre k [] preLen sp = sp"
| "sharedPre k ((l, _) # xs) preLen sp =
     (if sp = 0 then sp
      else
        sharedPre k xs preLen (min (shared_loop k l (shared_bound k l sp) preLen) sp))"

text \<open>The pairs from the front whose next nibble is \<open>i\<close>, and the 16 ranges that this splits the range into.\<close>

fun count_nibble :: "nat \<Rightarrow> nat \<Rightarrow> hex_map \<Rightarrow> nat rlp_result" where
  "count_nibble i preLen [] = Inr 0"
| "count_nibble i preLen ((k, _) # xs) =
     (if length k \<le> preLen then Inl OutOfView
      else if unat (k ! preLen) = i then ebind (count_nibble i preLen xs) (\<lambda>n. Inr (n + 1))
      else Inr 0)"

fun children :: "nat list \<Rightarrow> nat \<Rightarrow> hex_map \<Rightarrow> hex_map list rlp_result" where
  "children [] preLen b = Inr []"
| "children (i # is) preLen b =
     ebind (count_nibble i preLen b) (\<lambda>n.
     ebind (children is preLen (drop n b)) (\<lambda>gs. Inr (take n b # gs)))"

definition hash256aux :: "(bytes \<Rightarrow> bytes) \<Rightarrow> rlp_stream rlp_result \<Rightarrow> rlp_stream \<Rightarrow> rlp_stream rlp_result" where
  "hash256aux H r s =
     ebind r (\<lambda>r. ebind (stream_out r) (\<lambda>out.
     if length out < 32 then appendRaw out 1 s else append_bytes False (H out) s))"

fun append_children :: "(bytes \<Rightarrow> bytes) \<Rightarrow> rlp_stream rlp_result option list \<Rightarrow> rlp_stream \<Rightarrow> rlp_stream rlp_result" where
  "append_children H [] s = Inr s"
| "append_children H (c # cs) s =
     ebind (case c of None \<Rightarrow> append_bytes False [] s | Some r \<Rightarrow> hash256aux H r s) (append_children H cs)"

lemma shared_loop_le: "shared \<le> x \<Longrightarrow> shared_loop a b x shared \<le> x" "shared \<le> shared_loop a b x shared"
proof -
  show "shared \<le> x \<Longrightarrow> shared_loop a b x shared \<le> x"
    by (induction a b x shared rule: shared_loop.induct) (subst shared_loop.simps, auto)
  show "shared \<le> shared_loop a b x shared"
    by (induction a b x shared rule: shared_loop.induct) (subst shared_loop.simps, auto)
qed

lemma shared_loop_bound: "shared_loop a b x shared \<le> max shared x"
  using shared_loop_le(1) [of shared x a b] by (cases "shared \<le> x") (auto simp: shared_loop.simps [of a b x shared])

lemma sharedPre_le: "sharedPre k xs preLen sp \<le> sp"
  by (induction k xs preLen sp rule: sharedPre.induct) (auto simp: Let_def intro: order_trans)

lemma sharedPre_first: "xs \<noteq> [] \<Longrightarrow> preLen < sharedPre k xs preLen sp \<Longrightarrow> sharedPre k xs preLen sp \<le> length k"
proof (cases xs)
  case (Cons p ys)
  obtain l v where p: "p = (l, v)" by fastforce
  assume gt: "preLen < sharedPre k xs preLen sp"
  show ?thesis
  proof (cases "sp = 0")
    case False
    define x where "x = shared_bound k l sp"
    have "sharedPre k xs preLen sp \<le> min (shared_loop k l x preLen) sp"
      using False sharedPre_le [of k ys preLen "min (shared_loop k l x preLen) sp"] by (simp add: Cons p x_def Let_def)
    then have "sharedPre k xs preLen sp \<le> max preLen x" using shared_loop_bound [of k l x preLen] by linarith
    moreover have "x \<le> length k" by (simp add: x_def shared_bound_def min.coboundedI2 min.coboundedI1)
    ultimately show ?thesis using gt by linarith
  qed (use gt in \<open>simp add: Cons p\<close>)
qed simp

lemma count_nibble_le: "count_nibble i preLen xs = Inr n \<Longrightarrow> n \<le> length xs \<and> (\<forall>p \<in> set (take n xs). preLen < length (fst p) \<and> unat (fst p ! preLen) = i)"
  by (induction i preLen xs arbitrary: n rule: count_nibble.induct)
    (simp_all add: ebind_Inr_iff split: if_splits, force+)

lemma children_sub: "children is preLen b = Inr gs \<Longrightarrow> g \<in> set gs \<Longrightarrow> set g \<subseteq> set b \<and> length g \<le> length b \<and> (\<forall>p \<in> set g. preLen < length (fst p))"
proof (induction "is" preLen b arbitrary: gs rule: children.induct)
  case (2 i "is" preLen b)
  then show ?case using count_nibble_le [of i preLen b] by (fastforce simp: ebind_Inr_iff dest: in_set_dropD in_set_takeD)
qed simp


definition room :: "nat \<Rightarrow> hex_map \<Rightarrow> nat" where
  "room preLen xs = sum_list (map (\<lambda>p. length (fst p) - preLen) xs)"

lemma room_less:
  assumes "p \<in> set xs" "preLen < length (fst p)" "preLen < sp"
  shows "room sp xs < room preLen xs"
  using assms(1)
proof (induction xs)
  case (Cons x xs)
  have le: "room sp ys \<le> room preLen ys" for ys using assms(3) by (induction ys) (auto simp: room_def)
  show ?case
  proof (cases "p = x")
    case True
    then show ?thesis using assms(2,3) le [of xs] by (simp add: room_def)
  next
    case False
    then show ?thesis using Cons assms(3) by (simp add: room_def add_le_less_mono)
  qed
qed simp

lemma room_take_drop: "room n (take i xs) \<le> room n xs" "room n (drop i xs) \<le> room n xs"
proof -
  have "room n (ys @ zs) = room n ys + room n zs" for ys zs by (simp add: room_def)
  from this [of "take i xs" "drop i xs"] show "room n (take i xs) \<le> room n xs" "room n (drop i xs) \<le> room n xs" by simp_all
qed

lemma children_room: "children is preLen b = Inr gs \<Longrightarrow> g \<in> set gs \<Longrightarrow> room n g \<le> room n b"
proof (induction "is" preLen b arbitrary: gs rule: children.induct)
  case (2 i "is" preLen b)
  then show ?case using room_take_drop [of n] by (fastforce simp: ebind_Inr_iff intro: order_trans)
qed simp

lemma room_tl: "room n (tl xs) \<le> room n xs"
  by (cases xs) (simp_all add: room_def)

text \<open>\<open>hash256rlp\<close>; \<open>2 ^ 32 - 1\<close> is \<open>(unsigned)-1\<close>.\<close>

function hash256rlp :: "(bytes \<Rightarrow> bytes) \<Rightarrow> hex_map \<Rightarrow> nat \<Rightarrow> rlp_stream \<Rightarrow> rlp_stream rlp_result" where
  "hash256rlp H xs preLen s =
     (case xs of
        [] \<Rightarrow> append_bytes False [] s
      | (k, v) # rest \<Rightarrow>
          if rest = [] then
            ebind (appendList 2 s) (\<lambda>s. ebind (append_bytes False (hexPrefixEncode k True preLen (- 1)) s) (append_bytes False v))
          else
            let sp = sharedPre k rest preLen (2 ^ 32 - 1) in
            if sp > preLen then
              ebind (appendList 2 s) (\<lambda>s. ebind (append_bytes False (hexPrefixEncode k False preLen (int sp)) s)
                (hash256aux H (hash256rlp H xs sp RLPStream)))
            else
              (case children [0..<16] preLen (if preLen = length k then tl xs else xs) of
                 Inl e \<Rightarrow> Inl e
               | Inr gs \<Rightarrow>
                   ebind (appendList 17 s) (\<lambda>s.
                   ebind (append_children H (map (\<lambda>g. if g = [] then None else Some (hash256rlp H g (preLen + 1) RLPStream)) gs) s)
                     (append_bytes False (if preLen = length k then v else [])))))"
  by pat_completeness auto
termination
proof (relation "measure (\<lambda>(H, xs, preLen, s). room preLen xs)")
  fix H :: "bytes \<Rightarrow> bytes" and xs preLen s x rest and k v :: bytes and sp
  assume a: "xs = x # rest" "(k, v) = x" "rest \<noteq> []" "sp = sharedPre k rest preLen (2 ^ 32 - 1)" "preLen < sp"
  then have "sp \<le> length k" using sharedPre_first [of rest preLen k "2 ^ 32 - 1"] by simp
  moreover have "(k, v) \<in> set xs" using a(1) unfolding a(2) [symmetric] by simp
  ultimately show "((H, xs, sp, RLPStream), H, xs, preLen, s) \<in> measure (\<lambda>(H, xs, preLen, s). room preLen xs)"
    using a(5) room_less [of "(k, v)" xs preLen sp] by simp
next
  fix H :: "bytes \<Rightarrow> bytes" and xs preLen s x rest and k v :: bytes and sp gs g
  assume a: "children [0..<16] preLen (if preLen = length k then tl xs else xs) = Inr gs" "g \<in> set gs" "g \<noteq> []"
  obtain p where p: "p \<in> set g" using a(3) by (cases g) auto
  then have "preLen < length (fst p)" using children_sub [OF a(1,2)] by blast
  then have "room (preLen + 1) g < room preLen g" using room_less [OF p, of preLen "preLen + 1"] by simp
  also have "\<dots> \<le> room preLen xs" using children_room [OF a(1,2), of preLen] room_tl [of preLen xs] by (auto split: if_splits)
  finally show "((H, g, preLen + 1, RLPStream), H, xs, preLen, s) \<in> measure (\<lambda>(H, xs, preLen, s). room preLen xs)" by simp
qed simp

declare hash256rlp.simps [simp del]

definition rlp256 :: "(bytes \<Rightarrow> bytes) \<Rightarrow> (bytes \<times> bytes) list \<Rightarrow> bytes rlp_result" where
  "rlp256 H m =
     (if m = [] then ebind (append_bytes False [] RLPStream) stream_out
      else ebind (hash256rlp H (foldl (\<lambda>h (k, v). om_set (asNibbles k) v h) [] (rev m)) 0 RLPStream) stream_out)"

definition hash256 :: "(bytes \<Rightarrow> bytes) \<Rightarrow> (bytes \<times> bytes) list \<Rightarrow> bytes rlp_result" where
  "hash256 H m = ebind (rlp256 H m) (\<lambda>b. Inr (H b))"

text \<open>\<open>trieRootOver\<close> with the keys \<open>rlp (i)\<close>, as the callers use it, which is \<open>orderedTrieRoot\<close>.\<close>

definition rlp_unsigned :: "nat \<Rightarrow> bytes rlp_result" where
  "rlp_unsigned j = ebind (append_bigint j RLPStream) stream_out"

fun ordered_map :: "nat \<Rightarrow> bytes list \<Rightarrow> (bytes \<times> bytes) list \<Rightarrow> (bytes \<times> bytes) list rlp_result" where
  "ordered_map j [] m = Inr m"
| "ordered_map j (d # ds) m = ebind (rlp_unsigned j) (\<lambda>k. ordered_map (j + 1) ds (om_set k d m))"

definition orderedTrieRoot :: "(bytes \<Rightarrow> bytes) \<Rightarrow> bytes list \<Rightarrow> bytes rlp_result" where
  "orderedTrieRoot H data = ebind (ordered_map 0 data []) (hash256 H)"

end
