(* ===== verification/Trie_Nodes.thy ===== *)
theory Trie_Nodes
  imports Trie_Hash
begin

section \<open>The nodes of a trie\<close>

text \<open>
  The specification of \<open>hash256rlp\<close>: the root node of the Patricia trie of a map as an RLP item (\<open>node\<close>), by recursion on the
  map with the used nibbles cut off; and the refinement: what the code writes is this item. A node of less than 32 bytes stands
  in its parent as it is, any other by its hash (\<open>child\<close>).
\<close>

subsection \<open>Hex prefix\<close>

fun pairs :: "bytes \<Rightarrow> bytes" where
  "pairs (a # b # ns) = (a * 16 + b) # pairs ns"
| "pairs _ = []"

definition hp :: "bool \<Rightarrow> bytes \<Rightarrow> bytes" where
  "hp leaf ns =
     (if odd (length ns) then ((if leaf then 3 else 1) * 16 + hd ns) # pairs (tl ns) else (if leaf then 2 else 0) * 16 # pairs ns)"

abbreviation nibbles :: "bytes \<Rightarrow> bool" where
  "nibbles ns \<equiv> \<forall>n \<in> set ns. n < 16"

lemma hp_loop_pairs:
  assumes "i \<le> e" "e \<le> length h" "even (e - i)"
  shows "hp_loop h i e = pairs (take (e - i) (drop i h))"
  using assms
proof (induction h i e rule: hp_loop.induct)
  case (1 h i e)
  show ?case
  proof (cases "i < e")
    case True
    with "1.prems" have "i + 2 \<le> e" by presburger
    then have "drop i h = h ! i # h ! (i + 1) # drop (i + 2) h" using "1.prems"(2) by (simp add: Cons_nth_drop_Suc)
    moreover have "e - i = Suc (Suc (e - (i + 2)))" using \<open>i + 2 \<le> e\<close> by simp
    ultimately show ?thesis using "1.IH" [OF True \<open>i + 2 \<le> e\<close> "1.prems"(2)] "1.prems"(3) True
      by (subst hp_loop.simps) simp
  qed (subst hp_loop.simps, simp)
qed

lemma hexPrefixEncode_hp:
  assumes "b \<le> e" "e \<le> length h"
  shows "hexPrefixEncode h leaf b (int e) = hp leaf (take (e - b) (drop b h))"
proof (cases "odd (e - b)")
  case True
  then have "b < e" by (cases "b = e") (use assms(1) in auto)
  then have "drop b h = h ! b # drop (b + 1) h" "e - b = Suc (e - (b + 1))" using assms(2) by (simp_all add: Cons_nth_drop_Suc)
  moreover have "hp_loop h (b + 1) e = pairs (take (e - (b + 1)) (drop (b + 1) h))"
    using True \<open>b < e\<close> assms by (intro hp_loop_pairs) auto
  moreover have "(e - b) mod 2 \<noteq> 0" using True by presburger
  moreover have "length (take (e - b) (drop b h)) = e - b" using assms by simp
  ultimately show ?thesis using True by (simp add: hexPrefixEncode_def hp_def Let_def)
next
  case False
  then show ?thesis using hp_loop_pairs [OF assms] assms
    by (simp add: hexPrefixEncode_def hp_def Let_def min_absorb2 even_iff_mod_2_eq_zero)
qed

lemma hexPrefixEncode_all: "b \<le> length h \<Longrightarrow> hexPrefixEncode h leaf b (- 1) = hp leaf (drop b h)"
  using hexPrefixEncode_hp [of b "length h" h leaf] by (simp add: hexPrefixEncode_def)

lemma nibble_pair: "unat (p * 16 + q) = unat p * 16 + unat q" if "p < 16" "q < 16" for p q :: byte
proof -
  have b: "unat p < 16" "unat q < 16" using that by (simp_all add: word_less_nat_alt)
  have "p * 16 + q = of_nat (unat p * 16 + unat q)" by simp
  also have "unat \<dots> = unat p * 16 + unat q" using b by (intro unat_of_nat_small) simp
  finally show ?thesis .
qed

lemma nibble_pair_inj:
  assumes "p < 16" "q < 16" "u < 16" "v < 16" "p * 16 + q = u * 16 + (v :: byte)"
  shows "p = u \<and> q = v"
proof -
  have eq: "unat p * 16 + unat q = unat u * 16 + unat v"
    using assms(5) unfolding nibble_pair [OF assms(1,2), symmetric] nibble_pair [OF assms(3,4), symmetric] by simp
  have "unat q < 16" "unat v < 16" using assms(2,4) by (simp_all add: word_less_nat_alt)
  with eq have "unat p = unat u" by linarith
  with eq have "unat p = unat u" "unat q = unat v" by simp_all
  then show ?thesis by (simp add: word_unat_eq_iff)
qed

lemma pairs_inj:
  "pairs a = pairs b \<Longrightarrow> even (length a) \<Longrightarrow> even (length b) \<Longrightarrow> nibbles a \<Longrightarrow> nibbles b \<Longrightarrow> a = b"
proof (induction a arbitrary: b rule: pairs.induct)
  case (1 x y a)
  show ?case
  proof (cases b rule: pairs.cases)
    case b: (1 u v b')
    then show ?thesis using "1.IH" [of b'] "1.prems" nibble_pair_inj [of x y u v] by simp
  qed (use "1.prems" in auto)
next
  case "2_1"
  then show ?case by (cases b rule: pairs.cases) auto
qed simp

lemma hp_inj:
  assumes "hp l a = hp l' b" "nibbles a" "nibbles b"
  shows "l = l' \<and> a = b"
proof -
  define f where "f l d = ((if l then 2 else 0) + (if d then 1 else 0) :: byte)" for l d :: bool
  define low where "low ns = (if odd (length ns) then hd ns else 0 :: byte)" for ns :: bytes
  have hd: "hd (hp l ns) = f l (odd (length ns)) * 16 + low ns" "tl (hp l ns) = pairs (if odd (length ns) then tl ns else ns)" for l ns
    by (simp_all add: hp_def f_def low_def)
  have low: "nibbles ns \<Longrightarrow> low ns < 16" for ns by (cases ns) (simp_all add: low_def)
  have nib: "nibbles ns \<Longrightarrow> nibbles (if odd (length ns) then tl ns else ns)" for ns :: bytes by (cases ns) simp_all
  have ev: "even (length (if odd (length ns) then tl ns else ns))" for ns :: bytes by (cases ns) simp_all
  have f: "f l d < 16" for l d by (simp add: f_def)
  have "f l (odd (length a)) = f l' (odd (length b)) \<and> low a = low b"
    by (rule nibble_pair_inj [OF f low [OF assms(2)] f low [OF assms(3)]]) (use hd(1) [of l a] hd(1) [of l' b] assms(1) in simp)
  then have e: "l = l'" "odd (length a) = odd (length b)" "low a = low b" by (auto simp: f_def split: if_splits)
  have "pairs (if odd (length a) then tl a else a) = pairs (if odd (length b) then tl b else b)"
    using hd(2) [of l a] hd(2) [of l' b] assms(1) by simp
  then have "(if odd (length a) then tl a else a) = (if odd (length b) then tl b else b)"
    by (rule pairs_inj) (use nib [OF assms(2)] nib [OF assms(3)] ev in blast)+
  then have "a = b" using e(2,3) by (cases "odd (length a)"; cases a; cases b) (simp_all add: low_def)
  then show ?thesis using e by simp
qed


subsection \<open>Nodes\<close>

definition child :: "(bytes \<Rightarrow> bytes) \<Rightarrow> rlp_item \<Rightarrow> rlp_item" where
  "child H it = (if length (rlp_enc it) < 32 then it else RStr (H (rlp_enc it)))"

definition cut_keys :: "nat \<Rightarrow> hex_map \<Rightarrow> hex_map" where
  "cut_keys n xs = map (\<lambda>(k, v). (drop n k, v)) xs"

definition nibble_group :: "nat \<Rightarrow> hex_map \<Rightarrow> hex_map" where
  "nibble_group i xs = cut_keys 1 (filter (\<lambda>(k, v). k \<noteq> [] \<and> unat (hd k) = i) xs)"

definition lcps :: "bytes \<Rightarrow> hex_map \<Rightarrow> nat" where
  "lcps k rest = foldr (\<lambda>p m. min (commonPrefix k (fst p)) m) rest (length k)"

lemma lcps_le: "lcps k rest \<le> length k" "p \<in> set rest \<Longrightarrow> lcps k rest \<le> commonPrefix k (fst p)"
  by (induction rest) (auto simp: lcps_def min.coboundedI2)

definition key_sum :: "hex_map \<Rightarrow> nat" where
  "key_sum xs = sum_list (map (\<lambda>p. length (fst p)) xs)"

lemma key_sum_cut: "key_sum (cut_keys n xs) = room n xs"
  by (induction xs) (auto simp: key_sum_def cut_keys_def room_def)

lemma room_0: "room 0 xs = key_sum xs"
  by (simp add: room_def key_sum_def)

lemma key_sum_filter: "key_sum (filter P xs) \<le> key_sum xs"
  by (induction xs) (auto simp: key_sum_def)

lemma key_sum_cut_less: "p \<in> set xs \<Longrightarrow> fst p \<noteq> [] \<Longrightarrow> 0 < n \<Longrightarrow> key_sum (cut_keys n xs) < key_sum xs"
  using room_less [of p xs 0 n] by (simp add: key_sum_cut room_0)

lemma key_sum_group: "nibble_group i xs \<noteq> [] \<Longrightarrow> key_sum (nibble_group i xs) < key_sum xs"
proof -
  let ?f = "filter (\<lambda>(k, v). k \<noteq> [] \<and> unat (hd k) = i) xs"
  assume "nibble_group i xs \<noteq> []"
  then obtain p where "p \<in> set ?f" by (cases ?f) (auto simp: nibble_group_def cut_keys_def)
  then have "key_sum (nibble_group i xs) < key_sum ?f" unfolding nibble_group_def by (intro key_sum_cut_less [of p]) auto
  then show ?thesis using key_sum_filter [of _ xs] by (rule order.strict_trans2)
qed

function node :: "(bytes \<Rightarrow> bytes) \<Rightarrow> hex_map \<Rightarrow> rlp_item" where
  "node H xs =
     (case xs of
        [] \<Rightarrow> RStr []
      | (k, v) # rest \<Rightarrow>
          if rest = [] then RList [RStr (hp True k), RStr v]
          else if 0 < lcps k rest then RList [RStr (hp False (take (lcps k rest) k)), child H (node H (cut_keys (lcps k rest) xs))]
          else RList (map (\<lambda>i. if nibble_group i xs = [] then RStr [] else child H (node H (nibble_group i xs))) [0..<16] @ [RStr (if k = [] then v else [])]))"
  by pat_completeness auto
termination
proof (relation "measure (\<lambda>(H, xs). key_sum xs)")
  fix H :: "bytes \<Rightarrow> bytes" and xs x rest and k v :: bytes
  assume a: "xs = x # rest" "(k, v) = x" "0 < lcps k rest"
  have "k \<noteq> []" using a(3) lcps_le(1) [of k rest] by auto
  then have "key_sum (cut_keys (lcps k rest) xs) < key_sum xs"
    using a(1,3) unfolding a(2) [symmetric] by (intro key_sum_cut_less [of "(k, v)"]) auto
  then show "((H, cut_keys (lcps k rest) xs), H, xs) \<in> measure (\<lambda>(H, xs). key_sum xs)" by simp
next
  fix H :: "bytes \<Rightarrow> bytes" and xs :: hex_map and i
  assume "nibble_group i xs \<noteq> []"
  then show "((H, nibble_group i xs), H, xs) \<in> measure (\<lambda>(H, xs). key_sum xs)" using key_sum_group by simp
qed simp

declare node.simps [simp del]

lemma node_simps:
  "node H [] = RStr []"
  "node H [(k, v)] = RList [RStr (hp True k), RStr v]"
  "rest \<noteq> [] \<Longrightarrow> 0 < lcps k rest \<Longrightarrow> node H ((k, v) # rest) =
     RList [RStr (hp False (take (lcps k rest) k)), child H (node H (cut_keys (lcps k rest) ((k, v) # rest)))]"
  "rest \<noteq> [] \<Longrightarrow> lcps k rest = 0 \<Longrightarrow> node H ((k, v) # rest) =
     RList (map (\<lambda>i. if nibble_group i ((k, v) # rest) = [] then RStr [] else child H (node H (nibble_group i ((k, v) # rest)))) [0..<16] @
       [RStr (if k = [] then v else [])])"
  by (subst node.simps, simp)+

subsection \<open>Sizes\<close>

lemma enc_list_length:
  assumes "sum_list (map (\<lambda>x. length (rlp_enc x)) xs) < 2 ^ 61"
  shows "length (rlp_enc (RList xs)) \<le> 9 + sum_list (map (\<lambda>x. length (rlp_enc x)) xs)"
proof -
  have "length (concat (map rlp_enc xs)) = sum_list (map (\<lambda>x. length (rlp_enc x)) xs)" by (induction xs) simp_all
  then show ?thesis using assms length_enc_hdr [of "length (concat (map rlp_enc xs))" 192] by (simp add: rlp_enc.simps(2) Let_def)
qed

lemma enc_str_length: "length b < 2 ^ 61 \<Longrightarrow> length (rlp_enc (RStr b)) \<le> 9 + length b"
  using length_enc_hdr [of "length b" 128] by (auto simp: enc_bytes_def)

lemma child_length: "(\<And>b. length (H b) = 32) \<Longrightarrow> length (rlp_enc (child H it)) \<le> 41"
  using enc_str_length [of "H (rlp_enc it)"] by (simp add: child_def)

lemma length_pairs: "length (pairs ns) \<le> length ns"
  by (induction ns rule: pairs.induct) auto

lemma length_hp: "length (hp l ns) \<le> 1 + length ns"
  using length_pairs [of ns] length_pairs [of "tl ns"] by (auto simp: hp_def)

lemma sum_list_bound: "(\<And>x. x \<in> set xs \<Longrightarrow> f x \<le> (c :: nat)) \<Longrightarrow> sum_list (map f xs) \<le> length xs * c"
  by (induction xs) (simp_all add: add_mono)

definition small :: "hex_map \<Rightarrow> bool" where
  "small xs \<longleftrightarrow> (\<forall>(k, v) \<in> set xs. length k < 2 ^ 32 - 1 \<and> length v < 2 ^ 59)"

lemma node_fits:
  assumes H: "\<And>b. length (H b) = 32" and xs: "small xs"
  shows "rlp_fits (node H xs)"
proof (cases xs)
  case Nil
  then show ?thesis by (simp add: node_simps rlp_fits_def rlp_max_def enc_bytes_def enc_hdr_def)
next
  case (Cons p rest)
  obtain k v where p: "p = (k, v)" by fastforce
  have kv: "length k < 2 ^ 32" "length v < 2 ^ 59" using xs by (auto simp: small_def Cons p)
  have str: "length (rlp_enc (RStr b)) \<le> 9 + length b" if "length b \<le> 2 ^ 59" for b using that by (intro enc_str_length) simp
  have ch: "length (rlp_enc (child H it)) \<le> 41" for it by (rule child_length) (rule H)
  have hpk: "length (hp l (take n k)) \<le> 2 ^ 59" "length (hp l k) \<le> 2 ^ 59" for l n
    using length_hp [of l "take n k"] length_hp [of l k] kv(1) by simp_all
  consider "rest = []" | "rest \<noteq> []" "0 < lcps k rest" | "rest \<noteq> []" "lcps k rest = 0" by blast
  then show ?thesis
  proof cases
    case 1
    have "length (rlp_enc (RList [RStr (hp True k), RStr v])) \<le> 9 + (9 + length (hp True k) + (9 + length v))"
      using enc_list_length [of "[RStr (hp True k), RStr v]"] str [OF hpk(2), of True] str [of v] length_hp [of True k] kv by simp
    then show ?thesis using length_hp [of True k] kv 1 by (simp add: Cons p node_simps rlp_fits_def rlp_max_def)
  next
    case 2
    let ?h = "hp False (take (lcps k rest) k)" and ?c = "child H (node H (cut_keys (lcps k rest) xs))"
    have "length ?h \<le> 1 + length k" using length_hp [of False "take (lcps k rest) k"] by simp
    then have "length (rlp_enc (RList [RStr ?h, ?c])) \<le> 9 + (9 + (1 + length k) + 41)"
      using enc_list_length [of "[RStr ?h, ?c]"] str [OF hpk(1), of False "lcps k rest"] ch [of "node H (cut_keys (lcps k rest) xs)"] kv
      by simp
    then show ?thesis using kv 2 by (simp add: Cons p node_simps rlp_fits_def rlp_max_def)
  next
    case 3
    let ?b = "map (\<lambda>i. if nibble_group i xs = [] then RStr [] else child H (node H (nibble_group i xs))) [0..<16]" and ?w = "RStr (if k = [] then v else [])"
    have "length (rlp_enc x) \<le> 41" if "x \<in> set ?b" for x using that ch str [of "[]"] by (auto split: if_splits)
    then have "sum_list (map (\<lambda>x. length (rlp_enc x)) ?b) \<le> length ?b * 41" by (rule sum_list_bound)
    then have "sum_list (map (\<lambda>x. length (rlp_enc x)) ?b) \<le> 16 * 41" by (simp only: length_map length_upt diff_zero)
    moreover have "length (rlp_enc ?w) \<le> 9 + length v" using str [of v] str [of "[]"] kv by auto
    ultimately have "length (rlp_enc (RList (?b @ [?w]))) \<le> 9 + (16 * 41 + (9 + length v))"
      using enc_list_length [of "?b @ [?w]"] kv by simp
    moreover have "node H xs = RList (?b @ [?w])" using node_simps(4) [OF 3] by (simp only: Cons p)
    ultimately show ?thesis using kv by (simp only: rlp_fits_def rlp_max_def) simp
  qed
qed

end
