(* ===== verification/Trie_Refine.thy ===== *)
theory Trie_Refine
  imports Trie_Nodes
begin

section \<open>The code writes the nodes\<close>

text \<open>
  \<open>hash256rlp\<close> on a range whose keys share the first \<open>_preLen\<close> nibbles writes the node of the map with these nibbles cut off, and reads no key past its end.
\<close>

subsection \<open>Keys with a common beginning\<close>

definition under :: "bytes \<Rightarrow> hex_map \<Rightarrow> hex_map" where
  "under c xs = map (\<lambda>(k, v). (c @ k, v)) xs"

lemma under_simps [simp]: "under c [] = []" "under c ((k, v) # xs) = (c @ k, v) # under c xs" "under c xs = [] \<longleftrightarrow> xs = []"
    "length (under c xs) = length xs" "under c (take n xs) = take n (under c xs)" "under c (drop n xs) = drop n (under c xs)"
  by (auto simp: under_def take_map drop_map)

lemma commonPrefix_le: "commonPrefix a b \<le> length a" "commonPrefix a b \<le> length b"
  by (induction a b rule: commonPrefix.induct) auto

lemma take_commonPrefix: "n \<le> commonPrefix a b \<Longrightarrow> take n a = take n b"
proof (induction a b arbitrary: n rule: commonPrefix.induct)
  case (1 x xs y ys)
  then show ?case by (cases n) (auto split: if_splits)
qed auto

lemma shared_loop_under:
  assumes "length c \<le> x" "x \<le> length (c @ k)" "x \<le> length (c @ l)"
  shows "shared_loop (c @ k) (c @ l) x (length c) = min x (length c + commonPrefix k l)"
  using assms
proof (induction k l arbitrary: c rule: commonPrefix.induct)
  case (1 a k b l)
  show ?case
  proof (cases "length c < x \<and> a = b")
    case True
    have "shared_loop ((c @ [a]) @ k) ((c @ [a]) @ l) x (length (c @ [a])) = min x (length (c @ [a]) + commonPrefix k l)"
      using True "1.prems" by (intro "1.IH") auto
    then show ?thesis using True by (subst shared_loop.simps) simp
  next
    case False
    then show ?thesis using "1.prems"(1) by (subst shared_loop.simps) auto
  qed
qed (subst shared_loop.simps, simp)+

lemma sharedPre_under:
  assumes "length c \<le> sp" "length (c @ k) < 2 ^ 32" "\<forall>p \<in> set rest. length (c @ fst p) < 2 ^ 32"
  shows "sharedPre (c @ k) (under c rest) (length c) sp = foldr (\<lambda>p m. min (length c + commonPrefix k (fst p)) m) rest sp"
  using assms(1,3)
proof (induction rest arbitrary: sp)
  case (Cons p rest)
  obtain l v where p: "p = (l, v)" by fastforce
  let ?g = "\<lambda>sp. foldr (\<lambda>p m. min (length c + commonPrefix k (fst p)) m) rest sp"
  have g: "?g (min a sp) = min a (?g sp)" for a sp by (induction rest) (simp_all add: min.left_commute)
  show ?case
  proof (cases "sp = 0")
    case True
    have "?g 0 = 0" by (induction rest) simp_all
    then show ?thesis using True by (simp add: p)
  next
    case False
    let ?x = "shared_bound (c @ k) (c @ l) sp"
    have x: "?x = min sp (min (length (c @ k)) (length (c @ l)))" using assms(2) Cons.prems(2) by (simp add: shared_bound_def p)
    have "shared_loop (c @ k) (c @ l) ?x (length c) = min ?x (length c + commonPrefix k l)"
      using Cons.prems(1) x by (intro shared_loop_under) auto
    then have "min (shared_loop (c @ k) (c @ l) ?x (length c)) sp = min (length c + commonPrefix k l) sp"
      using x commonPrefix_le [of k l] by (auto simp: min_def)
    then show ?thesis using False Cons g by (simp add: p)
  qed
qed simp

lemma sharedPre_lcps:
  assumes "rest \<noteq> []" "length (c @ k) < 2 ^ 32 - 1" "\<forall>p \<in> set rest. length (c @ fst p) < 2 ^ 32"
  shows "sharedPre (c @ k) (under c rest) (length c) (2 ^ 32 - 1) = length c + lcps k rest"
proof -
  let ?g = "foldr (\<lambda>p m. min (length c + commonPrefix k (fst p)) m)"
  have "min (length c + length k) (?g rest (2 ^ 32 - 1)) = length c + lcps k rest"
    using assms(2) by (induction rest) (auto simp: lcps_def)
  moreover have "?g rest (2 ^ 32 - 1) \<le> length c + length k"
  proof -
    obtain p ys where "rest = p # ys" using assms(1) by (cases rest) auto
    then show ?thesis using commonPrefix_le(1) [of k "fst p"] by (simp add: min.coboundedI1)
  qed
  moreover have "sharedPre (c @ k) (under c rest) (length c) (2 ^ 32 - 1) = ?g rest (2 ^ 32 - 1)"
    using assms(2,3) by (intro sharedPre_under) auto
  ultimately show ?thesis by simp
qed

subsection \<open>The sixteen ranges\<close>

lemma count_nibble_under:
  assumes "\<forall>p \<in> set ys. fst p \<noteq> []"
  shows "count_nibble i (length c) (under c ys) = Inr (length (takeWhile (\<lambda>p. unat (hd (fst p)) = i) ys))"
  using assms
proof (induction ys)
  case (Cons p ys)
  obtain a k v where p: "p = (a # k, v)" using Cons.prems by (cases p; cases "fst p") auto
  then show ?case using Cons by simp
qed simp

definition starts :: "nat \<Rightarrow> bytes \<times> bytes \<Rightarrow> bool" where
  "starts j p \<longleftrightarrow> fst p \<noteq> [] \<and> unat (hd (fst p)) = j"

lemma takeWhile_starts:
  assumes "\<forall>p \<in> set ys. fst p \<noteq> [] \<and> i \<le> unat (hd (fst p))" "sorted_wrt (\<lambda>p q. unat (hd (fst p)) \<le> unat (hd (fst q))) ys"
  shows "takeWhile (\<lambda>p. unat (hd (fst p)) = i) ys = filter (starts i) ys"
    and "dropWhile (\<lambda>p. unat (hd (fst p)) = i) ys = filter (\<lambda>p. \<not> starts i p) ys"
  using assms
proof (induction ys)
  case (Cons p ys)
  {
    case 1
    show ?case
    proof (cases "unat (hd (fst p)) = i")
      case False
      then have "\<forall>q \<in> set (p # ys). \<not> starts i q" using 1 by (auto simp: starts_def)
      then have "filter (starts i) (p # ys) = []" by (simp add: filter_empty_conv)
      then show ?thesis using False by simp
    qed (use 1 Cons in \<open>simp add: starts_def\<close>)
  next
    case 2
    show ?case
    proof (cases "unat (hd (fst p)) = i")
      case False
      then have "\<forall>q \<in> set (p # ys). \<not> starts i q" using 2 by (auto simp: starts_def)
      then have "filter (\<lambda>p. \<not> starts i p) (p # ys) = p # ys" by (simp add: filter_id_conv)
      then show ?thesis using False by simp
    qed (use 2 Cons in \<open>simp add: starts_def\<close>)
  }
qed simp_all

lemma children_under:
  assumes "\<forall>p \<in> set ys. fst p \<noteq> [] \<and> i \<le> unat (hd (fst p))" "sorted_wrt (\<lambda>p q. unat (hd (fst p)) \<le> unat (hd (fst q))) ys"
  shows "children [i..<16] (length c) (under c ys) = Inr (map (\<lambda>j. under c (filter (starts j) ys)) [i..<16])"
  using assms
proof (induction "16 - i" arbitrary: i ys)
  case 0
  then show ?case by simp
next
  case (Suc n)
  let ?t = "takeWhile (\<lambda>p. unat (hd (fst p)) = i) ys" and ?d = "dropWhile (\<lambda>p. unat (hd (fst p)) = i) ys"
  have upt: "[i..<16] = i # [Suc i..<16]" using Suc.hyps(2) by (simp add: upt_conv_Cons)
  note tw = takeWhile_starts [OF Suc.prems]
  have d: "\<forall>p \<in> set ?d. fst p \<noteq> [] \<and> Suc i \<le> unat (hd (fst p))"
    unfolding tw(2) using Suc.prems(1) by (auto simp: starts_def le_eq_less_or_eq Suc_le_eq)
  have "children [Suc i..<16] (length c) (under c ?d) = Inr (map (\<lambda>j. under c (filter (starts j) ?d)) [Suc i..<16])"
    using Suc.hyps(2) d Suc.prems(2) by (intro Suc.hyps(1)) (simp_all add: tw(2) sorted_wrt_filter)
  moreover have "filter (starts j) ?d = filter (starts j) ys" if "j \<in> set [Suc i..<16]" for j
    unfolding tw(2) using that by (auto simp: starts_def intro: filter_cong)
  then have "map (\<lambda>j. under c (filter (starts j) ?d)) [Suc i..<16] = map (\<lambda>j. under c (filter (starts j) ys)) [Suc i..<16]"
    by (intro map_cong) simp_all
  moreover have "drop (length ?t) (under c ys) = under c ?d" "take (length ?t) (under c ys) = under c ?t"
    by (simp_all flip: under_simps(5,6) add: dropWhile_eq_drop takeWhile_eq_take [symmetric])
  moreover have "count_nibble i (length c) (under c ys) = Inr (length ?t)" using Suc.prems(1) by (intro count_nibble_under) blast
  ultimately show ?case unfolding upt using tw(1) by simp
qed


subsection \<open>The refinement\<close>

lemma append_less_append: "c @ a < c @ b \<longleftrightarrow> a < (b :: bytes)"
  by (induction c) simp_all

lemma hash256aux_emit:
  assumes "rlp_fits it"
  shows "hash256aux H (emit it RLPStream) s = emit (child H it) s"
proof -
  have "hash256aux H (emit it RLPStream) s =
      ebind (ebind (emit it RLPStream) stream_out) (\<lambda>out. if length out < 32 then appendRaw out 1 s else append_bytes False (H out) s)"
    by (simp add: hash256aux_def ebind_assoc)
  also have "\<dots> = emit (child H it) s"
    unfolding emit_out [OF assms] using assms by (simp add: child_def emit_enc rlp_fits_def rlp_max_def)
  finally show ?thesis .
qed

lemma append_children_emits:
  assumes "\<And>i. i \<in> set is \<Longrightarrow> f i \<noteq> None \<Longrightarrow> f i = Some (emit (it i) RLPStream) \<and> rlp_fits (it i)"
  shows "append_children H (map f is) s = emits (map (\<lambda>i. if f i = None then RStr [] else child H (it i)) is) s"
  using assms
proof (induction "is" arbitrary: s)
  case (Cons i "is")
  have "(case f i of None \<Rightarrow> append_bytes False [] s | Some r \<Rightarrow> hash256aux H r s) = emit (if f i = None then RStr [] else child H (it i)) s"
    using Cons.prems [of i] by (cases "f i") (auto simp: hash256aux_emit)
  moreover have "append_children H (map f is) = emits (map (\<lambda>i. if f i = None then RStr [] else child H (it i)) is)"
    using Cons by (intro ext) simp
  ultimately show ?case by simp
qed simp

lemma emit_list: "emit (RList xs) s = ebind (appendList (length xs) s) (emits xs)"
  by simp

definition keys_ok :: "hex_map \<Rightarrow> bool" where
  "keys_ok xs \<longleftrightarrow> om_ok xs \<and> (\<forall>p \<in> set xs. nibbles (fst p))"

lemma fst_cut_keys: "map fst (cut_keys n xs) = map (drop n) (map fst xs)"
  by (induction xs) (auto simp: cut_keys_def)

lemma under_cut:
  assumes "\<forall>p \<in> set xs. \<exists>w. fst p = c @ w"
  shows "under c (cut_keys (length c) xs) = xs"
  using assms by (induction xs) (auto simp: cut_keys_def under_def)

lemma under_under: "under c (under d xs) = under (c @ d) xs"
  by (induction xs) (auto simp: under_def)

lemma keys_ok_cut:
  assumes "keys_ok xs" "\<forall>p \<in> set xs. \<exists>w. fst p = c @ w"
  shows "keys_ok (cut_keys (length c) xs)"
proof -
  let ?ys = "cut_keys (length c) xs"
  have "om_ok (under c ?ys)" using assms under_cut by (simp add: keys_ok_def)
  moreover have "map fst (under c ?ys) = map (append c) (map fst ?ys)" by (induction ?ys) (auto simp: under_def)
  ultimately have "om_ok ?ys" by (simp add: sorted_wrt_map append_less_append del: map_map)
  moreover have "\<forall>p \<in> set ?ys. nibbles (fst p)" using assms(1) by (auto simp: keys_ok_def cut_keys_def dest!: bspec in_set_dropD)
  ultimately show ?thesis by (simp add: keys_ok_def)
qed

lemma lcps_prefix: "p \<in> set ((k, v) # rest) \<Longrightarrow> \<exists>w. fst p = take (lcps k rest) k @ w"
  using lcps_le(2) [of p rest k] take_commonPrefix [of "lcps k rest" k "fst p"] append_take_drop_id
  by (metis fst_conv set_ConsD)

lemma keys_ok_filter: "keys_ok xs \<Longrightarrow> keys_ok (filter P xs)"
  by (auto simp: keys_ok_def)

lemma nibble_group_starts: "nibble_group i xs = cut_keys 1 (filter (starts i) xs)"
proof -
  have "filter (\<lambda>(k, v). k \<noteq> [] \<and> unat (hd k) = i) xs = filter (starts i) xs" by (rule filter_cong) (auto simp: starts_def)
  then show ?thesis by (simp add: nibble_group_def)
qed

lemma starts_prefix: "\<forall>p \<in> set (filter (starts i) xs). \<exists>w. fst p = [of_nat i] @ w"
proof
  fix p assume "p \<in> set (filter (starts i) xs)"
  then have "fst p \<noteq> []" "unat (hd (fst p)) = i" by (simp_all add: starts_def)
  then have "fst p = [of_nat i] @ tl (fst p)" by (cases "fst p") auto
  then show "\<exists>w. fst p = [of_nat i] @ w" by blast
qed

lemma keys_ok_group: "keys_ok xs \<Longrightarrow> keys_ok (nibble_group i xs)"
  using keys_ok_cut [OF keys_ok_filter starts_prefix, of xs i] by (simp add: nibble_group_starts)

lemma under_group: "under c (filter (starts i) xs) = under (c @ [of_nat i]) (nibble_group i xs)"
  using under_cut [OF starts_prefix, of i xs] by (simp add: nibble_group_starts flip: under_under)

lemma small_sub: "small xs \<Longrightarrow> set ys \<subseteq> set xs \<Longrightarrow> small ys"
  by (auto simp: small_def)

lemma small_under: "small (under c xs) \<Longrightarrow> small xs"
  by (auto simp: small_def under_def)

lemma sorted_heads:
  assumes "keys_ok ys" "\<forall>p \<in> set ys. fst p \<noteq> []"
  shows "sorted_wrt (\<lambda>p q. unat (hd (fst p)) \<le> unat (hd (fst q))) ys"
proof -
  have "sorted_wrt (\<lambda>p q. fst p < fst q) ys" using assms(1) by (simp add: keys_ok_def sorted_wrt_map)
  then show ?thesis
  proof (rule sorted_wrt_mono_rel [rotated])
    fix p q assume "p \<in> set ys" "q \<in> set ys" "fst p < fst q"
    then show "unat (hd (fst p)) \<le> unat (hd (fst q))" using assms(2) by (cases "fst p"; cases "fst q") (auto simp: word_le_nat_alt [symmetric] dest: less_imp_le)
  qed
qed


lemma branch_children:
  assumes ok: "keys_ok ys" and ys: "ys = (k, v) # rest"
  shows "children [0..<16] (length c) (if length c = length (c @ k) then tl (under c ys) else under c ys) =
    Inr (map (\<lambda>j. under (c @ [of_nat j]) (nibble_group j ys)) [0..<16])"
proof -
  define zs where "zs = (if k = [] then rest else ys)"
  have ne: "\<forall>p \<in> set zs. fst p \<noteq> []"
  proof
    fix p assume p: "p \<in> set zs"
    have "k < fst q" if "q \<in> set rest" for q using ok that by (auto simp: keys_ok_def ys)
    from this [of p] show "fst p \<noteq> []" using p by (cases "k = []") (auto simp: zs_def ys)
  qed
  have "keys_ok zs" using ok by (auto simp: zs_def keys_ok_def ys)
  then have "children [0..<16] (length c) (under c zs) = Inr (map (\<lambda>j. under c (filter (starts j) zs)) [0..<16])"
    using ne sorted_heads by (intro children_under) auto
  moreover have "(if length c = length (c @ k) then tl (under c ys) else under c ys) = under c zs" by (simp add: zs_def ys)
  moreover have "filter (starts j) zs = filter (starts j) ys" for j by (simp add: zs_def ys starts_def)
  ultimately show ?thesis by (simp only: under_group)
qed

lemma hash256rlp_node:
  assumes H: "\<And>b. length (H b) = 32" and "keys_ok ys" "small (under c ys)"
  shows "hash256rlp H (under c ys) (length c) s = emit (node H ys) s"
  using assms(2,3)
proof (induction "key_sum ys" arbitrary: ys c s rule: less_induct)
  case less
  have IH: "hash256rlp H (under d zs) (length d) RLPStream = emit (node H zs) RLPStream \<and> rlp_fits (node H zs)"
    if "key_sum zs < key_sum ys" "keys_ok zs" "small (under d zs)" for zs d
    using less.hyps [OF that] node_fits [OF _ small_under [OF that(3)], of H] H by blast
  show ?case
  proof (cases ys)
    case Nil
    then show ?thesis by (simp add: hash256rlp.simps node_simps)
  next
    case (Cons p rest)
    obtain k v where p: "p = (k, v)" by fastforce
    have len: "length (c @ k) < 2 ^ 32 - 1" "\<forall>p \<in> set rest. length (c @ fst p) < 2 ^ 32"
      using less.prems(2) by (fastforce simp: Cons p small_def under_def)+
    consider "rest = []" | "rest \<noteq> []" "0 < lcps k rest" | "rest \<noteq> []" "lcps k rest = 0" by blast
    then show ?thesis
    proof cases
      case 1
      then show ?thesis by (simp add: Cons p hash256rlp.simps node_simps hexPrefixEncode_all numeral_2_eq_2 emits_Cons_fun)
    next
      case 2
      let ?L = "lcps k rest" let ?d = "take ?L k" let ?zs = "cut_keys ?L ys"
      have L: "?L \<le> length k" "length ?d = ?L" using lcps_le(1) [of k rest] by simp_all
      have pre: "\<forall>p \<in> set ys. \<exists>w. fst p = ?d @ w" unfolding Cons p using lcps_prefix [of _ k v rest] by blast
      then have un: "under (c @ ?d) ?zs = under c ys" using under_cut [of ys ?d] L by (simp flip: under_under)
      have "key_sum ?zs < key_sum ys" using 2(2) L by (intro key_sum_cut_less [of "(k, v)"]) (auto simp: Cons p)
      moreover have "keys_ok ?zs" using keys_ok_cut [OF less.prems(1) pre] L by simp
      ultimately have "hash256rlp H (under c ys) (length c + ?L) RLPStream = emit (node H ?zs) RLPStream" "rlp_fits (node H ?zs)"
        using IH [of ?zs "c @ ?d"] less.prems(2) L by (simp_all add: un)
      then have aux: "hash256aux H (hash256rlp H (under c ys) (length c + ?L) RLPStream) = emit (child H (node H ?zs))"
        by (intro ext) (simp add: hash256aux_emit)
      have hpe: "hexPrefixEncode (c @ k) False (length c) (int (length c + ?L)) = hp False ?d"
        using L by (subst hexPrefixEncode_hp) simp_all
      have sp: "sharedPre (c @ k) (under c rest) (length c) (2 ^ 32 - 1) = length c + ?L" by (rule sharedPre_lcps [OF 2(1) len])
      have "hash256rlp H (under c ys) (length c) s = ebind (appendList 2 s) (\<lambda>s. ebind (append_bytes False (hp False ?d) s) (emit (child H (node H ?zs))))"
        using 2 sp aux hpe by (subst hash256rlp.simps) (simp add: Cons p del: of_nat_add)
      then show ?thesis using node_simps(3) [OF 2, of H v] by (simp add: Cons p numeral_2_eq_2 emits_Cons_fun)
    next
      case 3
      let ?g = "\<lambda>i. under (c @ [of_nat i]) (nibble_group i ys)" and ?n = "\<lambda>i. node H (nibble_group i ys)"
      let ?f = "\<lambda>i. if ?g i = [] then None else Some (hash256rlp H (?g i) (length c + 1) RLPStream)"
      let ?w = "if k = [] then v else []"
      have f: "?f i = Some (emit (?n i) RLPStream) \<and> rlp_fits (?n i)" if "?f i \<noteq> None" for i
      proof -
        have ne: "nibble_group i ys \<noteq> []" using that by (auto split: if_splits)
        have "set (?g i) \<subseteq> set (under c ys)" unfolding under_group [symmetric] by (auto simp: under_def)
        then have "small (?g i)" by (rule small_sub [OF less.prems(2)])
        then show ?thesis using IH [OF key_sum_group [OF ne] keys_ok_group [OF less.prems(1)], of "c @ [of_nat i]"] ne by simp
      qed
      have "append_children H (map ?f [0..<16]) = emits (map (\<lambda>i. if ?f i = None then RStr [] else child H (?n i)) [0..<16])"
        using f by (intro ext append_children_emits) blast
      moreover have "map (\<lambda>i. if ?f i = None then RStr [] else child H (?n i)) [0..<16] =
          map (\<lambda>i. if nibble_group i ys = [] then RStr [] else child H (?n i)) [0..<16]" (is "_ = ?b") by (rule map_cong) auto
      ultimately have ch: "append_children H (map ?f [0..<16]) = emits ?b" by (simp only:)
      have sp: "sharedPre (c @ k) (under c rest) (length c) (2 ^ 32 - 1) = length c" using sharedPre_lcps [OF 3(1) len] 3(2) by simp
      have "hash256rlp H (under c ys) (length c) s =
          ebind (appendList 17 s) (\<lambda>s. ebind (append_children H (map ?f [0..<16]) s) (append_bytes False ?w))"
      proof -
        have un: "under c ys = (c @ k, v) # under c rest" by (simp add: Cons p)
        have len': "(length c = length (c @ k)) = (k = [])" by simp
        have ch': "children [0..<16] (length c) (if k = [] then tl ((c @ k, v) # under c rest) else (c @ k, v) # under c rest) =
            Inr (map ?g [0..<16])"
          using branch_children [OF less.prems(1), of k v rest c] Cons unfolding un len' p by (simp only: list.sel)
        have ne: "(under c rest = []) = False" using 3(1) by simp
        have m: "map (\<lambda>g. if g = [] then None else Some (hash256rlp H g (length c + 1) RLPStream)) (map ?g [0..<16]) = map ?f [0..<16]"
          by (simp only: map_map comp_def)
        show ?thesis
          unfolding un by (subst hash256rlp.simps) (simp only: list.case prod.case Let_def sp less_irrefl if_False len' ch' sum.case ne m)
      qed
      also have "\<dots> = ebind (appendList 17 s) (emits (?b @ [RStr ?w]))"
        unfolding ch emits_append by (simp add: emits_Cons_fun)
      also have "\<dots> = emit (RList (?b @ [RStr ?w])) s" by simp
      finally show ?thesis using node_simps(4) [OF 3, of H v] by (simp only: Cons p)
    qed
  qed
qed

end
