(* ===== verification/Memory_DB.thy ===== *)
theory Memory_DB
  imports Prelude
begin

section \<open>Node databases (\<open>libdevcore/MemoryDB\<close>, \<open>OverlayDB\<close>, \<open>LevelDB\<close>)\<close>

text \<open>
  The database of the tries: reference-counted entries in memory (\<open>MemoryDB\<close>) over a persistent store (\<open>OverlayDB\<close>). The
  hash tables are maps. The persistent store is a map as well, from a key to a value; whether LevelDB accepts the write of a
  batch is an argument. Its reads are taken not to fail. The locale \<open>node_store\<close> is what the trie code relies on.
\<close>

subsection \<open>\<open>MemoryDB\<close>\<close>

record MemoryDB =
  m_main :: "bytes \<rightharpoonup> bytes \<times> 32 word"
  m_aux :: "bytes \<rightharpoonup> bytes \<times> bool"
  m_enforceRefs :: bool

definition MemoryDB_empty :: MemoryDB where
  "MemoryDB_empty = \<lparr>m_main = Map.empty, m_aux = Map.empty, m_enforceRefs = False\<rparr>"

definition live :: "'a MemoryDB_scheme \<Rightarrow> bytes \<Rightarrow> (bytes \<times> 32 word) option" where
  "live d h = (case m_main d h of Some (v, c) \<Rightarrow> if \<not> m_enforceRefs d \<or> c > 0 then Some (v, c) else None | None \<Rightarrow> None)"

definition MemoryDB_get :: "'a MemoryDB_scheme \<Rightarrow> bytes \<rightharpoonup> bytes" where
  "MemoryDB_get d h = map_option fst (live d h)"

definition MemoryDB_lookup :: "'a MemoryDB_scheme \<Rightarrow> bytes \<Rightarrow> bytes" where
  "MemoryDB_lookup d h = (case live d h of Some (v, c) \<Rightarrow> v | None \<Rightarrow> [])"

definition MemoryDB_exists :: "'a MemoryDB_scheme \<Rightarrow> bytes \<Rightarrow> bool" where
  "MemoryDB_exists d h \<longleftrightarrow> live d h \<noteq> None"

definition MemoryDB_insert :: "bytes \<Rightarrow> bytes \<Rightarrow> 'a MemoryDB_scheme \<Rightarrow> 'a MemoryDB_scheme" where
  "MemoryDB_insert h v d =
     d\<lparr>m_main := (m_main d)(h \<mapsto> (case m_main d h of Some (_, c) \<Rightarrow> (v, c + 1) | None \<Rightarrow> (v, 1)))\<rparr>"

text \<open>The answer of \<open>kill\<close> is whether there was a reference to take away.\<close>

definition MemoryDB_kill :: "bytes \<Rightarrow> 'a MemoryDB_scheme \<Rightarrow> bool \<times> 'a MemoryDB_scheme" where
  "MemoryDB_kill h d =
     (case m_main d h of
        Some (v, c) \<Rightarrow> if c > 0 then (True, d\<lparr>m_main := (m_main d)(h \<mapsto> (v, c - 1))\<rparr>) else (False, d)
      | None \<Rightarrow> (False, d))"

definition MemoryDB_lookupAux :: "'a MemoryDB_scheme \<Rightarrow> bytes \<Rightarrow> bytes" where
  "MemoryDB_lookupAux d h =
     (case m_aux d h of Some (v, b) \<Rightarrow> if \<not> m_enforceRefs d \<or> b then v else [] | None \<Rightarrow> [])"

definition removeAux :: "bytes \<Rightarrow> 'a MemoryDB_scheme \<Rightarrow> 'a MemoryDB_scheme" where
  "removeAux h d = d\<lparr>m_aux := (m_aux d)(h \<mapsto> (case m_aux d h of Some (v, _) \<Rightarrow> (v, False) | None \<Rightarrow> ([], False)))\<rparr>"

definition insertAux :: "bytes \<Rightarrow> bytes \<Rightarrow> 'a MemoryDB_scheme \<Rightarrow> 'a MemoryDB_scheme" where
  "insertAux h v d = d\<lparr>m_aux := (m_aux d)(h \<mapsto> (v, True))\<rparr>"

definition purge :: "'a MemoryDB_scheme \<Rightarrow> 'a MemoryDB_scheme" where
  "purge d =
     d\<lparr>m_main := (\<lambda>h. case m_main d h of Some (v, c) \<Rightarrow> if c \<noteq> 0 then Some (v, c) else None | None \<Rightarrow> None),
       m_aux := (\<lambda>h. case m_aux d h of Some (v, b) \<Rightarrow> if b then Some (v, b) else None | None \<Rightarrow> None)\<rparr>"

definition MemoryDB_keys :: "'a MemoryDB_scheme \<Rightarrow> bytes \<Rightarrow> bool" where
  "MemoryDB_keys d h \<longleftrightarrow> (case m_main d h of Some (_, c) \<Rightarrow> c \<noteq> 0 | None \<Rightarrow> False)"

definition MemoryDB_clear :: "'a MemoryDB_scheme \<Rightarrow> 'a MemoryDB_scheme" where
  "MemoryDB_clear d = d\<lparr>m_main := Map.empty, m_aux := Map.empty\<rparr>"

text \<open>The assignment copies the two tables and keeps the flag of the target.\<close>

definition MemoryDB_assign :: "'a MemoryDB_scheme \<Rightarrow> 'b MemoryDB_scheme \<Rightarrow> 'a MemoryDB_scheme" where
  "MemoryDB_assign d c = d\<lparr>m_main := m_main c, m_aux := m_aux c\<rparr>"

subsection \<open>LevelDB\<close>

type_synonym disk = "bytes \<rightharpoonup> bytes"

definition LevelDB_lookup :: "disk \<Rightarrow> bytes \<Rightarrow> bytes" where
  "LevelDB_lookup m k = (case m k of Some v \<Rightarrow> v | None \<Rightarrow> [])"

definition LevelDB_exists :: "disk \<Rightarrow> bytes \<Rightarrow> bool" where
  "LevelDB_exists m k \<longleftrightarrow> m k \<noteq> None"

text \<open>\<open>LevelDB::commit\<close>: the batch as the map of what it puts, \<open>None\<close> the null pointer; \<open>st\<close> is whether LevelDB's write is fine. The answer \<open>None\<close> is \<open>DatabaseError\<close>.\<close>

definition LevelDB_commit :: "bool \<Rightarrow> disk option \<Rightarrow> disk \<Rightarrow> disk option" where
  "LevelDB_commit st batch m =
     (case batch of
        None \<Rightarrow> None
      | Some b \<Rightarrow> if st then Some (m ++ b) else None)"

subsection \<open>\<open>OverlayDB\<close>\<close>

record OverlayDB = MemoryDB +
  m_db :: "disk option"

definition OverlayDB_lookup :: "OverlayDB \<Rightarrow> bytes \<Rightarrow> bytes" where
  "OverlayDB_lookup d h =
     (let ret = MemoryDB_lookup d h in
      case m_db d of
        None \<Rightarrow> ret
      | Some m \<Rightarrow> if ret \<noteq> [] then ret else LevelDB_lookup m h)"

definition OverlayDB_exists :: "OverlayDB \<Rightarrow> bytes \<Rightarrow> bool" where
  "OverlayDB_exists d h \<longleftrightarrow> MemoryDB_exists d h \<or> (case m_db d of None \<Rightarrow> False | Some m \<Rightarrow> LevelDB_exists m h)"

definition OverlayDB_kill :: "bytes \<Rightarrow> OverlayDB \<Rightarrow> OverlayDB" where
  "OverlayDB_kill h d = snd (MemoryDB_kill h d)"

definition OverlayDB_lookupAux :: "OverlayDB \<Rightarrow> bytes \<Rightarrow> bytes" where
  "OverlayDB_lookupAux d h =
     (let ret = MemoryDB_lookupAux d h in
      case m_db d of
        None \<Rightarrow> ret
      | Some m \<Rightarrow> if ret \<noteq> [] then ret else LevelDB_lookup m (h @ [255]))"

definition OverlayDB_rollback :: "OverlayDB \<Rightarrow> OverlayDB" where
  "OverlayDB_rollback d = d\<lparr>m_main := Map.empty\<rparr>"

text \<open>
  The batch of \<open>commit\<close>: the entries with a reference, and the auxiliary ones under the key with the byte 255 at its end. Then ten
  attempts; \<open>std::move\<close> leaves the null pointer behind for the attempts after the first. \<open>None\<close> is \<open>exit (-1)\<close>.
\<close>

definition commit_batch :: "OverlayDB \<Rightarrow> disk" where
  "commit_batch d k =
     (if k \<noteq> [] \<and> last k = 255 \<and> (case m_aux d (butlast k) of Some (_, b) \<Rightarrow> b | None \<Rightarrow> False) then map_option fst (m_aux d (butlast k))
      else case m_main d k of Some (v, c) \<Rightarrow> if c \<noteq> 0 then Some v else None | None \<Rightarrow> None)"

fun commit_tries :: "(nat \<Rightarrow> bool) \<Rightarrow> nat list \<Rightarrow> disk option \<Rightarrow> disk \<Rightarrow> disk option" where
  "commit_tries st [] b m = Some m"
| "commit_tries st (i # is) b m =
     (case LevelDB_commit (st i) b m of
        Some m' \<Rightarrow> Some m'
      | None \<Rightarrow> if i = 9 then None else commit_tries st is None m)"

definition OverlayDB_commit :: "(nat \<Rightarrow> bool) \<Rightarrow> OverlayDB \<Rightarrow> OverlayDB option" where
  "OverlayDB_commit st d =
     (case m_db d of
        None \<Rightarrow> Some d
      | Some m \<Rightarrow>
          map_option (\<lambda>m'. d\<lparr>m_main := Map.empty, m_aux := Map.empty, m_db := Some m'\<rparr>)
            (commit_tries st [0..<10] (Some (commit_batch d)) m))"

lemma commit_tries_null: "9 \<in> set is \<Longrightarrow> commit_tries st is None m = None"
  by (induction "is") (auto simp: LevelDB_commit_def)

lemma commit_tries_first:
  "commit_tries st [0..<10] (Some b) m = (if st 0 then Some (m ++ b) else None)"
proof -
  have "[0..<10] = 0 # [Suc 0..<10 :: nat]" by (simp add: upt_conv_Cons)
  then show ?thesis using commit_tries_null [of "[Suc 0..<10]"] by (simp add: LevelDB_commit_def del: upt_Suc)
qed

subsection \<open>What the trie code relies on\<close>

text \<open>
  \<open>GenericTrieDB\<close> is a template over the database: its members are a record of operations. The locale states their laws,
  \<open>refs\<close> being the references an entry has in memory. An entry that is killed can still be read.
\<close>

record 'd db_ops =
  db_lookup :: "'d \<Rightarrow> bytes \<Rightarrow> bytes"
  db_exists :: "'d \<Rightarrow> bytes \<Rightarrow> bool"
  db_insert :: "bytes \<Rightarrow> bytes \<Rightarrow> 'd \<Rightarrow> 'd"
  db_kill :: "bytes \<Rightarrow> 'd \<Rightarrow> 'd"

definition MemoryDB_ops :: "MemoryDB db_ops" where
  "MemoryDB_ops = \<lparr>db_lookup = MemoryDB_lookup, db_exists = MemoryDB_exists, db_insert = MemoryDB_insert, db_kill = \<lambda>h d. snd (MemoryDB_kill h d)\<rparr>"

definition OverlayDB_ops :: "OverlayDB db_ops" where
  "OverlayDB_ops = \<lparr>db_lookup = OverlayDB_lookup, db_exists = OverlayDB_exists, db_insert = MemoryDB_insert, db_kill = OverlayDB_kill\<rparr>"

definition refs_of :: "'a MemoryDB_scheme \<Rightarrow> bytes \<Rightarrow> nat" where
  "refs_of d h = (case m_main d h of Some (_, c) \<Rightarrow> unat c | None \<Rightarrow> 0)"

locale node_store =
  fixes ops :: "'d db_ops" and ok :: "'d \<Rightarrow> bool" and refs :: "'d \<Rightarrow> bytes \<Rightarrow> nat"
  assumes ok_insert: "ok d \<Longrightarrow> ok (db_insert ops h v d)"
    and ok_kill: "ok d \<Longrightarrow> ok (db_kill ops h d)"
    and lookup_insert: "ok d \<Longrightarrow> v \<noteq> [] \<Longrightarrow> db_lookup ops (db_insert ops h v d) l = (if l = h then v else db_lookup ops d l)"
    and lookup_kill: "ok d \<Longrightarrow> db_lookup ops (db_kill ops h d) l = db_lookup ops d l"
    and refs_insert: "refs d h + 1 < 2 ^ 32 \<Longrightarrow> refs (db_insert ops h v d) l = (if l = h then refs d l + 1 else refs d l)"
    and refs_kill: "refs (db_kill ops h d) l = (if l = h then refs d l - 1 else refs d l)"

lemma unat_inc: "unat c < 4294967295 \<Longrightarrow> unat (c + 1 :: 32 word) = Suc (unat c)"
  by (simp add: unat_add_lem [where x = c and y = 1, THEN iffD1])

lemma unat_dec: "unat (c - 1 :: 32 word) = unat c - 1" if "0 < c"
  using that by (simp add: unat_minus_one word_gt_0)

lemma refs_of_insert: "refs_of d h + 1 < 2 ^ 32 \<Longrightarrow> refs_of (MemoryDB_insert h v d) l = (if l = h then refs_of d l + 1 else refs_of d l)"
  by (auto simp: refs_of_def MemoryDB_insert_def unat_inc split: option.splits)

lemma refs_of_kill: "refs_of (snd (MemoryDB_kill h d)) l = (if l = h then refs_of d l - 1 else refs_of d l)"
  by (auto simp: refs_of_def MemoryDB_kill_def unat_dec word_gt_0 split: option.splits)

lemma kill_kept: "m_enforceRefs (snd (MemoryDB_kill h d)) = m_enforceRefs d" "m_db (snd (MemoryDB_kill h e)) = m_db e"
    "map_option fst (m_main (snd (MemoryDB_kill h d)) l) = map_option fst (m_main d l)"
  by (auto simp: MemoryDB_kill_def split: option.splits)

lemma insert_kept: "m_enforceRefs (MemoryDB_insert h v d) = m_enforceRefs d" "m_db (MemoryDB_insert h v e) = m_db e"
  by (simp_all add: MemoryDB_insert_def)

lemma MemoryDB_lookup_unforced: "\<not> m_enforceRefs d \<Longrightarrow> MemoryDB_lookup d h = (case map_option fst (m_main d h) of Some v \<Rightarrow> v | None \<Rightarrow> [])"
  by (auto simp: MemoryDB_lookup_def live_def split: option.splits)

lemma MemoryDB_lookup_insert:
  "\<not> m_enforceRefs d \<Longrightarrow> MemoryDB_lookup (MemoryDB_insert h v d) l = (if l = h then v else MemoryDB_lookup d l)"
  by (auto simp: MemoryDB_lookup_unforced insert_kept) (auto simp: MemoryDB_insert_def split: option.splits)

lemma MemoryDB_lookup_kill: "\<not> m_enforceRefs d \<Longrightarrow> MemoryDB_lookup (snd (MemoryDB_kill h d)) l = MemoryDB_lookup d l"
  by (simp add: MemoryDB_lookup_unforced kill_kept)

interpretation memory: node_store MemoryDB_ops "\<lambda>d. \<not> m_enforceRefs d" refs_of
  by unfold_locales
    (simp_all add: MemoryDB_ops_def kill_kept insert_kept MemoryDB_lookup_insert MemoryDB_lookup_kill refs_of_insert refs_of_kill)

interpretation overlay: node_store OverlayDB_ops "\<lambda>d. \<not> m_enforceRefs d" refs_of
  by unfold_locales
    (auto simp: OverlayDB_ops_def OverlayDB_kill_def OverlayDB_lookup_def Let_def kill_kept insert_kept MemoryDB_lookup_insert
      MemoryDB_lookup_kill refs_of_insert refs_of_kill split: option.splits)

end
