(* ===== verification/Trie_DB.thy ===== *)
theory Trie_DB
  imports Trie_Hash Memory_DB
begin

section \<open>The trie over a database (\<open>libdevcore/TrieDB.h\<close>, \<open>TrieCommon\<close>)\<close>

text \<open>
  \<open>GenericTrieDB\<close>, a template over the database, whose operations are the record \<open>ops\<close>; Keccak is the argument \<open>H\<close>. An operation
  that may throw and change the database maps the database to a result and the database it leaves (\<open>tbind\<close>); what was
  done before an exception stays done. The assertions, which a build with \<open>NDEBUG\<close> leaves out, are not checked. The code
  recurses as deep as the nodes lead it. The model's recursion has fuel: a node with an empty partial key, which no operation
  writes, is the only way to use it up.
\<close>

unbundle bit_operations_syntax

subsection \<open>Nibbles (\<open>TrieCommon.h\<close>)\<close>

definition unsigned32 :: "int \<Rightarrow> nat" where
  "unsigned32 n = nat (n mod 2 ^ 32)"

definition nibble :: "bytes \<Rightarrow> nat \<Rightarrow> byte" where
  "nibble d i = (if odd i then d ! (i div 2) AND 15 else drop_bit 4 (d ! (i div 2)))"

function sharedNibbles :: "bytes \<Rightarrow> nat \<Rightarrow> nat \<Rightarrow> bytes \<Rightarrow> nat \<Rightarrow> nat \<Rightarrow> nat" where
  "sharedNibbles a i e b j f =
     (if i < e \<and> j < f \<and> nibble a i = nibble b j then Suc (sharedNibbles a (i + 1) e b (j + 1) f) else 0)"
  by auto
termination by (relation "measure (\<lambda>(a, i, e, b, j, f). e - i)") auto

declare sharedNibbles.simps [simp del]

record NibbleSlice =
  ns_data :: bytes
  ns_offset :: nat

definition slice :: "bytes \<Rightarrow> nat \<Rightarrow> NibbleSlice" where
  "slice d n = \<lparr>ns_data = d, ns_offset = n\<rparr>"

definition ns_size :: "NibbleSlice \<Rightarrow> nat" where
  "ns_size s = unsigned32 (2 * int (length (ns_data s)) - int (ns_offset s))"

definition ns_at :: "NibbleSlice \<Rightarrow> nat \<Rightarrow> byte rlp_result" where
  "ns_at s i = (if (ns_offset s + i) div 2 < length (ns_data s) then Inr (nibble (ns_data s) (ns_offset s + i)) else Inl OutOfView)"

definition mid :: "NibbleSlice \<Rightarrow> nat \<Rightarrow> NibbleSlice" where
  "mid s i = s\<lparr>ns_offset := unsigned32 (int (ns_offset s + i))\<rparr>"

definition ns_end :: "NibbleSlice \<Rightarrow> nat" where
  "ns_end s = unsigned32 (int (ns_offset s + ns_size s))"

definition shared :: "NibbleSlice \<Rightarrow> NibbleSlice \<Rightarrow> nat" where
  "shared s k = sharedNibbles (ns_data s) (ns_offset s) (ns_end s) (ns_data k) (ns_offset k) (ns_end k)"

definition ns_contains :: "NibbleSlice \<Rightarrow> NibbleSlice \<Rightarrow> bool" where
  "ns_contains s k \<longleftrightarrow> shared s k = ns_size k"

definition ns_eq :: "NibbleSlice \<Rightarrow> NibbleSlice \<Rightarrow> bool" where
  "ns_eq s k \<longleftrightarrow> ns_size k = ns_size s \<and> shared s k = ns_size k"

definition isLeaf :: "bytes \<Rightarrow> bool rlp_result" where
  "isLeaf twoItem =
     ebind (rlp_at twoItem 0) (\<lambda>x. ebind (payload x) (\<lambda>pl. if pl = [] then Inl OutOfView else Inr (pl ! 0 AND 0x20 \<noteq> 0)))"

definition keyOf :: "bytes \<Rightarrow> NibbleSlice" where
  "keyOf hpe = (if length hpe = 0 then slice hpe 0 else if hpe ! 0 AND 0x10 \<noteq> 0 then slice hpe 1 else slice hpe 2)"

definition keyOf_item :: "bytes \<Rightarrow> NibbleSlice rlp_result" where
  "keyOf_item twoItem = ebind (rlp_at twoItem 0) (\<lambda>x. ebind (payload x) (\<lambda>pl. Inr (keyOf pl)))"

text \<open>The loop of the two \<open>hexPrefixEncode\<close>s on nibble views: \<open>d\<close> counts the nibbles, \<open>ret\<close> is the text so far.\<close>

function hpe_loop :: "bytes \<Rightarrow> nat \<Rightarrow> nat \<Rightarrow> nat \<times> bytes \<Rightarrow> (nat \<times> bytes) rlp_result" where
  "hpe_loop data i e r =
     (if i < e then
        if i div 2 < length data then
          (let n = nibble data i; (d, ret) = r in
           hpe_loop data (i + 1) e (d + 1, if odd d then butlast ret @ [last ret OR n] else ret @ [push_bit 4 n]))
        else Inl OutOfView
      else Inr r)"
  by auto
termination by (relation "measure (\<lambda>(data, i, e, r). e - i)") auto

declare hpe_loop.simps [simp del]

definition hpe_first :: "bool \<Rightarrow> bool \<Rightarrow> bytes" where
  "hpe_first leaf od = [((if leaf then 2 else 0) OR (if od then 1 else 0)) * 16]"

definition hexPrefixEncode_view :: "bytes \<Rightarrow> bool \<Rightarrow> int \<Rightarrow> int \<Rightarrow> nat \<Rightarrow> bytes rlp_result" where
  "hexPrefixEncode_view data leaf beginNibble endNibble offset =
     (let begin = unsigned32 (beginNibble + int offset);
          e = unsigned32 ((if endNibble < 0 then int (2 * length data) - int offset + 1 + endNibble else endNibble) + int offset);
          od = odd (unsigned32 (int e - int begin)) in
      ebind (hpe_loop data begin e (if od then 1 else 2, hpe_first leaf od)) (\<lambda>r. Inr (snd r)))"

definition hexPrefixEncode_slice :: "NibbleSlice \<Rightarrow> bool \<Rightarrow> int \<Rightarrow> int \<Rightarrow> bytes rlp_result" where
  "hexPrefixEncode_slice s leaf begin e = hexPrefixEncode_view (ns_data s) leaf begin e (ns_offset s)"

definition hexPrefixEncode_two :: "NibbleSlice \<Rightarrow> NibbleSlice \<Rightarrow> bool \<Rightarrow> bytes rlp_result" where
  "hexPrefixEncode_two s1 s2 leaf =
     (let begin1 = ns_offset s1; end1 = unsigned32 (int (2 * length (ns_data s1)));
          begin2 = ns_offset s2; end2 = unsigned32 (int (2 * length (ns_data s2)));
          od = odd (unsigned32 (int end1 - int begin1 + int end2 - int begin2)) in
      ebind (hpe_loop (ns_data s1) begin1 end1 (if od then 1 else 2, hpe_first leaf od)) (\<lambda>r.
      ebind (hpe_loop (ns_data s2) begin2 end2 r) (\<lambda>r. Inr (snd r))))"

fun unique_loop :: "bytes \<Rightarrow> nat \<Rightarrow> nat list \<Rightarrow> nat \<Rightarrow> nat rlp_result" where
  "unique_loop orig except [] used = Inr used"
| "unique_loop orig except (i # is) used =
     (if i = except then unique_loop orig except is used
      else ebind (rlp_at orig i) (\<lambda>x.
        if isEmpty x then unique_loop orig except is used
        else if used = 255 then unique_loop orig except is i
        else Inr 255))"

definition uniqueInUse :: "bytes \<Rightarrow> nat \<Rightarrow> nat rlp_result" where
  "uniqueInUse orig except = unique_loop orig except [0..<17] 255"

definition rlp_toString :: "bytes \<Rightarrow> bytes rlp_result" where
  "rlp_toString d =
     (if \<not> isData d then Inr [] else ebind (payload d) (\<lambda>p. ebind (rlp_length d) (\<lambda>l. Inr (cropped p 0 l))))"

subsection \<open>Results with a database\<close>

datatype trie_error = RlpFail rlp_error | RootNotFound | BadRoot | OutOfFuel

type_synonym ('d, 'a) tr = "'d \<Rightarrow> (trie_error + 'a) \<times> 'd"

definition tret :: "'a \<Rightarrow> ('d, 'a) tr" where
  "tret x d = (Inr x, d)"

definition tbind :: "('d, 'a) tr \<Rightarrow> ('a \<Rightarrow> ('d, 'b) tr) \<Rightarrow> ('d, 'b) tr" where
  "tbind m f d = (case m d of (Inl e, d') \<Rightarrow> (Inl e, d') | (Inr x, d') \<Rightarrow> f x d')"

definition tlift :: "'a rlp_result \<Rightarrow> ('d, 'a) tr" where
  "tlift r d = (case r of Inl e \<Rightarrow> (Inl (RlpFail e), d) | Inr x \<Rightarrow> (Inr x, d))"

definition tmod :: "('d \<Rightarrow> 'd) \<Rightarrow> ('d, unit) tr" where
  "tmod f d = (Inr (), f d)"

fun tfold :: "('i \<Rightarrow> 's \<Rightarrow> ('d, 's) tr) \<Rightarrow> 'i list \<Rightarrow> 's \<Rightarrow> ('d, 's) tr" where
  "tfold f [] s = tret s"
| "tfold f (i # is) s = tbind (f i s) (tfold f is)"

subsection \<open>Nodes\<close>

type_synonym hash_fun = "bytes \<Rightarrow> bytes"

definition db_node :: "'d db_ops \<Rightarrow> bytes \<Rightarrow> ('d, bytes) tr" where
  "db_node ops h d = (Inr (db_lookup ops d h), d)"

definition forceInsertNode :: "'d db_ops \<Rightarrow> hash_fun \<Rightarrow> bytes \<Rightarrow> ('d, bytes) tr" where
  "forceInsertNode ops H v d = (Inr (H v), db_insert ops (H v) v d)"

definition forceKillNode :: "'d db_ops \<Rightarrow> bytes \<Rightarrow> ('d, unit) tr" where
  "forceKillNode ops h = tmod (db_kill ops h)"

definition killNode_at :: "'d db_ops \<Rightarrow> bytes \<Rightarrow> bytes \<Rightarrow> ('d, unit) tr" where
  "killNode_at ops d h = (if length d \<ge> 32 then forceKillNode ops h else tret ())"

definition killNode :: "'d db_ops \<Rightarrow> hash_fun \<Rightarrow> bytes \<Rightarrow> ('d, unit) tr" where
  "killNode ops H d = killNode_at ops d (H d)"

definition streamNode :: "'d db_ops \<Rightarrow> hash_fun \<Rightarrow> rlp_stream \<Rightarrow> bytes \<Rightarrow> ('d, rlp_stream) tr" where
  "streamNode ops H s b =
     (if length b < 32 then tlift (appendRaw b 1 s)
      else tbind (forceInsertNode ops H b) (\<lambda>h. tlift (append_bytes False h s)))"

text \<open>The node that an item of a parent stands for: itself when it is a list, otherwise the one stored under the hash.\<close>

definition follow :: "'d db_ops \<Rightarrow> bytes \<Rightarrow> ('d, bytes) tr" where
  "follow ops x =
     (if isList x then tret x
      else tbind (tlift (toHash 32 Strict x)) (\<lambda>h. tbind (db_node ops h) (\<lambda>s. tlift (RLP s VeryStrict))))"

text \<open>\<open>rlpList (a, b)\<close> of a raw or a plain first item and a plain or a raw second one; \<open>s << _orig[i]\<close> over a range.\<close>

definition append_item :: "bytes \<Rightarrow> nat \<Rightarrow> rlp_stream \<Rightarrow> rlp_stream rlp_result" where
  "append_item orig i s = ebind (rlp_at orig i) (\<lambda>x. appendRaw x 1 s)"

fun append_range :: "bytes \<Rightarrow> nat list \<Rightarrow> rlp_stream \<Rightarrow> rlp_stream rlp_result" where
  "append_range orig [] s = Inr s"
| "append_range orig (i # is) s = ebind (append_item orig i s) (append_range orig is)"

subsection \<open>Looking up\<close>

fun atAux :: "nat \<Rightarrow> 'd db_ops \<Rightarrow> bytes \<Rightarrow> NibbleSlice \<Rightarrow> ('d, bytes) tr" where
  "atAux 0 ops here key = (\<lambda>d. (Inl OutOfFuel, d))"
| "atAux (Suc n) ops here key =
     (if isEmpty here \<or> isNull here then tret []
      else tbind (tlift (itemCount here)) (\<lambda>c.
        if unsigned32 (int c) = 2 then
          tbind (tlift (keyOf_item here)) (\<lambda>k.
          tbind (tlift (if ns_eq key k then isLeaf here else Inr False)) (\<lambda>us.
          if us then tbind (tlift (rlp_at here 1)) (\<lambda>x. tlift (rlp_toString x))
          else tbind (tlift (if ns_contains key k then ebind (isLeaf here) (\<lambda>l. Inr (\<not> l)) else Inr False)) (\<lambda>onwards.
            if onwards then
              tbind (tlift (rlp_at here 1)) (\<lambda>x. tbind (follow ops x) (\<lambda>r. atAux n ops r (mid key (ns_size k))))
            else tret [])))
        else if ns_size key = 0 then tbind (tlift (rlp_at here 16)) (\<lambda>x. tlift (rlp_toString x))
        else
          tbind (tlift (ns_at key 0)) (\<lambda>i. tbind (tlift (rlp_at here (unat i))) (\<lambda>x.
            if isEmpty x then tret [] else tbind (follow ops x) (\<lambda>r. atAux n ops r (mid key 1))))))"

subsection \<open>Rebuilding a node\<close>

definition place :: "'d db_ops \<Rightarrow> hash_fun \<Rightarrow> bytes \<Rightarrow> NibbleSlice \<Rightarrow> bytes \<Rightarrow> ('d, bytes) tr" where
  "place ops H orig k v =
     tbind (killNode ops H orig) (\<lambda>_.
     if isEmpty orig then
       tlift (ebind (appendList 2 RLPStream) (\<lambda>s. ebind (hexPrefixEncode_slice k True 0 (- 1)) (\<lambda>h.
         ebind (append_bytes False h s) (\<lambda>s. ebind (append_bytes False v s) stream_out))))
     else tbind (tlift (itemCount orig)) (\<lambda>c.
       if c = 2 then
         tlift (ebind (appendList 2 RLPStream) (\<lambda>s. ebind (append_item orig 0 s) (\<lambda>s. ebind (append_bytes False v s) stream_out)))
       else
         tlift (ebind (appendList 17 RLPStream) (\<lambda>s. ebind (append_range orig [0..<16] s) (\<lambda>s. ebind (append_bytes False v s) stream_out)))))"

definition cleve :: "'d db_ops \<Rightarrow> hash_fun \<Rightarrow> bytes \<Rightarrow> nat \<Rightarrow> ('d, bytes) tr" where
  "cleve ops H orig n =
     tbind (killNode ops H orig) (\<lambda>_.
     tbind (tlift (keyOf_item orig)) (\<lambda>k.
     tbind (tlift (ebind (appendList 2 RLPStream) (\<lambda>s. ebind (isLeaf orig) (\<lambda>l. ebind (hexPrefixEncode_slice k l (int n) (- 1)) (\<lambda>h.
         ebind (append_bytes False h s) (append_item orig 1)))))) (\<lambda>bottom.
     tbind (tlift (ebind (appendList 2 RLPStream) (\<lambda>s. ebind (hexPrefixEncode_slice k False 0 (int n)) (\<lambda>h. append_bytes False h s)))) (\<lambda>top.
     tbind (tlift (stream_out bottom)) (\<lambda>b. tbind (streamNode ops H top b) (\<lambda>top. tlift (stream_out top)))))))"

definition branch :: "'d db_ops \<Rightarrow> hash_fun \<Rightarrow> bytes \<Rightarrow> ('d, bytes) tr" where
  "branch ops H orig =
     tbind (killNode ops H orig) (\<lambda>_.
     tbind (tlift (keyOf_item orig)) (\<lambda>k.
     tbind (tlift (appendList 17 RLPStream)) (\<lambda>r.
     if ns_size k = 0 then
       tbind (tfold (\<lambda>_ r. tlift (append_bytes False [] r)) [0..<16] r) (\<lambda>r.
       tlift (ebind (append_item orig 1 r) stream_out))
     else
       tbind (tlift (ns_at k 0)) (\<lambda>b.
       tbind (tfold (\<lambda>i r.
           if i = unat b then
             tbind (tlift (isLeaf orig)) (\<lambda>l.
             if l \<or> ns_size k > 1 then
               tbind (tlift (ebind (appendList 2 RLPStream) (\<lambda>s. ebind (hexPrefixEncode_slice (mid k 1) l 0 (- 1)) (\<lambda>h.
                 ebind (append_bytes False h s) (\<lambda>s. ebind (append_item orig 1 s) stream_out))))) (streamNode ops H r)
             else tlift (append_item orig 1 r))
           else tlift (append_bytes False [] r)) [0..<16] r) (\<lambda>r.
       tlift (ebind (append_bytes False [] r) stream_out))))))"

definition graft :: "'d db_ops \<Rightarrow> bytes \<Rightarrow> ('d, bytes) tr" where
  "graft ops orig =
     tbind (tlift (rlp_at orig 1)) (\<lambda>x.
     tbind (if isList x then tret x
            else tbind (tlift (toHash 32 Strict x)) (\<lambda>lh. tbind (db_node ops lh) (\<lambda>s.
              tbind (forceKillNode ops lh) (\<lambda>_. tlift (RLP s VeryStrict))))) (\<lambda>n.
     tlift (ebind (keyOf_item orig) (\<lambda>k1. ebind (keyOf_item n) (\<lambda>k2. ebind (isLeaf n) (\<lambda>l.
       ebind (hexPrefixEncode_two k1 k2 l) (\<lambda>h.
       ebind (appendList 2 RLPStream) (\<lambda>s. ebind (append_bytes False h s) (\<lambda>s. ebind (append_item n 1 s) stream_out)))))))))"

definition trie_merge :: "bytes \<Rightarrow> nat \<Rightarrow> bytes rlp_result" where
  "trie_merge orig i =
     ebind (appendList 2 RLPStream) (\<lambda>s.
     ebind (if i \<noteq> 16 then hexPrefixEncode_view [of_nat i] False 1 2 0 else Inr (hexPrefixEncode [] True 0 (- 1))) (\<lambda>h.
     ebind (append_bytes False h s) (\<lambda>s. ebind (append_item orig i s) stream_out)))"

subsection \<open>Inserting\<close>

fun mergeAt :: "nat \<Rightarrow> 'd db_ops \<Rightarrow> hash_fun \<Rightarrow> bytes \<Rightarrow> bytes \<Rightarrow> NibbleSlice \<Rightarrow> bytes \<Rightarrow> bool \<Rightarrow> ('d, bytes) tr"
and mergeAtAux :: "nat \<Rightarrow> 'd db_ops \<Rightarrow> hash_fun \<Rightarrow> rlp_stream \<Rightarrow> bytes \<Rightarrow> NibbleSlice \<Rightarrow> bytes \<Rightarrow> ('d, rlp_stream) tr" where
  "mergeAt 0 ops H orig origHash k v inLine = (\<lambda>d. (Inl OutOfFuel, d))"
| "mergeAt (Suc n) ops H orig origHash k v inLine =
     (if isEmpty orig then place ops H orig k v
      else tbind (tlift (itemCount orig)) (\<lambda>c.
        if unsigned32 (int c) = 2 then
          tbind (tlift (keyOf_item orig)) (\<lambda>k'.
          tbind (tlift (if ns_eq k' k then isLeaf orig else Inr False)) (\<lambda>us.
          if us then place ops H orig k v
          else tbind (tlift (if ns_contains k k' then ebind (isLeaf orig) (\<lambda>l. Inr (\<not> l)) else Inr False)) (\<lambda>down.
            if down then
              tbind (if inLine then tret () else killNode_at ops orig origHash) (\<lambda>_.
              tbind (tlift (ebind (appendList 2 RLPStream) (append_item orig 0))) (\<lambda>s.
              tbind (tlift (rlp_at orig 1)) (\<lambda>x.
              tbind (mergeAtAux n ops H s x (mid k (ns_size k')) v) (\<lambda>s. tlift (stream_out s)))))
            else
              let sh = shared k k' in
              if sh \<noteq> 0 then tbind (cleve ops H orig sh) (\<lambda>cleved. mergeAt n ops H cleved (H cleved) k v True)
              else tbind (branch ops H orig) (\<lambda>branched. mergeAt n ops H branched (H branched) k v True))))
        else if ns_size k = 0 then place ops H orig k v
        else
          tbind (if inLine then tret () else killNode_at ops orig origHash) (\<lambda>_.
          tbind (tlift (ns_at k 0)) (\<lambda>b.
          tbind (tlift (appendList 17 RLPStream)) (\<lambda>r.
          tbind (tfold (\<lambda>i r.
              if i = unat b then tbind (tlift (rlp_at orig i)) (\<lambda>x. mergeAtAux n ops H r x (mid k 1) v)
              else tlift (append_item orig i r)) [0..<17] r) (\<lambda>r. tlift (stream_out r)))))))"
| "mergeAtAux 0 ops H out orig k v = (\<lambda>d. (Inl OutOfFuel, d))"
| "mergeAtAux (Suc n) ops H out orig k v =
     (if \<not> isList orig \<and> \<not> isEmpty orig then
        tbind (follow ops orig) (\<lambda>r. tbind (mergeAt n ops H r (H r) k v False) (streamNode ops H out))
      else tbind (mergeAt n ops H orig (H orig) k v True) (streamNode ops H out))"

subsection \<open>Removing\<close>

definition isTwoItemNode :: "'d db_ops \<Rightarrow> bytes \<Rightarrow> ('d, bool) tr" where
  "isTwoItemNode ops n =
     tbind (if isData n then
              tbind (tlift (toHash 32 Strict n)) (\<lambda>h. tbind (db_node ops h) (\<lambda>s. tbind (tlift (RLP s VeryStrict)) (\<lambda>r. tlift (itemCount r))))
            else tret 0) (\<lambda>c.
     if c = 2 then tret True
     else tbind (tlift (if isList n then itemCount n else Inr 0)) (\<lambda>c. tret (c = 2)))"

text \<open>The end of both branch cases: a branch with a single entry left becomes a pair, and a pair over a pair one pair.\<close>

definition merge_graft :: "'d db_ops \<Rightarrow> bytes \<Rightarrow> nat \<Rightarrow> ('d, bytes) tr" where
  "merge_graft ops orig used =
     tbind (tlift (rlp_at orig used)) (\<lambda>x. tbind (isTwoItemNode ops x) (\<lambda>two.
     if two then tbind (tlift (trie_merge orig used)) (\<lambda>m. tbind (tlift (RLP m VeryStrict)) (graft ops))
     else tlift (trie_merge orig used)))"

fun deleteAt :: "nat \<Rightarrow> 'd db_ops \<Rightarrow> hash_fun \<Rightarrow> bytes \<Rightarrow> NibbleSlice \<Rightarrow> ('d, bytes) tr"
and deleteAtAux :: "nat \<Rightarrow> 'd db_ops \<Rightarrow> hash_fun \<Rightarrow> rlp_stream \<Rightarrow> bytes \<Rightarrow> NibbleSlice \<Rightarrow> ('d, bool \<times> rlp_stream) tr" where
  "deleteAt 0 ops H orig k = (\<lambda>d. (Inl OutOfFuel, d))"
| "deleteAt (Suc n) ops H orig k =
     (if isEmpty orig then tret []
      else tbind (tlift (itemCount orig)) (\<lambda>c.
        if c = 2 then
          tbind (tlift (keyOf_item orig)) (\<lambda>k'.
          tbind (tlift (if ns_eq k' k then isLeaf orig else Inr False)) (\<lambda>us.
          if us then tbind (killNode ops H orig) (\<lambda>_. tret [of_nat c_rlpDataImmLenStart])
          else if ns_contains k k' then
            tbind (tlift (ebind (appendList 2 RLPStream) (append_item orig 0))) (\<lambda>s.
            tbind (tlift (rlp_at orig 1)) (\<lambda>x.
            tbind (deleteAtAux n ops H s x (mid k (ns_size k'))) (\<lambda>(found, s).
            if \<not> found then tret []
            else
              tbind (killNode ops H orig) (\<lambda>_.
              tbind (tlift (stream_out s)) (\<lambda>b. tbind (tlift (RLP b VeryStrict)) (\<lambda>r. tbind (tlift (rlp_at r 1)) (\<lambda>y.
              tbind (isTwoItemNode ops y) (\<lambda>two. if two then graft ops r else tret b))))))))
          else tret []))
        else
          tbind (tlift (if ns_size k = 0 then ebind (rlp_at orig 16) (\<lambda>x. Inr (\<not> isEmpty x)) else Inr False)) (\<lambda>here.
          if here then
            tbind (killNode ops H orig) (\<lambda>_.
            tbind (tlift (uniqueInUse orig 16)) (\<lambda>used.
            if used \<noteq> 255 then merge_graft ops orig used
            else tlift (ebind (appendList 17 RLPStream) (\<lambda>r. ebind (append_range orig [0..<16] r) (\<lambda>r. ebind (append_bytes False [] r) stream_out)))))
          else
            tbind (tlift (appendList 17 RLPStream)) (\<lambda>r.
            tbind (tlift (ns_at k 0)) (\<lambda>b.
            tbind (tfold (\<lambda>i fr.
                if \<not> fst fr then tret fr
                else if i = unat b then tbind (tlift (rlp_at orig i)) (\<lambda>x. deleteAtAux n ops H (snd fr) x (mid k 1))
                else tbind (tlift (append_item orig i (snd fr))) (\<lambda>r. tret (True, r))) [0..<17] (True, r)) (\<lambda>(found, r).
            if \<not> found then tret []
            else
              tbind (killNode ops H orig) (\<lambda>_.
              tbind (tlift (stream_out r)) (\<lambda>b. tbind (tlift (RLP b VeryStrict)) (\<lambda>rlp.
              tbind (tlift (uniqueInUse rlp 255)) (\<lambda>used. if used = 255 then tret b else merge_graft ops rlp used))))))))))"
| "deleteAtAux 0 ops H out orig k = (\<lambda>d. (Inl OutOfFuel, d))"
| "deleteAtAux (Suc n) ops H out orig k =
     tbind (if isEmpty orig then tret [] else tbind (follow ops orig) (\<lambda>r. deleteAt n ops H r k)) (\<lambda>b.
     if b = [] then tret (False, out)
     else tbind (streamNode ops H out b) (\<lambda>s. tret (True, s)))"

subsection \<open>The trie\<close>

text \<open>The state of \<open>GenericTrieDB\<close> is the root and the database; the operations below map both.\<close>

definition fuel_of :: "bytes \<Rightarrow> nat" where
  "fuel_of key = 6 * length key + 6"

definition trie_at :: "'d db_ops \<Rightarrow> bytes \<Rightarrow> bytes \<Rightarrow> ('d, bytes) tr" where
  "trie_at ops root key =
     tbind (db_node ops root) (\<lambda>s. tbind (tlift (RLP s VeryStrict)) (\<lambda>r. atAux (fuel_of key) ops r (slice key 0)))"

definition trie_contains :: "'d db_ops \<Rightarrow> bytes \<Rightarrow> bytes \<Rightarrow> ('d, bool) tr" where
  "trie_contains ops root key = tbind (trie_at ops root key) (\<lambda>v. tret (v \<noteq> []))"

definition trie_insert :: "'d db_ops \<Rightarrow> hash_fun \<Rightarrow> bytes \<Rightarrow> bytes \<Rightarrow> bytes \<Rightarrow> ('d, bytes) tr" where
  "trie_insert ops H root key v =
     tbind (db_node ops root) (\<lambda>rootValue.
     tbind (tlift (RLP rootValue VeryStrict)) (\<lambda>r.
     tbind (mergeAt (fuel_of key) ops H r root (slice key 0) v False) (\<lambda>b.
     tbind (if length rootValue < 32 then forceKillNode ops root else tret ()) (\<lambda>_. forceInsertNode ops H b))))"

definition trie_remove :: "'d db_ops \<Rightarrow> hash_fun \<Rightarrow> bytes \<Rightarrow> bytes \<Rightarrow> ('d, bytes) tr" where
  "trie_remove ops H root key =
     tbind (db_node ops root) (\<lambda>rv.
     tbind (tlift (RLP rv VeryStrict)) (\<lambda>r.
     tbind (deleteAt (fuel_of key) ops H r (slice key 0)) (\<lambda>b.
     if b \<noteq> [] then
       tbind (if length rv < 32 then forceKillNode ops root else tret ()) (\<lambda>_. forceInsertNode ops H b)
     else tret root)))"

text \<open>\<open>setRoot\<close> with \<open>Verification::Normal\<close>, which first makes the empty root, and \<open>root\<close>; \<open>EmptyTrie\<close> is the hash of the empty text.\<close>

definition EmptyTrie :: "hash_fun \<Rightarrow> bytes" where
  "EmptyTrie H = H [of_nat c_rlpDataImmLenStart]"

definition trie_init :: "'d db_ops \<Rightarrow> hash_fun \<Rightarrow> ('d, bytes) tr" where
  "trie_init ops H =
     tbind (forceInsertNode ops H [of_nat c_rlpDataImmLenStart]) (\<lambda>h. tbind (db_node ops h) (\<lambda>s.
     if s = [] then (\<lambda>d. (Inl RootNotFound, d)) else tret h))"

definition setRoot :: "'d db_ops \<Rightarrow> hash_fun \<Rightarrow> bytes \<Rightarrow> bool \<Rightarrow> ('d, bytes) tr" where
  "setRoot ops H root normal =
     (if \<not> normal then tret root
      else
        tbind (\<lambda>d. if root = EmptyTrie H \<and> \<not> db_exists ops d root then trie_init ops H d else (Inr root, d)) (\<lambda>root.
        tbind (db_node ops root) (\<lambda>s. if s = [] then (\<lambda>d. (Inl RootNotFound, d)) else tret root)))"

definition trie_isNull :: "'d db_ops \<Rightarrow> bytes \<Rightarrow> 'd \<Rightarrow> bool" where
  "trie_isNull ops root d \<longleftrightarrow> db_lookup ops d root = []"

definition trie_isEmpty :: "'d db_ops \<Rightarrow> hash_fun \<Rightarrow> bytes \<Rightarrow> 'd \<Rightarrow> bool" where
  "trie_isEmpty ops H root d \<longleftrightarrow> root = EmptyTrie H \<and> db_lookup ops d root \<noteq> []"

definition trie_root :: "'d db_ops \<Rightarrow> bytes \<Rightarrow> ('d, bytes) tr" where
  "trie_root ops root = tbind (db_node ops root) (\<lambda>s. if s = [] then (\<lambda>d. (Inl BadRoot, d)) else tret root)"

end
