(* ===== verification/Trie_Slices.thy ===== *)
theory Trie_Slices
  imports Trie_DB Trie_Nodes "HOL-Library.Sublist"
begin

section \<open>Nibble views\<close>

text \<open>
  A \<open>NibbleSlice\<close> stands for a list of nibbles (\<open>nibs\<close>): its operations and the three \<open>hexPrefixEncode\<close>s on that list.
\<close>

unbundle bit_operations_syntax

subsection \<open>The nibbles of a byte\<close>

definition hi :: "byte \<Rightarrow> byte" where "hi x = of_nat (unat x div 16)"
definition lo :: "byte \<Rightarrow> byte" where "lo x = of_nat (unat x mod 16)"

lemma asNibbles_simps [simp]: "asNibbles [] = []" "asNibbles (x # xs) = hi x # lo x # asNibbles xs"
    "asNibbles (xs @ ys) = asNibbles xs @ asNibbles ys"
  by (simp_all add: asNibbles_def hi_def lo_def)

lemma length_asNibbles [simp]: "length (asNibbles xs) = 2 * length xs"
  by (induction xs) simp_all

lemma unat_hi: "unat (hi x) = unat x div 16" and unat_lo: "unat (lo x) = unat x mod 16"
proof -
  have "unat x div 16 \<le> unat x" "unat x mod 16 \<le> unat x" by simp_all
  then have "unat x div 16 < 256" "unat x mod 16 < 256" using unat_byte_lt [of x] by linarith+
  then show "unat (hi x) = unat x div 16" "unat (lo x) = unat x mod 16"
    unfolding hi_def lo_def by (simp_all only: unat_of_nat_small)
qed

lemma hi_lo: "hi x < 16" "lo x < 16" "hi x * 16 + lo x = x"
proof -
  have "unat x div 16 < 16" using unat_byte_lt [of x] by (simp add: less_mult_imp_div_less)
  then show "hi x < 16" "lo x < 16" by (simp_all add: word_less_nat_alt unat_hi unat_lo)
  then have "unat (hi x * 16 + lo x) = unat x div 16 * 16 + unat x mod 16" by (simp add: nibble_pair unat_hi unat_lo)
  also have "\<dots> = unat x" by simp
  finally show "hi x * 16 + lo x = x" by (simp add: word_unat_eq_iff)
qed

lemma hi_lo_pair: "p < 16 \<Longrightarrow> q < 16 \<Longrightarrow> hi (p * 16 + q) = p \<and> lo (p * 16 + q) = q"
  using nibble_pair_inj [of "hi (p * 16 + q)" "lo (p * 16 + q)" p q] hi_lo by blast

lemma nibbles_asNibbles: "nibbles (asNibbles xs)"
  by (induction xs) (simp_all add: hi_lo)

lemma asNibbles_inj: "asNibbles xs = asNibbles ys \<longleftrightarrow> xs = ys"
proof (induction xs arbitrary: ys)
  case Nil
  then show ?case by (cases ys) simp_all
next
  case (Cons x xs)
  show ?case
  proof (cases ys)
    case (Cons y zs)
    have "hi x = hi y \<and> lo x = lo y \<longleftrightarrow> x = y" using hi_lo(3) [of x] hi_lo(3) [of y] by metis
    then show ?thesis using Cons.IH [of zs] Cons by auto
  qed simp
qed

lemma byte_bits: "drop_bit 4 x = hi x" "x AND 15 = lo x" "n < 16 \<Longrightarrow> push_bit 4 n = n * 16"
proof -
  show "drop_bit 4 x = hi x" 
    by (rule word_unat_eq_iff [THEN iffD2]) (simp only: unat_drop_bit_eq unat_hi, simp add: drop_bit_eq_div)
  have "x AND 15 = x AND mask 4" by (simp add: mask_eq_exp_minus_1)
  also have "\<dots> = take_bit 4 x" by (simp add: take_bit_eq_mask)
  also have "\<dots> = lo x" by (rule word_unat_eq_iff [THEN iffD2]) (simp only: unsigned_take_bit_eq unat_lo, simp add: take_bit_eq_mod)
  finally show "x AND 15 = lo x" .
  show "push_bit 4 n = n * 16" by (simp add: push_bit_eq_mult)
qed

lemma nibble_nth: "i < 2 * length d \<Longrightarrow> nibble d i = asNibbles d ! i"
proof (induction d arbitrary: i)
  case (Cons x d)
  consider "i = 0" | "i = 1" | j where "i = Suc (Suc j)" by (metis One_nat_def not0_implies_Suc)
  then show ?case
  proof cases
    case 3
    then show ?thesis using Cons.IH [of j] Cons.prems by (auto simp: nibble_def)
  qed (simp_all add: nibble_def byte_bits)
qed simp

lemma lo_small: "n < 16 \<Longrightarrow> lo n = n \<and> hi n = 0"
  using hi_lo_pair [of 0 n] by simp

lemma or_nibble:
  assumes "lo x = 0" "n < 16"
  shows "x OR n = x + n"
proof -
  have "x AND n = x AND (15 AND n)" using assms(2) lo_small [of n] byte_bits(2) [of n] by (simp add: and.commute)
  also have "\<dots> = 0" using assms(1) byte_bits(2) [of x] by (simp flip: and.assoc)
  finally show ?thesis by (simp add: disjunctive_add_eq_or)
qed

lemma hi_lo_or:
  assumes "lo x = 0" "n < 16"
  shows "hi (x OR n) = hi x" "lo (x OR n) = n"
  using hi_lo_pair [OF hi_lo(1) assms(2), of x] hi_lo(3) [of x] assms by (simp_all add: or_nibble)

lemma hi_lo_push: "n < 16 \<Longrightarrow> hi (push_bit 4 n) = n \<and> lo (push_bit 4 n) = 0"
  using hi_lo_pair [of n 0] by (simp add: byte_bits)

subsection \<open>Views\<close>

definition nibs :: "NibbleSlice \<Rightarrow> bytes" where
  "nibs s = drop (ns_offset s) (asNibbles (ns_data s))"

definition view_ok :: "NibbleSlice \<Rightarrow> bool" where
  "view_ok s \<longleftrightarrow> 2 * length (ns_data s) < 2 ^ 31 \<and> ns_offset s \<le> 2 * length (ns_data s)"

lemma unsigned32_small: "0 \<le> n \<Longrightarrow> n < 2 ^ 32 \<Longrightarrow> unsigned32 n = nat n"
  by (simp add: unsigned32_def)

lemma unsigned32_int [simp]: "n < 2 ^ 32 \<Longrightarrow> unsigned32 (int n) = n"
  by (simp add: unsigned32_small)

lemma view_size:
  assumes "view_ok s"
  shows "ns_size s = length (nibs s)" "ns_end s = 2 * length (ns_data s)" "length (nibs s) < 2 ^ 31"
proof -
  have "ns_size s = nat (2 * int (length (ns_data s)) - int (ns_offset s))"
    using assms unfolding ns_size_def view_ok_def by (intro unsigned32_small) auto
  then show s: "ns_size s = length (nibs s)" by (simp add: nibs_def nat_diff_distrib' nat_mult_distrib)
  then show "ns_end s = 2 * length (ns_data s)" 
    using assms by (simp add: ns_end_def nibs_def view_ok_def del: of_nat_add of_nat_mult)
  show "length (nibs s) < 2 ^ 31" using assms by (auto simp: nibs_def view_ok_def)
qed

lemma nibbles_nibs: "nibbles (nibs s)"
  using nibbles_asNibbles by (auto simp: nibs_def dest: in_set_dropD)

lemma view_at: "view_ok s \<Longrightarrow> i < length (nibs s) \<Longrightarrow> ns_at s i = Inr (nibs s ! i)"
  by (auto simp: ns_at_def nibs_def nibble_nth)

lemma view_mid: "view_ok s \<Longrightarrow> i \<le> length (nibs s) \<Longrightarrow> view_ok (mid s i) \<and> nibs (mid s i) = drop i (nibs s)"
  by (auto simp: view_ok_def mid_def nibs_def add.commute simp del: of_nat_add)

lemma sharedNibbles_prefix:
  assumes "i \<le> 2 * length a" "j \<le> 2 * length b"
  shows "sharedNibbles a i (2 * length a) b j (2 * length b) = commonPrefix (drop i (asNibbles a)) (drop j (asNibbles b))"
  using assms
proof (induction a i "2 * length a" b j "2 * length b" rule: sharedNibbles.induct)
  case (1 a i b j)
  show ?case
  proof (cases "i < 2 * length a \<and> j < 2 * length b")
    case True
    then have "drop i (asNibbles a) = nibble a i # drop (i + 1) (asNibbles a)" "drop j (asNibbles b) = nibble b j # drop (j + 1) (asNibbles b)"
      by (simp_all add: nibble_nth Cons_nth_drop_Suc)
    then show ?thesis using 1 True by (subst sharedNibbles.simps) auto
  next
    case False
    then have "drop i (asNibbles a) = [] \<or> drop j (asNibbles b) = []" by auto
    then show ?thesis using False by (subst sharedNibbles.simps) (auto split: list.splits)
  qed
qed

lemma view_shared: "view_ok s \<Longrightarrow> view_ok k \<Longrightarrow> shared s k = commonPrefix (nibs s) (nibs k)"
  by (simp add: shared_def view_size(2) nibs_def) (simp add: view_ok_def sharedNibbles_prefix)

lemma commonPrefix_full: "commonPrefix a b = length b \<longleftrightarrow> prefix b a"
  by (induction a b rule: commonPrefix.induct) auto

lemma view_contains: "view_ok s \<Longrightarrow> view_ok k \<Longrightarrow> ns_contains s k \<longleftrightarrow> prefix (nibs k) (nibs s)"
  by (simp add: ns_contains_def view_shared view_size commonPrefix_full)

lemma view_eq: "view_ok s \<Longrightarrow> view_ok k \<Longrightarrow> ns_eq s k \<longleftrightarrow> nibs s = nibs k"
  by (auto simp: ns_eq_def view_shared view_size commonPrefix_full) (auto simp: prefix_def)

subsection \<open>Hex prefix\<close>

definition flag :: "bool \<Rightarrow> bool \<Rightarrow> byte" where
  "flag leaf od = (if leaf then 2 else 0) + (if od then 1 else 0)"

lemma flag_small: "flag l d < 16"
  by (simp add: flag_def)

lemma asNibbles_pairs: "even (length ns) \<Longrightarrow> nibbles ns \<Longrightarrow> asNibbles (pairs ns) = ns"
proof (induction ns rule: pairs.induct)
  case (1 a b ns)
  then show ?case using hi_lo_pair [of a b] by simp
qed simp_all

lemma asNibbles_hp:
  assumes "nibbles ns"
  shows "asNibbles (hp leaf ns) = (if odd (length ns) then [flag leaf True] else [flag leaf False, 0]) @ ns"
proof (cases "odd (length ns)")
  case True
  then obtain n ms where ns: "ns = n # ms" by (cases ns) auto
  have "hi (flag leaf True * 16 + n) = flag leaf True \<and> lo (flag leaf True * 16 + n) = n"
    using assms by (intro hi_lo_pair flag_small) (simp add: ns)
  then show ?thesis using True assms by (cases leaf) (simp_all add: hp_def ns asNibbles_pairs flag_def)
next
  case False
  have "hi (flag leaf False * 16 + 0) = flag leaf False \<and> lo (flag leaf False * 16 + 0) = 0"
    by (intro hi_lo_pair flag_small) simp
  then show ?thesis using False assms by (simp add: hp_def asNibbles_pairs flag_def)
qed

definition so_far :: "nat \<times> bytes \<Rightarrow> bytes" where
  "so_far r = (if odd (fst r) then butlast (asNibbles (snd r)) else asNibbles (snd r))"

definition loop_ok :: "nat \<times> bytes \<Rightarrow> bool" where
  "loop_ok r \<longleftrightarrow> (odd (fst r) \<longrightarrow> snd r \<noteq> [] \<and> lo (last (snd r)) = 0)"

lemma so_far_step:
  assumes "loop_ok (d, ret)" "n < 16"
  defines "r \<equiv> (d + 1, if odd d then butlast ret @ [last ret OR n] else ret @ [push_bit 4 n])"
  shows "loop_ok r \<and> so_far r = so_far (d, ret) @ [n]"
proof (cases "odd d")
  case True
  then have ret: "ret = butlast ret @ [last ret]" "lo (last ret) = 0" using assms(1) by (simp_all add: loop_ok_def)
  from ret(1) have "asNibbles ret = asNibbles (butlast ret) @ [hi (last ret), lo (last ret)]" by (metis asNibbles_simps)
  then show ?thesis using True hi_lo_or [OF ret(2) assms(2)] by (simp add: r_def loop_ok_def so_far_def butlast_append)
qed (use hi_lo_push [OF assms(2)] in \<open>simp add: r_def loop_ok_def so_far_def butlast_append\<close>)

lemma hpe_loop_pending:
  assumes "e \<le> 2 * length data" "i \<le> e" "loop_ok r"
  shows "\<exists>r'. hpe_loop data i e r = Inr r' \<and> loop_ok r' \<and> fst r' = fst r + (e - i) \<and>
    so_far r' = so_far r @ take (e - i) (drop i (asNibbles data))"
  using assms
proof (induction data i e r rule: hpe_loop.induct)
  case (1 data i e r)
  obtain d ret where r: "r = (d, ret)" by fastforce
  show ?case
  proof (cases "i < e")
    case True
    let ?n = "nibble data i" let ?r = "(d + 1, if odd d then butlast ret @ [last ret OR ?n] else ret @ [push_bit 4 ?n])"
    have n: "?n = asNibbles data ! i" "?n < 16" using True "1.prems"(1) nibbles_asNibbles [of data] by (simp_all add: nibble_nth)
    have st: "loop_ok ?r \<and> so_far ?r = so_far r @ [?n]" using so_far_step [OF _ n(2), of d ret] "1.prems"(3) r by blast
    have i: "i div 2 < length data" using True "1.prems"(1) by linarith
    have "drop i (asNibbles data) = ?n # drop (i + 1) (asNibbles data)" "e - i = Suc (e - (i + 1))"
      using True "1.prems"(1) n(1) by (simp_all add: Cons_nth_drop_Suc)
    then have tk: "take (e - i) (drop i (asNibbles data)) = ?n # take (e - (i + 1)) (drop (i + 1) (asNibbles data))" by simp
    obtain r' where r': "hpe_loop data (i + 1) e ?r = Inr r'" "loop_ok r'" "fst r' = fst ?r + (e - (i + 1))"
        "so_far r' = so_far ?r @ take (e - (i + 1)) (drop (i + 1) (asNibbles data))"
      using "1.IH" [OF True i refl refl, of d ret] "1.prems" st True by (auto simp: r)
    have "hpe_loop data i e r = Inr r'" using True i r'(1) by (subst hpe_loop.simps) (simp add: r Let_def)
    then show ?thesis using r' st tk True by (auto simp: r)
  next
    case False
    then show ?thesis using "1.prems" by (subst hpe_loop.simps) simp
  qed
qed

lemma hpe_first_flag: "hpe_first leaf od = [flag leaf od * 16]" "asNibbles (hpe_first leaf od) = [flag leaf od, 0]"
proof -
  show e: "hpe_first leaf od = [flag leaf od * 16]" by (simp add: hpe_first_def flag_def)
  show "asNibbles (hpe_first leaf od) = [flag leaf od, 0]" using hi_lo_pair [OF flag_small, of 0 leaf od] by (simp add: e)
qed

lemma hpe_start:
  "loop_ok (if od then 1 else 2, hpe_first leaf od)"
  "so_far (if od then 1 else 2, hpe_first leaf od) = (if od then [flag leaf True] else [flag leaf False, 0])"
  using hi_lo_pair [OF flag_small, of 0 leaf od] by (cases od; simp add: loop_ok_def so_far_def hpe_first_flag)+

text \<open>A loop that has an even count at its end has written the hex prefix of the nibbles it read.\<close>

lemma hpe_done:
  assumes "nibbles ns" "od = odd (length ns)" "fst r = (if od then 1 else 2) + length ns"
    "so_far r = (if od then [flag leaf True] else [flag leaf False, 0]) @ ns"
  shows "snd r = hp leaf ns"
proof -
  have "even (fst r)" using assms(2,3) by auto
  then have "asNibbles (snd r) = asNibbles (hp leaf ns)" using assms by (simp add: so_far_def asNibbles_hp)
  then show ?thesis by (simp add: asNibbles_inj)
qed

lemma hexPrefixEncode_slice_hp:
  assumes "view_ok k" "b \<le> e" "e \<le> length (nibs k)"
  shows "hexPrefixEncode_slice k leaf (int b) (int e) = Inr (hp leaf (take (e - b) (drop b (nibs k))))"
    "hexPrefixEncode_slice k leaf (int b) (- 1) = Inr (hp leaf (drop b (nibs k)))"
proof -
  let ?o = "ns_offset k" and ?d = "ns_data k"
  have bnd: "2 * length ?d < 2 ^ 31" "?o \<le> 2 * length ?d" using assms(1) by (simp_all add: view_ok_def)
  have core: "ebind (hpe_loop ?d (?o + b) (?o + f) (if od then 1 else 2, hpe_first leaf od)) (\<lambda>r. Inr (snd r)) =
      Inr (hp leaf (take (f - b) (drop b (nibs k))))"
    if f: "b \<le> f" "f \<le> length (nibs k)" and od: "od = odd (f - b)" for f od
  proof -
    let ?ns = "take (f - b) (drop b (nibs k))"
    have e: "?o + f \<le> 2 * length ?d" using f bnd by (simp add: nibs_def)
    have ns: "nibbles ?ns" using nibbles_nibs by (meson in_set_dropD in_set_takeD)
    obtain r where r: "hpe_loop ?d (?o + b) (?o + f) (if od then 1 else 2, hpe_first leaf od) = Inr r"
        "fst r = (if od then 1 else 2) + (f - b)" "so_far r = (if od then [flag leaf True] else [flag leaf False, 0]) @ ?ns"
      using hpe_loop_pending [OF e _ hpe_start(1), of "?o + b" od leaf] f(1) unfolding hpe_start(2) by (auto simp: nibs_def add.commute)
    have "length ?ns = f - b" using f by simp
    then have "snd r = hp leaf ?ns" using r(2,3) od by (intro hpe_done [OF ns refl]) auto
    then show ?thesis by (simp add: r(1))
  qed
  have u: "unsigned32 (int b + int ?o) = ?o + b" "unsigned32 (int f + int ?o) = ?o + f" "unsigned32 (int (?o + f) - int (?o + b)) = f - b"
    if "b \<le> f" "f \<le> length (nibs k)" for f
  proof -
    have "?o + f < 2 ^ 32" using that bnd by (simp add: nibs_def)
    then show "unsigned32 (int f + int ?o) = ?o + f" "unsigned32 (int b + int ?o) = ?o + b"
      using that(1) unsigned32_int [of "?o + f"] unsigned32_int [of "?o + b"] by (simp_all add: add.commute)
    have "int (?o + f) - int (?o + b) = int (f - b)" using that(1) by simp
    then show "unsigned32 (int (?o + f) - int (?o + b)) = f - b" using unsigned32_int [of "f - b"] \<open>?o + f < 2 ^ 32\<close> by (simp only:)
  qed
  show "hexPrefixEncode_slice k leaf (int b) (int e) = Inr (hp leaf (take (e - b) (drop b (nibs k))))"
    using core [OF assms(2,3) refl] u [OF assms(2,3)] by (simp add: hexPrefixEncode_slice_def hexPrefixEncode_view_def Let_def del: of_nat_add)
  have le: "b \<le> length (nibs k)" using assms by simp
  have "int (2 * length ?d) - int ?o + 1 + - 1 = int (length (nibs k))" using bnd by (simp add: nibs_def)
  then show "hexPrefixEncode_slice k leaf (int b) (- 1) = Inr (hp leaf (drop b (nibs k)))"
    using core [OF le order_refl refl] u [OF le order_refl]
    by (simp add: hexPrefixEncode_slice_def hexPrefixEncode_view_def Let_def del: of_nat_add)
qed

lemma hexPrefixEncode_two_hp:
  assumes "view_ok a" "view_ok b"
  shows "hexPrefixEncode_two a b leaf = Inr (hp leaf (nibs a @ nibs b))"
proof -
  define od where "od = odd (length (nibs a @ nibs b))"
  let ?A = "2 * length (ns_data a)" and ?B = "2 * length (ns_data b)"
  have bnd: "?A < 2 ^ 31" "ns_offset a \<le> ?A" "?B < 2 ^ 31" "ns_offset b \<le> ?B" using assms by (simp_all add: view_ok_def)
  have u: "unsigned32 (int ?A) = ?A" "unsigned32 (int ?B) = ?B"
    "unsigned32 (int ?A - int (ns_offset a) + int ?B - int (ns_offset b)) = length (nibs a @ nibs b)"
  proof -
    show "unsigned32 (int ?A) = ?A" "unsigned32 (int ?B) = ?B" using bnd by (simp_all del: of_nat_mult)
    have "int ?A - int (ns_offset a) + int ?B - int (ns_offset b) = int (length (nibs a @ nibs b))"
      using bnd by (simp add: nibs_def)
    moreover have "length (nibs a @ nibs b) < 2 ^ 32" using view_size(3) [OF assms(1)] view_size(3) [OF assms(2)] by simp
    ultimately show "unsigned32 (int ?A - int (ns_offset a) + int ?B - int (ns_offset b)) = length (nibs a @ nibs b)"
      by (simp only: unsigned32_int)
  qed
  obtain r where r: "hpe_loop (ns_data a) (ns_offset a) ?A (if od then 1 else 2, hpe_first leaf od) = Inr r" "loop_ok r"
      "fst r = (if od then 1 else 2) + length (nibs a)" "so_far r = (if od then [flag leaf True] else [flag leaf False, 0]) @ nibs a"
    using hpe_loop_pending [OF order_refl bnd(2) hpe_start(1), of od leaf] unfolding hpe_start(2) by (auto simp: nibs_def)
  obtain r' where r': "hpe_loop (ns_data b) (ns_offset b) ?B r = Inr r'"
      "fst r' = fst r + length (nibs b)" "so_far r' = so_far r @ nibs b"
    using hpe_loop_pending [OF order_refl bnd(4) r(2)] by (auto simp: nibs_def)
  have ns: "nibbles (nibs a @ nibs b)" using nibbles_nibs [of a] nibbles_nibs [of b] by auto
  have "snd r' = hp leaf (nibs a @ nibs b)"
    using r(3,4) r'(2,3) by (intro hpe_done [OF ns od_def]) (simp_all del: length_append add: length_append [symmetric] add.assoc)
  then show ?thesis using r(1) r'(1) u by (simp add: hexPrefixEncode_two_def Let_def od_def del: of_nat_mult length_append even_add)
qed

subsection \<open>The partial key of a pair\<close>

lemma and_high:
  assumes "m < 16"
  shows "x AND push_bit 4 m = 0 \<longleftrightarrow> hi x AND m = 0"
proof -
  let ?p = "push_bit 4 m"
  have p: "hi ?p = m" "lo ?p = 0" using hi_lo_push [OF assms] by blast+
  have l: "lo (x AND ?p) = x AND lo ?p" unfolding byte_bits(2) [symmetric] by (rule and.assoc)
  have h: "hi (x AND ?p) = hi x AND hi ?p" unfolding byte_bits(1) [symmetric] by (rule drop_bit_and)
  show ?thesis
  proof
    assume "hi x AND m = 0"
    then show "x AND ?p = 0" using hi_lo(3) [of "x AND ?p"] unfolding h l p by (simp only:) simp
  next
    assume "x AND ?p = 0"
    then show "hi x AND m = 0" using h lo_small [of 0] unfolding p by simp
  qed
qed

lemma hp_first:
  assumes "nibbles ns"
  shows "hp l ns \<noteq> []" "(hp l ns ! 0 AND 0x10 \<noteq> 0) = odd (length ns)" "(hp l ns ! 0 AND 0x20 \<noteq> 0) = l"
proof -
  let ?x = "hp l ns ! 0"
  show ne: "hp l ns \<noteq> []" by (simp add: hp_def)
  then have "hi ?x = asNibbles (hp l ns) ! 0" by (cases "hp l ns") simp_all
  also have "\<dots> = flag l (odd (length ns))" unfolding asNibbles_hp [OF assms] by simp
  finally have h: "hi ?x = flag l (odd (length ns))" .
  have pb: "push_bit 4 1 = (0x10 :: byte)" "push_bit 4 2 = (0x20 :: byte)" by simp_all
  show "(?x AND 0x10 \<noteq> 0) = odd (length ns)"
    using and_high [of 1 ?x, unfolded pb h] by (cases l; cases "odd (length ns)"; simp only: flag_def) simp_all
  show "(?x AND 0x20 \<noteq> 0) = l"
    using and_high [of 2 ?x, unfolded pb h] by (cases l; cases "odd (length ns)"; simp only: flag_def) simp_all
qed

lemma length_hp_le: "2 * length (hp l ns) \<le> length ns + 2"
proof -
  have "2 * length (pairs ms) \<le> length ms" for ms by (induction ms rule: pairs.induct) simp_all
  from this [of ns] this [of "tl ns"] show ?thesis by (cases ns) (auto simp: hp_def)
qed

lemma keyOf_hp:
  assumes "nibbles ns" "length ns < 2 ^ 31 - 2"
  shows "view_ok (keyOf (hp l ns)) \<and> nibs (keyOf (hp l ns)) = ns"
proof -
  have "2 * length (hp l ns) = length (asNibbles (hp l ns))" by simp
  then have len: "2 * length (hp l ns) = (if odd (length ns) then 1 else 2) + length ns" unfolding asNibbles_hp [OF assms(1)] by simp
  have k: "keyOf (hp l ns) = slice (hp l ns) (if odd (length ns) then 1 else 2)"
    using hp_first [OF assms(1), of l] by (simp add: keyOf_def)
  have "view_ok (keyOf (hp l ns))" unfolding k view_ok_def using len assms(2) by (simp add: slice_def)
  moreover have "nibs (keyOf (hp l ns)) = ns" unfolding k by (simp add: nibs_def slice_def asNibbles_hp [OF assms(1)])
  ultimately show ?thesis ..
qed

end
