(* ===== verification/Trie_Maps.thy ===== *)
theory Trie_Maps
  imports Trie_Refine Trie_Slices
begin

section \<open>Maps of nibble keys\<close>

text \<open>
  The part of a map below a beginning of keys (\<open>sub\<close>), the longest beginning that all keys share (\<open>lcp\<close>), and the node of
  a map in these terms: a leaf, an extension (\<open>ext_item\<close>) or a branch (\<open>branch_item\<close>).
\<close>

subsection \<open>A sorted list is determined by its lookups\<close>

lemma distinct_pairs: "distinct (map fst m) \<Longrightarrow> m = map (\<lambda>k. (k, the (map_of m k))) (map fst m)"
  by (simp add: comp_def) (rule map_idI [symmetric], auto simp: map_of_eq_Some_iff [THEN iffD2])

lemma om_canonical:
  assumes "om_ok m" "om_ok n" "map_of m = map_of n"
  shows "m = n"
proof -
  have "set (map fst m) = set (map fst n)" using assms(3) by (metis dom_map_of_conv_image_fst set_map)
  then have "map fst m = map fst n" using assms(1,2) by (intro strict_sorted_equal) simp_all
  then show ?thesis using distinct_pairs [OF om_ok_distinct [OF assms(1)]] distinct_pairs [OF om_ok_distinct [OF assms(2)]] assms(3) by simp
qed

lemma om_mem: "om_ok m \<Longrightarrow> (k, v) \<in> set m \<longleftrightarrow> map_of m k = Some v"
  by (simp add: om_ok_distinct map_of_eq_Some_iff)

lemma set_om_set_iff: "om_ok m \<Longrightarrow> (l, w) \<in> set (om_set k v m) \<longleftrightarrow> (if l = k then w = v else (l, w) \<in> set m)"
  by (auto simp: om_mem)

subsection \<open>The part below a beginning\<close>

definition sub :: "bytes \<Rightarrow> hex_map \<Rightarrow> hex_map" where
  "sub q xs = cut_keys (length q) (filter (\<lambda>p. prefix q (fst p)) xs)"

lemma sub_Nil [simp]: "sub q [] = []" "sub [] xs = xs"
  by (simp_all add: sub_def cut_keys_def)

lemma sub_Cons: "sub q ((k, v) # xs) = (if prefix q k then (drop (length q) k, v) # sub q xs else sub q xs)"
  by (simp add: sub_def cut_keys_def)

lemma prefix_drop: "prefix q k \<longleftrightarrow> q @ drop (length q) k = k"
  by (metis append_eq_conv_conj prefix_def)

lemma map_of_sub [simp]: "map_of (sub q xs) k = map_of xs (q @ k)"
proof (induction xs)
  case (Cons p xs)
  then show ?case by (cases p) (auto simp: sub_Cons prefix_drop)
qed simp

lemma set_sub: "(k, v) \<in> set (sub q xs) \<longleftrightarrow> (q @ k, v) \<in> set xs"
proof (induction xs)
  case (Cons p xs)
  then show ?case by (cases p) (auto simp: sub_Cons prefix_def)
qed simp

lemma sub_sub: "sub p (sub q xs) = sub (q @ p) xs"
proof (induction xs)
  case (Cons x xs)
  then show ?case by (cases x) (auto simp: sub_Cons prefix_def)
qed simp

lemma keys_ok_sub: "keys_ok xs \<Longrightarrow> keys_ok (sub q xs)"
  unfolding sub_def by (rule keys_ok_cut [OF keys_ok_filter]) (auto simp: prefix_def)

lemma small_subset: "small xs \<Longrightarrow> small (sub q xs)"
  by (fastforce simp: small_def set_sub)

lemma sub_empty: "sub q xs = [] \<longleftrightarrow> (\<forall>p \<in> set xs. \<not> prefix q (fst p))"
  by (auto simp: sub_def cut_keys_def filter_empty_conv)

lemma keys_okD: "keys_ok xs \<Longrightarrow> om_ok xs" "keys_ok xs \<Longrightarrow> p \<in> set xs \<Longrightarrow> nibbles (fst p)"
  by (auto simp: keys_ok_def)

lemma keys_ok_set:
  assumes "keys_ok xs" "nibbles k"
  shows "keys_ok (om_set k v xs)"
proof -
  have "nibbles (fst p)" if "p \<in> set (om_set k v xs)" for p
    using that assms set_om_set_iff [OF keys_okD(1) [OF assms(1)], of "fst p" "snd p" k v]
    by (cases p) (auto simp: keys_ok_def split: if_splits)
  then show ?thesis using assms by (simp add: keys_ok_def)
qed

lemma sub_set:
  assumes "keys_ok xs" "nibbles k"
  shows "sub q (om_set k v xs) = (if prefix q k then om_set (drop (length q) k) v (sub q xs) else sub q xs)" (is "?l = ?r")
proof (rule om_canonical)
  show "om_ok ?l" by (rule keys_okD(1) [OF keys_ok_sub [OF keys_ok_set [OF assms]]])
  have o: "om_ok xs" "om_ok (sub q xs)" using keys_okD(1) [OF assms(1)] keys_okD(1) [OF keys_ok_sub [OF assms(1)]] by blast+
  then show "om_ok ?r" by simp
  show "map_of ?l = map_of ?r"
    by (rule ext) (auto simp: o prefix_drop)
qed

lemma small_set: "om_ok xs \<Longrightarrow> small xs \<Longrightarrow> length k < 2 ^ 32 - 1 \<Longrightarrow> length v < 2 ^ 59 \<Longrightarrow> small (om_set k v xs)"
  by (auto simp: small_def set_om_set_iff split: if_splits)

subsection \<open>The longest common beginning\<close>

definition all_prefix :: "bytes \<Rightarrow> hex_map \<Rightarrow> bool" where
  "all_prefix q xs \<longleftrightarrow> (\<forall>p \<in> set xs. prefix q (fst p))"

definition lcp :: "hex_map \<Rightarrow> bytes" where
  "lcp xs = (case xs of [] \<Rightarrow> [] | (k, v) # rest \<Rightarrow> take (lcps k rest) k)"

lemma prefix_commonPrefix: "prefix q a \<Longrightarrow> prefix q b \<Longrightarrow> length q \<le> commonPrefix a b"
proof (induction a b arbitrary: q rule: commonPrefix.induct)
  case (1 x xs y ys)
  then show ?case by (cases q) auto
qed auto

lemma lcp_prefix: "all_prefix (lcp xs) xs"
proof (cases xs)
  case (Cons p rest)
  obtain k v where p: "p = (k, v)" by fastforce
  have "prefix (take (lcps k rest) k) (fst r)" if "r \<in> set xs" for r using lcps_prefix [of r k v rest] that unfolding Cons p prefix_def by blast
  then show ?thesis by (simp add: all_prefix_def lcp_def Cons p)
qed (simp add: all_prefix_def)

lemma lcp_greatest:
  assumes "xs \<noteq> []" "all_prefix q xs"
  shows "prefix q (lcp xs)"
proof -
  obtain k v rest where xs: "xs = (k, v) # rest" using assms(1) by (cases xs) auto
  have k: "prefix q k" using assms(2) by (simp add: all_prefix_def xs)
  have "length q \<le> commonPrefix k (fst r)" if "r \<in> set rest" for r
    using assms(2) that k by (intro prefix_commonPrefix) (auto simp: all_prefix_def xs)
  then have "length q \<le> lcps k rest"
  proof (induction rest)
    case Nil
    then show ?case using k by (simp add: lcps_def prefix_length_le)
  qed (auto simp: lcps_def)
  then show ?thesis using k by (auto simp: lcp_def xs prefix_def)
qed

lemma lcp_eq:
  assumes "xs \<noteq> []" "all_prefix q xs" "\<And>a. \<not> all_prefix (q @ [a]) xs"
  shows "lcp xs = q"
proof -
  obtain w where w: "lcp xs = q @ w" using lcp_greatest [OF assms(1,2)] by (auto simp: prefix_def)
  have "w = []"
  proof (cases w)
    case (Cons a u)
    have "all_prefix (q @ [a]) xs" using lcp_prefix [of xs] by (auto simp: w Cons all_prefix_def prefix_def)
    then show ?thesis using assms(3) by blast
  qed
  then show ?thesis by (simp add: w)
qed

lemma all_prefix_sub:
  assumes "all_prefix q xs"
  shows "all_prefix (q @ p) xs \<longleftrightarrow> all_prefix p (sub q xs)" "length (sub q xs) = length xs"
proof -
  have q: "fst r = q @ drop (length q) (fst r)" if "r \<in> set xs" for r using assms that by (simp add: all_prefix_def prefix_drop)
  show "all_prefix (q @ p) xs \<longleftrightarrow> all_prefix p (sub q xs)"
  proof
    assume "all_prefix (q @ p) xs"
    then show "all_prefix p (sub q xs)" by (fastforce simp: all_prefix_def set_sub)
  next
    assume a: "all_prefix p (sub q xs)"
    have "prefix (q @ p) (fst r)" if "r \<in> set xs" for r
    proof -
      have "(drop (length q) (fst r), snd r) \<in> set (sub q xs)" using that q [OF that] by (simp add: set_sub)
      then have "prefix p (drop (length q) (fst r))" using a by (force simp: all_prefix_def)
      then show ?thesis using q [OF that] by (metis same_prefix_prefix)
    qed
    then show "all_prefix (q @ p) xs" by (simp add: all_prefix_def)
  qed
  have "filter (\<lambda>p. prefix q (fst p)) xs = xs" using assms by (simp add: all_prefix_def filter_id_conv)
  then show "length (sub q xs) = length xs" by (simp add: sub_def cut_keys_def)
qed

lemma sub_lcp: "xs \<noteq> [] \<Longrightarrow> all_prefix q xs \<Longrightarrow> lcp xs = q @ lcp (sub q xs)"
proof -
  assume ne: "xs \<noteq> []" and q: "all_prefix q xs"
  have ne': "sub q xs \<noteq> []" using all_prefix_sub(2) [OF q] ne by auto
  have "all_prefix (q @ lcp (sub q xs)) xs" using all_prefix_sub(1) [OF q] lcp_prefix by blast
  moreover have "\<not> all_prefix ((q @ lcp (sub q xs)) @ [a]) xs" for a
  proof
    assume "all_prefix ((q @ lcp (sub q xs)) @ [a]) xs"
    then have "all_prefix (lcp (sub q xs) @ [a]) (sub q xs)" using all_prefix_sub(1) [OF q, of "lcp (sub q xs) @ [a]"] by simp
    then show False using lcp_greatest [OF ne'] by (metis append_prefixD not_Cons_self2 prefix_order.antisym prefixI self_append_conv)
  qed
  ultimately show ?thesis by (intro lcp_eq [OF ne]) auto
qed

end
