(* ===== verification/Trie_Items.thy ===== *)
theory Trie_Items
  imports Trie_Maps "HOL-Library.Multiset"
begin

section \<open>Nodes as items\<close>

text \<open>
  The three forms of a node, the nodes that it refers to by their hash (\<open>nrefs\<close>, with multiplicity), and what the code reads
  from and writes to their encodings.
\<close>

subsection \<open>The forms of a node\<close>

definition leaf_item :: "bytes \<Rightarrow> bytes \<Rightarrow> rlp_item" where
  "leaf_item k v = RList [RStr (hp True k), RStr v]"

definition ext_item :: "(bytes \<Rightarrow> bytes) \<Rightarrow> bytes \<Rightarrow> hex_map \<Rightarrow> rlp_item" where
  "ext_item H q xs = RList [RStr (hp False q), child H (node H (sub q xs))]"

definition slot :: "(bytes \<Rightarrow> bytes) \<Rightarrow> hex_map \<Rightarrow> rlp_item" where
  "slot H ys = (if ys = [] then RStr [] else child H (node H ys))"

definition value_of :: "hex_map \<Rightarrow> bytes" where
  "value_of xs = (case map_of xs [] of None \<Rightarrow> [] | Some v \<Rightarrow> v)"

definition branch_items :: "(bytes \<Rightarrow> bytes) \<Rightarrow> hex_map \<Rightarrow> rlp_item list" where
  "branch_items H xs = map (\<lambda>i. slot H (sub [of_nat i] xs)) [0..<16] @ [RStr (value_of xs)]"

definition branch_item :: "(bytes \<Rightarrow> bytes) \<Rightarrow> hex_map \<Rightarrow> rlp_item" where
  "branch_item H xs = RList (branch_items H xs)"

lemma sub_singleton: "i < 16 \<Longrightarrow> nibble_group i xs = sub [of_nat i] xs"
proof -
  assume i: "i < 16"
  have "prefix [of_nat i] k \<longleftrightarrow> k \<noteq> [] \<and> unat (hd k) = i" for k :: bytes
  proof (cases k)
    case (Cons a k')
    have "of_nat i = a \<longleftrightarrow> unat a = i" using unat_of_nat_small [of i] i by auto
    then show ?thesis by (simp add: Cons)
  qed simp
  then show ?thesis by (simp add: nibble_group_def sub_def case_prod_beta')
qed

lemma nth_empty_key:
  assumes "keys_ok ((k, v) # rest)"
  shows "(if k = [] then v else []) = value_of ((k, v) # rest)"
proof (cases "k = []")
  case False
  have "k < fst p" if "p \<in> set rest" for p using assms that by (auto simp: keys_ok_def)
  then have "map_of rest [] = None" using False by (force simp: map_of_eq_None_iff)
  then show ?thesis using False by (simp add: value_of_def)
qed (simp add: value_of_def)

lemma node_forms:
  assumes "keys_ok xs" "2 \<le> length xs"
  shows "lcp xs \<noteq> [] \<Longrightarrow> node H xs = ext_item H (lcp xs) xs" "lcp xs = [] \<Longrightarrow> node H xs = branch_item H xs"
proof -
  obtain k v rest where xs: "xs = (k, v) # rest" using assms(2) by (cases xs) auto
  have ne: "rest \<noteq> []" using assms(2) by (auto simp: xs)
  let ?L = "lcps k rest"
  have L: "lcp xs = take ?L k" "length (lcp xs) = ?L" using lcps_le(1) [of k rest] by (simp_all add: lcp_def xs)
  have "filter (\<lambda>p. prefix (lcp xs) (fst p)) xs = xs" using lcp_prefix [of xs] by (simp add: all_prefix_def filter_id_conv)
  then have sub: "sub (lcp xs) xs = cut_keys ?L xs" by (simp add: sub_def L(2))
  show "node H xs = ext_item H (lcp xs) xs" if "lcp xs \<noteq> []"
  proof -
    have "0 < ?L" unfolding L(2) [symmetric] using that by simp
    then show ?thesis using node_simps(3) [OF ne, of k H v] sub L(1) by (simp add: xs ext_item_def)
  qed
  show "node H xs = branch_item H xs" if "lcp xs = []"
  proof -
    have z: "?L = 0" using that L(2) by simp
    have "map (\<lambda>i. if nibble_group i xs = [] then RStr [] else child H (node H (nibble_group i xs))) [0..<16] = map (\<lambda>i. slot H (sub [of_nat i] xs)) [0..<16]"
      by (rule map_cong) (simp_all add: slot_def sub_singleton)
    then show ?thesis using node_simps(4) [OF ne z, of H v] nth_empty_key [of k v rest] assms(1)
      unfolding branch_item_def branch_items_def xs by (simp only:)
  qed
qed

lemma node_list: "xs \<noteq> [] \<Longrightarrow> \<exists>ys. node H xs = RList ys \<and> ys \<noteq> []"
proof -
  assume "xs \<noteq> []"
  then obtain k v rest where xs: "xs = (k, v) # rest" by (cases xs) auto
  consider "rest = []" | "rest \<noteq> []" "0 < lcps k rest" | "rest \<noteq> []" "lcps k rest = 0" by blast
  then show ?thesis
  proof cases
    case 3
    then show ?thesis using node_simps(4) [OF 3, of H v] by (simp add: xs)
  qed (simp_all add: xs node_simps)
qed

subsection \<open>The nodes that a node refers to\<close>

definition self_ref :: "(bytes \<Rightarrow> bytes) \<Rightarrow> hex_map \<Rightarrow> bytes multiset" where
  "self_ref H ys = (if length (rlp_enc (node H ys)) < 32 then {#} else {#rlp_enc (node H ys)#})"

function nrefs :: "(bytes \<Rightarrow> bytes) \<Rightarrow> hex_map \<Rightarrow> bytes multiset" where
  "nrefs H xs =
     (if length xs < 2 then {#}
      else if lcp xs \<noteq> [] then self_ref H (sub (lcp xs) xs) + nrefs H (sub (lcp xs) xs)
      else (\<Sum>i \<in> {0..<16}. if sub [of_nat i] xs = [] then {#} else self_ref H (sub [of_nat i] xs) + nrefs H (sub [of_nat i] xs)))"
  by auto
termination
proof (relation "measure (\<lambda>(H, xs). key_sum xs)")
  fix H :: "bytes \<Rightarrow> bytes" and xs :: hex_map
  assume a: "\<not> length xs < 2" "lcp xs \<noteq> []"
  then obtain p where p: "p \<in> set xs" by (cases xs) auto
  have "prefix (lcp xs) (fst p)" using lcp_prefix p by (auto simp: all_prefix_def)
  then have "fst p \<noteq> []" using a(2) by auto
  then have "key_sum (cut_keys (length (lcp xs)) (filter (\<lambda>p. prefix (lcp xs) (fst p)) xs)) < key_sum (filter (\<lambda>p. prefix (lcp xs) (fst p)) xs)"
    using a(2) p \<open>prefix (lcp xs) (fst p)\<close> by (intro key_sum_cut_less [of p]) auto
  then have "key_sum (sub (lcp xs) xs) < key_sum xs" unfolding sub_def using key_sum_filter order.strict_trans2 by blast
  then show "((H, sub (lcp xs) xs), H, xs) \<in> measure (\<lambda>(H, xs). key_sum xs)" by simp
next
  fix H :: "bytes \<Rightarrow> bytes" and xs :: hex_map and i :: nat
  assume a: "i \<in> {0..<16}" "sub [of_nat i] xs \<noteq> []"
  then have "nibble_group i xs = sub [of_nat i] xs" by (intro sub_singleton) simp
  then have "key_sum (sub [of_nat i] xs) < key_sum xs" using key_sum_group [of i xs] a(2) by simp
  then show "((H, sub [of_nat i] xs), H, xs) \<in> measure (\<lambda>(H, xs). key_sum xs)" by simp
qed simp

declare nrefs.simps [simp del]

definition krefs :: "(bytes \<Rightarrow> bytes) \<Rightarrow> hex_map \<Rightarrow> bytes multiset" where
  "krefs H ys = (if ys = [] then {#} else self_ref H ys + nrefs H ys)"

definition brefs :: "(bytes \<Rightarrow> bytes) \<Rightarrow> hex_map \<Rightarrow> bytes multiset" where
  "brefs H xs = (\<Sum>i \<in> {0..<16}. krefs H (sub [of_nat i] xs))"

lemma nrefs_forms:
  "length xs < 2 \<Longrightarrow> nrefs H xs = {#}"
  "2 \<le> length xs \<Longrightarrow> lcp xs \<noteq> [] \<Longrightarrow> nrefs H xs = krefs H (sub (lcp xs) xs)"
  "2 \<le> length xs \<Longrightarrow> lcp xs = [] \<Longrightarrow> nrefs H xs = brefs H xs"
proof -
  show "2 \<le> length xs \<Longrightarrow> lcp xs \<noteq> [] \<Longrightarrow> nrefs H xs = krefs H (sub (lcp xs) xs)"
    using all_prefix_sub(2) [OF lcp_prefix, of xs] by (subst nrefs.simps) (auto simp: krefs_def)
  show "2 \<le> length xs \<Longrightarrow> lcp xs = [] \<Longrightarrow> nrefs H xs = brefs H xs"
    by (subst nrefs.simps) (simp add: brefs_def krefs_def)
qed (subst nrefs.simps, simp)

lemma nrefs_sub:
  assumes "2 \<le> length xs" "prefix q (lcp xs)" "q \<noteq> lcp xs"
  shows "nrefs H (sub q xs) = nrefs H xs"
proof -
  have q: "all_prefix q xs" using lcp_prefix [of xs] assms(2) by (meson all_prefix_def prefix_order.trans)
  have "lcp xs = q @ lcp (sub q xs)" using assms(1) by (intro sub_lcp [OF _ q]) auto
  then have "nrefs H (sub q xs) = krefs H (sub (lcp xs) xs)"
    using assms all_prefix_sub(2) [OF q] by (subst nrefs_forms(2)) (auto simp: sub_sub)
  moreover have "lcp xs \<noteq> []" using assms(2,3) by auto
  ultimately show ?thesis using nrefs_forms(2) [OF assms(1)] by simp
qed

end
