(* ===== verification/Trie_Codec.thy ===== *)
theory Trie_Codec
  imports Trie_Items
begin

section \<open>Reading and writing nodes\<close>

text \<open>
  What the operations of \<open>GenericTrieDB\<close> see of an encoded node, and that what they append to a stream is the node's items.
\<close>

unbundle bit_operations_syntax

subsection \<open>Reading\<close>

lemma not_Empty_list:
  assumes "rlp_fits (RList xs)" "xs \<noteq> []"
  shows "\<not> isEmpty (rlp_enc (RList xs))" "\<not> isNull (rlp_enc (RList xs))"
proof -
  let ?p = "concat (map rlp_enc xs)"
  have "?p \<noteq> []" using assms(2) by auto
  moreover have "isList (enc_list ?p)" "rlp_length (enc_list ?p) = Inr (length ?p)"
    using reader_enc_list [OF rlp_fits_payload(2) [OF assms(1)], of "[]"] by simp_all
  ultimately show "\<not> isEmpty (rlp_enc (RList xs))"
    unfolding rlp_enc_RList by (auto simp: isEmpty_def isList_def rlp_length_def requireGood_def isNull_def split: if_splits)
  show "\<not> isNull (rlp_enc (RList xs))" by (simp add: isNull_def)
qed

lemma isEmpty_str: "rlp_fits (RStr b) \<Longrightarrow> isEmpty (rlp_enc (RStr b)) \<longleftrightarrow> b = []"
proof -
  assume f: "rlp_fits (RStr b)"
  note r = reader_data [OF f]
  show ?thesis
  proof
    assume "isEmpty (rlp_enc (RStr b))"
    then have "rlp_length (enc_bytes b) = Inr 0"
      using r(4,5) by (auto simp: isEmpty_def isList_def rlp_length_def requireGood_def isNull_def)
    then show "b = []" using r(3) by simp
  qed (simp add: isEmpty_def isNull_def enc_bytes_def enc_hdr_def)
qed

lemma list_reads:
  assumes "rlp_fits (RList xs)"
  shows "isList (rlp_enc (RList xs))" "itemCount (rlp_enc (RList xs)) = Inr (length xs)"
    "i < length xs \<Longrightarrow> rlp_at (rlp_enc (RList xs)) i = Inr (rlp_enc (xs ! i))"
  using assms by (simp_all add: itemCount_enc rlp_at_nth)

lemma str_reads:
  assumes "rlp_fits (RStr b)"
  shows "rlp_toString (rlp_enc (RStr b)) = Inr b" "payload (rlp_enc (RStr b)) = Inr b" "\<not> isList (rlp_enc (RStr b))" "isData (rlp_enc (RStr b))"
    "length b = 32 \<Longrightarrow> toHash 32 fl (rlp_enc (RStr b)) = Inr b"
  using reader_data [OF assms] hash_field.read_item [of b 32, OF _ assms] by (simp_all add: rlp_toString_def)

lemma pair_reads:
  assumes "rlp_fits (RList [RStr (hp l ns), x])" "nibbles ns"
  shows "keyOf_item (rlp_enc (RList [RStr (hp l ns), x])) = Inr (keyOf (hp l ns))"
    "isLeaf (rlp_enc (RList [RStr (hp l ns), x])) = Inr l"
proof -
  have "rlp_fits (RStr (hp l ns))" using rlp_fits_item [OF assms(1)] by simp
  note p = str_reads(2) [OF this]
  have a: "rlp_at (rlp_enc (RList [RStr (hp l ns), x])) 0 = Inr (rlp_enc (RStr (hp l ns)))" using list_reads(3) [OF assms(1), of 0] by simp
  show "keyOf_item (rlp_enc (RList [RStr (hp l ns), x])) = Inr (keyOf (hp l ns))" using a p by (simp add: keyOf_item_def)
  show "isLeaf (rlp_enc (RList [RStr (hp l ns), x])) = Inr l"
    using a p hp_first [OF assms(2), of l] by (simp add: isLeaf_def)
qed

subsection \<open>Writing\<close>

lemma emits_one [simp]: "emits [x] = emit x" "emit (RStr b) = append_bytes False b"
  by (rule ext, simp)+

lemma append_item_emit:
  assumes "rlp_fits (RList xs)" "i < length xs"
  shows "append_item (rlp_enc (RList xs)) i s = emit (xs ! i) s"
proof -
  have "rlp_fits (xs ! i)" by (rule rlp_fits_item [OF assms(1) nth_mem [OF assms(2)]])
  then show ?thesis using list_reads(3) [OF assms] by (simp add: append_item_def emit_enc rlp_fits_def rlp_max_def)
qed

lemma append_range_emits:
  assumes "rlp_fits (RList xs)" "j \<le> length xs"
  shows "append_range (rlp_enc (RList xs)) [i..<j] s = emits (drop i (take j xs)) s"
proof (induction "j - i" arbitrary: i s)
  case (Suc n)
  then have ij: "i < j" by simp
  have "drop i (take j xs) = xs ! i # drop (Suc i) (take j xs)" using ij assms(2) by (metis Cons_nth_drop_Suc length_take min.absorb2 nth_take)
  moreover have "append_range (rlp_enc (RList xs)) [Suc i..<j] = emits (drop (Suc i) (take j xs))" using Suc by (intro ext Suc) simp
  moreover have "append_item (rlp_enc (RList xs)) i s = emit (xs ! i) s" using assms ij by (intro append_item_emit) simp_all
  ultimately show ?case using ij by (simp add: upt_conv_Cons)
qed simp

text \<open>A list that is being written: the stream after its first items, and that the others complete it.\<close>

lemma open_list:
  assumes "rlp_fits (RList (xs @ ys))"
  obtains s where "ebind (appendList (length (xs @ ys)) RLPStream) (emits xs) = Inr s"
    "ebind (emits ys s) stream_out = Inr (rlp_enc (RList (xs @ ys)))"
proof -
  have "ebind (ebind (ebind (appendList (length (xs @ ys)) RLPStream) (emits xs)) (emits ys)) stream_out = Inr (rlp_enc (RList (xs @ ys)))"
    using emit_out [OF assms] by (simp add: emits_append ebind_assoc)
  then show ?thesis using that by (auto simp: ebind_Inr_iff)
qed

lemma list_out: "rlp_fits (RList xs) \<Longrightarrow> ebind (ebind (appendList (length xs) RLPStream) (emits xs)) stream_out = Inr (rlp_enc (RList xs))"
  using emit_out [of "RList xs"] by simp

lemma pair_out:
  "rlp_fits (RList [a, b]) \<Longrightarrow>
    ebind (appendList 2 RLPStream) (\<lambda>s. ebind (emit a s) (\<lambda>s. ebind (emit b s) stream_out)) = Inr (rlp_enc (RList [a, b]))"
  using list_out [of "[a, b]"] by (simp add: ebind_assoc numeral_2_eq_2)

subsection \<open>A node in its parent\<close>

lemma child_cases:
  obtains "length (rlp_enc it) < 32" "child H it = it" | "\<not> length (rlp_enc it) < 32" "child H it = RStr (H (rlp_enc it))"
  by (cases "length (rlp_enc it) < 32") (simp_all add: child_def)

lemma child_fits: "(\<And>b. length (H b) = 32) \<Longrightarrow> rlp_fits (child H it)"
  using child_length [of H it] by (simp add: rlp_fits_def rlp_max_def)

lemma child_reads:
  assumes H: "\<And>b. length (H b) = 32" and "ys \<noteq> []"
  shows "\<not> isEmpty (rlp_enc (child H (RList ys)))" "isList (rlp_enc (child H (RList ys))) \<longleftrightarrow> length (rlp_enc (RList ys)) < 32"
proof -
  have f: "rlp_fits (child H (RList ys))" by (rule child_fits) (rule H)
  have "\<not> isEmpty (rlp_enc (child H (RList ys))) \<and> (isList (rlp_enc (child H (RList ys))) \<longleftrightarrow> length (rlp_enc (RList ys)) < 32)"
  proof (cases rule: child_cases [of "RList ys" H])
    case 1
    then show ?thesis using f not_Empty_list [OF _ assms(2)] by simp
  next
    case 2
    have "H (rlp_enc (RList ys)) \<noteq> []" using H [of "rlp_enc (RList ys)"] by auto
    then show ?thesis using f isEmpty_str [of "H (rlp_enc (RList ys))"] isList_enc(2) [of "H (rlp_enc (RList ys))"] 2 by (simp del: rlp_enc.simps)
  qed
  then show "\<not> isEmpty (rlp_enc (child H (RList ys)))" "isList (rlp_enc (child H (RList ys))) \<longleftrightarrow> length (rlp_enc (RList ys)) < 32"
    by blast+
qed

lemma tmonad [simp]:
  "tbind (tret x) f d = f x d" "tlift (Inr x) d = (Inr x, d)" "tlift (Inl e) d = (Inl (RlpFail e), d)" "tret x d = (Inr x, d)"
  "tmod g d = (Inr (), g d)"
  by (simp_all add: tbind_def tret_def tlift_def tmod_def)

lemma tbind_run: "m d = (Inr x, d') \<Longrightarrow> tbind m f d = f x d'"
  by (simp add: tbind_def)

lemma tbind_lift [simp]: "tbind (tlift (Inr x)) f d = f x d"
  by (simp add: tbind_run)

lemma follow_child:
  assumes H: "\<And>b. length (H b) = 32" and "ys \<noteq> []" "rlp_fits (RList ys)"
    and "\<not> length (rlp_enc (RList ys)) < 32 \<Longrightarrow> db_lookup ops d (H (rlp_enc (RList ys))) = rlp_enc (RList ys)"
  shows "follow ops (rlp_enc (child H (RList ys))) d = (Inr (rlp_enc (RList ys)), d)"
proof (cases rule: child_cases [of "RList ys" H])
  case 1
  then show ?thesis using list_reads(1) [OF assms(3)] by (simp add: follow_def)
next
  case 2
  have f: "rlp_fits (RStr (H (rlp_enc (RList ys))))" using child_fits [of H "RList ys"] H 2 by simp
  show ?thesis using 2 str_reads(3,5) [OF f] H assms(4) RLP_exact(1) [OF assms(3)]
    by (simp add: follow_def tbind_run db_node_def del: rlp_enc.simps)
qed

end
