(* ===== verification/Trie_Ops.thy ===== *)
theory Trie_Ops
  imports Trie_Codec
begin

section \<open>The steps of the trie operations\<close>

text \<open>
  The operations change the database by inserting and killing nodes. A run is the list of these events; \<open>place\<close>, \<open>cleve\<close>,
  \<open>branch\<close> and the others are described by the node they answer and the run they make.
\<close>

subsection \<open>Bounds\<close>

definition trie_ok :: "hex_map \<Rightarrow> bool" where
  "trie_ok xs \<longleftrightarrow> keys_ok xs \<and> (\<forall>(k, v) \<in> set xs. length k < 2 ^ 31 - 2 \<and> length v < 2 ^ 59)"

lemma trie_okD: "trie_ok xs \<Longrightarrow> keys_ok xs" "trie_ok xs \<Longrightarrow> small xs"
    "trie_ok xs \<Longrightarrow> (k, v) \<in> set xs \<Longrightarrow> nibbles k \<and> length k < 2 ^ 31 - 2 \<and> length v < 2 ^ 59"
  by (auto simp: trie_ok_def small_def keys_ok_def)

lemma trie_ok_sub: "trie_ok xs \<Longrightarrow> trie_ok (sub q xs)"
proof -
  assume ok: "trie_ok xs"
  have "length k < 2 ^ 31 - 2 \<and> length v < 2 ^ 59" if "(k, v) \<in> set (sub q xs)" for k v
    using trie_okD(3) [OF ok, of "q @ k" v] that by (auto simp: set_sub)
  then show ?thesis using keys_ok_sub ok by (auto simp: trie_ok_def)
qed

lemma trie_ok_set:
  assumes "trie_ok xs" "nibbles k" "length k < 2 ^ 31 - 2" "length v < 2 ^ 59"
  shows "trie_ok (om_set k v xs)"
  using assms keys_ok_set [of xs k v] by (auto simp: trie_ok_def set_om_set_iff keys_okD split: if_splits)

lemma fits_pair:
  assumes "length a < 2 ^ 59" "length (rlp_enc b) < 2 ^ 60"
  shows "rlp_fits (RList [RStr a, b])"
proof -
  have "length (rlp_enc (RStr a)) \<le> 9 + length a" using assms(1) by (intro enc_str_length) simp
  then show ?thesis using enc_list_length [of "[RStr a, b]"] assms by (simp add: rlp_fits_def rlp_max_def)
qed

lemma length_hp_bound: "length ns < 2 ^ 32 \<Longrightarrow> length (hp l ns) < 2 ^ 59"
  using length_hp [of l ns] by simp

lemma enc_str_bound: "length v < 2 ^ 59 \<Longrightarrow> length (rlp_enc (RStr v)) < 2 ^ 60"
  using enc_str_length [of v] by simp

lemma leaf_fits: "length k < 2 ^ 32 \<Longrightarrow> length v < 2 ^ 59 \<Longrightarrow> rlp_fits (leaf_item k v)"
  unfolding leaf_item_def by (intro fits_pair length_hp_bound enc_str_bound)

lemma pair_child_fits: "(\<And>b. length (H b) = 32) \<Longrightarrow> length q < 2 ^ 32 \<Longrightarrow> rlp_fits (RList [RStr (hp l q), child H it])"
  using child_length [of H it] by (intro fits_pair length_hp_bound) auto

lemma slot_length:
  assumes "\<And>b. length (H b) = 32"
  shows "length (rlp_enc (slot H ys)) \<le> 41"
  using child_length [of H "node H ys"] assms by (simp add: slot_def enc_bytes_def enc_hdr_def)

lemma fits_17:
  assumes "length xs = 16" "\<And>x. x \<in> set xs \<Longrightarrow> length (rlp_enc x) \<le> 41" "length (rlp_enc w) < 2 ^ 60"
  shows "rlp_fits (RList (xs @ [w]))"
proof -
  have "sum_list (map (\<lambda>x. length (rlp_enc x)) xs) \<le> length xs * 41" by (rule sum_list_bound) (rule assms(2))
  then have "sum_list (map (\<lambda>x. length (rlp_enc x)) (xs @ [w])) < 2 ^ 60 + 1000" using assms(1,3) by simp
  then show ?thesis using enc_list_length [of "xs @ [w]"] by (simp add: rlp_fits_def rlp_max_def)
qed

lemma value_of_length: "trie_ok xs \<Longrightarrow> length (value_of xs) < 2 ^ 59"
  using trie_okD(3) [of xs "[]"] by (auto simp: value_of_def om_mem [OF keys_okD(1) [OF trie_okD(1)], symmetric] split: option.splits)

lemma length_branch_items [simp]: "length (branch_items H xs) = 17"
  by (simp add: branch_items_def)

lemma branch_fits:
  assumes "\<And>b. length (H b) = 32" "trie_ok xs"
  shows "rlp_fits (branch_item H xs)"
  unfolding branch_item_def branch_items_def
proof (rule fits_17)
  show "length (rlp_enc x) \<le> 41" if "x \<in> set (map (\<lambda>i. slot H (sub [of_nat i] xs)) [0..<16])" for x
    using that slot_length [of H] assms(1) by auto
  show "length (rlp_enc (RStr (value_of xs))) < 2 ^ 60" using value_of_length [OF assms(2)] by (rule enc_str_bound)
qed simp

subsection \<open>Runs\<close>

datatype node_event = Put bytes | Kill bytes

fun step :: "'d db_ops \<Rightarrow> hash_fun \<Rightarrow> node_event \<Rightarrow> 'd \<Rightarrow> 'd" where
  "step ops H (Put e) d = db_insert ops (H e) e d"
| "step ops H (Kill e) d = db_kill ops (H e) d"

definition run :: "'d db_ops \<Rightarrow> hash_fun \<Rightarrow> node_event list \<Rightarrow> 'd \<Rightarrow> 'd" where
  "run ops H es d = fold (step ops H) es d"

fun puts :: "node_event list \<Rightarrow> bytes multiset" where
  "puts [] = {#}"
| "puts (Put e # es) = add_mset e (puts es)"
| "puts (Kill e # es) = puts es"

fun kills :: "node_event list \<Rightarrow> bytes multiset" where
  "kills [] = {#}"
| "kills (Put e # es) = kills es"
| "kills (Kill e # es) = add_mset e (kills es)"

lemma run_simps [simp]: "run ops H [] d = d" "run ops H (e # es) d = run ops H es (step ops H e d)"
    "run ops H (es @ fs) d = run ops H fs (run ops H es d)"
  by (simp_all add: run_def)

lemma puts_append [simp]: "puts (es @ fs) = puts es + puts fs"
  by (induction es rule: puts.induct) simp_all

lemma kills_append [simp]: "kills (es @ fs) = kills es + kills fs"
  by (induction es rule: kills.induct) simp_all

definition kev :: "rlp_item \<Rightarrow> node_event list" where
  "kev it = (if length (rlp_enc it) < 32 then [] else [Kill (rlp_enc it)])"

definition pev :: "rlp_item \<Rightarrow> node_event list" where
  "pev it = (if length (rlp_enc it) < 32 then [] else [Put (rlp_enc it)])"

definition big :: "rlp_item \<Rightarrow> bytes multiset" where
  "big it = (if length (rlp_enc it) < 32 then {#} else {#rlp_enc it#})"

lemma ev_sets [simp]: "puts (kev it) = {#}" "kills (kev it) = big it" "puts (pev it) = big it" "kills (pev it) = {#}"
  by (simp_all add: kev_def pev_def big_def)

lemma ev_length: "length (kev it) \<le> 1" "length (pev it) \<le> 1"
  by (simp_all add: kev_def pev_def)

lemma self_ref_big: "self_ref H xs = big (node H xs)"
  by (simp add: self_ref_def big_def)

context node_store
begin

lemma ok_run: "ok d \<Longrightarrow> ok (run ops H es d)"
proof (induction es arbitrary: d)
  case (Cons e es)
  then show ?case by (cases e) (simp_all add: ok_insert ok_kill)
qed simp

lemma lookup_run:
  assumes "ok d" "inj_on H U" "set_mset (puts es) \<subseteq> U" "[] \<notin># puts es" "e \<in> U"
    "db_lookup ops d (H e) = e \<or> e \<in># puts es"
  shows "db_lookup ops (run ops H es d) (H e) = e"
  using assms(1,3,4,6)
proof (induction es arbitrary: d)
  case (Cons f es)
  show ?case
  proof (cases f)
    case (Put g)
    have l: "db_lookup ops (db_insert ops (H g) g d) (H e) = (if H e = H g then g else db_lookup ops d (H e))"
      by (rule lookup_insert) (use Cons.prems(1,3) in \<open>auto simp: Put\<close>)
    have "g \<in> U" using Cons.prems(2) by (simp add: Put)
    then have "H e = H g \<longleftrightarrow> e = g" using assms(2,5) by (auto dest: inj_onD)
    then have "db_lookup ops (db_insert ops (H g) g d) (H e) = e \<or> e \<in># puts es" using l Cons.prems(4) by (auto simp: Put)
    then show ?thesis using Cons.IH [OF ok_insert [OF Cons.prems(1)], of "H g" g] Cons.prems(2,3) by (simp add: Put)
  next
    case (Kill g)
    then show ?thesis using Cons.IH [OF ok_kill [OF Cons.prems(1)], of "H g"] Cons.prems by (simp add: lookup_kill)
  qed
qed simp

lemma refs_run:
  assumes "inj_on H U" "set_mset (puts es) \<subseteq> U" "set_mset (kills es) \<subseteq> U" "e \<in> U" "\<forall>h. refs d h + length es < 2 ^ 32"
  shows "refs d (H e) + count (puts es) e \<le> refs (run ops H es d) (H e) + count (kills es) e"
  using assms(2,3,5)
proof (induction es arbitrary: d)
  case (Cons f es)
  have eq: "H g = H e \<longleftrightarrow> g = e" if "g \<in> U" for g using assms(1,4) that by (auto dest: inj_onD)
  show ?case
  proof (cases f)
    case (Put g)
    have g: "g \<in> U" using Cons.prems(1) by (simp add: Put)
    have b: "refs d (H g) + 1 < 2 ^ 32" using spec [OF Cons.prems(3), of "H g"] by simp
    have "\<forall>h. refs (db_insert ops (H g) g d) h + length es < 2 ^ 32"
    proof
      fix h
      show "refs (db_insert ops (H g) g d) h + length es < 2 ^ 32" using spec [OF Cons.prems(3), of h] refs_insert [OF b, of g h] by (auto split: if_splits)
    qed
    then have "refs (db_insert ops (H g) g d) (H e) + count (puts es) e \<le> refs (run ops H (f # es) d) (H e) + count (kills es) e"
      using Cons.IH [of "db_insert ops (H g) g d"] Cons.prems(1,2) by (simp add: Put)
    moreover have "refs (db_insert ops (H g) g d) (H e) = (if g = e then refs d (H e) + 1 else refs d (H e))"
      using refs_insert [OF b, of g "H e"] eq [OF g] by (simp only: eq_commute)
    ultimately show ?thesis by (cases "g = e") (simp_all add: Put)
  next
    case (Kill g)
    have g: "g \<in> U" using Cons.prems(2) by (simp add: Kill)
    have "\<forall>h. refs (db_kill ops (H g) d) h + length es < 2 ^ 32" 
    proof
      fix h
      show "refs (db_kill ops (H g) d) h + length es < 2 ^ 32" using spec [OF Cons.prems(3), of h] refs_kill [of "H g" d h] by (auto split: if_splits)
    qed
    then have "refs (db_kill ops (H g) d) (H e) + count (puts es) e \<le> refs (run ops H (f # es) d) (H e) + count (kills es) e"
      using Cons.IH [of "db_kill ops (H g) d"] Cons.prems(1,2) by (simp add: Kill)
    moreover have "refs (db_kill ops (H g) d) (H e) = (if g = e then refs d (H e) - 1 else refs d (H e))"
      using refs_kill [of "H g" d "H e"] eq [OF g] by (simp only: eq_commute)
    ultimately show ?thesis by (cases "g = e") (simp_all add: Kill)
  qed
qed simp

end

subsection \<open>The steps\<close>

lemma killNode_run: "killNode_at ops (rlp_enc it) (H (rlp_enc it)) d = (Inr (), run ops H (kev it) d)"
    "killNode ops H (rlp_enc it) d = (Inr (), run ops H (kev it) d)"
  by (simp_all add: killNode_def killNode_at_def forceKillNode_def kev_def)

lemma streamNode_run:
  assumes "rlp_fits it" "emit (child H it) s = Inr s'"
  shows "streamNode ops H s (rlp_enc it) d = (Inr s', run ops H (pev it) d)"
proof (cases rule: child_cases [of it H])
  case 1
  then have "appendRaw (rlp_enc it) 1 s = Inr s'" using assms by (simp add: emit_enc rlp_fits_def rlp_max_def)
  then show ?thesis using 1 by (simp add: streamNode_def pev_def)
next
  case 2
  then show ?thesis using assms(2) by (simp add: streamNode_def pev_def tbind_run forceInsertNode_def)
qed

lemma place_leaf:
  assumes "view_ok k" "length v < 2 ^ 59"
  shows "place ops H (rlp_enc (RStr [])) k v d = (Inr (rlp_enc (leaf_item (nibs k) v)), d)"
proof -
  have "rlp_fits (leaf_item (nibs k) v)" using view_size(3) [OF assms(1)] assms(2) by (intro leaf_fits) simp_all
  then have out: "ebind (appendList 2 RLPStream) (\<lambda>s. ebind (append_bytes False (hp True (nibs k)) s) (\<lambda>s. ebind (append_bytes False v s) stream_out)) =
      Inr (rlp_enc (leaf_item (nibs k) v))"
    using pair_out [of "RStr (hp True (nibs k))" "RStr v"] by (simp add: leaf_item_def)
  have hp: "hexPrefixEncode_slice k True 0 (- 1) = Inr (hp True (nibs k))" using hexPrefixEncode_slice_hp(2) [OF assms(1), of 0 0] by simp
  have e: "rlp_enc (RStr []) = [128]" "isEmpty [128]" by (simp_all add: isEmpty_def isNull_def enc_bytes_def enc_hdr_def)
  show ?thesis using out unfolding e(1) by (simp add: place_def killNode_def killNode_at_def e(2) hp)
qed

lemma place_pair:
  assumes "rlp_fits (RList [a, b])" "rlp_fits (RList [a, RStr v])"
  shows "place ops H (rlp_enc (RList [a, b])) k v d = (Inr (rlp_enc (RList [a, RStr v])), run ops H (kev (RList [a, b])) d)"
  using list_reads(2) [OF assms(1)] not_Empty_list [OF assms(1)] append_item_emit [OF assms(1), of 0] pair_out [OF assms(2)]
  by (simp add: place_def killNode_run tbind_run)

lemma place_branch:
  assumes "rlp_fits (RList (xs @ [w]))" "rlp_fits (RList (xs @ [RStr v]))" "length xs = 16"
  shows "place ops H (rlp_enc (RList (xs @ [w]))) k v d = (Inr (rlp_enc (RList (xs @ [RStr v]))), run ops H (kev (RList (xs @ [w]))) d)"
proof -
  have "append_range (rlp_enc (RList (xs @ [w]))) [0..<16] = emits xs"
    using append_range_emits [OF assms(1), of 16 0] assms(3) by (intro ext) simp
  moreover have "ebind (appendList 17 RLPStream) (\<lambda>s. ebind (emits xs s) (\<lambda>s. ebind (append_bytes False v s) stream_out)) = Inr (rlp_enc (RList (xs @ [RStr v])))"
    using list_out [OF assms(2)] assms(3) by (simp add: emits_append emits_Cons_fun ebind_assoc)
  ultimately show ?thesis using list_reads(2) [OF assms(1)] not_Empty_list [OF assms(1)] assms(3)
    by (simp add: place_def killNode_run tbind_run)
qed

definition bottom :: "bool \<Rightarrow> nat \<Rightarrow> bytes \<Rightarrow> rlp_item \<Rightarrow> rlp_item" where
  "bottom l n ns x = RList [RStr (hp l (drop n ns)), x]"

lemma cleve_run:
  assumes H: "\<And>b. length (H b) = 32"
    and fit: "rlp_fits (RList [RStr (hp l ns), x])" "rlp_fits (bottom l n ns x)"
    and ns: "nibbles ns" "length ns < 2 ^ 31 - 2" "n \<le> length ns"
  shows "cleve ops H (rlp_enc (RList [RStr (hp l ns), x])) n d =
    (Inr (rlp_enc (RList [RStr (hp False (take n ns)), child H (bottom l n ns x)])),
     run ops H (kev (RList [RStr (hp l ns), x]) @ pev (bottom l n ns x)) d)"
proof -
  let ?o = "RList [RStr (hp l ns), x]" and ?k = "keyOf (hp l ns)" and ?t = "RStr (hp False (take n ns))"
  have k: "view_ok ?k" "nibs ?k = ns" using keyOf_hp [OF ns(1,2)] by blast+
  have enc: "hexPrefixEncode_slice ?k l (int n) (- 1) = Inr (hp l (drop n ns))" "hexPrefixEncode_slice ?k False 0 (int n) = Inr (hp False (take n ns))"
    using hexPrefixEncode_slice_hp(2) [OF k(1), of n n l] hexPrefixEncode_slice_hp(1) [OF k(1), of 0 n False] ns(3) by (simp_all add: k(2))
  have tf: "rlp_fits (RList ([?t] @ [child H (bottom l n ns x)]))" using pair_child_fits [of H "take n ns" False] H ns(2) by simp
  obtain s where s: "ebind (appendList (length ([?t] @ [child H (bottom l n ns x)])) RLPStream) (emits [?t]) = Inr s"
      "ebind (emits [child H (bottom l n ns x)] s) stream_out = Inr (rlp_enc (RList ([?t] @ [child H (bottom l n ns x)])))"
    by (rule open_list [OF tf])
  obtain s' where s': "emit (child H (bottom l n ns x)) s = Inr s'" "stream_out s' = Inr (rlp_enc (RList [?t, child H (bottom l n ns x)]))"
    using s(2) by (auto simp: ebind_Inr_iff)
  have bf: "rlp_fits (RList ([RStr (hp l (drop n ns))] @ [x]))" using fit(2) by (simp add: bottom_def)
  obtain b where b: "ebind (appendList 2 RLPStream) (\<lambda>s. ebind (append_bytes False (hp l (drop n ns)) s) (emit x)) = Inr b" "stream_out b = Inr (rlp_enc (bottom l n ns x))"
    using list_out [OF bf] by (auto simp: ebind_Inr_iff bottom_def numeral_2_eq_2)
  have "append_item (rlp_enc ?o) 1 = emit x" using append_item_emit [OF fit(1), of 1] by (intro ext) simp
  then show ?thesis
    using pair_reads [OF fit(1) ns(1)] b s(1) s' enc
    by (simp add: cleve_def killNode_run tbind_def numeral_2_eq_2 streamNode_run [OF fit(2) s'(1)])
qed

text \<open>The fold over the entries of a branch: all but one are copied.\<close>

lemma tfold_append: "tfold f (is @ js) s = tbind (tfold f is s) (tfold f js)"
  by (induction "is" arbitrary: s) (auto simp: tbind_def fun_eq_iff split: prod.splits sum.splits)

lemma tfold_emits:
  assumes "\<And>i s. i \<in> set is \<Longrightarrow> f i s = tlift (emit (g i) s)"
  shows "tfold f is s = tlift (emits (map g is) s)"
  using assms
proof (induction "is" arbitrary: s)
  case (Cons i "is")
  have "tfold f is = (\<lambda>s. tlift (emits (map g is) s))" using Cons by (intro ext) (simp add: fun_eq_iff)
  then show ?case using Cons.prems [of i s] by (cases "emit (g i) s") (auto simp: tbind_def fun_eq_iff)
qed (simp add: fun_eq_iff)

lemma upt_around: "b < n \<Longrightarrow> [0..<n] = [0..<b] @ b # [Suc b..<n]"
  by (metis le0 less_or_eq_imp_le upt_add_eq_append upt_conv_Cons le_add_diff_inverse)

lemma tfold_one:
  assumes "b < n" "rlp_fits (RList (map g [0..<n] @ ys))"
    and copy: "\<And>i s. i < n \<Longrightarrow> i \<noteq> b \<Longrightarrow> f i s = tlift (emit (g i) s)"
    and at: "\<And>s s'. emit (g b) s = Inr s' \<Longrightarrow> f b s d = (Inr s', d')"
  obtains r s where "appendList (n + length ys) RLPStream = Inr r" "tfold f [0..<n] r d = (Inr s, d')"
    "ebind (emits ys s) stream_out = Inr (rlp_enc (RList (map g [0..<n] @ ys)))"
proof -
  obtain s where s: "ebind (appendList (length (map g [0..<n] @ ys)) RLPStream) (emits (map g [0..<n])) = Inr s"
      "ebind (emits ys s) stream_out = Inr (rlp_enc (RList (map g [0..<n] @ ys)))"
    by (rule open_list [OF assms(2)])
  then obtain r where r: "appendList (n + length ys) RLPStream = Inr r" "emits (map g [0..<n]) r = Inr s" by (auto simp: ebind_Inr_iff)
  have "emits (map g ([0..<b] @ b # [Suc b..<n])) r = Inr s" using r(2) upt_around [OF assms(1)] by simp
  then obtain s1 s2 where s12: "emits (map g [0..<b]) r = Inr s1" "emit (g b) s1 = Inr s2" "emits (map g [Suc b..<n]) s2 = Inr s"
    by (auto simp: emits_append ebind_Inr_iff)
  have "tfold f [0..<b] r = tlift (emits (map g [0..<b]) r)" "tfold f [Suc b..<n] s2 = tlift (emits (map g [Suc b..<n]) s2)"
    using assms(1) by (auto intro!: tfold_emits copy)
  then have "tfold f ([0..<b] @ b # [Suc b..<n]) r d = (Inr s, d')"
    using at [OF s12(2)] s12 by (simp add: tfold_append tbind_def)
  then show ?thesis using that r(1) s(2) upt_around [OF assms(1)] by simp
qed

lemma branch_run_empty:
  assumes fit: "rlp_fits (RList [RStr (hp l []), x])" "rlp_fits (RList (map (\<lambda>_. RStr []) [0..<16] @ [x]))"
  shows "branch ops H (rlp_enc (RList [RStr (hp l []), x])) d =
    (Inr (rlp_enc (RList (map (\<lambda>_. RStr []) [0..<16] @ [x]))), run ops H (kev (RList [RStr (hp l []), x])) d)"
proof -
  let ?o = "RList [RStr (hp l []), x]"
  have k: "view_ok (keyOf (hp l []))" "nibs (keyOf (hp l [])) = []" using keyOf_hp [of "[]" l] by simp_all
  obtain s where s: "ebind (appendList 17 RLPStream) (emits (map (\<lambda>_. RStr []) [0..<16])) = Inr s"
      "ebind (emit x s) stream_out = Inr (rlp_enc (RList (map (\<lambda>_. RStr []) [0..<16] @ [x])))"
    using open_list [OF fit(2)] by (simp del: upt_Suc upt_rec_numeral) blast
  then obtain r where r: "appendList 17 RLPStream = Inr r" "emits (map (\<lambda>_. RStr []) [0..<16]) r = Inr s" by (auto simp: ebind_Inr_iff)
  have "tfold (\<lambda>_ r. tlift (append_bytes False [] r)) [0..<16] r (run ops H (kev ?o) d) = (Inr s, run ops H (kev ?o) d)"
    by (subst tfold_emits [where g = "\<lambda>_. RStr []"]) (simp_all add: r(2) del: upt_Suc upt_rec_numeral)
  moreover have "append_item (rlp_enc ?o) 1 = emit x" using append_item_emit [OF fit(1), of 1] by (intro ext) simp
  ultimately show ?thesis using pair_reads(1) [OF fit(1)] r(1) s(2) view_size(1) [OF k(1)] k(2)
    by (simp add: branch_def killNode_run tbind_def del: upt_Suc upt_rec_numeral)
qed

lemma branch_run_Cons:
  fixes x y :: rlp_item and H :: hash_fun and b :: byte and ms :: bytes and l :: bool
  defines "y \<equiv> (if l \<or> ms \<noteq> [] then child H (bottom l 1 (b # ms) x) else x)"
    and "pe \<equiv> (if l \<or> ms \<noteq> [] then pev (bottom l 1 (b # ms) x) else [])"
  assumes fit: "rlp_fits (RList [RStr (hp l (b # ms)), x])" "rlp_fits (bottom l 1 (b # ms) x)"
    "rlp_fits (RList (map (\<lambda>i. if i = unat b then y else RStr []) [0..<16] @ [RStr []]))"
    and ns: "nibbles (b # ms)" "length (b # ms) < 2 ^ 31 - 2"
  shows "branch ops H (rlp_enc (RList [RStr (hp l (b # ms)), x])) d =
    (Inr (rlp_enc (RList (map (\<lambda>i. if i = unat b then y else RStr []) [0..<16] @ [RStr []]))),
     run ops H (kev (RList [RStr (hp l (b # ms)), x]) @ pe) d)"
proof -
  let ?o = "RList [RStr (hp l (b # ms)), x]" and ?k = "keyOf (hp l (b # ms))" and ?d = "run ops H (kev (RList [RStr (hp l (b # ms)), x])) d"
  have k: "view_ok ?k" "nibs ?k = b # ms" using keyOf_hp [OF ns] by blast+
  have m: "view_ok (mid ?k 1)" "nibs (mid ?k 1) = ms" using view_mid [OF k(1), of 1] by (simp_all add: k(2))
  have sz: "ns_size ?k = Suc (length ms)" "ns_at ?k 0 = Inr b" using view_size(1) [OF k(1)] view_at [OF k(1), of 0] by (simp_all add: k(2))
  have hx: "hexPrefixEncode_slice (mid ?k 1) l 0 (- 1) = Inr (hp l ms)" using hexPrefixEncode_slice_hp(2) [OF m(1), of 0 0 l] unfolding m(2) by simp
  have bot: "ebind (appendList 2 RLPStream) (\<lambda>s. ebind (append_bytes False (hp l ms) s) (\<lambda>s. ebind (emit x s) stream_out)) = Inr (rlp_enc (bottom l 1 (b # ms) x))"
    using pair_out [of "RStr (hp l ms)" x] fit(2) by (simp add: bottom_def)
  have it: "append_item (rlp_enc ?o) 1 = emit x" using append_item_emit [OF fit(1), of 1] by (intro ext) simp
  have b16: "unat b < 16" using ns(1) by (simp add: word_less_nat_alt)
  let ?f = "\<lambda>i r. if i = unat b then
      tbind (tlift (isLeaf (rlp_enc ?o))) (\<lambda>l.
      if l \<or> ns_size ?k > 1 then
        tbind (tlift (ebind (appendList 2 RLPStream) (\<lambda>s. ebind (hexPrefixEncode_slice (mid ?k 1) l 0 (- 1)) (\<lambda>h.
          ebind (append_bytes False h s) (\<lambda>s. ebind (append_item (rlp_enc ?o) 1 s) stream_out))))) (streamNode ops H r)
      else tlift (append_item (rlp_enc ?o) 1 r))
    else tlift (append_bytes False [] r)"
  have at: "?f (unat b) s ?d = (Inr s', run ops H pe ?d)" if "emit (if unat b = unat b then y else RStr []) s = Inr s'" for s s'
  proof (cases "l \<or> ms \<noteq> []")
    case True
    have "emit (child H (bottom l 1 (b # ms) x)) s = Inr s'" using that True by (simp add: y_def)
    from streamNode_run [OF fit(2) this]
    have "streamNode ops H s (rlp_enc (bottom l 1 (b # ms) x)) ?d = (Inr s', run ops H (pev (bottom l 1 (b # ms) x)) ?d)" .
    moreover have "(l \<or> 1 < ns_size ?k) = True" using True sz(1) by simp
    ultimately show ?thesis using True pair_reads(2) [OF fit(1) ns(1)] by (simp add: tbind_def hx it bot pe_def del: One_nat_def)
  next
    case False
    then show ?thesis using that pair_reads(2) [OF fit(1) ns(1)] sz(1) fun_cong [OF it, of s]
      by (simp add: tbind_def y_def pe_def del: One_nat_def)
  qed
  obtain r s where rs: "appendList (16 + length [RStr []]) RLPStream = Inr r" "tfold ?f [0..<16] r ?d = (Inr s, run ops H pe ?d)"
    "ebind (emits [RStr []] s) stream_out = Inr (rlp_enc (RList (map (\<lambda>i. if i = unat b then y else RStr []) [0..<16] @ [RStr []])))"
    by (rule tfold_one [OF b16 fit(3), where f = ?f and d = ?d and d' = "run ops H pe ?d"]) (use at in auto)
  then show ?thesis using pair_reads(1) [OF fit(1) ns(1)] sz by (simp add: branch_def killNode_run tbind_def del: upt_Suc upt_rec_numeral)
qed

end
