(* ===== verification/Trie_At.thy ===== *)
theory Trie_At
  imports Trie_Ops
begin

section \<open>Looking up a key\<close>

text \<open>
  On a database that serves the nodes below the root of a map's trie, the lookup finds the value of the map, the empty text for
  an absent key.
\<close>

definition served :: "'d db_ops \<Rightarrow> hash_fun \<Rightarrow> 'd \<Rightarrow> bytes multiset \<Rightarrow> bool" where
  "served ops H d M \<longleftrightarrow> (\<forall>e \<in># M. db_lookup ops d (H e) = e)"

lemma served_simps [simp]: "served ops H d {#}" "served ops H d (M + N) \<longleftrightarrow> served ops H d M \<and> served ops H d N"
  by (auto simp: served_def)

lemma served_brefs: "served ops H d (brefs H xs) \<longleftrightarrow> (\<forall>i < 16. served ops H d (krefs H (sub [of_nat i] xs)))"
  by (auto simp: served_def brefs_def set_mset_sum)

lemma follow_node:
  assumes H: "\<And>b. length (H b) = 32" and "ys \<noteq> []" "trie_ok ys" "served ops H d (krefs H ys)"
  shows "follow ops (rlp_enc (child H (node H ys))) d = (Inr (rlp_enc (node H ys)), d)"
proof -
  obtain zs where zs: "node H ys = RList zs" "zs \<noteq> []" using node_list [OF assms(2)] by blast
  have "rlp_fits (node H ys)" by (rule node_fits [OF H trie_okD(2) [OF assms(3)]])
  moreover have "db_lookup ops d (H (rlp_enc (node H ys))) = rlp_enc (node H ys)" if "\<not> length (rlp_enc (node H ys)) < 32"
    using assms(2,4) that by (simp add: krefs_def self_ref_def served_def)
  ultimately show ?thesis unfolding zs(1) by (intro follow_child [OF H zs(2)])
qed

lemma slot_reads:
  assumes H: "\<And>b. length (H b) = 32"
  shows "isEmpty (rlp_enc (slot H ys)) \<longleftrightarrow> ys = []"
proof (cases "ys = []")
  case True
  then show ?thesis by (simp add: slot_def isEmpty_def isNull_def enc_bytes_def enc_hdr_def)
next
  case False
  then obtain zs where "node H ys = RList zs" "zs \<noteq> []" using node_list [of ys H] by blast
  then show ?thesis using child_reads(1) [OF H, of zs] False by (simp add: slot_def)
qed

lemma branch_nth: "i < 16 \<Longrightarrow> branch_items H xs ! i = slot H (sub [of_nat i] xs)" "branch_items H xs ! 16 = RStr (value_of xs)"
  by (simp_all add: branch_items_def nth_append)

definition value_at :: "hex_map \<Rightarrow> bytes \<Rightarrow> bytes" where
  "value_at xs k = (case map_of xs k of Some v \<Rightarrow> v | None \<Rightarrow> [])"

lemma value_at_sub: "value_at (sub q xs) k = value_at xs (q @ k)"
  by (simp add: value_at_def)

lemma value_at_outside: "all_prefix q xs \<Longrightarrow> \<not> prefix q k \<Longrightarrow> value_at xs k = []"
  by (auto simp: value_at_def all_prefix_def split: option.splits dest!: map_of_SomeD)

lemma unsigned_17: "unsigned32 2 = 2" "unsigned32 17 = 17"
  by (simp_all add: unsigned32_def)

lemma at_branch:
  assumes H: "\<And>b. length (H b) = 32" and ok: "trie_ok xs" and k: "view_ok key" and srv: "served ops H d (brefs H xs)"
    and IH: "\<And>ys. ys \<noteq> [] \<Longrightarrow> trie_ok ys \<Longrightarrow> served ops H d (nrefs H ys) \<Longrightarrow> nibs key \<noteq> [] \<Longrightarrow>
      atAux n ops (rlp_enc (node H ys)) (mid key 1) d = (Inr (value_at ys (tl (nibs key))), d)"
  shows "atAux (Suc n) ops (rlp_enc (branch_item H xs)) key d = (Inr (value_at xs (nibs key)), d)"
proof -
  let ?b = "rlp_enc (branch_item H xs)"
  have f: "rlp_fits (RList (branch_items H xs))" using branch_fits [OF H ok] by (simp add: branch_item_def)
  have e: "\<not> isEmpty ?b" "\<not> isNull ?b" "itemCount ?b = Inr 17"
    using not_Empty_list [OF f] list_reads(2) [OF f] by (auto simp: branch_item_def branch_items_def)
  have at: "i < 17 \<Longrightarrow> rlp_at ?b i = Inr (rlp_enc (branch_items H xs ! i))" for i using list_reads(3) [OF f, of i] by (simp add: branch_item_def)
  show ?thesis
  proof (cases "nibs key")
    case Nil
    have "rlp_fits (RStr (value_of xs))" using rlp_fits_item [OF f, of "RStr (value_of xs)"] by (simp add: branch_items_def)
    from str_reads(1) [OF this] show ?thesis
      using e at [of 16] view_size(1) [OF k] by (simp add: Nil unsigned_17 branch_nth value_at_def value_of_def split: option.splits)
  next
    case (Cons b ms)
    have b: "unat b < 16" using nibbles_nibs [of key] by (simp add: Cons word_less_nat_alt)
    let ?ys = "sub [b] xs"
    have at': "rlp_at ?b (unat b) = Inr (rlp_enc (slot H ?ys))" using at [of "unat b"] b by (simp add: branch_nth)
    have sz: "ns_size key \<noteq> 0" "ns_at key 0 = Inr b" using view_size(1) [OF k] view_at [OF k, of 0] by (simp_all add: Cons)
    show ?thesis
    proof (cases "?ys = []")
      case True
      have "value_at xs (b # ms) = value_at ?ys ms" by (simp add: value_at_sub)
      then have "value_at xs (b # ms) = []" using True by (simp add: value_at_def)
      then show ?thesis using e at' sz slot_reads [of H ?ys, OF H] True by (simp add: unsigned_17 Cons)
    next
      case False
      have s: "served ops H d (krefs H ?ys)" using srv b by (auto simp: served_brefs dest: spec [of _ "unat b"])
      have fo: "follow ops (rlp_enc (slot H ?ys)) d = (Inr (rlp_enc (node H ?ys)), d)"
        using follow_node [OF H False trie_ok_sub [OF ok] s] False by (simp add: slot_def)
      have "atAux n ops (rlp_enc (node H ?ys)) (mid key 1) d = (Inr (value_at ?ys ms), d)"
        using IH [OF False trie_ok_sub [OF ok]] s False by (simp add: krefs_def Cons)
      then show ?thesis using e at' sz slot_reads [of H ?ys, OF H] False fo by (simp add: unsigned_17 Cons tbind_def value_at_sub)
    qed
  qed
qed

lemma at_pair:
  assumes "rlp_fits (RList [RStr (hp l q), x])" "nibbles q" "length q < 2 ^ 31 - 2" "view_ok key"
  shows "atAux (Suc n) ops (rlp_enc (RList [RStr (hp l q), x])) key d =
    (if l then (if nibs key = q then tlift (rlp_toString (rlp_enc x)) d else (Inr [], d))
     else if prefix q (nibs key) then tbind (follow ops (rlp_enc x)) (\<lambda>r. atAux n ops r (mid key (length q))) d
     else (Inr [], d))"
proof -
  let ?b = "rlp_enc (RList [RStr (hp l q), x])"
  have k: "view_ok (keyOf (hp l q))" "nibs (keyOf (hp l q)) = q" using keyOf_hp [OF assms(2,3)] by blast+
  have r: "\<not> isEmpty ?b" "\<not> isNull ?b" "itemCount ?b = Inr 2" "rlp_at ?b 1 = Inr (rlp_enc x)" "rlp_at ?b (Suc 0) = Inr (rlp_enc x)"
    using not_Empty_list [OF assms(1)] list_reads(2,3) [OF assms(1)] list_reads(3) [OF assms(1), of 1] by simp_all
  show ?thesis
    using r pair_reads [OF assms(1,2)] view_eq [OF assms(4) k(1)] view_contains [OF assms(4) k(1)] view_size(1) [OF k(1)]
    by (auto simp: unsigned_17 k(2) tbind_def)
qed

lemma atAux_node:
  assumes H: "\<And>b. length (H b) = 32" and "trie_ok xs" "view_ok key" "served ops H d (nrefs H xs)" "length (nibs key) < n"
  shows "atAux n ops (rlp_enc (node H xs)) key d = (Inr (value_at xs (nibs key)), d)"
  using assms(2-)
proof (induction n arbitrary: xs key)
  case (Suc n)
  note k = keys_okD(1) [OF trie_okD(1) [OF Suc.prems(1)]]
  consider "xs = []" | k v where "xs = [(k, v)]" | "2 \<le> length xs" "lcp xs \<noteq> []" | "2 \<le> length xs" "lcp xs = []"
    by (cases xs rule: remdups_adj.cases) auto
  then show ?case
  proof cases
    case 1
    have "isEmpty (rlp_enc (RStr []))" by (simp add: isEmpty_def isNull_def enc_bytes_def enc_hdr_def)
    then show ?thesis by (simp add: 1 node_simps value_at_def)
  next
    case (2 k v)
    have ok: "nibbles k" "length k < 2 ^ 31 - 2" "length v < 2 ^ 59" using trie_okD(3) [OF Suc.prems(1), of k v] by (simp_all add: 2)
    have f: "rlp_fits (RList [RStr (hp True k), RStr v])" using leaf_fits [of k v] ok by (simp add: leaf_item_def)
    have v: "rlp_fits (RStr v)" using rlp_fits_item [OF f] by simp
    show ?thesis using str_reads(1) [OF v] by (auto simp: 2 node_simps value_at_def at_pair [OF f ok(1,2) Suc.prems(2)] simp del: atAux.simps)
  next
    case 3
    let ?q = "lcp xs" let ?ys = "sub ?q xs"
    obtain p where p: "p \<in> set xs" using 3(1) by (cases xs) auto
    have "prefix ?q (fst p)" using lcp_prefix [of xs] p by (simp add: all_prefix_def)
    then have q: "nibbles ?q" "length ?q < 2 ^ 31 - 2"
      using trie_okD(3) [OF Suc.prems(1), of "fst p" "snd p"] p prefix_length_le [of ?q "fst p"] by (auto dest: set_mono_prefix)
    have f: "rlp_fits (RList [RStr (hp False ?q), child H (node H ?ys)])" using pair_child_fits [of H ?q False] H q(2) by simp
    have ne: "?ys \<noteq> []" using all_prefix_sub(2) [OF lcp_prefix, of xs] 3(1) by auto
    have s: "served ops H d (krefs H ?ys)" using Suc.prems(3) nrefs_forms(2) [OF 3] by simp
    show ?thesis
    proof (cases "prefix ?q (nibs key)")
      case True
      have m: "view_ok (mid key (length ?q))" "nibs (mid key (length ?q)) = drop (length ?q) (nibs key)"
        using view_mid [OF Suc.prems(2) prefix_length_le [OF True]] by blast+
      have "atAux n ops (rlp_enc (node H ?ys)) (mid key (length ?q)) d = (Inr (value_at ?ys (nibs (mid key (length ?q)))), d)"
        using Suc.prems(4) 3(2) [folded length_greater_0_conv] s ne prefix_length_le [OF True]
        by (intro Suc.IH [OF trie_ok_sub [OF Suc.prems(1)] m(1)]) (auto simp: krefs_def m(2) simp del: length_greater_0_conv)
      moreover have "?q @ drop (length ?q) (nibs key) = nibs key" using True by (simp add: prefix_drop)
      ultimately show ?thesis using True follow_node [OF H ne trie_ok_sub [OF Suc.prems(1)] s]
        by (simp del: atAux.simps add: at_pair [OF f q Suc.prems(2)] node_forms(1) [OF trie_okD(1) [OF Suc.prems(1)] 3] ext_item_def tbind_def m(2) value_at_sub)
    next
      case False
      then show ?thesis using value_at_outside [OF lcp_prefix False]
        by (simp del: atAux.simps add: at_pair [OF f q Suc.prems(2)] node_forms(1) [OF trie_okD(1) [OF Suc.prems(1)] 3] ext_item_def)
    qed
  next
    case 4
    show ?thesis unfolding node_forms(2) [OF trie_okD(1) [OF Suc.prems(1)] 4]
    proof (rule at_branch [OF H Suc.prems(1,2)])
      show "served ops H d (brefs H xs)" using Suc.prems(3) nrefs_forms(3) [OF 4] by simp
      fix ys assume a: "trie_ok ys" "served ops H d (nrefs H ys)" "nibs key \<noteq> []"
      then have m: "view_ok (mid key 1)" "nibs (mid key 1) = tl (nibs key)" using view_mid [OF Suc.prems(2), of 1] by (cases "nibs key"; simp)+
      have "length (nibs (mid key 1)) < n" unfolding m(2) using Suc.prems(4) a(3) by (cases "nibs key") simp_all
      from Suc.IH [OF a(1) m(1) a(2) this]
      show "atAux n ops (rlp_enc (node H ys)) (mid key 1) d = (Inr (value_at ys (tl (nibs key))), d)" unfolding m(2) .
    qed
  qed
qed simp

end
