(* ===== verification/Trie_Insert.thy ===== *)
theory Trie_Insert
  imports Trie_At
begin

section \<open>Inserting a key\<close>

text \<open>
  \<open>mergeAt\<close> on the node of a map answers the node of the map with the key set, whatever the form of the node. It inserts only
  nodes of the two maps, and what it inserts and kills is the difference of the nodes that the two nodes refer to.
\<close>

subsection \<open>The map after an insertion\<close>

lemma slot_child: "slot H ys = child H (node H ys)"
  by (simp add: slot_def child_def node_simps enc_bytes_def enc_hdr_def)

lemma krefs_self: "krefs H ys = self_ref H ys + nrefs H ys"
  by (simp add: krefs_def self_ref_def node_simps enc_bytes_def enc_hdr_def nrefs_forms)

lemma all_prefix_set: "all_prefix q (om_set key v xs) \<longleftrightarrow> prefix q key \<and> all_prefix q xs"
proof -
  have f: "all_prefix q ys \<longleftrightarrow> (\<forall>k \<in> fst ` set ys. prefix q k)" for ys by (simp add: all_prefix_def)
  show ?thesis unfolding f set_om_set by simp
qed

lemma lcp_set:
  assumes "xs \<noteq> []"
  shows "lcp (om_set key v xs) = take (commonPrefix key (lcp xs)) key"
proof -
  let ?c = "commonPrefix key (lcp xs)"
  have tk: "take ?c key = take ?c (lcp xs)" by (rule take_commonPrefix) simp
  show ?thesis
  proof (rule lcp_eq)
    have "all_prefix (take ?c (lcp xs)) xs"
      using lcp_prefix [of xs] take_is_prefix [of ?c "lcp xs"] by (meson all_prefix_def prefix_order.trans)
    then show "all_prefix (take ?c key) (om_set key v xs)" by (simp add: all_prefix_set tk [symmetric] take_is_prefix)
    fix a
    show "\<not> all_prefix (take ?c key @ [a]) (om_set key v xs)"
    proof
      assume "all_prefix (take ?c key @ [a]) (om_set key v xs)"
      then have "prefix (take ?c key @ [a]) key" "prefix (take ?c key @ [a]) (lcp xs)"
        using lcp_greatest [OF assms] by (simp_all add: all_prefix_set)
      then have "length (take ?c key @ [a]) \<le> ?c" by (rule prefix_commonPrefix)
      moreover have "?c \<le> length key" by (rule commonPrefix_le)
      ultimately show False by simp
    qed
  qed simp
qed

lemma length_om_set: "om_ok xs \<Longrightarrow> length (om_set k v xs) = (if map_of xs k = None then length xs + 1 else length xs)"
  by (rule om.length_put)

lemma sub_set_inside:
  assumes "keys_ok xs" "nibbles key" "prefix q key"
  shows "sub q (om_set key v xs) = om_set (drop (length q) key) v (sub q xs)"
  using sub_set [OF assms(1,2), of q v] assms(3) by simp

subsection \<open>Pairs\<close>

definition px :: "hash_fun \<Rightarrow> hex_map \<Rightarrow> rlp_item" where
  "px H xs = (if length xs = 1 then RStr (snd (hd xs)) else child H (node H (sub (lcp xs) xs)))"

definition is_pair :: "hex_map \<Rightarrow> bool" where
  "is_pair xs \<longleftrightarrow> length xs = 1 \<or> 2 \<le> length xs \<and> lcp xs \<noteq> []"

lemma lcp_single: "lcp [(k, v)] = k"
  by (simp add: lcp_def lcps_def)

lemma pair_form:
  assumes "keys_ok xs" "is_pair xs"
  shows "node H xs = RList [RStr (hp (length xs = 1) (lcp xs)), px H xs]"
proof (cases "length xs = 1")
  case True
  then obtain k v where "xs = [(k, v)]" by (cases xs) auto
  then show ?thesis by (simp add: node_simps lcp_single px_def)
next
  case False
  then show ?thesis using assms node_forms(1) [OF assms(1)] by (simp add: is_pair_def ext_item_def px_def)
qed

text \<open>Cutting \<open>n\<close> nibbles off the partial key of a pair.\<close>

lemma pair_cut:
  assumes "keys_ok xs" "is_pair xs" "q = take n (lcp xs)" "length xs = 1 \<or> n < length (lcp xs)"
  shows "node H (sub q xs) = bottom (length xs = 1) n (lcp xs) (px H xs)" "nrefs H (sub q xs) = nrefs H xs" "sub q xs \<noteq> []"
proof -
  have q: "prefix q (lcp xs)" "all_prefix q xs"
    using lcp_prefix [of xs] by (simp_all add: assms(3) take_is_prefix) (meson all_prefix_def prefix_order.trans take_is_prefix)
  have len: "length (sub q xs) = length xs" by (rule all_prefix_sub(2) [OF q(2)])
  have ne: "xs \<noteq> []" using assms(2) by (auto simp: is_pair_def)
  then show "sub q xs \<noteq> []" using len by auto
  have l: "lcp xs = q @ lcp (sub q xs)" by (rule sub_lcp [OF ne q(2)])
  have d: "lcp (sub q xs) = drop n (lcp xs)"
  proof -
    have "drop (length q) (lcp xs) = drop n (lcp xs)" unfolding assms(3) by (cases "n \<le> length (lcp xs)") simp_all
    moreover have "drop (length q) (lcp xs) = lcp (sub q xs)" by (subst l) simp
    ultimately show ?thesis by simp
  qed
  have pp: "is_pair (sub q xs)" using assms(2,4) by (auto simp: is_pair_def len d)
  have "px H (sub q xs) = px H xs"
  proof (cases "length xs = 1")
    case True
    then obtain k v where xs: "xs = [(k, v)]" by (cases xs) auto
    then have "prefix q k" using q(1) by (simp add: lcp_single)
    then show ?thesis by (simp add: px_def xs sub_Cons)
  next
    case False
    then show ?thesis using l by (simp add: px_def len sub_sub)
  qed
  then show "node H (sub q xs) = bottom (length xs = 1) n (lcp xs) (px H xs)"
    using pair_form [OF keys_ok_sub [OF assms(1)] pp, of H] by (simp add: bottom_def len d)
  show "nrefs H (sub q xs) = nrefs H xs"
  proof (cases "length xs = 1")
    case False
    then have "2 \<le> length xs" "n < length (lcp xs)" using assms(2,4) by (auto simp: is_pair_def)
    moreover then have "q \<noteq> lcp xs" by (metis assms(3) length_take less_irrefl min.absorb2 less_imp_le)
    ultimately show ?thesis using nrefs_sub [OF _ q(1)] by blast
  qed (simp add: nrefs_forms len)
qed

lemma lcp_bounds:
  assumes "trie_ok xs" "xs \<noteq> []"
  shows "nibbles (lcp xs)" "length (lcp xs) < 2 ^ 31 - 2"
proof -
  obtain p where p: "p \<in> set xs" using assms(2) by (cases xs) auto
  have "prefix (lcp xs) (fst p)" using lcp_prefix [of xs] p by (simp add: all_prefix_def)
  then show "nibbles (lcp xs)" "length (lcp xs) < 2 ^ 31 - 2"
    using trie_okD(3) [OF assms(1), of "fst p" "snd p"] p prefix_length_le [of "lcp xs" "fst p"] by (auto dest: set_mono_prefix)
qed

lemma pair_branch:
  assumes "trie_ok xs" "is_pair xs"
  shows "lcp xs = [] \<Longrightarrow> branch_item H xs = RList (map (\<lambda>_. RStr []) [0..<16] @ [px H xs])"
    "lcp xs = b # ms \<Longrightarrow> branch_item H xs =
       RList (map (\<lambda>i. if i = unat b then (if length xs = 1 \<or> ms \<noteq> [] then child H (bottom (length xs = 1) 1 (b # ms) (px H xs)) else px H xs)
         else RStr []) [0..<16] @ [RStr []])"
    "lcp xs = b # ms \<Longrightarrow> brefs H xs = krefs H (sub [b] xs)"
    "lcp xs = [] \<Longrightarrow> brefs H xs = {#}"
proof -
  have ne: "xs \<noteq> []" using assms(2) by (auto simp: is_pair_def)
  {
    assume e: "lcp xs = []"
    then obtain k v where "xs = [(k, v)]" using assms(2) by (cases xs) (auto simp: is_pair_def)
    then have xs: "xs = [([], v)]" using e by (simp add: lcp_single)
    show "branch_item H xs = RList (map (\<lambda>_. RStr []) [0..<16] @ [px H xs])"
      by (simp add: branch_item_def branch_items_def xs sub_Cons slot_def value_of_def px_def)
    show "brefs H xs = {#}" by (simp add: brefs_def xs sub_Cons krefs_def)
  }
  assume l: "lcp xs = b # ms"
  have b16: "unat b < 16" using lcp_bounds(1) [OF assms(1) ne] by (simp add: l word_less_nat_alt)
  have keys: "prefix (b # ms) (fst p)" if "p \<in> set xs" for p using lcp_prefix [of xs] that by (simp add: all_prefix_def l)
  have out: "sub [of_nat i] xs = []" if "i < 16" "i \<noteq> unat b" for i
  proof -
    have "(of_nat i :: byte) \<noteq> b" using that unat_of_nat_small [of i] by auto
    then show ?thesis using keys by (fastforce simp: sub_empty prefix_def)
  qed
  have val: "value_of xs = []" using keys by (fastforce simp: value_of_def split: option.splits dest: map_of_SomeD)
  have inside: "slot H (sub [b] xs) = (if length xs = 1 \<or> ms \<noteq> [] then child H (bottom (length xs = 1) 1 (b # ms) (px H xs)) else px H xs)"
  proof (cases "length xs = 1 \<or> ms \<noteq> []")
    case True
    then show ?thesis using pair_cut(1) [OF trie_okD(1) [OF assms(1)] assms(2), of "[b]" 1 H] by (simp add: l slot_child)
  next
    case False
    then show ?thesis by (simp add: px_def l slot_child)
  qed
  have "slot H (sub [of_nat i] xs) = (if i = unat b then slot H (sub [b] xs) else RStr [])" if "i < 16" for i
    using out [OF that] by (simp add: slot_def)
  then show "branch_item H xs =
      RList (map (\<lambda>i. if i = unat b then (if length xs = 1 \<or> ms \<noteq> [] then child H (bottom (length xs = 1) 1 (b # ms) (px H xs)) else px H xs)
        else RStr []) [0..<16] @ [RStr []])"
    by (simp add: branch_item_def branch_items_def val inside)
  have "brefs H xs = (\<Sum>i \<in> {0..<16}. if i = unat b then krefs H (sub [b] xs) else {#})"
    unfolding brefs_def using out by (intro sum.cong) (auto simp: krefs_def)
  then show "brefs H xs = krefs H (sub [b] xs)" using b16 by simp
qed

end
