(* ===== verification/Trie_Merge.thy ===== *)
theory Trie_Merge
  imports Trie_Insert
begin

section \<open>The merge of a key into a node\<close>

text \<open>
  The accounting of the nodes that a run inserts and kills, and \<open>mergeAt\<close> on a branch and on an extension that the key goes
  through, given what the recursive call does.
\<close>

subsection \<open>Effects\<close>

text \<open>
  A run has the effect of going from the references \<open>M\<close> to the references \<open>N\<close> when it inserts what is new, and, under the
  condition \<open>F\<close>, when what it inserts and kills is exactly their difference. \<open>U\<close> holds the nodes involved.
\<close>

definition effect :: "bool \<Rightarrow> bytes set \<Rightarrow> bytes multiset \<Rightarrow> bytes multiset \<Rightarrow> node_event list \<Rightarrow> bool" where
  "effect F U M N es \<longleftrightarrow> set_mset (puts es) \<subseteq> U \<and> N \<subseteq># puts es + M \<and> (F \<longrightarrow> set_mset (kills es) \<subseteq> U \<and> puts es + M = kills es + N)"

lemma effect_Nil: "effect F U M M []"
  by (simp add: effect_def)

lemma effect_append: "effect F U M N es \<Longrightarrow> effect F U N P fs \<Longrightarrow> effect F U M P (es @ fs)"
proof -
  assume a: "effect F U M N es" "effect F U N P fs"
  have "puts (es @ fs) + M = kills (es @ fs) + P" if F
  proof -
    have e: "puts es + M = kills es + N" "puts fs + N = kills fs + P" using a that by (simp_all add: effect_def)
    have "puts es + puts fs + M = puts fs + (puts es + M)" by (simp only: union_ac)
    also have "\<dots> = kills es + (puts fs + N)" unfolding e(1) by (simp only: union_ac)
    finally show ?thesis unfolding e(2) by (simp add: union_ac)
  qed
  moreover have "P \<subseteq># puts (es @ fs) + M"
  proof -
    have "P \<subseteq># puts fs + N" "N \<subseteq># puts es + M" using a by (simp_all add: effect_def)
    then have "P \<subseteq># puts fs + (puts es + M)" by (meson mset_subset_eq_mono_add_left_cancel subset_mset.order_trans)
    then show ?thesis by (simp add: union_ac)
  qed
  ultimately show ?thesis using a by (auto simp: effect_def)
qed

lemma effect_frame: "effect F U M N es \<Longrightarrow> effect F U (M + R) (N + R) es"
  by (auto simp: effect_def simp flip: union_assoc)

lemma effect_kev: "set_mset (big it) \<subseteq> U \<Longrightarrow> effect F U (big it + M) M (kev it)"
  by (simp add: effect_def)

lemma effect_pev: "set_mset (big it) \<subseteq> U \<Longrightarrow> effect F U M (big it + M) (pev it)"
  by (simp add: effect_def)

definition pieces :: "hash_fun \<Rightarrow> hex_map \<Rightarrow> bytes set" where
  "pieces H xs = {rlp_enc (node H (sub q xs)) | q. True}"

lemma pieces_sub: "pieces H (sub q xs) \<subseteq> pieces H xs"
  by (auto simp: pieces_def sub_sub)

lemma pieces_self: "rlp_enc (node H (sub q xs)) \<in> pieces H xs" "rlp_enc (node H xs) \<in> pieces H xs"
  by (auto simp: pieces_def) (metis sub_Nil(2))

lemma big_pieces: "set_mset (big (node H (sub q xs))) \<subseteq> pieces H xs" "set_mset (self_ref H xs) \<subseteq> pieces H xs"
  using pieces_self [of H] by (auto simp: big_def self_ref_big)

lemma nrefs_pieces: "set_mset (nrefs H xs) \<subseteq> pieces H xs"
proof (induction H xs rule: nrefs.induct)
  case (1 H xs)
  show ?case
  proof (cases "length xs < 2")
    case False
    show ?thesis
    proof (cases "lcp xs = []")
      case True
      then have eq: "set_mset (nrefs H xs) = (\<Union>i \<in> {0..<16}. set_mset (krefs H (sub [of_nat i] xs)))"
        using False by (simp add: nrefs_forms brefs_def set_mset_sum)
      have "set_mset (krefs H (sub [of_nat i] xs)) \<subseteq> pieces H xs" if "i < 16" for i
        using "1.IH"(2) [OF False] that True pieces_sub [of H "[of_nat i]" xs] big_pieces(2) [of H "sub [of_nat i] xs"]
        by (auto simp: krefs_def)
      then show ?thesis unfolding eq by (intro UN_least) simp
    next
      case ne: False
      have "set_mset (krefs H (sub (lcp xs) xs)) \<subseteq> pieces H xs"
        using "1.IH"(1) [OF False ne] pieces_sub [of H "lcp xs" xs] big_pieces(2) [of H "sub (lcp xs) xs"] by (auto simp: krefs_def)
      then show ?thesis using False ne by (simp add: nrefs_forms)
    qed
  qed (simp add: nrefs_forms)
qed

lemma krefs_pieces: "set_mset (krefs H (sub q xs)) \<subseteq> pieces H xs"
  using nrefs_pieces [of H "sub q xs"] big_pieces(2) [of H "sub q xs"] pieces_sub [of H q xs] by (auto simp: krefs_def)

lemma brefs_pieces: "set_mset (brefs H xs) \<subseteq> pieces H xs"
  using krefs_pieces [of H _ xs] by (auto simp: brefs_def set_mset_sum)

lemma brefs_update:
  assumes "unat b < 16" "\<And>i. i < 16 \<Longrightarrow> i \<noteq> unat b \<Longrightarrow> sub [of_nat i] xs' = sub [of_nat i] xs"
    and "effect F U (krefs H (sub [b] xs)) (krefs H (sub [b] xs')) es"
  shows "effect F U (brefs H xs) (brefs H xs') es"
proof -
  let ?R = "\<Sum>i \<in> {0..<16} - {unat b}. krefs H (sub [of_nat i] xs)"
  have "brefs H xs = krefs H (sub [b] xs) + ?R" unfolding brefs_def using assms(1) by (subst sum.remove [of _ "unat b"]) simp_all
  moreover have "brefs H xs' = krefs H (sub [b] xs') + ?R"
    unfolding brefs_def using assms(1) by (subst sum.remove [of _ "unat b"]) (simp_all add: assms(2))
  ultimately show ?thesis using effect_frame [OF assms(3), of ?R] by simp
qed

lemma branch_items_update:
  assumes "unat b < 16" "\<And>i. i < 16 \<Longrightarrow> i \<noteq> unat b \<Longrightarrow> sub [of_nat i] xs' = sub [of_nat i] xs" "value_of xs' = value_of xs"
  shows "branch_items H xs' = map (\<lambda>i. if i = unat b then child H (node H (sub [b] xs')) else branch_items H xs ! i) [0..<17]"
proof (rule nth_equalityI)
  fix i assume "i < length (branch_items H xs')"
  then consider "i < 16" | "i = 16" by fastforce
  then show "branch_items H xs' ! i = map (\<lambda>i. if i = unat b then child H (node H (sub [b] xs')) else branch_items H xs ! i) [0..<17] ! i"
    by cases (use assms in \<open>auto simp: branch_nth slot_child simp del: upt_rec_numeral\<close>)
qed simp

context node_store
begin

lemma served_run:
  assumes "ok d" "inj_on H U" "[] \<notin> U" "set_mset (puts es) \<subseteq> U" "set_mset M \<subseteq> U" "served ops H d M"
  shows "served ops H (run ops H es d) M" "served ops H (run ops H es d) (puts es)"
proof -
  have "[] \<notin># puts es" using assms(3,4) by auto
  note l = lookup_run [OF assms(1,2,4) this]
  show "served ops H (run ops H es d) M" "served ops H (run ops H es d) (puts es)"
    unfolding served_def using assms(4-6) by (auto intro!: l simp: served_def)
qed

lemma effect_served:
  assumes "ok d" "inj_on H U" "[] \<notin> U" "set_mset M \<subseteq> U" "served ops H d M" "effect F U M N es"
  shows "served ops H (run ops H es d) N"
proof -
  have "served ops H (run ops H es d) (puts es + M)" using served_run [OF assms(1-3) _ assms(4,5)] assms(6) by (simp add: effect_def)
  moreover have "e \<in># puts es + M" if "e \<in># N" for e using assms(6) that by (meson effect_def mset_subset_eqD)
  ultimately show ?thesis unfolding served_def by blast
qed

subsection \<open>One entry of the parent\<close>

lemma mergeAtAux_slot:
  assumes H: "\<And>b. length (H b) = 32" and ok: "trie_ok ys" "trie_ok ys'" "served ops H d (krefs H ys)" "pieces H ys' \<subseteq> U"
    and IH: "\<And>inl. (inl \<Longrightarrow> length (rlp_enc (node H ys)) < 32) \<Longrightarrow>
      \<exists>es. mergeAt n ops H (rlp_enc (node H ys)) (H (rlp_enc (node H ys))) k v inl d = (Inr (rlp_enc (node H ys')), run ops H es d) \<and>
        effect F U (self_ref H ys + nrefs H ys) (nrefs H ys') es \<and> length es \<le> L"
  shows "\<exists>es. (\<forall>s s'. emit (child H (node H ys')) s = Inr s' \<longrightarrow>
      mergeAtAux (Suc n) ops H s (rlp_enc (child H (node H ys))) k v d = (Inr s', run ops H es d)) \<and>
    effect F U (krefs H ys) (krefs H ys') es \<and> length es \<le> L + 1"
proof -
  have f: "rlp_fits (node H ys')" by (rule node_fits [OF H trie_okD(2) [OF ok(2)]])
  have fy: "rlp_fits (node H ys)" by (rule node_fits [OF H trie_okD(2) [OF ok(1)]])
  let ?inl = "length (rlp_enc (node H ys)) < 32"
  obtain es where es: "mergeAt n ops H (rlp_enc (node H ys)) (H (rlp_enc (node H ys))) k v ?inl d = (Inr (rlp_enc (node H ys')), run ops H es d)"
      "effect F U (self_ref H ys + nrefs H ys) (nrefs H ys') es" "length es \<le> L"
    using IH [of ?inl] by blast
  have "effect F U (krefs H ys) (krefs H ys') (es @ pev (node H ys'))"
    unfolding krefs_self by (rule effect_append [OF es(2)]) (use big_pieces(2) [of H ys'] ok(4) in \<open>auto simp: self_ref_big intro: effect_pev\<close>)
  moreover have "mergeAtAux (Suc n) ops H s (rlp_enc (child H (node H ys))) k v d = (Inr s', run ops H (es @ pev (node H ys')) d)"
    if "emit (child H (node H ys')) s = Inr s'" for s s'
  proof -
    note st = streamNode_run [OF f that]
    show ?thesis
    proof (cases ?inl)
      case True
      have c: "child H (node H ys) = node H ys" using True by (simp add: child_def)
      have "isList (rlp_enc (node H ys)) \<or> isEmpty (rlp_enc (node H ys))"
      proof (cases "ys = []")
        case True
        then show ?thesis by (simp add: node_simps isEmpty_def isNull_def enc_bytes_def enc_hdr_def)
      next
        case False
        then obtain zs where "node H ys = RList zs" using node_list [of ys H] by blast
        then show ?thesis using list_reads(1) [of zs] fy by simp
      qed
      then show ?thesis using es(1) True st by (auto simp: c tbind_def)
    next
      case False
      then have ne: "ys \<noteq> []" by (auto simp: node_simps enc_bytes_def enc_hdr_def)
      obtain zs where zs: "node H ys = RList zs" "zs \<noteq> []" using node_list [OF ne] by blast
      have "\<not> isList (rlp_enc (child H (node H ys)))" "\<not> isEmpty (rlp_enc (child H (node H ys)))"
        using child_reads [of H zs, OF H zs(2)] False by (simp_all add: zs(1))
      then show ?thesis using es(1) False st follow_node [OF H ne ok(1,3)] by (simp add: tbind_def)
    qed
  qed
  ultimately show ?thesis using es(3) ev_length(2) [of "node H ys'"] by (intro exI [of _ "es @ pev (node H ys')"]) auto
qed

subsection \<open>Branches and extensions\<close>

lemma merge_branch_value:
  assumes H: "\<And>b. length (H b) = 32" and ok: "trie_ok xs" "trie_ok (om_set [] v xs)" "view_ok k" and key: "nibs k = []"
  shows "mergeAt (Suc n) ops H (rlp_enc (branch_item H xs)) h k v inLine d =
      (Inr (rlp_enc (branch_item H (om_set [] v xs))), run ops H (kev (branch_item H xs)) d)" "brefs H (om_set [] v xs) = brefs H xs"
proof -
  let ?b = "rlp_enc (branch_item H xs)" and ?xs = "om_set [] v xs"
  have f: "rlp_fits (RList (branch_items H xs))" "rlp_fits (RList (branch_items H ?xs))"
    using branch_fits [of H, OF H ok(1)] branch_fits [of H, OF H ok(2)] by (simp_all add: branch_item_def)
  have e: "\<not> isEmpty ?b" "itemCount ?b = Inr 17"
    using not_Empty_list [OF f(1)] list_reads(2) [OF f(1)] by (auto simp: branch_item_def branch_items_def)
  have "sub [a] ?xs = sub [a] xs" for a using sub_set [OF trie_okD(1) [OF ok(1)], of "[]" "[a]" v] by simp
  moreover have "value_of ?xs = v" using keys_okD(1) [OF trie_okD(1) [OF ok(1)]] by (simp add: value_of_def)
  ultimately have br: "branch_items H ?xs = map (\<lambda>i. slot H (sub [of_nat i] xs)) [0..<16] @ [RStr v]" and "brefs H ?xs = brefs H xs"
    by (simp_all add: branch_items_def brefs_def)
  then show "brefs H ?xs = brefs H xs" by blast
  have "place ops H ?b k v d = (Inr (rlp_enc (branch_item H ?xs)), run ops H (kev (branch_item H xs)) d)"
    using place_branch [of "map (\<lambda>i. slot H (sub [of_nat i] xs)) [0..<16]" "RStr (value_of xs)" v ops H k d] f
    by (simp add: branch_item_def branch_items_def [of H xs] br del: upt_rec_numeral)
  then show "mergeAt (Suc n) ops H ?b h k v inLine d = (Inr (rlp_enc (branch_item H ?xs)), run ops H (kev (branch_item H xs)) d)"
    using e view_size(1) [OF ok(3)] by (simp add: unsigned_17 key)
qed

lemma merge_branch_entry:
  assumes H: "\<And>b. length (H b) = 32" and ok: "trie_ok xs" "trie_ok xs'" "view_ok k" and key: "nibs k = b # ms"
    and upd: "\<And>i. i < 16 \<Longrightarrow> i \<noteq> unat b \<Longrightarrow> sub [of_nat i] xs' = sub [of_nat i] xs" "value_of xs' = value_of xs"
    and e: "e = run ops H (if inLine then [] else kev (branch_item H xs)) d"
    and at: "\<And>s s'. emit (child H (node H (sub [b] xs'))) s = Inr s' \<Longrightarrow>
      mergeAtAux n ops H s (rlp_enc (child H (node H (sub [b] xs)))) (mid k 1) v e = (Inr s', e')"
  shows "mergeAt (Suc n) ops H (rlp_enc (branch_item H xs)) (H (rlp_enc (branch_item H xs))) k v inLine d = (Inr (rlp_enc (branch_item H xs')), e')"
proof -
  let ?b = "rlp_enc (branch_item H xs)"
  have f: "rlp_fits (RList (branch_items H xs))" "rlp_fits (RList (branch_items H xs'))"
    using branch_fits [of H, OF H ok(1)] branch_fits [of H, OF H ok(2)] by (simp_all add: branch_item_def)
  have r: "\<not> isEmpty ?b" "itemCount ?b = Inr 17"
    using not_Empty_list [OF f(1)] list_reads(2) [OF f(1)] by (auto simp: branch_item_def branch_items_def)
  have b16: "unat b < 16" using nibbles_nibs [of k] by (simp add: key word_less_nat_alt)
  let ?g = "\<lambda>i. if i = unat b then child H (node H (sub [b] xs')) else branch_items H xs ! i"
  have items: "branch_items H xs' = map ?g [0..<17] @ []" using branch_items_update [OF b16 upd] by simp
  let ?f = "\<lambda>i r. if i = unat b then tbind (tlift (rlp_at ?b i)) (\<lambda>x. mergeAtAux n ops H r x (mid k 1) v) else tlift (append_item ?b i r)"
  have rb: "rlp_at ?b (unat b) = Inr (rlp_enc (child H (node H (sub [b] xs))))"
    using list_reads(3) [OF f(1), of "unat b"] b16 by (simp add: branch_item_def branch_nth slot_child)
  have atb: "?f (unat b) s e = (Inr s', e')" if "emit (?g (unat b)) s = Inr s'" for s s' using at [of s s'] that rb by simp
  have copy: "?f i s = tlift (emit (?g i) s)" if "i < 17" "i \<noteq> unat b" for i s
    using append_item_emit [OF f(1), of i s] that by (simp add: branch_item_def)
  have b17: "unat b < 17" using b16 by simp
  have fm: "rlp_fits (RList (map ?g [0..<17] @ []))" using f(2) items by simp
  obtain r s where rs: "appendList (17 + length ([] :: rlp_item list)) RLPStream = Inr r" "tfold ?f [0..<17] r e = (Inr s, e')"
      "ebind (emits [] s) stream_out = Inr (rlp_enc (RList (map ?g [0..<17] @ [])))"
    by (rule tfold_one [OF b17 fm, where f = ?f and d = e and d' = e']) (use copy atb in blast)+
  have out: "stream_out s = Inr (rlp_enc (branch_item H xs'))" using rs(3) items by (simp add: branch_item_def)
  have sz: "ns_size k \<noteq> 0" "ns_at k 0 = Inr b" using view_size(1) [OF ok(3)] view_at [OF ok(3), of 0] by (simp_all add: key)
  show ?thesis using r sz rs(1,2) out by (cases inLine) (simp_all add: e unsigned_17 killNode_run tbind_def del: upt_rec_numeral)
qed

lemma merge_branch:
  assumes H: "\<And>b. length (H b) = 32" and ok: "trie_ok xs" "trie_ok (om_set (nibs k) v xs)" "view_ok k" "length v < 2 ^ 59"
    and aux: "\<And>b ms e. nibs k = b # ms \<Longrightarrow> e = run ops H (if inLine then [] else kev (branch_item H xs)) d \<Longrightarrow>
      \<exists>es. (\<forall>s s'. emit (child H (node H (om_set ms v (sub [b] xs)))) s = Inr s' \<longrightarrow>
        mergeAtAux n ops H s (rlp_enc (child H (node H (sub [b] xs)))) (mid k 1) v e = (Inr s', run ops H es e)) \<and>
        effect F U (krefs H (sub [b] xs)) (krefs H (om_set ms v (sub [b] xs))) es \<and> length es \<le> L"
  shows "\<exists>es. mergeAt (Suc n) ops H (rlp_enc (branch_item H xs)) (H (rlp_enc (branch_item H xs))) k v inLine d =
      (Inr (rlp_enc (branch_item H (om_set (nibs k) v xs))),
       run ops H ((if inLine \<and> nibs k \<noteq> [] then [] else kev (branch_item H xs)) @ es) d) \<and>
    effect F U (brefs H xs) (brefs H (om_set (nibs k) v xs)) es \<and> length es \<le> L"
proof (cases "nibs k")
  case Nil
  then show ?thesis using merge_branch_value [of H, OF H ok(1) _ ok(3) Nil] ok(2) effect_Nil
    by (intro exI [of _ "[]"]) (simp del: mergeAt.simps)
next
  case (Cons b ms)
  let ?xs = "om_set (nibs k) v xs" let ?d = "run ops H (if inLine then [] else kev (branch_item H xs)) d"
  note ss = sub_set [OF trie_okD(1) [OF ok(1)] nibbles_nibs, of _ k v]
  have sb: "sub [b] ?xs = om_set ms v (sub [b] xs)" using ss [of "[b]"] by (simp add: Cons)
  obtain es where es: "\<And>s s'. emit (child H (node H (sub [b] ?xs))) s = Inr s' \<Longrightarrow>
      mergeAtAux n ops H s (rlp_enc (child H (node H (sub [b] xs)))) (mid k 1) v ?d = (Inr s', run ops H es ?d)"
    "effect F U (krefs H (sub [b] xs)) (krefs H (sub [b] ?xs)) es" "length es \<le> L"
    using aux [OF Cons refl] unfolding sb by blast
  have upd: "sub [of_nat i] ?xs = sub [of_nat i] xs" if "i < 16" "i \<noteq> unat b" for i
  proof -
    have "(of_nat i :: byte) \<noteq> b" using that unat_of_nat_small [of i] by auto
    then show ?thesis using ss [of "[of_nat i]"] by (simp add: Cons)
  qed
  have val: "value_of ?xs = value_of xs" using keys_okD(1) [OF trie_okD(1) [OF ok(1)]] by (simp add: value_of_def Cons)
  have b16: "unat b < 16" using nibbles_nibs [of k] by (simp add: Cons word_less_nat_alt)
  have "mergeAt (Suc n) ops H (rlp_enc (branch_item H xs)) (H (rlp_enc (branch_item H xs))) k v inLine d = (Inr (rlp_enc (branch_item H ?xs)), run ops H es ?d)"
    by (rule merge_branch_entry [of H, OF H ok(1,2,3) Cons upd val refl es(1)])
  then show ?thesis using es(3) brefs_update [OF b16 upd es(2)] by (intro exI [of _ es]) (simp add: Cons del: mergeAt.simps)
qed

lemma merge_ext:
  assumes H: "\<And>b. length (H b) = 32" and q: "nibbles q" "length q < 2 ^ 31 - 2" and ok: "view_ok k" "prefix q (nibs k)"
    and aux: "\<And>e. e = run ops H (if inLine then [] else kev (ext_item H q xs)) d \<Longrightarrow>
      \<exists>es. (\<forall>s s'. emit (child H (node H ys)) s = Inr s' \<longrightarrow>
        mergeAtAux n ops H s (rlp_enc (child H (node H (sub q xs)))) (mid k (length q)) v e = (Inr s', run ops H es e)) \<and>
        effect F U M N es \<and> length es \<le> L"
  shows "\<exists>es. mergeAt (Suc n) ops H (rlp_enc (ext_item H q xs)) (H (rlp_enc (ext_item H q xs))) k v inLine d =
      (Inr (rlp_enc (RList [RStr (hp False q), child H (node H ys)])), run ops H ((if inLine then [] else kev (ext_item H q xs)) @ es) d) \<and>
    effect F U M N es \<and> length es \<le> L"
proof -
  let ?o = "rlp_enc (ext_item H q xs)" and ?x = "child H (node H (sub q xs))" and ?y = "child H (node H ys)"
  let ?d = "run ops H (if inLine then [] else kev (ext_item H q xs)) d"
  obtain es where es: "\<And>s s'. emit ?y s = Inr s' \<Longrightarrow> mergeAtAux n ops H s (rlp_enc ?x) (mid k (length q)) v ?d = (Inr s', run ops H es ?d)"
      "effect F U M N es" "length es \<le> L"
    using aux [OF refl] by blast
  have f: "rlp_fits (RList [RStr (hp False q), ?x])" "rlp_fits (RList ([RStr (hp False q)] @ [?y]))"
    using pair_child_fits [of H q False] H q(2) by simp_all
  have e: "\<not> isEmpty ?o" "itemCount ?o = Inr 2" "rlp_at ?o 1 = Inr (rlp_enc ?x)"
    using not_Empty_list [OF f(1)] list_reads(2) [OF f(1)] list_reads(3) [OF f(1), of 1] by (simp_all add: ext_item_def)
  have kk: "view_ok (keyOf (hp False q))" "nibs (keyOf (hp False q)) = q" using keyOf_hp [OF q] by blast+
  have pr: "keyOf_item ?o = Inr (keyOf (hp False q))" "isLeaf ?o = Inr False" using pair_reads [OF f(1) q(1)] by (simp_all add: ext_item_def)
  have ct: "ns_contains k (keyOf (hp False q))" "ns_size (keyOf (hp False q)) = length q"
    using view_contains [OF ok(1) kk(1)] ok(2) view_size(1) [OF kk(1)] by (simp_all add: kk(2))
  obtain s where s: "ebind (appendList (length ([RStr (hp False q)] @ [?y])) RLPStream) (emits [RStr (hp False q)]) = Inr s"
      "ebind (emits [?y] s) stream_out = Inr (rlp_enc (RList ([RStr (hp False q)] @ [?y])))"
    by (rule open_list [OF f(2)])
  obtain s' where s': "emit ?y s = Inr s'" "stream_out s' = Inr (rlp_enc (RList [RStr (hp False q), ?y]))"
    using s(2) by (auto simp: ebind_Inr_iff)
  have "append_item ?o 0 = append_bytes False (hp False q)" using append_item_emit [OF f(1), of 0] by (intro ext) (simp add: ext_item_def)
  then have st: "ebind (appendList 2 RLPStream) (append_item ?o 0) = Inr s" using s(1) by (simp add: numeral_2_eq_2)
  have "mergeAt (Suc n) ops H ?o (H ?o) k v inLine d = (Inr (rlp_enc (RList [RStr (hp False q), ?y])), run ops H es ?d)"
    using e pr ct es(1) [OF s'(1)] s'(2) st by (cases inLine) (simp_all add: unsigned_17 killNode_run tbind_def del: One_nat_def)
  then show ?thesis using es(2,3) by (intro exI [of _ es]) simp
qed

end

end
