(* ===== verification/Trie_Merge_Node.thy ===== *)
theory Trie_Merge_Node
  imports Trie_Merge
begin

section \<open>The merge of a key into any node\<close>

text \<open>
  \<open>mergeAt\<close> on the node of a map answers the node of the map with the key set (\<open>mergeAt_node\<close>). One lemma per case of
  the code: the same leaf (\<open>merge_same\<close>), down an extension (\<open>merge_down\<close>), a pair cut in two (\<open>merge_cleve\<close>) or made
  a branch (\<open>merge_split\<close>), and a branch (\<open>merge_at_branch\<close>). The induction is on the nibbles of the key that are left.
\<close>

subsection \<open>A pair that disagrees with the key\<close>

lemma pair_fits:
  assumes "\<And>b. length (H b) = 32" "trie_ok xs" "is_pair xs"
  shows "rlp_fits (RList [RStr (hp (length xs = 1) (lcp xs)), px H xs])"
  using node_fits [of H xs, OF assms(1) trie_okD(2) [OF assms(2)]] pair_form [OF trie_okD(1) [OF assms(2)] assms(3), of H] by simp

lemma is_pairD: "is_pair xs \<Longrightarrow> xs \<noteq> []"
  by (auto simp: is_pair_def)

lemma cleve_node:
  assumes H: "\<And>b. length (H b) = 32" and ok: "trie_ok xs" "is_pair xs" "n \<le> length (lcp xs)" "length xs = 1 \<or> n < length (lcp xs)"
    and q: "q = take n (lcp xs)"
  shows "cleve ops H (rlp_enc (node H xs)) n d = (Inr (rlp_enc (ext_item H q xs)), run ops H (kev (node H xs) @ pev (node H (sub q xs))) d)"
proof -
  note k = trie_okD(1) [OF ok(1)] and b = lcp_bounds [OF ok(1) is_pairD [OF ok(2)]]
  have cut: "node H (sub q xs) = bottom (length xs = 1) n (lcp xs) (px H xs)" by (rule pair_cut(1) [OF k ok(2) q ok(4)])
  have "rlp_fits (bottom (length xs = 1) n (lcp xs) (px H xs))" unfolding cut [symmetric] by (rule node_fits [OF H trie_okD(2) [OF trie_ok_sub [OF ok(1)]]])
  from cleve_run [of H, OF H pair_fits [of H, OF H ok(1,2)] this b ok(3), of ops d]
  show ?thesis unfolding pair_form [OF k ok(2)] ext_item_def cut unfolding q .
qed

lemma branch_node:
  assumes H: "\<And>b. length (H b) = 32" and ok: "trie_ok xs" "is_pair xs"
  obtains pe where "branch ops H (rlp_enc (node H xs)) d = (Inr (rlp_enc (branch_item H xs)), run ops H (kev (node H xs) @ pe) d)"
    "puts pe + nrefs H xs = brefs H xs" "kills pe = {#}" "length pe \<le> 1"
proof (cases "lcp xs")
  case Nil
  note k = trie_okD(1) [OF ok(1)]
  have l: "length xs = 1" using ok(2) Nil by (auto simp: is_pair_def)
  have f: "rlp_fits (RList (map (\<lambda>_. RStr []) [0..<16] @ [px H xs]))" using branch_fits [of H, OF H ok(1)] pair_branch(1) [OF ok Nil, of H] by simp
  have "branch ops H (rlp_enc (node H xs)) d = (Inr (rlp_enc (branch_item H xs)), run ops H (kev (node H xs) @ []) d)"
    using branch_run_empty [OF pair_fits [of H, OF H ok, unfolded Nil] f, of ops H d] pair_branch(1) [OF ok Nil, of H]
    by (simp add: pair_form [OF k ok(2)] Nil)
  then show ?thesis by (rule that) (use l pair_branch(4) [OF ok Nil] in \<open>simp_all add: nrefs_forms\<close>)
next
  case (Cons b ms)
  note k = trie_okD(1) [OF ok(1)] and bd = lcp_bounds [OF ok(1) is_pairD [OF ok(2)], unfolded Cons]
  let ?l = "length xs = 1" let ?bot = "bottom ?l 1 (b # ms) (px H xs)"
  let ?pe = "if ?l \<or> ms \<noteq> [] then pev ?bot else []"
  have cut: "node H (sub [b] xs) = ?bot" "nrefs H (sub [b] xs) = nrefs H xs" if "?l \<or> ms \<noteq> []"
    using pair_cut(1,2) [OF k ok(2), of "[b]" 1] that by (simp_all add: Cons)
  have fb: "rlp_fits ?bot"
  proof (cases "?l \<or> ms \<noteq> []")
    case True
    then show ?thesis using cut(1) node_fits [of H "sub [b] xs", OF H trie_okD(2) [OF trie_ok_sub [OF ok(1)]]] by simp
  next
    case False
    then show ?thesis using pair_child_fits [of H "[]" False, OF H] by (simp add: bottom_def px_def)
  qed
  note pb = pair_branch(2) [OF ok Cons, of H]
  have f: "rlp_fits (RList (map (\<lambda>i. if i = unat b then (if ?l \<or> ms \<noteq> [] then child H ?bot else px H xs) else RStr []) [0..<16] @ [RStr []]))"
    using branch_fits [of H, OF H ok(1)] unfolding pb .
  have "branch ops H (rlp_enc (node H xs)) d = (Inr (rlp_enc (branch_item H xs)), run ops H (kev (node H xs) @ ?pe) d)"
    using branch_run_Cons [OF pair_fits [of H, OF H ok, unfolded Cons] fb f bd, of ops d] unfolding pair_form [OF k ok(2)] Cons pb .
  then show ?thesis
  proof (rule that)
    show "puts ?pe + nrefs H xs = brefs H xs"
    proof (cases "?l \<or> ms \<noteq> []")
      case True
      then show ?thesis using cut [OF True] pair_branch(3) [OF ok Cons, of H] by (simp add: krefs_self self_ref_big)
    next
      case False
      then show ?thesis using ok(2) pair_branch(3) [OF ok Cons, of H] nrefs_forms(2) [of xs H] by (simp add: is_pair_def Cons)
    qed
    show "kills ?pe = {#}" "length ?pe \<le> 1" using ev_length(2) by auto
  qed
qed

lemma merge_pair_step:
  assumes "rlp_fits (RList [RStr (hp l q), x])" "nibbles q" "length q < 2 ^ 31 - 2" "view_ok k"
    and "\<not> (l \<and> nibs k = q)" "\<not> (\<not> l \<and> prefix q (nibs k))"
  shows "mergeAt (Suc n) ops H (rlp_enc (RList [RStr (hp l q), x])) h k v inLine d =
    (if commonPrefix (nibs k) q \<noteq> 0 then
       tbind (cleve ops H (rlp_enc (RList [RStr (hp l q), x])) (commonPrefix (nibs k) q)) (\<lambda>c. mergeAt n ops H c (H c) k v True) d
     else tbind (branch ops H (rlp_enc (RList [RStr (hp l q), x]))) (\<lambda>c. mergeAt n ops H c (H c) k v True) d)"
proof -
  let ?b = "rlp_enc (RList [RStr (hp l q), x])"
  have k: "view_ok (keyOf (hp l q))" "nibs (keyOf (hp l q)) = q" using keyOf_hp [OF assms(2,3)] by blast+
  have r: "\<not> isEmpty ?b" "itemCount ?b = Inr 2" using not_Empty_list [OF assms(1)] list_reads(2) [OF assms(1)] by simp_all
  have us: "(if ns_eq (keyOf (hp l q)) k then isLeaf ?b else Inr False) = Inr False"
    using pair_reads(2) [OF assms(1,2)] view_eq [OF k(1) assms(4)] assms(5) by (auto simp: k(2))
  have down: "(if ns_contains k (keyOf (hp l q)) then ebind (isLeaf ?b) (\<lambda>l. Inr (\<not> l)) else Inr False) = Inr False"
    using pair_reads(2) [OF assms(1,2)] view_contains [OF assms(4) k(1)] assms(6) by (auto simp: k(2))
  show ?thesis
    using r pair_reads(1) [OF assms(1,2)] view_shared [OF assms(4) k(1)] us down by (simp add: unsigned_17 k(2) Let_def)
qed

subsection \<open>The induction\<close>

definition flat :: "hex_map \<Rightarrow> bytes \<Rightarrow> bool" where
  "flat xs key \<longleftrightarrow> (\<forall>p \<in> set xs. length (fst p) = length key)"

lemma flat_sub: "flat xs key \<Longrightarrow> prefix q key \<Longrightarrow> flat (sub q xs) (drop (length q) key)"
  by (fastforce simp: flat_def set_sub)

lemma effect_weaken: "effect F U M N es \<Longrightarrow> (G \<Longrightarrow> F) \<Longrightarrow> effect G U M N es"
  by (auto simp: effect_def)

lemma effect_void: "puts es = {#} \<Longrightarrow> (F \<Longrightarrow> es = []) \<Longrightarrow> effect F U M M es"
  by (auto simp: effect_def)

lemma effect_pre:
  "pieces H xs \<subseteq> U \<Longrightarrow> (inl \<Longrightarrow> length (rlp_enc (node H xs)) < 32) \<Longrightarrow>
    effect F U (self_ref H xs + M) M (if inl then [] else kev (node H xs))"
  using pieces_self(2) [of H xs] by (auto simp: effect_def self_ref_big big_def kev_def)

lemma keys_of_pair: "is_pair xs \<Longrightarrow> keys_ok xs \<Longrightarrow> flat xs [] \<Longrightarrow> length xs = 1 \<and> lcp xs = []"
proof -
  assume a: "is_pair xs" "keys_ok xs" "flat xs []"
  have z: "fst p = []" if "p \<in> set xs" for p using a(3) that by (simp add: flat_def)
  have d: "distinct (map fst xs)" using om_ok_distinct [OF keys_okD(1) [OF a(2)]] .
  obtain p rest where xs: "xs = p # rest" using is_pairD [OF a(1)] by (cases xs) auto
  have "rest = []" using d z by (cases rest) (auto simp: xs)
  then show ?thesis using z [of p] by (cases p) (simp add: xs lcp_single)
qed

definition merge_ctx :: "('d \<Rightarrow> bool) \<Rightarrow> 'd db_ops \<Rightarrow> hash_fun \<Rightarrow> bytes set \<Rightarrow> hex_map \<Rightarrow> NibbleSlice \<Rightarrow> bytes \<Rightarrow> 'd \<Rightarrow> bool \<Rightarrow> bool" where
  "merge_ctx ok ops H U xs k v d inLine \<longleftrightarrow>
     inj_on H U \<and> [] \<notin> U \<and> trie_ok xs \<and> view_ok k \<and> length v < 2 ^ 59 \<and> length (nibs k) < 2 ^ 31 - 2 \<and> ok d \<and>
     served ops H d (nrefs H xs) \<and> pieces H xs \<subseteq> U \<and> pieces H (om_set (nibs k) v xs) \<subseteq> U \<and> (inLine \<longrightarrow> length (rlp_enc (node H xs)) < 32)"

definition merges :: "'d db_ops \<Rightarrow> hash_fun \<Rightarrow> bytes set \<Rightarrow> nat \<Rightarrow> hex_map \<Rightarrow> NibbleSlice \<Rightarrow> bytes \<Rightarrow> bool \<Rightarrow> 'd \<Rightarrow> nat \<Rightarrow> bool" where
  "merges ops H U n xs k v inLine d L \<longleftrightarrow>
     (\<exists>es. mergeAt n ops H (rlp_enc (node H xs)) (H (rlp_enc (node H xs))) k v inLine d = (Inr (rlp_enc (node H (om_set (nibs k) v xs))), run ops H es d) \<and>
        effect (flat xs (nibs k)) U (self_ref H xs + nrefs H xs) (nrefs H (om_set (nibs k) v xs)) es \<and> length es \<le> L)"

definition kids_merge :: "('d \<Rightarrow> bool) \<Rightarrow> 'd db_ops \<Rightarrow> hash_fun \<Rightarrow> bytes set \<Rightarrow> nat \<Rightarrow> hex_map \<Rightarrow> NibbleSlice \<Rightarrow> bytes \<Rightarrow> nat \<Rightarrow> bool" where
  "kids_merge ok ops H U m xs k v L \<longleftrightarrow>
     (\<forall>q e. prefix q (nibs k) \<longrightarrow> q \<noteq> [] \<longrightarrow> ok e \<longrightarrow> served ops H e (krefs H (sub q xs)) \<longrightarrow>
        (\<exists>es. (\<forall>s s'. emit (child H (node H (om_set (drop (length q) (nibs k)) v (sub q xs)))) s = Inr s' \<longrightarrow>
             mergeAtAux m ops H s (rlp_enc (child H (node H (sub q xs)))) (mid k (length q)) v e = (Inr s', run ops H es e)) \<and>
           effect (flat xs (nibs k)) U (krefs H (sub q xs)) (krefs H (om_set (drop (length q) (nibs k)) v (sub q xs))) es \<and> length es + 3 \<le> L))"

lemma merge_ctxD:
  assumes "merge_ctx ok ops H U xs k v d inLine"
  shows "inj_on H U" "[] \<notin> U" "trie_ok xs" "view_ok k" "length v < 2 ^ 59" "length (nibs k) < 2 ^ 31 - 2" "ok d" "served ops H d (nrefs H xs)"
    "pieces H xs \<subseteq> U" "pieces H (om_set (nibs k) v xs) \<subseteq> U" "inLine \<Longrightarrow> length (rlp_enc (node H xs)) < 32" "trie_ok (om_set (nibs k) v xs)"
proof -
  show *: "inj_on H U" "[] \<notin> U" "trie_ok xs" "view_ok k" "length v < 2 ^ 59" "length (nibs k) < 2 ^ 31 - 2" "ok d" "served ops H d (nrefs H xs)"
    "pieces H xs \<subseteq> U" "pieces H (om_set (nibs k) v xs) \<subseteq> U" "inLine \<Longrightarrow> length (rlp_enc (node H xs)) < 32"
    using assms by (simp_all add: merge_ctx_def)
  show "trie_ok (om_set (nibs k) v xs)" by (rule trie_ok_set) (use *(3,5,6) nibbles_nibs in auto)
qed

context node_store
begin

lemma merge_kid:
  assumes H: "\<And>b. length (H b) = 32" and ok: "trie_ok xs" "view_ok k" "length v < 2 ^ 59" "length (nibs k) < 2 ^ 31 - 2"
    and U: "pieces H (om_set (nibs k) v xs) \<subseteq> U"
    and q: "prefix q (nibs k)" "q \<noteq> []" and e: "served ops H e (krefs H (sub q xs))"
    and IH: "\<And>inl. (inl \<Longrightarrow> length (rlp_enc (node H (sub q xs))) < 32) \<Longrightarrow>
      \<exists>es. mergeAt n ops H (rlp_enc (node H (sub q xs))) (H (rlp_enc (node H (sub q xs)))) (mid k (length q)) v inl e =
        (Inr (rlp_enc (node H (om_set (drop (length q) (nibs k)) v (sub q xs)))), run ops H es e) \<and>
        effect (flat (sub q xs) (drop (length q) (nibs k))) U (self_ref H (sub q xs) + nrefs H (sub q xs))
          (nrefs H (om_set (drop (length q) (nibs k)) v (sub q xs))) es \<and> length es \<le> L"
  shows "\<exists>es. (\<forall>s s'. emit (child H (node H (om_set (drop (length q) (nibs k)) v (sub q xs)))) s = Inr s' \<longrightarrow>
        mergeAtAux (Suc n) ops H s (rlp_enc (child H (node H (sub q xs)))) (mid k (length q)) v e = (Inr s', run ops H es e)) \<and>
      effect (flat xs (nibs k)) U (krefs H (sub q xs)) (krefs H (om_set (drop (length q) (nibs k)) v (sub q xs))) es \<and> length es \<le> L + 1"
proof -
  let ?ys = "sub q xs" let ?ys' = "om_set (drop (length q) (nibs k)) v ?ys"
  have s: "sub q (om_set (nibs k) v xs) = ?ys'" by (rule sub_set_inside [OF trie_okD(1) [OF ok(1)] nibbles_nibs q(1)])
  have ok': "trie_ok ?ys'" unfolding s [symmetric] using ok by (intro trie_ok_sub trie_ok_set nibbles_nibs)
  have p: "pieces H ?ys' \<subseteq> U" unfolding s [symmetric] using pieces_sub U by blast
  have step: "\<exists>es. mergeAt n ops H (rlp_enc (node H ?ys)) (H (rlp_enc (node H ?ys))) (mid k (length q)) v inl e = (Inr (rlp_enc (node H ?ys')), run ops H es e) \<and>
        effect (flat xs (nibs k)) U (self_ref H ?ys + nrefs H ?ys) (nrefs H ?ys') es \<and> length es \<le> L"
    if i: "inl \<Longrightarrow> length (rlp_enc (node H ?ys)) < 32" for inl
  proof -
    obtain es where "mergeAt n ops H (rlp_enc (node H ?ys)) (H (rlp_enc (node H ?ys))) (mid k (length q)) v inl e = (Inr (rlp_enc (node H ?ys')), run ops H es e)"
        "effect (flat ?ys (drop (length q) (nibs k))) U (self_ref H ?ys + nrefs H ?ys) (nrefs H ?ys') es" "length es \<le> L"
      using IH [OF i] by blast
    moreover from this(2) have "effect (flat xs (nibs k)) U (self_ref H ?ys + nrefs H ?ys) (nrefs H ?ys') es"
      using flat_sub [OF _ q(1)] by (rule effect_weaken)
    ultimately show ?thesis by blast
  qed
  show ?thesis
    by (rule mergeAtAux_slot [of H ?ys ?ys' e U n "mid k (length q)" v "flat xs (nibs k)" L, OF H trie_ok_sub [OF ok(1)] ok' e p step])
qed

lemma kids_mergeD:
  assumes "kids_merge ok ops H U m xs k v L" "prefix q (nibs k)" "q \<noteq> []" "ok e" "served ops H e (krefs H (sub q xs))"
  shows "\<exists>es. (\<forall>s s'. emit (child H (node H (om_set (drop (length q) (nibs k)) v (sub q xs)))) s = Inr s' \<longrightarrow>
      mergeAtAux m ops H s (rlp_enc (child H (node H (sub q xs)))) (mid k (length q)) v e = (Inr s', run ops H es e)) \<and>
    effect (flat xs (nibs k)) U (krefs H (sub q xs)) (krefs H (om_set (drop (length q) (nibs k)) v (sub q xs))) es \<and> length es \<le> L - 3"
  using assms(1) [unfolded kids_merge_def, rule_format, OF assms(2-5)]
  by (elim exE conjE, intro exI conjI) (assumption, assumption, linarith)

lemma merge_same:
  assumes H: "\<And>b. length (H b) = 32" and ctx: "merge_ctx ok ops H U [(nibs k, w)] k v d inLine" and L: "4 \<le> L"
  shows "merges ops H U (Suc n) [(nibs k, w)] k v inLine d L"
proof -
  note c = merge_ctxD [OF ctx]
  let ?key = "nibs k" let ?xs = "[(?key, w)]"
  have n: "node H ?xs = RList [RStr (hp True ?key), RStr w]" "node H (om_set ?key v ?xs) = RList [RStr (hp True ?key), RStr v]" by (simp_all add: node_simps)
  have f: "rlp_fits (RList [RStr (hp True ?key), RStr w])" "rlp_fits (RList [RStr (hp True ?key), RStr v])"
    using node_fits [of H ?xs, OF H trie_okD(2) [OF c(3)]] node_fits [of H "om_set ?key v ?xs", OF H trie_okD(2) [OF c(12)]] unfolding n by blast+
  have kk: "view_ok (keyOf (hp True ?key))" "nibs (keyOf (hp True ?key)) = ?key" using keyOf_hp [OF nibbles_nibs c(6)] by blast+
  have "mergeAt (Suc n) ops H (rlp_enc (node H ?xs)) (H (rlp_enc (node H ?xs))) k v inLine d =
      (Inr (rlp_enc (node H (om_set ?key v ?xs))), run ops H (kev (node H ?xs)) d)"
    unfolding n using not_Empty_list [OF f(1)] list_reads(2) [OF f(1)] pair_reads [OF f(1) nibbles_nibs] place_pair [OF f, of ops H k d] view_eq [OF kk(1) c(4)]
    by (simp add: unsigned_17 kk(2))
  moreover have "nrefs H ?xs = {#}" "nrefs H (om_set ?key v ?xs) = {#}" by (simp_all add: nrefs_forms)
  moreover have "effect (flat ?xs ?key) U (self_ref H ?xs + {#}) {#} (kev (node H ?xs))"
    unfolding self_ref_big using big_pieces(2) [of H ?xs] c(9) by (intro effect_kev) (auto simp: self_ref_big)
  ultimately show ?thesis unfolding merges_def using L ev_length(1) [of "node H ?xs"] by (intro exI [of _ "kev (node H ?xs)"]) simp
qed

lemma merge_down:
  assumes H: "\<And>b. length (H b) = 32" and ctx: "merge_ctx ok ops H U xs k v d inLine" and kids: "kids_merge ok ops H U n xs k v L" and L: "4 \<le> L"
    and two: "2 \<le> length xs" "lcp xs \<noteq> []" and pre: "prefix (lcp xs) (nibs k)"
  shows "merges ops H U (Suc n) xs k v inLine d L"
proof -
  note c = merge_ctxD [OF ctx]
  let ?key = "nibs k" and ?ns = "lcp xs" let ?xs = "om_set ?key v xs" and ?F = "flat xs ?key"
  note kok = trie_okD(1) [OF c(3)] and k' = trie_okD(1) [OF c(12)]
  have ne: "xs \<noteq> []" using two(1) by auto
  have cp: "commonPrefix ?key ?ns = length ?ns" using pre by (simp add: commonPrefix_full)
  have lx: "lcp ?xs = ?ns" unfolding lcp_set [OF ne] cp using pre by (metis append_eq_conv_conj prefix_def)
  have two': "2 \<le> length ?xs" using two(1) length_om_set [OF keys_okD(1) [OF kok]] by simp
  let ?ys = "om_set (drop (length ?ns) ?key) v (sub ?ns xs)"
  have sx: "sub ?ns ?xs = ?ys" by (rule sub_set_inside [OF kok nibbles_nibs pre])
  have nx: "node H xs = ext_item H ?ns xs" "node H ?xs = RList [RStr (hp False ?ns), child H (node H ?ys)]"
    using node_forms(1) [OF kok two, of H] node_forms(1) [OF k' two', of H] two(2) by (simp_all add: lx ext_item_def sx)
  have rx: "nrefs H xs = krefs H (sub ?ns xs)" "nrefs H ?xs = krefs H ?ys"
    using nrefs_forms(2) [OF two, of H] nrefs_forms(2) [OF two', of H] two(2) by (simp_all add: lx sx)
  let ?pre = "if inLine then [] else kev (node H xs)"
  have sv: "served ops H (run ops H ?pre d) (krefs H (sub ?ns xs))"
    unfolding rx(1) [symmetric] by (rule served_run(1) [OF c(7,1,2) _ _ c(8)]) (use nrefs_pieces c(9) in auto)
  obtain es where es: "mergeAt (Suc n) ops H (rlp_enc (ext_item H ?ns xs)) (H (rlp_enc (ext_item H ?ns xs))) k v inLine d =
      (Inr (rlp_enc (RList [RStr (hp False ?ns), child H (node H ?ys)])), run ops H ((if inLine then [] else kev (ext_item H ?ns xs)) @ es) d)"
      "effect ?F U (krefs H (sub ?ns xs)) (krefs H ?ys) es" "length es \<le> L - 3"
    using merge_ext [of H ?ns k inLine xs d ?ys n v ?F U "krefs H (sub ?ns xs)" "krefs H ?ys" "L - 3", OF H lcp_bounds [OF c(3) ne] c(4) pre]
      kids_mergeD [OF kids pre two(2) ok_run [OF c(7)] sv] unfolding nx(1) by force
  have "effect ?F U (self_ref H xs + nrefs H xs) (nrefs H ?xs) (?pre @ es)"
    by (rule effect_append [OF effect_pre [OF c(9,11)]]) (use es(2) rx in auto)
  then show ?thesis unfolding merges_def using es(1,3) L ev_length(1) [of "node H xs"] unfolding nx by (intro exI [of _ "?pre @ es"]) (auto simp: nx)
qed

text \<open>The key leaves the partial key after \<open>n > 0\<close> nibbles, or at once.\<close>

lemma length_split:
  assumes "keys_ok xs" "is_pair xs" "\<not> (length xs = 1 \<and> key = lcp xs)"
  shows "2 \<le> length (om_set key v xs)"
proof (cases "length xs = 1")
  case True
  then obtain k0 w where xs: "xs = [(k0, w)]" by (cases xs) auto
  then have "map_of xs key = None" using assms(3) by (auto simp: lcp_single)
  then show ?thesis using length_om_set [OF keys_okD(1) [OF assms(1)], of key v] True by simp
next
  case False
  then show ?thesis using assms(2) length_om_set [OF keys_okD(1) [OF assms(1)], of key v] by (auto simp: is_pair_def)
qed

lemma merge_cleve:
  assumes H: "\<And>b. length (H b) = 32" and ctx: "merge_ctx ok ops H U xs k v d inLine" and kids: "kids_merge ok ops H U n xs k v L" and L: "4 \<le> L"
    and p: "is_pair xs" and split: "\<not> (length xs = 1 \<and> nibs k = lcp xs)" "\<not> (length xs \<noteq> 1 \<and> prefix (lcp xs) (nibs k))"
    and sh: "commonPrefix (nibs k) (lcp xs) \<noteq> 0"
  shows "merges ops H U (Suc (Suc n)) xs k v inLine d L"
proof -
  note c = merge_ctxD [OF ctx]
  let ?key = "nibs k" and ?ns = "lcp xs" let ?xs = "om_set ?key v xs" and ?F = "flat xs ?key" and ?sh = "commonPrefix ?key ?ns" let ?q = "take ?sh ?ns"
  note kok = trie_okD(1) [OF c(3)] and k' = trie_okD(1) [OF c(12)] and ne = is_pairD [OF p]
  note bd = lcp_bounds [OF c(3) ne]
  have tk: "take ?sh ?key = ?q" by (rule take_commonPrefix) simp
  have le: "?sh \<le> length ?ns" "length xs = 1 \<or> ?sh < length ?ns"
    using commonPrefix_le(2) [of ?key ?ns] commonPrefix_full [of ?key ?ns] split(2) by auto
  have qp: "prefix ?q ?key" "?q \<noteq> []" using take_is_prefix [of ?sh ?key] tk sh le(1) by auto
  have lx: "lcp ?xs = ?q" using lcp_set [OF ne] tk by simp
  note two = length_split [OF kok p split(1), of v]
  note step = merge_pair_step [OF pair_fits [of H, OF H c(3) p] bd c(4) split, of "Suc n" ops H "H (rlp_enc (node H xs))" v inLine d, folded pair_form [OF kok p, of H]]
  let ?ys = "om_set (drop (length ?q) ?key) v (sub ?q xs)"
  let ?ev = "kev (node H xs) @ pev (node H (sub ?q xs))" let ?e = "run ops H ?ev d"
  have cl: "cleve ops H (rlp_enc (node H xs)) ?sh d = (Inr (rlp_enc (ext_item H ?q xs)), ?e)" by (rule cleve_node [of H, OF H c(3) p le refl])
  have kr: "krefs H (sub ?q xs) = big (node H (sub ?q xs)) + nrefs H xs" by (simp add: krefs_self self_ref_big pair_cut(2) [OF kok p refl le(2)])
  have ev: "effect ?F U (self_ref H xs + nrefs H xs) (krefs H (sub ?q xs)) ?ev"
    unfolding kr self_ref_big using big_pieces(1) [of H ?q xs] big_pieces(2) [of H xs] c(9)
    by (intro effect_append [OF effect_kev effect_pev]) (auto simp: self_ref_big)
  have pu: "set_mset (puts ?ev) \<subseteq> U" using ev by (simp add: effect_def)
  have sv: "served ops H ?e (krefs H (sub ?q xs))"
    using served_run [OF c(7,1,2) pu _ c(8)] nrefs_pieces [of H xs] c(9) by (auto simp: kr simp del: run_simps)
  have nx: "node H ?xs = RList [RStr (hp False ?q), child H (node H ?ys)]" "nrefs H ?xs = krefs H ?ys"
    using node_forms(1) [OF k' two, of H] nrefs_forms(2) [OF two, of H] qp(2) by (simp_all add: lx ext_item_def sub_set_inside [OF kok nibbles_nibs qp(1)])
  have qb: "nibbles ?q" "length ?q < 2 ^ 31 - 2" using bd by (auto dest: in_set_takeD)
  obtain es where es: "mergeAt (Suc n) ops H (rlp_enc (ext_item H ?q xs)) (H (rlp_enc (ext_item H ?q xs))) k v True ?e =
      (Inr (rlp_enc (RList [RStr (hp False ?q), child H (node H ?ys)])), run ops H ((if True then [] else kev (ext_item H ?q xs)) @ es) ?e)"
      "effect ?F U (krefs H (sub ?q xs)) (krefs H ?ys) es" "length es \<le> L - 3"
    using merge_ext [of H ?q k True xs ?e ?ys n v ?F U "krefs H (sub ?q xs)" "krefs H ?ys" "L - 3", OF H qb c(4) qp(1)]
      kids_mergeD [OF kids qp ok_run [OF c(7)] sv] by force
  from effect_append [OF ev es(2)] have "effect ?F U (self_ref H xs + nrefs H xs) (nrefs H ?xs) (?ev @ es)" unfolding nx(2) .
  moreover have "mergeAt (Suc (Suc n)) ops H (rlp_enc (node H xs)) (H (rlp_enc (node H xs))) k v inLine d = (Inr (rlp_enc (node H ?xs)), run ops H (?ev @ es) d)"
    unfolding step nx(1) using sh cl es(1) by (simp add: tbind_def)
  moreover have "length (?ev @ es) \<le> L" using es(3) L ev_length(1) [of "node H xs"] ev_length(2) [of "node H (sub ?q xs)"] by simp
  ultimately show ?thesis unfolding merges_def by blast
qed

lemma branch_kids:
  assumes "kids_merge ok ops H U n xs k v L" "ok e" "served ops H e (brefs H xs)" "nibs k = b # ms"
  shows "\<exists>es. (\<forall>s s'. emit (child H (node H (om_set ms v (sub [b] xs)))) s = Inr s' \<longrightarrow>
      mergeAtAux n ops H s (rlp_enc (child H (node H (sub [b] xs)))) (mid k 1) v e = (Inr s', run ops H es e)) \<and>
    effect (flat xs (nibs k)) U (krefs H (sub [b] xs)) (krefs H (om_set ms v (sub [b] xs))) es \<and> length es \<le> L - 3"
proof -
  have "unat b < 16" using nibbles_nibs [of k] by (simp add: assms(4) word_less_nat_alt)
  then have "served ops H e (krefs H (sub [b] xs))" using assms(3) by (auto simp: served_brefs dest: spec [of _ "unat b"])
  from kids_mergeD [OF assms(1) _ _ assms(2) this] show ?thesis by (simp add: assms(4))
qed

lemma merge_split:
  assumes H: "\<And>b. length (H b) = 32" and ctx: "merge_ctx ok ops H U xs k v d inLine" and kids: "kids_merge ok ops H U n xs k v L" and L: "4 \<le> L"
    and p: "is_pair xs" and split: "\<not> (length xs = 1 \<and> nibs k = lcp xs)" "\<not> (length xs \<noteq> 1 \<and> prefix (lcp xs) (nibs k))"
    and sh: "commonPrefix (nibs k) (lcp xs) = 0"
  shows "merges ops H U (Suc (Suc n)) xs k v inLine d L"
proof -
  note c = merge_ctxD [OF ctx]
  let ?key = "nibs k" let ?xs = "om_set ?key v xs" and ?F = "flat xs ?key"
  note kok = trie_okD(1) [OF c(3)] and k' = trie_okD(1) [OF c(12)] and ne = is_pairD [OF p]
  have lx: "lcp ?xs = []" using lcp_set [OF ne] sh by simp
  note two = length_split [OF kok p split(1), of v]
  note step = merge_pair_step [OF pair_fits [of H, OF H c(3) p] lcp_bounds [OF c(3) ne] c(4) split, of "Suc n" ops H "H (rlp_enc (node H xs))" v inLine d,
      folded pair_form [OF kok p, of H]]
  obtain pe where pe: "branch ops H (rlp_enc (node H xs)) d = (Inr (rlp_enc (branch_item H xs)), run ops H (kev (node H xs) @ pe) d)"
      "puts pe + nrefs H xs = brefs H xs" "kills pe = {#}" "length pe \<le> 1"
    by (rule branch_node [of H, OF H c(3) p])
  let ?ev = "kev (node H xs) @ pe" let ?e = "run ops H ?ev d"
  have pu: "set_mset (puts ?ev) \<subseteq> U" using brefs_pieces [of H xs] c(9) by (auto simp flip: pe(2))
  have "effect ?F U (nrefs H xs) (brefs H xs) pe" using pu pe(2,3) by (simp add: effect_def)
  then have ev: "effect ?F U (self_ref H xs + nrefs H xs) (brefs H xs) ?ev"
    unfolding self_ref_big using big_pieces(2) [of H xs] c(9) by (intro effect_append [OF effect_kev]) (auto simp: self_ref_big)
  have sv: "served ops H ?e (brefs H xs)"
    using served_run [OF c(7,1,2) pu _ c(8)] nrefs_pieces [of H xs] c(9) by (auto simp flip: pe(2) simp del: run_simps)
  have nx: "node H ?xs = branch_item H ?xs" "nrefs H ?xs = brefs H ?xs"
    using node_forms(2) [OF k' two, of H] nrefs_forms(3) [OF two, of H] by (simp_all add: lx)
  have aux: "\<exists>es. (\<forall>s s'. emit (child H (node H (om_set ms v (sub [b] xs)))) s = Inr s' \<longrightarrow>
      mergeAtAux n ops H s (rlp_enc (child H (node H (sub [b] xs)))) (mid k 1) v e = (Inr s', run ops H es e)) \<and>
      effect ?F U (krefs H (sub [b] xs)) (krefs H (om_set ms v (sub [b] xs))) es \<and> length es \<le> L - 3"
    if "?key = b # ms" "e = run ops H (if True then [] else kev (branch_item H xs)) ?e" for b ms e
    using branch_kids [OF kids ok_run [OF c(7)] sv that(1)] that(2) by simp
  obtain es where es: "mergeAt (Suc n) ops H (rlp_enc (branch_item H xs)) (H (rlp_enc (branch_item H xs))) k v True ?e =
      (Inr (rlp_enc (branch_item H ?xs)), run ops H ((if True \<and> ?key \<noteq> [] then [] else kev (branch_item H xs)) @ es) ?e)"
      "effect ?F U (brefs H xs) (brefs H ?xs) es" "length es \<le> L - 3"
    using merge_branch [where inLine = True and d = ?e and n = n and F = ?F and L = "L - 3" and U = U, OF H c(3,12,4,5) aux] by blast
  let ?x = "if ?key \<noteq> [] then [] else kev (branch_item H xs)"
  have "effect ?F U (brefs H xs) (brefs H xs) ?x" using keys_of_pair [OF p kok] split(1) by (intro effect_void) auto
  from effect_append [OF effect_append [OF ev this] es(2)]
  have "effect ?F U (self_ref H xs + nrefs H xs) (nrefs H ?xs) ((?ev @ ?x) @ es)" unfolding nx(2) .
  moreover have "mergeAt (Suc (Suc n)) ops H (rlp_enc (node H xs)) (H (rlp_enc (node H xs))) k v inLine d =
      (Inr (rlp_enc (node H ?xs)), run ops H ((?ev @ ?x) @ es) d)"
    unfolding step nx(1) using sh pe(1) es(1) by (simp add: tbind_def)
  moreover have "length ((?ev @ ?x) @ es) \<le> L"
    using es(3) L pe(4) ev_length(1) [of "node H xs"] ev_length(1) [of "branch_item H xs"] by (cases "?key = []") simp_all
  ultimately show ?thesis unfolding merges_def by blast
qed

lemma merge_at_branch:
  assumes H: "\<And>b. length (H b) = 32" and ctx: "merge_ctx ok ops H U xs k v d inLine" and kids: "kids_merge ok ops H U n xs k v L" and L: "4 \<le> L"
    and two: "2 \<le> length xs" "lcp xs = []"
  shows "merges ops H U (Suc n) xs k v inLine d L"
proof -
  note c = merge_ctxD [OF ctx]
  let ?key = "nibs k" let ?xs = "om_set ?key v xs" and ?F = "flat xs ?key"
  note kok = trie_okD(1) [OF c(3)] and k' = trie_okD(1) [OF c(12)]
  have "xs \<noteq> []" using two(1) by auto
  then have two': "2 \<le> length ?xs" "lcp ?xs = []" using two length_om_set [OF keys_okD(1) [OF kok], of ?key v] lcp_set [of xs ?key v] by auto
  have nx: "node H xs = branch_item H xs" "nrefs H xs = brefs H xs" "node H ?xs = branch_item H ?xs" "nrefs H ?xs = brefs H ?xs"
    using node_forms(2) [OF kok two, of H] nrefs_forms(3) [OF two, of H] node_forms(2) [OF k' two', of H] nrefs_forms(3) [OF two', of H] by blast+
  let ?e = "run ops H (if inLine then [] else kev (branch_item H xs)) d"
  have sv: "served ops H ?e (brefs H xs)"
    unfolding nx(2) [symmetric] by (rule served_run(1) [OF c(7,1,2) _ _ c(8)]) (use nrefs_pieces c(9) in auto)
  have aux: "\<exists>es. (\<forall>s s'. emit (child H (node H (om_set ms v (sub [b] xs)))) s = Inr s' \<longrightarrow>
      mergeAtAux n ops H s (rlp_enc (child H (node H (sub [b] xs)))) (mid k 1) v e = (Inr s', run ops H es e)) \<and>
      effect ?F U (krefs H (sub [b] xs)) (krefs H (om_set ms v (sub [b] xs))) es \<and> length es \<le> L - 3"
    if "?key = b # ms" "e = ?e" for b ms e
    using branch_kids [OF kids ok_run [OF c(7)] sv that(1)] that(2) by simp
  obtain es where es: "mergeAt (Suc n) ops H (rlp_enc (branch_item H xs)) (H (rlp_enc (branch_item H xs))) k v inLine d =
      (Inr (rlp_enc (branch_item H ?xs)), run ops H ((if inLine \<and> ?key \<noteq> [] then [] else kev (branch_item H xs)) @ es) d)"
      "effect ?F U (brefs H xs) (brefs H ?xs) es" "length es \<le> L - 3"
    using merge_branch [where inLine = inLine and d = d and n = n and F = ?F and L = "L - 3" and U = U, OF H c(3,12,4,5) aux] by blast
  let ?x = "if inLine \<and> ?key \<noteq> [] then [] else kev (branch_item H xs)"
  have "effect ?F U (self_ref H xs + nrefs H xs) (nrefs H xs) ?x"
    using effect_pre [OF c(9), of inLine ?F "nrefs H xs"] effect_pre [OF c(9), of False ?F "nrefs H xs"] c(11)
    by (cases inLine) (auto simp: nx(1) kev_def)
  from effect_append [OF this es(2) [folded nx(2,4)]]
  show ?thesis unfolding merges_def using es(1,3) L ev_length(1) [of "branch_item H xs"] unfolding nx by (intro exI [of _ "?x @ es"]) auto
qed

lemma merge_cases:
  assumes H: "\<And>b. length (H b) = 32" and ctx: "merge_ctx ok ops H U xs k v d inLine" and L: "4 \<le> L"
    and kids: "kids_merge ok ops H U n xs k v L" "kids_merge ok ops H U (Suc n) xs k v L"
  shows "merges ops H U (Suc (Suc n)) xs k v inLine d L"
proof -
  note c = merge_ctxD [OF ctx]
  consider (empty) "xs = []" | (same) w where "xs = [(nibs k, w)]" | (down) "2 \<le> length xs" "lcp xs \<noteq> []" "prefix (lcp xs) (nibs k)"
    | (split) "is_pair xs" "\<not> (length xs = 1 \<and> nibs k = lcp xs)" "\<not> (length xs \<noteq> 1 \<and> prefix (lcp xs) (nibs k))"
    | (branch) "2 \<le> length xs" "lcp xs = []"
  proof (cases xs rule: remdups_adj.cases)
    case (2 p)
    then show ?thesis using that(2,4) by (cases p) (auto simp: is_pair_def lcp_single)
  next
    case (3 p q rest)
    then show ?thesis using that(3-5) by (auto simp: is_pair_def)
  qed (use that in blast)
  then show ?thesis
  proof cases
    case empty
    have "isEmpty (rlp_enc (RStr []))" by (simp add: isEmpty_def isNull_def enc_bytes_def enc_hdr_def)
    then have "mergeAt (Suc (Suc n)) ops H (rlp_enc (node H xs)) (H (rlp_enc (node H xs))) k v inLine d = (Inr (rlp_enc (node H (om_set (nibs k) v xs))), run ops H [] d)"
      using place_leaf [OF c(4,5), of ops H d] by (simp add: empty node_simps leaf_item_def)
    moreover have "self_ref H xs + nrefs H xs = {#}" "nrefs H (om_set (nibs k) v xs) = {#}"
      by (simp_all add: empty self_ref_def node_simps enc_bytes_def enc_hdr_def nrefs_forms)
    ultimately show ?thesis unfolding merges_def using effect_Nil by (intro exI [of _ "[]"]) simp
  next
    case (same w)
    show ?thesis using merge_same [of H, OF H ctx [unfolded same] L] unfolding same .
  next
    case down
    then show ?thesis by (rule merge_down [of H, OF H ctx kids(2) L])
  next
    case split
    then show ?thesis
      by (cases "commonPrefix (nibs k) (lcp xs) = 0") (auto intro: merge_cleve [of H, OF H ctx kids(1) L] merge_split [of H, OF H ctx kids(1) L])
  next
    case branch
    then show ?thesis by (rule merge_at_branch [of H, OF H ctx kids(2) L])
  qed
qed

lemma mergeAt_node:
  assumes H: "\<And>b. length (H b) = 32" and "merge_ctx ok ops H U xs k v d inLine" "3 * length (nibs k) + 2 \<le> n"
  shows "merges ops H U n xs k v inLine d (4 * length (nibs k) + 4)"
  using assms(2-)
proof (induction "length (nibs k)" arbitrary: xs k d inLine n rule: less_induct)
  case less
  let ?key = "nibs k" let ?xs = "om_set ?key v xs" and ?L = "4 * length ?key + 4"
  note c = merge_ctxD [OF less.prems(1)]
  obtain n' where n: "n = Suc (Suc n')" using less.prems(2) by (metis add_2_eq_Suc' le_Suc_ex add_Suc)
  have kids: "kids_merge ok ops H U m xs k v ?L" if m: "m = n' \<or> m = Suc n'" for m
    unfolding kids_merge_def
  proof (intro allI impI)
    fix q e assume q: "prefix q ?key" "q \<noteq> []" and e: "ok e" "served ops H e (krefs H (sub q xs))"
    have lq: "0 < length q" "length q \<le> length ?key" using q prefix_length_le by auto
    have "3 * (length ?key - length q) + 3 \<le> m" using m less.prems(2) n lq by linarith
    then obtain m' where m': "m = Suc m'" "3 * (length ?key - length q) + 2 \<le> m'" by (cases m) auto
    have mk: "view_ok (mid k (length q))" "nibs (mid k (length q)) = drop (length q) ?key" using view_mid [OF c(4) lq(2)] by blast+
    have s: "sub q ?xs = om_set (drop (length q) ?key) v (sub q xs)" by (rule sub_set_inside [OF trie_okD(1) [OF c(3)] nibbles_nibs q(1)])
    have IH: "merges ops H U m' (sub q xs) (mid k (length q)) v inl e (4 * (length ?key - length q) + 4)"
      if "inl \<Longrightarrow> length (rlp_enc (node H (sub q xs))) < 32" for inl
    proof -
      have "length (nibs (mid k (length q))) < length ?key" unfolding mk(2) length_drop using lq by linarith
      moreover have "merge_ctx ok ops H U (sub q xs) (mid k (length q)) v e inl"
        using c(1,2,5,6) trie_ok_sub [OF c(3)] mk(1) e that subset_trans [OF pieces_sub c(9)] subset_trans [OF pieces_sub c(10)]
        unfolding merge_ctx_def mk(2) s [symmetric] by (auto simp: krefs_self)
      ultimately show ?thesis using less.hyps [of "mid k (length q)" "sub q xs" e inl m'] m'(2) by (simp add: mk(2))
    qed
    then have "\<exists>es. (\<forall>s s'. emit (child H (node H (om_set (drop (length q) ?key) v (sub q xs)))) s = Inr s' \<longrightarrow>
        mergeAtAux (Suc m') ops H s (rlp_enc (child H (node H (sub q xs)))) (mid k (length q)) v e = (Inr s', run ops H es e)) \<and>
      effect (flat xs ?key) U (krefs H (sub q xs)) (krefs H (om_set (drop (length q) ?key) v (sub q xs))) es \<and> length es \<le> 4 * (length ?key - length q) + 4 + 1"
      unfolding merges_def mk(2) by (rule merge_kid [of H, OF H c(3,4,5,6,10) q e(2)])
    then show "\<exists>es. (\<forall>s s'. emit (child H (node H (om_set (drop (length q) ?key) v (sub q xs)))) s = Inr s' \<longrightarrow>
        mergeAtAux m ops H s (rlp_enc (child H (node H (sub q xs)))) (mid k (length q)) v e = (Inr s', run ops H es e)) \<and>
      effect (flat xs ?key) U (krefs H (sub q xs)) (krefs H (om_set (drop (length q) ?key) v (sub q xs))) es \<and> length es + 3 \<le> ?L"
      unfolding m'(1) using lq by (elim exE conjE, intro exI conjI) (assumption, assumption, linarith)
  qed
  show ?case unfolding n by (rule merge_cases [of H, OF H less.prems(1) _ kids kids]) simp_all
qed

end

end
