(* ===== verification/Trie_Graft.thy ===== *)
theory Trie_Graft
  imports Trie_Merge_Node
begin

section \<open>Putting nodes together\<close>

text \<open>
  The map after a removal, and the steps of \<open>deleteAt\<close> that keep the trie in its form: a branch with a single entry left becomes
  a pair (\<open>merge\<close>), and a pair over a pair becomes one pair (\<open>graft\<close>).
\<close>

subsection \<open>The map after a removal\<close>

lemma keys_ok_erase: "keys_ok xs \<Longrightarrow> keys_ok (om_erase k xs)"
  by (auto simp: keys_ok_def)

lemma trie_ok_erase: "trie_ok xs \<Longrightarrow> trie_ok (om_erase k xs)"
  by (auto simp: trie_ok_def keys_ok_erase)

lemma sub_erase:
  assumes "keys_ok xs"
  shows "sub q (om_erase k xs) = (if prefix q k then om_erase (drop (length q) k) (sub q xs) else sub q xs)" (is "?l = ?r")
proof (rule om_canonical)
  show "om_ok ?l" by (rule keys_okD(1) [OF keys_ok_sub [OF keys_ok_erase [OF assms]]])
  have "om_ok (sub q xs)" using keys_okD(1) [OF keys_ok_sub [OF assms]] .
  then show "om_ok ?r" by simp
  show "map_of ?l = map_of ?r" by (rule ext) (auto simp: prefix_drop)
qed

lemma all_prefix_erase: "all_prefix q xs \<Longrightarrow> all_prefix q (om_erase k xs)"
  by (auto simp: all_prefix_def)

lemma flat_erase: "flat xs key \<Longrightarrow> flat (om_erase k xs) key"
  by (auto simp: flat_def)

lemma flat_value: "flat xs (b # ms) \<Longrightarrow> value_of xs = []"
  by (auto simp: flat_def value_of_def split: option.splits dest!: map_of_SomeD)

lemma erase_pair: "om_ok xs \<Longrightarrow> 2 \<le> length xs \<Longrightarrow> om_erase k xs \<noteq> []"
  using om.length_erase [of xs k] by (auto split: if_splits)

subsection \<open>The form of the child\<close>

lemma not_pair:
  assumes "ys \<noteq> []" "\<not> is_pair ys"
  shows "2 \<le> length ys" "lcp ys = []"
proof -
  show "2 \<le> length ys" using assms by (cases ys rule: remdups_adj.cases) (auto simp: is_pair_def)
  then show "lcp ys = []" using assms(2) by (simp add: is_pair_def)
qed

lemma node_count:
  assumes "keys_ok ys" "ys \<noteq> []"
  obtains zs where "node H ys = RList zs" "length zs = (if is_pair ys then 2 else 17)"
proof (cases "is_pair ys")
  case True
  then show ?thesis using that [OF pair_form [OF assms(1) True]] by simp
next
  case False
  then show ?thesis using that node_forms(2) [OF assms(1) not_pair [OF assms(2)]] by (simp add: branch_item_def)
qed

lemma isData_list: "rlp_fits (RList zs) \<Longrightarrow> \<not> isData (rlp_enc (RList zs))"
  using list_reads(1) [of zs] by (simp add: isData_def isList_def)

lemma isTwoItemNode_child:
  assumes H: "\<And>b. length (H b) = 32" and ys: "ys \<noteq> []" "trie_ok ys" "served ops H d (krefs H ys)"
  shows "isTwoItemNode ops (rlp_enc (child H (node H ys))) d = (Inr (is_pair ys), d)"
proof -
  obtain zs where zs: "node H ys = RList zs" "length zs = (if is_pair ys then 2 else 17)"
    by (rule node_count [OF trie_okD(1) [OF ys(2)] ys(1)])
  have f: "rlp_fits (RList zs)" using node_fits [of H ys, OF H trie_okD(2) [OF ys(2)]] by (simp add: zs(1))
  show ?thesis
  proof (cases rule: child_cases [of "RList zs" H])
    case 1
    then show ?thesis using isData_list [OF f] list_reads(1,2) [OF f] zs(2) by (simp add: isTwoItemNode_def zs(1) tbind_def del: rlp_enc.simps)
  next
    case 2
    have l: "db_lookup ops d (H (rlp_enc (RList zs))) = rlp_enc (RList zs)"
      using ys(1,3) 2(1) by (simp add: krefs_def self_ref_def served_def zs(1))
    have fh: "rlp_fits (RStr (H (rlp_enc (RList zs))))" using child_fits [of H "RList zs"] H 2 by simp
    show ?thesis using str_reads(3-5) [OF fh] H l RLP_exact(1) [OF f] list_reads(2) [OF f] zs(2) 2(2)
      by (simp add: isTwoItemNode_def zs(1) tbind_def db_node_def del: rlp_enc.simps)
  qed
qed

subsection \<open>Grafting\<close>

lemma pair_below:
  assumes "keys_ok xs" "xs \<noteq> []" "all_prefix q xs" "is_pair (sub q xs)"
  shows "is_pair xs" "lcp xs = q @ lcp (sub q xs)" "px H xs = px H (sub q xs)" "length (sub q xs) = length xs"
    "nrefs H (sub q xs) = nrefs H xs"
proof -
  show len: "length (sub q xs) = length xs" by (rule all_prefix_sub(2) [OF assms(3)])
  show l: "lcp xs = q @ lcp (sub q xs)" by (rule sub_lcp [OF assms(2,3)])
  have c: "length xs = 1 \<or> 2 \<le> length xs \<and> lcp (sub q xs) \<noteq> []" using assms(4) unfolding is_pair_def len .
  then show p: "is_pair xs" unfolding is_pair_def l by blast
  have n: "length xs = 1 \<or> length q < length (lcp xs)" using c unfolding l by auto
  have q: "q = take (length q) (lcp xs)" by (simp add: l)
  show "nrefs H (sub q xs) = nrefs H xs" by (rule pair_cut(2) [OF assms(1) p q n])
  have "node H (sub q xs) = bottom (length xs = 1) (length q) (lcp xs) (px H xs)" by (rule pair_cut(1) [OF assms(1) p q n])
  moreover have "node H (sub q xs) = RList [RStr (hp (length xs = 1) (lcp (sub q xs))), px H (sub q xs)]"
    using pair_form [OF keys_ok_sub [OF assms(1)] assms(4), of H] unfolding len .
  ultimately have "bottom (length xs = 1) (length q) (lcp xs) (px H xs) = RList [RStr (hp (length xs = 1) (lcp (sub q xs))), px H (sub q xs)]" by (rule trans [OF sym])
  then show "px H xs = px H (sub q xs)" unfolding bottom_def by simp
qed

lemma graft_run:
  assumes H: "\<And>b. length (H b) = 32" and xs: "trie_ok xs" "xs \<noteq> []" "all_prefix q xs" "is_pair (sub q xs)"
    and s: "served ops H d (krefs H (sub q xs))"
  shows "graft ops (rlp_enc (ext_item H q xs)) d = (Inr (rlp_enc (node H xs)), run ops H (kev (node H (sub q xs))) d)"
proof -
  define l where "l = (length xs = 1)"
  let ?ys = "sub q xs" and ?l = l let ?n = "node H ?ys" and ?x = "px H ?ys"
  note pb = pair_below [OF trie_okD(1) [OF xs(1)] xs(2-4)]
  have ny: "?n = RList [RStr (hp ?l (lcp ?ys)), ?x]" using pair_form [OF trie_okD(1) [OF trie_ok_sub [OF xs(1)]] xs(4), of H] unfolding pb(4) l_def .
  have nx: "node H xs = RList [RStr (hp ?l (q @ lcp ?ys)), ?x]"
    using pair_form [OF trie_okD(1) [OF xs(1)] pb(1), of H] unfolding pb(2,3) l_def .
  have yne: "?ys \<noteq> []" using xs(4) by (rule is_pairD)
  have bd: "nibbles (q @ lcp ?ys)" "length (q @ lcp ?ys) < 2 ^ 31 - 2" using lcp_bounds [OF xs(1,2)] unfolding pb(2) by blast+
  then have bq: "nibbles q" "length q < 2 ^ 31 - 2" "nibbles (lcp ?ys)" "length (lcp ?ys) < 2 ^ 31 - 2" by auto
  have f: "rlp_fits (RList [RStr (hp False q), child H ?n])" using pair_child_fits [of H q False ?n] H bq(2) by simp
  have fn: "rlp_fits ?n" "rlp_fits (node H xs)" using node_fits [of H, OF H trie_okD(2)] xs(1) trie_ok_sub by blast+
  have k1: "view_ok (keyOf (hp False q))" "nibs (keyOf (hp False q)) = q" using keyOf_hp [OF bq(1,2)] by blast+
  have k2: "view_ok (keyOf (hp ?l (lcp ?ys)))" "nibs (keyOf (hp ?l (lcp ?ys))) = lcp ?ys" using keyOf_hp [OF bq(3,4)] by blast+
  have at: "rlp_at (rlp_enc (ext_item H q xs)) 1 = Inr (rlp_enc (child H ?n))" using list_reads(3) [OF f, of 1] by (simp add: ext_item_def)
  have "append_item (rlp_enc ?n) 1 = emit ?x" using append_item_emit [OF fn(1) [unfolded ny], of 1] by (intro ext) (simp add: ny)
  then have out: "ebind (keyOf_item (rlp_enc (ext_item H q xs))) (\<lambda>k1. ebind (keyOf_item (rlp_enc ?n)) (\<lambda>k2. ebind (isLeaf (rlp_enc ?n)) (\<lambda>l.
       ebind (hexPrefixEncode_two k1 k2 l) (\<lambda>h.
       ebind (appendList 2 RLPStream) (\<lambda>s. ebind (append_bytes False h s) (\<lambda>s. ebind (append_item (rlp_enc ?n) 1 s) stream_out)))))) = Inr (rlp_enc (node H xs))"
    using pair_reads(1) [OF f bq(1)] pair_reads [OF fn(1) [unfolded ny] bq(3)] hexPrefixEncode_two_hp [OF k1(1) k2(1), of ?l] pair_out [OF fn(2) [unfolded nx]]
    unfolding ext_item_def [symmetric] ny [symmetric] k1(2) k2(2) nx [symmetric] by simp
  show ?thesis
  proof (cases rule: child_cases [of ?n H])
    case 1
    then have "isList (rlp_enc (child H ?n))" using list_reads(1) [OF fn(1) [unfolded ny]] by (simp add: ny [symmetric] del: rlp_enc.simps)
    then show ?thesis using at out 1 by (simp add: graft_def tbind_def kev_def)
  next
    case 2
    have l: "db_lookup ops d (H (rlp_enc ?n)) = rlp_enc ?n" using yne s 2(1) by (simp add: krefs_def self_ref_def served_def)
    have fh: "rlp_fits (RStr (H (rlp_enc ?n)))" using child_fits [of H ?n] H 2 by simp
    show ?thesis using at out 2 str_reads(3,5) [OF fh] H l RLP_exact(1) [OF fn(1)]
      by (simp add: graft_def tbind_def kev_def db_node_def forceKillNode_def del: rlp_enc.simps)
  qed
qed

text \<open>A pair over any child: \<open>deleteAt\<close> grafts it when the child is a pair.\<close>

lemma ext_form:
  assumes xs: "trie_ok xs" "xs \<noteq> []" "all_prefix q xs" "q \<noteq> []" "\<not> is_pair (sub q xs)"
  shows "node H xs = ext_item H q xs" "nrefs H xs = krefs H (sub q xs)"
proof -
  have len: "length (sub q xs) = length xs" by (rule all_prefix_sub(2) [OF xs(3)])
  then have ne: "sub q xs \<noteq> []" using xs(2) by auto
  have l: "lcp xs = q" "2 \<le> length xs" using sub_lcp [OF xs(2,3)] not_pair [OF ne xs(5)] len by simp_all
  then show "node H xs = ext_item H q xs" "nrefs H xs = krefs H (sub q xs)"
    using node_forms(1) [OF trie_okD(1) [OF xs(1)] l(2), of H] nrefs_forms(2) [OF l(2), of H] xs(4) by simp_all
qed

lemma ext_run:
  assumes H: "\<And>b. length (H b) = 32" and xs: "trie_ok xs" "xs \<noteq> []" "all_prefix q xs" "q \<noteq> []"
    and s: "served ops H d (krefs H (sub q xs))"
  shows "tbind (isTwoItemNode ops (rlp_enc (child H (node H (sub q xs)))))
      (\<lambda>two. if two then graft ops (rlp_enc (ext_item H q xs)) else tret (rlp_enc (ext_item H q xs))) d =
    (Inr (rlp_enc (node H xs)), run ops H (if is_pair (sub q xs) then kev (node H (sub q xs)) else []) d)"
proof -
  have "sub q xs \<noteq> []" using all_prefix_sub(2) [OF xs(3)] xs(2) by auto
  from isTwoItemNode_child [of H, OF H this trie_ok_sub [OF xs(1)] s]
  show ?thesis using graft_run [of H, OF H xs(1-3) _ s] ext_form(1) [OF xs] by (cases "is_pair (sub q xs)") (simp_all add: tbind_def)
qed

lemma ext_effect:
  assumes xs: "trie_ok xs" "xs \<noteq> []" "all_prefix q xs" "q \<noteq> []" and U: "pieces H xs \<subseteq> U"
  defines "ge \<equiv> (if is_pair (sub q xs) then kev (node H (sub q xs)) else [])"
  shows "effect F U (krefs H (sub q xs)) (nrefs H xs) ge" "length ge \<le> 1"
proof -
  show "effect F U (krefs H (sub q xs)) (nrefs H xs) ge"
  proof (cases "is_pair (sub q xs)")
    case True
    have "krefs H (sub q xs) = big (node H (sub q xs)) + nrefs H xs"
      using pair_below(5) [OF trie_okD(1) [OF xs(1)] xs(2,3) True, of H] by (simp add: krefs_self self_ref_big)
    then show ?thesis using True big_pieces(1) [of H q xs] U by (auto simp: ge_def intro!: effect_kev)
  next
    case False
    then show ?thesis using ext_form(2) [OF xs False] effect_Nil by (simp add: ge_def)
  qed
  show "length ge \<le> 1" using ev_length(1) by (simp add: ge_def)
qed

subsection \<open>A branch with a single entry\<close>

lemma unique_loop_used:
  assumes "\<And>i. i \<in> set is \<Longrightarrow> i \<noteq> except \<and> i < 255 \<and> rlp_at orig i = Inr (x i)"
  shows "unique_loop orig except is used =
    Inr (case filter (\<lambda>i. \<not> isEmpty (x i)) is of [] \<Rightarrow> used | i # js \<Rightarrow> if used = 255 \<and> js = [] then i else 255)"
  using assms
proof (induction "is" arbitrary: used)
  case (Cons i "is")
  have i: "i \<noteq> except" "i < 255" "rlp_at orig i = Inr (x i)" using Cons.prems [of i] by simp_all
  have IH: "unique_loop orig except is u = Inr (case filter (\<lambda>i. \<not> isEmpty (x i)) is of [] \<Rightarrow> u | i # js \<Rightarrow> if u = 255 \<and> js = [] then i else 255)" for u
    using Cons.prems by (intro Cons.IH) simp
  show ?case using i by (auto simp: IH split: list.splits)
qed simp

definition used_slots :: "hex_map \<Rightarrow> nat list" where
  "used_slots xs = filter (\<lambda>i. sub [of_nat i] xs \<noteq> []) [0..<16]"

lemma uniqueInUse_branch:
  assumes H: "\<And>b. length (H b) = 32" and xs: "trie_ok xs" "value_of xs = []"
  shows "uniqueInUse (rlp_enc (branch_item H xs)) 255 = Inr (case used_slots xs of [i] \<Rightarrow> i | _ \<Rightarrow> 255)"
proof -
  have f: "rlp_fits (RList (branch_items H xs))" using branch_fits [of H, OF H xs(1)] by (simp add: branch_item_def)
  let ?x = "\<lambda>i. rlp_enc (branch_items H xs ! i)"
  have at: "i \<noteq> 255 \<and> i < 255 \<and> rlp_at (rlp_enc (branch_item H xs)) i = Inr (?x i)" if "i \<in> set [0..<17]" for i
    using that list_reads(3) [OF f, of i] by (simp add: branch_item_def)
  have split: "[0..<17] = [0..<16] @ [16]" using upt_add_eq_append [of 0 16 1] by simp
  have "isEmpty (?x 16)" using xs(2) by (simp add: branch_nth isEmpty_def isNull_def enc_bytes_def enc_hdr_def)
  moreover have "filter (\<lambda>i. \<not> isEmpty (?x i)) [0..<16] = used_slots xs"
    unfolding used_slots_def using slot_reads [of H, OF H] by (intro filter_cong) (simp_all add: branch_nth del: upt_rec_numeral)
  ultimately have "filter (\<lambda>i. \<not> isEmpty (?x i)) [0..<17] = used_slots xs" unfolding split by (simp del: upt_rec_numeral)
  then show ?thesis
    unfolding uniqueInUse_def using unique_loop_used [OF at, of "[0..<17]" 255] by (auto split: list.splits simp del: upt_rec_numeral)
qed

lemma used_slot_key:
  assumes "keys_ok xs" "value_of xs = []" "p \<in> set xs"
  shows "fst p = [] \<and> snd p = [] \<or> (\<exists>i \<in> set (used_slots xs). prefix [of_nat i] (fst p))"
proof (cases "fst p")
  case Nil
  then have "map_of xs [] = Some (snd p)" using assms(3) om_mem [OF keys_okD(1) [OF assms(1)], of "[]" "snd p"] by (cases p) simp
  then show ?thesis using assms(2) Nil by (simp add: value_of_def)
next
  case (Cons b ms)
  have "unat b < 16" using keys_okD(2) [OF assms(1,3)] by (simp add: Cons word_less_nat_alt)
  moreover have "sub [of_nat (unat b)] xs \<noteq> []" using assms(3) by (auto simp: sub_empty Cons intro!: bexI [of _ p])
  ultimately show ?thesis by (intro disjI2 bexI [of _ "unat b"]) (auto simp: used_slots_def Cons simp del: upt_rec_numeral)
qed

lemma single_slot:
  assumes "keys_ok xs" "flat xs (b # ms)" "used_slots xs = [i]"
  shows "all_prefix [of_nat i] xs" "i < 16" "sub [of_nat i] xs \<noteq> []"
proof -
  have "i \<in> set (used_slots xs)" by (simp add: assms(3))
  then show "i < 16" "sub [of_nat i] xs \<noteq> []" by (simp_all add: used_slots_def)
  have "fst p \<noteq> []" if "p \<in> set xs" for p using assms(2) that by (auto simp: flat_def)
  then show "all_prefix [of_nat i] xs" using used_slot_key [OF assms(1) flat_value [OF assms(2)]] by (fastforce simp: all_prefix_def assms(3))
qed

text \<open>The other case: two entries or more, and the node is a branch.\<close>

lemma two_slots:
  assumes "i \<in> set (used_slots xs)" "j \<in> set (used_slots xs)" "i \<noteq> j"
  shows "2 \<le> length xs" "lcp xs = []"
proof -
  have b: "i < 16" "j < 16" and "sub [of_nat i] xs \<noteq> []" "sub [of_nat j] xs \<noteq> []" using assms by (simp_all add: used_slots_def)
  then obtain p r where pr: "p \<in> set xs" "prefix [of_nat i] (fst p)" "r \<in> set xs" "prefix [of_nat j] (fst r)" unfolding sub_empty by blast
  have ij: "(of_nat i :: byte) \<noteq> of_nat j" using assms(3) b by (simp add: word_unat_eq_iff unat_of_nat_small)
  then have "p \<noteq> r" using pr by (auto simp: prefix_def)
  then show "2 \<le> length xs" using pr(1,3) by (cases xs rule: remdups_adj.cases) auto
  show "lcp xs = []"
  proof (cases "lcp xs")
    case (Cons a as)
    have "prefix [a] (fst q)" if "q \<in> set xs" for q using lcp_prefix [of xs] that by (auto simp: all_prefix_def Cons prefix_def)
    from this [OF pr(1)] this [OF pr(3)] pr(2,4) have "of_nat i = a" "of_nat j = a" by (auto simp: prefix_def)
    then show ?thesis using ij by simp
  qed simp
qed

lemma trie_merge_branch:
  assumes H: "\<And>b. length (H b) = 32" and xs: "trie_ok xs" "i < 16"
  shows "trie_merge (rlp_enc (branch_item H xs)) i = Inr (rlp_enc (ext_item H [of_nat i] xs))"
proof -
  have f: "rlp_fits (RList (branch_items H xs))" using branch_fits [of H, OF H xs(1)] by (simp add: branch_item_def)
  let ?s = "slice [of_nat i] 0"
  have v: "view_ok ?s" "nibs ?s = [0, of_nat i]" using xs(2) lo_small [of "of_nat i"]
    by (simp_all add: view_ok_def slice_def nibs_def word_less_nat_alt unat_of_nat_small)
  have "hexPrefixEncode_slice ?s False (int 1) (int 2) = Inr (hp False [of_nat i])"
    using hexPrefixEncode_slice_hp(1) [OF v(1), of 1 2 False] unfolding v(2) by simp
  then have h: "hexPrefixEncode_view [of_nat i] False 1 2 0 = Inr (hp False [of_nat i])" by (simp add: hexPrefixEncode_slice_def slice_def)
  have a: "append_item (rlp_enc (branch_item H xs)) i = emit (child H (node H (sub [of_nat i] xs)))"
    using append_item_emit [OF f, of i] xs(2) by (intro ext) (simp add: branch_item_def branch_nth slot_child)
  have fe: "rlp_fits (RList [RStr (hp False [of_nat i]), child H (node H (sub [of_nat i] xs))])"
    using pair_child_fits [of H "[of_nat i]" False] H by simp
  show ?thesis using h a pair_out [OF fe] xs(2) by (simp add: trie_merge_def ext_item_def)
qed

lemma merge_graft_run:
  assumes H: "\<And>b. length (H b) = 32" and xs: "trie_ok xs" "flat xs (b # ms)" "used_slots xs = [i]"
    and s: "served ops H d (krefs H (sub [of_nat i] xs))"
  shows "merge_graft ops (rlp_enc (branch_item H xs)) i d =
    (Inr (rlp_enc (node H xs)), run ops H (if is_pair (sub [of_nat i] xs) then kev (node H (sub [of_nat i] xs)) else []) d)"
proof -
  note ss = single_slot [OF trie_okD(1) [OF xs(1)] xs(2,3)]
  have ne: "xs \<noteq> []" using ss(3) by auto
  note er = ext_run [of H, OF H xs(1) ne ss(1) _ s]
  have f: "rlp_fits (RList (branch_items H xs))" using branch_fits [of H, OF H xs(1)] by (simp add: branch_item_def)
  have at: "rlp_at (rlp_enc (branch_item H xs)) i = Inr (rlp_enc (child H (node H (sub [of_nat i] xs))))"
    using list_reads(3) [OF f, of i] ss(2) by (simp add: branch_item_def branch_nth slot_child)
  have fe: "rlp_fits (ext_item H [of_nat i] xs)" unfolding ext_item_def using pair_child_fits [of H "[of_nat i]" False] H by simp
  have two: "isTwoItemNode ops (rlp_enc (child H (node H (sub [of_nat i] xs)))) d = (Inr (is_pair (sub [of_nat i] xs)), d)"
    by (rule isTwoItemNode_child [of H, OF H ss(3) trie_ok_sub [OF xs(1)] s])
  show ?thesis
    using er two at trie_merge_branch [of H, OF H xs(1) ss(2)] RLP_exact(1) [OF fe]
    by (cases "is_pair (sub [of_nat i] xs)") (simp_all add: merge_graft_def tbind_def)
qed

end
