(* ===== verification/Trie_Delete.thy ===== *)
theory Trie_Delete
  imports Trie_Graft
begin

section \<open>Removing a key\<close>

text \<open>
  \<open>deleteAt\<close> on the node of a map whose keys have the length of the key answers the node of the map without the key, or the empty text
  when the key is not there, and then changes nothing. One lemma per form of the node (\<open>delete_leaf\<close>, \<open>delete_ext\<close>,
  \<open>delete_branch\<close>); the induction is on the nibbles of the key that are left.
\<close>

definition delete_ctx :: "('d \<Rightarrow> bool) \<Rightarrow> 'd db_ops \<Rightarrow> hash_fun \<Rightarrow> bytes set \<Rightarrow> hex_map \<Rightarrow> NibbleSlice \<Rightarrow> 'd \<Rightarrow> bool" where
  "delete_ctx ok ops H U xs k d \<longleftrightarrow>
     inj_on H U \<and> [] \<notin> U \<and> trie_ok xs \<and> view_ok k \<and> length (nibs k) < 2 ^ 31 - 2 \<and> ok d \<and> served ops H d (nrefs H xs) \<and>
     pieces H xs \<subseteq> U \<and> pieces H (om_erase (nibs k) xs) \<subseteq> U \<and> flat xs (nibs k)"

definition deletes :: "'d db_ops \<Rightarrow> hash_fun \<Rightarrow> bytes set \<Rightarrow> nat \<Rightarrow> hex_map \<Rightarrow> NibbleSlice \<Rightarrow> 'd \<Rightarrow> nat \<Rightarrow> bool" where
  "deletes ops H U n xs k d L \<longleftrightarrow>
     (if map_of xs (nibs k) = None then deleteAt n ops H (rlp_enc (node H xs)) k d = (Inr [], d)
      else \<exists>es. deleteAt n ops H (rlp_enc (node H xs)) k d = (Inr (rlp_enc (node H (om_erase (nibs k) xs))), run ops H es d) \<and>
        effect True U (self_ref H xs + nrefs H xs) (nrefs H (om_erase (nibs k) xs)) es \<and> length es \<le> L)"

text \<open>What \<open>deleteAtAux\<close> does to the entry for a part of the map.\<close>

definition kid_deletes :: "'d db_ops \<Rightarrow> hash_fun \<Rightarrow> bytes set \<Rightarrow> nat \<Rightarrow> hex_map \<Rightarrow> NibbleSlice \<Rightarrow> 'd \<Rightarrow> nat \<Rightarrow> bool" where
  "kid_deletes ops H U m ys k d L \<longleftrightarrow>
     (if map_of ys (nibs k) = None then \<forall>s. deleteAtAux m ops H s (rlp_enc (child H (node H ys))) k d = (Inr (False, s), d)
      else \<exists>es. (\<forall>s s'. emit (child H (node H (om_erase (nibs k) ys))) s = Inr s' \<longrightarrow>
             deleteAtAux m ops H s (rlp_enc (child H (node H ys))) k d = (Inr (True, s'), run ops H es d)) \<and>
           effect True U (krefs H ys) (krefs H (om_erase (nibs k) ys)) es \<and> length es \<le> L)"

lemma delete_ctxD:
  assumes "delete_ctx ok ops H U xs k d"
  shows "inj_on H U" "[] \<notin> U" "trie_ok xs" "view_ok k" "length (nibs k) < 2 ^ 31 - 2" "ok d" "served ops H d (nrefs H xs)"
    "pieces H xs \<subseteq> U" "pieces H (om_erase (nibs k) xs) \<subseteq> U" "flat xs (nibs k)" "trie_ok (om_erase (nibs k) xs)"
  using assms by (simp_all add: delete_ctx_def trie_ok_erase)

lemma deleteAt_empty: "deletes ops H U (Suc n) [] k d L"
  by (simp add: deletes_def node_simps isEmpty_def isNull_def enc_bytes_def enc_hdr_def)

lemma deleteAtAux_kid:
  assumes H: "\<And>b. length (H b) = 32" and ys: "trie_ok ys" "served ops H d (krefs H ys)" "pieces H (om_erase (nibs k) ys) \<subseteq> U"
    and IH: "deletes ops H U n ys k d L"
  shows "kid_deletes ops H U (Suc n) ys k d (L + 1)"
proof (cases "ys = []")
  case True
  then show ?thesis by (simp add: kid_deletes_def node_simps child_def isEmpty_def isNull_def enc_bytes_def enc_hdr_def)
next
  case False
  obtain zs where zs: "node H ys = RList zs" "zs \<noteq> []" using node_list [OF False] by blast
  have e: "\<not> isEmpty (rlp_enc (child H (node H ys)))" using child_reads(1) [of H zs, OF H zs(2)] by (simp add: zs(1))
  note fo = follow_node [of H, OF H False ys(1,2)]
  let ?ys = "om_erase (nibs k) ys"
  show ?thesis
  proof (cases "map_of ys (nibs k) = None")
    case True
    then show ?thesis using IH e fo by (simp add: kid_deletes_def deletes_def tbind_def)
  next
    case nn: False
    obtain es where es: "deleteAt n ops H (rlp_enc (node H ys)) k d = (Inr (rlp_enc (node H ?ys)), run ops H es d)"
        "effect True U (self_ref H ys + nrefs H ys) (nrefs H ?ys) es" "length es \<le> L"
      using IH nn by (auto simp: deletes_def)
    have f: "rlp_fits (node H ?ys)" by (rule node_fits [OF H trie_okD(2) [OF trie_ok_erase [OF ys(1)]]])
    have "effect True U (krefs H ys) (krefs H ?ys) (es @ pev (node H ?ys))"
      unfolding krefs_self by (rule effect_append [OF es(2)]) (use big_pieces(2) [of H ?ys] ys(3) in \<open>auto simp: self_ref_big intro: effect_pev\<close>)
    moreover have "deleteAtAux (Suc n) ops H s (rlp_enc (child H (node H ys))) k d = (Inr (True, s'), run ops H (es @ pev (node H ?ys)) d)"
      if "emit (child H (node H ?ys)) s = Inr s'" for s s'
      using e fo es(1) by (simp add: tbind_def streamNode_run [OF f that])
    ultimately show ?thesis using nn es(3) ev_length(2) [of "node H ?ys"]
      by (auto simp: kid_deletes_def intro!: exI [of _ "es @ pev (node H ?ys)"])
  qed
qed

context node_store
begin

lemma delete_leaf:
  assumes H: "\<And>b. length (H b) = 32" and ctx: "delete_ctx ok ops H U [(key, w)] k d" and L: "1 \<le> L"
  shows "deletes ops H U (Suc n) [(key, w)] k d L"
proof -
  note c = delete_ctxD [OF ctx]
  let ?xs = "[(key, w)]"
  have n: "node H ?xs = RList [RStr (hp True key), RStr w]" by (simp add: node_simps)
  have f: "rlp_fits (RList [RStr (hp True key), RStr w])" using node_fits [of H ?xs, OF H trie_okD(2) [OF c(3)]] unfolding n .
  have b: "nibbles key" "length key < 2 ^ 31 - 2" using trie_okD(3) [OF c(3), of key w] by simp_all
  have kk: "view_ok (keyOf (hp True key))" "nibs (keyOf (hp True key)) = key" using keyOf_hp [OF b] by blast+
  have len: "length key = length (nibs k)" using c(10) by (simp add: flat_def)
  have ct: "ns_contains k (keyOf (hp True key)) \<longleftrightarrow> nibs k = key" "ns_eq (keyOf (hp True key)) k \<longleftrightarrow> nibs k = key"
    using view_contains [OF c(4) kk(1)] view_eq [OF kk(1) c(4)] len by (auto simp: kk(2) prefix_def)
  note r = not_Empty_list [OF f] list_reads(2) [OF f] pair_reads [OF f b(1)]
  show ?thesis
  proof (cases "nibs k = key")
    case True
    have "deleteAt (Suc n) ops H (rlp_enc (node H ?xs)) k d = (Inr (rlp_enc (node H [])), run ops H (kev (node H ?xs)) d)"
      unfolding n using r ct True killNode_run(2) [of ops H "RList [RStr (hp True key), RStr w]" d]
      by (simp add: tbind_def node_simps enc_bytes_def enc_hdr_def c_rlpDataImmLenStart_def del: rlp_enc.simps(2))
    moreover have "effect True U (self_ref H ?xs + {#}) {#} (kev (node H ?xs))"
      unfolding self_ref_big using big_pieces(2) [of H ?xs] c(8) by (intro effect_kev) (auto simp: self_ref_big)
    ultimately show ?thesis using True L ev_length(1) [of "node H ?xs"]
      by (auto simp: deletes_def om_erase_def nrefs_forms intro!: exI [of _ "kev (node H ?xs)"])
  next
    case False
    then show ?thesis unfolding deletes_def n using r ct by (simp add: tbind_def)
  qed
qed

text \<open>What is left to do after the entry has been rewritten: release the node, and give the new one its form.\<close>

lemma delete_tail:
  assumes ctx: "delete_ctx ok ops H U xs k d" and es: "effect True U (nrefs H xs) N es"
    and ge: "effect True U N (nrefs H (om_erase (nibs k) xs)) ge"
  shows "effect True U (self_ref H xs + nrefs H xs) (nrefs H (om_erase (nibs k) xs)) (es @ kev (node H xs) @ ge)"
    "served ops H (run ops H (es @ kev (node H xs)) d) N"
proof -
  note c = delete_ctxD [OF ctx]
  have sr: "set_mset (big (node H xs)) \<subseteq> U" using big_pieces(2) [of H xs] c(8) by (simp add: self_ref_big)
  have e1: "effect True U (self_ref H xs + nrefs H xs) (big (node H xs) + N) es"
    using effect_frame [OF es, of "big (node H xs)"] unfolding self_ref_big by (simp only: add.commute)
  have e2: "effect True U (self_ref H xs + nrefs H xs) N (es @ kev (node H xs))" by (rule effect_append [OF e1 effect_kev [OF sr]])
  from effect_append [OF e2 ge] show "effect True U (self_ref H xs + nrefs H xs) (nrefs H (om_erase (nibs k) xs)) (es @ kev (node H xs) @ ge)" by simp
  have nU: "set_mset (nrefs H xs) \<subseteq> U" using nrefs_pieces c(8) by blast
  have "N \<subseteq># puts es + nrefs H xs" "set_mset (puts es) \<subseteq> U" using es by (simp_all add: effect_def)
  then have NU: "set_mset N \<subseteq> U" using nU set_mset_mono [of N "puts es + nrefs H xs"] by auto
  have "served ops H (run ops H es d) N" by (rule effect_served [OF c(6,1,2) nU c(7) es])
  from served_run(1) [OF ok_run [OF c(6)] c(1,2) _ NU this, of "kev (node H xs)"]
  show "served ops H (run ops H (es @ kev (node H xs)) d) N" by simp
qed

lemma delete_ext:
  assumes H: "\<And>b. length (H b) = 32" and ctx: "delete_ctx ok ops H U xs k d" and two: "2 \<le> length xs" "lcp xs \<noteq> []"
    and kid: "prefix (lcp xs) (nibs k) \<Longrightarrow> kid_deletes ops H U n (sub (lcp xs) xs) (mid k (length (lcp xs))) d L"
  shows "deletes ops H U (Suc n) xs k d (L + 2)"
proof -
  note c = delete_ctxD [OF ctx]
  let ?key = "nibs k" and ?q = "lcp xs" let ?ys = "sub ?q xs" and ?xs = "om_erase ?key xs" let ?x = "child H (node H ?ys)"
  note kok = trie_okD(1) [OF c(3)]
  have ne: "xs \<noteq> []" using two(1) by auto
  have bq: "nibbles ?q" "length ?q < 2 ^ 31 - 2" by (rule lcp_bounds [OF c(3) ne])+
  have nx: "node H xs = RList [RStr (hp False ?q), ?x]" "nrefs H xs = krefs H ?ys"
    using node_forms(1) [OF kok two(1), of H] nrefs_forms(2) [OF two, of H] two(2) by (simp_all add: ext_item_def)
  have f: "rlp_fits (RList [RStr (hp False ?q), ?x])" using pair_child_fits [of H ?q False] H bq(2) by simp
  have kk: "view_ok (keyOf (hp False ?q))" "nibs (keyOf (hp False ?q)) = ?q" using keyOf_hp [OF bq] by blast+
  have ct: "ns_contains k (keyOf (hp False ?q)) \<longleftrightarrow> prefix ?q ?key" "ns_size (keyOf (hp False ?q)) = length ?q"
    using view_contains [OF c(4) kk(1)] view_size(1) [OF kk(1)] by (simp_all add: kk(2))
  note r = not_Empty_list [OF f] list_reads(2) [OF f] list_reads(3) [OF f, of 1] pair_reads [OF f bq(1)]
  show ?thesis
  proof (cases "prefix ?q ?key")
    case False
    have "map_of xs ?key = None" using lcp_prefix [of xs] False by (auto simp: all_prefix_def map_of_eq_None_iff)
    then show ?thesis unfolding deletes_def nx(1) using r ct False by (simp add: tbind_def)
  next
    case True
    have mk: "nibs (mid k (length ?q)) = drop (length ?q) ?key" using view_mid [OF c(4), of "length ?q"] prefix_length_le [OF True] by simp
    have ky: "map_of ?ys (drop (length ?q) ?key) = map_of xs ?key" using True by (simp add: prefix_drop)
    have sx: "sub ?q ?xs = om_erase (drop (length ?q) ?key) ?ys" using sub_erase [OF kok, of ?q ?key] True by simp
    have "append_item (rlp_enc (node H xs)) 0 = append_bytes False (hp False ?q)" using append_item_emit [OF f, of 0] by (intro ext) (simp add: nx(1))
    note head = this
    let ?y = "child H (node H (sub ?q ?xs))"
    have fy: "rlp_fits (RList ([RStr (hp False ?q)] @ [?y]))" using pair_child_fits [of H ?q False] H bq(2) by simp
    obtain s where s: "ebind (appendList (length ([RStr (hp False ?q)] @ [?y])) RLPStream) (emits [RStr (hp False ?q)]) = Inr s"
        "ebind (emits [?y] s) stream_out = Inr (rlp_enc (RList ([RStr (hp False ?q)] @ [?y])))"
      by (rule open_list [OF fy])
    then obtain s' where s': "emit ?y s = Inr s'" "stream_out s' = Inr (rlp_enc (ext_item H ?q ?xs))" by (auto simp: ebind_Inr_iff ext_item_def)
    have st: "ebind (appendList 2 RLPStream) (append_item (rlp_enc (node H xs)) 0) = Inr s" using s(1) head by (simp add: numeral_2_eq_2)
    note rr = r [folded nx(1)]
    have step: "deleteAt (Suc n) ops H (rlp_enc (node H xs)) k d =
        tbind (deleteAtAux n ops H s (rlp_enc ?x) (mid k (length ?q))) (\<lambda>(found, s).
            if \<not> found then tret []
            else
              tbind (killNode ops H (rlp_enc (node H xs))) (\<lambda>_.
              tbind (tlift (stream_out s)) (\<lambda>b. tbind (tlift (RLP b VeryStrict)) (\<lambda>r. tbind (tlift (rlp_at r 1)) (\<lambda>y.
              tbind (isTwoItemNode ops y) (\<lambda>two. if two then graft ops r else tret b)))))) d"
      using rr ct True st by (simp add: tbind_def del: One_nat_def)
    show ?thesis
    proof (cases "map_of xs ?key = None")
      case none: True
      then show ?thesis using kid [OF True] ky by (simp add: deletes_def kid_deletes_def mk step tbind_def del: deleteAt.simps)
    next
      case some: False
      obtain es where es: "deleteAtAux n ops H s (rlp_enc ?x) (mid k (length ?q)) d = (Inr (True, s'), run ops H es d)"
          "effect True U (krefs H ?ys) (krefs H (sub ?q ?xs)) es" "length es \<le> L"
        using kid [OF True] some ky s'(1) by (auto simp: kid_deletes_def mk sx)
      have ne': "?xs \<noteq> []" by (rule erase_pair [OF keys_okD(1) [OF kok] two(1)])
      define ge where "ge = (if is_pair (sub ?q ?xs) then kev (node H (sub ?q ?xs)) else [])"
      let ?d = "run ops H (es @ kev (node H xs)) d"
      note xr = ext_run [of H, OF H c(11) ne' all_prefix_erase [OF lcp_prefix] two(2), of ops, folded ge_def]
      have e1: "effect True U (nrefs H xs) (krefs H (sub ?q ?xs)) es" using es(2) by (simp add: nx(2))
      have ge: "effect True U (krefs H (sub ?q ?xs)) (nrefs H ?xs) ge" "length ge \<le> 1"
        using ext_effect [OF c(11) ne' all_prefix_erase [OF lcp_prefix] two(2) c(9)] by (simp_all add: ge_def)
      note tl = delete_tail [OF ctx e1 ge(1)]
      have sv: "served ops H ?d (krefs H (sub ?q ?xs))" using tl(2) .
      have fe: "rlp_fits (ext_item H ?q ?xs)" "rlp_at (rlp_enc (ext_item H ?q ?xs)) 1 = Inr (rlp_enc ?y)"
        using fy list_reads(3) [OF fy, of 1] by (simp_all add: ext_item_def)
      have "deleteAt (Suc n) ops H (rlp_enc (node H xs)) k d = (Inr (rlp_enc (node H ?xs)), run ops H (es @ kev (node H xs) @ ge) d)"
        unfolding step using es(1) s'(2) RLP_exact(1) [OF fe(1)] fe(2) xr [OF sv] by (simp add: tbind_def killNode_run del: One_nat_def)
      then show ?thesis using some tl(1) es(3) ev_length(1) [of "node H xs"] ge(2)
        by (auto simp: deletes_def intro!: exI [of _ "es @ kev (node H xs) @ ge"] simp del: deleteAt.simps)
    qed
  qed
qed

end

end
