(* ===== verification/Trie_Delete_Node.thy ===== *)
theory Trie_Delete_Node
  imports Trie_Delete
begin

section \<open>Removing a key from any node\<close>

text \<open>
  The loop of \<open>deleteAt\<close> over the entries of a branch, the branch that is left (\<open>rejig\<close>), and the induction: \<open>deleteAt\<close> on the node of a
  map answers the node of the map without the key (\<open>deleteAt_node\<close>).
\<close>

lemma deletes_mono: "deletes ops H U n xs k d L \<Longrightarrow> L \<le> M \<Longrightarrow> deletes ops H U n xs k d M"
  by (auto simp: deletes_def split: if_splits intro: order.trans)

subsection \<open>Branches\<close>

lemma tfold_flag:
  assumes "\<And>i s d s' d'. i \<in> set is \<Longrightarrow> f i s d = (Inr s', d') \<Longrightarrow> F i (True, s) d = (Inr (True, s'), d')" "tfold f is s d = (Inr s', d')"
  shows "tfold F is (True, s) d = (Inr (True, s'), d')"
  using assms
proof (induction "is" arbitrary: s d)
  case (Cons i "is")
  obtain r d1 where fi: "f i s d = (r, d1)" by fastforce
  with Cons.prems(2) obtain s1 where s1: "r = Inr s1" "tfold f is s1 d1 = (Inr s', d')" by (cases r) (simp_all add: tbind_def)
  then show ?case using Cons.prems(1) [of i s d s1 d1] Cons.IH [OF Cons.prems(1) s1(2)] fi by (simp add: tbind_def)
qed simp

lemma tfold_stopped: "(\<And>i s. F i (False, s) = tret (False, s)) \<Longrightarrow> tfold F is (False, s) d = (Inr (False, s), d)"
  by (induction "is") simp_all

lemma erase_slots:
  assumes "keys_ok xs" "nibs k = b # ms" "i < 16" "i \<noteq> unat b"
  shows "sub [of_nat i] (om_erase (nibs k) xs) = sub [of_nat i] xs"
proof -
  have "(of_nat i :: byte) \<noteq> b" using assms(3,4) unat_of_nat_small [of i] by auto
  then show ?thesis using sub_erase [OF assms(1), of "[of_nat i]" "nibs k"] by (simp add: assms(2))
qed

text \<open>The last part of \<open>deleteAt\<close> on a branch.\<close>

definition rejig :: "'d db_ops \<Rightarrow> bytes \<Rightarrow> ('d, bytes) tr" where
  "rejig ops b = tbind (tlift (uniqueInUse b 255)) (\<lambda>used. if used = 255 then tret b else merge_graft ops b used)"

lemma single_slot_refs:
  assumes "used_slots xs = [i]"
  shows "brefs H xs = krefs H (sub [of_nat i] xs)"
proof -
  have i: "i < 16" "\<And>j. j < 16 \<Longrightarrow> j \<noteq> i \<Longrightarrow> sub [of_nat j] xs = []"
    using arg_cong [OF assms, of set] by (auto simp: used_slots_def)
  have "brefs H xs = (\<Sum>j \<in> {0..<16}. if j = i then krefs H (sub [of_nat i] xs) else {#})"
    unfolding brefs_def using i(2) by (intro sum.cong) (auto simp: krefs_def)
  then show ?thesis using i(1) by simp
qed

lemma many_slots:
  assumes "keys_ok xs" "flat xs (b # ms)" "xs \<noteq> []" "\<And>i. used_slots xs \<noteq> [i]"
  shows "2 \<le> length xs" "lcp xs = []"
proof -
  obtain p where p: "p \<in> set xs" using assms(3) by (cases xs) auto
  have "fst p \<noteq> []" using assms(2) p by (auto simp: flat_def)
  then have "used_slots xs \<noteq> []" using used_slot_key [OF assms(1) flat_value [OF assms(2)] p] by auto
  then obtain i j rest where u: "used_slots xs = i # j # rest" using assms(4) by (cases "used_slots xs" rule: remdups_adj.cases) auto
  have "distinct (used_slots xs)" by (simp add: used_slots_def)
  then have "i \<noteq> j" by (simp add: u)
  then show "2 \<le> length xs" "lcp xs = []" using two_slots [of i xs j] by (simp_all add: u)
qed

lemma rejig_run:
  assumes H: "\<And>b. length (H b) = 32" and xs: "trie_ok xs" "flat xs (b # ms)" "xs \<noteq> []" and U: "pieces H xs \<subseteq> U"
  shows "\<exists>ge. (\<forall>d. served ops H d (brefs H xs) \<longrightarrow> rejig ops (rlp_enc (branch_item H xs)) d = (Inr (rlp_enc (node H xs)), run ops H ge d)) \<and>
    effect True U (brefs H xs) (nrefs H xs) ge \<and> length ge \<le> 1"
proof (cases "\<exists>i. used_slots xs = [i]")
  case True
  then obtain i where i: "used_slots xs = [i]" by blast
  note ss = single_slot [OF trie_okD(1) [OF xs(1)] xs(2) i]
  define ge where "ge = (if is_pair (sub [of_nat i] xs) then kev (node H (sub [of_nat i] xs)) else [])"
  have "effect True U (brefs H xs) (nrefs H xs) ge" "length ge \<le> 1"
    using ext_effect [OF xs(1,3) ss(1) _ U] by (simp_all add: single_slot_refs [OF i] ge_def)
  moreover have "rejig ops (rlp_enc (branch_item H xs)) d = (Inr (rlp_enc (node H xs)), run ops H ge d)" if "served ops H d (brefs H xs)" for d
    using merge_graft_run [of H, OF H xs(1,2) i that [unfolded single_slot_refs [OF i]], folded ge_def]
      uniqueInUse_branch [of H, OF H xs(1) flat_value [OF xs(2)]] ss(2)
    by (simp add: rejig_def i)
  ultimately show ?thesis by blast
next
  case False
  then have two: "2 \<le> length xs" "lcp xs = []" using many_slots [OF trie_okD(1) [OF xs(1)] xs(2,3)] by blast+
  have "(case used_slots xs of [i] \<Rightarrow> i | _ \<Rightarrow> 255) = 255" using False by (auto split: list.splits)
  then have "rejig ops (rlp_enc (branch_item H xs)) d = (Inr (rlp_enc (node H xs)), run ops H [] d)" for d
    using uniqueInUse_branch [of H, OF H xs(1) flat_value [OF xs(2)]] node_forms(2) [OF trie_okD(1) [OF xs(1)] two, of H] by (simp add: rejig_def)
  then show ?thesis using nrefs_forms(3) [OF two, of H] effect_Nil by (intro exI [of _ "[]"]) simp
qed

text \<open>The loop of \<open>deleteAt\<close> over the entries of a branch.\<close>

definition delete_entry :: "nat \<Rightarrow> 'd db_ops \<Rightarrow> hash_fun \<Rightarrow> bytes \<Rightarrow> NibbleSlice \<Rightarrow> byte \<Rightarrow> nat \<Rightarrow> bool \<times> rlp_stream \<Rightarrow> ('d, bool \<times> rlp_stream) tr" where
  "delete_entry n ops H orig k b i fr =
     (if \<not> fst fr then tret fr
      else if i = unat b then tbind (tlift (rlp_at orig i)) (\<lambda>x. deleteAtAux n ops H (snd fr) x (mid k 1))
      else tbind (tlift (append_item orig i (snd fr))) (\<lambda>r. tret (True, r)))"

lemma deleteAt_branch:
  assumes "\<not> isEmpty orig" "itemCount orig = Inr 17" "ns_size k \<noteq> 0" "ns_at k 0 = Inr b"
  shows "deleteAt (Suc n) ops H orig k d =
      tbind (tlift (appendList 17 RLPStream)) (\<lambda>r. tbind (tfold (delete_entry n ops H orig k b) [0..<17] (True, r)) (\<lambda>(found, r).
        if \<not> found then tret []
        else tbind (killNode ops H orig) (\<lambda>_. tbind (tlift (stream_out r)) (\<lambda>b. tbind (tlift (RLP b VeryStrict)) (\<lambda>rlp.
          tbind (tlift (uniqueInUse rlp 255)) (\<lambda>used. if used = 255 then tret b else merge_graft ops rlp used)))))) d"
proof -
  have tb: "tbind (tlift (Inr x)) g = g x" for x and g :: "'x \<Rightarrow> ('d, 'y) tr" by (rule ext) simp
  show ?thesis using assms by (simp add: tb delete_entry_def [abs_def] del: upt_rec_numeral)
qed

lemma entries_missing:
  assumes H: "\<And>b. length (H b) = 32" and xs: "trie_ok xs" and b: "unat b < 16"
    and kid: "\<And>s. deleteAtAux n ops H s (rlp_enc (child H (node H (sub [b] xs)))) (mid k 1) d = (Inr (False, s), d)"
  shows "\<exists>r s. appendList 17 RLPStream = Inr r \<and> tfold (delete_entry n ops H (rlp_enc (branch_item H xs)) k b) [0..<17] (True, r) d = (Inr (False, s), d)"
proof -
  let ?b = "rlp_enc (branch_item H xs)" let ?F = "delete_entry n ops H ?b k b"
  have f: "rlp_fits (RList (branch_items H xs))" using branch_fits [of H, OF H xs] by (simp add: branch_item_def)
  have at: "rlp_at ?b (unat b) = Inr (rlp_enc (child H (node H (sub [b] xs))))"
    using list_reads(3) [OF f, of "unat b"] b by (simp add: branch_item_def branch_nth slot_child)
  obtain s where "ebind (appendList 17 RLPStream) (emits (branch_items H xs)) = Inr s" using list_out [OF f] by (auto simp: ebind_Inr_iff)
  then obtain r where r: "appendList 17 RLPStream = Inr r" "emits (branch_items H xs) r = Inr s" by (auto simp: ebind_Inr_iff)
  have "branch_items H xs = take (unat b) (branch_items H xs) @ drop (unat b) (branch_items H xs)" by simp
  then obtain s1 where s1: "emits (take (unat b) (branch_items H xs)) r = Inr s1" using r(2) by (metis emits_append ebind_Inr_iff)
  have "map ((!) (branch_items H xs)) [0..<unat b] = take (unat b) (branch_items H xs)" using b by (intro nth_equalityI) simp_all
  moreover have "tfold (\<lambda>i s. tlift (append_item ?b i s)) [0..<unat b] r = (tlift :: _ \<Rightarrow> ('a, _) tr) (emits (map ((!) (branch_items H xs)) [0..<unat b]) r)"
    using append_item_emit [OF f] b by (intro tfold_emits) (simp add: branch_item_def)
  ultimately have "tfold (\<lambda>i s. tlift (append_item ?b i s)) [0..<unat b] r d = (Inr s1, d)" using s1 by simp
  then have "tfold ?F [0..<unat b] (True, r) d = (Inr (True, s1), d)"
    by (rule tfold_flag [rotated]) (auto simp: delete_entry_def tbind_def)
  moreover have "?F (unat b) (True, s1) d = (Inr (False, s1), d)" using kid at by (simp add: delete_entry_def tbind_def)
  moreover have "tfold ?F [Suc (unat b)..<17] (False, s1) d = (Inr (False, s1), d)" by (rule tfold_stopped) (simp add: delete_entry_def)
  ultimately have "tfold ?F [0..<17] (True, r) d = (Inr (False, s1), d)"
    using upt_around [of "unat b" 17] b by (simp add: tfold_append tbind_def del: upt_rec_numeral)
  then show ?thesis using r(1) by blast
qed

lemma entries_found:
  assumes H: "\<And>b. length (H b) = 32" and xs: "trie_ok xs" "trie_ok xs'" and b: "unat b < 16"
    and upd: "\<And>i. i < 16 \<Longrightarrow> i \<noteq> unat b \<Longrightarrow> sub [of_nat i] xs' = sub [of_nat i] xs" "value_of xs' = value_of xs"
    and kid: "\<And>s s'. emit (child H (node H (sub [b] xs'))) s = Inr s' \<Longrightarrow>
      deleteAtAux n ops H s (rlp_enc (child H (node H (sub [b] xs)))) (mid k 1) d = (Inr (True, s'), d')"
  shows "\<exists>r s. appendList 17 RLPStream = Inr r \<and> stream_out s = Inr (rlp_enc (branch_item H xs')) \<and>
    tfold (delete_entry n ops H (rlp_enc (branch_item H xs)) k b) [0..<17] (True, r) d = (Inr (True, s), d')"
proof -
  let ?b = "rlp_enc (branch_item H xs)" let ?F = "delete_entry n ops H ?b k b"
  let ?g = "\<lambda>i. if i = unat b then child H (node H (sub [b] xs')) else branch_items H xs ! i"
  have f: "rlp_fits (RList (branch_items H xs))" "rlp_fits (RList (branch_items H xs'))"
    using branch_fits [of H, OF H xs(1)] branch_fits [of H, OF H xs(2)] by (simp_all add: branch_item_def)
  have at: "rlp_at ?b (unat b) = Inr (rlp_enc (child H (node H (sub [b] xs))))"
    using list_reads(3) [OF f(1), of "unat b"] b by (simp add: branch_item_def branch_nth slot_child)
  have items: "branch_items H xs' = map ?g [0..<17] @ []" using branch_items_update [OF b upd] by simp
  define f' where "f' = (\<lambda>i r. if i = unat b then (\<lambda>e. case ?F i (True, r) e of (Inr (True, s), e') \<Rightarrow> (Inr s, e') | (_, e') \<Rightarrow> (Inl OutOfFuel, e'))
    else tlift (append_item ?b i r))"
  have atb: "f' (unat b) s d = (Inr s', d')" if "emit (?g (unat b)) s = Inr s'" for s s'
    using kid [of s s'] that at by (simp add: f'_def delete_entry_def tbind_def)
  have copy: "f' i s = tlift (emit (?g i) s)" if "i < 17" "i \<noteq> unat b" for i s
    using append_item_emit [OF f(1), of i s] that by (simp add: branch_item_def f'_def)
  have fm: "rlp_fits (RList (map ?g [0..<17] @ []))" using f(2) items by simp
  obtain r s where rs: "appendList (17 + length ([] :: rlp_item list)) RLPStream = Inr r" "tfold f' [0..<17] r d = (Inr s, d')"
      "ebind (emits [] s) stream_out = Inr (rlp_enc (RList (map ?g [0..<17] @ [])))"
    by (rule tfold_one [OF _ fm, where f = f' and d = d and d' = d']) (use b copy atb in auto)
  have "tfold ?F [0..<17] (True, r) d = (Inr (True, s), d')"
    by (rule tfold_flag [OF _ rs(2)]) (auto simp: f'_def delete_entry_def tbind_def split: if_splits prod.splits sum.splits bool.splits)
  then show ?thesis using rs(1,3) items by (intro exI conjI) (auto simp: branch_item_def)
qed

context node_store
begin

lemma delete_branch:
  assumes H: "\<And>b. length (H b) = 32" and ctx: "delete_ctx ok ops H U xs k d" and two: "2 \<le> length xs" "lcp xs = []" and key: "nibs k = b # ms"
    and kid: "kid_deletes ops H U n (sub [b] xs) (mid k 1) d L"
  shows "deletes ops H U (Suc n) xs k d (L + 2)"
proof -
  note c = delete_ctxD [OF ctx] and kok = trie_okD(1) [OF delete_ctxD(3) [OF ctx]]
  let ?key = "nibs k" let ?xs = "om_erase ?key xs" and ?b = "rlp_enc (branch_item H xs)" and ?ys = "sub [b] xs"
  have nx: "node H xs = branch_item H xs" "nrefs H xs = brefs H xs" using node_forms(2) [OF kok two, of H] nrefs_forms(3) [OF two, of H] by blast+
  have f: "rlp_fits (RList (branch_items H xs))" "rlp_fits (branch_item H ?xs)"
    using branch_fits [of H, OF H c(3)] branch_fits [of H, OF H c(11)] by (simp_all add: branch_item_def)
  have e: "\<not> isEmpty ?b" "itemCount ?b = Inr 17"
    using not_Empty_list [OF f(1)] list_reads(2) [OF f(1)] by (auto simp: branch_item_def branch_items_def)
  have b16: "unat b < 16" using nibbles_nibs [of k] by (simp add: key word_less_nat_alt)
  have mk: "nibs (mid k 1) = ms" using view_mid [OF c(4), of 1] by (simp add: key)
  have sz: "ns_size k \<noteq> 0" "ns_at k 0 = Inr b" using view_size(1) [OF c(4)] view_at [OF c(4), of 0] by (simp_all add: key)
  note step = deleteAt_branch [OF e sz, of n ops H d]
  show ?thesis
  proof (cases "map_of xs ?key = None")
    case none: True
    then have "deleteAtAux n ops H s (rlp_enc (child H (node H ?ys))) (mid k 1) d = (Inr (False, s), d)" for s
      using kid by (simp add: kid_deletes_def mk key del: One_nat_def)
    from entries_missing [of H, OF H c(3) b16 this] show ?thesis using none unfolding deletes_def nx(1) step by (auto simp: tbind_def)
  next
    case some: False
    have sb: "sub [b] ?xs = om_erase ms ?ys" using sub_erase [OF kok, of "[b]" ?key] by (simp add: key)
    obtain es where es: "\<And>s s'. emit (child H (node H (sub [b] ?xs))) s = Inr s' \<Longrightarrow>
          deleteAtAux n ops H s (rlp_enc (child H (node H ?ys))) (mid k 1) d = (Inr (True, s'), run ops H es d)"
        "effect True U (krefs H ?ys) (krefs H (sub [b] ?xs)) es" "length es \<le> L"
      using kid some unfolding sb by (auto simp: kid_deletes_def mk key simp del: One_nat_def)
    have ne': "?xs \<noteq> []" by (rule erase_pair [OF keys_okD(1) [OF kok] two(1)])
    have fl: "flat ?xs (b # ms)" "value_of ?xs = value_of xs" using flat_erase [OF c(10), of ?key] c(10) by (simp_all add: key flat_value)
    note slots = erase_slots [OF kok key]
    have ef: "effect True U (nrefs H xs) (brefs H ?xs) es" unfolding nx(2) by (rule brefs_update [OF b16 slots es(2)])
    obtain r s where rs: "appendList 17 RLPStream = Inr r" "stream_out s = Inr (rlp_enc (branch_item H ?xs))"
        "tfold (delete_entry n ops H ?b k b) [0..<17] (True, r) d = (Inr (True, s), run ops H es d)"
      using entries_found [of H, OF H c(3,11) b16 slots fl(2) es(1)] by blast
    obtain ge where ge: "\<And>e. served ops H e (brefs H ?xs) \<Longrightarrow> rejig ops (rlp_enc (branch_item H ?xs)) e = (Inr (rlp_enc (node H ?xs)), run ops H ge e)"
        "effect True U (brefs H ?xs) (nrefs H ?xs) ge" "length ge \<le> 1"
      using rejig_run [of H, OF H c(11) fl(1) ne' c(9), of ops] by blast
    note tl = delete_tail [OF ctx ef ge(2)]
    have "deleteAt (Suc n) ops H ?b k d = (Inr (rlp_enc (node H ?xs)), run ops H (es @ kev (node H xs) @ ge) d)"
      unfolding step using rs RLP_exact(1) [OF f(2)] ge(1) [OF tl(2), unfolded rejig_def] by (simp add: tbind_def killNode_run nx(1))
    then show ?thesis using some tl(1) es(3) ev_length(1) [of "node H xs"] ge(3)
      by (auto simp: deletes_def nx(1) intro!: exI [of _ "es @ kev (node H xs) @ ge"] simp del: deleteAt.simps)
  qed
qed

lemma delete_cases:
  assumes H: "\<And>b. length (H b) = 32" and ctx: "delete_ctx ok ops H U xs k d"
    and kid: "\<And>q. prefix q (nibs k) \<Longrightarrow> q \<noteq> [] \<Longrightarrow> served ops H d (krefs H (sub q xs)) \<Longrightarrow> kid_deletes ops H U n (sub q xs) (mid k (length q)) d L"
  shows "deletes ops H U (Suc n) xs k d (L + 2)"
proof -
  note c = delete_ctxD [OF ctx]
  consider "xs = []" | key w where "xs = [(key, w)]" | (ext) "2 \<le> length xs" "lcp xs \<noteq> []" | (branch) "2 \<le> length xs" "lcp xs = []"
    by (cases xs rule: remdups_adj.cases) auto
  then show ?thesis
  proof cases
    case 1
    then show ?thesis using deleteAt_empty by simp
  next
    case (2 key w)
    then show ?thesis using delete_leaf [of H, OF H ctx [unfolded 2]] by simp
  next
    case ext
    then have "served ops H d (krefs H (sub (lcp xs) xs))" using c(7) by (simp add: nrefs_forms)
    then show ?thesis by (intro delete_ext [of H, OF H ctx ext] kid) (use ext in auto)
  next
    case branch
    have "nibs k \<noteq> []"
    proof
      assume "nibs k = []"
      then have "is_pair xs \<Longrightarrow> length xs = 1" using keys_of_pair [OF _ trie_okD(1) [OF c(3)]] c(10) by simp
      moreover have "\<forall>p \<in> set xs. fst p = []" using c(10) \<open>nibs k = []\<close> by (simp add: flat_def)
      moreover have "distinct (map fst xs)" by (rule om_ok_distinct [OF keys_okD(1) [OF trie_okD(1) [OF c(3)]]])
      ultimately show False using branch(1) by (cases xs rule: remdups_adj.cases) auto
    qed
    then obtain b ms where key: "nibs k = b # ms" by (cases "nibs k") auto
    have "unat b < 16" using nibbles_nibs [of k] by (simp add: key word_less_nat_alt)
    moreover have "served ops H d (brefs H xs)" using c(7) branch by (simp add: nrefs_forms)
    ultimately have "served ops H d (krefs H (sub [b] xs))" by (auto simp: served_brefs dest: spec [of _ "unat b"])
    then show ?thesis using kid [of "[b]"] by (intro delete_branch [of H, OF H ctx branch key]) (simp add: key)
  qed
qed

lemma deleteAt_node:
  assumes H: "\<And>b. length (H b) = 32" and "delete_ctx ok ops H U xs k d" "2 * length (nibs k) + 2 \<le> n"
  shows "deletes ops H U n xs k d (3 * length (nibs k) + 3)"
  using assms(2-)
proof (induction "length (nibs k)" arbitrary: xs k n rule: less_induct)
  case less
  let ?key = "nibs k"
  note c = delete_ctxD [OF less.prems(1)]
  obtain m where m: "n = Suc (Suc m)" using less.prems(2) by (metis add_2_eq_Suc' le_Suc_ex add_Suc)
  have kid: "kid_deletes ops H U (Suc m) (sub q xs) (mid k (length q)) d (3 * length ?key + 1)"
    if q: "prefix q ?key" "q \<noteq> []" and s: "served ops H d (krefs H (sub q xs))" for q
  proof -
    have lq: "0 < length q" "length q \<le> length ?key" using q prefix_length_le by auto
    have mk: "view_ok (mid k (length q))" "nibs (mid k (length q)) = drop (length q) ?key" using view_mid [OF c(4) lq(2)] by blast+
    have se: "sub q (om_erase ?key xs) = om_erase (drop (length q) ?key) (sub q xs)" using sub_erase [OF trie_okD(1) [OF c(3)], of q ?key] q(1) by simp
    have ctx: "delete_ctx ok ops H U (sub q xs) (mid k (length q)) d"
      using c(1,2,5,6) trie_ok_sub [OF c(3)] mk(1) s subset_trans [OF pieces_sub c(8)] subset_trans [OF pieces_sub c(9)] flat_sub [OF c(10) q(1)]
      unfolding delete_ctx_def mk(2) se [symmetric] by (auto simp: krefs_self)
    have lt: "length (nibs (mid k (length q))) < length ?key" "2 * length (nibs (mid k (length q))) + 2 \<le> m"
      unfolding mk(2) length_drop using lq less.prems(2) m by linarith+
    have "deletes ops H U m (sub q xs) (mid k (length q)) d (3 * length (nibs (mid k (length q))) + 3)" by (rule less.hyps [OF lt(1) ctx lt(2)])
    moreover have "3 * length (nibs (mid k (length q))) + 3 \<le> 3 * length ?key" using lt(1) by linarith
    ultimately have del: "deletes ops H U m (sub q xs) (mid k (length q)) d (3 * length ?key)" by (rule deletes_mono)
    have "pieces H (om_erase (nibs (mid k (length q))) (sub q xs)) \<subseteq> U" unfolding mk(2) se [symmetric] by (rule subset_trans [OF pieces_sub c(9)])
    then show ?thesis by (rule deleteAtAux_kid [of H, OF H trie_ok_sub [OF c(3)] s _ del])
  qed
  show ?case unfolding m by (rule deletes_mono [OF delete_cases [of H, OF H less.prems(1) kid]]) simp_all
qed

end

end
