(* ===== verification/Trie_Root.thy ===== *)
theory Trie_Root
  imports Trie_Merge_Node
begin

section \<open>Tries of maps from byte strings\<close>

text \<open>
  The nodes of a map of byte strings, through the nibbles of its keys: what \<open>rlp256\<close> and \<open>hash256\<close> compute of it, what the lookup
  finds below its root and what an insertion makes of it.
\<close>

subsection \<open>Keys as nibbles\<close>

definition hexmap :: "(bytes \<times> bytes) list \<Rightarrow> hex_map" where
  "hexmap m = map (\<lambda>(k, v). (asNibbles k, v)) m"

lemma hexmap_simps [simp]: "hexmap [] = []" "hexmap ((k, v) # m) = (asNibbles k, v) # hexmap m" "hexmap m = [] \<longleftrightarrow> m = []"
  by (simp_all add: hexmap_def)

lemma nibble_less: "x < y \<longleftrightarrow> hi x < hi y \<or> hi x = hi y \<and> lo x < lo y"
proof -
  have split: "unat z = unat (hi z) * 16 + unat (lo z)" for z by (simp add: unat_hi unat_lo)
  have b: "unat (lo x) < 16" "unat (lo y) < 16" by (simp_all add: unat_lo)
  have eq: "hi x = hi y \<longleftrightarrow> unat (hi x) = unat (hi y)" by (simp add: word_unat_eq_iff)
  show ?thesis unfolding word_less_nat_alt eq split [of x] split [of y] using b by presburger
qed

lemma asNibbles_less: "asNibbles a < asNibbles b \<longleftrightarrow> a < b"
proof (induction a arbitrary: b)
  case Nil
  then show ?case by (cases b) simp_all
next
  case (Cons x a)
  show ?case
  proof (cases b)
    case (Cons y b')
    have "x = y \<longleftrightarrow> hi x = hi y \<and> lo x = lo y" using hi_lo(3) [of x] hi_lo(3) [of y] by metis
    then show ?thesis using Cons.IH [of b'] nibble_less [of x y] Cons by auto
  qed simp
qed

lemma om_ok_hexmap: "om_ok m \<Longrightarrow> om_ok (hexmap m)"
  by (induction m) (auto simp: asNibbles_less hexmap_def)

lemma keys_ok_hexmap: "om_ok m \<Longrightarrow> keys_ok (hexmap m)"
  using om_ok_hexmap [of m] nibbles_asNibbles by (auto simp: keys_ok_def hexmap_def)

lemma map_of_hexmap: "map_of (hexmap m) (asNibbles k) = map_of m k"
  by (induction m) (auto simp: asNibbles_inj)

lemma hexmap_set: "hexmap (om_set k v m) = om_set (asNibbles k) v (hexmap m)"
  by (induction k v m rule: om_set.induct) (auto simp: asNibbles_less asNibbles_inj)

lemma hexmap_fold: "om_ok m \<Longrightarrow> foldl (\<lambda>h (k, v). om_set (asNibbles k) v h) [] (rev m) = hexmap m"
proof (induction m)
  case (Cons p m)
  obtain k v where p: "p = (k, v)" by fastforce
  have "asNibbles k < l" if "l \<in> fst ` set (hexmap m)" for l
    using Cons.prems that by (auto simp: p hexmap_def asNibbles_less)
  then have "om_set (asNibbles k) v (hexmap m) = (asNibbles k, v) # hexmap m" by (cases "hexmap m") auto
  then show ?case using Cons by (simp add: p)
qed simp

subsection \<open>The root\<close>

definition bmap_ok :: "(bytes \<times> bytes) list \<Rightarrow> bool" where
  "bmap_ok m \<longleftrightarrow> om_ok m \<and> (\<forall>(k, v) \<in> set m. length k < 2 ^ 30 - 1 \<and> length v < 2 ^ 59)"

lemma trie_ok_hexmap: "bmap_ok m \<Longrightarrow> trie_ok (hexmap m)"
  using keys_ok_hexmap [of m] by (auto simp: bmap_ok_def trie_ok_def hexmap_def)

definition trie_node :: "hash_fun \<Rightarrow> (bytes \<times> bytes) list \<Rightarrow> bytes" where
  "trie_node H m = rlp_enc (node H (hexmap m))"

lemma rlp256_node:
  assumes H: "\<And>b. length (H b) = 32" and "bmap_ok m"
  shows "rlp256 H m = Inr (trie_node H m)"
proof (cases "m = []")
  case True
  have f: "rlp_fits (RStr [])" by (simp add: rlp_fits_def enc_bytes_def enc_hdr_def rlp_max_def)
  show ?thesis using emit_out [OF f] by (simp add: rlp256_def trie_node_def True node_simps)
next
  case False
  note ok = trie_ok_hexmap [OF assms(2)]
  have om: "om_ok m" using assms(2) by (simp add: bmap_ok_def)
  have "hash256rlp H (under [] (hexmap m)) (length ([] :: bytes)) RLPStream = emit (node H (hexmap m)) RLPStream"
    by (rule hash256rlp_node [OF H trie_okD(1) [OF ok]]) (use trie_okD(2) [OF ok] in \<open>simp add: under_def\<close>)
  moreover have "under [] (hexmap m) = hexmap m" by (simp add: under_def)
  ultimately have "ebind (hash256rlp H (hexmap m) 0 RLPStream) stream_out = Inr (trie_node H m)"
    using emit_out [OF node_fits [of H "hexmap m", OF H trie_okD(2) [OF ok]]] by (simp add: trie_node_def)
  then show ?thesis using False by (simp add: rlp256_def hexmap_fold [OF om])
qed

lemma hash256_node:
  assumes "\<And>b. length (H b) = 32" "bmap_ok m"
  shows "hash256 H m = Inr (H (trie_node H m))"
  using rlp256_node [of H m, OF assms] by (simp add: hash256_def)

text \<open>All the nodes of the trie of a map, and that a database serves them.\<close>

definition trie_refs :: "hash_fun \<Rightarrow> (bytes \<times> bytes) list \<Rightarrow> bytes multiset" where
  "trie_refs H m = add_mset (trie_node H m) (nrefs H (hexmap m))"

definition trie_pieces :: "hash_fun \<Rightarrow> (bytes \<times> bytes) list \<Rightarrow> bytes set" where
  "trie_pieces H m = pieces H (hexmap m)"

lemma trie_refs_pieces: "set_mset (trie_refs H m) \<subseteq> trie_pieces H m"
  using nrefs_pieces [of H "hexmap m"] pieces_self(2) [of H "hexmap m"] by (simp add: trie_refs_def trie_pieces_def trie_node_def)

lemma bmap_ok_set:
  assumes "bmap_ok m" "length k < 2 ^ 30 - 1" "length v < 2 ^ 59"
  shows "bmap_ok (om_set k v m)"
  using assms by (auto simp: bmap_ok_def set_om_set_iff split: if_splits)

lemma slice_view: "length key < 2 ^ 30 - 1 \<Longrightarrow> view_ok (slice key 0)" "nibs (slice key 0) = asNibbles key"
  by (simp_all add: view_ok_def slice_def nibs_def)

lemma trie_at_found:
  assumes H: "\<And>b. length (H b) = 32" and ok: "bmap_ok m" "length key < 2 ^ 30 - 1" and s: "served ops H d (trie_refs H m)"
  shows "trie_at ops (H (trie_node H m)) key d = (Inr (case map_of m key of Some v \<Rightarrow> v | None \<Rightarrow> []), d)"
proof -
  note t = trie_ok_hexmap [OF ok(1)]
  have l: "db_lookup ops d (H (trie_node H m)) = trie_node H m" "served ops H d (nrefs H (hexmap m))"
    using s by (simp_all add: served_def trie_refs_def)
  have "RLP (trie_node H m) VeryStrict = Inr (trie_node H m)"
    unfolding trie_node_def by (rule RLP_exact(1) [OF node_fits [OF H trie_okD(2) [OF t]]])
  moreover have "atAux (fuel_of key) ops (trie_node H m) (slice key 0) d = (Inr (value_at (hexmap m) (nibs (slice key 0))), d)"
    unfolding trie_node_def by (rule atAux_node [of H, OF H t slice_view(1) [OF ok(2)] l(2)]) (simp add: slice_view fuel_of_def)
  ultimately show ?thesis
    using l(1) by (simp add: trie_at_def tbind_def db_node_def slice_view(2) value_at_def map_of_hexmap)
qed

text \<open>What an insertion does around \<^const>\<open>mergeAt\<close>: the old root is released when \<^const>\<open>mergeAt\<close> has not done so, the new one is stored.\<close>

lemma root_effect:
  assumes e: "effect F U (self_ref H (hexmap m) + nrefs H (hexmap m)) (nrefs H (hexmap m')) es"
    and U: "trie_node H m \<in> U" "trie_node H m' \<in> U"
  shows "effect F U (trie_refs H m) (trie_refs H m')
    (es @ (if length (trie_node H m) < 32 then [Kill (trie_node H m)] else []) @ [Put (trie_node H m')])"
proof -
  let ?x = "if length (trie_node H m) < 32 then [Kill (trie_node H m)] else []"
  have "effect F U (trie_refs H m) (nrefs H (hexmap m')) (es @ ?x)"
  proof (cases "length (trie_node H m) < 32")
    case True
    then have "self_ref H (hexmap m) = {#}" by (simp add: self_ref_def trie_node_def)
    then have "effect F U (trie_refs H m) (add_mset (trie_node H m) (nrefs H (hexmap m'))) es"
      using effect_frame [OF e, of "{#trie_node H m#}"] by (simp add: trie_refs_def)
    moreover have "effect F U (add_mset (trie_node H m) (nrefs H (hexmap m'))) (nrefs H (hexmap m')) [Kill (trie_node H m)]"
      using U by (simp add: effect_def)
    ultimately show ?thesis using True effect_append by auto
  next
    case False
    then show ?thesis using e by (simp add: trie_refs_def self_ref_def trie_node_def)
  qed
  moreover have "effect F U (nrefs H (hexmap m')) (trie_refs H m') [Put (trie_node H m')]"
    using U by (simp add: effect_def trie_refs_def)
  ultimately show ?thesis using effect_append by fastforce
qed

context node_store
begin

lemma trie_insert_run:
  assumes H: "\<And>b. length (H b) = 32" and inj: "inj_on H (trie_pieces H m \<union> trie_pieces H (om_set key v m))"
    and ok: "bmap_ok m" "length key < 2 ^ 30 - 1" "length v < 2 ^ 59" "ok d" "served ops H d (trie_refs H m)"
  shows "\<exists>es. trie_insert ops H (H (trie_node H m)) key v d = (Inr (H (trie_node H (om_set key v m))), run ops H es d) \<and>
    effect (\<forall>p \<in> set m. length (fst p) = length key) (trie_pieces H m \<union> trie_pieces H (om_set key v m))
      (trie_refs H m) (trie_refs H (om_set key v m)) es \<and> length es \<le> 8 * length key + 6"
proof -
  let ?U = "trie_pieces H m \<union> trie_pieces H (om_set key v m)" and ?m = "om_set key v m" and ?k = "slice key 0"
  let ?F = "\<forall>p \<in> set m. length (fst p) = length key"
  note t = trie_ok_hexmap [OF ok(1)] and sv = slice_view(2) [of key]
  have l: "db_lookup ops d (H (trie_node H m)) = trie_node H m" "served ops H d (nrefs H (hexmap m))"
    using ok(5) by (simp_all add: served_def trie_refs_def)
  have "merge_ctx ok ops H ?U (hexmap m) ?k v d False"
    unfolding merge_ctx_def using inj t slice_view(1) [OF ok(2)] ok(2,3,4) l(2)
    by (auto simp: trie_pieces_def pieces_def sv hexmap_set dest: sym)
  from mergeAt_node [of H, OF H this, of "fuel_of key"]
  obtain es where es: "mergeAt (fuel_of key) ops H (trie_node H m) (H (trie_node H m)) ?k v False d = (Inr (trie_node H ?m), run ops H es d)"
      "effect (flat (hexmap m) (asNibbles key)) ?U (self_ref H (hexmap m) + nrefs H (hexmap m)) (nrefs H (hexmap ?m)) es"
      "length es \<le> 8 * length key + 4"
    by (auto simp: merges_def sv hexmap_set trie_node_def fuel_of_def)
  have r: "RLP (trie_node H m) VeryStrict = Inr (trie_node H m)"
    unfolding trie_node_def by (rule RLP_exact(1) [OF node_fits [OF H trie_okD(2) [OF t]]])
  let ?es = "es @ (if length (trie_node H m) < 32 then [Kill (trie_node H m)] else []) @ [Put (trie_node H ?m)]"
  have "?F \<Longrightarrow> flat (hexmap m) (asNibbles key)" by (auto simp: flat_def hexmap_def)
  from effect_weaken [OF es(2) this] have "effect ?F ?U (trie_refs H m) (trie_refs H ?m) ?es"
    using pieces_self(2) [of H] by (intro root_effect) (simp_all add: trie_pieces_def trie_node_def)
  moreover have "trie_insert ops H (H (trie_node H m)) key v d = (Inr (H (trie_node H ?m)), run ops H ?es d)"
    using es(1) r l(1) by (simp add: trie_insert_def tbind_def db_node_def forceKillNode_def forceInsertNode_def)
  moreover have "length ?es \<le> 8 * length key + 6" using es(3) by simp
  ultimately show ?thesis by blast
qed

end

end
