(* ===== verification/Trie_Remove.thy ===== *)
theory Trie_Remove
  imports Trie_Delete_Node Trie_Root
begin

section \<open>Removal from a trie\<close>

text \<open>\<open>remove\<close> on the trie of a map of byte strings whose keys have one length.\<close>

lemma hexmap_erase: "hexmap (om_erase key m) = om_erase (asNibbles key) (hexmap m)"
  by (induction m) (auto simp: om_erase_def asNibbles_inj)

lemma bmap_ok_erase: "bmap_ok m \<Longrightarrow> bmap_ok (om_erase key m)"
  by (auto simp: bmap_ok_def)

context node_store
begin

lemma trie_remove_run:
  assumes H: "\<And>b. length (H b) = 32" and inj: "inj_on H (trie_pieces H m \<union> trie_pieces H (om_erase key m))"
    and ok: "bmap_ok m" "length key < 2 ^ 30 - 1" "\<forall>p \<in> set m. length (fst p) = length key" "ok d" "served ops H d (trie_refs H m)"
  shows "if map_of m key = None then trie_remove ops H (H (trie_node H m)) key d = (Inr (H (trie_node H m)), d)
    else \<exists>es. trie_remove ops H (H (trie_node H m)) key d = (Inr (H (trie_node H (om_erase key m))), run ops H es d) \<and>
      effect True (trie_pieces H m \<union> trie_pieces H (om_erase key m)) (trie_refs H m) (trie_refs H (om_erase key m)) es \<and> length es \<le> 6 * length key + 5"
proof -
  let ?U = "trie_pieces H m \<union> trie_pieces H (om_erase key m)" and ?m = "om_erase key m" and ?k = "slice key 0"
  note t = trie_ok_hexmap [OF ok(1)] and sv = slice_view(2) [of key]
  have l: "db_lookup ops d (H (trie_node H m)) = trie_node H m" "served ops H d (nrefs H (hexmap m))"
    using ok(5) by (simp_all add: served_def trie_refs_def)
  have fl: "flat (hexmap m) (asNibbles key)" using ok(3) by (auto simp: flat_def hexmap_def)
  have nU: "[] \<notin> ?U" by (auto simp: trie_pieces_def pieces_def dest: sym)
  have "delete_ctx ok ops H ?U (hexmap m) ?k d"
    unfolding delete_ctx_def using inj nU t slice_view(1) [OF ok(2)] ok(2,4) l(2) fl by (simp add: trie_pieces_def sv hexmap_erase)
  from deleteAt_node [of H, OF H this, of "fuel_of key"]
  have del: "deletes ops H ?U (fuel_of key) (hexmap m) ?k d (6 * length key + 3)" by (simp add: sv fuel_of_def)
  have r: "RLP (trie_node H m) VeryStrict = Inr (trie_node H m)"
    unfolding trie_node_def by (rule RLP_exact(1) [OF node_fits [OF H trie_okD(2) [OF t]]])
  show ?thesis
  proof (cases "map_of m key")
    case None
    then have "deleteAt (fuel_of key) ops H (trie_node H m) ?k d = (Inr [], d)" using del by (simp add: deletes_def sv map_of_hexmap trie_node_def)
    then show ?thesis using None l(1) r by (simp add: trie_remove_def tbind_def db_node_def)
  next
    case (Some v)
    obtain es where es: "deleteAt (fuel_of key) ops H (trie_node H m) ?k d = (Inr (trie_node H ?m), run ops H es d)"
        "effect True ?U (self_ref H (hexmap m) + nrefs H (hexmap m)) (nrefs H (hexmap ?m)) es" "length es \<le> 6 * length key + 3"
      using del Some by (auto simp: deletes_def sv map_of_hexmap hexmap_erase trie_node_def)
    let ?es = "es @ (if length (trie_node H m) < 32 then [Kill (trie_node H m)] else []) @ [Put (trie_node H ?m)]"
    have "effect True ?U (trie_refs H m) (trie_refs H ?m) ?es"
      using es(2) pieces_self(2) [of H] by (intro root_effect) (simp_all add: trie_pieces_def trie_node_def)
    moreover have "trie_remove ops H (H (trie_node H m)) key d = (Inr (H (trie_node H ?m)), run ops H ?es d)"
      using es(1) r l(1) nU trie_refs_pieces [of H ?m] by (auto simp: trie_remove_def tbind_def db_node_def forceKillNode_def forceInsertNode_def trie_refs_def)
    moreover have "length ?es \<le> 6 * length key + 5" using es(3) by simp
    ultimately show ?thesis using Some by (auto simp del: run_simps)
  qed
qed

end

end
