(* ===== verification/Trie_Properties.thy ===== *)
theory Trie_Properties
  imports Trie_Remove
begin

section \<open>The tries of the program\<close>

text \<open>
  What the tries do for their users: the trie over a database agrees with the root computed at once, and a commit loses no node
  that the trie needs.
\<close>

subsection \<open>A sequence of insertions\<close>

fun trie_inserts :: "'d db_ops \<Rightarrow> hash_fun \<Rightarrow> (bytes \<times> bytes) list \<Rightarrow> bytes \<Rightarrow> ('d, bytes) tr" where
  "trie_inserts ops H [] root = tret root"
| "trie_inserts ops H ((k, v) # kvs) root = tbind (trie_insert ops H root k v) (trie_inserts ops H kvs)"

definition set_all :: "(bytes \<times> bytes) list \<Rightarrow> (bytes \<times> bytes) list \<Rightarrow> (bytes \<times> bytes) list" where
  "set_all m kvs = foldl (\<lambda>m (k, v). om_set k v m) m kvs"

lemma set_all_simps [simp]: "set_all m [] = m" "set_all m ((k, v) # kvs) = set_all (om_set k v m) kvs"
  by (simp_all add: set_all_def)

text \<open>The nodes of all the maps that a sequence of insertions goes through.\<close>

fun seq_pieces :: "hash_fun \<Rightarrow> (bytes \<times> bytes) list \<Rightarrow> (bytes \<times> bytes) list \<Rightarrow> bytes set" where
  "seq_pieces H m [] = trie_pieces H m"
| "seq_pieces H m ((k, v) # kvs) = trie_pieces H m \<union> seq_pieces H (om_set k v m) kvs"

lemma seq_pieces_first: "trie_pieces H m \<subseteq> seq_pieces H m kvs"
  by (cases kvs rule: list.exhaust) auto

definition pairs_ok :: "(bytes \<times> bytes) list \<Rightarrow> bool" where
  "pairs_ok kvs \<longleftrightarrow> (\<forall>(k, v) \<in> set kvs. length k < 2 ^ 30 - 1 \<and> length v < 2 ^ 59)"

context node_store
begin

lemma trie_insert_served:
  assumes H: "\<And>b. length (H b) = 32" and inj: "inj_on H (trie_pieces H m \<union> trie_pieces H (om_set key v m))"
    and ok: "bmap_ok m" "length key < 2 ^ 30 - 1" "length v < 2 ^ 59" "ok d" "served ops H d (trie_refs H m)"
  obtains es where "trie_insert ops H (H (trie_node H m)) key v d = (Inr (H (trie_node H (om_set key v m))), run ops H es d)"
    "effect (\<forall>p \<in> set m. length (fst p) = length key) (trie_pieces H m \<union> trie_pieces H (om_set key v m))
      (trie_refs H m) (trie_refs H (om_set key v m)) es" "length es \<le> 8 * length key + 6"
    "ok (run ops H es d)" "served ops H (run ops H es d) (trie_refs H (om_set key v m))"
proof -
  have nU: "[] \<notin> trie_pieces H m \<union> trie_pieces H (om_set key v m)" by (auto simp: trie_pieces_def pieces_def dest: sym)
  obtain es where es: "trie_insert ops H (H (trie_node H m)) key v d = (Inr (H (trie_node H (om_set key v m))), run ops H es d)"
    "effect (\<forall>p \<in> set m. length (fst p) = length key) (trie_pieces H m \<union> trie_pieces H (om_set key v m))
      (trie_refs H m) (trie_refs H (om_set key v m)) es" "length es \<le> 8 * length key + 6"
    using trie_insert_run [OF H inj ok] by blast
  have "served ops H (run ops H es d) (trie_refs H (om_set key v m))"
    by (rule effect_served [OF ok(4) inj nU _ ok(5) es(2)]) (use trie_refs_pieces in auto)
  then show ?thesis using that es ok_run [OF ok(4)] by blast
qed

lemma trie_inserts_run:
  assumes H: "\<And>b. length (H b) = 32" and "inj_on H (seq_pieces H m kvs)" "bmap_ok m" "pairs_ok kvs" "ok d" "served ops H d (trie_refs H m)"
  shows "\<exists>d'. trie_inserts ops H kvs (H (trie_node H m)) d = (Inr (H (trie_node H (set_all m kvs))), d') \<and>
    bmap_ok (set_all m kvs) \<and> served ops H d' (trie_refs H (set_all m kvs))"
  using assms(2-)
proof (induction kvs arbitrary: m d)
  case (Cons p kvs)
  obtain k v where p: "p = (k, v)" by fastforce
  let ?m = "om_set k v m"
  have b: "length k < 2 ^ 30 - 1" "length v < 2 ^ 59" "pairs_ok kvs" using Cons.prems(3) by (auto simp: p pairs_ok_def)
  have inj: "inj_on H (trie_pieces H m \<union> trie_pieces H ?m)" "inj_on H (seq_pieces H ?m kvs)"
    using Cons.prems(1) seq_pieces_first [of H ?m kvs] by (auto simp: p intro: inj_on_subset)
  obtain es where es: "trie_insert ops H (H (trie_node H m)) k v d = (Inr (H (trie_node H ?m)), run ops H es d)"
    "ok (run ops H es d)" "served ops H (run ops H es d) (trie_refs H ?m)"
    by (rule trie_insert_served [OF H inj(1) Cons.prems(2) b(1,2) Cons.prems(4,5)])
  show ?case using Cons.IH [OF inj(2) bmap_ok_set [OF Cons.prems(2) b(1,2)] b(3) es(2,3)] es(1) by (simp add: p tbind_def)
qed simp

end

subsection \<open>The trie that insertions build\<close>

lemma trie_init_served:
  assumes "\<not> m_enforceRefs d"
  shows "\<exists>d'. trie_init OverlayDB_ops H d = (Inr (H (trie_node H [])), d') \<and> \<not> m_enforceRefs d' \<and> served OverlayDB_ops H d' (trie_refs H [])"
proof -
  let ?d = "db_insert OverlayDB_ops (H [128]) [128] d"
  have n: "trie_node H [] = [128]" by (simp add: trie_node_def node_simps enc_bytes_def enc_hdr_def)
  have l: "db_lookup OverlayDB_ops ?d (H [128]) = [128]" using overlay.lookup_insert [OF assms, of "[128]" "H [128]" "H [128]"] by simp
  have "trie_init OverlayDB_ops H d = (Inr (H [128]), ?d)"
    using l by (simp add: trie_init_def tbind_def forceInsertNode_def db_node_def)
  then show ?thesis using l overlay.ok_insert [OF assms, of "H [128]" "[128]"] by (simp add: n trie_refs_def served_def nrefs_forms)
qed

text \<open>
  C30: A trie that starts empty and takes any sequence of insertions has the root that \<open>hash256\<close> computes from the resulting
  map at once, and a lookup of any key gives its last inserted value, the empty string for a key never inserted. Keccak has
  32 bytes and no collision among the nodes of the maps in between.
\<close>

theorem trie_build:
  assumes "\<And>b. length (H b) = 32" "inj_on H (seq_pieces H [] kvs)" "pairs_ok kvs" "\<not> m_enforceRefs d" "length key < 2 ^ 30 - 1"
  shows "\<exists>root d'. tbind (trie_init OverlayDB_ops H) (trie_inserts OverlayDB_ops H kvs) d = (Inr root, d') \<and>
    hash256 H (set_all [] kvs) = Inr root \<and>
    trie_at OverlayDB_ops root key d' = (Inr (case map_of (rev kvs) key of Some v \<Rightarrow> v | None \<Rightarrow> []), d')"
proof -
  obtain d0 where d0: "trie_init OverlayDB_ops H d = (Inr (H (trie_node H [])), d0)" "\<not> m_enforceRefs d0" "served OverlayDB_ops H d0 (trie_refs H [])"
    using trie_init_served [OF assms(4), of H] by blast
  have "bmap_ok []" by (simp add: bmap_ok_def)
  from overlay.trie_inserts_run [of H, OF assms(1,2) this assms(3) d0(2,3)]
  obtain d' where d': "trie_inserts OverlayDB_ops H kvs (H (trie_node H [])) d0 = (Inr (H (trie_node H (set_all [] kvs))), d')"
    "bmap_ok (set_all [] kvs)" "served OverlayDB_ops H d' (trie_refs H (set_all [] kvs))" by blast
  have "om_ok m \<Longrightarrow> map_of (set_all m kvs) = map_of m ++ map_of (rev kvs)" for m
    by (induction kvs arbitrary: m) (auto simp: fun_eq_iff map_add_def split: option.splits)
  from this [of "[]"] have "map_of (set_all [] kvs) = map_of (rev kvs)" by simp
  then have "trie_at OverlayDB_ops (H (trie_node H (set_all [] kvs))) key d' = (Inr (case map_of (rev kvs) key of Some v \<Rightarrow> v | None \<Rightarrow> []), d')"
    using trie_at_found [of H, OF assms(1) d'(2) assms(5) d'(3)] by simp
  then show ?thesis using d0(1) d'(1) hash256_node [of H, OF assms(1) d'(2)] by (simp add: tbind_def)
qed

text \<open>A hash for the witnesses: without collisions on what is shorter than 32 bytes.\<close>

definition short_hash :: hash_fun where
  "short_hash b = (if length b < 32 then b @ replicate (31 - length b) 0 @ [of_nat (length b)] else replicate 32 0)"

lemma short_hash_length: "length (short_hash b) = 32"
  by (simp add: short_hash_def)

lemma short_hash_parts: "length b < 32 \<Longrightarrow> take (length b) (short_hash b) = b" "length b < 32 \<Longrightarrow> last (short_hash b) = of_nat (length b)"
  by (simp_all add: short_hash_def)

lemma short_hash_inj: "inj_on short_hash {b. length b < 32}"
proof (rule inj_onI)
  fix a b assume "a \<in> {b. length b < 32}" "b \<in> {b. length b < 32}" and eq: "short_hash a = short_hash b"
  then have l: "length a < 32" "length b < 32" by simp_all
  have "unat (of_nat (length a) :: byte) = unat (of_nat (length b) :: byte)"
    unfolding short_hash_parts(2) [OF l(1), symmetric] short_hash_parts(2) [OF l(2), symmetric] eq ..
  then have "length a = length b" using l by (simp only: unat_of_nat_small)
  then show "a = b" using short_hash_parts(1) [OF l(1)] short_hash_parts(1) [OF l(2)] eq by metis
qed

lemma single_pieces:
  assumes "length k \<le> 2" "length v \<le> 1"
  shows "pieces H [(k, v)] \<subseteq> {b. length b < 32}" "pieces H [] \<subseteq> {b. length b < 32}"
proof -
  have e: "length (rlp_enc (RStr [])) < 32" by (simp add: enc_bytes_def enc_hdr_def)
  then show "pieces H [] \<subseteq> {b. length b < 32}" by (auto simp: pieces_def node_simps)
  have "length (rlp_enc (node H [(l, v)])) < 32" if "length l \<le> 2" for l
  proof -
    have "length (hp True l) \<le> 2" using length_hp_le [of True l] that by simp
    then have "rlp_bound (node H [(l, v)]) \<le> 30" using assms(2) by (simp add: node_simps)
    then show ?thesis using rlp_bound_enc [of "node H [(l, v)]"] by simp
  qed
  then show "pieces H [(k, v)] \<subseteq> {b. length b < 32}" using e assms(1) by (auto simp: pieces_def sub_Cons node_simps)
qed

definition no_db :: OverlayDB where
  "no_db = \<lparr>m_main = Map.empty, m_aux = Map.empty, m_enforceRefs = False, m_db = None\<rparr>"

theorem trie_build_witness:
  "\<exists>root d'. tbind (trie_init OverlayDB_ops short_hash) (trie_inserts OverlayDB_ops short_hash [([0x12], [7]), ([0x12], [8])]) no_db = (Inr root, d') \<and>
    hash256 short_hash [([0x12], [8])] = Inr root \<and> trie_at OverlayDB_ops root [0x12] d' = (Inr [8], d')"
proof -
  have "seq_pieces short_hash [] [([0x12], [7]), ([0x12], [8])] \<subseteq> {b. length b < 32}"
    using single_pieces [of "[hi 0x12, lo 0x12]" "[7]" short_hash] single_pieces [of "[hi 0x12, lo 0x12]" "[8]" short_hash] by (simp add: trie_pieces_def)
  then have "inj_on short_hash (seq_pieces short_hash [] [([0x12], [7]), ([0x12], [8])])" by (rule inj_on_subset [OF short_hash_inj])
  from trie_build [of short_hash, OF short_hash_length this, of no_db "[0x12]"] show ?thesis by (simp add: pairs_ok_def no_db_def)
qed

subsection \<open>Committing to the store\<close>

definition store_ok :: "OverlayDB \<Rightarrow> disk \<Rightarrow> bool" where
  "store_ok d M \<longleftrightarrow> \<not> m_enforceRefs d \<and> m_db d = Some M \<and> (\<forall>h v c. m_main d h = Some (v, c) \<longrightarrow> v \<noteq> []) \<and> (\<forall>h \<in> dom (m_aux d). length h = 32)"

text \<open>Every node has as many references in memory as the trie has to it, or it is in the store.\<close>

definition accounted :: "hash_fun \<Rightarrow> OverlayDB \<Rightarrow> disk \<Rightarrow> bytes multiset \<Rightarrow> bool" where
  "accounted H d M R \<longleftrightarrow> (\<forall>e \<in># R. count R e \<le> refs_of d (H e) \<or> M (H e) = Some e)"

lemma store_ok_run: "store_ok d M \<Longrightarrow> [] \<notin># puts es \<Longrightarrow> store_ok (run OverlayDB_ops H es d) M"
proof (induction es arbitrary: d)
  case (Cons e es)
  have "store_ok (step OverlayDB_ops H e d) M"
    using Cons.prems by (cases e) (auto simp: store_ok_def OverlayDB_ops_def OverlayDB_kill_def MemoryDB_insert_def MemoryDB_kill_def
        split: option.splits if_splits)
  moreover have "[] \<notin># puts es" using Cons.prems(2) by (cases e) auto
  ultimately show ?case using Cons.IH by simp
qed simp

lemma accounted_run:
  assumes "inj_on H U" "[] \<notin> U" "set_mset M \<subseteq> U" "set_mset N \<subseteq> U" "accounted H d S M" "effect True U M N es" "\<forall>h. refs_of d h + length es < 2 ^ 32"
  shows "accounted H (run OverlayDB_ops H es d) S N"
  unfolding accounted_def
proof
  fix e assume e: "e \<in># N"
  have u: "set_mset (puts es) \<subseteq> U" "set_mset (kills es) \<subseteq> U" "puts es + M = kills es + N" using assms(6) by (auto simp: effect_def)
  have eU: "e \<in> U" using e assms(4) by auto
  have r: "refs_of d (H e) + count (puts es) e \<le> refs_of (run OverlayDB_ops H es d) (H e) + count (kills es) e"
    by (rule overlay.refs_run [OF assms(1) u(1,2) eU assms(7)])
  have c: "count (puts es) e + count M e = count (kills es) e + count N e" using arg_cong [OF u(3), of "\<lambda>A. count A e"] by simp
  have "count M e \<le> refs_of d (H e) \<or> S (H e) = Some e" using assms(5) by (cases "e \<in># M") (auto simp: accounted_def not_in_iff)
  then show "count N e \<le> refs_of (run OverlayDB_ops H es d) (H e) \<or> S (H e) = Some e" using r c by linarith
qed

lemma commit_batch_main:
  assumes "store_ok d M" "length h = 32"
  shows "commit_batch d h = (case m_main d h of Some (v, c) \<Rightarrow> if c \<noteq> 0 then Some v else None | None \<Rightarrow> None)"
proof -
  have "m_aux d (butlast h) = None" using assms by (force simp: store_ok_def)
  then show ?thesis by (simp add: commit_batch_def)
qed

lemma commit_lookup:
  assumes "store_ok d M" "accounted H d M R" "served OverlayDB_ops H d R" "\<And>b. length (H b) = 32" "[] \<notin># R" "st 0"
  shows "\<exists>d' M'. OverlayDB_commit st d = Some d' \<and> m_main d' = Map.empty \<and> store_ok d' M' \<and> served OverlayDB_ops H d' R \<and> accounted H d' M' R"
proof -
  let ?M = "M ++ commit_batch d" let ?d = "d\<lparr>m_main := Map.empty, m_aux := Map.empty, m_db := Some ?M\<rparr>"
  have db: "m_db d = Some M" "\<not> m_enforceRefs d" using assms(1) by (simp_all add: store_ok_def)
  have "OverlayDB_commit st d = Some ?d" using db assms(6) by (simp add: OverlayDB_commit_def commit_tries_first del: upt_rec_numeral)
  moreover have st: "?M (H e) = Some e" if e: "e \<in># R" for e
  proof -
    have "0 < count R e" using e by simp
    then have k: "0 < refs_of d (H e) \<or> M (H e) = Some e" using bspec [OF assms(2) [unfolded accounted_def] e] by linarith
    have l: "OverlayDB_lookup d (H e) = e" using assms(3) e by (simp add: served_def OverlayDB_ops_def)
    note b = commit_batch_main [OF assms(1) assms(4), of e]
    show ?thesis
    proof (cases "m_main d (H e)")
      case None
      then show ?thesis using k b by (simp add: refs_of_def map_add_def)
    next
      case (Some vc)
      obtain v c where vc: "vc = (v, c)" by fastforce
      have "v \<noteq> []" using assms(1) Some by (auto simp: store_ok_def vc)
      then have "v = e" using l db Some by (simp add: OverlayDB_lookup_def MemoryDB_lookup_unforced vc)
      then show ?thesis using k b Some by (cases "c = 0") (simp_all add: refs_of_def map_add_def vc)
    qed
  qed
  moreover have "served OverlayDB_ops H ?d R"
    using st db by (simp add: served_def OverlayDB_ops_def OverlayDB_lookup_def MemoryDB_lookup_def live_def LevelDB_lookup_def)
  moreover have "store_ok ?d ?M" "accounted H ?d ?M R" using st db by (simp_all add: store_ok_def accounted_def)
  ultimately show ?thesis by (intro exI [of _ ?d] exI [of _ ?M]) simp
qed

subsection \<open>A sequence of operations\<close>

datatype trie_op = Insert bytes bytes | Remove bytes

fun trie_do :: "'d db_ops \<Rightarrow> hash_fun \<Rightarrow> trie_op list \<Rightarrow> bytes \<Rightarrow> ('d, bytes) tr" where
  "trie_do ops H [] root = tret root"
| "trie_do ops H (Insert k v # os) root = tbind (trie_insert ops H root k v) (trie_do ops H os)"
| "trie_do ops H (Remove k # os) root = tbind (trie_remove ops H root k) (trie_do ops H os)"

fun op_map :: "trie_op \<Rightarrow> (bytes \<times> bytes) list \<Rightarrow> (bytes \<times> bytes) list" where
  "op_map (Insert k v) m = om_set k v m"
| "op_map (Remove k) m = om_erase k m"

fun op_ok :: "nat \<Rightarrow> trie_op \<Rightarrow> bool" where
  "op_ok n (Insert k v) \<longleftrightarrow> length k = n \<and> length v < 2 ^ 59"
| "op_ok n (Remove k) \<longleftrightarrow> length k = n"

fun ops_pieces :: "hash_fun \<Rightarrow> trie_op list \<Rightarrow> (bytes \<times> bytes) list \<Rightarrow> bytes set" where
  "ops_pieces H [] m = trie_pieces H m"
| "ops_pieces H (x # os) m = trie_pieces H m \<union> ops_pieces H os (op_map x m)"

definition level_map :: "nat \<Rightarrow> (bytes \<times> bytes) list \<Rightarrow> bool" where
  "level_map n m \<longleftrightarrow> bmap_ok m \<and> (\<forall>p \<in> set m. length (fst p) = n)"

lemma level_map_op: "level_map n m \<Longrightarrow> op_ok n x \<Longrightarrow> n < 2 ^ 30 - 1 \<Longrightarrow> level_map n (op_map x m)"
proof (cases x)
  case (Insert k v)
  assume a: "level_map n m" "op_ok n x" "n < 2 ^ 30 - 1"
  have "fst ` set (om_set k v m) \<subseteq> {k. length k = n}" using a by (auto simp: set_om_set level_map_def Insert)
  then show ?thesis using a bmap_ok_set [of m k v] by (auto simp: level_map_def Insert)
qed (auto simp: level_map_def bmap_ok_erase)

lemma ops_pieces_first: "trie_pieces H m \<subseteq> ops_pieces H os m"
  by (cases os) auto

lemma ops_pieces_ne: "[] \<notin> ops_pieces H os m"
  by (induction os arbitrary: m) (auto simp: trie_pieces_def pieces_def dest: sym)

lemma ops_pieces_last: "trie_pieces H (fold op_map os m) \<subseteq> ops_pieces H os m"
  by (induction os arbitrary: m) auto

lemma effect_mono: "effect F U M N es \<Longrightarrow> U \<subseteq> V \<Longrightarrow> effect F V M N es"
  by (auto simp: effect_def)

context node_store
begin

lemma refs_run_le: "\<forall>h. refs d h + length es < 2 ^ 32 \<Longrightarrow> refs (run ops H es d) h \<le> refs d h + length es"
proof (induction es arbitrary: d)
  case (Cons e es)
  have b: "refs d l + 1 + length es < 2 ^ 32" for l using spec [OF Cons.prems, of l] by simp
  have "refs d l + 1 < 2 ^ 32" for l using b [of l] by linarith
  from refs_insert [OF this] have s: "refs (step ops H e d) l \<le> refs d l + 1" for l by (cases e) (auto simp: refs_kill le_diff_conv)
  have "refs (step ops H e d) l + length es < 2 ^ 32" for l using b [of l] s [of l] by linarith
  then show ?case using Cons.IH [of "step ops H e d"] s [of h] by simp
qed simp

lemma trie_op_run:
  assumes H: "\<And>b. length (H b) = 32" and inj: "inj_on H (trie_pieces H m \<union> trie_pieces H (op_map x m))"
    and ok: "level_map n m" "op_ok n x" "n < 2 ^ 30 - 1" "ok d" "served ops H d (trie_refs H m)"
  shows "\<exists>es. trie_do ops H [x] (H (trie_node H m)) d = (Inr (H (trie_node H (op_map x m))), run ops H es d) \<and>
    effect True (trie_pieces H m \<union> trie_pieces H (op_map x m)) (trie_refs H m) (trie_refs H (op_map x m)) es \<and> length es \<le> 8 * n + 6"
proof (cases x)
  case (Insert k v)
  have m: "bmap_ok m" "\<forall>p \<in> set m. length (fst p) = length k" "length k = n" "length v < 2 ^ 59" using ok(1,2) by (simp_all add: level_map_def Insert)
  from trie_insert_run [of H, OF H inj [unfolded Insert op_map.simps] m(1) _ m(4) ok(4,5)] m(3) ok(3)
  obtain es where es: "trie_insert ops H (H (trie_node H m)) k v d = (Inr (H (trie_node H (om_set k v m))), run ops H es d)"
      "effect (\<forall>p \<in> set m. length (fst p) = length k) (trie_pieces H m \<union> trie_pieces H (om_set k v m)) (trie_refs H m) (trie_refs H (om_set k v m)) es"
      "length es \<le> 8 * length k + 6"
    by blast
  from effect_weaken [OF es(2)] m(2) have "effect True (trie_pieces H m \<union> trie_pieces H (om_set k v m)) (trie_refs H m) (trie_refs H (om_set k v m)) es" by blast
  then show ?thesis using es(1,3) m(3) by (intro exI [of _ es]) (simp add: Insert tbind_def)
next
  case (Remove k)
  have m: "bmap_ok m" "\<forall>p \<in> set m. length (fst p) = length k" "length k = n" using ok(1,2) by (simp_all add: level_map_def Remove)
  note rr = trie_remove_run [of H, OF H inj [unfolded Remove op_map.simps] m(1) _ m(2) ok(4,5)]
  show ?thesis
  proof (cases "map_of m k")
    case None
    then have e: "om_erase k m = m" by (intro om_erase_notin) (simp add: map_of_eq_None_iff)
    have "trie_remove ops H (H (trie_node H m)) k d = (Inr (H (trie_node H m)), d)" using rr None m(3) ok(3) by simp
    then show ?thesis using effect_Nil by (intro exI [of _ "[]"]) (simp add: Remove tbind_def e)
  next
    case (Some v)
    then obtain es where "trie_remove ops H (H (trie_node H m)) k d = (Inr (H (trie_node H (om_erase k m))), run ops H es d)"
        "effect True (trie_pieces H m \<union> trie_pieces H (om_erase k m)) (trie_refs H m) (trie_refs H (om_erase k m)) es" "length es \<le> 6 * length k + 5"
      using rr m(3) ok(3) by auto
    then show ?thesis using m(3) by (intro exI [of _ es]) (simp add: Remove tbind_def)
  qed
qed

lemma trie_do_Cons: "trie_do ops H (x # os) root = tbind (trie_do ops H [x] root) (trie_do ops H os)"
  by (cases x) (auto simp: tbind_def fun_eq_iff split: prod.splits sum.splits)

lemma trie_do_run:
  assumes H: "\<And>b. length (H b) = 32" and "inj_on H (ops_pieces H os m)" "level_map n m" "list_all (op_ok n) os" "n < 2 ^ 30 - 1" "ok d" "served ops H d (trie_refs H m)"
  shows "\<exists>es. trie_do ops H os (H (trie_node H m)) d = (Inr (H (trie_node H (fold op_map os m))), run ops H es d) \<and>
    effect True (ops_pieces H os m) (trie_refs H m) (trie_refs H (fold op_map os m)) es \<and> length es \<le> length os * (8 * n + 6)"
  using assms(2-)
proof (induction os arbitrary: m d)
  case Nil
  then show ?case using effect_Nil by (intro exI [of _ "[]"]) simp
next
  case (Cons x os)
  let ?m = "op_map x m" let ?U = "trie_pieces H m \<union> trie_pieces H ?m"
  have sub: "?U \<subseteq> ops_pieces H (x # os) m" using ops_pieces_first [of H ?m os] by auto
  have xok: "op_ok n x" "list_all (op_ok n) os" using Cons.prems(3) by simp_all
  have inj: "inj_on H ?U" "inj_on H (ops_pieces H os ?m)" using Cons.prems(1) sub by (auto intro: inj_on_subset)
  obtain es where es: "trie_do ops H [x] (H (trie_node H m)) d = (Inr (H (trie_node H ?m)), run ops H es d)"
      "effect True ?U (trie_refs H m) (trie_refs H ?m) es" "length es \<le> 8 * n + 6"
    using trie_op_run [of H, OF H inj(1) Cons.prems(2) xok(1) Cons.prems(4-6)] by blast
  have nU: "[] \<notin> ?U" using ops_pieces_ne [of H "x # os" m] sub by blast
  have sv: "served ops H (run ops H es d) (trie_refs H ?m)"
    by (rule effect_served [OF Cons.prems(5) inj(1) nU _ Cons.prems(6) es(2)]) (use trie_refs_pieces in auto)
  obtain fs where fs: "trie_do ops H os (H (trie_node H ?m)) (run ops H es d) = (Inr (H (trie_node H (fold op_map os ?m))), run ops H fs (run ops H es d))"
      "effect True (ops_pieces H os ?m) (trie_refs H ?m) (trie_refs H (fold op_map os ?m)) fs" "length fs \<le> length os * (8 * n + 6)"
    using Cons.IH [OF inj(2) level_map_op [OF Cons.prems(2) xok(1) Cons.prems(4)] xok(2) Cons.prems(4) ok_run [OF Cons.prems(5)] sv] by blast
  have "effect True (ops_pieces H (x # os) m) (trie_refs H m) (trie_refs H (fold op_map os ?m)) (es @ fs)"
    by (rule effect_append [OF effect_mono [OF es(2) sub] effect_mono [OF fs(2)]]) simp
  moreover have "trie_do ops H (x # os) (H (trie_node H m)) d = (Inr (H (trie_node H (fold op_map os ?m))), run ops H (es @ fs) d)"
    unfolding trie_do_Cons [of _ _ os] using es(1) fs(1) by (simp add: tbind_def del: trie_do.simps)
  ultimately show ?case using es(3) fs(3) by (intro exI [of _ "es @ fs"]) simp
qed

end

text \<open>The trie of a map over a database: everything can be read, and the references are there that keep it.\<close>

definition trie_held :: "hash_fun \<Rightarrow> OverlayDB \<Rightarrow> disk \<Rightarrow> (bytes \<times> bytes) list \<Rightarrow> bool" where
  "trie_held H d M m \<longleftrightarrow> store_ok d M \<and> served OverlayDB_ops H d (trie_refs H m) \<and> accounted H d M (trie_refs H m)"

lemma trie_held_run:
  assumes H: "\<And>b. length (H b) = 32" and "inj_on H (ops_pieces H os m)" "level_map n m" "list_all (op_ok n) os" "n < 2 ^ 20"
    and held: "trie_held H d M m" and b: "\<forall>h. refs_of d h + length os * (8 * n + 6) < 2 ^ 32"
  shows "\<exists>d1. trie_do OverlayDB_ops H os (H (trie_node H m)) d = (Inr (H (trie_node H (fold op_map os m))), d1) \<and> trie_held H d1 M (fold op_map os m) \<and>
    (\<forall>h. refs_of d1 h \<le> refs_of d h + length os * (8 * n + 6))"
proof -
  let ?U = "ops_pieces H os m" and ?m = "fold op_map os m"
  have h: "store_ok d M" "served OverlayDB_ops H d (trie_refs H m)" "accounted H d M (trie_refs H m)" using held by (simp_all add: trie_held_def)
  have nf: "\<not> m_enforceRefs d" using h(1) by (simp add: store_ok_def)
  have n: "n < 2 ^ 30 - 1" using assms(5) by simp
  obtain es where es: "trie_do OverlayDB_ops H os (H (trie_node H m)) d = (Inr (H (trie_node H ?m)), run OverlayDB_ops H es d)"
      "effect True ?U (trie_refs H m) (trie_refs H ?m) es" "length es \<le> length os * (8 * n + 6)"
    using overlay.trie_do_run [of H, OF H assms(2-4) n nf h(2)] by blast
  have np: "[] \<notin># puts es" using es(2) ops_pieces_ne [of H os m] by (auto simp: effect_def)
  have mU: "set_mset (trie_refs H m) \<subseteq> ?U" "set_mset (trie_refs H ?m) \<subseteq> ?U"
    using trie_refs_pieces [of H] ops_pieces_first [of H m os] ops_pieces_last [of H os m] by blast+
  have bd: "\<forall>h. refs_of d h + length es < 2 ^ 32"
  proof
    fix h
    show "refs_of d h + length es < 2 ^ 32" using spec [OF b, of h] es(3) by linarith
  qed
  have "accounted H (run OverlayDB_ops H es d) M (trie_refs H ?m)" by (rule accounted_run [OF assms(2) ops_pieces_ne mU h(3) es(2) bd])
  moreover have "served OverlayDB_ops H (run OverlayDB_ops H es d) (trie_refs H ?m)"
    by (rule overlay.effect_served [OF nf assms(2) ops_pieces_ne mU(1) h(2) es(2)])
  moreover have "refs_of (run OverlayDB_ops H es d) h \<le> refs_of d h + length os * (8 * n + 6)" for h
    using overlay.refs_run_le [OF bd, of H h] es(3) by linarith
  ultimately show ?thesis using es(1) store_ok_run [OF h(1) np, of H] by (auto simp: trie_held_def)
qed

lemma level_map_ops: "level_map n m \<Longrightarrow> list_all (op_ok n) os \<Longrightarrow> n < 2 ^ 30 - 1 \<Longrightarrow> level_map n (fold op_map os m)"
  by (induction os arbitrary: m) (simp_all add: level_map_op)

text \<open>
  C31: When a trie whose keys have one length takes a sequence of insertions and removals and the database is committed, every node of
  the new trie is in the store: the reference counts let no needed node be dropped. The root is the one that \<open>hash256\<close> computes of the
  resulting map, with nothing left in memory every lookup gives the value of that map, and the next sequence can start from there.
\<close>

theorem trie_commit:
  assumes "\<And>b. length (H b) = 32" "inj_on H (ops_pieces H os m)" "level_map n m" "list_all (op_ok n) os" "n < 2 ^ 20"
    and "hash256 H m = Inr root" "trie_held H d M m" "\<forall>h. refs_of d h + length os * (8 * n + 6) < 2 ^ 32" "st 0" "length k < 2 ^ 30 - 1"
  shows "\<exists>root' d1 d2 M'. trie_do OverlayDB_ops H os root d = (Inr root', d1) \<and> OverlayDB_commit st d1 = Some d2 \<and>
    hash256 H (fold op_map os m) = Inr root' \<and> m_main d2 = Map.empty \<and> trie_held H d2 M' (fold op_map os m) \<and>
    trie_at OverlayDB_ops root' k d2 = (Inr (case map_of (fold op_map os m) k of Some w \<Rightarrow> w | None \<Rightarrow> []), d2)"
proof -
  let ?m = "fold op_map os m"
  have lm: "level_map n ?m" using level_map_ops [OF assms(3,4)] assms(5) by simp
  have ok: "bmap_ok m" "bmap_ok ?m" using assms(3) lm by (simp_all add: level_map_def)
  have root: "root = H (trie_node H m)" using hash256_node [of H, OF assms(1) ok(1)] assms(6) by simp
  obtain d1 where d1: "trie_do OverlayDB_ops H os root d = (Inr (H (trie_node H ?m)), d1)" "trie_held H d1 M ?m"
    using trie_held_run [of H, OF assms(1-5,7,8)] unfolding root by blast
  have "[] \<notin># trie_refs H ?m" using trie_refs_pieces [of H ?m] ops_pieces_last [of H os m] ops_pieces_ne [of H os m] by blast
  from commit_lookup [where st = st and H = H, OF _ _ _ assms(1) this assms(9)] d1(2)
  obtain d2 M' where d2: "OverlayDB_commit st d1 = Some d2" "m_main d2 = Map.empty" "trie_held H d2 M' ?m" unfolding trie_held_def by blast
  have "trie_at OverlayDB_ops (H (trie_node H ?m)) k d2 = (Inr (case map_of ?m k of Some w \<Rightarrow> w | None \<Rightarrow> []), d2)"
    by (rule trie_at_found [of H, OF assms(1) ok(2) assms(10)]) (use d2(3) in \<open>simp add: trie_held_def\<close>)
  then show ?thesis using d1(1) d2 hash256_node [of H, OF assms(1) ok(2)] by blast
qed

definition empty_db :: OverlayDB where
  "empty_db = \<lparr>m_main = [short_hash [128] \<mapsto> ([128], 1)], m_aux = Map.empty, m_enforceRefs = False, m_db = Some Map.empty\<rparr>"

theorem trie_commit_witness:
  "\<exists>root' d1 d2 M'. trie_do OverlayDB_ops short_hash [Insert [0x12] [7], Remove [0x12], Insert [0x12] [8]] (short_hash [128]) empty_db = (Inr root', d1) \<and>
    OverlayDB_commit (\<lambda>_. True) d1 = Some d2 \<and> hash256 short_hash [([0x12], [8])] = Inr root' \<and> m_main d2 = Map.empty \<and>
    trie_held short_hash d2 M' [([0x12], [8])] \<and> trie_at OverlayDB_ops root' [0x12] d2 = (Inr [8], d2)"
proof -
  let ?os = "[Insert [0x12] [7], Remove [0x12], Insert [0x12] [8]]"
  have n: "trie_node short_hash [] = [128]" by (simp add: trie_node_def node_simps enc_bytes_def enc_hdr_def)
  have r: "trie_refs short_hash [] = {#[128]#}" by (simp add: trie_refs_def n nrefs_forms)
  have "ops_pieces short_hash ?os [] \<subseteq> {b. length b < 32}"
    using single_pieces [of "[hi 0x12, lo 0x12]" "[7]" short_hash] single_pieces [of "[hi 0x12, lo 0x12]" "[8]" short_hash]
    by (simp add: trie_pieces_def om_erase_def)
  then have inj: "inj_on short_hash (ops_pieces short_hash ?os [])" by (rule inj_on_subset [OF short_hash_inj])
  have b: "bmap_ok []" "level_map 1 []" by (simp_all add: bmap_ok_def level_map_def)
  have h: "hash256 short_hash [] = Inr (short_hash [128])" using hash256_node [of short_hash, OF short_hash_length b(1)] by (simp add: n)
  have s: "trie_held short_hash empty_db Map.empty []"
    by (simp add: trie_held_def store_ok_def empty_db_def r served_def accounted_def refs_of_def OverlayDB_ops_def OverlayDB_lookup_def MemoryDB_lookup_def live_def)
  have "\<forall>h. refs_of empty_db h + length ?os * (8 * 1 + 6) < 2 ^ 32" by (simp add: refs_of_def empty_db_def)
  from trie_commit [of short_hash, OF short_hash_length inj b(2) _ _ h s this, where st = "\<lambda>_. True" and k = "[0x12]"]
  show ?thesis by (simp add: om_erase_def)
qed

text \<open>
  C32: \<open>OverlayDB::commit\<close> on a store succeeds exactly when its first attempt to write does: the batch has been moved away when an attempt
  fails, so the nine attempts after it cannot succeed, and the program exits.
\<close>

theorem commit_first_attempt:
  assumes "m_db d = Some M"
  shows "OverlayDB_commit st d =
    (if st 0 then Some (d\<lparr>m_main := Map.empty, m_aux := Map.empty, m_db := Some (M ++ commit_batch d)\<rparr>) else None)"
  using assms by (simp add: OverlayDB_commit_def commit_tries_first del: upt_rec_numeral)

theorem commit_first_attempt_witness: "OverlayDB_commit (\<lambda>i. i \<noteq> 0) empty_db = None"
  using commit_first_attempt [of empty_db Map.empty "\<lambda>i. i \<noteq> 0"] by (simp add: empty_db_def)

end
