(* ===== verification/World_Storage.thy ===== *)
theory World_Storage
  imports Trie_Properties World_Properties
begin

section \<open>Storage in the database (\<open>libethereum/State.cpp\<close>, \<open>libdevcore/TrieDB.h\<close>)\<close>

text \<open>
  What \<open>World_State\<close> has as lookups of an account's storage: the secure trie, whose keys are hashed (\<open>FatGenericTrieDB\<close>, which
  also notes the key under its hash), the loop of \<open>dev::eth::commit\<close> over the storage of an account, and the reading of
  \<open>State::storage\<close>. The map of a trie stands for a storage when it has the RLP form of every value but zero (\<open>storage_map\<close>).
\<close>

subsection \<open>The secure trie\<close>

definition key_bytes :: "u256 \<Rightarrow> bytes" where
  "key_bytes k = toBigEndian 32 (unat k)"

definition secure_at :: "hash_fun \<Rightarrow> bytes \<Rightarrow> bytes \<Rightarrow> (OverlayDB, bytes) tr" where
  "secure_at H root key = trie_at OverlayDB_ops root (H key)"

definition secure_insert :: "hash_fun \<Rightarrow> bytes \<Rightarrow> bytes \<Rightarrow> bytes \<Rightarrow> (OverlayDB, bytes) tr" where
  "secure_insert H root key v =
     tbind (trie_insert OverlayDB_ops H root (H key) v) (\<lambda>root. tbind (tmod (insertAux (H key) key)) (\<lambda>_. tret root))"

definition secure_remove :: "hash_fun \<Rightarrow> bytes \<Rightarrow> bytes \<Rightarrow> (OverlayDB, bytes) tr" where
  "secure_remove H root key = trie_remove OverlayDB_ops H root (H key)"

definition secure_open :: "hash_fun \<Rightarrow> bytes \<Rightarrow> (OverlayDB, bytes) tr" where
  "secure_open H root = setRoot OverlayDB_ops H root True"

subsection \<open>Committing and reading a storage\<close>

fun commit_overlay :: "hash_fun \<Rightarrow> (u256 \<times> u256) list \<Rightarrow> bytes \<Rightarrow> (OverlayDB, bytes) tr" where
  "commit_overlay H [] root = tret root"
| "commit_overlay H ((k, v) # js) root =
     tbind (if v \<noteq> 0 then tbind (tlift (rlp_unsigned (unat v))) (secure_insert H root (key_bytes k))
            else secure_remove H root (key_bytes k)) (commit_overlay H js)"

definition commit_storage :: "hash_fun \<Rightarrow> bytes \<Rightarrow> (u256 \<times> u256) list \<Rightarrow> (OverlayDB, bytes) tr" where
  "commit_storage H root js = tbind (secure_open H root) (\<lambda>root. tbind (commit_overlay H js root) (trie_root OverlayDB_ops))"

definition storage_read :: "hash_fun \<Rightarrow> bytes \<Rightarrow> u256 \<Rightarrow> (OverlayDB, u256) tr" where
  "storage_read H root k =
     tbind (secure_open H root) (\<lambda>root. tbind (secure_at H root (key_bytes k)) (\<lambda>payload.
     if payload \<noteq> [] then tlift (ebind (RLP payload VeryStrict) (\<lambda>r. ebind (toInt 32 Strict r) (\<lambda>n. Inr (of_nat n)))) else tret 0))"

subsection \<open>The map of a storage\<close>

definition value_bytes :: "u256 \<Rightarrow> bytes" where
  "value_bytes v = rlp_enc (int_item (unat v))"

definition storage_map :: "hash_fun \<Rightarrow> (bytes \<times> bytes) list \<Rightarrow> (u256 \<Rightarrow> u256) \<Rightarrow> bool" where
  "storage_map H m f \<longleftrightarrow> level_map 32 m \<and> fst ` set m \<subseteq> range (\<lambda>k. H (key_bytes k)) \<and>
     (\<forall>k. map_of m (H (key_bytes k)) = (if f k = 0 then None else Some (value_bytes (f k))))"

definition storage_op :: "hash_fun \<Rightarrow> u256 \<times> u256 \<Rightarrow> trie_op" where
  "storage_op H kv = (case kv of (k, v) \<Rightarrow> if v = 0 then Remove (H (key_bytes k)) else Insert (H (key_bytes k)) (value_bytes v))"

lemma unat_256: "unat (v :: u256) < 256 ^ 32"
  using unsigned_less [of v] by simp

lemma key_bytes_simps [simp]: "length (key_bytes k) = 32" "key_bytes j = key_bytes k \<longleftrightarrow> j = k"
proof -
  show "key_bytes j = key_bytes k \<longleftrightarrow> j = k"
  proof
    assume "key_bytes j = key_bytes k"
    then have "fromBigEndian (toBigEndian 32 (unat j)) = fromBigEndian (toBigEndian 32 (unat k))" by (simp add: key_bytes_def)
    then show "j = k" using unat_256 [of j] unat_256 [of k] by (simp add: fromBigEndian_toBigEndian word_unat_eq_iff)
  qed simp
qed (simp add: key_bytes_def)

lemma value_bytes_simps: "value_bytes v \<noteq> []" "length (value_bytes v) \<le> 41" "rlp_unsigned (unat v) = Inr (value_bytes v)"
    "ebind (RLP (value_bytes v) VeryStrict) (\<lambda>r. ebind (toInt 32 Strict r) (\<lambda>n. Inr (of_nat n))) = Inr v"
proof -
  have "bytesRequired (unat v) \<le> 32" using unat_256 [of v] by (simp add: bytesRequired_le_iff)
  then have l: "length (value_bytes v) \<le> 41" using enc_str_length [of "toBigEndian (bytesRequired (unat v)) (unat v)"] by (simp add: value_bytes_def int_item_def)
  then have f: "rlp_fits (int_item (unat v))" by (simp add: rlp_fits_def value_bytes_def rlp_max_def)
  show "value_bytes v \<noteq> []" "length (value_bytes v) \<le> 41" using l by (simp_all add: value_bytes_def)
  show "rlp_unsigned (unat v) = Inr (value_bytes v)"
    using append_bigint_emit [OF unat_256 [of v]] emit_out [OF f] by (simp add: rlp_unsigned_def value_bytes_def)
  show "ebind (RLP (value_bytes v) VeryStrict) (\<lambda>r. ebind (toInt 32 Strict r) (\<lambda>n. Inr (of_nat n))) = Inr v"
    using RLP_exact(1) [OF f] toInt_int_item [OF f unat_256] by (simp add: value_bytes_def)
qed

lemma storage_op_ok: "(\<And>b. length (H b) = 32) \<Longrightarrow> op_ok 32 (storage_op H kv)"
  using value_bytes_simps(2) [of "snd kv"] by (cases kv) (auto simp: storage_op_def)

lemma storage_map_op:
  assumes H: "\<And>b. length (H b) = 32" and inj: "inj_on H {b. length b = 32}" and m: "storage_map H m f"
  shows "storage_map H (op_map (storage_op H (k, v)) m) (f(k := v))"
proof -
  have lm: "level_map 32 m" and o: "om_ok m" and d: "fst ` set m \<subseteq> range (\<lambda>k. H (key_bytes k))"
    using m by (simp_all add: storage_map_def level_map_def bmap_ok_def)
  have eq: "H (key_bytes j) = H (key_bytes k) \<longleftrightarrow> j = k" for j using inj by (auto dest: inj_onD)
  have "level_map 32 (op_map (storage_op H (k, v)) m)" by (rule level_map_op [OF lm storage_op_ok [OF H]]) simp
  moreover have "fst ` set (op_map (storage_op H (k, v)) m) \<subseteq> range (\<lambda>k. H (key_bytes k))"
    using d by (auto simp: storage_op_def set_om_set)
  ultimately show ?thesis using m o eq by (auto simp: storage_map_def storage_op_def)
qed

lemma storage_map_ops:
  assumes H: "\<And>b. length (H b) = 32" and inj: "inj_on H {b. length b = 32}" and m: "storage_map H m f"
  shows "storage_map H (fold op_map (map (storage_op H) js) m) (fold (\<lambda>(k, v) f. f(k := v)) js f)"
  using m
proof (induction js arbitrary: m f)
  case (Cons kv js)
  then show ?case using Cons.IH [OF storage_map_op [of H, OF H inj Cons.prems, of "fst kv" "snd kv"]] by (cases kv) simp
qed simp

lemma fold_updates: "distinct (map fst js) \<Longrightarrow> fold (\<lambda>(k, v) f. f(k := v)) js f = (\<lambda>k. case map_of js k of Some v \<Rightarrow> v | None \<Rightarrow> f k)"
proof (induction js arbitrary: f)
  case (Cons kv js)
  obtain k v where kv: "kv = (k, v)" by fastforce
  have "map_of js k = None" using Cons.prems by (simp add: kv map_of_eq_None_iff)
  then show ?case using Cons by (auto simp: kv fun_eq_iff split: option.splits)
qed simp

subsection \<open>The operations on a held trie\<close>

lemma trie_held_aux:
  assumes "length h = 32"
  shows "trie_held H (insertAux h v d) M m \<longleftrightarrow> trie_held H d M m" "refs_of (insertAux h v d) = refs_of d"
proof -
  have s: "m_main (insertAux h v d) = m_main d" "m_enforceRefs (insertAux h v d) = m_enforceRefs d" "m_db (insertAux h v d) = m_db d"
    by (simp_all add: insertAux_def)
  have "OverlayDB_lookup (insertAux h v d) = OverlayDB_lookup d"
    by (rule ext) (simp only: OverlayDB_lookup_def MemoryDB_lookup_def live_def s)
  moreover show r: "refs_of (insertAux h v d) = refs_of d" by (simp add: fun_eq_iff refs_of_def insertAux_def)
  moreover have "store_ok (insertAux h v d) M \<longleftrightarrow> store_ok d M" using assms by (auto simp: store_ok_def insertAux_def)
  ultimately show "trie_held H (insertAux h v d) M m \<longleftrightarrow> trie_held H d M m"
    by (simp add: trie_held_def served_def OverlayDB_ops_def accounted_def)
qed

lemma held_root:
  assumes "trie_held H d M m"
  shows "OverlayDB_lookup d (H (trie_node H m)) = trie_node H m" "trie_node H m \<noteq> []" "OverlayDB_exists d (H (trie_node H m))"
proof -
  show l: "OverlayDB_lookup d (H (trie_node H m)) = trie_node H m" using assms by (simp add: trie_held_def trie_refs_def served_def OverlayDB_ops_def)
  show n: "trie_node H m \<noteq> []" by (simp add: trie_node_def)
  show "OverlayDB_exists d (H (trie_node H m))"
    using l n by (auto simp: OverlayDB_exists_def OverlayDB_lookup_def MemoryDB_lookup_def MemoryDB_exists_def LevelDB_exists_def LevelDB_lookup_def Let_def
        split: option.splits if_splits)
qed

lemma secure_open_held: "trie_held H d M m \<Longrightarrow> secure_open H (H (trie_node H m)) d = (Inr (H (trie_node H m)), d)"
  using held_root [of H d M m] by (simp add: secure_open_def setRoot_def tbind_def db_node_def OverlayDB_ops_def)

lemma trie_do_one: "trie_do ops H [Insert k v] root = trie_insert ops H root k v" "trie_do ops H [Remove k] root = trie_remove ops H root k"
  by (simp_all add: fun_eq_iff tbind_def split: prod.splits sum.splits)

lemma storage_op_held:
  assumes H: "\<And>b. length (H b) = 32" and inj: "inj_on H (ops_pieces H [storage_op H (k, v)] m)" and m: "level_map 32 m" "trie_held H d M m"
    and b: "\<forall>h. refs_of d h + 262 < 2 ^ 32"
  shows "\<exists>d1. commit_overlay H [(k, v)] (H (trie_node H m)) d = (Inr (H (trie_node H (op_map (storage_op H (k, v)) m))), d1) \<and>
    trie_held H d1 M (op_map (storage_op H (k, v)) m) \<and> (\<forall>h. refs_of d1 h \<le> refs_of d h + 262)"
proof -
  let ?x = "storage_op H (k, v)"
  have "\<exists>d1. trie_do OverlayDB_ops H [?x] (H (trie_node H m)) d = (Inr (H (trie_node H (fold op_map [?x] m))), d1) \<and> trie_held H d1 M (fold op_map [?x] m) \<and>
      (\<forall>h. refs_of d1 h \<le> refs_of d h + length [?x] * (8 * 32 + 6))"
    by (rule trie_held_run [of H, OF H inj m(1) _ _ m(2)]) (use storage_op_ok [of H, OF H] b in auto)
  then obtain d1 where d1: "trie_do OverlayDB_ops H [?x] (H (trie_node H m)) d = (Inr (H (trie_node H (op_map ?x m))), d1)" "trie_held H d1 M (op_map ?x m)"
      "\<forall>h. refs_of d1 h \<le> refs_of d h + 262"
    by auto
  show ?thesis
  proof (cases "v = 0")
    case True
    then show ?thesis using d1 by (intro exI [of _ d1]) (simp add: storage_op_def trie_do_one secure_remove_def tbind_def del: trie_do.simps)
  next
    case False
    let ?d = "insertAux (H (key_bytes k)) (key_bytes k) d1"
    have "commit_overlay H [(k, v)] (H (trie_node H m)) d = (Inr (H (trie_node H (op_map ?x m))), ?d)"
      using d1(1) False value_bytes_simps(3) [of v] by (simp add: storage_op_def trie_do_one secure_insert_def tbind_def del: trie_do.simps)
    then show ?thesis using d1(2,3) trie_held_aux [OF H] by (intro exI [of _ ?d]) simp
  qed
qed

lemma commit_overlay_Cons: "commit_overlay H (kv # js) root = tbind (commit_overlay H [kv] root) (commit_overlay H js)"
  by (cases kv) (simp add: fun_eq_iff tbind_def split: prod.splits sum.splits)

lemma commit_overlay_held:
  assumes H: "\<And>b. length (H b) = 32" and "inj_on H (ops_pieces H (map (storage_op H) js) m)" "level_map 32 m" "trie_held H d M m"
    and "\<forall>h. refs_of d h + length js * 262 < 2 ^ 32"
  shows "\<exists>d1. commit_overlay H js (H (trie_node H m)) d = (Inr (H (trie_node H (fold op_map (map (storage_op H) js) m))), d1) \<and>
    trie_held H d1 M (fold op_map (map (storage_op H) js) m)"
  using assms(2-)
proof (induction js arbitrary: m d)
  case (Cons kv js)
  obtain k v where kv: "kv = (k, v)" by fastforce
  let ?x = "storage_op H (k, v)" let ?m = "op_map ?x m"
  have inj: "inj_on H (ops_pieces H [?x] m)" "inj_on H (ops_pieces H (map (storage_op H) js) ?m)"
    using Cons.prems(1) ops_pieces_first [of H ?m "map (storage_op H) js"] by (auto simp: kv intro: inj_on_subset)
  have "refs_of d h + 262 < 2 ^ 32" for h using spec [OF Cons.prems(4), of h] by simp
  then obtain d1 where d1: "commit_overlay H [(k, v)] (H (trie_node H m)) d = (Inr (H (trie_node H ?m)), d1)" "trie_held H d1 M ?m"
      "\<forall>h. refs_of d1 h \<le> refs_of d h + 262"
    using storage_op_held [of H, OF H inj(1) Cons.prems(2,3)] by blast
  have lm: "level_map 32 ?m" by (rule level_map_op [OF Cons.prems(2) storage_op_ok [of H, OF H]]) simp
  have "refs_of d1 h + length js * 262 < 2 ^ 32" for h using spec [OF Cons.prems(4), of h] spec [OF d1(3), of h] by simp
  then obtain d2 where "commit_overlay H js (H (trie_node H ?m)) d1 = (Inr (H (trie_node H (fold op_map (map (storage_op H) js) ?m))), d2)"
      "trie_held H d2 M (fold op_map (map (storage_op H) js) ?m)"
    using Cons.IH [OF inj(2) lm d1(2)] by blast
  then show ?case unfolding commit_overlay_Cons [of _ _ js] using d1(1) by (simp add: kv tbind_def del: commit_overlay.simps)
qed simp

lemma storage_read_held:
  assumes H: "\<And>b. length (H b) = 32" and "trie_held H d M m" "storage_map H m f"
  shows "storage_read H (H (trie_node H m)) k d = (Inr (f k), d)"
proof -
  have "bmap_ok m" using assms(3) by (simp add: storage_map_def level_map_def)
  moreover have "served OverlayDB_ops H d (trie_refs H m)" using assms(2) by (simp add: trie_held_def)
  ultimately have "trie_at OverlayDB_ops (H (trie_node H m)) (H (key_bytes k)) d = (Inr (if f k = 0 then [] else value_bytes (f k)), d)"
    using trie_at_found [of H m "H (key_bytes k)" OverlayDB_ops d, OF H] H [of "key_bytes k"] assms(3) by (simp add: storage_map_def)
  then show ?thesis using secure_open_held [OF assms(2)] value_bytes_simps(1,4) [of "f k"] by (simp add: storage_read_def secure_at_def tbind_def)
qed

subsection \<open>A hash and a database for the witness\<close>

text \<open>A hash for the witness: no collisions on keys and on the nodes of the trie with the key zero alone.\<close>

definition key_hash :: hash_fun where
  "key_hash b = (if length b = 32 then b else of_nat (length b) # take 31 (b @ replicate 31 0))"

definition leaf_bytes :: "nat \<Rightarrow> bytes" where
  "leaf_bytes n = rlp_enc (leaf_item (replicate n 0) [5])"

definition leaf_number :: "bytes \<Rightarrow> nat" where
  "leaf_number h =
     (if h ! 0 = 1 then 65
      else if h ! 0 = 3 then (if h ! 2 = 0x30 then 1 else 0)
      else if h ! 0 = 223 then (if h ! 2 = 0x30 then 57 else 56)
      else 2 * (unat (h ! 0) - 4) + (if h ! 3 = 0x30 then 1 else 0))"

lemma leaf_numbers: "map (\<lambda>b. leaf_number (key_hash b)) (map leaf_bytes [0..<65]) = [0..<65]"
  by code_simp

lemma key_hash_length: "length (key_hash b) = 32"
  by (auto simp: key_hash_def min_def)

lemma zero_key_pieces: "pieces H [(replicate 64 0, [5])] \<subseteq> insert [128] (leaf_bytes ` {0..<65})"
proof -
  have "rlp_enc (node H (sub q [(replicate 64 0, [5])])) \<in> insert [128] (leaf_bytes ` {0..<65})" for q
  proof (cases "prefix q (replicate 64 0)")
    case True
    then have "rlp_enc (node H (sub q [(replicate 64 0, [5])])) = leaf_bytes (64 - length q)"
      by (simp add: sub_Cons node_simps leaf_bytes_def leaf_item_def)
    then show ?thesis by simp
  next
    case False
    then show ?thesis by (simp add: sub_Cons node_simps enc_bytes_def enc_hdr_def)
  qed
  then show ?thesis by (auto simp: pieces_def)
qed

lemma key_hash_inj: "inj_on key_hash (insert [128] (leaf_bytes ` {0..<65}))"
proof (rule inj_on_imageI2)
  have n: "leaf_number (key_hash (leaf_bytes i)) = i" if "i < 65" for i
    using arg_cong [OF leaf_numbers, of "\<lambda>xs. xs ! i"] that by (simp del: upt_rec_numeral)
  have e: "leaf_number (key_hash [128]) = 65" by (simp add: leaf_number_def key_hash_def)
  show "inj_on (leaf_number \<circ> key_hash) (insert [128] (leaf_bytes ` {0..<65}))"
    by (rule inj_onI) (auto simp: n e)
qed

definition zero_state :: State where
  "zero_state = sample_state\<lparr>m_storages := \<lambda>_ _. 0\<rparr>"

definition zero_account :: Account where
  "zero_account = (dead_account sample_backend)\<lparr>m_isAlive := True, m_storageRoot := key_hash [128], m_storageOverlay := [0 \<mapsto> 5]\<rparr>"

definition zero_db :: OverlayDB where
  "zero_db = \<lparr>m_main = [key_hash [128] \<mapsto> ([128], 1)], m_aux = Map.empty, m_enforceRefs = False, m_db = Some Map.empty\<rparr>"

subsection \<open>A committed storage reads back\<close>

lemma storage_committed:
  assumes "\<And>b. length (H b) = 32" "inj_on H {b. length b = 32}" "inj_on H (ops_pieces H (map (storage_op H) js) m)"
    and "storage_map H m (m_storages s (m_storageRoot x))" "hash256 H m = Inr (m_storageRoot x)" "trie_held H d M m"
    and "distinct (map fst js)" "map_of js = m_storageOverlay x" "\<forall>h. refs_of d h + length js * 262 < 2 ^ 32" "st 0"
  shows "\<exists>root d1 d2 M' m'. commit_storage H (m_storageRoot x) js d = (Inr root, d1) \<and> OverlayDB_commit st d1 = Some d2 \<and>
    storage_map H m' (overlaid s x) \<and> hash256 H m' = Inr root \<and> trie_held H d2 M' m' \<and> storage_read H root k d2 = (Inr (overlaid s x k), d2)"
proof -
  let ?os = "map (storage_op H) js" let ?m = "fold op_map ?os m"
  have lm: "level_map 32 m" using assms(4) by (simp add: storage_map_def)
  then have root: "m_storageRoot x = H (trie_node H m)" using hash256_node [of H, OF assms(1)] assms(5) by (simp add: level_map_def)
  have "fold (\<lambda>(k, v) f. f(k := v)) js (m_storages s (m_storageRoot x)) = overlaid s x"
    using fold_updates [OF assms(7)] by (simp add: overlaid_def fun_eq_iff assms(8))
  with storage_map_ops [of H, OF assms(1,2,4), of js] have sm: "storage_map H ?m (overlaid s x)" by simp
  then have ok: "bmap_ok ?m" by (simp add: storage_map_def level_map_def)
  obtain d1 where d1: "commit_overlay H js (H (trie_node H m)) d = (Inr (H (trie_node H ?m)), d1)" "trie_held H d1 M ?m"
    using commit_overlay_held [of H, OF assms(1,3) lm assms(6,9)] by blast
  have "commit_storage H (m_storageRoot x) js d = (Inr (H (trie_node H ?m)), d1)"
    using d1(1) secure_open_held [OF assms(6)] held_root(1,2) [OF d1(2)]
    by (simp add: commit_storage_def root tbind_def trie_root_def db_node_def OverlayDB_ops_def)
  moreover have "[] \<notin># trie_refs H ?m" using trie_refs_pieces [of H ?m] ops_pieces_last [of H ?os m] ops_pieces_ne [of H ?os m] by blast
  from commit_lookup [where st = st and H = H, OF _ _ _ assms(1) this assms(10)] d1(2)
  obtain d2 M' where d2: "OverlayDB_commit st d1 = Some d2" "trie_held H d2 M' ?m" unfolding trie_held_def by blast
  ultimately show ?thesis using sm hash256_node [of H, OF assms(1) ok] storage_read_held [of H, OF assms(1) d2(2) sm, of k] by blast
qed

text \<open>
  So the function \<open>b_root\<close> by which \<open>World_State\<close> has the roots of storages is the computation of these tries: where it gives
  what \<open>hash256\<close> computes, the loop of \<open>dev::eth::commit\<close> returns the root that the model of \<open>commit\<close> puts into the account.
\<close>

lemma committed_root_trie:
  assumes "\<And>b. length (H b) = 32" "inj_on H {b. length b = 32}" "inj_on H (ops_pieces H (map (storage_op H) js) m)"
    and "storage_map H m (m_storages s (m_storageRoot x))" "hash256 H m = Inr (m_storageRoot x)" "trie_held H d M m"
    and "distinct (map fst js)" "map_of js = m_storageOverlay x" "\<forall>h. refs_of d h + length js * 262 < 2 ^ 32"
    and roots: "\<And>m f. storage_map H m f \<Longrightarrow> hash256 H m = Inr (b_root B f)"
  shows "fst (commit_storage H (m_storageRoot x) js d) = Inr (committed_root B s x)"
proof -
  have "b_root B (m_storages s (m_storageRoot x)) = m_storageRoot x" using roots [OF assms(4)] assms(5) by simp
  then have c: "committed_root B s x = b_root B (overlaid s x)" by (rule committed_root_root)
  obtain root d1 m' where "commit_storage H (m_storageRoot x) js d = (Inr root, d1)" "storage_map H m' (overlaid s x)" "hash256 H m' = Inr root"
    using storage_committed [of H js m s x d M "\<lambda>_. True", OF assms(1-9)] by blast
  then show ?thesis using roots [of m' "overlaid s x"] c by simp
qed

text \<open>
  C33: Committing the storage of an account to its trie and the database to the store, and reading it back as \<open>State::storage\<close> does,
  gives the values that the account showed: those written to it, and the earlier ones where there is none. The new root is the
  one that \<open>hash256\<close> computes of the hashed keys and the RLP forms of these values, and the store holds the new trie. Keccak has
  32 bytes, does not collide on keys, nor on the nodes of the tries in between.
\<close>

theorem storage_commit:
  assumes "\<And>b. length (H b) = 32" "inj_on H {b. length b = 32}" "inj_on H (ops_pieces H (map (storage_op H) js) m)"
    and "storage_map H m (m_storages s (m_storageRoot x))" "hash256 H m = Inr (m_storageRoot x)" "trie_held H d M m"
    and "distinct (map fst js)" "map_of js = m_storageOverlay x" "\<forall>h. refs_of d h + length js * 262 < 2 ^ 32" "st 0"
  shows "\<exists>root d1 d2 M' m'. commit_storage H (m_storageRoot x) js d = (Inr root, d1) \<and> OverlayDB_commit st d1 = Some d2 \<and>
    storage_map H m' (overlaid s x) \<and> hash256 H m' = Inr root \<and> trie_held H d2 M' m' \<and> storage_read H root k d2 = (Inr (overlaid s x k), d2)"
  by (rule storage_committed [of H js m s x d M st, OF assms])

theorem storage_commit_witness:
  "\<exists>root d1 d2. commit_storage key_hash (key_hash [128]) [(0, 5)] zero_db = (Inr root, d1) \<and> OverlayDB_commit (\<lambda>_. True) d1 = Some d2 \<and>
    storage_read key_hash root 0 d2 = (Inr 5, d2)"
proof -
  have n: "trie_node key_hash [] = [128]" by (simp add: trie_node_def node_simps enc_bytes_def enc_hdr_def)
  have r: "trie_refs key_hash [] = {#[128]#}" by (simp add: trie_refs_def n nrefs_forms)
  have "toBigEndian 32 0 = replicate 32 0" by code_simp
  then have k: "key_bytes 0 = replicate 32 0" "key_hash (replicate 32 0) = replicate 32 0" by (simp_all add: key_bytes_def key_hash_def)
  have v: "value_bytes 5 = [5]" by code_simp
  have "asNibbles (replicate 32 0) = replicate 64 0" by code_simp
  then have "ops_pieces key_hash (map (storage_op key_hash) [(0, 5)]) [] \<subseteq> insert [128] (leaf_bytes ` {0..<65})"
    using zero_key_pieces [of key_hash] by (auto simp: trie_pieces_def storage_op_def k v pieces_def node_simps enc_bytes_def enc_hdr_def)
  then have inj: "inj_on key_hash (ops_pieces key_hash (map (storage_op key_hash) [(0, 5)]) [])" by (rule inj_on_subset [OF key_hash_inj])
  have i32: "inj_on key_hash {b. length b = 32}" by (rule inj_onI) (simp add: key_hash_def)
  have b: "bmap_ok []" by (simp add: bmap_ok_def)
  have h: "hash256 key_hash [] = Inr (m_storageRoot zero_account)"
    using hash256_node [of key_hash, OF key_hash_length b] by (simp add: n zero_account_def)
  have s: "storage_map key_hash [] (m_storages zero_state (m_storageRoot zero_account))" by (simp add: storage_map_def level_map_def b zero_state_def)
  have t: "trie_held key_hash zero_db Map.empty []"
    by (simp add: trie_held_def store_ok_def zero_db_def r served_def accounted_def refs_of_def OverlayDB_ops_def OverlayDB_lookup_def MemoryDB_lookup_def live_def)
  have f: "\<forall>h. refs_of zero_db h + length [(0 :: u256, 5 :: u256)] * 262 < 2 ^ 32" by (simp add: refs_of_def zero_db_def)
  have o: "map_of [(0, 5)] = m_storageOverlay zero_account" by (simp add: zero_account_def)
  show ?thesis
    using storage_commit [of key_hash "[(0, 5)]" "[]" zero_state zero_account zero_db Map.empty "\<lambda>_. True" 0, OF key_hash_length i32 inj s h t _ o f]
    by (auto simp: zero_account_def overlaid_def)
qed

end
