(* ===== verification/Spec2Isabelle.thy ===== *)
theory Spec2Isabelle
  imports RLP_Properties Qpos_Properties EVM_Properties World_Properties Executive_Properties Tx_Queue_Properties Transaction_RLP
    Trie_Properties World_Storage
begin

text \<open>
  A verification of cpp-swc, a C++ Ethereum node with a consensus of its own (QPOS) in place of proof of work.

  \<^bold>\<open>The program and its parts.\<close> Peers send blocks, transactions and consensus messages in RLP
  (\<open>libdevcore/RLP\<close>). Transactions wait in \<open>libethereum/TransactionQueue\<close>. A QPOS leader (\<open>libqpos\<close>) takes them
  into a block, whose header is \<open>libethcore/BlockHeader\<close>, and collects the signatures of the miners before it seals the
  block; the other nodes check these signatures when they import it. A block's transactions are run one after the other by
  \<open>libethereum/Executive\<close>, which starts the bytecode interpreter \<open>libevm/LegacyVM\<close>; the interpreter reads and changes the
  accounts of \<open>libethereum/State\<close> through \<open>libethereum/ExtVM\<close>, which starts an \<open>Executive\<close> for every sub-call.

  \<^bold>\<open>Conventions.\<close> A C++ class is a record, an enumeration a datatype, a member function a function on the record
  that returns the new record. An exception is the left of a sum (\<open>ebind\<close> in \<open>Prelude\<close> passes it on). Where a handler
  looks at the object after the throw, the error carries the state at the throw. Undefined behaviour is an error
  of its own (\<open>OutOfBounds\<close>, \<open>TqUndefined\<close>), and theorems show that it is not reached. Integers
  have their width: \<open>u256\<close> is a word of 256 bits, counters that can wrap are words or have the reduction written out, and
  \<open>bigint\<close> is unbounded. Code outside the sources or pure primitives (Keccak, secp256k1, the JSON reader, the
  tries and the database, precompiled contracts) are arguments, with what is needed of them as hypotheses: hashes that do not
  collide, a signature that recovers to its signer, a trie that returns what was put in.

  \<^bold>\<open>Theories and what they model.\<close>

  \<^item> \<open>Prelude\<close>: byte strings, \<open>vector_ref::cropped\<close>, results with errors, the big-endian integers of
    \<open>libdevcore/CommonData.h\<close>.
  \<^item> \<open>Common_Data\<close>: hexadecimal text and \<open>FixedHash\<close> (\<open>libdevcore/CommonData\<close>, \<open>FixedHash.h\<close>); the round trip of hexadecimal text.
  \<^item> \<open>RLP_Reader\<close> (class \<open>RLP\<close> with its mutable subscript cache and iterators), \<open>RLP_Stream\<close> (class \<open>RLPStream\<close> with its
    stack of open lists), \<open>RLP_Total\<close>, \<open>RLP_Field\<close>, \<open>RLP_Properties\<close>: the writer refines the recursive encoding \<open>rlp_enc\<close>, the
    reader inverts it, the cache is transparent until a subscript throws, strict views are canonical, loops over items end.
    The locale \<open>rlp_field\<close> is the contract of a written and read field; it is interpreted for byte strings, hashes, integers, pairs
    and 64-bit integers, and the messages and headers rest on it.
  \<^item> \<open>Block_Header\<close>: fields, memoised hashes, RLP form, parsing and \<open>verify\<close>; round trip, and exactly which headers pass.
  \<^item> \<open>Qpos_Engine\<close>, \<open>Qpos\<close>: the engine base and every handler of \<open>class Qpos\<close>. \<open>Qpos_Messages\<close>, \<open>Qpos_Certificate\<close>, \<open>Qpos_Election\<close>,
    \<open>Qpos_Invariant\<close>, \<open>Qpos_Votes\<close>, \<open>Qpos_Properties\<close>: the messages round trip; the step relation \<open>qpos_reach\<close> over all events
    and its invariant; what a leader seals is accepted and carries a majority; certificates of odd miner sets intersect; a round of
    an election; over runs of any events, when a view is granted at most once; and where the code fails: even miner sets, votes left
    over from an earlier block, a view granted twice by a node that is ahead or after a late heartbeat.
  \<^item> \<open>EVM_Types\<close> (instructions and gas schedules), \<open>EVM_Arith\<close>, \<open>EVM\<close> (one pass of the dispatch loop, metering, jump table, calls),
    \<open>EVM_Safety\<close>, \<open>EVM_Run\<close>, \<open>EVM_Properties\<close>: no access out of bounds, memory is paid for, jumps go to marked positions,
    static calls change nothing, arithmetic is what it should be, runs end; and \<open>CREATE2\<close> in a static call.
  \<^item> \<open>World_State\<close> (\<open>Account\<close>, \<open>State\<close> and \<open>CodeSizeCache\<close>: caches, change log, savepoints, commit), \<open>World_View\<close>, \<open>World_Log\<close>,
    \<open>World_Commit\<close>, \<open>World_Properties\<close>: the caches are transparent for the map of accounts \<open>view\<close> (locales \<open>quiet_reader\<close>, which keep
    the contents, and \<open>state_reader\<close>, whose answer is a function of them, interpreted for the readers; \<open>codeSize\<close> answers with the
    length of the code while the process-wide cache of sizes agrees with the hashes of codes that do not collide, an invariant of
    every access), rolling back undoes the logged changes since the savepoint, \<open>commit\<close> stores what the state showed,
    where the storages and codes of that state do not collide; and that \<open>clearStorage\<close> is not undone.
  \<^item> \<open>Executive\<close> (\<open>Executive\<close>, \<open>ExtVM\<close>, the checks of \<open>TransactionBase\<close> and \<open>SealEngine\<close>, \<open>executeTransaction\<close>), \<open>Executive_Setup\<close>,
    \<open>Executive_Safety\<close>, \<open>Executive_Tx\<close>, \<open>Executive_Plain\<close>, \<open>Executive_Properties\<close>: which transactions are admitted, that they end
    and what they cost, that a failed one leaves only its payment, what a transfer does; and that under the default schedule,
    which the engine uses, a transaction can have an endless run. The theorems on arbitrary code are for blocks before the 256th
    after the Constantinople fork: from there on \<open>BLOCKHASH\<close> executes a whole transaction on a contract, which is not modelled.
  \<^item> \<open>Transaction_RLP\<close>: the RLP form of a transaction, its hash and sender, and the parsing constructor (\<open>libethcore/TransactionBase\<close>);
    the round trip, and that whatever is accepted is well-formed and is accepted again in its own form.
  \<^item> \<open>Tx_Queue\<close> (\<open>TransactionQueue\<close>), \<open>Tx_Queue_Invariant\<close>, \<open>Tx_Queue_Import\<close>, \<open>Tx_Queue_Properties\<close>: every sequence of operations
    keeps the indexes, the count of future transactions and the known hashes right and meets no undefined behaviour; what an import
    does; where a transaction is put; and how the order is lost and a bad signature leads to undefined behaviour. The locale
    \<open>assoc_list\<close> of \<open>Assoc_Lists\<close> is the contract of the associative containers, interpreted for \<open>std::map\<close> and
    \<open>std::unordered_map\<close>.
  \<^item> \<open>Memory_DB\<close> (\<open>MemoryDB\<close>, \<open>OverlayDB\<close>, \<open>LevelDB\<close>), \<open>Trie_Hash\<close> (\<open>TrieHash.cpp\<close>, the root of a map computed at once), \<open>Trie_DB\<close>
    (\<open>TrieCommon\<close> and \<open>GenericTrieDB\<close> of \<open>TrieDB.h\<close>). The locale \<open>node_store\<close> is what the trie asks of its database, interpreted for
    both databases. \<open>Trie_Nodes\<close> has the specification, the node of a map; \<open>Trie_Refine\<close>: \<open>TrieHash\<close> writes it; \<open>Trie_Slices\<close>, \<open>Trie_Maps\<close>,
    \<open>Trie_Items\<close>, \<open>Trie_Codec\<close>, \<open>Trie_Ops\<close>: nibble views, parts of a map, the forms of a node, and the steps of the operations;
    \<open>Trie_At\<close>, \<open>Trie_Insert\<close>, \<open>Trie_Merge\<close>, \<open>Trie_Merge_Node\<close>, \<open>Trie_Root\<close> (lookup and insertion), \<open>Trie_Graft\<close>, \<open>Trie_Delete\<close>, \<open>Trie_Delete_Node\<close>,
    \<open>Trie_Remove\<close> (removal), \<open>Trie_Properties\<close>: the operations do on the node what they should on the map, the references they take and
    release are those of the node, and a commit loses no node. Removal is shown for keys of one length, as the state's hashed keys are.
  \<^item> \<open>World_Storage\<close> joins the two: the secure trie (\<open>FatGenericTrieDB\<close>), the loop of \<open>dev::eth::commit\<close> over the storage of an account, and the
    reading of \<open>State::storage\<close>. A committed storage is in the database and reads back as the account showed it, which is what
    \<open>World_State\<close> has of its storages as a map, and the root it returns is the one that \<open>World_State\<close> puts into the account.

  \<^bold>\<open>Bounds and fuel.\<close> Loops are structural recursion, or functions with a measure, except for three. The range-for loop over an
  RLP list compares pointers and need not meet its end: it has fuel, and \<open>RLP_Total\<close> shows that the length of the view is enough on
  every exact view. \<open>interpretCases\<close> is a \<open>partial_function\<close> in the option monad, so that not returning is \<open>None\<close>;
  \<open>evm_terminates\<close> and \<open>transaction_runs\<close> show that it returns, \<open>transaction_never_ends\<close> gives the endless sequence of states where it
  does not. (In \<open>Executive\<close>, \<open>None\<close> is also the end of the process on an exception that nothing handles.) The mutual recursion
  of calls goes through \<open>ext_world\<close>, by recursion on the levels left below the depth of 1024 that the interpreter itself
  checks, so the bound cuts off nothing. The eviction loops of the transaction queue end because what they count gets less; a pass of the
  loop over \<open>m_limit\<close> that removes nothing is the error \<open>TqDiverges\<close>, which is shown not to occur. The recursion of the trie has the
  fuel \<open>6 * length key + 6\<close>: a level of the trie takes at least one of the \<open>2 * length key\<close> nibbles and at most three calls
  (\<open>mergeAt\<close> on the node, on the node cut or branched, and \<open>mergeAtAux\<close>), and the theorems show that the operations return.

  \<^bold>\<open>Not modelled.\<close> The Solidity compiler (\<open>solidity/\<close>, \<open>libsolidity/\<close>) is a copy of another project. Of the tries, the iterators and the debugging
  scans; the state reads them through the lookups of \<open>backend\<close>. The chain and block import (\<open>BlockChain\<close>,
  \<open>Block\<close>, \<open>BlockQueue\<close>, \<open>Client\<close>, \<open>BlockChainSync\<close>) tie the parts above to disk and network. \<open>libp2p\<close>, \<open>libweb3jsonrpc\<close>,
  \<open>libwebthree\<close> and the programs \<open>eth\<close>, \<open>ethkey\<close>, \<open>ethvm\<close> and \<open>rlp\<close> are input and output. \<open>libethash\<close> and
  \<open>libethashseal\<close> are the proof of work that QPOS replaces, with the genesis data. \<open>libdevcrypto\<close> is cryptography, an argument
  here. \<open>libevm/VM.cpp\<close> with \<open>VMSIMD\<close>, \<open>VMOpt\<close> and the bindings of other interpreters are not the interpreter the node starts by default.
  Within the modelled parts: the nested execution of \<open>ExtVM::blockHash\<close>; signals, timers, logging, tracing, threads and locks; handlers and queue operations run one
  at a time because the code runs them on one thread or under one lock.
\<close>


section \<open>From the network into the queue\<close>

text \<open>
  A transaction's RLP form, imported as bytes, is imported as the transaction; and the parser with the full check hands the queue only
  transactions whose sender is known, which is what the queue needs to stay clear of undefined behaviour.
\<close>

lemma import_rlp_form:
  assumes "parsed_ok K t" "length (t_data t) < 2 ^ 59" "t_sender t = Inr a"
  shows "\<exists>b. tx_rlp WithSignature t = Inr b \<and> import_rlp E (\<lambda>b. TransactionBase K b Everything) b ik q = tq_import E t ik q"
proof -
  have fits: "rlp_fits (RList (tx_items t))" using assms by (intro tx_fits) (simp_all add: parsed_ok_def)
  have "t_vrs t \<noteq> None" using assms(1) signed_ok_vrs by (simp add: parsed_ok_def)
  then have "tx_rlp WithSignature t = Inr (rlp_enc (RList (tx_items t)))" using fits by (rule tx_out_enc)
  moreover have "TransactionBase K (rlp_enc (RList (tx_items t))) Everything = Inr t" using parse_enc [OF assms(1) fits] assms(3) by simp
  ultimately show ?thesis by (simp add: import_rlp_def)
qed

lemma import_rlp_safe:
  assumes "tq_inv E T q" "inj_on (txHash E) T" "\<And>b t. TransactionBase K b Everything = Inr t \<Longrightarrow> t \<in> T"
  shows "\<exists>r q'. import_rlp E (\<lambda>b. TransactionBase K b Everything) b ik q = Inr (r, q') \<and> tq_inv E T q'"
proof (cases "TransactionBase K b Everything")
  case (Inl e)
  then show ?thesis using assms(1) by (simp add: import_rlp_def)
next
  case (Inr t)
  then obtain a where "t_sender t = Inr a" using parsed_fields(6) by blast
  then show ?thesis using import_spec [OF assms(1,2) assms(3) [OF Inr], of a ik] Inr by (auto simp: import_rlp_def)
qed

end
